(* ===== verification/Gateway_Prelude.thy ===== *)
theory Gateway_Prelude
  imports Main "HOL-Library.AList" "HOL-Library.Product_Lexorder"
begin

text \<open>
  Shared ground of the development: the widths of the machine integers the gateway uses and their
  saturating operations, the type names the components share, the collections of simplification
  rules, and the generic lemmas on filters, minima and association lists that carry the component
  proofs.

  Unsigned machine integers are natural numbers; where the Rust code saturates, checks or wraps,
  the operation with its width is written out here. Clock readings and deadlines
  (\<^verbatim>\<open>i64\<close> unix seconds) are integers. A Rust \<^verbatim>\<open>String\<close> is its UTF-8 byte sequence, and a HOL
  \<open>char\<close> is one byte.
\<close>

named_theorems gateway_simps "unfolding rules for the small operations of the gateway model"
named_theorems gateway_inv "invariant preservation, one rule for each operation"

type_synonym account_id = nat
type_synonym bytes = string

definition u8_max :: nat where "u8_max = 255"
definition u32_max :: nat where "u32_max = 4294967295"
definition u64_max :: nat where "u64_max = 18446744073709551615"
definition i64_max :: int where "i64_max = 9223372036854775807"
definition i64_min :: int where "i64_min = - 9223372036854775808"

definition sat_add :: "nat \<Rightarrow> nat \<Rightarrow> nat \<Rightarrow> nat" where
  "sat_add m a b = min m (a + b)"

definition sat_mul :: "nat \<Rightarrow> nat \<Rightarrow> nat \<Rightarrow> nat" where
  "sat_mul m a b = min m (a * b)"

definition i64_sat_add :: "int \<Rightarrow> int \<Rightarrow> int" where
  "i64_sat_add a b = max i64_min (min i64_max (a + b))"

text \<open>\<^verbatim>\<open>u8::try_from\<close>: \<open>None\<close> when the value does not fit.\<close>

definition u8_try_from :: "nat \<Rightarrow> nat option" where
  "u8_try_from n = (if n \<le> u8_max then Some n else None)"

lemmas width_defs = u8_max_def u32_max_def u64_max_def i64_max_def i64_min_def

lemma sat_add_le [simp]: "sat_add m a b \<le> m"
  by (simp add: sat_add_def)

lemma sat_add_ge: "a \<le> m \<Longrightarrow> a \<le> sat_add m a b"
  by (simp add: sat_add_def)

lemma sat_add_mono: "a \<le> a' \<Longrightarrow> b \<le> b' \<Longrightarrow> sat_add m a b \<le> sat_add m a' b'"
  by (simp add: sat_add_def)

lemma sat_add_exact: "a + b \<le> m \<Longrightarrow> sat_add m a b = a + b"
  by (simp add: sat_add_def)

lemma sat_mul_le [simp]: "sat_mul m a b \<le> m"
  by (simp add: sat_mul_def)

lemma u8_try_from_Some [simp]: "u8_try_from n = Some r \<longleftrightarrow> r = n \<and> n \<le> u8_max"
  by (auto simp: u8_try_from_def)

lemma u8_try_from_None [simp]: "u8_try_from n = None \<longleftrightarrow> u8_max < n"
  by (auto simp: u8_try_from_def)

subsection \<open>Least elements of a list under a key\<close>

text \<open>
  The idiom \<^verbatim>\<open>let m = xs.iter().map(key).min()?; xs.filter(|x| key(x) == m)\<close> of the scheduler:
  keep the elements whose key is least.
\<close>

definition keep_least :: "('a \<Rightarrow> 'k::linorder) \<Rightarrow> 'a list \<Rightarrow> 'a list" where
  "keep_least k xs = (if xs = [] then [] else filter (\<lambda>x. k x = Min (set (map k xs))) xs)"

lemma keep_least_subset: "set (keep_least k xs) \<subseteq> set xs"
  by (auto simp: keep_least_def)

lemma keep_least_empty [simp]: "keep_least k xs = [] \<longleftrightarrow> xs = []"
proof
  assume h: "keep_least k xs = []"
  show "xs = []"
  proof (rule ccontr)
    assume ne: "xs \<noteq> []"
    then have "Min (set (map k xs)) \<in> set (map k xs)"
      by (intro Min_in) auto
    then obtain x where "x \<in> set xs" "k x = Min (set (map k xs))"
      by auto
    then have "x \<in> set (keep_least k xs)"
      using ne by (auto simp: keep_least_def)
    with h show False by simp
  qed
qed (simp add: keep_least_def)

lemma keep_least_iff:
  "x \<in> set (keep_least k xs) \<longleftrightarrow> x \<in> set xs \<and> (\<forall>y \<in> set xs. k x \<le> k y)"
proof
  assume "x \<in> set (keep_least k xs)"
  then show "x \<in> set xs \<and> (\<forall>y \<in> set xs. k x \<le> k y)"
    by (auto simp: keep_least_def split: if_splits)
next
  assume h: "x \<in> set xs \<and> (\<forall>y \<in> set xs. k x \<le> k y)"
  then have "Min (set (map k xs)) = k x"
    by (intro Min_eqI) auto
  with h show "x \<in> set (keep_least k xs)"
    by (auto simp: keep_least_def)
qed

lemma keep_least_distinct: "distinct xs \<Longrightarrow> distinct (keep_least k xs)"
  by (simp add: keep_least_def)

text \<open>
  Keeping the least under one key and then under another keeps the least under the lexicographic
  pair of the two.
\<close>

definition least_by :: "('a \<Rightarrow> 'k::linorder) \<Rightarrow> 'a set \<Rightarrow> 'a set" where
  "least_by k A = {x \<in> A. \<forall>y \<in> A. k x \<le> k y}"

lemma set_keep_least: "set (keep_least k xs) = least_by k (set xs)"
  by (auto simp: least_by_def keep_least_iff)

lemma least_by_lex: "least_by f (least_by g A) = least_by (\<lambda>x. (g x, f x)) A"
proof (rule set_eqI, rule iffI)
  fix x
  assume x: "x \<in> least_by f (least_by g A)"
  have "(g x, f x) \<le> (g y, f y)" if y: "y \<in> A" for y
  proof (cases "g x = g y")
    case True
    with x y have "y \<in> least_by g A" by (simp add: least_by_def)
    with x True show ?thesis by (simp add: least_by_def)
  next
    case False
    with x y have "g x < g y" by (simp add: least_by_def order.not_eq_order_implies_strict)
    then show ?thesis by simp
  qed
  with x show "x \<in> least_by (\<lambda>x. (g x, f x)) A" by (simp add: least_by_def)
next
  fix x
  assume x: "x \<in> least_by (\<lambda>x. (g x, f x)) A"
  then have g: "\<And>y. y \<in> A \<Longrightarrow> g x \<le> g y" by (fastforce simp: least_by_def)
  have "f x \<le> f y" if "y \<in> least_by g A" for y
    using x that by (force simp: least_by_def)
  with x g show "x \<in> least_by f (least_by g A)" by (simp add: least_by_def)
qed

lemma keep_least_single [simp]: "keep_least k [x] = [x]"
  by (simp add: keep_least_def)

lemma set_map_filter_iff: "t \<in> set (List.map_filter f xs) \<longleftrightarrow> (\<exists>x \<in> set xs. f x = Some t)"
  by (force simp: List.map_filter_def)

lemma map_filter_empty: "List.map_filter f xs = [] \<longleftrightarrow> (\<forall>x \<in> set xs. f x = None)"
  by (auto simp: List.map_filter_def filter_empty_conv)

lemma distinct_set_single: "distinct xs \<Longrightarrow> set xs = {x} \<longleftrightarrow> xs = [x]"
  by (cases xs rule: remdups_adj.cases) auto

lemma find_SomeD: "find P xs = Some x \<Longrightarrow> x \<in> set xs \<and> P x"
  by (auto simp: find_Some_iff)

lemma find_append_case:
  "find P (xs @ ys) = (case find P xs of None \<Rightarrow> find P ys | Some x \<Rightarrow> Some x)"
  by (induction xs) simp_all

subsection \<open>Association lists with one entry for each key\<close>

lemma map_of_update [simp]: "map_of (AList.update k v al) k' = (if k' = k then Some v else map_of al k')"
  by (simp add: update_conv')

lemma update_map_of_same: "map_of al k = Some v \<Longrightarrow> AList.update k v al = al"
  by (induction al) auto

lemma update_update_same [simp]: "AList.update k w (AList.update k v al) = AList.update k w al"
  by (induction al) auto

subsection \<open>The interface of a keyed store\<close>

text \<open>
  Several components are filled from a list of values, each under a key it carries, and then only
  looked up: the registry of endpoints, the model catalog. What their clients rely on is stated
  once: after an insert the value is found under its key and every other key answers as before, so
  a store built from a list answers each key with the last value that carries it.
\<close>

locale keyed_store =
  fixes inv :: "'s \<Rightarrow> bool" and key :: "'v \<Rightarrow> 'k" and put :: "'v \<Rightarrow> 's \<Rightarrow> 's"
    and get :: "'s \<Rightarrow> 'k \<Rightarrow> 'v option"
  assumes put_inv: "inv s \<Longrightarrow> inv (put v s)"
    and get_put: "inv s \<Longrightarrow> get (put v s) k = (if k = key v then Some v else get s k)"
begin

lemma fold_put_inv: "inv s \<Longrightarrow> inv (fold put vs s)"
  by (induction vs arbitrary: s) (auto simp: put_inv)

lemma get_fold_put:
  "inv s \<Longrightarrow> get (fold put vs s) k =
     (case find (\<lambda>v. key v = k) (rev vs) of Some v \<Rightarrow> Some v | None \<Rightarrow> get s k)"
  by (induction vs arbitrary: s) (auto simp: put_inv get_put find_append_case split: option.splits)

end

lemma map_of_filter_keep: "map_of xs k = Some v \<Longrightarrow> P (k, v) \<Longrightarrow> map_of (filter P xs) k = Some v"
  by (induction xs) (auto split: if_splits)

end
