(* ===== verification/Cost.thy ===== *)
theory Cost
  imports Gateway_Prelude Complex_Main
begin

text \<open>
  Token accounting and prices (\<^verbatim>\<open>oag-router/src/cost.rs\<close> and the \<^verbatim>\<open>Pricing\<close> struct of
  \<^verbatim>\<open>catalog.rs\<close>). Money is \<^verbatim>\<open>rust_decimal::Decimal\<close>, a third-party type: it is a linearly ordered
  type \<open>'d\<close> whose arithmetic is the parameter \<open>D\<close> of the definitions. What the properties rely on of
  it is the locale \<open>decimal_laws\<close>: the operations are monotone, as rounded decimal arithmetic is in
  the range where it does not panic, and a few exact values. It is interpreted on exact rationals
  and on a fixed-point arithmetic that truncates at the twenty-eighth decimal.
\<close>

record 'd decimal =
  d_zero :: 'd
  d_one :: 'd
  d_add :: "'d \<Rightarrow> 'd \<Rightarrow> 'd"
  d_mul :: "'d \<Rightarrow> 'd \<Rightarrow> 'd"
  d_div :: "'d \<Rightarrow> 'd \<Rightarrow> 'd"
  d_from_u64 :: "nat \<Rightarrow> 'd"
  d_new :: "nat \<Rightarrow> nat \<Rightarrow> 'd"

locale decimal_laws =
  fixes D :: "'d::linorder decimal"
  assumes zero_le_from: "d_zero D \<le> d_from_u64 D n"
    and from_mono: "m \<le> n \<Longrightarrow> d_from_u64 D m \<le> d_from_u64 D n"
    and add_mono: "a \<le> b \<Longrightarrow> c \<le> e \<Longrightarrow> d_add D a c \<le> d_add D b e"
    and mul_right_mono: "d_zero D \<le> p \<Longrightarrow> a \<le> b \<Longrightarrow> d_mul D a p \<le> d_mul D b p"
    and mul_left_mono: "d_zero D \<le> p \<Longrightarrow> a \<le> b \<Longrightarrow> d_mul D p a \<le> d_mul D p b"
    and mul_one: "d_mul D a (d_one D) = a"
    and div_mono: "d_zero D < c \<Longrightarrow> a \<le> b \<Longrightarrow> d_div D a c \<le> d_div D b c"
    and million_pos: "d_zero D < d_new D 1000000 0"
    and eight_tenths_le: "d_new D 8 1 \<le> d_one D"

definition rat_decimal :: "rat decimal" where
  "rat_decimal = \<lparr>d_zero = 0, d_one = 1, d_add = (+), d_mul = (*), d_div = (/),
     d_from_u64 = of_nat, d_new = (\<lambda>m s. of_nat m / 10 ^ s)\<rparr>"

definition fixed28 :: "int decimal" where
  "fixed28 = \<lparr>d_zero = 0, d_one = 10 ^ 28, d_add = (+), d_mul = (\<lambda>a b. a * b div 10 ^ 28),
     d_div = (\<lambda>a b. a * 10 ^ 28 div b), d_from_u64 = (\<lambda>n. int n * 10 ^ 28),
     d_new = (\<lambda>m s. int m * 10 ^ 28 div 10 ^ s)\<rparr>"

interpretation exact: decimal_laws rat_decimal
  by unfold_locales
    (auto simp: rat_decimal_def mult_right_mono mult_left_mono divide_right_mono)

interpretation fixed: decimal_laws fixed28
  by unfold_locales
    (auto simp: fixed28_def mult_right_mono mult_left_mono zdiv_mono1)

subsection \<open>Usage\<close>

record usage =
  input_tokens :: nat
  output_tokens :: nat
  cache_read_tokens :: nat
  cache_write_tokens :: nat

definition usage_default :: usage where
  "usage_default = \<lparr>input_tokens = 0, output_tokens = 0, cache_read_tokens = 0, cache_write_tokens = 0\<rparr>"

definition total :: "usage \<Rightarrow> nat" where
  "total u = sat_add u64_max (sat_add u64_max (sat_add u64_max (input_tokens u) (output_tokens u))
     (cache_read_tokens u)) (cache_write_tokens u)"

definition cache_hit_rate :: "'d decimal \<Rightarrow> usage \<Rightarrow> 'd" where
  "cache_hit_rate D u =
     (let prompt = sat_add u64_max (input_tokens u) (cache_read_tokens u) in
      if prompt = 0 then d_zero D
      else d_div D (d_from_u64 D (cache_read_tokens u)) (d_from_u64 D prompt))"

definition merge :: "usage \<Rightarrow> usage \<Rightarrow> usage" where
  "merge u patch =
     \<lparr>input_tokens = max (input_tokens u) (input_tokens patch),
      output_tokens = max (output_tokens u) (output_tokens patch),
      cache_read_tokens = max (cache_read_tokens u) (cache_read_tokens patch),
      cache_write_tokens = max (cache_write_tokens u) (cache_write_tokens patch)\<rparr>"

subsection \<open>Prices\<close>

record 'd pricing =
  input_per_mtok :: 'd
  output_per_mtok :: 'd
  cache_read_per_mtok :: "'d option"
  cache_write_per_mtok :: "'d option"

definition TOKENS_PER_MILLION :: "'d decimal \<Rightarrow> 'd" where
  "TOKENS_PER_MILLION D = d_new D 1000000 0"

definition cost :: "'d decimal \<Rightarrow> 'd pricing \<Rightarrow> usage \<Rightarrow> 'd" where
  "cost D p u =
     (let read_rate = (case cache_read_per_mtok p of Some r \<Rightarrow> r | None \<Rightarrow> input_per_mtok p);
          write_rate = (case cache_write_per_mtok p of Some r \<Rightarrow> r | None \<Rightarrow> input_per_mtok p);
          tot = d_add D (d_add D (d_add D
                  (d_mul D (d_from_u64 D (input_tokens u)) (input_per_mtok p))
                  (d_mul D (d_from_u64 D (output_tokens u)) (output_per_mtok p)))
                  (d_mul D (d_from_u64 D (cache_read_tokens u)) read_rate))
                  (d_mul D (d_from_u64 D (cache_write_tokens u)) write_rate)
      in d_div D tot (TOKENS_PER_MILLION D))"

subsection \<open>Merging partial reports\<close>

definition usage_le :: "usage \<Rightarrow> usage \<Rightarrow> bool" where
  "usage_le u v \<longleftrightarrow> input_tokens u \<le> input_tokens v \<and> output_tokens u \<le> output_tokens v \<and>
     cache_read_tokens u \<le> cache_read_tokens v \<and> cache_write_tokens u \<le> cache_write_tokens v"

text \<open>
  Merging is the join of the fieldwise order. The interface a consumer of partial reports relies on
  is that of a join: an upper bound of both, and the least one.
\<close>

locale report_join =
  fixes le :: "'u \<Rightarrow> 'u \<Rightarrow> bool" and join :: "'u \<Rightarrow> 'u \<Rightarrow> 'u"
  assumes le_refl: "le u u"
    and le_antisym: "le u v \<Longrightarrow> le v u \<Longrightarrow> u = v"
    and le_trans: "le u v \<Longrightarrow> le v w \<Longrightarrow> le u w"
    and join_left: "le u (join u v)"
    and join_right: "le v (join u v)"
    and join_least: "le u w \<Longrightarrow> le v w \<Longrightarrow> le (join u v) w"
begin

lemma fold_join_le: "le (fold (\<lambda>r acc. join acc r) rs u) w \<longleftrightarrow> le u w \<and> (\<forall>r \<in> set rs. le r w)"
proof (induction rs arbitrary: u)
  case Nil
  show ?case by simp
next
  case (Cons r rs)
  have "le (join u r) w \<longleftrightarrow> le u w \<and> le r w"
    using join_left join_right join_least le_trans by blast
  with Cons.IH [of "join u r"] show ?case by auto
qed

lemma fold_join_unique:
  assumes "set rs = set rs'"
  shows "fold (\<lambda>r acc. join acc r) rs u = fold (\<lambda>r acc. join acc r) rs' u" (is "?F = ?F'")
proof -
  have "le ?F w = le ?F' w" for w by (simp only: fold_join_le assms)
  then show ?thesis using le_refl le_antisym by metis
qed

end

interpretation usage: report_join usage_le merge
  by unfold_locales (auto simp: usage_le_def merge_def)

text \<open>
  Usage reports of one response may arrive in any order, repeated and split over any events:
  merging them gives the same bill, and no report's count in any field is ever lost.
\<close>

theorem merge_order_irrelevant:
  assumes "set reports = set reports'"
  shows "fold (\<lambda>r u. merge u r) reports u0 = fold (\<lambda>r u. merge u r) reports' u0 \<and>
         (\<forall>r \<in> set reports. usage_le r (fold (\<lambda>r u. merge u r) reports u0))"
  using usage.fold_join_unique [OF assms] usage.fold_join_le [of reports u0 "fold (\<lambda>r u. merge u r) reports u0"]
  by (simp add: usage.le_refl)

theorem merge_order_irrelevant_witness:
  "fold (\<lambda>r u. merge u r) [usage_default\<lparr>input_tokens := 9\<rparr>, usage_default\<lparr>output_tokens := 4\<rparr>] usage_default =
   fold (\<lambda>r u. merge u r) [usage_default\<lparr>output_tokens := 4\<rparr>, usage_default\<lparr>input_tokens := 9\<rparr>,
     usage_default\<lparr>output_tokens := 4\<rparr>] usage_default"
  using merge_order_irrelevant [of "[usage_default\<lparr>input_tokens := 9\<rparr>, usage_default\<lparr>output_tokens := 4\<rparr>]"
      "[usage_default\<lparr>output_tokens := 4\<rparr>, usage_default\<lparr>input_tokens := 9\<rparr>, usage_default\<lparr>output_tokens := 4\<rparr>]"
      usage_default] by auto

definition prices_nonneg :: "'d::linorder decimal \<Rightarrow> 'd pricing \<Rightarrow> bool" where
  "prices_nonneg D p \<longleftrightarrow> d_zero D \<le> input_per_mtok p \<and> d_zero D \<le> output_per_mtok p \<and>
     (case cache_read_per_mtok p of None \<Rightarrow> True | Some r \<Rightarrow> d_zero D \<le> r) \<and>
     (case cache_write_per_mtok p of None \<Rightarrow> True | Some r \<Rightarrow> d_zero D \<le> r)"

context decimal_laws
begin

lemma cost_mono: "prices_nonneg D p \<Longrightarrow> usage_le u v \<Longrightarrow> cost D p u \<le> cost D p v"
  unfolding cost_def Let_def TOKENS_PER_MILLION_def prices_nonneg_def usage_le_def
  by (intro div_mono million_pos add_mono mul_right_mono from_mono)
    (auto split: option.splits)

end

text \<open>
  With non-negative prices a bill never shrinks as more usage is reported: merging a further
  report into a usage never lowers its cost. \<open>decimal_laws\<close> is what is relied on of the decimal
  arithmetic.
\<close>

theorem merging_never_lowers_the_bill:
  assumes "decimal_laws D" and "prices_nonneg D p"
  shows "cost D p u \<le> cost D p (merge u r)"
  using assms(1,2) usage.join_left by (rule decimal_laws.cost_mono)

theorem merging_never_lowers_the_bill_witness:
  "cost fixed28 \<lparr>input_per_mtok = 3, output_per_mtok = 15, cache_read_per_mtok = None,
      cache_write_per_mtok = None\<rparr> (usage_default\<lparr>input_tokens := 9\<rparr>) \<le>
   cost fixed28 \<lparr>input_per_mtok = 3, output_per_mtok = 15, cache_read_per_mtok = None,
      cache_write_per_mtok = None\<rparr> (merge (usage_default\<lparr>input_tokens := 9\<rparr>) (usage_default\<lparr>output_tokens := 5\<rparr>))"
  by (rule merging_never_lowers_the_bill [OF fixed.decimal_laws_axioms])
    (simp add: prices_nonneg_def fixed28_def)

end
