(* ===== verification/Providers.thy ===== *)
theory Providers
  imports Gateway_Prelude
begin

text \<open>
  The vocabulary of \<^verbatim>\<open>oag-core\<close>: credential kinds (\<^verbatim>\<open>credential.rs\<close>), and providers, dialects,
  platforms, authentication styles, operator-registered endpoints and their registry
  (\<^verbatim>\<open>provider.rs\<close>). An endpoint is identified by its name alone, so providers are compared with
  \<open>provider_eq\<close> and never with the equality of the datatype.
\<close>

subsection \<open>Credential kinds\<close>

datatype credential_kind = ApiKey | OAuth | BedrockKey | ServiceAccount

fun refreshable :: "credential_kind \<Rightarrow> bool" where
  "refreshable OAuth = True"
| "refreshable _ = False"

fun flat_rate :: "credential_kind \<Rightarrow> bool" where
  "flat_rate OAuth = True"
| "flat_rate _ = False"

fun qualifier :: "credential_kind \<Rightarrow> string option" where
  "qualifier ApiKey = Some ''api''"
| "qualifier OAuth = Some ''sub''"
| "qualifier BedrockKey = None"
| "qualifier ServiceAccount = None"

definition QUALIFIED :: "credential_kind list" where
  "QUALIFIED = [ApiKey, OAuth]"

definition from_qualifier :: "string \<Rightarrow> credential_kind option" where
  "from_qualifier s = find (\<lambda>k. qualifier k = Some s) QUALIFIED"

fun channel_label :: "credential_kind \<Rightarrow> string" where
  "channel_label ApiKey = ''API key''"
| "channel_label OAuth = ''subscription''"
| "channel_label BedrockKey = ''Bedrock''"
| "channel_label ServiceAccount = ''service account''"

definition kind_from_column :: "string \<Rightarrow> credential_kind option" where
  "kind_from_column s =
     (if s = ''api_key'' then Some ApiKey
      else if s = ''oauth'' then Some OAuth
      else if s = ''bedrock'' then Some BedrockKey
      else if s = ''service_account'' then Some ServiceAccount
      else None)"

fun kind_display :: "credential_kind \<Rightarrow> string" where
  "kind_display ApiKey = ''api_key''"
| "kind_display OAuth = ''oauth''"
| "kind_display BedrockKey = ''bedrock''"
| "kind_display ServiceAccount = ''service_account''"

subsection \<open>Dialects, platforms, authentication styles\<close>

datatype dialect =
    AnthropicMessages | OpenAIChatCompletions | OpenAIResponses | GeminiGenerateContent
  | SystemOne | BedrockConverse

fun dialect_as_str :: "dialect \<Rightarrow> string" where
  "dialect_as_str AnthropicMessages = ''Anthropic Messages''"
| "dialect_as_str OpenAIChatCompletions = ''OpenAI Chat Completions''"
| "dialect_as_str OpenAIResponses = ''OpenAI Responses''"
| "dialect_as_str GeminiGenerateContent = ''Gemini generateContent''"
| "dialect_as_str SystemOne = ''System One''"
| "dialect_as_str BedrockConverse = ''Bedrock Converse''"

definition is_chat :: "dialect \<Rightarrow> bool" where
  "is_chat d = (case d of SystemOne \<Rightarrow> False | _ \<Rightarrow> True)"

fun endpoint_column :: "dialect \<Rightarrow> string option" where
  "endpoint_column OpenAIChatCompletions = Some ''openai''"
| "endpoint_column AnthropicMessages = Some ''anthropic''"
| "endpoint_column GeminiGenerateContent = Some ''gemini''"
| "endpoint_column SystemOne = Some ''system_one''"
| "endpoint_column BedrockConverse = Some ''bedrock_converse''"
| "endpoint_column OpenAIResponses = None"

definition from_endpoint_column :: "string \<Rightarrow> string + dialect" where
  "from_endpoint_column column =
     (if column = ''openai'' then Inr OpenAIChatCompletions
      else if column = ''anthropic'' then Inr AnthropicMessages
      else if column = ''gemini'' then Inr GeminiGenerateContent
      else if column = ''system_one'' then Inr SystemOne
      else if column = ''bedrock_converse'' then Inr BedrockConverse
      else Inl (''unknown dialect `'' @ column
        @ ''`: use openai, anthropic, gemini, system_one or bedrock_converse''))"

datatype platform = Plain | Aws | Gcp | Azure

fun platform_as_str :: "platform \<Rightarrow> string" where
  "platform_as_str Plain = ''plain''"
| "platform_as_str Aws = ''aws''"
| "platform_as_str Gcp = ''gcp''"
| "platform_as_str Azure = ''azure''"

fun speaks :: "platform \<Rightarrow> dialect \<Rightarrow> bool" where
  "speaks Plain d = (d \<in> {OpenAIChatCompletions, AnthropicMessages, GeminiGenerateContent, SystemOne})"
| "speaks Azure d = (d = OpenAIChatCompletions)"
| "speaks Aws d = (d = AnthropicMessages \<or> d = BedrockConverse)"
| "speaks Gcp d = (d = GeminiGenerateContent \<or> d = AnthropicMessages)"

definition platform_from_str :: "string \<Rightarrow> string + platform" where
  "platform_from_str s =
     (if s = ''plain'' then Inr Plain
      else if s = ''aws'' then Inr Aws
      else if s = ''gcp'' then Inr Gcp
      else if s = ''azure'' then Inr Azure
      else Inl (''unknown platform `'' @ s @ ''`: use plain, aws, gcp or azure''))"

datatype auth_style = Bearer | XApiKey | XGoogApiKey | ApiKeyHeader | NoAuth

fun auth_as_str :: "auth_style \<Rightarrow> string" where
  "auth_as_str Bearer = ''bearer''"
| "auth_as_str XApiKey = ''x_api_key''"
| "auth_as_str XGoogApiKey = ''x_goog_api_key''"
| "auth_as_str ApiKeyHeader = ''api_key_header''"
| "auth_as_str NoAuth = ''none''"

fun suits :: "auth_style \<Rightarrow> platform \<Rightarrow> bool" where
  "suits a Plain = True"
| "suits a Azure = (a = ApiKeyHeader)"
| "suits a Gcp = (a = Bearer)"
| "suits a Aws = (a = NoAuth)"

definition auth_from_str :: "string \<Rightarrow> string + auth_style" where
  "auth_from_str s =
     (if s = ''bearer'' then Inr Bearer
      else if s = ''x_api_key'' then Inr XApiKey
      else if s = ''x_goog_api_key'' then Inr XGoogApiKey
      else if s = ''api_key_header'' then Inr ApiKeyHeader
      else if s = ''none'' then Inr NoAuth
      else Inl (''unknown auth style `'' @ s
        @ ''`: use bearer, x_api_key, x_goog_api_key, api_key_header or none''))"

subsection \<open>Endpoints and providers\<close>

record endpoint =
  ep_name :: string
  ep_dialect :: dialect
  ep_platform :: platform

definition endpoint_eq :: "endpoint \<Rightarrow> endpoint \<Rightarrow> bool" where
  "endpoint_eq a b = (ep_name a = ep_name b)"

datatype provider =
    Anthropic | OpenAI | Gemini | Kimi | DeepSeek | Zhipu | XAI | Bedrock | Jev
  | Custom endpoint

fun provider_eq :: "provider \<Rightarrow> provider \<Rightarrow> bool" where
  "provider_eq (Custom a) (Custom b) = endpoint_eq a b"
| "provider_eq p q = (p = q)"

fun native_dialect :: "provider \<Rightarrow> dialect" where
  "native_dialect Anthropic = AnthropicMessages"
| "native_dialect Bedrock = AnthropicMessages"
| "native_dialect OpenAI = OpenAIChatCompletions"
| "native_dialect Kimi = OpenAIChatCompletions"
| "native_dialect DeepSeek = OpenAIChatCompletions"
| "native_dialect Zhipu = OpenAIChatCompletions"
| "native_dialect XAI = OpenAIChatCompletions"
| "native_dialect Gemini = GeminiGenerateContent"
| "native_dialect Jev = SystemOne"
| "native_dialect (Custom e) = ep_dialect e"

fun provider_as_str :: "provider \<Rightarrow> string" where
  "provider_as_str Anthropic = ''anthropic''"
| "provider_as_str OpenAI = ''openai''"
| "provider_as_str Gemini = ''gemini''"
| "provider_as_str Kimi = ''kimi''"
| "provider_as_str DeepSeek = ''deepseek''"
| "provider_as_str Zhipu = ''zhipu''"
| "provider_as_str XAI = ''xai''"
| "provider_as_str Bedrock = ''bedrock''"
| "provider_as_str Jev = ''jev''"
| "provider_as_str (Custom e) = ep_name e"

definition ALL_PROVIDERS :: "provider list" where
  "ALL_PROVIDERS = [Anthropic, OpenAI, Gemini, Kimi, DeepSeek, Zhipu, XAI, Bedrock, Jev]"

definition builtin :: "string \<Rightarrow> provider option" where
  "builtin s =
     (if s = ''anthropic'' then Some Anthropic
      else if s = ''openai'' then Some OpenAI
      else if s = ''gemini'' then Some Gemini
      else if s = ''kimi'' \<or> s = ''moonshot'' then Some Kimi
      else if s = ''deepseek'' then Some DeepSeek
      else if s = ''zhipu'' \<or> s = ''glm'' then Some Zhipu
      else if s = ''xai'' \<or> s = ''grok'' then Some XAI
      else if s = ''bedrock'' then Some Bedrock
      else if s = ''jev'' \<or> s = ''typesafe'' then Some Jev
      else None)"

datatype no_subscription = ProhibitedByTerms string string | NoImporter

datatype subscription_support =
  Served string | CredentialImportOnly string string | NotOffered no_subscription

record provider_support =
  sup_provider :: provider
  display_name :: string
  aliases :: "string list"
  credential_kinds :: "credential_kind list"
  subscription :: subscription_support
  sup_note :: "string option"

fun support :: "provider \<Rightarrow> provider_support" where
  "support Anthropic = \<lparr>sup_provider = Anthropic, display_name = ''Anthropic'', aliases = [], credential_kinds = [ApiKey],
     subscription = NotOffered (ProhibitedByTerms
       ''developers may not collect, store, or intermediate Claude.ai credentials or session tokens''
       ''https://code.claude.com/docs/en/legal-and-compliance''),
     sup_note = Some ''Console API keys, pooled for the org: the carve-out those same terms grant, and the reason api_key is the default kind.''\<rparr>"
| "support OpenAI = \<lparr>sup_provider = OpenAI, display_name = ''OpenAI'', aliases = [], credential_kinds = [ApiKey, OAuth],
     subscription = Served ''oag admin account add --from codex'',
     sup_note = Some ''A Codex seat also needs `gateway.codex.instructions` (or `instructions_path`, e.g. deploy/codex-instructions.txt); without it the backend rejects the request.''\<rparr>"
| "support Gemini = \<lparr>sup_provider = Gemini, display_name = ''Google Gemini'', aliases = [], credential_kinds = [ApiKey],
     subscription = NotOffered NoImporter,
     sup_note = None\<rparr>"
| "support Kimi = \<lparr>sup_provider = Kimi, display_name = ''Moonshot Kimi'', aliases = [''moonshot''],
     credential_kinds = [ApiKey], subscription = NotOffered NoImporter,
     sup_note = None\<rparr>"
| "support DeepSeek = \<lparr>sup_provider = DeepSeek, display_name = ''DeepSeek'', aliases = [], credential_kinds = [ApiKey],
     subscription = NotOffered NoImporter,
     sup_note = None\<rparr>"
| "support Zhipu = \<lparr>sup_provider = Zhipu, display_name = ''Zhipu GLM'', aliases = [''glm''], credential_kinds = [ApiKey],
     subscription = NotOffered NoImporter,
     sup_note = None\<rparr>"
| "support XAI = \<lparr>sup_provider = XAI, display_name = ''xAI'', aliases = [''grok''], credential_kinds = [ApiKey, OAuth],
     subscription = Served ''oag admin account add --from grok'',
     sup_note = Some (''A seat serves the one principal named by --owner-email and nobody else: it is sanctioned for the holder'' @ [CHR 0x27] @ ''s own use.'')\<rparr>"
| "support Bedrock = \<lparr>sup_provider = Bedrock, display_name = ''AWS Bedrock'', aliases = [],
     credential_kinds = [ApiKey, BedrockKey], subscription = NotOffered NoImporter,
     sup_note = Some ''SigV4-signed, billed through your AWS agreement. The credential is stored packed as access_key:secret[:session_token], so it needs no shape of its own.''\<rparr>"
| "support Jev = \<lparr>sup_provider = Jev, display_name = ''Jev (TypeSafe AI)'', aliases = [''typesafe''],
     credential_kinds = [ApiKey], subscription = NotOffered NoImporter,
     sup_note = Some (''Answers System One questions at /jev/v1/systemone and serves no chat model, so a route'' @ [CHR 0x27] @ ''s Jev key is never chosen for a chat request.'')\<rparr>"
| "support (Custom e) = \<lparr>sup_provider = Custom e, display_name = ep_name e, aliases = [],
     credential_kinds = (case ep_platform e of
        Plain \<Rightarrow> [ApiKey] | Azure \<Rightarrow> [ApiKey] | Aws \<Rightarrow> [BedrockKey] | Gcp \<Rightarrow> [ServiceAccount]),
     subscription = NotOffered NoImporter,
     sup_note = None\<rparr>"

definition support_dialect :: "provider_support \<Rightarrow> dialect" where
  "support_dialect s = native_dialect (sup_provider s)"

definition accepts :: "provider_support \<Rightarrow> credential_kind \<Rightarrow> bool" where
  "accepts s kind = (kind \<in> set (credential_kinds s))"

definition api_key :: "provider_support \<Rightarrow> bool" where
  "api_key s = accepts s ApiKey"

definition RESERVED :: "string list" where "RESERVED = [''oag'', ''codex'']"
definition MAX_NAME :: nat where "MAX_NAME = 32"

definition is_ascii_lowercase :: "char \<Rightarrow> bool" where
  "is_ascii_lowercase c = (97 \<le> (of_char c :: nat) \<and> (of_char c :: nat) \<le> 122)"

definition is_ascii_digit :: "char \<Rightarrow> bool" where
  "is_ascii_digit c = (48 \<le> (of_char c :: nat) \<and> (of_char c :: nat) \<le> 57)"

definition validate_name :: "string \<Rightarrow> string + unit" where
  "validate_name name =
     (let well_formed = length name \<le> MAX_NAME \<and>
        (case name of
           [] \<Rightarrow> False
         | b # rest \<Rightarrow> (is_ascii_lowercase b \<or> is_ascii_digit b) \<and>
             list_all (\<lambda>b. is_ascii_lowercase b \<or> is_ascii_digit b \<or> b = CHR ''_'' \<or> b = CHR ''-'') rest)
      in if \<not> well_formed then Inl (''endpoint name `'' @ name @ ''` must be 1 to 32 characters from a-z, 0-9, `_` and `-`, starting with a letter or a digit'')
         else if builtin name \<noteq> None \<or> name \<in> set RESERVED then Inl (''endpoint name `'' @ name @ ''` is reserved: a built-in provider, one of its aliases, `oag` or `codex` already means it'')
         else Inr ())"

definition endpoint_new :: "string \<Rightarrow> dialect \<Rightarrow> platform \<Rightarrow> string + endpoint" where
  "endpoint_new name d pf =
     (case validate_name name of
        Inl e \<Rightarrow> Inl e
      | Inr _ \<Rightarrow> Inr \<lparr>ep_name = name, ep_dialect = d, ep_platform = pf\<rparr>)"

type_synonym endpoint_registry = "(string \<times> endpoint) list"

definition registry_install :: "endpoint list \<Rightarrow> endpoint_registry" where
  "registry_install es = fold (\<lambda>e m. AList.update (ep_name e) e m) es []"

definition registry_get :: "endpoint_registry \<Rightarrow> string \<Rightarrow> endpoint option" where
  "registry_get r name = map_of r name"

datatype unknown_provider = UnknownProviderName string

definition provider_from_str :: "endpoint_registry \<Rightarrow> string \<Rightarrow> unknown_provider + provider" where
  "provider_from_str r s =
     (case builtin s of
        Some p \<Rightarrow> Inr p
      | None \<Rightarrow> (case registry_get r s of
          Some e \<Rightarrow> Inr (Custom e)
        | None \<Rightarrow> Inl (UnknownProviderName s)))"

subsection \<open>Lemmas\<close>

lemma provider_eq_refl [simp]: "provider_eq p p"
  by (cases p) (simp_all add: endpoint_eq_def)

lemma provider_eq_sym: "provider_eq p q \<Longrightarrow> provider_eq q p"
  by (cases p; cases q) (simp_all add: endpoint_eq_def)

lemma provider_eq_trans: "provider_eq p q \<Longrightarrow> provider_eq q r \<Longrightarrow> provider_eq p r"
  by (cases p; cases q; cases r) (simp_all add: endpoint_eq_def)

interpretation registry: keyed_store "\<lambda>_. True" ep_name "\<lambda>e m. AList.update (ep_name e) e m" registry_get
  by unfold_locales (simp_all add: registry_get_def)

lemma registry_get_install:
  "registry_get (registry_install es) n = find (\<lambda>e. ep_name e = n) (rev es)"
  using registry.get_fold_put [where s = "[]" and vs = es and k = n]
  by (simp add: registry_install_def registry_get_def split: option.splits)

lemma builtin_as_str: "p \<in> set ALL_PROVIDERS \<Longrightarrow> builtin (provider_as_str p) = Some p"
  by (auto simp: ALL_PROVIDERS_def builtin_def)

lemma endpoint_new_name:
  "endpoint_new name d pf = Inr e \<Longrightarrow> ep_name e = name \<and> builtin name = None"
  by (auto simp: endpoint_new_def validate_name_def Let_def split: sum.splits if_splits)

text \<open>
  A provider's name parses back to that provider: every built-in whatever is registered, and
  every installed endpoint that \<open>endpoint_new\<close> accepted, because no endpoint can take a built-in's
  name or alias. Of two installed endpoints with one name the parse yields an equal provider.
\<close>

theorem provider_name_roundtrip:
  assumes "p \<in> set ALL_PROVIDERS \<or>
           (\<exists>e name d pf. p = Custom e \<and> e \<in> set installed \<and> endpoint_new name d pf = Inr e)"
  shows "\<exists>q. provider_from_str (registry_install installed) (provider_as_str p) = Inr q \<and> provider_eq q p"
  using assms
proof
  assume "p \<in> set ALL_PROVIDERS"
  then show ?thesis by (simp add: provider_from_str_def builtin_as_str)
next
  assume "\<exists>e name d pf. p = Custom e \<and> e \<in> set installed \<and> endpoint_new name d pf = Inr e"
  then obtain e name d pf where e: "p = Custom e" "e \<in> set installed" "endpoint_new name d pf = Inr e"
    by blast
  from e(3) have nb: "ep_name e = name" "builtin name = None"
    by (auto dest: endpoint_new_name)
  obtain e' where e': "find (\<lambda>e. ep_name e = name) (rev installed) = Some e'"
    using e(2) nb(1) by (cases "find (\<lambda>e. ep_name e = name) (rev installed)") (auto simp: find_None_iff)
  then have "ep_name e' = name" by (auto simp: find_Some_iff)
  then show ?thesis
    using e(1) e' nb by (simp add: provider_from_str_def registry_get_install endpoint_eq_def)
qed

theorem provider_name_roundtrip_witness:
  "\<exists>q. provider_from_str (registry_install [\<lparr>ep_name = ''groq'', ep_dialect = OpenAIChatCompletions,
          ep_platform = Plain\<rparr>]) ''groq'' = Inr q \<and>
       provider_eq q (Custom \<lparr>ep_name = ''groq'', ep_dialect = OpenAIChatCompletions, ep_platform = Plain\<rparr>)"
proof -
  let ?e = "\<lparr>ep_name = ''groq'', ep_dialect = OpenAIChatCompletions, ep_platform = Plain\<rparr>"
  have "endpoint_new ''groq'' OpenAIChatCompletions Plain = Inr ?e"
    by (simp add: endpoint_new_def validate_name_def MAX_NAME_def is_ascii_lowercase_def builtin_def
        RESERVED_def)
  then have "Custom ?e \<in> set ALL_PROVIDERS \<or>
      (\<exists>e name d pf. Custom ?e = Custom e \<and> e \<in> set [?e] \<and> endpoint_new name d pf = Inr e)"
    by auto
  from provider_name_roundtrip [OF this] show ?thesis by simp
qed

text \<open>
  The stored spellings read back: a credential kind's column, the qualifier a client writes
  after \<^verbatim>\<open>@\<close>, a dialect's endpoint column, a platform and an authentication style each parse to
  the value they were printed from, and a kind has a qualifier exactly when \<open>QUALIFIED\<close> lists it.
\<close>

theorem stored_spellings_roundtrip:
  "kind_from_column (kind_display k) = Some k \<and>
   (qualifier k \<noteq> None \<longleftrightarrow> k \<in> set QUALIFIED) \<and>
   (case qualifier k of None \<Rightarrow> True | Some q \<Rightarrow> from_qualifier q = Some k) \<and>
   (case endpoint_column d of None \<Rightarrow> d = OpenAIResponses | Some c \<Rightarrow> from_endpoint_column c = Inr d) \<and>
   platform_from_str (platform_as_str pf) = Inr pf \<and>
   auth_from_str (auth_as_str a) = Inr a"
proof (intro conjI)
  show "kind_from_column (kind_display k) = Some k"
    by (cases k) (simp_all add: kind_from_column_def)
  show "qualifier k \<noteq> None \<longleftrightarrow> k \<in> set QUALIFIED"
    by (cases k) (simp_all add: QUALIFIED_def)
  show "case qualifier k of None \<Rightarrow> True | Some q \<Rightarrow> from_qualifier q = Some k"
    by (cases k) (simp_all add: QUALIFIED_def from_qualifier_def)
  show "case endpoint_column d of None \<Rightarrow> d = OpenAIResponses | Some c \<Rightarrow> from_endpoint_column c = Inr d"
    by (cases d) (simp_all add: from_endpoint_column_def)
  show "platform_from_str (platform_as_str pf) = Inr pf"
    by (cases pf) (simp_all add: platform_from_str_def)
  show "auth_from_str (auth_as_str a) = Inr a"
    by (cases a) (simp_all add: auth_from_str_def)
qed

text \<open>
  The support table agrees with the parser and with itself: every alias of a built-in parses to
  it, a provider serves a subscription exactly when it takes an OAuth credential, Jev is the one
  built-in that speaks System One, and the flat-rate kinds and the refreshable kinds are the one
  kind a seat has.
\<close>

theorem support_table_consistent:
  "list_all (\<lambda>a. provider_from_str r a = Inr p) (aliases (support p)) \<and>
   ((\<exists>import. subscription (support p) = Served import) \<longleftrightarrow> accepts (support p) OAuth) \<and>
   (native_dialect p = SystemOne \<and> p \<in> set ALL_PROVIDERS \<longleftrightarrow> p = Jev) \<and>
   flat_rate k = (k = OAuth) \<and> refreshable k = flat_rate k"
proof (intro conjI)
  show "list_all (\<lambda>a. provider_from_str r a = Inr p) (aliases (support p))"
    by (cases p) (simp_all add: provider_from_str_def builtin_def)
  show "(\<exists>import. subscription (support p) = Served import) \<longleftrightarrow> accepts (support p) OAuth"
    by (cases p) (simp_all add: accepts_def split: platform.splits)
  show "native_dialect p = SystemOne \<and> p \<in> set ALL_PROVIDERS \<longleftrightarrow> p = Jev"
    by (cases p) (simp_all add: ALL_PROVIDERS_def)
qed (cases k; simp)+

end
