(* ===== verification/Rust_Strings.thy ===== *)
theory Rust_Strings
  imports Gateway_Prelude "HOL-Library.Sublist"
begin

text \<open>
  The operations of Rust's \<^verbatim>\<open>str\<close> the gateway uses, on UTF-8 byte sequences: ASCII lower-casing,
  substring search, splitting at a separator, joining, and trimming of Unicode white space. A
  white-space character is its UTF-8 encoding; on well-formed text a match of one of these byte
  sequences at either end is a match of that character.
\<close>

definition to_ascii_lower :: "char \<Rightarrow> char" where
  "to_ascii_lower c =
     (let n = of_char c :: nat in if 65 \<le> n \<and> n \<le> 90 then char_of (n + 32) else c)"

fun str_contains :: "string \<Rightarrow> string \<Rightarrow> bool" where
  "str_contains needle [] = (needle = [])"
| "str_contains needle (c # cs) = (prefix needle (c # cs) \<or> str_contains needle cs)"

fun join_with :: "string \<Rightarrow> string list \<Rightarrow> string" where
  "join_with sep [] = []"
| "join_with sep [x] = x"
| "join_with sep (x # y # rest) = x @ sep @ join_with sep (y # rest)"

text \<open>\<^verbatim>\<open>str::split_once\<close> on a one-byte separator.\<close>

fun split_once :: "char \<Rightarrow> string \<Rightarrow> (string \<times> string) option" where
  "split_once sep [] = None"
| "split_once sep (c # cs) =
     (if c = sep then Some ([], cs) else map_option (\<lambda>(a, b). (c # a, b)) (split_once sep cs))"

text \<open>\<^verbatim>\<open>str::strip_prefix\<close>, and \<^verbatim>\<open>str::split_once\<close> on a longer separator.\<close>

definition strip_prefix :: "string \<Rightarrow> string \<Rightarrow> string option" where
  "strip_prefix p s = (if prefix p s then Some (drop (length p) s) else None)"

fun split_once_str :: "string \<Rightarrow> string \<Rightarrow> (string \<times> string) option" where
  "split_once_str sep [] = (if sep = [] then Some ([], []) else None)"
| "split_once_str sep (c # cs) =
     (if prefix sep (c # cs) then Some ([], drop (length sep) (c # cs))
      else map_option (\<lambda>(a, b). (c # a, b)) (split_once_str sep cs))"

definition byte_string :: "nat list \<Rightarrow> string" where
  "byte_string ns = map char_of ns"

text \<open>The UTF-8 encodings of the characters with the Unicode property White\_Space.\<close>

definition WHITESPACE :: "string list" where
  "WHITESPACE = map byte_string
     ([[9], [10], [11], [12], [13], [32], [194, 133], [194, 160], [225, 154, 128]] @
      map (\<lambda>n. [226, 128, n]) [128, 129, 130, 131, 132, 133, 134, 135, 136, 137, 138, 168, 169, 175] @
      [[226, 129, 159], [227, 128, 128]])"

lemma whitespace_nonempty: "w \<in> set WHITESPACE \<Longrightarrow> w \<noteq> []"
  by (auto simp: WHITESPACE_def byte_string_def)

function trim_start :: "string \<Rightarrow> string" where
  "trim_start s = (case find (\<lambda>w. prefix w s) WHITESPACE of
     None \<Rightarrow> s | Some w \<Rightarrow> trim_start (drop (length w) s))"
  by auto
termination
proof (relation "measure length")
  fix s w
  assume w: "find (\<lambda>w. prefix w s) WHITESPACE = Some w"
  then have "w \<in> set WHITESPACE" "prefix w s" by (auto simp: find_Some_iff)
  then have "w \<noteq> []" "length w \<le> length s" by (auto simp: whitespace_nonempty prefix_length_le)
  then show "(drop (length w) s, s) \<in> measure length" by (cases w) auto
qed simp

function trim_end :: "string \<Rightarrow> string" where
  "trim_end s = (case find (\<lambda>w. suffix w s) WHITESPACE of
     None \<Rightarrow> s | Some w \<Rightarrow> trim_end (take (length s - length w) s))"
  by auto
termination
proof (relation "measure length")
  fix s w
  assume w: "find (\<lambda>w. suffix w s) WHITESPACE = Some w"
  then have "w \<in> set WHITESPACE" "suffix w s" by (auto simp: find_Some_iff)
  then have "w \<noteq> []" "length w \<le> length s" by (auto simp: whitespace_nonempty suffix_length_le)
  then show "(take (length s - length w) s, s) \<in> measure length" by (cases w) auto
qed simp

declare trim_start.simps [simp del] trim_end.simps [simp del]

definition trim :: "string \<Rightarrow> string" where
  "trim s = trim_end (trim_start s)"

subsection \<open>Their laws\<close>

lemma str_contains_iff: "str_contains needle hay \<longleftrightarrow> (\<exists>a b. hay = a @ needle @ b)"
proof (induction hay)
  case Nil
  show ?case by auto
next
  case (Cons c cs)
  have "(\<exists>a b. c # cs = a @ needle @ b) \<longleftrightarrow>
      prefix needle (c # cs) \<or> (\<exists>a b. cs = a @ needle @ b)" (is "?L \<longleftrightarrow> ?R")
  proof
    assume ?L
    then obtain a b where ab: "c # cs = a @ needle @ b" by blast
    then show ?R by (cases a) (auto simp: prefix_def)
  next
    assume ?R
    then show ?L by (auto simp: prefix_def) (metis append_Cons append_Nil)+
  qed
  with Cons.IH show ?case by simp
qed

lemma to_ascii_lower_idem [simp]: "to_ascii_lower (to_ascii_lower c) = to_ascii_lower c"
  by (simp add: to_ascii_lower_def Let_def)

lemma split_once_Some:
  "split_once sep s = Some (a, b) \<longleftrightarrow> s = a @ sep # b \<and> sep \<notin> set a"
proof (induction s arbitrary: a)
  case Nil
  show ?case by simp
next
  case (Cons c cs)
  show ?case by (cases a) (auto simp: Cons.IH)
qed

lemma split_once_None: "split_once sep s = None \<longleftrightarrow> sep \<notin> set s"
  by (induction s) auto

definition trim_done :: "string \<Rightarrow> bool" where
  "trim_done s \<longleftrightarrow> (\<forall>w \<in> set WHITESPACE. \<not> prefix w s \<and> \<not> suffix w s)"

lemma trim_start_done: "w \<in> set WHITESPACE \<Longrightarrow> \<not> prefix w (trim_start s)"
  by (induction s rule: trim_start.induct)
    (subst trim_start.simps, auto split: option.splits simp: find_None_iff)

lemma trim_end_done: "w \<in> set WHITESPACE \<Longrightarrow> \<not> suffix w (trim_end s)"
  by (induction s rule: trim_end.induct)
    (subst trim_end.simps, auto split: option.splits simp: find_None_iff)

lemma trim_end_prefix: "prefix (trim_end s) s"
proof (induction s rule: trim_end.induct)
  case (1 s)
  then show ?case
    by (subst trim_end.simps) (auto split: option.splits intro: prefix_order.trans take_is_prefix)
qed

lemma trim_start_suffix: "suffix (trim_start s) s"
proof (induction s rule: trim_start.induct)
  case (1 s)
  then show ?case
    by (subst trim_start.simps) (auto split: option.splits intro: suffix_order.trans suffix_drop)
qed

lemma trim_is_done: "trim_done (trim s)"
  unfolding trim_done_def trim_def
  using trim_end_done trim_end_prefix trim_start_done by (meson prefix_order.trans)

lemma trim_start_id:
  assumes "trim_done s"
  shows "trim_start s = s"
proof -
  have "find (\<lambda>w. prefix w s) WHITESPACE = None"
    using assms by (simp add: find_None_iff trim_done_def)
  then show ?thesis by (subst trim_start.simps) simp
qed

lemma trim_end_id:
  assumes "trim_done s"
  shows "trim_end s = s"
proof -
  have "find (\<lambda>w. suffix w s) WHITESPACE = None"
    using assms by (simp add: find_None_iff trim_done_def)
  then show ?thesis by (subst trim_end.simps) simp
qed

lemma trim_id: "trim_done s \<Longrightarrow> trim s = s"
  by (simp add: trim_def trim_start_id trim_end_id)

text \<open>Text that starts and ends with a visible ASCII character has nothing to trim.\<close>

definition visible :: "char \<Rightarrow> bool" where
  "visible c = (33 \<le> (of_char c :: nat) \<and> (of_char c :: nat) \<le> 126)"

lemma whitespace_invisible: "list_all (\<lambda>w. \<not> visible (hd w) \<and> \<not> visible (last w)) WHITESPACE"
  by (simp add: WHITESPACE_def byte_string_def visible_def)

lemma trim_done_visible:
  assumes "s \<noteq> []" "visible (hd s)" "visible (last s)"
  shows "trim_done s"
  unfolding trim_done_def
proof (intro ballI conjI notI)
  fix w
  assume w: "w \<in> set WHITESPACE"
  then have inv: "\<not> visible (hd w)" "\<not> visible (last w)" "w \<noteq> []"
    using whitespace_invisible whitespace_nonempty by (auto simp: list_all_iff)
  show False if "prefix w s"
    using that inv assms(2) by (auto simp: prefix_def)
  show False if "suffix w s"
    using that inv assms(3) by (auto simp: suffix_def)
qed

lemma trim_idem [simp]: "trim (trim s) = trim s"
  by (rule trim_id [OF trim_is_done])

lemma trim_infix: "\<exists>a b. s = a @ trim s @ b"
proof -
  obtain a where a: "s = a @ trim_start s"
    using trim_start_suffix [of s] by (auto simp: suffix_def)
  obtain b where "trim_start s = trim s @ b"
    using trim_end_prefix [of "trim_start s"] by (auto simp: prefix_def trim_def)
  with a show ?thesis by metis
qed

subsection \<open>Decimal numerals\<close>

definition digit_char :: "nat \<Rightarrow> char" where
  "digit_char d = char_of (48 + d)"

fun show_nat :: "nat \<Rightarrow> string" where
  "show_nat n = (if n < 10 then [digit_char n] else show_nat (n div 10) @ [digit_char (n mod 10)])"

declare show_nat.simps [simp del]

definition is_digit :: "char \<Rightarrow> bool" where
  "is_digit c = (48 \<le> (of_char c :: nat) \<and> (of_char c :: nat) \<le> 57)"

lemma of_digit_char: "d < 10 \<Longrightarrow> (of_char (digit_char d) :: nat) = 48 + d"
  by (simp add: digit_char_def)

lemma is_digit_char [simp]: "d < 10 \<Longrightarrow> is_digit (digit_char d)"
  by (simp add: is_digit_def of_digit_char)

lemma show_nat_digits: "list_all is_digit (show_nat n)"
proof (induction n rule: show_nat.induct)
  case (1 n)
  then show ?case by (subst show_nat.simps) simp
qed

lemma show_nat_value: "foldl (\<lambda>a c. 10 * a + (of_char c - 48)) 0 (show_nat n) = n"
proof (induction n rule: show_nat.induct)
  case (1 n)
  then show ?case by (subst show_nat.simps) (auto simp: of_digit_char)
qed

lemma show_nat_inj: "show_nat m = show_nat n \<Longrightarrow> m = n"
  using show_nat_value by metis

lemma show_nat_length: "0 < k \<Longrightarrow> n < 10 ^ k \<Longrightarrow> length (show_nat n) \<le> k"
proof (induction k arbitrary: n)
  case (Suc k)
  show ?case
  proof (cases "n < 10")
    case True
    then show ?thesis by (subst show_nat.simps) simp
  next
    case False
    then have "0 < k" "n div 10 < 10 ^ k" using Suc.prems by (cases k; simp add: less_mult_imp_div_less mult.commute)+
    with Suc.IH False show ?thesis by (subst show_nat.simps) simp
  qed
qed simp

end
