(* ===== verification/Errors.thy ===== *)
theory Errors
  imports Providers Rust_Strings
begin

text \<open>
  The error vocabulary of \<^verbatim>\<open>oag-core/src/error.rs\<close>: the error type, the spend cap that stopped a
  request, the words
  of each error (\<^verbatim>\<open>Display for Error\<close>), and the classification of a failure that drives retry,
  failover and escalation.
  Durations are whole milliseconds, the resolution at which the gateway compares them. The payload
  of \<^verbatim>\<open>Error::Serde\<close>, a third-party error value, is its message.
\<close>

type_synonym duration = nat

definition from_secs :: "nat \<Rightarrow> duration" where "from_secs n = 1000 * n"
definition from_mins :: "nat \<Rightarrow> duration" where "from_mins n = 60000 * n"
definition from_hours :: "nat \<Rightarrow> duration" where "from_hours n = 3600000 * n"

lemmas duration_defs = from_secs_def from_mins_def from_hours_def

datatype budget_scope = ScopeApiKey | ScopeRoute | ScopePrincipal

fun scope_display :: "budget_scope \<Rightarrow> string" where
  "scope_display ScopeApiKey = ''the quota on this API key''"
| "scope_display ScopeRoute = ''the monthly budget for this route''"
| "scope_display ScopePrincipal = ''the monthly budget for this principal''"

datatype error =
    UnknownProvider string
  | Config string
  | NoCredential provider
  | UnknownModelChannel string
  | ChannelNotOffered provider credential_kind
  | NoCredentialOfKind provider credential_kind
  | ReserveHeld provider int
  | AtCapacity provider nat
  | NoViableModel string
  | Unauthenticated
  | BudgetExhausted budget_scope
  | RateLimited duration
  | Overloaded
  | UnsupportedAction string
  | UnsupportedField string dialect
  | Upstream (u_provider: provider) (u_account: account_id) (u_status: nat) (u_body: string)
      (u_retry_after: "duration option")
  | StreamIdle duration
  | UpstreamTimeout duration
  | UpstreamUnavailable string bool
  | SystemOneNotConfigured string provider
  | Serde string
  | Internal string

definition holder :: "provider \<Rightarrow> string" where
  "holder p = (case p of Jev \<Rightarrow> ''Jev'' | other \<Rightarrow> provider_as_str other)"

definition model_channel_qualifiers :: string where
  "model_channel_qualifiers = join_with '', '' (List.map_filter
     (\<lambda>k. map_option (\<lambda>q. ''@'' @ q @ '' ('' @ channel_label k @ '')'') (qualifier k)) QUALIFIED)"

subsection \<open>Errors as text\<close>

definition show_int :: "int \<Rightarrow> string" where
  "show_int i = (if i < 0 then CHR ''-'' # show_nat (nat (- i)) else show_nat (nat i))"

text \<open>\<^verbatim>\<open>Debug for Duration\<close> on whole milliseconds.\<close>

definition pad3 :: "nat \<Rightarrow> string" where
  "pad3 ms = (let d = show_nat ms in replicate (3 - length d) CHR ''0'' @ d)"

definition strip_zeros :: "string \<Rightarrow> string" where
  "strip_zeros s = rev (dropWhile (\<lambda>c. c = CHR ''0'') (rev s))"

definition duration_debug :: "duration \<Rightarrow> string" where
  "duration_debug d =
     (let secs = d div 1000; ms = d mod 1000 in
      if secs > 0 then show_nat secs @ (if ms = 0 then [] else CHR ''.'' # strip_zeros (pad3 ms)) @ ''s''
      else if ms > 0 then show_nat ms @ ''ms''
      else ''0ns'')"

fun error_display :: "error \<Rightarrow> string" where
  "error_display (UnknownProvider s) = ''unknown provider: '' @ s"
| "error_display (Config s) = ''configuration: '' @ s"
| "error_display (NoCredential p) = ''no credential available for provider '' @ provider_as_str p @ '' on this route''"
| "error_display (UnknownModelChannel q) =
     ''unknown model qualifier `@'' @ q @ ''`; use one of '' @ model_channel_qualifiers"
| "error_display (ChannelNotOffered p k) =
     provider_as_str p @ '' cannot be reached through a '' @ channel_label k @ '' credential''"
| "error_display (NoCredentialOfKind p k) =
     ''no '' @ channel_label k @ '' credential for '' @ provider_as_str p @ '' on this route''"
| "error_display (ReserveHeld p pct) =
     ''every '' @ provider_as_str p @ '' credential is at or below its '' @ show_int pct @ ''% quota reserve; '' @
     ''lower it with `oag admin account set-reserve`, wait for the usage window '' @
     ''to reset, or add another credential''"
| "error_display (AtCapacity p n) =
     ''all '' @ show_nat n @ '' credentials for '' @ provider_as_str p @ '' are at their concurrency limit''"
| "error_display (NoViableModel s) = s"
| "error_display Unauthenticated = ''authentication failed''"
| "error_display (BudgetExhausted scope) = scope_display scope @ '' exhausted''"
| "error_display (RateLimited _) = ''route rate limit exceeded''"
| "error_display Overloaded = ''this replica is at capacity; retry''"
| "error_display (UnsupportedAction a) = ''unsupported action: '' @ a"
| "error_display (UnsupportedField f d) = dialect_as_str d @ '' cannot express `'' @ f @ ''`, which this request set''"
| "error_display (Upstream p _ status _ _) = ''upstream '' @ provider_as_str p @ '' returned '' @ show_nat status"
| "error_display (StreamIdle d) = ''upstream stream stalled after '' @ duration_debug d @ '' with no data''"
| "error_display (UpstreamTimeout d) = ''upstream sent no response within '' @ duration_debug d"
| "error_display (UpstreamUnavailable reason _) = ''the upstream is unavailable: '' @ reason"
| "error_display (SystemOneNotConfigured route p) =
     ''System One is not configured on this route: route '' @ [CHR 0x27] @ route @ [CHR 0x27] @ '' holds no '' @ holder p @
     '' credential. Add one with `oag admin account add --name <name> --provider '' @ provider_as_str p @
     '' --secret <key> --route '' @ route @ ''`''"
| "error_display (Serde s) = ''serialisation: '' @ s"
| "error_display (Internal s) = s"

datatype disposition =
    RetrySameAccount
  | FailoverAccount (d_cooldown: duration)
  | DRateLimited (d_retry_after: "duration option")
  | EscalateTier
  | DFatal

definition CAPABILITY_MARKERS :: "string list" where
  "CAPABILITY_MARKERS = [''context_length_exceeded'', ''context length'', ''context window'',
     ''prompt is too long'', ''token count'', ''too many tokens'']"

definition names_a_capability_limit :: "string \<Rightarrow> bool" where
  "names_a_capability_limit body =
     list_ex (\<lambda>marker. str_contains marker (map to_ascii_lower body)) CAPABILITY_MARKERS"

definition DISPOSITION_COOLDOWN :: duration where
  "DISPOSITION_COOLDOWN = from_mins 10"

definition upstream_disposition :: "nat \<Rightarrow> string \<Rightarrow> duration option \<Rightarrow> disposition" where
  "upstream_disposition status body retry_after =
     (if status \<in> {401, 403} then FailoverAccount DISPOSITION_COOLDOWN
      else if status = 402 then FailoverAccount (from_hours 1)
      else if status \<in> {408, 409, 425} then RetrySameAccount
      else if status = 429 then DRateLimited retry_after
      else if status \<in> {500, 502, 503, 504, 529} then FailoverAccount (from_secs 30)
      else if status \<in> {413, 422} then EscalateTier
      else if status = 400 \<and> names_a_capability_limit body then EscalateTier
      else DFatal)"

fun disposition_of :: "error \<Rightarrow> disposition" where
  "disposition_of (Upstream _ _ status body retry_after) = upstream_disposition status body retry_after"
| "disposition_of (StreamIdle _) = FailoverAccount (from_mins 1)"
| "disposition_of (UpstreamTimeout _) = FailoverAccount (from_secs 30)"
| "disposition_of (UpstreamUnavailable _ lasting) =
     (if lasting then FailoverAccount DISPOSITION_COOLDOWN else FailoverAccount (from_secs 30))"
| "disposition_of (NoCredential _) = EscalateTier"
| "disposition_of (ReserveHeld _ _) = EscalateTier"
| "disposition_of (NoViableModel _) = EscalateTier"
| "disposition_of (AtCapacity _ _) = RetrySameAccount"
| "disposition_of _ = DFatal"

subsection \<open>What the classification promises\<close>

text \<open>Two bodies that differ in letter case alone are classified alike.\<close>

lemma capability_limit_case_insensitive:
  "map to_ascii_lower body = map to_ascii_lower body' \<Longrightarrow>
   names_a_capability_limit body = names_a_capability_limit body'"
  by (simp add: names_a_capability_limit_def)

lemma disposition_cooldown_bound:
  "disposition_of e = FailoverAccount cooldown \<Longrightarrow> from_secs 30 \<le> cooldown \<and> cooldown \<le> from_hours 1"
  by (cases e)
    (auto simp: upstream_disposition_def duration_defs DISPOSITION_COOLDOWN_def split: if_splits)

text \<open>
  What a failed upstream call does to its credential and its request: a cooldown is always
  between thirty seconds and one hour, so no failure takes a credential out of the pool for good;
  only a 429 is a rate limit, and it carries the provider's own hint unchanged; a 400 climbs the
  ladder exactly when its body contains, in any letter case, one of the capability markers, and is
  otherwise final.
\<close>

theorem disposition_is_bounded_and_exact:
  "(\<forall>cooldown. disposition_of e = FailoverAccount cooldown \<longrightarrow>
      from_secs 30 \<le> cooldown \<and> cooldown \<le> from_hours 1) \<and>
   (\<forall>ra. disposition_of e = DRateLimited ra \<longleftrightarrow> (\<exists>p a b. e = Upstream p a 429 b ra)) \<and>
   disposition_of (Upstream p a 400 body ra) =
     (if \<exists>pre post. \<exists>marker \<in> set CAPABILITY_MARKERS. map to_ascii_lower body = pre @ marker @ post
      then EscalateTier else DFatal)"
proof (intro conjI allI impI)
  fix ra
  show "disposition_of e = DRateLimited ra \<longleftrightarrow> (\<exists>p a b. e = Upstream p a 429 b ra)"
    by (cases e) (auto simp: upstream_disposition_def split: if_splits)
next
  have "names_a_capability_limit body \<longleftrightarrow>
    (\<exists>pre post. \<exists>marker \<in> set CAPABILITY_MARKERS. map to_ascii_lower body = pre @ marker @ post)"
    unfolding names_a_capability_limit_def list_ex_iff str_contains_iff by blast
  then show "disposition_of (Upstream p a 400 body ra) =
     (if \<exists>pre post. \<exists>marker \<in> set CAPABILITY_MARKERS. map to_ascii_lower body = pre @ marker @ post
      then EscalateTier else DFatal)"
    by (simp add: upstream_disposition_def)
qed (use disposition_cooldown_bound in blast)+

theorem disposition_is_bounded_and_exact_witness:
  "disposition_of (Upstream OpenAI 1 503 [] None) = FailoverAccount (from_secs 30) \<and>
   from_secs 30 \<le> from_hours 1 \<and>
   disposition_of (Upstream Anthropic 1 400 ''Prompt is too LONG: 9'' None) = EscalateTier"
proof -
  have "map to_ascii_lower ''Prompt is too LONG: 9'' = '''' @ ''prompt is too long'' @ '': 9''"
    by code_simp
  moreover have "''prompt is too long'' \<in> set CAPABILITY_MARKERS" by (simp add: CAPABILITY_MARKERS_def)
  ultimately have "\<exists>pre post. \<exists>marker \<in> set CAPABILITY_MARKERS.
      map to_ascii_lower ''Prompt is too LONG: 9'' = pre @ marker @ post" by blast
  moreover have "disposition_of (Upstream OpenAI 1 503 [] None) = FailoverAccount (from_secs 30)"
    by (simp add: upstream_disposition_def)
  ultimately show ?thesis
    using disposition_is_bounded_and_exact [of "Upstream OpenAI 1 503 [] None" Anthropic 1
        "''Prompt is too LONG: 9''" None] by simp
qed

end
