(* ===== verification/Efforts.thy ===== *)
theory Efforts
  imports Errors
begin

text \<open>
  Reasoning-effort levels (\<^verbatim>\<open>oag-router/src/efforts.rs\<close>): the known levels in order, a model's levels
  and default, the override table, OpenRouter's snapshot, and the plan that gives every catalog row
  its levels. The JSON reader of the override table is third-party code, so the table enters as the
  entries it yields, in the order the reader's map yields them; a hash map probed but never
  iterated is an association list.
\<close>

record level =
  lv_value :: string
  lv_label :: string

definition LEVELS :: "level list" where
  "LEVELS = [
     \<lparr>lv_value = ''none'', lv_label = ''None Effort''\<rparr>,
     \<lparr>lv_value = ''minimal'', lv_label = ''Minimal Effort''\<rparr>,
     \<lparr>lv_value = ''low'', lv_label = ''Low Effort''\<rparr>,
     \<lparr>lv_value = ''medium'', lv_label = ''Medium Effort''\<rparr>,
     \<lparr>lv_value = ''high'', lv_label = ''High Effort''\<rparr>,
     \<lparr>lv_value = ''xhigh'', lv_label = ''Xhigh Effort''\<rparr>,
     \<lparr>lv_value = ''max'', lv_label = ''Max Effort''\<rparr>,
     \<lparr>lv_value = ''ultra'', lv_label = ''Ultra Effort''\<rparr>]"

record reasoning_efforts =
  re_levels :: "level list"
  re_default :: level

definition efforts_new :: "string list \<Rightarrow> string \<Rightarrow> reasoning_efforts option" where
  "efforts_new given dflt =
     (if \<not> list_all (\<lambda>v. list_ex (\<lambda>known. lv_value known = v) LEVELS) given then None
      else let levels = filter (\<lambda>known. lv_value known \<in> set given) LEVELS in
        case find (\<lambda>l. lv_value l = dflt) levels of
          None \<Rightarrow> None
        | Some d \<Rightarrow> Some \<lparr>re_levels = levels, re_default = d\<rparr>)"

definition re_values :: "reasoning_efforts \<Rightarrow> string list" where
  "re_values e = map lv_value (re_levels e)"

record stated =
  st_efforts :: "string list"
  st_default :: "string option"
  st_source :: string

type_synonym overrides = "(string \<times> reasoning_efforts option) list"

definition parse_entry :: "string \<Rightarrow> stated \<Rightarrow> error + reasoning_efforts option" where
  "parse_entry mid entry =
     (if trim (st_source entry) = [] then
        Inl (Config (''the reasoning-effort override for '' @ mid @ '' names no source''))
      else case (st_efforts entry = [], st_default entry) of
        (True, None) \<Rightarrow> Inr None
      | (False, Some dflt) \<Rightarrow>
          (case efforts_new (st_efforts entry) dflt of
             Some e \<Rightarrow> Inr (Some e)
           | None \<Rightarrow> Inl (Config (''the reasoning-effort override for '' @ mid
               @ '' names a level outside '' @ join_with '', '' (map lv_value LEVELS)
               @ '', or a default it does not list'')))
      | _ \<Rightarrow> Inl (Config (''the reasoning-effort override for '' @ mid
          @ '' names levels and a default among them, or neither'')))"

fun overrides_parse_from :: "overrides \<Rightarrow> (string \<times> stated) list \<Rightarrow> error + overrides" where
  "overrides_parse_from table [] = Inr table"
| "overrides_parse_from table ((mid, entry) # rest) =
     (case parse_entry mid entry of
        Inl e \<Rightarrow> Inl e
      | Inr efforts \<Rightarrow> overrides_parse_from (AList.update mid efforts table) rest)"

definition overrides_parse :: "(string \<times> stated) list \<Rightarrow> error + overrides" where
  "overrides_parse stated = overrides_parse_from [] stated"

definition VENDORS :: "(string \<times> string) list" where
  "VENDORS = [(''x-ai'', ''xai''), (''z-ai'', ''zai''), (''zhipu'', ''zai''),
     (''moonshotai'', ''moonshot''), (''kimi'', ''moonshot''), (''gemini'', ''google''),
     (''mistralai'', ''mistral''), (''meta-llama'', ''meta'')]"

definition canonical :: "string \<Rightarrow> string option" where
  "canonical name =
     (case split_once (CHR ''/'') name of
        None \<Rightarrow> None
      | Some (vendor, model) \<Rightarrow>
          let vendor = (case find (\<lambda>(spelt, _). spelt = vendor) VENDORS of
                          None \<Rightarrow> vendor | Some (_, one) \<Rightarrow> one)
          in Some (vendor @ ''/'' @ model))"

type_synonym snapshot = "(string \<times> reasoning_efforts) list"

definition snapshot_new :: "(string \<times> reasoning_efforts) list \<Rightarrow> snapshot" where
  "snapshot_new listed = fold (\<lambda>(mid, efforts) m.
     case canonical mid of
       None \<Rightarrow> m
     | Some name \<Rightarrow> (case map_of m name of None \<Rightarrow> AList.update name efforts m | Some _ \<Rightarrow> m)) listed []"

definition vendor_name :: "string \<Rightarrow> string \<Rightarrow> string option" where
  "vendor_name mid provider =
     (if list_ex (\<lambda>p. provider_as_str p = provider) ALL_PROVIDERS then canonical mid
      else case split_once (CHR ''/'') mid of None \<Rightarrow> None | Some (_, rest) \<Rightarrow> canonical rest)"

record tally =
  overridden :: nat
  listed :: nat
  unknown :: nat

definition row_levels :: "overrides \<Rightarrow> snapshot \<Rightarrow> string \<times> string \<Rightarrow> tally \<Rightarrow>
    (string \<times> reasoning_efforts option) \<times> tally" where
  "row_levels ov openrouter = (\<lambda>(mid, provider) t.
     case map_of ov mid of
       Some stated \<Rightarrow> ((mid, stated), t\<lparr>overridden := overridden t + 1\<rparr>)
     | None \<Rightarrow>
         (case Option.bind (vendor_name mid provider) (map_of openrouter) of
            Some l \<Rightarrow> ((mid, Some l), t\<lparr>listed := listed t + 1\<rparr>)
          | None \<Rightarrow> ((mid, None), t\<lparr>unknown := unknown t + 1\<rparr>)))"

fun plan_from :: "overrides \<Rightarrow> snapshot \<Rightarrow> (string \<times> string) list \<Rightarrow> tally \<Rightarrow>
    (string \<times> reasoning_efforts option) list \<times> tally" where
  "plan_from ov openrouter [] t = ([], t)"
| "plan_from ov openrouter (row # rows) t =
     (let (r, t1) = row_levels ov openrouter row t; (rs, t2) = plan_from ov openrouter rows t1
      in (r # rs, t2))"

definition plan_efforts :: "(string \<times> string) list \<Rightarrow> overrides \<Rightarrow> snapshot \<Rightarrow>
    (string \<times> reasoning_efforts option) list \<times> tally" where
  "plan_efforts rows ov openrouter =
     plan_from ov openrouter rows \<lparr>overridden = 0, listed = 0, unknown = 0\<rparr>"

subsection \<open>Well-formed levels\<close>

text \<open>
  At least one level, all known, in the order of the known levels and without repetition, and a
  default among them.
\<close>

definition efforts_wf :: "reasoning_efforts \<Rightarrow> bool" where
  "efforts_wf e \<longleftrightarrow>
     re_levels e = filter (\<lambda>l. l \<in> set (re_levels e)) LEVELS \<and> re_default e \<in> set (re_levels e)"

lemma levels_inj: "inj_on lv_value (set LEVELS)"
  by (simp add: LEVELS_def)

lemma filter_idem_set: "filter (\<lambda>x. x \<in> set (filter P xs)) xs = filter P xs"
  by (rule filter_cong) auto

lemma efforts_new_Some:
  "efforts_new given dflt = Some e \<longleftrightarrow>
   set given \<subseteq> lv_value ` set LEVELS \<and>
   re_levels e = filter (\<lambda>known. lv_value known \<in> set given) LEVELS \<and>
   find (\<lambda>l. lv_value l = dflt) (re_levels e) = Some (re_default e)"
  by (cases e) (auto simp: efforts_new_def Let_def list_all_iff list_ex_iff split: option.splits)

lemma efforts_new_wf: "efforts_new given dflt = Some e \<Longrightarrow> efforts_wf e"
  using filter_idem_set [of "\<lambda>known. lv_value known \<in> set given" LEVELS]
  by (auto simp: efforts_new_Some efforts_wf_def simp del: set_filter dest: find_SomeD)

lemma efforts_levels_known: "efforts_wf e \<Longrightarrow> l \<in> set (re_levels e) \<Longrightarrow> l \<in> set LEVELS"
  unfolding efforts_wf_def by (metis filter_is_subset subsetD)

lemma efforts_values_levels:
  assumes "efforts_wf e"
  shows "filter (\<lambda>known. lv_value known \<in> set (re_values e)) LEVELS = re_levels e"
proof -
  have "lv_value l \<in> set (re_values e) \<longleftrightarrow> l \<in> set (re_levels e)" if "l \<in> set LEVELS" for l
    using that efforts_levels_known [OF assms] levels_inj
    by (auto simp: re_values_def inj_on_def)
  then have "filter (\<lambda>known. lv_value known \<in> set (re_values e)) LEVELS =
      filter (\<lambda>l. l \<in> set (re_levels e)) LEVELS"
    by (intro filter_cong) auto
  with assms show ?thesis by (simp add: efforts_wf_def)
qed

lemma find_unique:
  assumes "x \<in> set xs" "inj_on f (set xs)"
  shows "find (\<lambda>y. f y = f x) xs = Some x"
  using assms by (induction xs) (auto simp: inj_on_def)

lemma efforts_reload:
  assumes wf: "efforts_wf e" and given: "set given = set (re_values e)"
  shows "efforts_new given (lv_value (re_default e)) = Some e"
proof -
  have known: "set (re_levels e) \<subseteq> set LEVELS" using efforts_levels_known [OF wf] by blast
  moreover have "find (\<lambda>l. lv_value l = lv_value (re_default e)) (re_levels e) = Some (re_default e)"
    using wf known levels_inj by (intro find_unique) (auto simp: efforts_wf_def intro: inj_on_subset)
  ultimately show ?thesis
    using efforts_values_levels [OF wf] unfolding efforts_new_Some given by (auto simp: re_values_def)
qed

text \<open>
  C38. The levels a catalog row stores come back as they were: whatever order and repetition a source
  lists them in, constructing a model's levels yields at least one known level, in ascending order,
  each once, with a default among them; and constructing again from the stored values, in any order,
  with the stored default gives the same levels.
\<close>

theorem stored_levels_roundtrip:
  assumes "efforts_new given dflt = Some e" and "set again = set (re_values e)"
  shows "efforts_wf e \<and> lv_value (re_default e) = dflt \<and> set (re_values e) = set given \<and>
         efforts_new again (lv_value (re_default e)) = Some e"
proof -
  have "set (re_values e) = set given"
    using assms(1) by (auto simp: efforts_new_Some re_values_def)
  moreover have "lv_value (re_default e) = dflt"
    using assms(1) by (auto simp: efforts_new_Some dest: find_SomeD)
  ultimately show ?thesis
    using efforts_new_wf [OF assms(1)] efforts_reload [OF _ assms(2)] by blast
qed

theorem stored_levels_roundtrip_witness:
  "\<exists>e. efforts_new [''high'', ''low'', ''high''] ''low'' = Some e \<and> re_values e = [''low'', ''high''] \<and>
       efforts_new [''low'', ''high''] ''low'' = Some e"
proof -
  obtain e where e: "efforts_new [''high'', ''low'', ''high''] ''low'' = Some e" "re_values e = [''low'', ''high'']"
    by (simp add: efforts_new_def LEVELS_def re_values_def)
  have same: "set [''low'', ''high''] = set (re_values e)" by (simp only: e(2))
  note r = stored_levels_roundtrip [OF e(1) same]
  from r have "efforts_new [''low'', ''high''] ''low'' = Some e" by metis
  with e show ?thesis by blast
qed

subsection \<open>The plan\<close>

lemma row_levels_tally:
  "row_levels ov orr row t = (r, t') \<Longrightarrow>
   overridden t' + listed t' + unknown t' = Suc (overridden t + listed t + unknown t)"
  by (auto simp: row_levels_def split: prod.splits option.splits)

lemma plan_from_spec:
  "plan_from ov orr rows t = (ls, t') \<Longrightarrow>
   ls = map (\<lambda>row. fst (row_levels ov orr row t)) rows \<and>
   overridden t' + listed t' + unknown t' = overridden t + listed t + unknown t + length rows"
proof (induction rows arbitrary: t ls t')
  case Nil
  then show ?case by simp
next
  case (Cons row rows)
  obtain r t1 where r: "row_levels ov orr row t = (r, t1)" by fastforce
  obtain rs t2 where rs: "plan_from ov orr rows t1 = (rs, t2)" by fastforce
  have indep: "fst (row_levels ov orr x t1) = fst (row_levels ov orr x t)" for x
    by (auto simp: row_levels_def split: prod.splits option.splits)
  show ?case
    using Cons.IH [OF rs] row_levels_tally [OF r] Cons.prems by (auto simp: r rs indep)
qed

text \<open>
  The plan gives every catalog row exactly one answer, in order: the override table's entry for
  its id where there is one, saying no level included, else the snapshot's levels for the model it
  names at its vendor, else none; and the three counts add up to the rows.
\<close>

theorem plan_prefers_overrides:
  "map fst (fst (plan_efforts rows ov orr)) = map fst rows \<and>
   map snd (fst (plan_efforts rows ov orr)) =
     map (\<lambda>(mid, provider). case map_of ov mid of Some stated \<Rightarrow> stated
            | None \<Rightarrow> Option.bind (vendor_name mid provider) (map_of orr)) rows \<and>
   overridden (snd (plan_efforts rows ov orr)) + listed (snd (plan_efforts rows ov orr)) +
     unknown (snd (plan_efforts rows ov orr)) = length rows"
proof -
  obtain ls t' where p: "plan_from ov orr rows \<lparr>overridden = 0, listed = 0, unknown = 0\<rparr> = (ls, t')"
    by fastforce
  show ?thesis
    using plan_from_spec [OF p]
    by (auto simp: plan_efforts_def p row_levels_def split: prod.splits option.splits)
qed

end
