(* ===== verification/Catalog.thy ===== *)
theory Catalog
  imports Cost Efforts "HOL-Library.List_Lexorder" "HOL-Library.Char_ord"
begin

text \<open>
  The model catalog (\<^verbatim>\<open>oag-router/src/catalog.rs\<close>): model specs, what a request needs of one, and the
  catalog with its index by upstream name. The \<^verbatim>\<open>BTreeMap\<close> of models is its key-sorted entry list, in
  the byte order of the ids, which is what iterating it yields; the \<^verbatim>\<open>HashMap\<close> index is only probed.
  A \<^verbatim>\<open>HashSet\<close> of upstream names is iterated, so it is the list of its elements in the order the
  iteration meets them, and the results are shown not to depend on that order.
\<close>

type_synonym model_id = string

record capabilities =
  cap_vision :: bool
  cap_tools :: bool
  cap_reasoning :: bool
  cap_prompt_cache :: bool

record 'd model_spec =
  ms_id :: model_id
  ms_provider :: provider
  upstream_name :: string
  ms_pricing :: "'d pricing"
  context_window :: nat
  ms_max_output_tokens :: nat
  ms_capabilities :: capabilities
  display_label :: "string option"
  ms_reasoning_efforts :: "reasoning_efforts option"

definition derive_label :: "string \<Rightarrow> string \<Rightarrow> string" where
  "derive_label vendor name = vendor @ '': '' @ name"

definition label :: "'d model_spec \<Rightarrow> string" where
  "label m = (case display_label m of
     Some l \<Rightarrow> l
   | None \<Rightarrow> derive_label (display_name (support (ms_provider m))) (upstream_name m))"

record requirements =
  rq_prompt_tokens :: nat
  rq_max_output_tokens :: nat
  rq_vision :: bool
  rq_tools :: bool
  rq_reasoning :: bool

definition satisfies :: "'d model_spec \<Rightarrow> requirements \<Rightarrow> bool" where
  "satisfies m need =
     (if rq_vision need \<and> \<not> cap_vision (ms_capabilities m) then False
      else if rq_tools need \<and> \<not> cap_tools (ms_capabilities m) then False
      else if rq_reasoning need \<and> \<not> cap_reasoning (ms_capabilities m) then False
      else let needed = sat_add u64_max (rq_prompt_tokens need) (rq_max_output_tokens need)
           in needed \<le> context_window m)"

definition counterfactual :: "'d decimal \<Rightarrow> usage \<Rightarrow> 'd model_spec \<Rightarrow> 'd" where
  "counterfactual D u alternative = cost D (ms_pricing alternative) u"

subsection \<open>The catalog\<close>

fun btree_insert :: "'k::linorder \<Rightarrow> 'v \<Rightarrow> ('k \<times> 'v) list \<Rightarrow> ('k \<times> 'v) list" where
  "btree_insert k v [] = [(k, v)]"
| "btree_insert k v ((k', v') # rest) =
     (if k < k' then (k, v) # (k', v') # rest
      else if k = k' then (k, v) # rest
      else (k', v') # btree_insert k v rest)"

record 'd catalog =
  models :: "(model_id \<times> 'd model_spec) list"
  by_upstream :: "(string \<times> model_id list) list"

definition catalog_new :: "'d catalog" where
  "catalog_new = \<lparr>models = [], by_upstream = []\<rparr>"

definition catalog_get :: "'d catalog \<Rightarrow> model_id \<Rightarrow> 'd model_spec option" where
  "catalog_get c mid = map_of (models c) mid"

definition drop_stale :: "'d catalog \<Rightarrow> 'd model_spec \<Rightarrow> (string \<times> model_id list) list" where
  "drop_stale c spec =
     (case map_of (models c) (ms_id spec) of
        None \<Rightarrow> by_upstream c
      | Some previous \<Rightarrow>
          if upstream_name previous = upstream_name spec then by_upstream c
          else case map_of (by_upstream c) (upstream_name previous) of
                 None \<Rightarrow> by_upstream c
               | Some ids \<Rightarrow> AList.update (upstream_name previous)
                   (filter (\<lambda>mid. mid \<noteq> ms_id spec) ids) (by_upstream c))"

definition catalog_insert :: "'d model_spec \<Rightarrow> 'd catalog \<Rightarrow> 'd catalog" where
  "catalog_insert spec c =
     (let index = drop_stale c spec;
          ids = (case map_of index (upstream_name spec) of None \<Rightarrow> [] | Some ids \<Rightarrow> ids);
          ids' = (if ms_id spec \<in> set ids then ids else ids @ [ms_id spec])
      in \<lparr>models = btree_insert (ms_id spec) spec (models c),
          by_upstream = AList.update (upstream_name spec) ids' index\<rparr>)"

definition catalog_iter :: "'d catalog \<Rightarrow> 'd model_spec list" where
  "catalog_iter c = map snd (models c)"

definition from_entries :: "'d model_spec list \<Rightarrow> 'd catalog" where
  "from_entries entries = fold catalog_insert entries catalog_new"

definition is_custom :: "provider \<Rightarrow> bool" where
  "is_custom p = (case p of Custom _ \<Rightarrow> True | _ \<Rightarrow> False)"

definition catalog_resolve :: "'d catalog \<Rightarrow> string \<Rightarrow> 'd model_spec option" where
  "catalog_resolve c name =
     (case map_of (models c) name of
        Some spec \<Rightarrow> Some spec
      | None \<Rightarrow>
          (case map_of (by_upstream c) name of
             None \<Rightarrow> None
           | Some ids \<Rightarrow>
               (case filter (\<lambda>spec. \<not> is_custom (ms_provider spec))
                   (List.map_filter (map_of (models c)) ids) of
                  [only] \<Rightarrow> Some only
                | _ \<Rightarrow> None)))"

definition list_price :: "'d decimal \<Rightarrow> 'd model_spec \<Rightarrow> 'd" where
  "list_price D m = d_add D (input_per_mtok (ms_pricing m)) (output_per_mtok (ms_pricing m))"

text \<open>
  \<^verbatim>\<open>Iterator::max_by\<close> keeps the later of two equal elements. The comparison is the list price, and
  then the reverse of the order of the ids.
\<close>

definition dearer_eq :: "'d::linorder decimal \<Rightarrow> 'd model_spec \<Rightarrow> 'd model_spec \<Rightarrow> bool" where
  "dearer_eq D a b \<longleftrightarrow> list_price D a < list_price D b \<or>
     (list_price D a = list_price D b \<and> ms_id b \<le> ms_id a)"

fun max_by :: "('a \<Rightarrow> 'a \<Rightarrow> bool) \<Rightarrow> 'a list \<Rightarrow> 'a option" where
  "max_by le [] = None"
| "max_by le (x # xs) = Some (fold (\<lambda>y best. if le best y then y else best) xs x)"

definition dearest_served :: "'d::linorder decimal \<Rightarrow> 'd catalog \<Rightarrow> string list \<Rightarrow> requirements \<Rightarrow>
    'd model_spec option" where
  "dearest_served D c served need =
     (if served = [] then None
      else max_by (dearer_eq D)
        (filter (\<lambda>spec. d_zero D < input_per_mtok (ms_pricing spec) \<or>
                        d_zero D < output_per_mtok (ms_pricing spec))
          (filter (\<lambda>spec. satisfies spec need)
            (List.map_filter (map_of (models c))
              (concat (List.map_filter (map_of (by_upstream c)) served))))))"

subsection \<open>Sorted entry lists\<close>

abbreviation sorted_keys :: "('k::linorder \<times> 'v) list \<Rightarrow> bool" where
  "sorted_keys al \<equiv> sorted_wrt (<) (map fst al)"

lemma btree_insert_map_of [simp]:
  "sorted_keys al \<Longrightarrow> map_of (btree_insert k v al) = (map_of al)(k \<mapsto> v)"
proof (induction al rule: btree_insert.induct)
  case (2 k v k' v' rest)
  then show ?case by (auto simp: fun_eq_iff)
qed (simp add: fun_eq_iff)

lemma btree_insert_keys: "set (map fst (btree_insert k v al)) = insert k (set (map fst al))"
  by (induction al rule: btree_insert.induct) auto

lemma btree_insert_sorted: "sorted_keys al \<Longrightarrow> sorted_keys (btree_insert k v al)"
proof (induction al rule: btree_insert.induct)
  case (2 k v k' v' rest)
  have "k' < x" if "x \<in> set (map fst (btree_insert k v rest))" "k' < k" for x
    using that 2(2) unfolding btree_insert_keys by auto
  with 2 show ?case by (auto simp: not_less)
qed simp

lemma sorted_keys_distinct: "sorted_keys al \<Longrightarrow> distinct (map fst al)"
  by (simp add: strict_sorted_iff)

subsection \<open>The invariant of the catalog\<close>

definition index_ids :: "'d catalog \<Rightarrow> string \<Rightarrow> model_id list" where
  "index_ids c name = (case map_of (by_upstream c) name of None \<Rightarrow> [] | Some ids \<Rightarrow> ids)"

text \<open>
  Entries are sorted by id, each under its own id, and the index lists under every upstream name
  exactly the ids of the models that carry it, each once.
\<close>

definition catalog_inv :: "'d catalog \<Rightarrow> bool" where
  "catalog_inv c \<longleftrightarrow> sorted_keys (models c) \<and>
     (\<forall>mid m. catalog_get c mid = Some m \<longrightarrow> ms_id m = mid) \<and>
     (\<forall>name. distinct (index_ids c name) \<and>
        set (index_ids c name) = {mid. \<exists>m. catalog_get c mid = Some m \<and> upstream_name m = name})"

lemma catalog_invD:
  assumes "catalog_inv c"
  shows "sorted_keys (models c)" and "catalog_get c mid = Some m \<Longrightarrow> ms_id m = mid"
    and "distinct (index_ids c name)"
    and "mid \<in> set (index_ids c name) \<longleftrightarrow> (\<exists>m. catalog_get c mid = Some m \<and> upstream_name m = name)"
  using assms by (auto simp: catalog_inv_def)

lemma catalog_new_inv: "catalog_inv catalog_new"
  by (simp add: catalog_inv_def catalog_new_def catalog_get_def index_ids_def)

lemma catalog_get_insert:
  "catalog_inv c \<Longrightarrow> catalog_get (catalog_insert spec c) mid =
     (if mid = ms_id spec then Some spec else catalog_get c mid)"
  by (simp add: catalog_get_def catalog_insert_def Let_def catalog_invD(1))

lemma index_ids_insert:
  assumes "catalog_inv c"
  shows "index_ids (catalog_insert spec c) name =
    (let kept = (if name = upstream_name spec then index_ids c name
                 else filter (\<lambda>mid. mid \<noteq> ms_id spec) (index_ids c name))
     in if name = upstream_name spec \<and> ms_id spec \<notin> set kept then kept @ [ms_id spec] else kept)"
proof -
  have other: "ms_id spec \<notin> set (index_ids c name)"
    if "\<forall>m. map_of (models c) (ms_id spec) = Some m \<longrightarrow> upstream_name m \<noteq> name"
    using that assms by (auto simp: catalog_invD(4) catalog_get_def)
  then have keep: "filter (\<lambda>mid. mid \<noteq> ms_id spec) (index_ids c name) = index_ids c name"
    if "\<forall>m. map_of (models c) (ms_id spec) = Some m \<longrightarrow> upstream_name m \<noteq> name"
    using that by (auto simp: filter_id_conv)
  have stale: "(case map_of (drop_stale c spec) name of None \<Rightarrow> [] | Some ids \<Rightarrow> ids) =
    (if name = upstream_name spec then index_ids c name
     else filter (\<lambda>mid. mid \<noteq> ms_id spec) (index_ids c name))"
    using keep by (auto simp: drop_stale_def index_ids_def split: option.splits)
      (metis option.distinct(1))+
  then show ?thesis
    by (auto simp: catalog_insert_def Let_def index_ids_def split: option.splits)
qed

lemma catalog_insert_inv:
  assumes inv: "catalog_inv c"
  shows "catalog_inv (catalog_insert spec c)"
  unfolding catalog_inv_def
proof (intro conjI allI impI)
  show "sorted_keys (models (catalog_insert spec c))"
    using catalog_invD(1) [OF inv] by (simp add: catalog_insert_def Let_def btree_insert_sorted)
  show "ms_id m = mid" if "catalog_get (catalog_insert spec c) mid = Some m" for mid m
    using that inv by (auto simp: catalog_get_insert catalog_invD(2) split: if_splits)
  fix name
  show "distinct (index_ids (catalog_insert spec c) name)"
    using catalog_invD(3) [OF inv, of name] by (auto simp: index_ids_insert [OF inv] Let_def)
  show "set (index_ids (catalog_insert spec c) name) =
      {mid. \<exists>m. catalog_get (catalog_insert spec c) mid = Some m \<and> upstream_name m = name}"
    by (auto simp: index_ids_insert [OF inv] catalog_get_insert [OF inv] Let_def catalog_invD(4) [OF inv]
        split: if_splits)
qed

interpretation catalog_store: keyed_store catalog_inv ms_id catalog_insert catalog_get
  by unfold_locales (simp_all add: catalog_insert_inv catalog_get_insert)

lemma from_entries_inv: "catalog_inv (from_entries entries)"
  unfolding from_entries_def by (rule catalog_store.fold_put_inv [OF catalog_new_inv])

lemma get_from_entries:
  "catalog_get (from_entries entries) mid = find (\<lambda>m. ms_id m = mid) (rev entries)"
  unfolding from_entries_def catalog_store.get_fold_put [OF catalog_new_inv]
  by (simp add: catalog_get_def catalog_new_def split: option.splits)

definition catalogued :: "'d catalog \<Rightarrow> 'd model_spec \<Rightarrow> bool" where
  "catalogued c m \<longleftrightarrow> catalog_get c (ms_id m) = Some m"

lemma catalog_get_catalogued: "catalog_inv c \<Longrightarrow> catalog_get c mid = Some m \<Longrightarrow> catalogued c m"
  using catalog_invD(2) by (fastforce simp: catalogued_def)

lemma set_indexed_models:
  assumes "catalog_inv c"
  shows "set (List.map_filter (map_of (models c)) (index_ids c name)) =
    {m. catalogued c m \<and> upstream_name m = name}"
  using catalog_invD(2,4) [OF assms] catalog_get_catalogued [OF assms]
  by (fastforce simp: set_map_filter_iff catalogued_def catalog_get_def [symmetric])

lemma distinct_indexed_models:
  assumes "catalog_inv c"
  shows "distinct (List.map_filter (map_of (models c)) (index_ids c name))"
proof -
  have "distinct (List.map_filter (map_of (models c)) ids)" if "distinct ids" for ids
    using that
  proof (induction ids)
    case (Cons i ids)
    have "m \<notin> set (List.map_filter (map_of (models c)) ids)" if m: "map_of (models c) i = Some m" for m
      using m Cons.prems catalog_invD(2) [OF assms]
      by (auto simp: set_map_filter_iff catalog_get_def)
    with Cons show ?case by (auto simp: List.map_filter_simps split: option.splits)
  qed (simp add: List.map_filter_simps)
  then show ?thesis using catalog_invD(3) [OF assms] by blast
qed

subsection \<open>The properties\<close>

text \<open>
  A catalog built from any entries, re-inserts under an old id and renamed upstream names
  included, answers a client's name as documented: the id it is of, the last entry for it winning;
  otherwise the one built-in provider's model that spells it as its upstream name, provided exactly
  one does. An endpoint's row is never reached by its upstream name, nor makes one ambiguous.
\<close>

theorem resolve_spec:
  fixes entries :: "'d model_spec list" and name :: string
  defines "c \<equiv> from_entries entries"
  shows "catalog_resolve c name = Some m \<longleftrightarrow>
    find (\<lambda>e. ms_id e = name) (rev entries) = Some m \<or>
    find (\<lambda>e. ms_id e = name) (rev entries) = None \<and>
      {e. find (\<lambda>e'. ms_id e' = ms_id e) (rev entries) = Some e \<and>
          upstream_name e = name \<and> \<not> is_custom (ms_provider e)} = {m}"
proof -
  define found where "found = filter (\<lambda>spec. \<not> is_custom (ms_provider spec))
     (List.map_filter (map_of (models c)) (index_ids c name))"
  have inv: "catalog_inv c" by (simp add: c_def from_entries_inv)
  have get: "map_of (models c) mid = find (\<lambda>m. ms_id m = mid) (rev entries)" for mid
    unfolding c_def get_from_entries [symmetric] catalog_get_def ..
  have res: "catalog_resolve c name = (case map_of (models c) name of Some spec \<Rightarrow> Some spec
      | None \<Rightarrow> (case found of [only] \<Rightarrow> Some only | _ \<Rightarrow> None))"
    by (auto simp: catalog_resolve_def found_def index_ids_def List.map_filter_simps split: option.splits)
  have "set found = {e. find (\<lambda>e'. ms_id e' = ms_id e) (rev entries) = Some e \<and>
      upstream_name e = name \<and> \<not> is_custom (ms_provider e)}" (is "_ = ?S")
    by (auto simp: found_def set_indexed_models [OF inv] catalogued_def catalog_get_def get)
  moreover have "distinct found"
    by (simp add: found_def distinct_indexed_models [OF inv])
  ultimately have "?S = {m} \<longleftrightarrow> found = [m]"
    using distinct_set_single by metis
  moreover have "(case found of [only] \<Rightarrow> Some only | _ \<Rightarrow> None) = Some m \<longleftrightarrow> found = [m]"
    by (auto split: list.splits)
  ultimately show ?thesis by (auto simp: res get split: option.splits)
qed

text \<open>The order \<^verbatim>\<open>max_by\<close> uses is total and transitive, and equal elements have equal ids.\<close>

lemma max_by_spec:
  assumes total: "\<And>x y. le x y \<or> le y x" and trans: "\<And>x y z. le x y \<Longrightarrow> le y z \<Longrightarrow> le x z"
  shows "max_by le xs = Some m \<Longrightarrow> m \<in> set xs \<and> (\<forall>x \<in> set xs. le x m)"
proof -
  define F where "F = fold (\<lambda>y best. if le best y then y else best)"
  have F_Cons: "F (y # ys) x = F ys (if le x y then y else x)" for x y ys by (simp add: F_def)
  have "F ys x \<in> insert x (set ys) \<and> le x (F ys x) \<and> (\<forall>z \<in> set ys. le z (F ys x))" for ys x
  proof (induction ys arbitrary: x)
    case Nil
    show ?case using total by (auto simp: F_def)
  next
    case (Cons y ys)
    let ?b = "if le x y then y else x"
    have "le x ?b" "le y ?b" using total by auto
    with Cons.IH [of ?b] trans have "le x (F ys ?b)" "le y (F ys ?b)" by blast+
    with Cons.IH [of ?b] show ?case by (auto simp: F_Cons)
  qed
  note F_max = this [unfolded F_def]
  show "max_by le xs = Some m \<Longrightarrow> m \<in> set xs \<and> (\<forall>x \<in> set xs. le x m)"
    using F_max by (cases xs) auto
qed

lemma max_by_None [simp]: "max_by le xs = None \<longleftrightarrow> xs = []"
  by (cases xs) auto

lemma dearer_eq_total: "dearer_eq D a b \<or> dearer_eq D b a"
  by (auto simp: dearer_eq_def)

lemma dearer_eq_trans: "dearer_eq D a b \<Longrightarrow> dearer_eq D b c \<Longrightarrow> dearer_eq D a c"
  by (auto simp: dearer_eq_def)

lemma dearer_eq_antisym: "dearer_eq D a b \<Longrightarrow> dearer_eq D b a \<Longrightarrow> ms_id a = ms_id b"
  by (auto simp: dearer_eq_def)

lemma max_dearer:
  "max_by (dearer_eq D) xs = Some m \<Longrightarrow> m \<in> set xs \<and> (\<forall>x \<in> set xs. dearer_eq D x m)"
  using max_by_spec [of "dearer_eq D" xs m] dearer_eq_total dearer_eq_trans by metis

definition baseline_candidate :: "'d::linorder decimal \<Rightarrow> 'd catalog \<Rightarrow> string set \<Rightarrow> requirements \<Rightarrow>
    'd model_spec \<Rightarrow> bool" where
  "baseline_candidate D c served need m \<longleftrightarrow>
     catalogued c m \<and> upstream_name m \<in> served \<and> satisfies m need \<and>
     (d_zero D < input_per_mtok (ms_pricing m) \<or> d_zero D < output_per_mtok (ms_pricing m))"

lemma dearest_served_max:
  assumes "catalog_inv c"
  obtains cands where "dearest_served D c served need = max_by (dearer_eq D) cands"
    and "set cands = {m. baseline_candidate D c (set served) need m}"
proof -
  define cands where "cands = filter (\<lambda>spec. d_zero D < input_per_mtok (ms_pricing spec) \<or>
                        d_zero D < output_per_mtok (ms_pricing spec))
          (filter (\<lambda>spec. satisfies spec need)
            (List.map_filter (map_of (models c))
              (concat (List.map_filter (map_of (by_upstream c)) served))))"
  have "mid \<in> set (concat (List.map_filter (map_of (by_upstream c)) served)) \<longleftrightarrow>
      (\<exists>name \<in> set served. mid \<in> set (index_ids c name))" for mid
    by (force simp: set_map_filter_iff index_ids_def split: option.splits)
  then have "m \<in> set (List.map_filter (map_of (models c))
        (concat (List.map_filter (map_of (by_upstream c)) served))) \<longleftrightarrow>
      (\<exists>name \<in> set served. m \<in> set (List.map_filter (map_of (models c)) (index_ids c name)))" for m
    unfolding set_map_filter_iff by blast
  then have "set cands = {m. baseline_candidate D c (set served) need m}"
    by (auto simp: cands_def baseline_candidate_def set_indexed_models [OF assms])
  moreover have "dearest_served D c served need = max_by (dearer_eq D) cands"
    by (simp add: dearest_served_def cands_def List.map_filter_simps)
  ultimately show thesis using that by blast
qed

text \<open>
  The savings baseline among the served models is what its documentation says: nothing exactly
  when no catalogued, priced and capable model carries a served upstream name; otherwise the dearest
  such model by list price, the smallest id among equally dear ones. The answer does not depend on
  the order in which the set of served names is walked.
\<close>

theorem dearest_served_spec:
  fixes entries :: "'d::linorder model_spec list" and served :: "string list"
  defines "c \<equiv> from_entries entries"
  shows "(case dearest_served D c served need of
      None \<Rightarrow> \<nexists>m. baseline_candidate D c (set served) need m
    | Some m \<Rightarrow> baseline_candidate D c (set served) need m \<and>
        (\<forall>m'. baseline_candidate D c (set served) need m' \<longrightarrow>
           list_price D m' < list_price D m \<or> list_price D m' = list_price D m \<and> ms_id m \<le> ms_id m')) \<and>
    (set served = set served' \<longrightarrow> dearest_served D c served need = dearest_served D c served' need)"
proof
  have inv: "catalog_inv c" by (simp add: c_def from_entries_inv)
  obtain cands where cands: "dearest_served D c served need = max_by (dearer_eq D) cands"
      "set cands = {m. baseline_candidate D c (set served) need m}"
    using dearest_served_max [OF inv] .
  show "case dearest_served D c served need of
      None \<Rightarrow> \<nexists>m. baseline_candidate D c (set served) need m
    | Some m \<Rightarrow> baseline_candidate D c (set served) need m \<and>
        (\<forall>m'. baseline_candidate D c (set served) need m' \<longrightarrow>
           list_price D m' < list_price D m \<or> list_price D m' = list_price D m \<and> ms_id m \<le> ms_id m')"
    using cands(2) max_dearer [of D cands]
    by (auto simp: cands(1) dearer_eq_def split: option.splits)
  show "set served = set served' \<longrightarrow> dearest_served D c served need = dearest_served D c served' need"
  proof
    assume "set served = set served'"
    then obtain cands' where cands': "dearest_served D c served' need = max_by (dearer_eq D) cands'"
        "set cands' = set cands"
      using dearest_served_max [OF inv, of D served' need] cands(2) by auto
    show "dearest_served D c served need = dearest_served D c served' need"
    proof (cases "cands = []")
      case True
      with cands' show ?thesis by (simp add: cands(1))
    next
      case False
      with cands' obtain m m' where m: "max_by (dearer_eq D) cands = Some m" "max_by (dearer_eq D) cands' = Some m'"
        by (cases cands; cases cands') auto
      have "ms_id m = ms_id m'" "m \<in> set cands" "m' \<in> set cands"
        using max_dearer [OF m(1)] max_dearer [OF m(2)] cands'(2) dearer_eq_antisym by blast+
      then have "m = m'"
        using cands(2) by (auto simp: baseline_candidate_def catalogued_def)
      with m show ?thesis by (simp add: cands(1) cands'(1))
    qed
  qed
qed

text \<open>Models for concrete instances: everything but id, provider, upstream name and price is fixed.\<close>

definition sample_model :: "model_id \<Rightarrow> provider \<Rightarrow> string \<Rightarrow> 'd \<Rightarrow> 'd model_spec" where
  "sample_model mid p up price = \<lparr>ms_id = mid, ms_provider = p, upstream_name = up,
     ms_pricing = \<lparr>input_per_mtok = price, output_per_mtok = price, cache_read_per_mtok = None,
       cache_write_per_mtok = None\<rparr>,
     context_window = 200000, ms_max_output_tokens = 8000,
     ms_capabilities = \<lparr>cap_vision = True, cap_tools = True, cap_reasoning = True, cap_prompt_cache = True\<rparr>,
     display_label = None, ms_reasoning_efforts = None\<rparr>"

definition sample_need :: requirements where
  "sample_need = \<lparr>rq_prompt_tokens = 1000, rq_max_output_tokens = 500, rq_vision = False,
     rq_tools = False, rq_reasoning = False\<rparr>"

lemma satisfies_sample [simp]: "satisfies (sample_model mid p up price) sample_need"
  by (simp add: satisfies_def sample_model_def sample_need_def sat_add_def width_defs)

theorem dearest_served_spec_witness:
  "dearest_served rat_decimal (from_entries
     [sample_model ''a/x'' OpenAI ''x'' 2, sample_model ''b/y'' Gemini ''y'' 5]) [''x'', ''y''] sample_need =
   dearest_served rat_decimal (from_entries
     [sample_model ''a/x'' OpenAI ''x'' 2, sample_model ''b/y'' Gemini ''y'' 5]) [''y'', ''x''] sample_need"
  using dearest_served_spec [of rat_decimal "[sample_model ''a/x'' OpenAI ''x'' 2, sample_model ''b/y'' Gemini ''y'' 5]"
      "[''x'', ''y'']" sample_need "[''y'', ''x'']"] by (simp add: insert_commute)

end
