(* ===== verification/Ladder.thy ===== *)
theory Ladder
  imports Catalog
begin

text \<open>
  Tiers and ladders: \<^verbatim>\<open>oag-core/src/tier.rs\<close>, \<^verbatim>\<open>oag-router/src/ladder.rs\<close> and the request classifier of
  \<^verbatim>\<open>oag-router/src/classify.rs\<close>. Tiers compare by rank alone, so they are compared with \<open>tier_eq\<close> and
  \<open>tier_less\<close>. A ladder is its list of rungs, cheapest first; \<open>ladder_new\<close> refuses the empty one.
  Ranks are \<^verbatim>\<open>u8\<close>: a rung past the 256th cannot be reached.
\<close>

type_synonym tier_name = string

record tier =
  t_name :: tier_name
  t_rank :: nat

definition tier_eq :: "tier \<Rightarrow> tier \<Rightarrow> bool" where
  "tier_eq a b = (t_rank a = t_rank b)"

definition tier_less :: "tier \<Rightarrow> tier \<Rightarrow> bool" where
  "tier_less a b = (t_rank a < t_rank b)"

datatype routing_mode = Passthrough | Managed

subsection \<open>Classification\<close>

record request_signal =
  sg_prompt_tokens :: nat
  tool_count :: nat
  turn_count :: nat
  has_images :: bool
  thinking_requested :: bool
  has_code :: bool
  explicit_tier :: "tier_name option"

definition requirements_of :: "request_signal \<Rightarrow> nat \<Rightarrow> requirements" where
  "requirements_of s max_output_tokens =
     \<lparr>rq_prompt_tokens = sg_prompt_tokens s, rq_max_output_tokens = max_output_tokens,
      rq_vision = has_images s, rq_tools = tool_count s > 0, rq_reasoning = thinking_requested s\<rparr>"

record thresholds =
  cheap_tier :: tier_name
  balanced_tier :: tier_name
  frontier_tier :: tier_name
  balanced_prompt_tokens :: nat
  frontier_prompt_tokens :: nat
  balanced_tool_count :: nat
  balanced_turn_count :: nat

definition thresholds_default :: thresholds where
  "thresholds_default = \<lparr>cheap_tier = ''cheap'', balanced_tier = ''balanced'', frontier_tier = ''frontier'',
     balanced_prompt_tokens = 8000, frontier_prompt_tokens = 100000, balanced_tool_count = 3,
     balanced_turn_count = 8\<rparr>"

definition classify :: "thresholds \<Rightarrow> request_signal \<Rightarrow> tier_name" where
  "classify t s =
     (case explicit_tier s of
        Some explicit \<Rightarrow> explicit
      | None \<Rightarrow>
          if thinking_requested s then frontier_tier t
          else if frontier_prompt_tokens t \<le> sg_prompt_tokens s then frontier_tier t
          else let agentic = balanced_tool_count t \<le> tool_count s \<or> balanced_turn_count t \<le> turn_count s;
                   substantial = balanced_prompt_tokens t \<le> sg_prompt_tokens s
               in if agentic \<or> substantial \<or> has_images s \<or> has_code s then balanced_tier t
                  else cheap_tier t)"

subsection \<open>Ladders\<close>

record rung =
  r_name :: tier_name
  r_models :: "model_id list"

type_synonym tier_ladder = "rung list"

definition ladder_new :: "rung list \<Rightarrow> tier_ladder option" where
  "ladder_new rungs = (if rungs = [] then None else Some rungs)"

definition mk_tier :: "tier_name \<Rightarrow> nat \<Rightarrow> tier" where
  "mk_tier name rank = \<lparr>t_name = name, t_rank = rank\<rparr>"

definition nth_opt :: "'a list \<Rightarrow> nat \<Rightarrow> 'a option" where
  "nth_opt xs i = (if i < length xs then Some (xs ! i) else None)"

fun position :: "('a \<Rightarrow> bool) \<Rightarrow> 'a list \<Rightarrow> nat option" where
  "position P [] = None"
| "position P (x # xs) = (if P x then Some 0 else map_option Suc (position P xs))"

definition ladder_floor :: "tier_ladder \<Rightarrow> tier" where
  "ladder_floor l = mk_tier (r_name (l ! 0)) 0"

definition ladder_ceiling :: "tier_ladder \<Rightarrow> tier" where
  "ladder_ceiling l =
     (let rank = (case u8_try_from (length l - 1) of Some r \<Rightarrow> r | None \<Rightarrow> u8_max)
      in mk_tier (r_name (l ! (length l - 1))) rank)"

definition ladder_tier :: "tier_ladder \<Rightarrow> tier_name \<Rightarrow> tier option" where
  "ladder_tier l name =
     map_option (\<lambda>rank. mk_tier name rank) (Option.bind (position (\<lambda>r. r_name r = name) l) u8_try_from)"

definition ladder_escalate :: "tier_ladder \<Rightarrow> tier \<Rightarrow> tier option" where
  "ladder_escalate l from =
     (let next = t_rank from + 1 in
      case nth_opt l next of
        None \<Rightarrow> None
      | Some r \<Rightarrow> map_option (mk_tier (r_name r)) (u8_try_from next))"

definition ladder_downgrade :: "tier_ladder \<Rightarrow> tier \<Rightarrow> tier option" where
  "ladder_downgrade l from =
     (if t_rank from = 0 then None
      else let prev = t_rank from - 1 in
        case nth_opt l prev of
          None \<Rightarrow> None
        | Some r \<Rightarrow> map_option (mk_tier (r_name r)) (u8_try_from prev))"

definition clamp_to_floor :: "tier \<Rightarrow> tier option \<Rightarrow> tier" where
  "clamp_to_floor t floor_tier =
     (case floor_tier of Some f \<Rightarrow> if tier_less t f then f else t | None \<Rightarrow> t)"

definition pick_where :: "tier_ladder \<Rightarrow> tier \<Rightarrow> 'd catalog \<Rightarrow> requirements \<Rightarrow>
    ('d model_spec \<Rightarrow> bool) \<Rightarrow> 'd model_spec option" where
  "pick_where l t catalog need also_ok =
     (case nth_opt l (t_rank t) of
        None \<Rightarrow> None
      | Some r \<Rightarrow> find (\<lambda>spec. satisfies spec need \<and> also_ok spec)
          (List.map_filter (catalog_get catalog) (r_models r)))"

definition pick :: "tier_ladder \<Rightarrow> tier \<Rightarrow> 'd catalog \<Rightarrow> requirements \<Rightarrow> 'd model_spec option" where
  "pick l t catalog need = pick_where l t catalog need (\<lambda>_. True)"

definition pick_without :: "tier_ladder \<Rightarrow> tier \<Rightarrow> 'd catalog \<Rightarrow> requirements \<Rightarrow> provider \<Rightarrow>
    'd model_spec option" where
  "pick_without l t catalog need avoid =
     pick_where l t catalog need (\<lambda>spec. \<not> provider_eq (ms_provider spec) avoid)"

subsection \<open>Lemmas\<close>

lemma t_rank_mk [simp]: "t_rank (mk_tier n r) = r" and t_name_mk [simp]: "t_name (mk_tier n r) = n"
  by (simp_all add: mk_tier_def)

lemma position_Some:
  "position P xs = Some i \<longleftrightarrow> i < length xs \<and> P (xs ! i) \<and> (\<forall>j < i. \<not> P (xs ! j))"
proof (induction xs arbitrary: i)
  case (Cons x xs)
  show ?case
  proof (cases i)
    case 0
    then show ?thesis by (auto simp: Cons.IH)
  next
    case (Suc k)
    then show ?thesis by (auto simp: Cons.IH nth_Cons less_Suc_eq_0_disj split: nat.splits)
  qed
qed simp

lemma position_None: "position P xs = None \<longleftrightarrow> (\<forall>x \<in> set xs. \<not> P x)"
  by (induction xs) auto

text \<open>A tier that names a rung of the ladder at its rank.\<close>

definition on_ladder :: "tier_ladder \<Rightarrow> tier \<Rightarrow> bool" where
  "on_ladder l t \<longleftrightarrow> t_rank t < length l \<and> t_rank t \<le> u8_max \<and> t_name t = r_name (l ! t_rank t)"

lemma ladder_escalate_Some:
  "ladder_escalate l from = Some t \<longleftrightarrow> on_ladder l t \<and> t_rank t = Suc (t_rank from)"
  by (cases t) (auto simp: ladder_escalate_def nth_opt_def on_ladder_def mk_tier_def Let_def split: if_splits)

lemma ladder_escalate_None:
  "ladder_escalate l from = None \<longleftrightarrow> length l \<le> Suc (t_rank from) \<or> u8_max < Suc (t_rank from)"
  by (auto simp: ladder_escalate_def nth_opt_def Let_def)

lemma ladder_downgrade_Some:
  "ladder_downgrade l from = Some t \<longleftrightarrow> on_ladder l t \<and> t_rank from = Suc (t_rank t)"
  by (cases t) (auto simp: ladder_downgrade_def nth_opt_def on_ladder_def mk_tier_def Let_def
      split: if_splits)

lemma ladder_tier_Some:
  "ladder_tier l name = Some t \<Longrightarrow> on_ladder l t \<and> t_name t = name"
  by (auto simp: ladder_tier_def on_ladder_def position_Some bind_eq_Some_conv)

lemma ladder_floor_on [simp]: "l \<noteq> [] \<Longrightarrow> on_ladder l (ladder_floor l)"
  by (simp add: on_ladder_def ladder_floor_def)

lemma t_rank_floor [simp]: "t_rank (ladder_floor l) = 0"
  by (simp add: ladder_floor_def)

lemma clamp_rank: "t_rank (clamp_to_floor t floor_tier) =
    max (t_rank t) (case floor_tier of Some f \<Rightarrow> t_rank f | None \<Rightarrow> 0)"
  by (auto simp: clamp_to_floor_def tier_less_def max_def split: option.splits)

lemma pick_where_Some:
  assumes "pick_where l t c need ok = Some m"
  shows "t_rank t < length l" and "satisfies m need" and "ok m"
    and "\<exists>mid \<in> set (r_models (l ! t_rank t)). catalog_get c mid = Some m"
  using assms by (auto simp: pick_where_def nth_opt_def set_map_filter_iff dest!: find_SomeD
      split: if_splits)

text \<open>Whether the rung at a rank has a model that serves the request and passes a further test.\<close>

definition serves :: "tier_ladder \<Rightarrow> 'd catalog \<Rightarrow> requirements \<Rightarrow> ('d model_spec \<Rightarrow> bool) \<Rightarrow> nat \<Rightarrow> bool" where
  "serves l c need ok i \<longleftrightarrow> i < length l \<and>
     (\<exists>mid \<in> set (r_models (l ! i)). \<exists>m. catalog_get c mid = Some m \<and> satisfies m need \<and> ok m)"

lemma pick_where_None: "pick_where l t c need ok = None \<longleftrightarrow> \<not> serves l c need ok (t_rank t)"
  by (auto simp: pick_where_def nth_opt_def serves_def find_None_iff set_map_filter_iff split: option.splits)

text \<open>
  Escalating and downgrading are inverse steps of exactly one rung on a ladder of up to 256
  rungs: whenever one of them answers, the other leads back; neither leaves the ladder; and a rung
  answers nothing above it exactly when it is the last one, nothing below exactly when it is the first.
\<close>

theorem escalate_downgrade_inverse:
  assumes "length l \<le> 256" and "on_ladder l t"
  shows "(ladder_escalate l t = Some u \<longleftrightarrow> ladder_downgrade l u = Some t \<and> on_ladder l u) \<and>
         (ladder_escalate l t = None \<longleftrightarrow> t_rank t = length l - 1) \<and>
         (ladder_downgrade l t = None \<longleftrightarrow> t_rank t = 0)"
proof (intro conjI)
  show "ladder_escalate l t = Some u \<longleftrightarrow> ladder_downgrade l u = Some t \<and> on_ladder l u"
    using assms by (auto simp: ladder_escalate_Some ladder_downgrade_Some)
  show "ladder_escalate l t = None \<longleftrightarrow> t_rank t = length l - 1"
    using assms by (auto simp: ladder_escalate_None on_ladder_def width_defs)
  show "ladder_downgrade l t = None \<longleftrightarrow> t_rank t = 0"
    using assms by (auto simp: ladder_downgrade_def nth_opt_def on_ladder_def Let_def width_defs)
qed

theorem escalate_downgrade_inverse_witness:
  "ladder_downgrade [\<lparr>r_name = ''cheap'', r_models = []\<rparr>, \<lparr>r_name = ''frontier'', r_models = []\<rparr>]
     (mk_tier ''frontier'' 1) = Some (mk_tier ''cheap'' 0)"
  using escalate_downgrade_inverse [of "[\<lparr>r_name = ''cheap'', r_models = []\<rparr>, \<lparr>r_name = ''frontier'', r_models = []\<rparr>]"
      "mk_tier ''cheap'' 0" "mk_tier ''frontier'' 1"]
  by (simp add: on_ladder_def ladder_escalate_Some width_defs)

end
