(* ===== verification/Budgets.thy ===== *)
theory Budgets
  imports Cost Errors
begin

text \<open>
  Spend caps (\<^verbatim>\<open>BudgetPressure\<close>, \<^verbatim>\<open>BudgetState\<close> and \<^verbatim>\<open>Budgets\<close> of \<^verbatim>\<open>oag-router/src/policy.rs\<close>): how close a
  principal, a route and a key are to their caps, and which cap governs. The declaration order of
  the pressures is their order, so the type is instantiated as a linear order.
\<close>

datatype budget_pressure = Normal | Constrained | Exhausted

fun pressure_rank :: "budget_pressure \<Rightarrow> nat" where
  "pressure_rank Normal = 0"
| "pressure_rank Constrained = 1"
| "pressure_rank Exhausted = 2"

instantiation budget_pressure :: linorder
begin

definition less_eq_budget_pressure :: "budget_pressure \<Rightarrow> budget_pressure \<Rightarrow> bool" where
  "a \<le> b \<longleftrightarrow> pressure_rank a \<le> pressure_rank b"

definition less_budget_pressure :: "budget_pressure \<Rightarrow> budget_pressure \<Rightarrow> bool" where
  "a < b \<longleftrightarrow> pressure_rank a < pressure_rank b"

instance
proof
  fix a b :: budget_pressure
  assume "a \<le> b" "b \<le> a"
  then show "a = b" by (cases a; cases b) (auto simp: less_eq_budget_pressure_def)
qed (auto simp: less_eq_budget_pressure_def less_budget_pressure_def)

end

fun pressure_as_str :: "budget_pressure \<Rightarrow> string" where
  "pressure_as_str Normal = ''normal''"
| "pressure_as_str Constrained = ''constrained''"
| "pressure_as_str Exhausted = ''exhausted''"

record 'd budget_state =
  spent_usd :: 'd
  limit_usd :: "'d option"
  hard_stop_multiple :: 'd

definition unlimited :: "'d decimal \<Rightarrow> 'd \<Rightarrow> 'd budget_state" where
  "unlimited D spent = \<lparr>spent_usd = spent, limit_usd = None, hard_stop_multiple = d_one D\<rparr>"

definition pressure :: "'d::linorder decimal \<Rightarrow> 'd budget_state \<Rightarrow> budget_pressure" where
  "pressure D b =
     (case limit_usd b of
        None \<Rightarrow> Normal
      | Some limit \<Rightarrow>
          if limit \<le> d_zero D then Exhausted
          else let multiple = max (hard_stop_multiple b) (d_one D) in
            if d_mul D limit multiple \<le> spent_usd b then Exhausted
            else let warn_at = d_mul D limit (d_new D 8 1) in
              if warn_at \<le> spent_usd b then Constrained else Normal)"

record 'd budgets =
  b_key :: "'d budget_state"
  b_route :: "'d budget_state"
  b_principal :: "'d budget_state"

definition principal_only :: "'d decimal \<Rightarrow> 'd budget_state \<Rightarrow> 'd budgets" where
  "principal_only D p = \<lparr>b_key = unlimited D (d_zero D), b_route = unlimited D (d_zero D), b_principal = p\<rparr>"

definition budgets_pressure :: "'d::linorder decimal \<Rightarrow> 'd budgets \<Rightarrow> budget_pressure" where
  "budgets_pressure D b =
     max (max (pressure D (b_key b)) (pressure D (b_route b))) (pressure D (b_principal b))"

fun last_max :: "('a \<Rightarrow> 'k::linorder) \<Rightarrow> 'a list \<Rightarrow> 'a option" where
  "last_max k [] = None"
| "last_max k (x # xs) = Some (fold (\<lambda>y best. if k best \<le> k y then y else best) xs x)"

definition binding :: "'d::linorder decimal \<Rightarrow> 'd budgets \<Rightarrow> budget_scope" where
  "binding D b =
     (case last_max snd [(ScopePrincipal, pressure D (b_principal b)), (ScopeRoute, pressure D (b_route b)),
        (ScopeApiKey, pressure D (b_key b))] of
        None \<Rightarrow> ScopePrincipal | Some (scope, _) \<Rightarrow> scope)"

subsection \<open>Properties\<close>

lemma pressure_le_Normal [simp]: "Normal \<le> p" and le_Exhausted [simp]: "p \<le> Exhausted"
  by (cases p; simp add: less_eq_budget_pressure_def)+

lemma Constrained_le [simp]: "Constrained \<le> Exhausted" "\<not> Exhausted \<le> Constrained" "\<not> Constrained \<le> Normal"
  "\<not> Exhausted \<le> Normal"
  by (simp_all add: less_eq_budget_pressure_def)

definition raise_spend :: "'d \<Rightarrow> 'd budget_state \<Rightarrow> 'd budget_state" where
  "raise_spend s b = b\<lparr>spent_usd := s\<rparr>"

context decimal_laws
begin

lemma warn_le_stop:
  assumes "d_zero D < limit"
  shows "d_mul D limit (d_new D 8 1) \<le> d_mul D limit (max m (d_one D))"
  using assms eight_tenths_le by (intro mul_left_mono) (auto simp: max_def intro: order.trans)

lemma limit_le_stop: "d_zero D < limit \<Longrightarrow> limit \<le> d_mul D limit (max m (d_one D))"
  using mul_left_mono [of limit "d_one D" "max m (d_one D)"] mul_one [of limit] by simp

lemma pressure_mono_spend: "spent_usd b \<le> s \<Longrightarrow> pressure D b \<le> pressure D (raise_spend s b)"
  by (auto simp: pressure_def raise_spend_def Let_def split: option.splits)

lemma exhausted_spent_it_all:
  "pressure D b = Exhausted \<Longrightarrow> limit_usd b = Some limit \<Longrightarrow> d_zero D < limit \<Longrightarrow> limit \<le> spent_usd b"
  using limit_le_stop [of limit "hard_stop_multiple b"]
  by (auto simp: pressure_def Let_def split: if_splits)

lemma normal_below_warning:
  "pressure D b = Normal \<Longrightarrow> limit_usd b = Some limit \<Longrightarrow> spent_usd b < d_mul D limit (d_new D 8 1)"
  by (auto simp: pressure_def Let_def not_le split: if_splits)

end

text \<open>
  Budgets degrade before they deny, whatever the hard-stop multiple an operator set, below one
  included: with a positive limit, spend refused outright has reached the whole limit, spend not yet
  restricted is below four fifths of it, and more spend never relaxes the pressure.
\<close>

theorem budget_degrades_before_it_denies:
  assumes "decimal_laws D" and "limit_usd b = Some limit" and "d_zero D < limit"
  shows "(pressure D b = Exhausted \<longrightarrow> limit \<le> spent_usd b) \<and>
         (pressure D b = Normal \<longrightarrow> spent_usd b < d_mul D limit (d_new D 8 1)) \<and>
         (spent_usd b \<le> s \<longrightarrow> pressure D b \<le> pressure D (raise_spend s b))"
  using assms decimal_laws.exhausted_spent_it_all decimal_laws.normal_below_warning
    decimal_laws.pressure_mono_spend by blast

theorem budget_degrades_before_it_denies_witness:
  "pressure rat_decimal \<lparr>spent_usd = 60, limit_usd = Some 100, hard_stop_multiple = 1/2\<rparr> = Normal \<and>
   pressure rat_decimal \<lparr>spent_usd = 60, limit_usd = Some 100, hard_stop_multiple = 1/2\<rparr>
     \<le> pressure rat_decimal (raise_spend 101 \<lparr>spent_usd = 60, limit_usd = Some 100, hard_stop_multiple = 1/2\<rparr>)"
  using budget_degrades_before_it_denies [OF exact.decimal_laws_axioms,
      of "\<lparr>spent_usd = 60, limit_usd = Some 100, hard_stop_multiple = 1/2\<rparr>" 100 101]
  by (simp add: rat_decimal_def pressure_def)

text \<open>
  The tightest of the three caps governs, and the one reported is the one to raise: the binding
  scope's own pressure is the overall pressure, and no narrower cap (the key before the route, the
  route before the principal) is as tight.
\<close>

theorem binding_is_the_narrowest_tightest:
  "(case binding D b of
      ScopeApiKey \<Rightarrow> pressure D (b_key b) = budgets_pressure D b
    | ScopeRoute \<Rightarrow> pressure D (b_route b) = budgets_pressure D b \<and> pressure D (b_key b) < budgets_pressure D b
    | ScopePrincipal \<Rightarrow> pressure D (b_principal b) = budgets_pressure D b \<and>
        pressure D (b_route b) < budgets_pressure D b \<and> pressure D (b_key b) < budgets_pressure D b) \<and>
   (\<forall>p \<in> {pressure D (b_key b), pressure D (b_route b), pressure D (b_principal b)}. p \<le> budgets_pressure D b)"
  by (auto simp: binding_def budgets_pressure_def max_def split: if_splits)

theorem binding_is_the_narrowest_tightest_witness:
  "binding rat_decimal (principal_only rat_decimal \<lparr>spent_usd = 100, limit_usd = Some 100, hard_stop_multiple = 1\<rparr>)
     = ScopePrincipal \<and>
   budgets_pressure rat_decimal (principal_only rat_decimal
     \<lparr>spent_usd = 100, limit_usd = Some 100, hard_stop_multiple = 1\<rparr>) = Exhausted"
proof -
  define b where "b = principal_only rat_decimal \<lparr>spent_usd = 100, limit_usd = Some 100, hard_stop_multiple = 1\<rparr>"
  have p: "pressure rat_decimal (b_principal b) = Exhausted" "pressure rat_decimal (b_key b) = Normal"
    "pressure rat_decimal (b_route b) = Normal"
    by (simp_all add: b_def principal_only_def rat_decimal_def pressure_def unlimited_def)
  then have "Exhausted \<le> budgets_pressure rat_decimal b"
    using binding_is_the_narrowest_tightest [of rat_decimal b] by simp
  then have "budgets_pressure rat_decimal b = Exhausted" by (intro order.antisym) simp_all
  moreover from this p have "binding rat_decimal b = ScopePrincipal"
    using binding_is_the_narrowest_tightest [of rat_decimal b] by (cases "binding rat_decimal b") simp_all
  ultimately show ?thesis by (simp add: b_def)
qed

end
