(* ===== verification/Policy.thy ===== *)
theory Policy
  imports Ladder Budgets
begin

text \<open>
  The routing policy (\<^verbatim>\<open>oag-router/src/policy.rs\<close>): mode, ladder, classifier, floor and budget give a
  model, and the rules for trying again one rung up. The classifier is a trait object, so it is a
  function of the policy; \<open>classify\<close> of theory \<open>Ladder\<close> is the one the gateway ships. The set of
  providers a route holds credentials for is a list compared with \<open>provider_eq\<close>.
\<close>

datatype quality_gate =
    Refusal | Truncated | MalformedToolCall | EmptyResponse | ContextOverflow | GateNoCredential

datatype selection_reason =
    ReasonPassthrough | Classified | FloorPinned | BudgetDowngraded | Escalated tier_name quality_gate

record 'd routing_decision =
  dec_model :: "'d model_spec"
  dec_tier :: "tier option"
  dec_reason :: selection_reason
  capability_escalated_from :: "tier_name option"
  ceiling_model :: "'d model_spec option"

definition rung_name :: "'d routing_decision \<Rightarrow> tier_name option" where
  "rung_name d = map_option t_name (dec_tier d)"

definition escalation_allowed :: "budget_pressure \<Rightarrow> nat \<Rightarrow> nat \<Rightarrow> bool" where
  "escalation_allowed p escalations_so_far max_escalations =
     (p = Normal \<and> escalations_so_far < max_escalations)"

definition climb_allowed :: "selection_reason \<Rightarrow> bool" where
  "climb_allowed reason = (case reason of ReasonPassthrough \<Rightarrow> False | _ \<Rightarrow> True)"

definition truncated_by_client_cap :: "nat \<Rightarrow> nat \<Rightarrow> bool" where
  "truncated_by_client_cap requested_max model_max = (requested_max \<le> model_max)"

record routing_policy =
  ladder :: tier_ladder
  classifier :: "request_signal \<Rightarrow> tier_name"
  policy_floor :: "tier option"

definition policy_new :: "tier_ladder \<Rightarrow> (request_signal \<Rightarrow> tier_name) \<Rightarrow> routing_policy" where
  "policy_new l cl = \<lparr>ladder = l, classifier = cl, policy_floor = None\<rparr>"

definition with_floor :: "routing_policy \<Rightarrow> tier option \<Rightarrow> routing_policy" where
  "with_floor p f = p\<lparr>policy_floor := f\<rparr>"

definition policy_rung :: "routing_policy \<Rightarrow> tier_name \<Rightarrow> tier option" where
  "policy_rung p name = ladder_tier (ladder p) name"

definition baseline :: "'d::linorder decimal \<Rightarrow> routing_policy \<Rightarrow> 'd catalog \<Rightarrow> string list \<Rightarrow>
    requirements \<Rightarrow> 'd model_spec option" where
  "baseline D p catalog served need =
     (case (dearest_served D catalog served need,
            pick (ladder p) (ladder_ceiling (ladder p)) catalog need) of
        (Some served_spec, Some ladder_spec) \<Rightarrow>
          Some (if list_price D served_spec < list_price D ladder_spec then ladder_spec else served_spec)
      | (Some spec, None) \<Rightarrow> Some spec
      | (None, ladder_spec) \<Rightarrow> ladder_spec)"

definition no_viable :: error where
  "no_viable = NoViableModel ''no model on the ladder satisfies the request''"

text \<open>Walk up from a tier until a rung has a model that can serve the request.\<close>

function resolve_walk :: "tier_ladder \<Rightarrow> tier_name \<Rightarrow> selection_reason \<Rightarrow> 'd catalog \<Rightarrow> requirements \<Rightarrow>
    'd model_spec option \<Rightarrow> tier \<Rightarrow> error + 'd routing_decision" where
  "resolve_walk l started_at reason catalog need ceil current =
     (case pick l current catalog need of
        Some spec \<Rightarrow> Inr \<lparr>dec_model = spec, dec_tier = Some current, dec_reason = reason,
          capability_escalated_from = (if t_name current \<noteq> started_at then Some started_at else None),
          ceiling_model = ceil\<rparr>
      | None \<Rightarrow>
          (case ladder_escalate l current of
             None \<Rightarrow> Inl no_viable
           | Some next \<Rightarrow> resolve_walk l started_at reason catalog need ceil next))"
  by auto
termination
  by (relation "measure (\<lambda>(l, _, _, _, _, _, current). length l - t_rank current)")
    (auto simp: ladder_escalate_Some on_ladder_def)

definition resolve_from :: "routing_policy \<Rightarrow> tier \<Rightarrow> selection_reason \<Rightarrow> 'd catalog \<Rightarrow> requirements \<Rightarrow>
    'd model_spec option \<Rightarrow> error + 'd routing_decision" where
  "resolve_from p t reason catalog need ceil =
     resolve_walk (ladder p) (t_name t) reason catalog need ceil t"

definition tier_of :: "routing_policy \<Rightarrow> model_id \<Rightarrow> tier option" where
  "tier_of p model =
     map_option (\<lambda>rank. mk_tier (r_name (ladder p ! rank)) rank)
       (Option.bind (position (\<lambda>r. model \<in> set (r_models r)) (ladder p)) u8_try_from)"

definition decide_passthrough :: "routing_policy \<Rightarrow> string \<Rightarrow> 'd catalog \<Rightarrow> requirements \<Rightarrow>
    'd model_spec option \<Rightarrow> error + 'd routing_decision" where
  "decide_passthrough p name catalog need ceil =
     (case catalog_resolve catalog name of
        None \<Rightarrow> Inl no_viable
      | Some spec \<Rightarrow>
          (case tier_of p (ms_id spec) of
             Some t \<Rightarrow>
               let clamped = clamp_to_floor t (policy_floor p) in
               if tier_eq clamped t then
                 Inr \<lparr>dec_model = spec, dec_tier = Some t, dec_reason = ReasonPassthrough,
                      capability_escalated_from = None, ceiling_model = ceil\<rparr>
               else resolve_from p clamped FloorPinned catalog need ceil
           | None \<Rightarrow>
               let honour = Inr \<lparr>dec_model = spec, dec_tier = None, dec_reason = ReasonPassthrough,
                      capability_escalated_from = None, ceiling_model = ceil\<rparr> in
               (case policy_floor p of
                  Some f \<Rightarrow> if t_rank f > 0 then resolve_from p f FloorPinned catalog need ceil else honour
                | None \<Rightarrow> honour)))"

definition managed_start :: "routing_policy \<Rightarrow> request_signal \<Rightarrow> budget_pressure \<Rightarrow> tier \<times> selection_reason" where
  "managed_start p signal pr =
     (let classified = classifier p signal;
          t = (case ladder_tier (ladder p) classified of Some t \<Rightarrow> t | None \<Rightarrow> ladder_floor (ladder p));
          floored = clamp_to_floor t (policy_floor p);
          reason = (if tier_eq floored t then Classified else FloorPinned)
      in if pr = Constrained then
           let cheapest = clamp_to_floor (ladder_floor (ladder p)) (policy_floor p) in
           if tier_less cheapest floored then (cheapest, BudgetDowngraded) else (floored, reason)
         else (floored, reason))"

definition decide :: "'d::linorder decimal \<Rightarrow> routing_policy \<Rightarrow> routing_mode \<Rightarrow> string option \<Rightarrow>
    request_signal \<Rightarrow> 'd budgets \<Rightarrow> 'd catalog \<Rightarrow> nat \<Rightarrow> string list \<Rightarrow> error + 'd routing_decision" where
  "decide D p mode requested_model signal budget catalog max_output_tokens served =
     (let need = requirements_of signal max_output_tokens;
          ceil = baseline D p catalog served need in
      if budgets_pressure D budget = Exhausted then Inl (BudgetExhausted (binding D budget))
      else case (mode, requested_model) of
        (Passthrough, Some name) \<Rightarrow> decide_passthrough p name catalog need ceil
      | _ \<Rightarrow>
          let (final_tier, reason) = managed_start p signal (budgets_pressure D budget)
          in resolve_from p final_tier reason catalog need ceil)"

definition policy_escalate :: "'d::linorder decimal \<Rightarrow> routing_policy \<Rightarrow> tier \<Rightarrow> quality_gate \<Rightarrow>
    request_signal \<Rightarrow> 'd catalog \<Rightarrow> nat \<Rightarrow> string list \<Rightarrow> 'd routing_decision option" where
  "policy_escalate D p from gate signal catalog max_output_tokens served =
     (case ladder_escalate (ladder p) from of
        None \<Rightarrow> None
      | Some next \<Rightarrow>
          let need = requirements_of signal max_output_tokens;
              ceil = baseline D p catalog served need in
          (case resolve_from p next (Escalated (t_name from) gate) catalog need ceil of
             Inr d \<Rightarrow> Some d | Inl _ \<Rightarrow> None))"

lemma resolve_walk_Inr:
  "resolve_walk l s reason c need ceil t = Inr d \<Longrightarrow>
   \<exists>u. dec_tier d = Some u \<and> t_rank t \<le> t_rank u \<and> t_rank u < length l \<and> (u = t \<or> on_ladder l u) \<and>
       pick l u c need = Some (dec_model d) \<and> dec_reason d = reason \<and> ceiling_model d = ceil \<and>
       capability_escalated_from d = (if t_name u \<noteq> s then Some s else None) \<and>
       (\<forall>i. t_rank t \<le> i \<and> i < t_rank u \<longrightarrow> \<not> serves l c need (\<lambda>_. True) i)"
proof (induction l s reason c need ceil t rule: resolve_walk.induct)
  case (1 l s reason c need ceil t)
  show ?case
  proof (cases "pick l t c need")
    case (Some m)
    with 1(2) show ?thesis
      by (subst (asm) resolve_walk.simps) (auto simp: pick_def dest: pick_where_Some(1))
  next
    case None
    with 1(2) obtain next' where n: "ladder_escalate l t = Some next'"
        "resolve_walk l s reason c need ceil next' = Inr d"
      by (subst (asm) resolve_walk.simps) (auto split: option.splits)
    from 1(1) [OF None n] obtain u where
      u: "dec_tier d = Some u" "t_rank next' \<le> t_rank u" "t_rank u < length l" "u = next' \<or> on_ladder l u"
        "pick l u c need = Some (dec_model d)" "dec_reason d = reason" "ceiling_model d = ceil"
        "capability_escalated_from d = (if t_name u \<noteq> s then Some s else None)"
        "\<forall>i. t_rank next' \<le> i \<and> i < t_rank u \<longrightarrow> \<not> serves l c need (\<lambda>_. True) i"
      by blast
    have nx: "on_ladder l next'" "t_rank next' = Suc (t_rank t)"
      using n(1) by (simp_all add: ladder_escalate_Some)
    have "\<not> serves l c need (\<lambda>_. True) (t_rank t)"
      using None by (simp add: pick_def pick_where_None)
    with u(9) nx(2) have "\<forall>i. t_rank t \<le> i \<and> i < t_rank u \<longrightarrow> \<not> serves l c need (\<lambda>_. True) i"
      by (metis Suc_leI le_eq_less_or_eq)
    with u nx show ?thesis by auto
  qed
qed

function past_provider :: "'d::linorder decimal \<Rightarrow> routing_policy \<Rightarrow> tier \<Rightarrow> tier \<Rightarrow> provider \<Rightarrow>
    request_signal \<Rightarrow> 'd catalog \<Rightarrow> nat \<Rightarrow> string list \<Rightarrow> 'd routing_decision option" where
  "past_provider D p origin from avoid signal catalog max_output_tokens served =
     (case policy_escalate D p from GateNoCredential signal catalog max_output_tokens served of
        None \<Rightarrow> None
      | Some next0 \<Rightarrow>
          let need = requirements_of signal max_output_tokens;
              next = (if provider_eq (ms_provider (dec_model next0)) avoid then
                        (case dec_tier next0 of
                           None \<Rightarrow> next0
                         | Some t \<Rightarrow>
                             (case pick_without (ladder p) t catalog need avoid of
                                None \<Rightarrow> next0 | Some spec \<Rightarrow> next0\<lparr>dec_model := spec\<rparr>))
                      else next0) in
          if \<not> provider_eq (ms_provider (dec_model next)) avoid then
            Some (next\<lparr>dec_reason := Escalated (t_name origin) GateNoCredential\<rparr>)
          else (case dec_tier next0 of
                  None \<Rightarrow> None
                | Some t \<Rightarrow> past_provider D p origin t avoid signal catalog max_output_tokens served))"
  by auto
termination
proof (relation "measure (\<lambda>(_, p, _, from, _). length (ladder p) - t_rank from)")
  fix D :: "'d::linorder decimal" and p origin start avoid signal and catalog :: "'d catalog"
    and max_output_tokens served next0 t
  assume e: "policy_escalate D p start GateNoCredential signal catalog max_output_tokens served = Some next0"
    and t: "dec_tier next0 = Some t"
  from e obtain nx where nx: "ladder_escalate (ladder p) start = Some nx"
      "resolve_from p nx (Escalated (t_name start) GateNoCredential) catalog
         (requirements_of signal max_output_tokens)
         (baseline D p catalog served (requirements_of signal max_output_tokens)) = Inr next0"
    by (auto simp: policy_escalate_def Let_def split: option.splits sum.splits)
  from resolve_walk_Inr [OF nx(2) [unfolded resolve_from_def]] t
  have "t_rank nx \<le> t_rank t" "t_rank t < length (ladder p)" by auto
  with nx(1) show "((D, p, origin, t, avoid, signal, catalog, max_output_tokens, served),
      (D, p, origin, start, avoid, signal, catalog, max_output_tokens, served))
      \<in> measure (\<lambda>(_, p, _, from, _). length (ladder p) - t_rank from)"
    by (auto simp: ladder_escalate_Some)
qed simp

declare resolve_walk.simps [simp del] past_provider.simps [simp del]

definition escalate_past_provider :: "'d::linorder decimal \<Rightarrow> routing_policy \<Rightarrow> tier \<Rightarrow> provider \<Rightarrow>
    request_signal \<Rightarrow> 'd catalog \<Rightarrow> nat \<Rightarrow> string list \<Rightarrow> 'd routing_decision option" where
  "escalate_past_provider D p from avoid signal catalog max_output_tokens served =
     past_provider D p from from avoid signal catalog max_output_tokens served"

definition floor_rank :: "routing_policy \<Rightarrow> nat" where
  "floor_rank p = (case policy_floor p of Some t \<Rightarrow> t_rank t | None \<Rightarrow> 0)"

definition virtual_names :: "routing_policy \<Rightarrow> budget_pressure \<Rightarrow> tier_name list" where
  "virtual_names p pr =
     (if pr = Exhausted then []
      else let ceiling_rank = (if pr = Constrained
                 then t_rank (clamp_to_floor (ladder_floor (ladder p)) (policy_floor p)) else u8_max)
           in List.map_filter (\<lambda>(i, r).
                case u8_try_from i of
                  None \<Rightarrow> None
                | Some rank \<Rightarrow> if floor_rank p \<le> rank \<and> rank \<le> ceiling_rank then Some (r_name r) else None)
              (enumerate 0 (ladder p)))"

definition pinned_model :: "routing_policy \<Rightarrow> tier_name option \<Rightarrow> budget_pressure \<Rightarrow> model_id option" where
  "pinned_model p rung pr =
     (let rungs = (case rung of Some name \<Rightarrow> [name] | None \<Rightarrow> virtual_names p pr);
          ms = concat (map r_models (filter (\<lambda>r. r_name r \<in> set rungs) (ladder p)))
      in case ms of [] \<Rightarrow> None | first # rest \<Rightarrow> if list_all (\<lambda>m. m = first) rest then Some first else None)"

record 'd entitlement =
  en_spec :: "'d model_spec"
  en_tier :: "tier_name option"
  honoured :: bool

definition has_provider :: "provider list \<Rightarrow> provider \<Rightarrow> bool" where
  "has_provider ps q = list_ex (\<lambda>p. provider_eq p q) ps"

fun entitle_specs :: "provider list \<Rightarrow> tier_name option \<Rightarrow> bool \<Rightarrow> 'd model_spec list \<Rightarrow>
    'd entitlement list \<times> string set \<Rightarrow> 'd entitlement list \<times> string set" where
  "entitle_specs ps tn hon [] acc = acc"
| "entitle_specs ps tn hon (spec # specs) (out, seen) =
     (if \<not> has_provider ps (ms_provider spec) \<or> ms_id spec \<in> seen
      then entitle_specs ps tn hon specs (out, seen)
      else entitle_specs ps tn hon specs
        (out @ [\<lparr>en_spec = spec, en_tier = tn, honoured = hon\<rparr>], insert (ms_id spec) seen))"

fun entitle_rungs :: "routing_policy \<Rightarrow> 'd catalog \<Rightarrow> provider list \<Rightarrow> bool \<Rightarrow> (nat \<times> rung) list \<Rightarrow>
    'd entitlement list \<times> string set \<Rightarrow> 'd entitlement list \<times> string set" where
  "entitle_rungs p catalog ps managed [] acc = acc"
| "entitle_rungs p catalog ps managed ((i, r) # rest) acc =
     (case u8_try_from i of
        None \<Rightarrow> entitle_rungs p catalog ps managed rest acc
      | Some rank \<Rightarrow>
          if rank < floor_rank p then entitle_rungs p catalog ps managed rest acc
          else entitle_rungs p catalog ps managed rest
            (entitle_specs ps (Some (r_name r)) (\<not> managed)
              (List.map_filter (catalog_get catalog) (r_models r)) acc))"

definition entitled :: "routing_policy \<Rightarrow> routing_mode \<Rightarrow> 'd catalog \<Rightarrow> provider list \<Rightarrow> budget_pressure \<Rightarrow>
    'd entitlement list" where
  "entitled p mode catalog ps pr =
     (if pr = Exhausted then []
      else let managed = (mode = Managed);
               (out, seen) = entitle_rungs p catalog ps managed (enumerate 0 (ladder p)) ([], {})
           in if managed then out
              else out @ map (\<lambda>spec. \<lparr>en_spec = spec, en_tier = None, honoured = (floor_rank p = 0)\<rparr>)
                (filter (\<lambda>spec. has_provider ps (ms_provider spec) \<and> ms_id spec \<notin> seen)
                  (catalog_iter catalog)))"

end
