(* ===== verification/Routing.thy ===== *)
theory Routing
  imports Policy
begin

text \<open>
  What the routing policy promises: the floor, the budget, the caller's own choice, the nearest
  capable rung, the climb past a provider, the savings baseline and what \<^verbatim>\<open>/v1/models\<close> claims.
\<close>

lemma resolve_walk_Inl:
  "resolve_walk l s reason c need ceil t = Inl e \<Longrightarrow>
   e = no_viable \<and> \<not> serves l c need (\<lambda>_. True) (t_rank t) \<and>
   (\<forall>i. t_rank t \<le> i \<and> i \<le> u8_max \<longrightarrow> \<not> serves l c need (\<lambda>_. True) i)"
proof (induction l s reason c need ceil t rule: resolve_walk.induct)
  case (1 l s reason c need ceil t)
  have none: "pick l t c need = None"
    using 1(2) by (subst (asm) resolve_walk.simps) (auto split: option.splits)
  then have here: "\<not> serves l c need (\<lambda>_. True) (t_rank t)"
    by (simp add: pick_def pick_where_None)
  show ?case
  proof (cases "ladder_escalate l t")
    case None
    then have "\<not> serves l c need (\<lambda>_. True) i" if "t_rank t < i" "i \<le> u8_max" for i
      using that by (auto simp: serves_def ladder_escalate_None)
    moreover have "e = no_viable"
      using 1(2) by (subst (asm) resolve_walk.simps) (simp add: none None)
    ultimately show ?thesis using here by (metis order.order_iff_strict)
  next
    case (Some nx)
    then have "resolve_walk l s reason c need ceil nx = Inl e"
      using 1(2) by (subst (asm) resolve_walk.simps) (simp add: none)
    from 1(1) [OF none Some this] Some here show ?thesis
      by (metis Suc_leI ladder_escalate_Some order.order_iff_strict)
  qed
qed

text \<open>The decision a walk produces, as one predicate: the nearest capable rung at or above a tier.\<close>

definition resolves_at :: "routing_policy \<Rightarrow> 'd catalog \<Rightarrow> requirements \<Rightarrow> tier \<Rightarrow> 'd routing_decision \<Rightarrow> bool" where
  "resolves_at p c need t d \<longleftrightarrow>
     (\<exists>u. dec_tier d = Some u \<and> t_rank t \<le> t_rank u \<and> t_rank u < length (ladder p) \<and>
        pick (ladder p) u c need = Some (dec_model d) \<and>
        (\<forall>i. t_rank t \<le> i \<and> i < t_rank u \<longrightarrow> \<not> serves (ladder p) c need (\<lambda>_. True) i))"

lemma resolve_from_Inr:
  "resolve_from p t reason c need ceil = Inr d \<Longrightarrow>
   resolves_at p c need t d \<and> dec_reason d = reason \<and> ceiling_model d = ceil"
  unfolding resolve_from_def resolves_at_def by (drule resolve_walk_Inr) blast

lemma resolves_at_model:
  assumes "resolves_at p c need t d"
  shows "satisfies (dec_model d) need" and "\<exists>u. dec_tier d = Some u \<and> t_rank t \<le> t_rank u"
  using assms by (auto simp: resolves_at_def pick_def dest: pick_where_Some(2))

lemma clamp_eq_iff: "tier_eq (clamp_to_floor t fl) t \<longleftrightarrow> (case fl of None \<Rightarrow> True | Some f \<Rightarrow> t_rank f \<le> t_rank t)"
  by (auto simp: clamp_to_floor_def tier_eq_def tier_less_def split: option.splits)

lemma clamp_ge_floor: "floor_rank p \<le> t_rank (clamp_to_floor t (policy_floor p))"
  by (auto simp: clamp_rank floor_rank_def split: option.splits)

lemma managed_start_ge_floor: "floor_rank p \<le> t_rank (fst (managed_start p signal pr))"
  by (auto simp: managed_start_def Let_def clamp_ge_floor)

lemma managed_start_reason: "snd (managed_start p signal pr) \<noteq> ReasonPassthrough"
  by (auto simp: managed_start_def Let_def)

lemma passthrough_decision:
  assumes "decide_passthrough p name c need ceil = Inr d"
  shows "(dec_reason d = ReasonPassthrough \<and> catalog_resolve c name = Some (dec_model d) \<and>
           dec_tier d = tier_of p (ms_id (dec_model d)) \<and>
           floor_rank p \<le> (case dec_tier d of Some t \<Rightarrow> t_rank t | None \<Rightarrow> 0)) \<or>
         (dec_reason d = FloorPinned \<and> (\<exists>t. floor_rank p \<le> t_rank t \<and> resolves_at p c need t d))"
  using assms clamp_ge_floor [of p]
  by (auto simp: decide_passthrough_def Let_def clamp_eq_iff floor_rank_def
      split: option.splits if_splits dest!: resolve_from_Inr)

lemma decide_Inr:
  assumes "decide D p mode req signal b c max_out served = Inr d"
  shows "budgets_pressure D b \<noteq> Exhausted"
    and "(dec_reason d = ReasonPassthrough \<and> mode = Passthrough \<and>
           (\<exists>name. req = Some name \<and> catalog_resolve c name = Some (dec_model d)) \<and>
           floor_rank p \<le> (case dec_tier d of Some t \<Rightarrow> t_rank t | None \<Rightarrow> 0)) \<or>
         (dec_reason d \<noteq> ReasonPassthrough \<and>
           (\<exists>t. floor_rank p \<le> t_rank t \<and> resolves_at p c (requirements_of signal max_out) t d))"
proof -
  show ne: "budgets_pressure D b \<noteq> Exhausted"
    using assms by (auto simp: decide_def Let_def)
  show "(dec_reason d = ReasonPassthrough \<and> mode = Passthrough \<and>
           (\<exists>name. req = Some name \<and> catalog_resolve c name = Some (dec_model d)) \<and>
           floor_rank p \<le> (case dec_tier d of Some t \<Rightarrow> t_rank t | None \<Rightarrow> 0)) \<or>
         (dec_reason d \<noteq> ReasonPassthrough \<and>
           (\<exists>t. floor_rank p \<le> t_rank t \<and> resolves_at p c (requirements_of signal max_out) t d))"
  proof (cases "\<exists>name. mode = Passthrough \<and> req = Some name")
    case True
    then obtain name where n: "mode = Passthrough" "req = Some name" by blast
    from assms ne have "decide_passthrough p name c (requirements_of signal max_out)
        (baseline D p c served (requirements_of signal max_out)) = Inr d"
      by (simp add: decide_def Let_def n)
    from passthrough_decision [OF this] n show ?thesis by auto
  next
    case False
    let ?ms = "managed_start p signal (budgets_pressure D b)"
    have "resolve_from p (fst ?ms) (snd ?ms) c (requirements_of signal max_out)
        (baseline D p c served (requirements_of signal max_out)) = Inr d"
      using assms ne False by (auto simp: decide_def Let_def split: prod.splits routing_mode.splits option.splits)
    from resolve_from_Inr [OF this] managed_start_ge_floor [of p signal] managed_start_reason [of p signal]
    show ?thesis by metis
  qed
qed

text \<open>
  C7. A floor is an entitlement: whatever the mode, the name, the classifier, the budget or the size
  of the request, a model is never served from a rung below the policy's floor, and a model on no
  rung is served only when the floor is the cheapest rung or there is none.
\<close>

theorem floor_never_undercut:
  assumes "decide D p mode req signal b c max_out served = Inr d" and "policy_floor p = Some f"
  shows "case dec_tier d of Some t \<Rightarrow> t_rank f \<le> t_rank t | None \<Rightarrow> t_rank f = 0"
  using decide_Inr(2) [OF assms(1)] assms(2)
  by (auto simp: floor_rank_def resolves_at_def split: option.splits)

text \<open>
  A decision is either the very model the caller named, in passthrough mode and with that reason
  on record, or a model that can serve the request: capabilities, and room for prompt and answer.
\<close>

theorem decided_model_is_named_or_capable:
  assumes "decide D p mode req signal b c max_out served = Inr d"
  shows "(dec_reason d = ReasonPassthrough \<and> mode = Passthrough \<and>
            (\<exists>name. req = Some name \<and> catalog_resolve c name = Some (dec_model d))) \<or>
         satisfies (dec_model d) (requirements_of signal max_out)"
  using decide_Inr(2) [OF assms] resolves_at_model(1) by blast

text \<open>
  Refusals are exact: a request is refused for its budget exactly when one of its caps is
  exhausted, and the scope named is exhausted itself; with budget left, a managed request is refused
  only when no rung from the one it starts on has a model that can serve it.
\<close>

theorem refusals_are_exact:
  "(decide D p mode req signal b c max_out served = Inl (BudgetExhausted s) \<longleftrightarrow>
      budgets_pressure D b = Exhausted \<and> s = binding D b) \<and>
   (budgets_pressure D b \<noteq> Exhausted \<longrightarrow> mode = Managed \<longrightarrow>
      (decide D p mode req signal b c max_out served = Inl e \<longrightarrow>
         e = no_viable \<and> (\<forall>i. t_rank (fst (managed_start p signal (budgets_pressure D b))) \<le> i \<and> i \<le> u8_max \<longrightarrow>
           \<not> serves (ladder p) c (requirements_of signal max_out) (\<lambda>_. True) i)))"
proof
  have nv: "resolve_from p t r c nd cl \<noteq> Inl (BudgetExhausted s)" for t r nd cl
    unfolding resolve_from_def using resolve_walk_Inl by (fastforce simp: no_viable_def)
  have "decide_passthrough p name c nd cl \<noteq> Inl (BudgetExhausted s)" for name nd cl
    by (auto simp: decide_passthrough_def Let_def nv no_viable_def split: option.splits if_splits)
  with nv show "decide D p mode req signal b c max_out served = Inl (BudgetExhausted s) \<longleftrightarrow>
      budgets_pressure D b = Exhausted \<and> s = binding D b"
    by (auto simp: decide_def Let_def split: prod.splits routing_mode.splits option.splits)
next
  show "budgets_pressure D b \<noteq> Exhausted \<longrightarrow> mode = Managed \<longrightarrow>
      (decide D p mode req signal b c max_out served = Inl e \<longrightarrow>
         e = no_viable \<and> (\<forall>i. t_rank (fst (managed_start p signal (budgets_pressure D b))) \<le> i \<and> i \<le> u8_max \<longrightarrow>
           \<not> serves (ladder p) c (requirements_of signal max_out) (\<lambda>_. True) i))"
    by (auto simp: decide_def Let_def resolve_from_def split: prod.splits dest: resolve_walk_Inl)
qed

lemma managed_start_rank:
  "t_rank (fst (managed_start p signal pr)) =
     (if pr = Constrained then floor_rank p
      else max (case ladder_tier (ladder p) (classifier p signal) of Some t \<Rightarrow> t_rank t | None \<Rightarrow> 0) (floor_rank p))"
  by (auto simp: managed_start_def Let_def clamp_rank floor_rank_def tier_less_def max_def split: option.splits)

lemma resolves_at_Least:
  assumes "resolves_at p c need t d"
  shows "\<exists>u. dec_tier d = Some u \<and> pick (ladder p) u c need = Some (dec_model d) \<and>
     t_rank u = (LEAST i. t_rank t \<le> i \<and> serves (ladder p) c need (\<lambda>_. True) i)"
proof -
  obtain u where u: "dec_tier d = Some u" "t_rank t \<le> t_rank u" "pick (ladder p) u c need = Some (dec_model d)"
      "\<forall>i. t_rank t \<le> i \<and> i < t_rank u \<longrightarrow> \<not> serves (ladder p) c need (\<lambda>_. True) i"
    using assms by (auto simp: resolves_at_def)
  have "serves (ladder p) c need (\<lambda>_. True) (t_rank u)"
    using u(3) pick_where_None [of "ladder p" u c need "\<lambda>_. True"] by (auto simp: pick_def)
  with u have "(LEAST i. t_rank t \<le> i \<and> serves (ladder p) c need (\<lambda>_. True) i) = t_rank u"
    by (intro Least_equality) (auto simp: not_less [symmetric])
  with u show ?thesis by metis
qed

text \<open>
  C31. Where policy decides, it decides as documented: the request starts on its classified rung (the
  cheapest when the classifier names none of the ladder's), lifted to the floor, or on the floor
  itself under budget pressure; it is served from the first rung at or above that start with a
  capable model, by the first capable model on it.
\<close>

theorem managed_decision_spec:
  assumes "decide D p Managed req signal b c max_out served = Inr d"
  shows "\<exists>t. dec_tier d = Some t \<and>
     pick (ladder p) t c (requirements_of signal max_out) = Some (dec_model d) \<and>
     t_rank t = (LEAST i. (if budgets_pressure D b = Constrained then floor_rank p
          else max (case ladder_tier (ladder p) (classifier p signal) of Some u \<Rightarrow> t_rank u | None \<Rightarrow> 0)
                 (floor_rank p)) \<le> i \<and>
        serves (ladder p) c (requirements_of signal max_out) (\<lambda>_. True) i)"
proof -
  let ?ms = "managed_start p signal (budgets_pressure D b)"
  have "resolve_from p (fst ?ms) (snd ?ms) c (requirements_of signal max_out)
      (baseline D p c served (requirements_of signal max_out)) = Inr d"
    using assms by (auto simp: decide_def Let_def split: prod.splits if_splits)
  from resolves_at_Least [OF resolve_from_Inr [OF this, THEN conjunct1]]
  show ?thesis unfolding managed_start_rank .
qed

subsection \<open>Climbing\<close>

lemma escalate_Some:
  assumes "policy_escalate D p fr gate signal c max_out served = Some d"
  shows "\<exists>t. resolves_at p c (requirements_of signal max_out) t d \<and> t_rank t = Suc (t_rank fr)"
    and "dec_reason d = Escalated (t_name fr) gate"
    and "ceiling_model d = baseline D p c served (requirements_of signal max_out)"
  using assms
  by (auto simp: policy_escalate_def Let_def ladder_escalate_Some split: option.splits sum.splits
      dest!: resolve_from_Inr)

lemma escalate_None:
  assumes "policy_escalate D p fr gate signal c max_out served = None" and "t_rank fr < i" and "i \<le> u8_max"
  shows "\<not> serves (ladder p) c (requirements_of signal max_out) (\<lambda>_. True) i"
proof (cases "ladder_escalate (ladder p) fr")
  case None
  with assms show ?thesis by (auto simp: ladder_escalate_None serves_def)
next
  case (Some nx)
  with assms(1) obtain e where
    "resolve_walk (ladder p) (t_name nx) (Escalated (t_name fr) gate) c (requirements_of signal max_out)
       (baseline D p c served (requirements_of signal max_out)) nx = Inl e"
    by (auto simp: policy_escalate_def Let_def resolve_from_def split: sum.splits)
  from resolve_walk_Inl [OF this] Some assms(2,3) show ?thesis by (auto simp: ladder_escalate_Some)
qed

lemma serves_mono: "serves l c need ok i \<Longrightarrow> serves l c need (\<lambda>_. True) i"
  by (auto simp: serves_def)

text \<open>
  A climb goes up and stops at the nearest help: escalating from a rung answers with the first
  rung strictly above it that has a capable model, and answers nothing exactly when no reachable rung
  above has one, so every climb ends after at most as many steps as the ladder has rungs.
\<close>

theorem escalate_is_nearest_above:
  "case policy_escalate D p fr gate signal c max_out served of
     Some d \<Rightarrow> dec_reason d = Escalated (t_name fr) gate \<and>
       (\<exists>t. dec_tier d = Some t \<and> t_rank fr < t_rank t \<and> t_rank t < length (ladder p) \<and>
          pick (ladder p) t c (requirements_of signal max_out) = Some (dec_model d) \<and>
          (\<forall>i. t_rank fr < i \<and> i < t_rank t \<longrightarrow>
             \<not> serves (ladder p) c (requirements_of signal max_out) (\<lambda>_. True) i))
   | None \<Rightarrow> \<forall>i. t_rank fr < i \<and> i \<le> u8_max \<longrightarrow>
       \<not> serves (ladder p) c (requirements_of signal max_out) (\<lambda>_. True) i"
  using escalate_Some [of D p fr gate signal c max_out served] escalate_None [of D p fr gate signal c max_out served]
  by (auto simp: resolves_at_def Suc_le_eq split: option.splits)

lemma past_provider_spec:
  "case past_provider D p origin fr avoid signal c max_out served of
     Some d \<Rightarrow> dec_reason d = Escalated (t_name origin) GateNoCredential \<and>
       \<not> provider_eq (ms_provider (dec_model d)) avoid \<and>
       satisfies (dec_model d) (requirements_of signal max_out) \<and>
       ceiling_model d = baseline D p c served (requirements_of signal max_out) \<and>
       (\<exists>t. dec_tier d = Some t \<and> t_rank fr < t_rank t \<and> t_rank t < length (ladder p) \<and>
          (\<exists>mid \<in> set (r_models (ladder p ! t_rank t)). catalog_get c mid = Some (dec_model d)) \<and>
          (\<forall>i. t_rank fr < i \<and> i < t_rank t \<longrightarrow> \<not> serves (ladder p) c (requirements_of signal max_out)
             (\<lambda>m. \<not> provider_eq (ms_provider m) avoid) i))
   | None \<Rightarrow> \<forall>i. t_rank fr < i \<and> i \<le> u8_max \<longrightarrow> \<not> serves (ladder p) c (requirements_of signal max_out)
       (\<lambda>m. \<not> provider_eq (ms_provider m) avoid) i"
proof (induction D p origin fr avoid signal c max_out served rule: past_provider.induct)
  case (1 D p origin fr avoid signal c max_out served)
  let ?need = "requirements_of signal max_out"
  let ?S = "serves (ladder p) c ?need"
  let ?ok = "\<lambda>m. \<not> provider_eq (ms_provider m) avoid"
  show ?case
  proof (cases "policy_escalate D p fr GateNoCredential signal c max_out served")
    case None
    then have "past_provider D p origin fr avoid signal c max_out served = None"
      by (subst past_provider.simps) simp
    with escalate_None [OF None] serves_mono show ?thesis by fastforce
  next
    case (Some d0)
    obtain t where t: "dec_tier d0 = Some t" "t_rank fr < t_rank t" "t_rank t < length (ladder p)"
        "pick (ladder p) t c ?need = Some (dec_model d0)"
        "\<And>i. t_rank fr < i \<Longrightarrow> i < t_rank t \<Longrightarrow> \<not> ?S ?ok i"
      using escalate_Some(1) [OF Some] serves_mono by (fastforce simp: resolves_at_def Suc_le_eq)
    note ceil = escalate_Some(3) [OF Some]
    consider (direct) "?ok (dec_model d0)"
      | (beside) m where "\<not> ?ok (dec_model d0)" "pick_without (ladder p) t c ?need avoid = Some m"
      | (skip) "\<not> ?ok (dec_model d0)" "pick_without (ladder p) t c ?need avoid = None"
      by fastforce
    then show ?thesis
    proof cases
      case direct
      then have "past_provider D p origin fr avoid signal c max_out served =
          Some (d0\<lparr>dec_reason := Escalated (t_name origin) GateNoCredential\<rparr>)"
        by (subst past_provider.simps) (simp add: Some t(1))
      with direct t ceil pick_where_Some(2,4) [OF t(4) [unfolded pick_def]] show ?thesis by auto
    next
      case (beside m)
      note w = pick_where_Some [OF beside(2) [unfolded pick_without_def]]
      have "past_provider D p origin fr avoid signal c max_out served =
          Some (d0\<lparr>dec_model := m, dec_reason := Escalated (t_name origin) GateNoCredential\<rparr>)"
        using beside w(3) by (subst past_provider.simps) (simp add: Some t(1))
      with w t ceil show ?thesis by auto
    next
      case skip
      then have rec: "past_provider D p origin fr avoid signal c max_out served =
          past_provider D p origin t avoid signal c max_out served"
        by (subst past_provider.simps) (simp add: Some t(1))
      have here: "\<not> ?S ?ok (t_rank t)"
        using skip(2) by (simp add: pick_without_def pick_where_None)
      have below: "\<not> ?S ?ok i" if "t_rank fr < i" "\<not> t_rank t < i" for i
        using that here t(5) by (metis linorder_neqE_nat)
      have "case past_provider D p origin t avoid signal c max_out served of
         Some d \<Rightarrow> dec_reason d = Escalated (t_name origin) GateNoCredential \<and>
           \<not> provider_eq (ms_provider (dec_model d)) avoid \<and> satisfies (dec_model d) ?need \<and>
           ceiling_model d = baseline D p c served ?need \<and>
           (\<exists>u. dec_tier d = Some u \<and> t_rank t < t_rank u \<and> t_rank u < length (ladder p) \<and>
              (\<exists>mid \<in> set (r_models (ladder p ! t_rank u)). catalog_get c mid = Some (dec_model d)) \<and>
              (\<forall>i. t_rank t < i \<and> i < t_rank u \<longrightarrow> \<not> ?S ?ok i))
       | None \<Rightarrow> \<forall>i. t_rank t < i \<and> i \<le> u8_max \<longrightarrow> \<not> ?S ?ok i"
        using skip t by (intro 1) (auto simp: Some)
      with below t(2) show ?thesis
        unfolding rec by (auto split: option.splits) (meson order.strict_trans)+
    qed
  qed
qed

text \<open>
  A climb past a provider nobody can be dispatched to finds another one whenever the ladder has
  one above: it answers with the nearest rung above that holds a capable model of a different
  provider, also when that model sits behind one of the avoided provider on its rung, it names the
  rung the request really left, and it answers nothing exactly when no reachable rung above holds one.
\<close>

theorem escalate_past_provider_spec:
  "case escalate_past_provider D p fr avoid signal c max_out served of
     Some d \<Rightarrow> dec_reason d = Escalated (t_name fr) GateNoCredential \<and>
       \<not> provider_eq (ms_provider (dec_model d)) avoid \<and>
       satisfies (dec_model d) (requirements_of signal max_out) \<and>
       (\<exists>t. dec_tier d = Some t \<and> t_rank fr < t_rank t \<and> t_rank t < length (ladder p) \<and>
          (\<exists>mid \<in> set (r_models (ladder p ! t_rank t)). catalog_get c mid = Some (dec_model d)) \<and>
          (\<forall>i. t_rank fr < i \<and> i < t_rank t \<longrightarrow> \<not> serves (ladder p) c (requirements_of signal max_out)
             (\<lambda>m. \<not> provider_eq (ms_provider m) avoid) i))
   | None \<Rightarrow> \<forall>i. t_rank fr < i \<and> i \<le> u8_max \<longrightarrow> \<not> serves (ladder p) c (requirements_of signal max_out)
       (\<lambda>m. \<not> provider_eq (ms_provider m) avoid) i"
  using past_provider_spec [where D = D and p = p and origin = fr and fr = fr and avoid = avoid
      and signal = signal and c = c and max_out = max_out and served = served]
  by (auto simp: escalate_past_provider_def split: option.splits)

subsection \<open>Concrete instances\<close>

definition sample_ladder :: tier_ladder where
  "sample_ladder = [\<lparr>r_name = ''cheap'', r_models = [''kimi/k2'']\<rparr>,
     \<lparr>r_name = ''balanced'', r_models = [''kimi/k3'']\<rparr>,
     \<lparr>r_name = ''frontier'', r_models = [''kimi/k4'', ''anthropic/opus'']\<rparr>]"

definition sample_policy :: "tier option \<Rightarrow> routing_policy" where
  "sample_policy fl = with_floor (policy_new sample_ladder (classify thresholds_default)) fl"

definition sample_catalog :: "int catalog" where
  "sample_catalog = from_entries [sample_model ''kimi/k2'' Kimi ''k2'' 1, sample_model ''kimi/k3'' Kimi ''k3'' 2,
     sample_model ''kimi/k4'' Kimi ''k4'' 3, sample_model ''anthropic/opus'' Anthropic ''opus'' 10]"

definition sample_signal :: request_signal where
  "sample_signal = \<lparr>sg_prompt_tokens = 100, tool_count = 0, turn_count = 1, has_images = False,
     thinking_requested = False, has_code = False, explicit_tier = None\<rparr>"

definition sample_budgets :: "int \<Rightarrow> int budgets" where
  "sample_budgets spent = principal_only fixed28
     \<lparr>spent_usd = spent * 10 ^ 28, limit_usd = Some (100 * 10 ^ 28), hard_stop_multiple = 10 ^ 28\<rparr>"

definition sample_decide :: "tier option \<Rightarrow> routing_mode \<Rightarrow> string option \<Rightarrow> request_signal \<Rightarrow> int \<Rightarrow>
    error + int routing_decision" where
  "sample_decide fl mode req signal spent =
     decide fixed28 (sample_policy fl) mode req signal (sample_budgets spent) sample_catalog 500 []"

lemma sample_get: "catalog_get sample_catalog mid =
   (if mid = ''anthropic/opus'' then Some (sample_model ''anthropic/opus'' Anthropic ''opus'' 10)
    else if mid = ''kimi/k4'' then Some (sample_model ''kimi/k4'' Kimi ''k4'' 3)
    else if mid = ''kimi/k3'' then Some (sample_model ''kimi/k3'' Kimi ''k3'' 2)
    else if mid = ''kimi/k2'' then Some (sample_model ''kimi/k2'' Kimi ''k2'' 1) else None)"
  unfolding sample_catalog_def get_from_entries by (simp add: sample_model_def)

lemma sample_resolve:
  "catalog_get sample_catalog name = Some m \<Longrightarrow> catalog_resolve sample_catalog name = Some m"
  by (simp add: catalog_resolve_def catalog_get_def)

lemma sample_policy_simps [simp]:
  "ladder (sample_policy fl) = sample_ladder" "policy_floor (sample_policy fl) = fl"
  "classifier (sample_policy fl) = classify thresholds_default"
  by (simp_all add: sample_policy_def with_floor_def policy_new_def)

lemma sample_id [simp]: "ms_id (sample_model mid p up price) = mid" "ms_provider (sample_model mid p up price) = p"
  by (simp_all add: sample_model_def)

lemma sample_satisfies [simp]: "satisfies (sample_model mid p up price) (requirements_of sample_signal 500)"
  by (simp add: satisfies_def sample_model_def requirements_of_def sample_signal_def sat_add_def width_defs)

lemma sample_pressure [simp]:
  "budgets_pressure fixed28 (sample_budgets 0) = Normal"
  "budgets_pressure fixed28 (sample_budgets 90) = Constrained"
  "budgets_pressure fixed28 (sample_budgets 100) = Exhausted"
  by (simp_all add: sample_budgets_def principal_only_def budgets_pressure_def pressure_def unlimited_def
      fixed28_def max_def)

lemmas sample_defs = sample_decide_def decide_def decide_passthrough_def managed_start_def
  tier_of_def clamp_to_floor_def tier_eq_def tier_less_def ladder_tier_def ladder_floor_def
  resolve_from_def resolve_walk.simps pick_def pick_where_def pick_without_def nth_opt_def sample_ladder_def
  sample_get sample_resolve List.map_filter_simps width_defs ladder_escalate_def policy_escalate_def
  u8_try_from_def Let_def

theorem floor_never_undercut_witness:
  "\<exists>d. sample_decide (Some (mk_tier ''balanced'' 1)) Passthrough (Some ''kimi/k2'') sample_signal 0 = Inr d \<and>
       ms_id (dec_model d) = ''kimi/k3'' \<and> (case dec_tier d of Some t \<Rightarrow> 1 \<le> t_rank t | None \<Rightarrow> False)"
proof -
  obtain d where d: "sample_decide (Some (mk_tier ''balanced'' 1)) Passthrough (Some ''kimi/k2'') sample_signal 0 = Inr d"
      "ms_id (dec_model d) = ''kimi/k3''"
    by (simp add: sample_defs)
  from floor_never_undercut [OF d(1) [unfolded sample_decide_def], of "mk_tier ''balanced'' 1"] d show ?thesis
    by (auto split: option.splits)
qed

theorem decided_model_is_named_or_capable_witness:
  "\<exists>d. sample_decide None Passthrough (Some ''kimi/k4'') sample_signal 0 = Inr d \<and>
       (catalog_resolve sample_catalog ''kimi/k4'' = Some (dec_model d) \<or>
        satisfies (dec_model d) (requirements_of sample_signal 500))"
proof -
  obtain d where d: "sample_decide None Passthrough (Some ''kimi/k4'') sample_signal 0 = Inr d"
    by (simp add: sample_defs)
  from decided_model_is_named_or_capable [OF this [unfolded sample_decide_def]] d show ?thesis by auto
qed

theorem refusals_are_exact_witness:
  "sample_decide None Managed None sample_signal 100 =
     Inl (BudgetExhausted (binding fixed28 (sample_budgets 100)))"
  unfolding sample_decide_def by (simp add: refusals_are_exact)

theorem managed_decision_spec_witness:
  "\<exists>d t. sample_decide (Some (mk_tier ''balanced'' 1)) Managed None
        (sample_signal\<lparr>explicit_tier := Some ''frontier''\<rparr>) 90 = Inr d \<and>
      dec_reason d = BudgetDowngraded \<and> dec_tier d = Some t \<and>
      t_rank t = (LEAST i. 1 \<le> i \<and> serves sample_ladder sample_catalog
        (requirements_of (sample_signal\<lparr>explicit_tier := Some ''frontier''\<rparr>) 500) (\<lambda>_. True) i)"
proof -
  define sg where "sg = sample_signal\<lparr>explicit_tier := Some ''frontier''\<rparr>"
  have sat: "requirements_of sg 500 = requirements_of sample_signal 500"
    by (simp add: sg_def requirements_of_def)
  have cl: "classify thresholds_default sg = ''frontier''" by (simp add: sg_def classify_def)
  obtain d where d: "sample_decide (Some (mk_tier ''balanced'' 1)) Managed None sg 90 = Inr d"
      "dec_reason d = BudgetDowngraded"
    by (simp add: sample_defs sat cl)
  from managed_decision_spec [OF d(1) [unfolded sample_decide_def]] d show ?thesis
    unfolding sg_def [symmetric] by (auto simp: floor_rank_def)
qed

theorem escalate_is_nearest_above_witness:
  "\<exists>d. policy_escalate fixed28 (sample_policy None) (mk_tier ''cheap'' 0) Refusal sample_signal sample_catalog 500 [] = Some d \<and>
       dec_reason d = Escalated ''cheap'' Refusal \<and> ms_id (dec_model d) = ''kimi/k3''"
proof -
  obtain d where d: "policy_escalate fixed28 (sample_policy None) (mk_tier ''cheap'' 0) Refusal sample_signal
      sample_catalog 500 [] = Some d" "ms_id (dec_model d) = ''kimi/k3''"
    by (simp add: sample_defs)
  from escalate_is_nearest_above [where D = fixed28 and p = "sample_policy None" and fr = "mk_tier ''cheap'' 0"
      and gate = Refusal and signal = sample_signal and c = sample_catalog and max_out = 500 and served = "[]"] d show ?thesis by auto
qed

theorem escalate_past_provider_spec_witness:
  "\<exists>d. escalate_past_provider fixed28 (sample_policy None) (mk_tier ''cheap'' 0) Kimi sample_signal sample_catalog 500 [] = Some d \<and>
       dec_reason d = Escalated ''cheap'' GateNoCredential \<and> ms_id (dec_model d) = ''anthropic/opus''"
proof -
  obtain d where d: "escalate_past_provider fixed28 (sample_policy None) (mk_tier ''cheap'' 0) Kimi sample_signal
      sample_catalog 500 [] = Some d" "ms_id (dec_model d) = ''anthropic/opus''"
    unfolding escalate_past_provider_def by (simp add: sample_defs past_provider.simps)
  from escalate_past_provider_spec [where D = fixed28 and p = "sample_policy None" and fr = "mk_tier ''cheap'' 0"
      and avoid = Kimi and signal = sample_signal and c = sample_catalog and max_out = 500 and served = "[]"] d show ?thesis by auto
qed

end
