(* ===== verification/Listing.thy ===== *)
theory Listing
  imports Routing
begin

text \<open>
  What \<^verbatim>\<open>/v1/models\<close> tells a caller against what the next request does: the models listed as honoured,
  the rungs advertised as virtual names, and the baseline the savings figure is measured against.
\<close>

lemma entitle_specs_out:
  "e \<in> set (fst (entitle_specs ps tn hon specs acc)) \<Longrightarrow>
   e \<in> set (fst acc) \<or> (en_spec e \<in> set specs \<and> en_tier e = tn \<and> honoured e = hon)"
  by (induction ps tn hon specs acc rule: entitle_specs.induct) (auto split: if_splits)

definition listed_on :: "routing_policy \<Rightarrow> 'd catalog \<Rightarrow> 'd entitlement \<Rightarrow> nat \<Rightarrow> rung \<Rightarrow> bool" where
  "listed_on p c e i r \<longleftrightarrow> i \<le> u8_max \<and> floor_rank p \<le> i \<and> en_tier e = Some (r_name r) \<and>
     (\<exists>mid \<in> set (r_models r). catalog_get c mid = Some (en_spec e))"

lemma entitle_rungs_out:
  "e \<in> set (fst (entitle_rungs p c ps managed irs acc)) \<Longrightarrow>
   e \<in> set (fst acc) \<or> (honoured e = (\<not> managed) \<and> (\<exists>(i, r) \<in> set irs. listed_on p c e i r))"
proof (induction p c ps managed irs acc rule: entitle_rungs.induct)
  case (2 p c ps managed i r rest acc)
  show ?case
  proof (cases "u8_max < i \<or> i < floor_rank p")
    case True
    then have "entitle_rungs p c ps managed ((i, r) # rest) acc = entitle_rungs p c ps managed rest acc"
      by (auto simp: u8_try_from_def)
    with 2 True show ?thesis by (auto simp: u8_try_from_def split: if_splits)
  next
    case False
    then have i: "u8_try_from i = Some i" "\<not> i < floor_rank p" by (auto simp: u8_try_from_def)
    let ?specs = "List.map_filter (catalog_get c) (r_models r)"
    have "e \<in> set (fst (entitle_specs ps (Some (r_name r)) (\<not> managed) ?specs acc)) \<or>
        (honoured e = (\<not> managed) \<and> (\<exists>(i, r) \<in> set rest. listed_on p c e i r))"
      using 2(3) [OF i] 2(4) by (simp add: i)
    moreover have "e \<in> set (fst acc) \<or> (honoured e = (\<not> managed) \<and> listed_on p c e i r)"
      if "e \<in> set (fst (entitle_specs ps (Some (r_name r)) (\<not> managed) ?specs acc))"
      using entitle_specs_out [OF that] i by (auto simp: listed_on_def set_map_filter_iff not_less u8_try_from_def split: if_splits)
    ultimately show ?thesis by auto
  qed
qed simp

text \<open>No model sits on two rungs.\<close>

definition one_rung :: "routing_policy \<Rightarrow> bool" where
  "one_rung p \<longleftrightarrow> (\<forall>i < length (ladder p). \<forall>j < length (ladder p).
     set (r_models (ladder p ! i)) \<inter> set (r_models (ladder p ! j)) \<noteq> {} \<longrightarrow> i = j)"

lemma tier_of_one_rung:
  assumes "one_rung p" and i: "i < length (ladder p)" "i \<le> u8_max" "mid \<in> set (r_models (ladder p ! i))"
  shows "\<exists>t. tier_of p mid = Some t \<and> t_rank t = i"
proof -
  have "position (\<lambda>r. mid \<in> set (r_models r)) (ladder p) = Some i"
    using assms unfolding position_Some one_rung_def by (metis IntI empty_iff less_irrefl order.strict_trans)
  then show ?thesis using i(2) by (simp add: tier_of_def)
qed

lemma passthrough_honoured:
  assumes "catalog_get c (ms_id m) = Some m"
    and "case tier_of p (ms_id m) of Some t \<Rightarrow> floor_rank p \<le> t_rank t | None \<Rightarrow> floor_rank p = 0"
  shows "\<exists>d. decide_passthrough p (ms_id m) c need ceil = Inr d \<and> dec_model d = m \<and> dec_reason d = ReasonPassthrough"
  using assms
  by (auto simp: decide_passthrough_def catalog_resolve_def catalog_get_def Let_def clamp_eq_iff floor_rank_def
      split: option.splits)

text \<open>
  A model listed as honoured is honoured: on a ladder where no model sits on two rungs, naming
  any model the listing marks honoured, while the budget is not exhausted, is decided onto exactly
  that model, whatever the request asks for.
\<close>

theorem honoured_names_are_honoured:
  assumes "one_rung p" and "catalog_inv c" and "e \<in> set (entitled p mode c ps pr)" and "honoured e"
    and "budgets_pressure D b \<noteq> Exhausted"
  shows "\<exists>d. decide D p Passthrough (Some (ms_id (en_spec e))) signal b c max_out served = Inr d \<and>
     dec_model d = en_spec e \<and> dec_reason d = ReasonPassthrough"
proof -
  obtain out seen where run: "entitle_rungs p c ps (mode = Managed) (enumerate 0 (ladder p)) ([], {}) = (out, seen)"
    by fastforce
  have "catalogued c (en_spec e) \<and> (case tier_of p (ms_id (en_spec e)) of
      Some t \<Rightarrow> floor_rank p \<le> t_rank t | None \<Rightarrow> floor_rank p = 0)"
  proof (cases "e \<in> set out")
    case True
    then have "\<exists>(i, r) \<in> set (enumerate 0 (ladder p)). listed_on p c e i r"
      using entitle_rungs_out [of e p c ps "mode = Managed" "enumerate 0 (ladder p)" "([], {})"] run by simp
    then obtain i mid where i: "i < length (ladder p)" "i \<le> u8_max" "floor_rank p \<le> i"
        "mid \<in> set (r_models (ladder p ! i))" "catalog_get c mid = Some (en_spec e)"
      by (auto simp: listed_on_def in_set_enumerate_eq)
    moreover from this have "ms_id (en_spec e) = mid" using catalog_invD(2) [OF assms(2)] by blast
    ultimately show ?thesis
      using tier_of_one_rung [OF assms(1) i(1,2)] by (fastforce simp: catalogued_def)
  next
    case False
    with assms(3,4) run have "floor_rank p = 0" "en_spec e \<in> set (catalog_iter c)"
      by (auto simp: entitled_def Let_def split: if_splits)
    moreover have "catalogued c (en_spec e)"
    proof -
      obtain mid where "(mid, en_spec e) \<in> set (models c)"
        using \<open>en_spec e \<in> set (catalog_iter c)\<close> by (auto simp: catalog_iter_def)
      then have "catalog_get c mid = Some (en_spec e)"
        using sorted_keys_distinct [OF catalog_invD(1) [OF assms(2)]] by (simp add: catalog_get_def)
      then show ?thesis by (rule catalog_get_catalogued [OF assms(2)])
    qed
    ultimately show ?thesis by (auto split: option.splits)
  qed
  then show ?thesis
    using passthrough_honoured [of c "en_spec e" p] assms(5)
    by (auto simp: catalogued_def decide_def Let_def)
qed

text \<open>
  The rungs advertised as virtual names are the rungs requests for them start on: on a ladder
  with distinct rung names, a managed request classified onto an advertised name starts on that very
  rung, under budget pressure too.
\<close>

theorem advertised_rungs_are_served:
  assumes "distinct (map r_name (ladder p))" and "name \<in> set (virtual_names p pr)"
    and "classifier p signal = name"
  shows "\<exists>i < length (ladder p). r_name (ladder p ! i) = name \<and> floor_rank p \<le> i \<and>
           t_rank (fst (managed_start p signal pr)) = i"
proof -
  obtain i where i: "i < length (ladder p)" "r_name (ladder p ! i) = name" "i \<le> u8_max" "floor_rank p \<le> i"
      "pr = Constrained \<longrightarrow> i = floor_rank p"
    using assms(2)
    by (auto simp: virtual_names_def Let_def set_map_filter_iff in_set_enumerate_eq u8_try_from_def clamp_rank
        floor_rank_def split: if_splits option.splits)
  have "position (\<lambda>r. r_name r = name) (ladder p) = Some i"
    unfolding position_Some
    using i(1,2) assms(1) by (metis distinct_conv_nth length_map nth_map order.strict_trans order.irrefl)
  then have "ladder_tier (ladder p) name = Some (mk_tier name i)"
    using i(3) by (simp add: ladder_tier_def)
  then have "t_rank (fst (managed_start p signal pr)) = i"
    using i(4,5) by (auto simp: managed_start_rank assms(3))
  with i show ?thesis by blast
qed

theorem advertised_rungs_are_served_witness:
  "virtual_names (sample_policy (Some (mk_tier ''balanced'' 1))) Constrained = [''balanced''] \<and>
   (\<exists>i < length sample_ladder. r_name (sample_ladder ! i) = ''balanced'' \<and>
     t_rank (fst (managed_start (sample_policy (Some (mk_tier ''balanced'' 1)))
       (sample_signal\<lparr>explicit_tier := Some ''balanced''\<rparr>) Constrained)) = i)"
proof -
  let ?p = "sample_policy (Some (mk_tier ''balanced'' 1))"
  let ?sg = "sample_signal\<lparr>explicit_tier := Some ''balanced''\<rparr>"
  have names: "virtual_names ?p Constrained = [''balanced'']"
    by (simp add: virtual_names_def floor_rank_def clamp_rank sample_ladder_def List.map_filter_simps
        u8_try_from_def width_defs)
  have "distinct (map r_name (ladder ?p))" by (simp add: sample_ladder_def)
  moreover have "classifier ?p ?sg = ''balanced''" by (simp add: classify_def)
  moreover have "''balanced'' \<in> set (virtual_names ?p Constrained)" unfolding names by simp
  ultimately have "\<exists>i < length (ladder ?p). r_name (ladder ?p ! i) = ''balanced'' \<and> floor_rank ?p \<le> i \<and>
      t_rank (fst (managed_start ?p ?sg Constrained)) = i"
    by (intro advertised_rungs_are_served)
  with names show ?thesis by auto
qed

lemma sample_entitled: "\<exists>e \<in> set (entitled (sample_policy None) Passthrough sample_catalog [Kimi] Normal).
     honoured e \<and> ms_id (en_spec e) = ''kimi/k2''"
  by (simp add: entitled_def sample_ladder_def floor_rank_def u8_try_from_def width_defs has_provider_def
      sample_get List.map_filter_simps)

theorem honoured_names_are_honoured_witness:
  "\<exists>d. sample_decide None Passthrough (Some ''kimi/k2'') sample_signal 90 = Inr d \<and>
     ms_id (dec_model d) = ''kimi/k2''"
proof -
  obtain e where e: "e \<in> set (entitled (sample_policy None) Passthrough sample_catalog [Kimi] Normal)"
      "honoured e" "ms_id (en_spec e) = ''kimi/k2''"
    using sample_entitled by blast
  have "one_rung (sample_policy None)"
    by (simp add: one_rung_def sample_ladder_def less_Suc_eq)
  moreover have "catalog_inv sample_catalog" by (simp add: sample_catalog_def from_entries_inv)
  moreover have "budgets_pressure fixed28 (sample_budgets 90) \<noteq> Exhausted" by simp
  ultimately show ?thesis
    using honoured_names_are_honoured [OF _ _ e(1,2), of fixed28 "sample_budgets 90" sample_signal 500 "[]"] e(3)
    unfolding sample_decide_def by metis
qed

subsection \<open>Where the documentation claims more than the code does\<close>

text \<open>
  A model on two rungs with the floor between them is listed as honoured, on the upper rung, and
  naming it is decided onto a different model: the listing starts at the floor, and the decision
  looks for the first rung that holds the model.
\<close>

definition repeated_policy :: routing_policy where
  "repeated_policy = with_floor (policy_new
     [\<lparr>r_name = ''cheap'', r_models = [''kimi/k2'']\<rparr>, \<lparr>r_name = ''balanced'', r_models = [''kimi/k3'']\<rparr>,
      \<lparr>r_name = ''frontier'', r_models = [''kimi/k2'']\<rparr>]
     (classify thresholds_default)) (Some (mk_tier ''balanced'' 1))"

theorem honoured_claim_fails_across_the_floor:
  "(\<exists>e \<in> set (entitled repeated_policy Passthrough sample_catalog [Kimi] Normal).
      honoured e \<and> ms_id (en_spec e) = ''kimi/k2'') \<and>
   (\<exists>d. decide fixed28 repeated_policy Passthrough (Some ''kimi/k2'') sample_signal (sample_budgets 0)
      sample_catalog 500 [] = Inr d \<and> ms_id (dec_model d) = ''kimi/k3'')"
proof
  show "\<exists>e \<in> set (entitled repeated_policy Passthrough sample_catalog [Kimi] Normal).
      honoured e \<and> ms_id (en_spec e) = ''kimi/k2''"
    by (simp add: entitled_def repeated_policy_def with_floor_def policy_new_def floor_rank_def u8_try_from_def
        width_defs has_provider_def sample_get List.map_filter_simps)
  show "\<exists>d. decide fixed28 repeated_policy Passthrough (Some ''kimi/k2'') sample_signal (sample_budgets 0)
      sample_catalog 500 [] = Inr d \<and> ms_id (dec_model d) = ''kimi/k3''"
    by (simp add: sample_defs repeated_policy_def with_floor_def policy_new_def)
qed

text \<open>
  A row served from the ladder can report a negative saving: the baseline compares with the first
  capable model of the top rung only, and a climb past a provider can serve a dearer model beside it.
\<close>

theorem ladder_row_can_report_negative_saving:
  "\<exists>d m. escalate_past_provider fixed28 (sample_policy None) (mk_tier ''cheap'' 0) Kimi sample_signal
      sample_catalog 500 [] = Some d \<and> ceiling_model d = Some m \<and>
    list_price fixed28 m < list_price fixed28 (dec_model d)"
  unfolding escalate_past_provider_def
  by (simp add: sample_defs past_provider.simps baseline_def dearest_served_def ladder_ceiling_def)
    (simp add: list_price_def sample_model_def fixed28_def)

end
