(* ===== verification/Alias.thy ===== *)
theory Alias
  imports Routing
begin

text \<open>
  Turning the model name a client sent into the one the router knows
  (\<^verbatim>\<open>oag-server/src/gateway/alias.rs\<close>): the discovery prefix, the channel qualifier, and the spellings the
  listing advertises. The central fact is the round trip: what the listing offers is taken back as the
  model it was offered for.
\<close>

definition DISCOVERY_PREFIX :: string where "DISCOVERY_PREFIX = ''anthropic/''"
definition CHANNEL_SEPARATOR :: char where "CHANNEL_SEPARATOR = CHR ''@''"
definition VIRTUAL_PREFIX :: string where "VIRTUAL_PREFIX = ''oag/''"

definition starts_with_ci :: "string \<Rightarrow> string \<Rightarrow> bool" where
  "starts_with_ci s p \<longleftrightarrow> length p \<le> length s \<and>
     map to_ascii_lower (take (length p) s) = map to_ascii_lower p"

definition survives_discovery_filter :: "string \<Rightarrow> bool" where
  "survives_discovery_filter mid \<longleftrightarrow> starts_with_ci mid ''claude'' \<or> starts_with_ci mid ''anthropic''"

definition discovery_alias :: "string \<Rightarrow> string option" where
  "discovery_alias mid = (if survives_discovery_filter mid then None else Some (DISCOVERY_PREFIX @ mid))"

definition qualified_id :: "string \<Rightarrow> credential_kind \<Rightarrow> string option" where
  "qualified_id mid kind = map_option (\<lambda>q. mid @ [CHANNEL_SEPARATOR] @ q) (qualifier kind)"

record normalised =
  nm_model :: "string option"
  nm_channel :: "credential_kind option"

definition known :: "string \<Rightarrow> 'd catalog \<Rightarrow> bool" where
  "known model c \<longleftrightarrow> prefix VIRTUAL_PREFIX model \<or> catalog_resolve c model \<noteq> None"

definition canonicalise :: "string \<Rightarrow> 'd catalog \<Rightarrow> string option" where
  "canonicalise model c =
     (if known model c then None
      else case strip_prefix DISCOVERY_PREFIX model of
        None \<Rightarrow> None
      | Some rest \<Rightarrow> if known rest c then Some rest else None)"

definition rsplit_once :: "char \<Rightarrow> string \<Rightarrow> (string \<times> string) option" where
  "rsplit_once sep s = map_option (\<lambda>(a, b). (rev b, rev a)) (split_once sep (rev s))"

definition split_channel :: "string \<Rightarrow> 'd catalog \<Rightarrow> error + string \<times> credential_kind option" where
  "split_channel model c =
     (case rsplit_once CHANNEL_SEPARATOR model of
        None \<Rightarrow> Inr (model, None)
      | Some (base, q) \<Rightarrow>
          if catalog_resolve c model \<noteq> None then Inr (model, None)
          else case from_qualifier q of
            None \<Rightarrow> Inl (UnknownModelChannel q)
          | Some kind \<Rightarrow> Inr (base, Some kind))"

definition normalise :: "string \<Rightarrow> 'd catalog \<Rightarrow> error + normalised" where
  "normalise model c =
     (case split_channel model c of
        Inl e \<Rightarrow> Inl e
      | Inr (base, channel) \<Rightarrow>
          (let name = (case canonicalise base c of Some n \<Rightarrow> n | None \<Rightarrow> base);
               ok = Inr \<lparr>nm_model = (if name \<noteq> model then Some name else None), nm_channel = channel\<rparr>
           in case channel of
                None \<Rightarrow> ok
              | Some kind \<Rightarrow>
                  (case catalog_resolve c name of
                     None \<Rightarrow> ok
                   | Some spec \<Rightarrow>
                       if accepts (support (ms_provider spec)) kind then ok
                       else Inl (ChannelNotOffered (ms_provider spec) kind))))"

subsection \<open>Splitting at the last separator\<close>

lemma rsplit_once_Some: "rsplit_once sep s = Some (a, b) \<longleftrightarrow> s = a @ sep # b \<and> sep \<notin> set b"
proof -
  have "rev s = rev b @ sep # rev a \<longleftrightarrow> s = a @ sep # b"
    by (metis append.assoc append_Cons append_Nil rev.simps(2) rev_append rev_rev_ident)
  then show ?thesis
    by (auto simp: rsplit_once_def split_once_Some rev_swap split: prod.splits)
qed

lemma rsplit_once_None: "rsplit_once sep s = None \<longleftrightarrow> sep \<notin> set s"
  by (simp add: rsplit_once_def split_once_None)

lemma qualifier_no_separator: "qualifier k = Some q \<Longrightarrow> CHANNEL_SEPARATOR \<notin> set q"
  by (cases k) (auto simp: CHANNEL_SEPARATOR_def)

lemma from_qualifier_qualifier: "qualifier k = Some q \<Longrightarrow> from_qualifier q = Some k"
  by (cases k) (auto simp: from_qualifier_def QUALIFIED_def)

lemma split_plain: "CHANNEL_SEPARATOR \<notin> set s \<or> catalog_resolve c s \<noteq> None \<Longrightarrow> split_channel s c = Inr (s, None)"
  by (auto simp: split_channel_def rsplit_once_None [symmetric] split: option.splits)

lemma split_qualified:
  assumes "qualifier k = Some q" and "catalog_resolve c (s @ CHANNEL_SEPARATOR # q) = None"
  shows "split_channel (s @ CHANNEL_SEPARATOR # q) c = Inr (s, Some k)"
proof -
  have "rsplit_once CHANNEL_SEPARATOR (s @ CHANNEL_SEPARATOR # q) = Some (s, q)"
    using qualifier_no_separator [OF assms(1)] by (simp add: rsplit_once_Some)
  then show ?thesis using assms(2) from_qualifier_qualifier [OF assms(1)] by (simp add: split_channel_def)
qed

lemma canonicalise_known: "catalog_resolve c s = Some m \<Longrightarrow> canonicalise s c = None"
  by (simp add: canonicalise_def known_def)

lemma canonicalise_alias:
  assumes "catalog_resolve c s = Some m" and "catalog_resolve c (DISCOVERY_PREFIX @ s) = None"
  shows "canonicalise (DISCOVERY_PREFIX @ s) c = Some s"
  using assms by (simp add: canonicalise_def known_def strip_prefix_def DISCOVERY_PREFIX_def VIRTUAL_PREFIX_def)

subsection \<open>The properties\<close>

text \<open>
  What the listing offers is taken back on the next turn: a catalogued id, the same id pinned to a
  credential kind its provider accepts, and the two with the discovery prefix in front, all normalise to
  that id and that pin, provided no spelling is itself the name of another catalogued model and the
  unpinned id carries no separator of its own.
\<close>

theorem listed_spellings_come_back:
  assumes "catalog_resolve c mid = Some m" and "accepts (support (ms_provider m)) k" and "qualified_id mid k = Some s"
    and "catalog_resolve c s = None" and "catalog_resolve c (DISCOVERY_PREFIX @ mid) = None"
    and "catalog_resolve c (DISCOVERY_PREFIX @ s) = None"
  shows "normalise mid c = Inr \<lparr>nm_model = None, nm_channel = None\<rparr> \<and>
    normalise s c = Inr \<lparr>nm_model = Some mid, nm_channel = Some k\<rparr> \<and>
    normalise (DISCOVERY_PREFIX @ s) c = Inr \<lparr>nm_model = Some mid, nm_channel = Some k\<rparr> \<and>
    (CHANNEL_SEPARATOR \<notin> set mid \<longrightarrow>
       normalise (DISCOVERY_PREFIX @ mid) c = Inr \<lparr>nm_model = Some mid, nm_channel = None\<rparr>)"
proof -
  obtain q where q: "qualifier k = Some q" and s: "s = mid @ CHANNEL_SEPARATOR # q"
    using assms(3) by (auto simp: qualified_id_def)
  have twin: "split_channel (DISCOVERY_PREFIX @ mid @ CHANNEL_SEPARATOR # q) c = Inr (DISCOVERY_PREFIX @ mid, Some k)"
    using split_qualified [OF q, of c "DISCOVERY_PREFIX @ mid"] assms(6) by (simp add: s)
  have plain: "CHANNEL_SEPARATOR \<notin> set mid \<Longrightarrow> split_channel (DISCOVERY_PREFIX @ mid) c = Inr (DISCOVERY_PREFIX @ mid, None)"
    by (rule split_plain) (simp add: DISCOVERY_PREFIX_def CHANNEL_SEPARATOR_def)
  have "DISCOVERY_PREFIX @ mid \<noteq> mid" "mid \<noteq> DISCOVERY_PREFIX @ mid @ CHANNEL_SEPARATOR # q"
    by (auto simp: DISCOVERY_PREFIX_def dest: arg_cong [where f = length])
  then show ?thesis
    using assms(1,2) split_plain [of mid c] split_qualified [OF q, of c mid] assms(4,5) twin plain
    by (auto simp: normalise_def s canonicalise_known [OF assms(1)] canonicalise_alias [OF assms(1,5)] Let_def)
qed

text \<open>
  C37. The exception is a fault: a catalogued id whose own name ends in a separator and a word that is no
  qualifier, as Vertex names its Claude models, is advertised under its discovery twin and then refused
  with an unknown-qualifier error when the client sends the twin back.
\<close>

theorem twin_of_a_dated_id_is_refused:
  assumes "catalog_resolve c mid = Some m" and "mid = a @ CHANNEL_SEPARATOR # q" and "CHANNEL_SEPARATOR \<notin> set q"
    and "from_qualifier q = None" and "discovery_alias mid = Some s" and "catalog_resolve c s = None"
  shows "normalise mid c = Inr \<lparr>nm_model = None, nm_channel = None\<rparr> \<and> normalise s c = Inl (UnknownModelChannel q)"
proof -
  have s: "s = DISCOVERY_PREFIX @ a @ CHANNEL_SEPARATOR # q" using assms(2,5) by (auto simp: discovery_alias_def split: if_splits)
  have "rsplit_once CHANNEL_SEPARATOR s = Some (DISCOVERY_PREFIX @ a, q)" using assms(3) by (simp add: rsplit_once_Some s)
  then have "split_channel s c = Inl (UnknownModelChannel q)" using assms(4,6) by (simp add: split_channel_def)
  moreover have "split_channel mid c = Inr (mid, None)" using assms(1) by (intro split_plain) simp
  ultimately show ?thesis by (simp add: normalise_def canonicalise_known [OF assms(1)] Let_def)
qed

subsection \<open>Witnesses\<close>

definition sample_grok :: "int catalog" where
  "sample_grok = from_entries [sample_model ''xai/grok-4.6'' XAI ''grok-4.6'' 2,
     sample_model ''vx/claude-sonnet-4-5@20250929'' Kimi ''claude-sonnet-4-5@20250929'' 3]"

lemma sample_grok_get: "map_of (models sample_grok) n =
   (if n = ''vx/claude-sonnet-4-5@20250929'' then Some (sample_model ''vx/claude-sonnet-4-5@20250929'' Kimi ''claude-sonnet-4-5@20250929'' 3)
    else if n = ''xai/grok-4.6'' then Some (sample_model ''xai/grok-4.6'' XAI ''grok-4.6'' 2) else None)"
  using get_from_entries [of "[sample_model ''xai/grok-4.6'' XAI ''grok-4.6'' 2,
     sample_model ''vx/claude-sonnet-4-5@20250929'' Kimi ''claude-sonnet-4-5@20250929'' 3]" n]
  by (auto simp: sample_grok_def catalog_get_def sample_model_def)

lemma sample_grok_by_upstream: "map_of (by_upstream sample_grok) n =
   (if n = ''claude-sonnet-4-5@20250929'' then Some [''vx/claude-sonnet-4-5@20250929'']
    else if n = ''grok-4.6'' then Some [''xai/grok-4.6''] else None)"
  by (simp add: sample_grok_def from_entries_def catalog_insert_def catalog_new_def sample_model_def drop_stale_def Let_def)

lemma sample_grok_unlisted:
  "catalog_resolve sample_grok ''xai/grok-4.6@sub'' = None" "catalog_resolve sample_grok ''anthropic/xai/grok-4.6'' = None"
  "catalog_resolve sample_grok ''anthropic/xai/grok-4.6@sub'' = None"
  "catalog_resolve sample_grok ''anthropic/vx/claude-sonnet-4-5@20250929'' = None"
  by (simp_all add: catalog_resolve_def sample_grok_get sample_grok_by_upstream)

theorem listed_spellings_come_back_witness:
  "normalise ''anthropic/xai/grok-4.6@sub'' sample_grok = Inr \<lparr>nm_model = Some ''xai/grok-4.6'', nm_channel = Some OAuth\<rparr>"
proof -
  have r: "catalog_resolve sample_grok ''xai/grok-4.6'' = Some (sample_model ''xai/grok-4.6'' XAI ''grok-4.6'' 2)"
    by (simp add: catalog_resolve_def sample_grok_get)
  have q: "qualified_id ''xai/grok-4.6'' OAuth = Some ''xai/grok-4.6@sub''"
    by (simp add: qualified_id_def CHANNEL_SEPARATOR_def)
  have a: "accepts (support (ms_provider (sample_model ''xai/grok-4.6'' XAI ''grok-4.6'' (2 :: int)))) OAuth"
    by (simp add: accepts_def)
  from listed_spellings_come_back [OF r a q] sample_grok_unlisted show ?thesis by (simp add: DISCOVERY_PREFIX_def)
qed

theorem twin_of_a_dated_id_is_refused_witness:
  "normalise ''anthropic/vx/claude-sonnet-4-5@20250929'' sample_grok = Inl (UnknownModelChannel ''20250929'')"
proof -
  have r: "catalog_resolve sample_grok ''vx/claude-sonnet-4-5@20250929'' =
      Some (sample_model ''vx/claude-sonnet-4-5@20250929'' Kimi ''claude-sonnet-4-5@20250929'' 3)"
    by (simp add: catalog_resolve_def sample_grok_get)
  have i: "''vx/claude-sonnet-4-5@20250929'' = ''vx/claude-sonnet-4-5'' @ CHANNEL_SEPARATOR # ''20250929''"
    "CHANNEL_SEPARATOR \<notin> set ''20250929''" "from_qualifier ''20250929'' = None"
    by (simp_all add: CHANNEL_SEPARATOR_def from_qualifier_def QUALIFIED_def)
  have d: "discovery_alias ''vx/claude-sonnet-4-5@20250929'' = Some ''anthropic/vx/claude-sonnet-4-5@20250929''"
    by (simp add: discovery_alias_def survives_discovery_filter_def starts_with_ci_def to_ascii_lower_def
        DISCOVERY_PREFIX_def)
  from twin_of_a_dated_id_is_refused [OF r i d sample_grok_unlisted(4)] show ?thesis by simp
qed

end
