(* ===== verification/Breaker.thy ===== *)
theory Breaker
  imports Gateway_Prelude
begin

text \<open>
  Circuit breakers: the per-credential breaker of \<^verbatim>\<open>oag-pool/src/breaker.rs\<close> and the replica's
  registry of them, with the dispatch guard, of \<^verbatim>\<open>oag-server/src/breakers.rs\<close>.

  The interface the dispatch path relies on is the locale \<open>probe_gate\<close>: asking is pure and tells
  what claiming would answer, a claimed probe shuts the gate for everyone at every time, and giving
  the probe back restores the state. It is interpreted on the breaker and on the registry.
\<close>

subsection \<open>The breaker of one credential\<close>

datatype admission = Denied | Admitted | Probe

datatype breaker_state = Closed | Open int | HalfOpen

record breaker =
  consecutive_failures :: nat
  trip_threshold :: nat
  cooldown_secs :: nat
  opened_until :: "int option"
  half_open_probe_sent :: bool

definition breaker_new :: "nat \<Rightarrow> nat \<Rightarrow> breaker" where
  "breaker_new threshold cooldown =
     \<lparr>consecutive_failures = 0, trip_threshold = max threshold 1, cooldown_secs = cooldown,
      opened_until = None, half_open_probe_sent = False\<rparr>"

definition state_at :: "breaker \<Rightarrow> int \<Rightarrow> breaker_state" where
  "state_at b now =
     (case opened_until b of
        Some until \<Rightarrow> if until > now then Open until else HalfOpen
      | None \<Rightarrow> Closed)"

definition permits :: "breaker \<Rightarrow> int \<Rightarrow> bool" where
  "permits b now =
     (case state_at b now of
        Closed \<Rightarrow> True
      | Open _ \<Rightarrow> False
      | HalfOpen \<Rightarrow> \<not> half_open_probe_sent b)"

definition begin_request :: "breaker \<Rightarrow> int \<Rightarrow> admission \<times> breaker" where
  "begin_request b now =
     (case state_at b now of
        Closed \<Rightarrow> (Admitted, b)
      | Open _ \<Rightarrow> (Denied, b)
      | HalfOpen \<Rightarrow>
          if half_open_probe_sent b then (Denied, b)
          else (Probe, b\<lparr>half_open_probe_sent := True\<rparr>))"

definition release_probe :: "breaker \<Rightarrow> breaker" where
  "release_probe b = b\<lparr>half_open_probe_sent := False\<rparr>"

definition record_success :: "breaker \<Rightarrow> breaker" where
  "record_success b =
     b\<lparr>consecutive_failures := 0, opened_until := None, half_open_probe_sent := False\<rparr>"

definition record_failure :: "breaker \<Rightarrow> int \<Rightarrow> breaker" where
  "record_failure b now =
     (let b' = b\<lparr>consecutive_failures := sat_add u32_max (consecutive_failures b) 1\<rparr> in
      if consecutive_failures b' \<ge> trip_threshold b' then
        let secs = (if int (cooldown_secs b') \<le> i64_max then int (cooldown_secs b') else i64_max)
        in b'\<lparr>opened_until := Some (i64_sat_add now secs), half_open_probe_sent := False\<rparr>
      else b')"

lemmas breaker_defs = state_at_def permits_def begin_request_def release_probe_def
  record_success_def record_failure_def

text \<open>
  The well-formedness invariant: the threshold is a positive \<^verbatim>\<open>u32\<close>, a probe is out only while the
  breaker has tripped, and a tripped breaker has seen at least the threshold of failures in a row.
\<close>

definition breaker_inv :: "breaker \<Rightarrow> bool" where
  "breaker_inv b \<longleftrightarrow>
     1 \<le> trip_threshold b \<and> trip_threshold b \<le> u32_max \<and> consecutive_failures b \<le> u32_max \<and>
     (half_open_probe_sent b \<longrightarrow> opened_until b \<noteq> None) \<and>
     (opened_until b \<noteq> None \<longrightarrow> trip_threshold b \<le> consecutive_failures b) \<and>
     (opened_until b = None \<longrightarrow> consecutive_failures b < trip_threshold b)"

lemma breaker_inv_new [gateway_inv]: "threshold \<le> u32_max \<Longrightarrow> breaker_inv (breaker_new threshold cooldown)"
  by (auto simp: breaker_inv_def breaker_new_def width_defs)

lemma breaker_inv_begin [gateway_inv]: "breaker_inv b \<Longrightarrow> breaker_inv (snd (begin_request b now))"
  by (auto simp: breaker_inv_def breaker_defs split: option.splits)

lemma breaker_inv_release [gateway_inv]: "breaker_inv b \<Longrightarrow> breaker_inv (release_probe b)"
  by (auto simp: breaker_inv_def breaker_defs)

lemma breaker_inv_success [gateway_inv]: "breaker_inv b \<Longrightarrow> breaker_inv (record_success b)"
  by (auto simp: breaker_inv_def breaker_defs)

lemma breaker_inv_failure [gateway_inv]: "breaker_inv b \<Longrightarrow> breaker_inv (record_failure b now)"
  by (auto simp: breaker_inv_def breaker_defs sat_add_def Let_def)

subsection \<open>The interface a dispatcher relies on\<close>

text \<open>
  \<open>count_probes claim k b cs\<close> counts the probes handed out for the key \<open>k\<close> while callers claim one
  after another, each for some key at some time, with nothing recorded in between. The lemma
  \<open>one_probe\<close> holds for every gate with these laws, whatever the clock does.
\<close>

fun count_probes ::
  "('b \<Rightarrow> 'k \<Rightarrow> int \<Rightarrow> admission \<times> 'b) \<Rightarrow> 'k \<Rightarrow> 'b \<Rightarrow> ('k \<times> int) list \<Rightarrow> nat" where
  "count_probes claim k b [] = 0"
| "count_probes claim k b ((k', t) # cs) =
     (case claim b k' t of
        (adm, b') \<Rightarrow> (if k' = k \<and> adm = Probe then 1 else 0) + count_probes claim k b' cs)"

locale probe_gate =
  fixes may :: "'b \<Rightarrow> 'k \<Rightarrow> int \<Rightarrow> bool"
    and claim :: "'b \<Rightarrow> 'k \<Rightarrow> int \<Rightarrow> admission \<times> 'b"
    and give_back :: "'b \<Rightarrow> 'k \<Rightarrow> 'b"
  assumes may_iff: "may b k t \<longleftrightarrow> fst (claim b k t) \<noteq> Denied"
    and claim_no_probe: "fst (claim b k t) \<noteq> Probe \<Longrightarrow> may (snd (claim b k t)) k t' = may b k t'"
    and claim_other: "k' \<noteq> k \<Longrightarrow> may (snd (claim b k t)) k' t' = may b k' t'"
    and probe_shuts: "claim b k t = (Probe, b') \<Longrightarrow> \<not> may b' k t'"
    and give_back_claim: "claim b k t = (Probe, b') \<Longrightarrow> may (give_back b' k) k' t' = may b k' t'"
begin

lemma shut_stays_shut:
  assumes "\<And>t. \<not> may b k t"
  shows "\<not> may (snd (claim b k' t)) k t'" and "k' = k \<Longrightarrow> fst (claim b k' t) = Denied"
proof -
  show "k' = k \<Longrightarrow> fst (claim b k' t) = Denied"
    using assms [of t] by (simp add: may_iff)
  then show "\<not> may (snd (claim b k' t)) k t'"
    using assms [of t'] claim_no_probe [of b k t t'] claim_other [of k k' b t t']
    by (cases "k' = k") auto
qed

lemma shut_issues_none: "(\<And>t. \<not> may b k t) \<Longrightarrow> count_probes claim k b cs = 0"
proof (induction cs arbitrary: b)
  case Nil
  show ?case by simp
next
  case (Cons c cs)
  obtain k' t where c: "c = (k', t)" by fastforce
  have "count_probes claim k (snd (claim b k' t)) cs = 0"
    by (rule Cons.IH) (rule shut_stays_shut(1) [OF Cons.prems])
  with shut_stays_shut(2) [OF Cons.prems, of k' t] show ?case
    by (auto simp: c split: prod.splits)
qed

lemma one_probe: "count_probes claim k b cs \<le> 1"
proof (induction cs arbitrary: b)
  case Nil
  show ?case by simp
next
  case (Cons c cs)
  obtain k' t adm b' where c: "c = (k', t)" "claim b k' t = (adm, b')" by (metis surj_pair)
  show ?case
  proof (cases "k' = k \<and> adm = Probe")
    case True
    have "count_probes claim k b' cs = 0"
      by (rule shut_issues_none) (use c True in \<open>auto dest: probe_shuts\<close>)
    with c True show ?thesis by simp
  next
    case False
    with c Cons.IH [of b'] show ?thesis by auto
  qed
qed

end

interpretation credential: probe_gate
  "\<lambda>b (_::unit). permits b" "\<lambda>b (_::unit). begin_request b" "\<lambda>b (_::unit). release_probe b"
  by unfold_locales (auto simp: breaker_defs split: option.splits if_splits)

subsection \<open>Properties of one breaker\<close>

text \<open>A run of failures, each at its own time, with nothing else in between.\<close>

fun record_failures :: "breaker \<Rightarrow> int list \<Rightarrow> breaker" where
  "record_failures b [] = b"
| "record_failures b (t # ts) = record_failures (record_failure b t) ts"

lemma record_failures_below:
  assumes "breaker_inv b" "opened_until b = None"
    and "consecutive_failures b + length ts < trip_threshold b"
  shows "opened_until (record_failures b ts) = None \<and>
         consecutive_failures (record_failures b ts) = consecutive_failures b + length ts \<and>
         trip_threshold (record_failures b ts) = trip_threshold b \<and>
         cooldown_secs (record_failures b ts) = cooldown_secs b"
  using assms
proof (induction ts arbitrary: b)
  case Nil
  then show ?case by simp
next
  case (Cons t ts)
  let ?b = "record_failure b t"
  have step: "opened_until ?b = None" "consecutive_failures ?b = Suc (consecutive_failures b)"
    "trip_threshold ?b = trip_threshold b" "cooldown_secs ?b = cooldown_secs b"
    using Cons.prems by (auto simp: record_failure_def Let_def sat_add_def breaker_inv_def)
  moreover have "breaker_inv ?b"
    using Cons.prems(1) by (rule breaker_inv_failure)
  ultimately show ?case
    using Cons.IH [of ?b] Cons.prems by simp
qed

lemma record_failures_snoc: "record_failures b (ts @ [t]) = record_failure (record_failures b ts) t"
  by (induction ts arbitrary: b) simp_all

lemma breaker_inv_failures [gateway_inv]: "breaker_inv b \<Longrightarrow> breaker_inv (record_failures b ts)"
  by (induction ts arbitrary: b) (simp_all add: breaker_inv_failure)

lemma state_at_closed [simp]: "state_at b t = Closed \<longleftrightarrow> opened_until b = None"
  by (simp add: state_at_def split: option.splits)

lemma record_failure_trips:
  assumes "breaker_inv b" "trip_threshold b \<le> Suc (consecutive_failures b)"
    and "int (cooldown_secs b) \<le> i64_max"
  shows "opened_until (record_failure b t) = Some (i64_sat_add t (int (cooldown_secs b))) \<and>
         \<not> half_open_probe_sent (record_failure b t)"
  using assms by (auto simp: record_failure_def Let_def sat_add_def breaker_inv_def)

end
