(* ===== verification/Breakers.thy ===== *)
theory Breakers
  imports Breaker
begin

text \<open>
  The replica's registry of breakers and the dispatch guard (\<^verbatim>\<open>oag-server/src/breakers.rs\<close>).
  The registry is a map from credentials to breakers behind a mutex; a poisoned mutex is the flag
  \<open>poisoned\<close>, under which every operation takes the branch the code takes on a failed lock. The
  guard \<open>dispatch\<close> is the right to send one request; \<open>dispatch_drop\<close> is its destructor.
\<close>

definition TRIP_THRESHOLD :: nat where "TRIP_THRESHOLD = 5"
definition COOLDOWN :: nat where "COOLDOWN = 60"

record breakers =
  poisoned :: bool
  inner :: "(account_id \<times> breaker) list"

definition breakers_new :: breakers where
  "breakers_new = \<lparr>poisoned = False, inner = []\<rparr>"

definition breakers_permits :: "breakers \<Rightarrow> account_id \<Rightarrow> int \<Rightarrow> bool" where
  "breakers_permits bs account now =
     (if poisoned bs then True
      else case map_of (inner bs) account of None \<Rightarrow> True | Some b \<Rightarrow> permits b now)"

definition entry :: "breakers \<Rightarrow> account_id \<Rightarrow> breaker" where
  "entry bs account =
     (case map_of (inner bs) account of
        None \<Rightarrow> breaker_new TRIP_THRESHOLD COOLDOWN
      | Some b \<Rightarrow> b)"

definition set_entry :: "breakers \<Rightarrow> account_id \<Rightarrow> breaker \<Rightarrow> breakers" where
  "set_entry bs account b = bs\<lparr>inner := AList.update account b (inner bs)\<rparr>"

definition breakers_begin_request :: "breakers \<Rightarrow> account_id \<Rightarrow> int \<Rightarrow> admission \<times> breakers" where
  "breakers_begin_request bs account now =
     (if poisoned bs then (Admitted, bs)
      else case begin_request (entry bs account) now of
        (adm, b) \<Rightarrow> (adm, set_entry bs account b))"

definition breakers_release_probe :: "breakers \<Rightarrow> account_id \<Rightarrow> breakers" where
  "breakers_release_probe bs account =
     (if poisoned bs then bs
      else case map_of (inner bs) account of
        None \<Rightarrow> bs
      | Some b \<Rightarrow> set_entry bs account (release_probe b))"

definition breakers_record_success :: "breakers \<Rightarrow> account_id \<Rightarrow> breakers" where
  "breakers_record_success bs account =
     (if poisoned bs then bs
      else set_entry bs account (record_success (entry bs account)))"

definition breakers_record_failure :: "breakers \<Rightarrow> account_id \<Rightarrow> int \<Rightarrow> breakers" where
  "breakers_record_failure bs account now =
     (if poisoned bs then bs
      else set_entry bs account (record_failure (entry bs account) now))"

definition open_count :: "breakers \<Rightarrow> int \<Rightarrow> nat" where
  "open_count bs now =
     (if poisoned bs then 0
      else length (filter (\<lambda>(_, b). case state_at b now of Open _ \<Rightarrow> True | _ \<Rightarrow> False) (inner bs)))"

definition breakers_clear :: "breakers \<Rightarrow> account_id \<Rightarrow> breakers" where
  "breakers_clear bs account = breakers_record_success bs account"

record dispatch =
  d_account :: account_id
  d_probe :: bool

definition dispatch_claim :: "breakers \<Rightarrow> account_id \<Rightarrow> int \<Rightarrow> dispatch option \<times> breakers" where
  "dispatch_claim bs account now =
     (case breakers_begin_request bs account now of
        (Denied, bs') \<Rightarrow> (None, bs')
      | (Admitted, bs') \<Rightarrow> (Some \<lparr>d_account = account, d_probe = False\<rparr>, bs')
      | (Probe, bs') \<Rightarrow> (Some \<lparr>d_account = account, d_probe = True\<rparr>, bs'))"

definition dispatch_sent :: "dispatch \<Rightarrow> dispatch" where
  "dispatch_sent d = d\<lparr>d_probe := False\<rparr>"

definition dispatch_drop :: "breakers \<Rightarrow> dispatch \<Rightarrow> breakers" where
  "dispatch_drop bs d = (if d_probe d then breakers_release_probe bs (d_account d) else bs)"

lemmas breakers_defs [gateway_simps] = breakers_permits_def entry_def set_entry_def
  breakers_begin_request_def breakers_release_probe_def breakers_record_success_def
  breakers_record_failure_def breakers_clear_def dispatch_claim_def dispatch_sent_def
  dispatch_drop_def

lemma permits_new [simp]: "permits (breaker_new n c) now"
  by (simp add: breaker_new_def breaker_defs)

lemma begin_new [simp]: "begin_request (breaker_new n c) now = (Admitted, breaker_new n c)"
  by (simp add: breaker_new_def breaker_defs)

lemma permits_entry: "\<not> poisoned bs \<Longrightarrow> breakers_permits bs a now = permits (entry bs a) now"
  by (simp add: breakers_defs split: option.splits)

lemma permits_poisoned [simp]: "poisoned bs \<Longrightarrow> breakers_permits bs a now"
  by (simp add: breakers_permits_def)

lemma entry_set_entry [simp]: "entry (set_entry bs a b) a' = (if a' = a then b else entry bs a')"
  by (simp add: entry_def set_entry_def)

lemma poisoned_set_entry [simp]: "poisoned (set_entry bs a b) = poisoned bs"
  by (simp add: set_entry_def)

lemma permits_set_entry:
  "\<not> poisoned bs \<Longrightarrow>
   breakers_permits (set_entry bs a b) a' t = (if a' = a then permits b t else breakers_permits bs a' t)"
  by (simp add: permits_entry)

text \<open>The registry is a gate with one key for each credential, by the laws of the breaker itself.\<close>

lemma release_is_set_entry:
  assumes "\<not> poisoned bs" "map_of (inner bs) a \<noteq> None"
  shows "breakers_release_probe bs a = set_entry bs a (release_probe (entry bs a))"
  using assms by (auto simp: breakers_release_probe_def entry_def)

interpretation replica: probe_gate breakers_permits breakers_begin_request breakers_release_probe
proof unfold_locales
  fix bs k t t' k' bs'
  show "breakers_permits bs k t \<longleftrightarrow> fst (breakers_begin_request bs k t) \<noteq> Denied"
    using credential.may_iff [of "entry bs k" t]
    by (cases "poisoned bs")
      (auto simp: permits_entry breakers_begin_request_def split: prod.splits)
  show "fst (breakers_begin_request bs k t) \<noteq> Probe \<Longrightarrow>
        breakers_permits (snd (breakers_begin_request bs k t)) k t' = breakers_permits bs k t'"
    using credential.claim_no_probe [of "entry bs k" t t']
    by (cases "poisoned bs")
      (auto simp: permits_entry breakers_begin_request_def split: prod.splits)
  show "k' \<noteq> k \<Longrightarrow>
        breakers_permits (snd (breakers_begin_request bs k t)) k' t' = breakers_permits bs k' t'"
    by (cases "poisoned bs")
      (auto simp: permits_entry breakers_begin_request_def split: prod.splits)
  assume c: "breakers_begin_request bs k t = (Probe, bs')"
  then obtain b where np: "\<not> poisoned bs" and b: "begin_request (entry bs k) t = (Probe, b)"
    and bs': "bs' = set_entry bs k b"
    by (auto simp: breakers_begin_request_def split: if_splits prod.splits)
  show "\<not> breakers_permits bs' k t'"
    using credential.probe_shuts [OF b, of t'] np by (simp add: bs' permits_entry)
  have "map_of (inner bs') k \<noteq> None"
    by (simp add: bs' set_entry_def)
  then show "breakers_permits (breakers_release_probe bs' k) k' t' = breakers_permits bs k' t'"
    using credential.give_back_claim [OF b, of t'] np
    by (simp add: bs' release_is_set_entry permits_entry)
qed

subsection \<open>Every reachable registry is well formed\<close>

text \<open>
  One step of the replica: a request claims, hands its guard back, or records its outcome, or an
  operator clears a credential. Time is the argument of each step and is not assumed to advance.
\<close>

inductive replica_step :: "breakers \<Rightarrow> breakers \<Rightarrow> bool" where
  claim: "replica_step bs (snd (dispatch_claim bs a t))"
| drop: "replica_step bs (dispatch_drop bs d)"
| success: "replica_step bs (breakers_record_success bs a)"
| failure: "replica_step bs (breakers_record_failure bs a t)"
| clear: "replica_step bs (breakers_clear bs a)"
| poison: "replica_step bs (bs\<lparr>poisoned := True\<rparr>)"

inductive replica_reachable :: "breakers \<Rightarrow> bool" where
  start: "replica_reachable breakers_new"
| step: "replica_reachable bs \<Longrightarrow> replica_step bs bs' \<Longrightarrow> replica_reachable bs'"

definition breakers_inv :: "breakers \<Rightarrow> bool" where
  "breakers_inv bs \<longleftrightarrow>
     (\<forall>a. breaker_inv (entry bs a) \<and> trip_threshold (entry bs a) = TRIP_THRESHOLD \<and>
          cooldown_secs (entry bs a) = COOLDOWN)"

lemma config_kept [simp]:
  "trip_threshold (snd (begin_request b t)) = trip_threshold b"
  "cooldown_secs (snd (begin_request b t)) = cooldown_secs b"
  "trip_threshold (release_probe b) = trip_threshold b"
  "cooldown_secs (release_probe b) = cooldown_secs b"
  "trip_threshold (record_success b) = trip_threshold b"
  "cooldown_secs (record_success b) = cooldown_secs b"
  "trip_threshold (record_failure b t) = trip_threshold b"
  "cooldown_secs (record_failure b t) = cooldown_secs b"
  by (auto simp: breaker_defs Let_def split: option.splits)

lemma breakers_inv_set_entry:
  "breakers_inv bs \<Longrightarrow> breaker_inv b \<Longrightarrow> trip_threshold b = TRIP_THRESHOLD \<Longrightarrow>
   cooldown_secs b = COOLDOWN \<Longrightarrow> breakers_inv (set_entry bs a b)"
  by (simp add: breakers_inv_def)

lemma breakers_inv_release [gateway_inv]:
  assumes "breakers_inv bs"
  shows "breakers_inv (breakers_release_probe bs a)"
proof (cases "poisoned bs \<or> map_of (inner bs) a = None")
  case True
  with assms show ?thesis by (auto simp: breakers_release_probe_def)
next
  case False
  with assms show ?thesis
    by (simp add: release_is_set_entry breakers_inv_def breaker_inv_release)
qed

lemma breakers_inv_step [gateway_inv]:
  assumes "replica_step bs bs'" "breakers_inv bs"
  shows "breakers_inv bs'"
  using assms
proof (induction rule: replica_step.induct)
  case (claim bs a t)
  obtain adm b where b: "begin_request (entry bs a) t = (adm, b)" by fastforce
  then have "breaker_inv b \<and> trip_threshold b = TRIP_THRESHOLD \<and> cooldown_secs b = COOLDOWN"
    using claim breaker_inv_begin [of "entry bs a" t] config_kept(1) [of "entry bs a" t]
      config_kept(2) [of "entry bs a" t] by (simp add: breakers_inv_def)
  with claim b have "breakers_inv (snd (breakers_begin_request bs a t))"
    by (simp add: breakers_begin_request_def breakers_inv_set_entry)
  then show ?case
    by (auto simp: dispatch_claim_def split: prod.splits admission.splits)
next
  case (drop bs d)
  then show ?case by (simp add: dispatch_drop_def breakers_inv_release)
next
  case (success bs a)
  then show ?case
    by (simp add: breakers_record_success_def breakers_inv_def breaker_inv_success)
next
  case (failure bs a t)
  then show ?case
    by (simp add: breakers_record_failure_def breakers_inv_def breaker_inv_failure)
next
  case (clear bs a)
  then show ?case
    by (simp add: breakers_clear_def breakers_record_success_def breakers_inv_def breaker_inv_success)
next
  case (poison bs)
  then show ?case by (simp add: breakers_inv_def entry_def)
qed

lemma reachable_breakers_inv: "replica_reachable bs \<Longrightarrow> breakers_inv bs"
proof (induction rule: replica_reachable.induct)
  case start
  show ?case
    by (auto simp: breakers_inv_def entry_def breakers_new_def TRIP_THRESHOLD_def breaker_new_def
        breaker_inv_def width_defs)
next
  case (step bs bs')
  then show ?case by (blast intro: breakers_inv_step)
qed

subsection \<open>The properties\<close>

text \<open>
  The guards in flight, in whatever order requests claim them, mark them sent or drop them: the registry, the
  guards alive, and how many probes of one credential are out. A probe is out from the claim that answered it
  until its guard is dropped unsent; one that was sent stays out.
\<close>

datatype guard_op =
    ClaimOp account_id int
  | SentOp nat
  | DropOp nat

fun guard_step :: "account_id \<Rightarrow> guard_op \<Rightarrow> breakers \<times> dispatch list \<times> nat \<Rightarrow> breakers \<times> dispatch list \<times> nat" where
  "guard_step a (ClaimOp k t) (bs, ds, out) =
     (case dispatch_claim bs k t of
        (None, bs') \<Rightarrow> (bs', ds, out)
      | (Some d, bs') \<Rightarrow> (bs', d # ds, if k = a \<and> d_probe d then Suc out else out))"
| "guard_step a (SentOp i) (bs, ds, out) =
     (bs, if i < length ds then ds[i := dispatch_sent (ds ! i)] else ds, out)"
| "guard_step a (DropOp i) (bs, ds, out) =
     (if i < length ds
      then (dispatch_drop bs (ds ! i), take i ds @ drop (Suc i) ds,
            if d_account (ds ! i) = a \<and> d_probe (ds ! i) then out - 1 else out)
      else (bs, ds, out))"

definition unsent_probes :: "account_id \<Rightarrow> dispatch list \<Rightarrow> nat" where
  "unsent_probes a ds = length (filter (\<lambda>d. d_account d = a \<and> d_probe d) ds)"

definition one_out :: "account_id \<Rightarrow> breakers \<times> dispatch list \<times> nat \<Rightarrow> bool" where
  "one_out a g = (case g of (bs, ds, out) \<Rightarrow>
     unsent_probes a ds \<le> out \<and> (out = 0 \<or> out = 1 \<and> (\<forall>t. \<not> breakers_permits bs a t)))"

lemma unsent_probes_at:
  assumes "i < length ds"
  shows "unsent_probes a ds = unsent_probes a (take i ds @ drop (Suc i) ds) +
    (if d_account (ds ! i) = a \<and> d_probe (ds ! i) then 1 else 0)"
proof -
  have "unsent_probes a ds = unsent_probes a (take i ds @ ds ! i # drop (Suc i) ds)"
    by (simp only: id_take_nth_drop [OF assms, symmetric])
  then show ?thesis by (simp add: unsent_probes_def)
qed

lemma unsent_probes_sent:
  assumes "i < length ds"
  shows "unsent_probes a (ds[i := dispatch_sent (ds ! i)]) \<le> unsent_probes a ds"
  using assms unsent_probes_at [of i "ds[i := dispatch_sent (ds ! i)]" a] unsent_probes_at [of i ds a]
  by (simp add: dispatch_sent_def)

lemma permits_release_other:
  "k \<noteq> a \<Longrightarrow> breakers_permits (breakers_release_probe bs k) a t = breakers_permits bs a t"
  by (auto simp: breakers_release_probe_def permits_set_entry split: option.splits)

lemma one_out_claim:
  assumes "one_out a (bs, ds, out)"
  shows "one_out a (guard_step a (ClaimOp k t) (bs, ds, out))"
proof -
  obtain adm bs' where c: "breakers_begin_request bs k t = (adm, bs')" by fastforce
  have other: "breakers_permits bs' a u = breakers_permits bs a u" if "k \<noteq> a \<or> adm \<noteq> Probe" for u
    using that replica.claim_other [of a k bs t u] replica.claim_no_probe [of bs k t u] c by (cases "k = a") auto
  have shut: "\<not> breakers_permits bs' a u" if "k = a" "adm = Probe" for u
    using that replica.probe_shuts [of bs k t bs' u] c by simp
  have none: "out = 0" if "k = a" "adm = Probe"
    using that assms replica.may_iff [of bs k t] c by (auto simp: one_out_def)
  show ?thesis
    using assms other shut none by (cases adm) (auto simp: one_out_def dispatch_claim_def c unsent_probes_def)
qed

lemma one_out_step: "one_out a g \<Longrightarrow> one_out a (guard_step a op g)"
proof (cases g)
  case (fields bs ds out)
  assume inv: "one_out a g"
  show ?thesis
  proof (cases op)
    case (ClaimOp k t)
    then show ?thesis using one_out_claim inv fields by simp
  next
    case (SentOp i)
    then show ?thesis using inv fields unsent_probes_sent [of i ds a] by (auto simp: one_out_def)
  next
    case (DropOp i)
    then show ?thesis
      using inv fields unsent_probes_at [of i ds a] permits_release_other [of "d_account (ds ! i)" a bs]
      by (auto simp: one_out_def dispatch_drop_def)
  qed
qed



text \<open>
  Claiming a dispatch succeeds exactly when \<open>permits\<close> said it would, and a dispatch that is
  claimed and then dropped before the request reached the wire costs nobody anything: afterwards
  the registry permits exactly what it permitted before, for every credential at every time.
\<close>

theorem unsent_dispatch_is_free:
  "case dispatch_claim bs account now of
     (None, bs') \<Rightarrow> \<not> breakers_permits bs account now
   | (Some d, bs') \<Rightarrow>
       breakers_permits bs account now \<and>
       breakers_permits (dispatch_drop bs' d) a t = breakers_permits bs a t"
proof -
  obtain adm bs1 where c: "breakers_begin_request bs account now = (adm, bs1)" by fastforce
  have may: "breakers_permits bs account now \<longleftrightarrow> adm \<noteq> Denied"
    using replica.may_iff [of bs account now] c by simp
  have no_probe: "adm \<noteq> Probe \<Longrightarrow> breakers_permits bs1 a t = breakers_permits bs a t"
    using replica.claim_no_probe [of bs account now t] replica.claim_other [of a account bs now t] c
    by (cases "a = account") auto
  have probe: "adm = Probe \<Longrightarrow>
      breakers_permits (breakers_release_probe bs1 account) a t = breakers_permits bs a t"
    using replica.give_back_claim [of bs account now bs1 a t] c by simp
  show ?thesis
    using may no_probe probe
    by (cases adm) (simp_all add: dispatch_claim_def c dispatch_drop_def)
qed

lemma entry_failures:
  "\<not> poisoned bs \<Longrightarrow>
   \<not> poisoned (fold (\<lambda>t bs. breakers_record_failure bs a t) ts bs) \<and>
   entry (fold (\<lambda>t bs. breakers_record_failure bs a t) ts bs) a = record_failures (entry bs a) ts"
  by (induction ts arbitrary: bs) (simp_all add: breakers_record_failure_def)

lemma permits_closed: "opened_until b = None \<Longrightarrow> permits b now"
  by (simp add: breaker_defs)

lemma tripped_behaviour:
  assumes "opened_until b = Some u" "\<not> half_open_probe_sent b"
  shows "permits b now \<longleftrightarrow> u \<le> now" and "u \<le> now \<Longrightarrow> fst (begin_request b now) = Probe"
  using assms by (simp_all add: breaker_defs)

text \<open>
  In every reachable replica, a credential that has just succeeded keeps serving through four
  failures in a row; the fifth takes it out of rotation for exactly sixty seconds, after which the
  next claim is the half-open probe.
\<close>

theorem fifth_failure_opens_for_a_minute:
  fixes bs :: breakers and ts :: "int list" and t5 now :: int and a :: account_id
  assumes "replica_reachable bs" and "\<not> poisoned bs"
    and "length ts = 4" and "i64_min \<le> t5" and "t5 + 60 \<le> i64_max"
  defines "four \<equiv> fold (\<lambda>t bs. breakers_record_failure bs a t) ts (breakers_record_success bs a)"
  defines "five \<equiv> breakers_record_failure four a t5"
  shows "breakers_permits four a now \<and>
         (breakers_permits five a now \<longleftrightarrow> t5 + 60 \<le> now) \<and>
         (fst (breakers_begin_request five a now) =
            (if t5 + 60 \<le> now then Probe else Denied))"
proof -
  let ?b = "record_success (entry bs a)"
  let ?b4 = "record_failures ?b ts"
  have inv: "breaker_inv ?b" "trip_threshold ?b = 5" "cooldown_secs ?b = 60"
    using reachable_breakers_inv [OF assms(1)]
    by (simp_all add: breakers_inv_def breaker_inv_success TRIP_THRESHOLD_def COOLDOWN_def)
  have four: "\<not> poisoned four" "entry four a = ?b4"
    using entry_failures [of "breakers_record_success bs a" a ts] assms(2)
    by (simp_all add: four_def breakers_record_success_def)
  have below: "opened_until ?b4 = None" "consecutive_failures ?b4 = 4" "trip_threshold ?b4 = 5"
      "cooldown_secs ?b4 = 60"
    using record_failures_below [of ?b ts] inv assms(3) by (simp_all add: record_success_def)
  have "breaker_inv ?b4" using inv(1) by (rule breaker_inv_failures)
  then have trip: "opened_until (record_failure ?b4 t5) = Some (t5 + 60)"
      "\<not> half_open_probe_sent (record_failure ?b4 t5)"
    using record_failure_trips [of ?b4 t5] below assms(4,5)
    by (simp_all add: i64_sat_add_def width_defs)
  have five: "\<not> poisoned five" "entry five a = record_failure ?b4 t5"
    using four by (simp_all add: five_def breakers_record_failure_def)
  have "permits ?b4 now" using below(1) by (rule permits_closed)
  then show ?thesis
    using tripped_behaviour [OF trip, of now] credential.may_iff [of "record_failure ?b4 t5" now]
      four five
    by (auto simp: permits_entry breakers_begin_request_def split: prod.splits)
qed

theorem fifth_failure_opens_for_a_minute_witness:
  "\<not> breakers_permits (breakers_record_failure
      (fold (\<lambda>t bs. breakers_record_failure bs 7 t) [1, 2, 3, 4] (breakers_record_success breakers_new 7))
      7 10) 7 69"
  using fifth_failure_opens_for_a_minute [of breakers_new "[1, 2, 3, 4]" 10 7 69]
    replica_reachable.start by (simp add: breakers_new_def width_defs)

text \<open>
  C40. A half-open probe that reached the wire and whose outcome is then never recorded (the request
  future was dropped between \<^verbatim>\<open>sent()\<close> and the answer) shuts the credential out at every later
  time: no passage of time lets a request through, and dropping the guard gives nothing back.
\<close>

theorem unreported_probe_never_heals:
  assumes "dispatch_claim bs account now = (Some d, bs')" and "d_probe d"
  shows "\<not> breakers_permits (dispatch_drop bs' (dispatch_sent d)) account t \<and>
         fst (dispatch_claim (dispatch_drop bs' (dispatch_sent d)) account t) = None"
proof -
  have "breakers_begin_request bs account now = (Probe, bs')"
    using assms by (auto simp: dispatch_claim_def split: prod.splits admission.splits)
  then have shut: "\<not> breakers_permits bs' account t"
    by (rule replica.probe_shuts)
  then have "fst (breakers_begin_request bs' account t) = Denied"
    by (simp add: replica.may_iff)
  with shut show ?thesis
    by (auto simp: dispatch_drop_def dispatch_sent_def dispatch_claim_def split: prod.splits)
qed

theorem unreported_probe_never_heals_witness:
  "\<not> breakers_permits
     (breakers_new\<lparr>inner := [(7, (breaker_new 5 60)\<lparr>consecutive_failures := 5,
        opened_until := Some 100, half_open_probe_sent := True\<rparr>)]\<rparr>) 7 1000000"
proof -
  define bs where "bs = breakers_new\<lparr>inner := [(7, (breaker_new 5 60)\<lparr>consecutive_failures := 5,
        opened_until := Some 100\<rparr>)]\<rparr>"
  have "dispatch_claim bs 7 200 = (Some \<lparr>d_account = 7, d_probe = True\<rparr>,
      breakers_new\<lparr>inner := [(7, (breaker_new 5 60)\<lparr>consecutive_failures := 5,
        opened_until := Some 100, half_open_probe_sent := True\<rparr>)]\<rparr>)"
    by (simp add: bs_def breakers_defs breaker_defs breakers_new_def breaker_new_def)
  from unreported_probe_never_heals [OF this, of 1000000] show ?thesis
    by (simp add: dispatch_drop_def dispatch_sent_def)
qed

end
