(* ===== verification/Schedule.thy ===== *)
theory Schedule
  imports Providers
begin

text \<open>
  The credential scheduler of \<^verbatim>\<open>oag-pool/src/schedule.rs\<close>: the filter cascade that picks one
  credential from a snapshot. \<^verbatim>\<open>Decimal\<close> is a parameter: any linearly ordered type \<open>'d\<close>, of which
  the cascade uses the comparison alone.

  The abstract specification is a single lexicographic key, \<open>sched_key\<close>: priority, then load, then
  the soonest reset still ahead, then recency. The lemmas show that the cascade picks only eligible
  credentials of least key, and that the tie-breaker reaches every one of them.
\<close>

definition held_by_reserve :: "'d::linorder option \<Rightarrow> 'd option \<Rightarrow> bool" where
  "held_by_reserve remaining_pct reserve_pct =
     (case (remaining_pct, reserve_pct) of (Some left, Some floor) \<Rightarrow> left \<le> floor | _ \<Rightarrow> False)"

record 'd candidate =
  c_account :: account_id
  c_provider :: provider
  c_priority :: nat
  max_concurrency :: nat
  in_flight :: nat
  waiting :: nat
  schedulable :: bool
  cooldown_until :: "int option"
  rate_limited_until :: "int option"
  window_resets_at :: "int option"
  usage_remaining_pct :: "'d option"
  usage_reserve_pct :: "'d option"
  last_used_at :: int

definition eligible :: "'d::linorder candidate \<Rightarrow> int \<Rightarrow> bool" where
  "eligible c now \<longleftrightarrow>
     schedulable c \<and>
     (case cooldown_until c of None \<Rightarrow> True | Some t \<Rightarrow> t \<le> now) \<and>
     (case rate_limited_until c of None \<Rightarrow> True | Some t \<Rightarrow> t \<le> now) \<and>
     \<not> held_by_reserve (usage_remaining_pct c) (usage_reserve_pct c) \<and>
     in_flight c < max_concurrency c"

definition load_bp :: "'d candidate \<Rightarrow> nat" where
  "load_bp c =
     (if max_concurrency c = 0 then u32_max
      else let busy = sat_add u32_max (in_flight c) (waiting c)
           in sat_mul u32_max busy 10000 div max_concurrency c)"

datatype stage = OnlyCandidate | LeastLoaded | SoonestReset | LeastRecentlyUsed

record selection =
  s_account :: account_id
  s_stage :: stage

definition live_window :: "int \<Rightarrow> 'd candidate \<Rightarrow> int option" where
  "live_window now c =
     (case window_resets_at c of None \<Rightarrow> None | Some t \<Rightarrow> if t > now then Some t else None)"

definition soonest_reset :: "int \<Rightarrow> 'd candidate list \<Rightarrow> int option" where
  "soonest_reset now cs =
     (let ts = List.map_filter (live_window now) cs
      in if ts = [] then None else Some (Min (set ts)))"

definition coldest_choice :: "'d candidate list \<Rightarrow> nat \<Rightarrow> selection option" where
  "coldest_choice pool tie_breaker =
     (let coldest = keep_least last_used_at pool in
      if coldest = [] then None
      else let idx = tie_breaker mod length coldest
           in Some \<lparr>s_account = c_account (coldest ! idx), s_stage = LeastRecentlyUsed\<rparr>)"

definition reset_choice :: "'d candidate list \<Rightarrow> int \<Rightarrow> nat \<Rightarrow> selection option" where
  "reset_choice least_loaded now tie_breaker =
     (case soonest_reset now least_loaded of
        Some t \<Rightarrow>
          (case filter (\<lambda>c. window_resets_at c = Some t) least_loaded of
             [only] \<Rightarrow> Some \<lparr>s_account = c_account only, s_stage = SoonestReset\<rparr>
           | expiring \<Rightarrow> coldest_choice expiring tie_breaker)
      | None \<Rightarrow> coldest_choice least_loaded tie_breaker)"

definition select :: "'d::linorder candidate list \<Rightarrow> int \<Rightarrow> nat \<Rightarrow> selection option" where
  "select candidates now tie_breaker =
     (let el = filter (\<lambda>c. eligible c now) candidates in
      case el of
        [] \<Rightarrow> None
      | first # rest \<Rightarrow>
          if rest = [] then Some \<lparr>s_account = c_account first, s_stage = OnlyCandidate\<rparr>
          else let tier = keep_least c_priority el;
                   least_loaded = keep_least load_bp tier
               in case least_loaded of
                    [only] \<Rightarrow> Some \<lparr>s_account = c_account only, s_stage = LeastLoaded\<rparr>
                  | _ \<Rightarrow> reset_choice least_loaded now tie_breaker)"

subsection \<open>The specification: one lexicographic key\<close>

definition window_rank :: "int \<Rightarrow> 'd candidate \<Rightarrow> nat \<times> int" where
  "window_rank now c = (case live_window now c of Some t \<Rightarrow> (0, t) | None \<Rightarrow> (1, 0))"

definition sched_key :: "int \<Rightarrow> 'd candidate \<Rightarrow> ((nat \<times> nat) \<times> nat \<times> int) \<times> int" where
  "sched_key now c = (((c_priority c, load_bp c), window_rank now c), last_used_at c)"

definition best :: "'d::linorder candidate list \<Rightarrow> int \<Rightarrow> 'd candidate set" where
  "best cs now = least_by (sched_key now) {c \<in> set cs. eligible c now}"

lemma live_window_iff:
  "live_window now c = Some t \<longleftrightarrow> window_resets_at c = Some t \<and> now < t"
  by (auto simp: live_window_def split: option.splits if_splits)

definition reset_pool :: "int \<Rightarrow> 'd candidate list \<Rightarrow> 'd candidate list" where
  "reset_pool now cs =
     (case soonest_reset now cs of
        Some t \<Rightarrow> filter (\<lambda>c. window_resets_at c = Some t) cs | None \<Rightarrow> cs)"

lemma soonest_reset_Some:
  assumes "soonest_reset now cs = Some t"
  shows "\<exists>c \<in> set cs. live_window now c = Some t"
    and "c \<in> set cs \<Longrightarrow> live_window now c = Some u \<Longrightarrow> t \<le> u"
proof -
  let ?ts = "List.map_filter (live_window now) cs"
  have t: "?ts \<noteq> []" "t = Min (set ?ts)"
    using assms by (auto simp: soonest_reset_def Let_def split: if_splits)
  then have "t \<in> set ?ts" by simp
  then show "\<exists>c \<in> set cs. live_window now c = Some t" by (simp add: set_map_filter_iff)
  assume "c \<in> set cs" "live_window now c = Some u"
  then have "u \<in> set ?ts" by (auto simp: set_map_filter_iff)
  then show "t \<le> u" by (simp add: t(2))
qed

lemma set_reset_pool: "set (reset_pool now cs) = least_by (window_rank now) (set cs)"
proof (cases "soonest_reset now cs")
  case None
  then have "\<And>c. c \<in> set cs \<Longrightarrow> live_window now c = None"
    by (auto simp: soonest_reset_def Let_def map_filter_empty split: if_splits)
  then show ?thesis
    by (auto simp: None reset_pool_def least_by_def window_rank_def)
next
  case (Some t)
  obtain c0 where c0: "c0 \<in> set cs" "live_window now c0 = Some t"
    using soonest_reset_Some(1) [OF Some] by blast
  have rank_t: "window_rank now c = (0, t) \<longleftrightarrow> window_resets_at c = Some t" for c
    using c0 by (auto simp: window_rank_def live_window_iff split: option.splits)
      (auto simp: live_window_def split: option.splits if_splits)
  have le: "(0, t) \<le> window_rank now c" if "c \<in> set cs" for c
    using soonest_reset_Some(2) [OF Some that]
    by (cases "live_window now c") (auto simp: window_rank_def)
  have "least_by (window_rank now) (set cs) = {c \<in> set cs. window_rank now c = (0, t)}"
  proof (rule set_eqI, rule iffI)
    fix c
    assume c: "c \<in> least_by (window_rank now) (set cs)"
    then have "window_rank now c \<le> window_rank now c0" using c0(1) by (simp add: least_by_def)
    then have "window_rank now c \<le> (0, t)" using c0(2) by (simp add: window_rank_def)
    with c le [of c] show "c \<in> {c \<in> set cs. window_rank now c = (0, t)}"
      by (auto simp: least_by_def intro: order.antisym)
  qed (auto simp: least_by_def le)
  then show ?thesis
    by (auto simp: Some reset_pool_def rank_t)
qed

lemma reset_pool_empty [simp]: "reset_pool now cs = [] \<longleftrightarrow> cs = []"
  using soonest_reset_Some(1) [of now cs]
  by (fastforce simp: reset_pool_def filter_empty_conv live_window_iff soonest_reset_def
      split: option.splits)

subsection \<open>The cascade computes the specification\<close>

text \<open>The candidates among which the tie-breaker chooses, in snapshot order.\<close>

definition finalists :: "'d::linorder candidate list \<Rightarrow> int \<Rightarrow> 'd candidate list" where
  "finalists cs now =
     keep_least last_used_at (reset_pool now (keep_least load_bp (keep_least c_priority
       (filter (\<lambda>c. eligible c now) cs))))"

lemma set_finalists: "set (finalists cs now) = best cs now"
  by (simp add: finalists_def best_def set_keep_least set_reset_pool least_by_lex sched_key_def [abs_def])

lemma finalists_empty: "finalists cs now = [] \<longleftrightarrow> (\<forall>c \<in> set cs. \<not> eligible c now)"
  by (simp add: finalists_def filter_empty_conv)

lemma reset_pool_single [simp]: "reset_pool now [c] = [c]"
  using reset_pool_empty [of now "[c]"] by (auto simp: reset_pool_def split: option.splits if_splits)

lemma coldest_choice_nth:
  "pool \<noteq> [] \<Longrightarrow> coldest_choice pool tb = Some \<lparr>
     s_account = c_account (keep_least last_used_at pool ! (tb mod length (keep_least last_used_at pool))),
     s_stage = LeastRecentlyUsed\<rparr>"
  by (simp add: coldest_choice_def Let_def)

lemma reset_choice_nth:
  fixes now :: int and ll :: "'d candidate list"
  assumes "ll \<noteq> []"
  defines "K \<equiv> keep_least last_used_at (reset_pool now ll)"
  shows "\<exists>st. reset_choice ll now tb = Some \<lparr>s_account = c_account (K ! (tb mod length K)), s_stage = st\<rparr>"
proof (cases "soonest_reset now ll")
  case None
  with assms show ?thesis by (simp add: reset_choice_def reset_pool_def coldest_choice_nth)
next
  case (Some t)
  define ex where "ex = filter (\<lambda>c. window_resets_at c = Some t) ll"
  have pool: "reset_pool now ll = ex" by (simp add: reset_pool_def Some ex_def)
  then have ne: "ex \<noteq> []" using assms(1) reset_pool_empty [of now ll] by simp
  have choice: "reset_choice ll now tb =
      (case ex of [only] \<Rightarrow> Some \<lparr>s_account = c_account only, s_stage = SoonestReset\<rparr>
       | expiring \<Rightarrow> coldest_choice expiring tb)"
    by (simp add: reset_choice_def Some ex_def)
  show ?thesis
    unfolding K_def pool choice using ne
    by (cases ex rule: remdups_adj.cases) (simp_all add: coldest_choice_nth)
qed

lemma select_nth:
  assumes "finalists cs now \<noteq> []"
  shows "\<exists>st. select cs now tb = Some \<lparr>
    s_account = c_account (finalists cs now ! (tb mod length (finalists cs now))), s_stage = st\<rparr>"
proof -
  define el where "el = filter (\<lambda>c. eligible c now) cs"
  define ll where "ll = keep_least load_bp (keep_least c_priority el)"
  have fin: "finalists cs now = keep_least last_used_at (reset_pool now ll)"
    by (simp add: finalists_def el_def ll_def)
  have ne: "el \<noteq> []" using assms by (auto simp: fin ll_def)
  show ?thesis
  proof (cases "length el = 1")
    case True
    then obtain c where c: "el = [c]" by (cases el) auto
    have "finalists cs now = [c]" by (simp add: fin ll_def c)
    moreover have "select cs now tb = Some \<lparr>s_account = c_account c, s_stage = OnlyCandidate\<rparr>"
      using c by (simp add: select_def el_def)
    ultimately show ?thesis by simp
  next
    case False
    then obtain a b rest where el: "el = a # b # rest"
      using ne by (cases el rule: remdups_adj.cases) auto
    have sel: "select cs now tb =
        (case ll of [only] \<Rightarrow> Some \<lparr>s_account = c_account only, s_stage = LeastLoaded\<rparr>
         | _ \<Rightarrow> reset_choice ll now tb)"
      unfolding select_def el_def [symmetric] Let_def ll_def [symmetric] by (simp add: el)
    have "ll \<noteq> []" using ne by (simp add: ll_def)
    then show ?thesis
      using reset_choice_nth [of ll now tb]
      unfolding fin sel by (cases ll rule: remdups_adj.cases) simp_all
  qed
qed

lemma select_empty: "finalists cs now = [] \<Longrightarrow> select cs now tb = None"
  by (simp add: finalists_empty select_def Let_def filter_empty_conv [THEN iffD2])

lemma length_keep_least: "length (keep_least k xs) \<le> length xs"
  by (simp add: keep_least_def)

lemma length_finalists: "length (finalists cs now) \<le> length cs"
proof -
  have "length (reset_pool now xs) \<le> length xs" for xs :: "'a candidate list"
    by (simp add: reset_pool_def split: option.splits)
  then show ?thesis
    unfolding finalists_def by (meson length_keep_least length_filter_le order_trans)
qed

lemma select_picks_best_account:
  assumes "select cs now tb = Some s"
  shows "s_account s \<in> c_account ` best cs now"
proof -
  have ne: "finalists cs now \<noteq> []" using assms select_empty [of cs now tb] by auto
  then have "finalists cs now ! (tb mod length (finalists cs now)) \<in> best cs now"
    by (simp flip: set_finalists)
  with select_nth [OF ne, of tb] assms show ?thesis by auto
qed

subsection \<open>The properties\<close>

text \<open>
  C32. The cascade implements its specification: it returns nothing exactly when no credential in
  the snapshot is eligible, and otherwise the credential of an eligible candidate that no other
  eligible candidate beats on priority, then load, then the soonest reset still ahead, then recency.
\<close>

theorem select_picks_best:
  "case select cs now tie_breaker of
     None \<Rightarrow> {c \<in> set cs. eligible c now} = {}
   | Some s \<Rightarrow> \<exists>c \<in> best cs now. s_account s = c_account c"
proof (cases "finalists cs now = []")
  case True
  then show ?thesis by (auto simp: select_empty finalists_empty)
next
  case False
  then obtain s where "select cs now tie_breaker = Some s"
    using select_nth by blast
  with select_picks_best_account [OF this] show ?thesis by auto
qed

text \<open>
  The tie-breaker neither adds nor starves: the credentials the cascade can return as the
  tie-breaker ranges over the indices of the snapshot are exactly those of the best candidates.
\<close>

theorem tie_breaker_reaches_every_best:
  "{s_account s | s tie_breaker. tie_breaker < length cs \<and> select cs now tie_breaker = Some s} =
   c_account ` best cs now"
proof (cases "finalists cs now = []")
  case True
  then show ?thesis by (simp add: select_empty flip: set_finalists)
next
  case False
  have len: "length (finalists cs now) \<le> length cs"
    by (rule length_finalists)
  have sel: "\<exists>st. select cs now i = Some \<lparr>s_account = c_account (finalists cs now ! i), s_stage = st\<rparr>"
    if "i < length (finalists cs now)" for i
    using select_nth [OF False, of i] that by simp
  show ?thesis
  proof (rule set_eqI, rule iffI)
    fix a
    assume "a \<in> {s_account s | s tb. tb < length cs \<and> select cs now tb = Some s}"
    then show "a \<in> c_account ` best cs now"
      using select_picks_best_account [of cs now] by auto
  next
    fix a
    assume "a \<in> c_account ` best cs now"
    then obtain i where "i < length (finalists cs now)" "a = c_account (finalists cs now ! i)"
      by (auto simp: in_set_conv_nth simp flip: set_finalists)
    moreover from this obtain st where "select cs now i = Some \<lparr>s_account = a, s_stage = st\<rparr>"
      using sel [of i] by auto
    ultimately show "a \<in> {s_account s | s tb. tb < length cs \<and> select cs now tb = Some s}"
      using len by (intro CollectI exI [of _ "\<lparr>s_account = a, s_stage = st\<rparr>"] exI [of _ i]) simp
  qed
qed

text \<open>
  While the counters are far from the \<^verbatim>\<open>u32\<close> ceiling, the basis-point load is a sound
  comparison of true occupancy: a smaller load means a strictly smaller share of the capacity in
  use, an equal share never compares as more loaded, and a credential with room left and nothing
  waiting is below ten thousand.
\<close>

theorem load_bp_compares_occupancy:
  fixes c c' :: "'d candidate"
  assumes "0 < max_concurrency c" and "0 < max_concurrency c'"
    and "(in_flight c + waiting c) * 10000 \<le> u32_max" and "(in_flight c' + waiting c') * 10000 \<le> u32_max"
  shows "(load_bp c < load_bp c' \<longrightarrow>
            (in_flight c + waiting c) * max_concurrency c' < (in_flight c' + waiting c') * max_concurrency c) \<and>
         ((in_flight c + waiting c) * max_concurrency c' \<le> (in_flight c' + waiting c') * max_concurrency c \<longrightarrow>
            load_bp c \<le> load_bp c') \<and>
         (in_flight c < max_concurrency c \<and> waiting c = 0 \<longrightarrow> load_bp c < 10000)"
proof -
  have bp: "load_bp d = (in_flight d + waiting d) * 10000 div max_concurrency d"
    if "0 < max_concurrency d" "(in_flight d + waiting d) * 10000 \<le> u32_max" for d :: "'d candidate"
    using that by (simp add: load_bp_def Let_def sat_add_def sat_mul_def)
  have mono: "x * 10000 div m \<le> y * 10000 div n" if "0 < m" "0 < n" "x * n \<le> y * m" for x y m n :: nat
  proof -
    have "x * 10000 div m = (n * (x * 10000)) div (n * m)" using that by simp
    also have "\<dots> \<le> (m * (y * 10000)) div (n * m)"
      using that(3) by (intro div_le_mono) (simp add: algebra_simps)
    also have "\<dots> = y * 10000 div n" using that by (simp add: mult.commute [of n m])
    finally show ?thesis .
  qed
  have room: "load_bp c < 10000" if "in_flight c < max_concurrency c" "waiting c = 0"
    using that assms by (simp add: bp less_mult_imp_div_less)
  have le: "load_bp c \<le> load_bp c'"
    if "(in_flight c + waiting c) * max_concurrency c' \<le> (in_flight c' + waiting c') * max_concurrency c"
    using mono [OF assms(1,2) that] by (simp add: bp [OF assms(1,3)] bp [OF assms(2,4)])
  have ge: "load_bp c' \<le> load_bp c"
    if "(in_flight c' + waiting c') * max_concurrency c \<le> (in_flight c + waiting c) * max_concurrency c'"
    using mono [OF assms(2,1) that] by (simp add: bp [OF assms(1,3)] bp [OF assms(2,4)])
  show ?thesis
    using room le ge by (meson not_less)
qed

theorem load_bp_compares_occupancy_witness:
  "\<exists>(c :: nat candidate) (c' :: nat candidate). load_bp c = 500 \<and> load_bp c' = 2000 \<and>
     (in_flight c + waiting c) * max_concurrency c' < (in_flight c' + waiting c') * max_concurrency c"
proof -
  define c :: "nat candidate" where "c = \<lparr>c_account = 1, c_provider = OpenAI, c_priority = 0,
     max_concurrency = 100, in_flight = 5, waiting = 0, schedulable = True, cooldown_until = None,
     rate_limited_until = None, window_resets_at = None, usage_remaining_pct = None,
     usage_reserve_pct = None, last_used_at = 0\<rparr>"
  define c' where "c' = c\<lparr>max_concurrency := 10, in_flight := 2\<rparr>"
  have "load_bp c = 500" "load_bp c' = 2000"
    by (simp_all add: c_def c'_def load_bp_def sat_add_def sat_mul_def width_defs)
  moreover from this have "(in_flight c + waiting c) * max_concurrency c' <
      (in_flight c' + waiting c') * max_concurrency c"
    using load_bp_compares_occupancy [of c c'] by (simp add: c_def c'_def width_defs)
  ultimately show ?thesis by blast
qed

end
