(* ===== verification/Runtime.thy ===== *)
theory Runtime
  imports Breakers Schedule Errors "HOL-Library.Word"
begin

text \<open>
  What one request's path through the gateway reads and changes: the clock, the replica's breakers,
  the tie-breaking generator, the sticky pins and concurrency slots in Redis, the cooldown writes to
  the database and the requests put on the wire.

  The answers of the world outside the request (database, Redis, clocks, upstreams) are the fields
  of \<open>env\<close>: functions of the number of interactions so far, so an environment is any behaviour over
  time and the theorems quantify over all of them. \<open>await\<close> is a suspension point, where other
  requests on the replica may have moved the shared breakers (\<open>others\<close>); \<open>read_clock\<close> is a reading
  of the wall clock. Instants are milliseconds.
\<close>

unbundle bit_operations_syntax

subsection \<open>Stored credentials\<close>

record 'd account_row =
  row_id :: account_id
  row_name :: string
  row_provider :: string
  row_kind :: string
  credentials_sealed :: bytes
  credentials_nonce :: bytes
  token_version :: int
  token_expires_at :: "int option"
  owner_principal_id :: "string option"
  proxy_url :: "string option"
  row_priority :: int
  row_max_concurrency :: int
  row_schedulable :: bool
  row_cooldown_until :: "int option"
  row_rate_limited_until :: "int option"
  row_window_resets_at :: "int option"
  row_remaining_pct :: "'d option"
  row_reserve_pct :: "int option"
  row_last_used_at :: int

definition unix_timestamp :: "int \<Rightarrow> int" where
  "unix_timestamp ms = ms div 1000"

definition u8_of :: "int \<Rightarrow> nat" where
  "u8_of i = (if 0 \<le> i \<and> i \<le> int u8_max then nat i else u8_max)"

definition u32_of :: "int \<Rightarrow> nat" where
  "u32_of i = (if 0 \<le> i \<and> i \<le> int u32_max then nat i else 0)"

definition to_candidate :: "endpoint_registry \<Rightarrow> 'd::linordered_idom account_row \<Rightarrow> nat \<Rightarrow> nat \<Rightarrow>
    'd candidate option" where
  "to_candidate reg row in_use queued =
     (case provider_from_str reg (row_provider row) of
        Inl _ \<Rightarrow> None
      | Inr p \<Rightarrow> Some \<lparr>c_account = row_id row, c_provider = p, c_priority = u8_of (row_priority row),
          max_concurrency = u32_of (row_max_concurrency row), in_flight = in_use, waiting = queued,
          schedulable = row_schedulable row,
          cooldown_until = map_option unix_timestamp (row_cooldown_until row),
          rate_limited_until = map_option unix_timestamp (row_rate_limited_until row),
          window_resets_at = map_option unix_timestamp (row_window_resets_at row),
          usage_remaining_pct = row_remaining_pct row,
          usage_reserve_pct = map_option of_int (row_reserve_pct row),
          last_used_at = unix_timestamp (row_last_used_at row)\<rparr>)"

definition row_held_by_reserve :: "'d::linordered_idom account_row \<Rightarrow> bool" where
  "row_held_by_reserve row = held_by_reserve (row_remaining_pct row) (map_option of_int (row_reserve_pct row))"

datatype slot_claim = Taken | Full nat

subsection \<open>The state of a request and its environment\<close>

datatype store_write = CoolDown account_id int string | RateLimitUntil account_id int

record world =
  tick :: nat
  w_breakers :: breakers
  rng :: "64 word"
  pins :: "(string \<times> account_id) list"
  held :: "account_id list"
  store_writes :: "store_write list"
  refused :: "account_id list"
  sends :: "account_id list"
  sleeps :: "duration list"

record 'd env =
  now_ms :: "nat \<Rightarrow> int"
  instant_ms :: "nat \<Rightarrow> nat"
  others :: "nat \<Rightarrow> breakers \<Rightarrow> breakers"
  process_seed :: "nat \<Rightarrow> 64 word"
  registered :: endpoint_registry
  repo_candidates :: "nat \<Rightarrow> string \<Rightarrow> string \<Rightarrow> string \<Rightarrow> error + 'd account_row list"
  sticky_get :: "nat \<Rightarrow> string \<Rightarrow> error + account_id option"
  slots_in_use :: "nat \<Rightarrow> account_id \<Rightarrow> error + nat"
  slots_in_use_many :: "nat \<Rightarrow> account_id list \<Rightarrow> error + nat list"
  try_acquire_slot :: "nat \<Rightarrow> account_id \<Rightarrow> string \<Rightarrow> nat \<Rightarrow> error + slot_claim"

definition await :: "('d, 'm) env_scheme \<Rightarrow> world \<Rightarrow> world" where
  "await E w = w\<lparr>tick := Suc (tick w), w_breakers := others E (tick w) (w_breakers w)\<rparr>"

definition read_clock :: "('d, 'm) env_scheme \<Rightarrow> world \<Rightarrow> int \<times> world" where
  "read_clock E w = (now_ms E (tick w), w\<lparr>tick := Suc (tick w)\<rparr>)"

definition replica_record_failure :: "('d, 'm) env_scheme \<Rightarrow> account_id \<Rightarrow> world \<Rightarrow> world" where
  "replica_record_failure E account w =
     (case read_clock E w of
        (t, w') \<Rightarrow> w'\<lparr>w_breakers := breakers_record_failure (w_breakers w') account (unix_timestamp t)\<rparr>)"

definition replica_record_success :: "account_id \<Rightarrow> world \<Rightarrow> world" where
  "replica_record_success account w = w\<lparr>w_breakers := breakers_record_success (w_breakers w) account\<rparr>"

text \<open>What a step of the request keeps of the bookkeeping the properties are about.\<close>

definition same_books :: "world \<Rightarrow> world \<Rightarrow> bool" where
  "same_books w w' \<longleftrightarrow> held w' = held w \<and> sends w' = sends w \<and> store_writes w' = store_writes w \<and>
     refused w' = refused w \<and> sleeps w' = sleeps w"

lemma same_books_refl [simp]: "same_books w w"
  by (simp add: same_books_def)

lemma same_books_trans: "same_books a b \<Longrightarrow> same_books b c \<Longrightarrow> same_books a c"
  by (simp add: same_books_def)

lemma same_books_await [simp]: "same_books w (await E w') \<longleftrightarrow> same_books w w'"
  by (simp add: same_books_def await_def)

lemma read_clock_books: "read_clock E w = (t, w') \<Longrightarrow> same_books w w'"
  by (auto simp: read_clock_def same_books_def)

lemma replica_record_failure_books [simp]: "same_books w (replica_record_failure E a w)"
  by (simp add: same_books_def replica_record_failure_def read_clock_def)

lemma replica_record_success_books [simp]: "same_books w (replica_record_success a w)"
  by (simp add: same_books_def replica_record_success_def)

subsection \<open>The tie-breaking generator\<close>

definition xorshift64 :: "64 word \<Rightarrow> 64 word" where
  "xorshift64 x0 =
     (let x1 = x0 XOR push_bit 13 x0;
          x2 = x1 XOR drop_bit 7 x1
      in x2 XOR push_bit 17 x2)"

definition fastrand_u64 :: "('d, 'm) env_scheme \<Rightarrow> world \<Rightarrow> nat \<times> world" where
  "fastrand_u64 E w =
     (let x = (if rng w = 0 then process_seed E (tick w) else rng w);
          x' = xorshift64 x
      in (unat x', w\<lparr>tick := Suc (tick w), rng := x'\<rparr>))"

lemma fastrand_books: "fastrand_u64 E w = (n, w') \<Longrightarrow> same_books w w' \<and> w_breakers w' = w_breakers w"
  by (auto simp: fastrand_u64_def Let_def same_books_def)

lemma xor_zero_eq:
  fixes a b :: "64 word"
  assumes "a XOR b = 0"
  shows "b = a"
proof (rule bit_eqI)
  fix n
  have "bit (a XOR b) n = False" by (simp add: assms)
  then show "bit b n = bit a n" by (simp add: bit_xor_iff)
qed

lemma xor_shift_left_zero:
  fixes x :: "64 word"
  assumes "0 < k" "x XOR push_bit k x = 0"
  shows "x = 0"
proof -
  have eq: "push_bit k x = x" using xor_zero_eq [OF assms(2)] .
  have "\<not> bit x n" for n
  proof (induction n rule: less_induct)
    case (less n)
    have "bit x n = bit (push_bit k x) n" by (simp add: eq)
    with less \<open>0 < k\<close> show ?case by (auto simp: bit_push_bit_iff)
  qed
  then show ?thesis by (intro bit_eqI) simp
qed

lemma xor_shift_right_zero:
  fixes x :: "64 word"
  assumes "0 < k" "x XOR drop_bit k x = 0"
  shows "x = 0"
proof -
  have eq: "drop_bit k x = x" using xor_zero_eq [OF assms(2)] .
  have "\<not> bit x n" for n
  proof (induction "64 - n" arbitrary: n rule: less_induct)
    case less
    have "bit x n = bit (drop_bit k x) n" by (simp add: eq)
    then have "bit x n = bit x (k + n)" by (simp add: bit_drop_bit_eq)
    with less [of "k + n"] \<open>0 < k\<close> show ?case
      by (cases "n < 64") (auto dest: bit_imp_le_length)
  qed
  then show ?thesis by (intro bit_eqI) simp
qed

lemma xorshift64_nonzero: "xorshift64 x = 0 \<longleftrightarrow> x = 0"
proof
  assume z: "xorshift64 x = 0"
  define y where "y = x XOR push_bit 13 x"
  define v where "v = y XOR drop_bit 7 y"
  have "v XOR push_bit 17 v = 0" using z by (simp add: xorshift64_def Let_def y_def v_def)
  then have "v = 0" using xor_shift_left_zero [of 17 v] by simp
  then have "y = 0" using xor_shift_right_zero [of 7 y] by (simp add: v_def)
  then show "x = 0" using xor_shift_left_zero [of 13 x] by (simp add: y_def)
qed (simp add: xorshift64_def)

end
