(* ===== verification/Sticky.thy ===== *)
theory Sticky
  imports Gateway_Prelude
begin

text \<open>
  Session affinity (\<^verbatim>\<open>oag-pool/src/sticky.rs\<close>): which conversation a request belongs to, as the key
  its credential pin is stored under. SHA-256 comes from a third-party crate and is the parameter
  \<open>sha\<close> of the definitions that use it; nothing is assumed of it. The property is a reduction: two
  requests share a pin only if they belong to one conversation or two explicitly given byte strings
  are a collision of \<open>sha\<close>.
\<close>

type_synonym hash = "bytes \<Rightarrow> bytes"

definition le_bytes :: "nat \<Rightarrow> bytes" where
  "le_bytes n = map (\<lambda>i. char_of (n div 256 ^ i mod 256)) [0..<8]"

definition hex_digit :: "nat \<Rightarrow> char" where
  "hex_digit d = (if d < 10 then char_of (48 + d) else char_of (87 + d))"

definition hex :: "bytes \<Rightarrow> string" where
  "hex bs = concat (map (\<lambda>b. [hex_digit (of_char b div 16), hex_digit (of_char b mod 16)]) bs)"

definition from_cache_blocks :: "hash \<Rightarrow> string \<Rightarrow> string list \<Rightarrow> string option" where
  "from_cache_blocks sha scope blocks =
     (if blocks = [] then None
      else Some (hex (sha (''scope:'' @ scope @ ''|''
             @ concat (map (\<lambda>block. le_bytes (length block) @ block) blocks)))))"

definition from_client_session :: "hash \<Rightarrow> string \<Rightarrow> string \<Rightarrow> string option" where
  "from_client_session sha scope session =
     (if session = [] then None
      else Some (hex (sha (''scope:'' @ scope @ ''|client-session:'' @ session))))"

definition from_caller :: "hash \<Rightarrow> string \<Rightarrow> string \<Rightarrow> string" where
  "from_caller sha api_key_id model = hex (sha (''caller:'' @ api_key_id @ ''|'' @ model))"

definition resolve_session ::
  "hash \<Rightarrow> string \<Rightarrow> string option \<Rightarrow> string list \<Rightarrow> string \<Rightarrow> string \<Rightarrow> string" where
  "resolve_session sha principal_id client_session cache_blocks api_key_id model =
     (case Option.bind client_session (from_client_session sha principal_id) of
        Some k \<Rightarrow> k
      | None \<Rightarrow> (case from_cache_blocks sha principal_id cache_blocks of
          Some k \<Rightarrow> k
        | None \<Rightarrow> from_caller sha api_key_id model))"

definition redis_key :: "string \<Rightarrow> string \<Rightarrow> string \<Rightarrow> string" where
  "redis_key session route provider = ''oag:sticky:'' @ route @ '':'' @ provider @ '':'' @ session"

subsection \<open>The conversation a request belongs to\<close>

datatype conversation =
    ByClient string string
  | ByCache string "string list"
  | ByCaller string string

definition conversation_of ::
  "string \<Rightarrow> string option \<Rightarrow> string list \<Rightarrow> string \<Rightarrow> string \<Rightarrow> conversation" where
  "conversation_of principal_id client_session cache_blocks api_key_id model =
     (if client_session \<noteq> None \<and> client_session \<noteq> Some [] then ByClient principal_id (the client_session)
      else if cache_blocks \<noteq> [] then ByCache principal_id cache_blocks
      else ByCaller api_key_id model)"

fun preimage :: "conversation \<Rightarrow> bytes" where
  "preimage (ByClient scope session) = ''scope:'' @ scope @ ''|client-session:'' @ session"
| "preimage (ByCache scope blocks) =
     ''scope:'' @ scope @ ''|'' @ concat (map (\<lambda>block. le_bytes (length block) @ block) blocks)"
| "preimage (ByCaller api_key_id model) = ''caller:'' @ api_key_id @ ''|'' @ model"

text \<open>
  What the code can rely on of its inputs: principals and API keys are identified by strings of one
  length (UUIDs), no block is longer than memory, and a cached conversation has a block.
\<close>

fun sane :: "nat \<Rightarrow> conversation \<Rightarrow> bool" where
  "sane n (ByClient scope session) = (length scope = n)"
| "sane n (ByCache scope blocks) =
     (length scope = n \<and> blocks \<noteq> [] \<and> list_all (\<lambda>b. length b < 2 ^ 62) blocks)"
| "sane n (ByCaller api_key_id model) = (length api_key_id = n)"

lemma resolve_session_preimage:
  "resolve_session sha p cs bl k m = hex (sha (preimage (conversation_of p cs bl k m)))"
  by (cases cs) (simp_all add: resolve_session_def conversation_of_def from_client_session_def
      from_cache_blocks_def from_caller_def)

lemma length_le_bytes [simp]: "length (le_bytes n) = 8"
  by (simp add: le_bytes_def)

lemma le_bytes_digits: "le_bytes n = le_bytes m \<Longrightarrow> i < 8 \<Longrightarrow> n div 256 ^ i mod 256 = m div 256 ^ i mod 256"
  by (auto simp: le_bytes_def list_eq_iff_nth_eq)

lemma base256_unique:
  "(\<And>i. i < k \<Longrightarrow> n div 256 ^ i mod 256 = m div 256 ^ i mod 256) \<Longrightarrow>
   n mod 256 ^ k = m mod (256 ^ k :: nat)"
proof (induction k)
  case 0
  show ?case by simp
next
  case (Suc k)
  have "n mod 256 ^ Suc k = 256 ^ k * (n div 256 ^ k mod 256) + n mod 256 ^ k" for n :: nat
    by (metis mod_mult2_eq power_Suc mult.commute)
  with Suc show ?case by simp
qed

lemma le_bytes_inj: "n < 2 ^ 64 \<Longrightarrow> m < 2 ^ 64 \<Longrightarrow> le_bytes n = le_bytes m \<Longrightarrow> n = m"
  using base256_unique [of 8 n m] le_bytes_digits [of n m] by simp

lemma hex_digit_inj: "a < 16 \<Longrightarrow> b < 16 \<Longrightarrow> hex_digit a = hex_digit b \<Longrightarrow> a = b"
  by (simp add: hex_digit_def char_of_eq_iff take_bit_eq_mod split: if_splits)

lemma hex_Cons: "hex (b # bs) = hex_digit (of_char b div 16) # hex_digit (of_char b mod 16) # hex bs"
  by (simp add: hex_def)

lemma hex_inj: "hex xs = hex ys \<Longrightarrow> xs = ys"
proof (induction xs arbitrary: ys)
  case Nil
  then show ?case by (cases ys) (simp_all add: hex_Cons, simp_all add: hex_def)
next
  case (Cons x xs)
  then obtain y ys' where ys: "ys = y # ys'"
    by (cases ys) (simp_all add: hex_Cons, simp add: hex_def)
  have "(of_char x :: nat) div 16 < 16" "(of_char y :: nat) div 16 < 16"
    by (simp_all add: div_less_iff_less_mult)
  then have "(of_char x :: nat) div 16 = of_char y div 16" "(of_char x :: nat) mod 16 = of_char y mod 16"
    using Cons.prems by (auto simp: ys hex_Cons intro!: hex_digit_inj)
  then have "(of_char x :: nat) = of_char y" by (metis div_mult_mod_eq)
  with Cons show ?case by (simp add: ys hex_Cons)
qed

lemma prefixed_blocks_inj:
  assumes "list_all (\<lambda>b. length b < 2 ^ 62) xs" "list_all (\<lambda>b. length b < 2 ^ 62) ys"
    and "concat (map (\<lambda>b. le_bytes (length b) @ b) xs) = concat (map (\<lambda>b. le_bytes (length b) @ b) ys)"
  shows "xs = ys"
  using assms
proof (induction xs arbitrary: ys)
  case Nil
  then show ?case by (cases ys) (auto dest: arg_cong [of _ _ length])
next
  case (Cons x xs)
  then obtain y ys' where ys: "ys = y # ys'"
    by (cases ys) (auto dest: arg_cong [of _ _ length])
  have split: "le_bytes (length x) = le_bytes (length y)"
    "x @ concat (map (\<lambda>b. le_bytes (length b) @ b) xs) = y @ concat (map (\<lambda>b. le_bytes (length b) @ b) ys')"
    using Cons.prems(3) by (simp_all add: ys)
  then have "length x = length y"
    using Cons.prems by (intro le_bytes_inj) (auto simp: ys)
  with split(2) have "x = y"
    "concat (map (\<lambda>b. le_bytes (length b) @ b) xs) = concat (map (\<lambda>b. le_bytes (length b) @ b) ys')"
    by simp_all
  with Cons show ?case by (simp add: ys)
qed

text \<open>
  The length prefix of a first block never spells the tag of a client session: its top byte would
  make the block longer than memory.
\<close>

lemma session_tag_is_no_length:
  assumes "n < 2 ^ 62"
  shows "''client-session:'' @ s \<noteq> le_bytes n @ r"
proof
  assume eq: "''client-session:'' @ s = le_bytes n @ r"
  have "(''client-session:'' @ s) ! 7 = (le_bytes n @ r) ! 7"
    by (simp only: eq)
  then have "char_of (n div 256 ^ 7 mod 256) = CHR ''s''"
    by (simp add: nth_append le_bytes_def)
  then have "n div 256 ^ 7 mod 256 = 115"
    by (simp add: char_of_eq_iff take_bit_eq_mod)
  moreover have "n div 256 ^ 7 < 64" using assms by (simp add: div_less_iff_less_mult)
  ultimately show False by simp
qed

lemma preimage_inj:
  assumes "sane n c" "sane n c'" "preimage c = preimage c'"
  shows "c = c'"
proof -
  have tag: "''client-session:'' @ s \<noteq> concat (map (\<lambda>b. le_bytes (length b) @ b) bs)"
    if "bs \<noteq> []" "list_all (\<lambda>b. length b < 2 ^ 62) bs" for s bs
    using that session_tag_is_no_length [of "length (hd bs)" s] by (cases bs) auto
  show ?thesis
  proof (cases c; cases c')
    fix p xs q ys
    assume "c = ByCache p xs" "c' = ByCache q ys"
    with assms prefixed_blocks_inj [of xs ys] show ?thesis by simp
  next
    fix p s q ys
    assume "c = ByClient p s" "c' = ByCache q ys"
    with assms tag [of ys s] show ?thesis by simp
  next
    fix p xs q s
    assume "c = ByCache p xs" "c' = ByClient q s"
    with assms tag [of xs s, THEN not_sym] show ?thesis by simp
  qed (use assms in auto)
qed

text \<open>
  Two requests are pinned under one session key only if they belong to the same conversation,
  that is, the same principal with the same client session, the same principal with the same
  cacheable blocks, or the same API key and model; otherwise the two byte strings the code hashed
  are a collision of the hash. Identifiers are taken to have one length, and blocks to be shorter
  than two to the sixty-second bytes.
\<close>

theorem shared_pin_is_shared_conversation:
  assumes "sane n (conversation_of p cs bl k m)" and "sane n (conversation_of p' cs' bl' k' m')"
    and "resolve_session sha p cs bl k m = resolve_session sha p' cs' bl' k' m'"
  shows "conversation_of p cs bl k m = conversation_of p' cs' bl' k' m' \<or>
         preimage (conversation_of p cs bl k m) \<noteq> preimage (conversation_of p' cs' bl' k' m') \<and>
         sha (preimage (conversation_of p cs bl k m)) = sha (preimage (conversation_of p' cs' bl' k' m'))"
  using assms preimage_inj [OF assms(1,2)] by (auto simp: resolve_session_preimage dest: hex_inj)

theorem shared_pin_is_shared_conversation_witness:
  "conversation_of ''tenant-a'' (Some ''default'') [] ''k1'' ''opus'' =
     conversation_of ''tenant-a'' (Some ''default'') [''prompt''] ''k2'' ''opus''"
proof -
  have "resolve_session id ''tenant-a'' (Some ''default'') [] ''k1'' ''opus'' =
        resolve_session id ''tenant-a'' (Some ''default'') [''prompt''] ''k2'' ''opus''"
    by (simp add: resolve_session_preimage conversation_of_def)
  from shared_pin_is_shared_conversation [OF _ _ this, of 8] show ?thesis
    by (simp add: conversation_of_def)
qed

text \<open>
  On one route, two session keys of one length (hex digests have sixty-four characters) share a
  Redis key only if both the session and the provider are the same, so a conversation keeps one pin
  for each provider.
\<close>

theorem redis_key_separates_providers:
  assumes "length session = length session'"
    and "redis_key session route provider = redis_key session' route provider'"
  shows "session = session' \<and> provider = provider'"
  using assms by (auto simp: redis_key_def)

theorem redis_key_separates_providers_witness:
  "redis_key ''ab12'' ''default'' ''kimi'' \<noteq> redis_key ''ab12'' ''default'' ''anthropic''"
  using redis_key_separates_providers [of "''ab12''" "''ab12''" "''default''" "''kimi''" "''anthropic''"]
  by auto

end
