(* ===== verification/Leasing.thy ===== *)
theory Leasing
  imports Runtime Sticky
begin

text \<open>
  Leasing a credential for a request (\<^verbatim>\<open>oag-server/src/gateway/select.rs\<close>): the sticky pin first,
  then the scheduler's cascade over what the route can reach, with a concurrency slot claimed in
  Redis before the lease is granted. The candidate query, Redis and the random seed are the
  environment's; the loop over the remaining credentials is a recursive function with its termination
  proof, because each pass either drops the credential that lost its slot or spends the one recount.

  The metrics and log lines are left out: nothing reads them. The heartbeat that keeps a held slot
  alive is a background task and not part of this model. \<open>held\<close> is the request's own book-keeping: the
  credentials it has a lease on and has not yet let go of. It says nothing of Redis by itself; what
  Redis was asked and answered is the environment's, and \<open>slot_given\<close> and \<open>told_full\<close> speak of that.
  \<open>release_lease\<close> is the request letting go. The release it sends to Redis is best effort, as in the
  code: it may fail or time out, and the slot is then left to expire, which theory \<open>Slots\<close> models.
\<close>

definition STICKY_TTL :: duration where "STICKY_TTL = from_mins 30"
definition SLOT_HEARTBEAT :: duration where "SLOT_HEARTBEAT = from_secs 30"
definition SLOT_TTL :: duration where "SLOT_TTL = from_mins 2"
definition MAX_BACKOFF :: duration where "MAX_BACKOFF = from_secs 3"

record 'd held_lease =
  l_account :: "'d account_row"
  l_request_id :: string
  via_sticky :: bool

record search =
  sr_route :: string
  sr_principal :: string
  sr_provider :: provider
  sr_session :: string
  sr_request :: string
  sr_channel :: "credential_kind option"

record gateway_config =
  same_account_retries :: nat
  max_account_switches :: nat
  failover_budget :: duration
  upstream_response_timeout :: duration
  max_stream_duration :: duration
  stream_idle_timeout :: duration
  client_write_timeout :: duration

definition heartbeat_lifetime :: "gateway_config \<Rightarrow> duration" where
  "heartbeat_lifetime g =
     (let tries = same_account_retries g + 1;
          headers = (upstream_response_timeout g + MAX_BACKOFF) * tries;
          stream = max_stream_duration g + stream_idle_timeout g + client_write_timeout g
      in headers + stream + SLOT_HEARTBEAT)"

definition leased :: "'d account_row \<Rightarrow> string \<Rightarrow> bool \<Rightarrow> world \<Rightarrow> 'd held_lease \<times> world" where
  "leased row rid sticky w =
     (\<lparr>l_account = row, l_request_id = rid, via_sticky = sticky\<rparr>, w\<lparr>held := row_id row # held w\<rparr>)"

definition release_lease :: "('d, 'm) env_scheme \<Rightarrow> 'd held_lease \<Rightarrow> world \<Rightarrow> world" where
  "release_lease E l w = await E (w\<lparr>held := remove1 (row_id (l_account l)) (held w)\<rparr>)"

definition nothing_usable :: "search \<Rightarrow> int option \<Rightarrow> error" where
  "nothing_usable s reserved =
     (case (reserved, sr_channel s) of
        (Some reserve_pct, _) \<Rightarrow> ReserveHeld (sr_provider s) reserve_pct
      | (None, Some kind) \<Rightarrow> NoCredentialOfKind (sr_provider s) kind
      | (None, None) \<Rightarrow> NoCredential (sr_provider s))"

definition of_kind :: "'d account_row list \<Rightarrow> credential_kind option \<Rightarrow> 'd account_row list" where
  "of_kind rows channel =
     (case channel of
        None \<Rightarrow> rows
      | Some kind \<Rightarrow> filter (\<lambda>r. kind_from_column (row_kind r) = Some kind) rows)"

definition is_live :: "'d::linorder candidate \<Rightarrow> int \<Rightarrow> bool" where
  "is_live c now \<longleftrightarrow>
     schedulable c \<and>
     (case cooldown_until c of None \<Rightarrow> True | Some t \<Rightarrow> t \<le> now) \<and>
     (case rate_limited_until c of None \<Rightarrow> True | Some t \<Rightarrow> t \<le> now) \<and>
     \<not> held_by_reserve (usage_remaining_pct c) (usage_reserve_pct c)"

definition is_eligible :: "'d::linorder candidate \<Rightarrow> int \<Rightarrow> bool" where
  "is_eligible c now \<longleftrightarrow> is_live c now \<and> in_flight c < max_concurrency c"

definition reserve_holding_back :: "'d::linordered_idom account_row list \<Rightarrow> int option" where
  "reserve_holding_back rows =
     (if rows = [] \<or> \<not> list_all row_held_by_reserve rows then None
      else let rs = List.map_filter row_reserve_pct rows
           in if rs = [] then None else Some (Max (set rs)))"

definition claim_slot :: "('d, 'm) env_scheme \<Rightarrow> 'd account_row \<Rightarrow> string \<Rightarrow> world \<Rightarrow> bool \<times> world" where
  "claim_slot E row rid w =
     (case try_acquire_slot E (tick w) (row_id row) rid (u32_of (row_max_concurrency row)) of
        Inr Taken \<Rightarrow> True
      | Inr (Full live) \<Rightarrow> False
      | Inl e \<Rightarrow> True,
      await E w)"

definition candidate_for :: "('d::linordered_idom, 'm) env_scheme \<Rightarrow> 'd account_row \<Rightarrow> world \<Rightarrow>
    'd candidate option \<times> world" where
  "candidate_for E row w =
     (let n = (case slots_in_use E (tick w) (row_id row) of Inr n \<Rightarrow> n | Inl e \<Rightarrow> 0)
      in (to_candidate (registered E) row n 0, await E w))"

definition eligible_with :: "endpoint_registry \<Rightarrow> int \<Rightarrow> nat \<Rightarrow> 'd::linordered_idom account_row \<Rightarrow> bool" where
  "eligible_with reg now n row =
     (case to_candidate reg row n 0 of None \<Rightarrow> False | Some c \<Rightarrow> is_eligible c now)"

definition try_pinned :: "('d::linordered_idom, 'm) env_scheme \<Rightarrow> 'd account_row list \<Rightarrow> string \<Rightarrow> int \<Rightarrow>
    string \<Rightarrow> world \<Rightarrow> 'd account_row option \<times> world" where
  "try_pinned E rows key now rid w =
     (case sticky_get E (tick w) key of
        Inr (Some pinned) \<Rightarrow>
          (let w1 = await E w in
           case find (\<lambda>r. row_id r = pinned) rows of
             None \<Rightarrow> (None, w1)
           | Some row \<Rightarrow>
               (case candidate_for E row w1 of
                  (None, w2) \<Rightarrow> (None, w2)
                | (Some c, w2) \<Rightarrow>
                    if \<not> is_eligible c now \<or> \<not> breakers_permits (w_breakers w2) pinned now then (None, w2)
                    else (case claim_slot E row rid w2 of
                            (True, w3) \<Rightarrow> (Some row, w3)
                          | (False, w3) \<Rightarrow> (None, w3))))
      | _ \<Rightarrow> (None, await E w))"

definition usable_counts :: "error + nat list \<Rightarrow> nat \<Rightarrow> nat list option" where
  "usable_counts read asked =
     (case read of Inr counts \<Rightarrow> if length counts = asked then Some counts else None | Inl e \<Rightarrow> None)"

definition candidates_for :: "('d::linordered_idom, 'm) env_scheme \<Rightarrow> 'd account_row list \<Rightarrow> int \<Rightarrow> world \<Rightarrow>
    'd candidate list \<times> world" where
  "candidates_for E remaining now w =
     (let probe = filter (eligible_with (registered E) now 0)
                    (filter (\<lambda>r. breakers_permits (w_breakers w) (row_id r) now) remaining);
          ids = map row_id probe;
          counts = (case slots_in_use_many E (tick w) ids of
                      Inr counts \<Rightarrow> if length counts = length ids then counts else replicate (length ids) 0
                    | Inl e \<Rightarrow> replicate (length ids) 0)
      in (List.map_filter (\<lambda>(row, n). to_candidate (registered E) row n 0) (zip probe counts), await E w))"

definition pick_with_room :: "endpoint_registry \<Rightarrow> 'd::linordered_idom account_row list \<Rightarrow> nat list option \<Rightarrow>
    int \<Rightarrow> (account_id \<Rightarrow> bool) \<Rightarrow> nat \<Rightarrow> 'd account_row option" where
  "pick_with_room reg rows counts now may draw =
     (let count = (\<lambda>i. case counts of None \<Rightarrow> 0 | Some c \<Rightarrow> if i < length c then c ! i else u32_max);
          opn = map snd (filter (\<lambda>(i, row). eligible_with reg now (count i) row \<and> may (row_id row))
                  (enumerate 0 rows))
      in if opn = [] then None else Some (opn ! (draw mod length opn)))"

definition pick_with_redis_room :: "('d::linordered_idom, 'm) env_scheme \<Rightarrow> 'd account_row list \<Rightarrow> int \<Rightarrow>
    world \<Rightarrow> 'd account_row option \<times> world" where
  "pick_with_redis_room E rows now w =
     (if rows = [] then (None, w)
      else let ids = map row_id rows;
               counts = usable_counts (slots_in_use_many E (tick w) ids) (length ids)
           in case fastrand_u64 E (await E w) of
                (draw, w2) \<Rightarrow>
                  (pick_with_room (registered E) rows counts now
                     (\<lambda>a. breakers_permits (w_breakers w2) a now) draw, w2))"

definition redis_has_room :: "('d::linordered_idom, 'm) env_scheme \<Rightarrow> 'd account_row list \<Rightarrow> int \<Rightarrow> world \<Rightarrow>
    bool \<times> world" where
  "redis_has_room E rows now w =
     (case pick_with_redis_room E rows now w of (r, w1) \<Rightarrow> (r \<noteq> None, w1))"

definition worth_a_recount :: "('d::linordered_idom, 'm) env_scheme \<Rightarrow> 'd account_row list \<Rightarrow> int \<Rightarrow> bool \<Rightarrow>
    world \<Rightarrow> bool \<times> world" where
  "worth_a_recount E el now already w = (if already then (False, w) else redis_has_room E el now w)"

definition every_candidate_is_full :: "'d::linorder candidate list \<Rightarrow> int \<Rightarrow> nat option" where
  "every_candidate_is_full cs now =
     (let full = length (filter (\<lambda>c. is_live c now \<and> in_flight c \<ge> max_concurrency c) cs)
      in if full > 0 \<and> full = length cs then Some full else None)"

definition sticky_set :: "('d, 'm) env_scheme \<Rightarrow> string \<Rightarrow> account_id \<Rightarrow> world \<Rightarrow> world" where
  "sticky_set E key account w = await E (w\<lparr>pins := (key, account) # pins w\<rparr>)"

subsection \<open>The cascade\<close>

datatype 'd cascade_result =
    Granted "'d account_row"
  | Refused error
  | Drained nat

definition considered :: "'d::linorder candidate list \<Rightarrow> int \<Rightarrow> 'd account_row list \<Rightarrow> 'd account_row list" where
  "considered cs now remaining =
     filter (\<lambda>row. list_ex (\<lambda>c. is_live c now \<and> c_account c = row_id row) cs) remaining"

lemma retained_fewer:
  assumes "find (\<lambda>r. f r = a) xs = Some x"
  shows "length (filter (\<lambda>r. f r \<noteq> a) xs) < length xs"
  using find_SomeD [OF assms] by (intro length_filter_less [of x]) auto

function cascade :: "('d::linordered_idom, 'm) env_scheme \<Rightarrow> search \<Rightarrow> string \<Rightarrow> int \<Rightarrow> error \<Rightarrow>
    'd account_row list \<Rightarrow> bool \<Rightarrow> nat \<Rightarrow> world \<Rightarrow> 'd cascade_result \<times> world" where
  "cascade E s key now none_left remaining ghost_retry exhausted w =
     (if remaining = [] then (Drained exhausted, w)
      else case candidates_for E remaining now w of (cs, w1) \<Rightarrow>
        (case fastrand_u64 E w1 of (tie_breaker, w2) \<Rightarrow>
          (case select cs now tie_breaker of
             None \<Rightarrow>
               (case every_candidate_is_full cs now of
                  None \<Rightarrow> (Refused none_left, w2)
                | Some full \<Rightarrow>
                    (case worth_a_recount E (considered cs now remaining) now ghost_retry w2 of
                       (recount, w3) \<Rightarrow>
                         if recount then cascade E s key now none_left remaining True exhausted w3
                         else (Refused (AtCapacity (sr_provider s) full), w3)))
           | Some sel \<Rightarrow>
               (case find (\<lambda>r. row_id r = s_account sel) remaining of
                  None \<Rightarrow> (Refused none_left, w2)
                | Some row \<Rightarrow>
                    (case claim_slot E row (sr_request s) w2 of
                       (False, w3) \<Rightarrow>
                         cascade E s key now none_left (filter (\<lambda>r. row_id r \<noteq> s_account sel) remaining)
                           ghost_retry (Suc exhausted) w3
                     | (True, w3) \<Rightarrow> (Granted row, sticky_set E key (s_account sel) w3))))))"
  by pat_completeness auto
termination
  by (relation "measure (\<lambda>(E, s, key, now, none, remaining, ghost, n, w).
      2 * length remaining + (if ghost then 0 else 1))")
    (auto dest: retained_fewer simp: worth_a_recount_def split: if_splits)

declare cascade.simps [simp del]

definition grant :: "'d account_row \<Rightarrow> string \<Rightarrow> bool \<Rightarrow> world \<Rightarrow> (error + 'd held_lease) \<times> world" where
  "grant row rid sticky w = (case leased row rid sticky w of (l, w') \<Rightarrow> (Inr l, w'))"

definition exhausted_retry :: "('d::linordered_idom, 'm) env_scheme \<Rightarrow> search \<Rightarrow> string \<Rightarrow> int \<Rightarrow>
    'd account_row list \<Rightarrow> nat \<Rightarrow> world \<Rightarrow> (error + 'd held_lease) \<times> world" where
  "exhausted_retry E s key now open_rows exhausted w =
     (case pick_with_redis_room E open_rows now w of
        (None, w1) \<Rightarrow> (Inl (AtCapacity (sr_provider s) exhausted), w1)
      | (Some row, w1) \<Rightarrow>
          (case claim_slot E row (sr_request s) w1 of
             (False, w2) \<Rightarrow> (Inl (AtCapacity (sr_provider s) exhausted), w2)
           | (True, w2) \<Rightarrow> grant row (sr_request s) False (sticky_set E key (row_id row) w2)))"

definition lease_by_cascade :: "('d::linordered_idom, 'm) env_scheme \<Rightarrow> search \<Rightarrow> string \<Rightarrow> int \<Rightarrow> error \<Rightarrow>
    'd account_row list \<Rightarrow> world \<Rightarrow> (error + 'd held_lease) \<times> world" where
  "lease_by_cascade E s key now none_left open_rows w =
     (case cascade E s key now none_left open_rows False 0 w of
        (Granted row, w1) \<Rightarrow> grant row (sr_request s) False w1
      | (Refused e, w1) \<Rightarrow> (Inl e, w1)
      | (Drained exhausted, w1) \<Rightarrow>
          if exhausted > 0 then exhausted_retry E s key now open_rows exhausted w1
          else (Inl none_left, w1))"

definition lease :: "('d::linordered_idom, 'm) env_scheme \<Rightarrow> search \<Rightarrow> account_id list \<Rightarrow> world \<Rightarrow>
    (error + 'd held_lease) \<times> world" where
  "lease E s excluded w =
     (case repo_candidates E (tick w) (sr_route s) (provider_as_str (sr_provider s)) (sr_principal s) of
        Inl e \<Rightarrow> (Inl e, await E w)
      | Inr found \<Rightarrow>
          (let rows = of_kind found (sr_channel s);
               none_left = nothing_usable s (reserve_holding_back rows)
           in if rows = [] then (Inl none_left, await E w)
              else case read_clock E (await E w) of (t, w1) \<Rightarrow>
                (let now = unix_timestamp t;
                     key = redis_key (sr_session s) (sr_route s) (provider_as_str (sr_provider s));
                     open_rows = filter (\<lambda>r. row_id r \<notin> set excluded) rows
                 in case (if excluded = [] then try_pinned E rows key now (sr_request s) w1 else (None, w1)) of
                      (Some row, w2) \<Rightarrow> grant row (sr_request s) True w2
                    | (None, w2) \<Rightarrow> lease_by_cascade E s key now none_left open_rows w2)))"

subsection \<open>What a lease is\<close>

definition row_live :: "endpoint_registry \<Rightarrow> 'd::linordered_idom account_row \<Rightarrow> int \<Rightarrow> bool" where
  "row_live reg row now = (case to_candidate reg row 0 0 of None \<Rightarrow> False | Some c \<Rightarrow> is_live c now)"

definition calm :: "('d, 'm) env_scheme \<Rightarrow> bool" where
  "calm E \<longleftrightarrow> (\<forall>t b. others E t b = b)"

definition reads_only :: "('d, 'm) env_scheme \<Rightarrow> world \<Rightarrow> world \<Rightarrow> bool" where
  "reads_only E w w' \<longleftrightarrow> same_books w w' \<and> (calm E \<longrightarrow> w_breakers w' = w_breakers w)"

lemma reads_only_refl [simp]: "reads_only E w w"
  by (simp add: reads_only_def)

lemma reads_only_trans: "reads_only E a b \<Longrightarrow> reads_only E b c \<Longrightarrow> reads_only E a c"
  by (auto simp: reads_only_def intro: same_books_trans)

lemma reads_only_await [simp]: "reads_only E w (await E w)"
  by (simp add: reads_only_def) (simp add: await_def calm_def)

lemma reads_only_await_after: "reads_only E w w' \<Longrightarrow> reads_only E w (await E w')"
  by (rule reads_only_trans [OF _ reads_only_await])

lemma reads_only_clock: "read_clock E w = (t, w') \<Longrightarrow> reads_only E w w'"
  by (auto simp: reads_only_def read_clock_books) (auto simp: read_clock_def)

lemma reads_only_fastrand: "fastrand_u64 E w = (n, w') \<Longrightarrow> reads_only E w w'"
  by (auto simp: reads_only_def dest: fastrand_books)

lemma reads_only_claim: "claim_slot E row rid w = (b, w') \<Longrightarrow> reads_only E w w'"
  by (auto simp: claim_slot_def)

lemma reads_only_candidate: "candidate_for E row w = (c, w') \<Longrightarrow> reads_only E w w'"
  by (auto simp: candidate_for_def Let_def)

lemma reads_only_candidates: "candidates_for E rows now w = (cs, w') \<Longrightarrow> reads_only E w w'"
  by (auto simp: candidates_for_def Let_def)

lemma reads_only_sticky: "reads_only E w (sticky_set E key a w)"
proof -
  have "reads_only E w (w\<lparr>pins := (key, a) # pins w\<rparr>)" by (simp add: reads_only_def same_books_def)
  then show ?thesis unfolding sticky_set_def by (rule reads_only_await_after)
qed

lemma reads_only_room: "pick_with_redis_room E rows now w = (r, w') \<Longrightarrow> reads_only E w w'"
  by (auto simp: pick_with_redis_room_def Let_def split: if_splits prod.splits
      intro: reads_only_trans [OF reads_only_await reads_only_fastrand])

lemma reads_only_recount: "worth_a_recount E el now already w = (b, w') \<Longrightarrow> reads_only E w w'"
  by (auto simp: worth_a_recount_def redis_has_room_def split: if_splits prod.splits intro: reads_only_room)

lemmas reads_only_steps = reads_only_clock reads_only_fastrand reads_only_claim reads_only_candidate
  reads_only_candidates reads_only_room reads_only_recount

lemma is_eligible_iff: "is_eligible c now \<longleftrightarrow> eligible c now"
  by (auto simp: is_eligible_def is_live_def eligible_def)

lemma to_candidate_live:
  "to_candidate reg row n m = Some c \<Longrightarrow> is_live c now \<longleftrightarrow> row_live reg row now"
  by (auto simp: to_candidate_def row_live_def is_live_def split: sum.splits)

lemma to_candidate_account: "to_candidate reg row n m = Some c \<Longrightarrow> c_account c = row_id row"
  by (auto simp: to_candidate_def split: sum.splits)

lemma eligible_with_live: "eligible_with reg now n row \<Longrightarrow> row_live reg row now"
  by (auto simp: eligible_with_def is_eligible_def to_candidate_live split: option.splits)

lemma candidates_for_sound:
  assumes "candidates_for E remaining now w = (cs, w')" and "c \<in> set cs"
  shows "\<exists>row \<in> set remaining. row_id row = c_account c \<and> row_live (registered E) row now
    \<and> breakers_permits (w_breakers w) (row_id row) now"
proof -
  let ?probe = "filter (eligible_with (registered E) now 0)
      (filter (\<lambda>r. breakers_permits (w_breakers w) (row_id r) now) remaining)"
  obtain counts where "cs = List.map_filter (\<lambda>(row, n). to_candidate (registered E) row n 0) (zip ?probe counts)"
    using assms(1) by (auto simp: candidates_for_def Let_def)
  with assms(2) obtain row n where "(row, n) \<in> set (zip ?probe counts)"
    and c: "to_candidate (registered E) row n 0 = Some c"
    by (fastforce simp: set_map_filter_iff)
  then have "row \<in> set ?probe" by (meson set_zip_leftD)
  then show ?thesis using to_candidate_account [OF c] by (auto dest: eligible_with_live)
qed

lemma pick_with_room_sound:
  assumes "pick_with_room reg rows counts now may draw = Some row"
  shows "row \<in> set rows \<and> row_live reg row now \<and> may (row_id row)"
proof -
  define count where "count = (\<lambda>i. case counts of None \<Rightarrow> 0 | Some c \<Rightarrow> if i < length c then c ! i else u32_max)"
  define opn where "opn = map snd (filter (\<lambda>(i, row). eligible_with reg now (count i) row \<and> may (row_id row))
                  (enumerate 0 rows))"
  have "opn \<noteq> []" "row = opn ! (draw mod length opn)"
    using assms by (auto simp: pick_with_room_def Let_def count_def opn_def split: if_splits)
  then have "row \<in> set opn" by simp
  then show ?thesis
    by (auto simp: opn_def in_set_enumerate_eq dest: eligible_with_live)
qed

lemma select_sound:
  assumes "candidates_for E remaining now w = (cs, w')" and "select cs now tb = Some sel"
    and "find (\<lambda>r. row_id r = s_account sel) remaining = Some row" and "distinct (map row_id remaining)"
  shows "row_live (registered E) row now \<and> breakers_permits (w_breakers w) (row_id row) now"
proof -
  have "s_account sel \<in> c_account ` set cs"
    using select_picks_best_account [OF assms(2)] by (auto simp: best_def least_by_def)
  then obtain c where "c \<in> set cs" "c_account c = s_account sel" by auto
  from candidates_for_sound [OF assms(1) this(1)] this(2) obtain row' where row': "row' \<in> set remaining"
    "row_id row' = s_account sel" "row_live (registered E) row' now" "breakers_permits (w_breakers w) (row_id row') now"
    by auto
  moreover have "row \<in> set remaining" "row_id row = s_account sel" using find_SomeD [OF assms(3)] by auto
  ultimately have "row = row'" using assms(4) by (metis distinct_map inj_onD)
  with row' show ?thesis by simp
qed

definition usable :: "('d::linordered_idom, 'm) env_scheme \<Rightarrow> int \<Rightarrow> world \<Rightarrow> 'd account_row list \<Rightarrow>
    'd account_row \<Rightarrow> bool" where
  "usable E now w rows row \<longleftrightarrow> row \<in> set rows \<and>
     (distinct (map row_id rows) \<longrightarrow> row_live (registered E) row now \<and>
        (calm E \<longrightarrow> breakers_permits (w_breakers w) (row_id row) now))"

lemma usable_mono:
  "usable E now w' (filter P rows) row \<Longrightarrow> reads_only E w w' \<Longrightarrow> usable E now w rows row"
  by (auto simp: usable_def reads_only_def distinct_map_filter)

lemma usable_earlier: "usable E now w' rows row \<Longrightarrow> reads_only E w w' \<Longrightarrow> usable E now w rows row"
  by (auto simp: usable_def reads_only_def)

definition cascade_ok :: "('d::linordered_idom, 'm) env_scheme \<Rightarrow> search \<Rightarrow> int \<Rightarrow> error \<Rightarrow> 'd account_row list \<Rightarrow>
    nat \<Rightarrow> world \<Rightarrow> 'd cascade_result \<Rightarrow> world \<Rightarrow> bool" where
  "cascade_ok E s now none_left remaining exhausted w res w' \<longleftrightarrow> reads_only E w w' \<and>
     (case res of
        Granted row \<Rightarrow> usable E now w remaining row
      | Refused e \<Rightarrow> e = none_left \<or> (\<exists>n > 0. e = AtCapacity (sr_provider s) n)
      | Drained n \<Rightarrow> n = exhausted \<and> remaining = [] \<or> n > exhausted)"

lemma cascade_ok_weaken:
  assumes "cascade_ok E s now none_left (filter P remaining) exhausted' w1 res w'" and "reads_only E w w1"
    and "exhausted' > exhausted \<or> (exhausted' = exhausted \<and> filter P remaining = remaining)"
  shows "cascade_ok E s now none_left remaining exhausted w res w'"
  using assms by (auto simp: cascade_ok_def intro: reads_only_trans usable_mono split: cascade_result.splits)

lemma cascade_ok_stop:
  assumes "reads_only E w w'" and "e = none_left \<or> (\<exists>n > 0. e = AtCapacity (sr_provider s) n)"
  shows "cascade_ok E s now none_left remaining exhausted w (Refused e) w'"
  using assms by (simp add: cascade_ok_def)

lemma cascade_sound:
  assumes "cascade E s key now none_left remaining ghost exhausted w = (res, w')"
  shows "cascade_ok E s now none_left remaining exhausted w res w'"
  using assms
proof (induction E s key now none_left remaining ghost exhausted w arbitrary: res w' rule: cascade.induct)
  case (1 E s key now none_left remaining ghost exhausted w)
  note run = trans [OF cascade.simps [of E s key now none_left remaining ghost exhausted w, symmetric] "1.prems"]
  obtain cs w1 where cs: "candidates_for E remaining now w = (cs, w1)" by force
  obtain tb w2 where tb: "fastrand_u64 E w1 = (tb, w2)" by force
  have r2: "reads_only E w w2" using cs tb by (meson reads_only_steps reads_only_trans)
  consider (drained) "remaining = []"
    | (ineligible) "remaining \<noteq> []" "select cs now tb = None" "every_candidate_is_full cs now = None"
    | (full) full where "remaining \<noteq> []" "select cs now tb = None" "every_candidate_is_full cs now = Some full"
    | (stale) sel where "remaining \<noteq> []" "select cs now tb = Some sel"
        "find (\<lambda>r. row_id r = s_account sel) remaining = None"
    | (chosen) sel row where "remaining \<noteq> []" "select cs now tb = Some sel"
        "find (\<lambda>r. row_id r = s_account sel) remaining = Some row"
    by (metis option.exhaust)
  then show ?case
  proof cases
    case full
    obtain recount w3 where rc: "worth_a_recount E (considered cs now remaining) now ghost w2 = (recount, w3)"
      by force
    have r3: "reads_only E w w3" using rc r2 by (meson reads_only_steps reads_only_trans)
    have "full > 0" using full(3) by (auto simp: every_candidate_is_full_def Let_def split: if_splits)
    then show ?thesis
      using "1.IH"(1) [OF full(1) cs [symmetric] tb [symmetric] full(2,3) rc [symmetric], of res w']
        run full cs tb rc r3 by (cases recount) (auto intro: cascade_ok_weaken [where P = "\<lambda>_. True", OF _ r3] cascade_ok_stop)
  next
    case chosen
    obtain got w3 where cl: "claim_slot E row (sr_request s) w2 = (got, w3)" by force
    have r3: "reads_only E w w3" using cl r2 by (meson reads_only_steps reads_only_trans)
    show ?thesis
    proof (cases got)
      case True
      then show ?thesis
        using run chosen cs tb cl select_sound [OF cs chosen(2,3)] find_SomeD [OF chosen(3)] reads_only_trans [OF r3 reads_only_sticky]
        by (auto simp: cascade_ok_def usable_def)
    next
      case False
      let ?rest = "filter (\<lambda>r. row_id r \<noteq> s_account sel) remaining"
      have "cascade_ok E s now none_left ?rest (Suc exhausted) w3 res w'"
        using "1.IH"(2) [OF chosen(1) cs [symmetric] tb [symmetric] chosen(2,3) cl [symmetric]]
          run chosen cs tb cl False by simp
      then show ?thesis using r3 by (rule cascade_ok_weaken) auto
    qed
  qed (use run cs tb r2 in \<open>auto simp: cascade_ok_def\<close>)
qed

lemma reads_only_pinned: "try_pinned E rows key now rid w = (r, w') \<Longrightarrow> reads_only E w w'"
  by (auto simp: try_pinned_def Let_def split: sum.splits option.splits prod.splits if_splits bool.splits
      intro: reads_only_trans dest!: reads_only_claim reads_only_candidate)
    (meson reads_only_await reads_only_trans)+

lemma try_pinned_sound:
  assumes "try_pinned E rows key now rid w = (Some row, w')"
  shows "usable E now w rows row"
proof -
  obtain pinned c w2 where "find (\<lambda>r. row_id r = pinned) rows = Some row"
    and c: "candidate_for E row (await E w) = (Some c, w2)"
    and ok: "is_eligible c now" "breakers_permits (w_breakers w2) pinned now"
    using assms by (auto simp: try_pinned_def Let_def split: sum.splits option.splits prod.splits if_splits bool.splits)
  then have "row \<in> set rows" "row_id row = pinned" using find_SomeD [of _ rows row] by auto
  moreover have "row_live (registered E) row now"
    using c ok(1) by (auto simp: candidate_for_def Let_def is_eligible_def to_candidate_live)
  moreover have "reads_only E w w2" using reads_only_candidate [OF c] reads_only_await reads_only_trans by blast
  ultimately show ?thesis using ok(2) by (auto simp: usable_def reads_only_def)
qed

lemma room_sound:
  assumes "pick_with_redis_room E rows now w = (Some row, w')"
  shows "usable E now w rows row"
proof -
  obtain counts draw where "pick_with_room (registered E) rows counts now
      (\<lambda>a. breakers_permits (w_breakers w') a now) draw = Some row"
    using assms by (auto simp: pick_with_redis_room_def Let_def split: if_splits prod.splits)
  from pick_with_room_sound [OF this] reads_only_room [OF assms] show ?thesis
    by (auto simp: usable_def reads_only_def)
qed

lemma set_of_kind: "set (of_kind rows ch) \<subseteq> set rows"
  by (auto simp: of_kind_def split: option.splits)

lemma distinct_of_kind: "distinct (map row_id rows) \<Longrightarrow> distinct (map row_id (of_kind rows ch))"
  by (simp add: of_kind_def distinct_map_filter split: option.splits)

text \<open>What a search can end in: a usable row and its slot, or an error and no slot.\<close>

definition lease_ok :: "('d::linordered_idom, 'm) env_scheme \<Rightarrow> search \<Rightarrow> int \<Rightarrow> error \<Rightarrow> 'd account_row list \<Rightarrow>
    world \<Rightarrow> error + 'd held_lease \<Rightarrow> world \<Rightarrow> bool" where
  "lease_ok E s now none_left rows w res w' \<longleftrightarrow>
     (case res of
        Inr l \<Rightarrow> usable E now w rows (l_account l) \<and>
            (\<exists>w1. reads_only E w w1 \<and> w' = w1\<lparr>held := row_id (l_account l) # held w1\<rparr>)
      | Inl e \<Rightarrow> reads_only E w w' \<and>
            (e = none_left \<or> (\<exists>n > 0. e = AtCapacity (sr_provider s) n)))"

lemma lease_ok_weaken:
  assumes "lease_ok E s now none_left rows w1 res w'" and "reads_only E w w1"
  shows "lease_ok E s now none_left rows w res w'"
  using assms by (auto simp: lease_ok_def intro: reads_only_trans usable_earlier split: sum.splits)

lemma lease_ok_grant:
  assumes "usable E now w rows row" and "reads_only E w w1" and "grant row rid sticky w1 = (res, w')"
  shows "lease_ok E s now none_left rows w res w'"
  using assms by (auto simp: lease_ok_def grant_def leased_def)

lemma exhausted_retry_sound:
  assumes "exhausted_retry E s key now rows n w = (res, w')" and "n > 0"
  shows "lease_ok E s now none_left rows w res w'"
proof -
  obtain r w1 where room: "pick_with_redis_room E rows now w = (r, w1)" by force
  note r1 = reads_only_room [OF room]
  show ?thesis
  proof (cases r)
    case None
    then show ?thesis using assms room r1 by (auto simp: exhausted_retry_def lease_ok_def)
  next
    case (Some row)
    obtain got w2 where cl: "claim_slot E row (sr_request s) w1 = (got, w2)" by force
    have r2: "reads_only E w w2" using reads_only_trans [OF r1 reads_only_claim [OF cl]] .
    show ?thesis
      using assms room Some cl r2 lease_ok_grant [OF room_sound [OF room [unfolded Some]]
          reads_only_trans [OF r2 reads_only_sticky [of E w2 key "row_id row"]]]
      by (cases got) (auto simp: exhausted_retry_def lease_ok_def)
  qed
qed

lemma lease_by_cascade_sound:
  assumes run: "lease_by_cascade E s key now none_left rows w = (res, w')"
  shows "lease_ok E s now none_left rows w res w'"
proof -
  obtain cres w1 where casc: "cascade E s key now none_left rows False 0 w = (cres, w1)" by force
  note ok = cascade_sound [OF casc]
  then have r1: "reads_only E w w1" by (simp add: cascade_ok_def)
  show ?thesis
  proof (cases cres)
    case (Granted row)
    then have "usable E now w rows row" using ok by (simp add: cascade_ok_def)
    from lease_ok_grant [OF this r1] run casc Granted show ?thesis by (auto simp: lease_by_cascade_def)
  next
    case (Refused e)
    then show ?thesis using run casc ok r1 by (auto simp: lease_by_cascade_def cascade_ok_def lease_ok_def)
  next
    case (Drained n)
    show ?thesis
    proof (cases "n > 0")
      case True
      then have "exhausted_retry E s key now rows n w1 = (res, w')"
        using run casc Drained by (simp add: lease_by_cascade_def)
      from lease_ok_weaken [OF exhausted_retry_sound [OF this True] r1] show ?thesis .
    next
      case False
      then show ?thesis using run casc Drained r1 by (auto simp: lease_by_cascade_def lease_ok_def)
    qed
  qed
qed

lemma lease_sound:
  assumes found: "repo_candidates E (tick w) (sr_route s) (provider_as_str (sr_provider s)) (sr_principal s) = Inr rows"
    and run: "lease E s excluded w = (res, w')"
  shows "lease_ok E s (unix_timestamp (now_ms E (Suc (tick w))))
    (nothing_usable s (reserve_holding_back (of_kind rows (sr_channel s))))
    (filter (\<lambda>r. row_id r \<notin> set excluded) (of_kind rows (sr_channel s))) w res w'"
proof (cases "of_kind rows (sr_channel s) = []")
  case True
  then show ?thesis using run found by (auto simp: lease_def lease_ok_def)
next
  case False
  let ?now = "unix_timestamp (now_ms E (Suc (tick w)))" and ?rows = "of_kind rows (sr_channel s)"
  let ?key = "redis_key (sr_session s) (sr_route s) (provider_as_str (sr_provider s))"
  let ?open = "filter (\<lambda>r. row_id r \<notin> set excluded) ?rows"
  obtain w1 where clock: "read_clock E (await E w) = (now_ms E (Suc (tick w)), w1)"
    by (simp add: read_clock_def await_def)
  have r1: "reads_only E w w1" using reads_only_clock [OF clock] reads_only_await reads_only_trans by blast
  obtain pin w2 where pin: "(if excluded = [] then try_pinned E ?rows ?key ?now (sr_request s) w1 else (None, w1)) = (pin, w2)"
    by force
  have r2: "reads_only E w w2"
    using pin r1 by (auto split: if_splits dest!: reads_only_pinned intro: reads_only_trans)
  show ?thesis
  proof (cases pin)
    case (Some row)
    then have ex: "excluded = []" and p: "try_pinned E ?rows ?key ?now (sr_request s) w1 = (Some row, w2)"
      using pin by (auto split: if_splits)
    have "usable E ?now w ?open row" using usable_earlier [OF try_pinned_sound [OF p] r1] ex by simp
    moreover have "grant row (sr_request s) True w2 = (res, w')"
      using run found False clock pin Some by (simp add: lease_def)
    ultimately show ?thesis using r2 by (blast intro: lease_ok_grant)
  next
    case None
    then have "lease_by_cascade E s ?key ?now (nothing_usable s (reserve_holding_back ?rows)) ?open w2 = (res, w')"
      using run found False clock pin by (simp add: lease_def Let_def)
    from lease_ok_weaken [OF lease_by_cascade_sound [OF this] r2] show ?thesis .
  qed
qed

lemma reserve_holding_back_sound:
  assumes "reserve_holding_back rows = Some pct" and "row \<in> set rows"
  shows "row_held_by_reserve row \<and> (\<exists>q. row_reserve_pct row = Some q \<and> q \<le> pct)"
proof -
  have all: "row_held_by_reserve row" and pct: "pct = Max (set (List.map_filter row_reserve_pct rows))"
    using assms by (auto simp: reserve_holding_back_def Let_def list_all_iff split: if_splits)
  then obtain q where q: "row_reserve_pct row = Some q"
    by (auto simp: row_held_by_reserve_def held_by_reserve_def split: option.splits)
  then have "q \<in> set (List.map_filter row_reserve_pct rows)" using assms(2) by (auto simp: set_map_filter_iff)
  then show ?thesis using all pct q by simp
qed

lemma nothing_usable_cases:
  "nothing_usable s (reserve_holding_back rows) = e \<Longrightarrow>
     (\<exists>pct. e = ReserveHeld (sr_provider s) pct \<and>
        (\<forall>row \<in> set rows. row_held_by_reserve row \<and> (\<exists>q. row_reserve_pct row = Some q \<and> q \<le> pct)))
     \<or> (\<exists>k. sr_channel s = Some k \<and> e = NoCredentialOfKind (sr_provider s) k)
     \<or> sr_channel s = None \<and> e = NoCredential (sr_provider s)"
  by (auto simp: nothing_usable_def reserve_holding_back_sound split: option.splits)

subsection \<open>Why a search ends as it does\<close>

text \<open>
  What Redis said of a credential between two moments of a search: that a slot was not refused it, and that
  it is full, by refusing a slot at its own limit or by counting that many in use.
\<close>

definition slot_given :: "('d, 'm) env_scheme \<Rightarrow> string \<Rightarrow> nat \<Rightarrow> nat \<Rightarrow> 'd account_row \<Rightarrow> bool" where
  "slot_given E rid lo hi row \<longleftrightarrow> (\<exists>t. lo \<le> t \<and> t < hi \<and>
     (\<forall>live. try_acquire_slot E t (row_id row) rid (u32_of (row_max_concurrency row)) \<noteq> Inr (Full live)))"

definition told_full :: "('d, 'm) env_scheme \<Rightarrow> string \<Rightarrow> nat \<Rightarrow> nat \<Rightarrow> 'd account_row \<Rightarrow> bool" where
  "told_full E rid lo hi row \<longleftrightarrow> (\<exists>t. lo \<le> t \<and> t < hi \<and>
     ((\<exists>live. try_acquire_slot E t (row_id row) rid (u32_of (row_max_concurrency row)) = Inr (Full live)) \<or>
      (\<exists>ids counts i. slots_in_use_many E t ids = Inr counts \<and> length counts = length ids \<and> i < length ids \<and>
         ids ! i = row_id row \<and> u32_of (row_max_concurrency row) \<le> counts ! i)))"

lemma told_full_mono: "told_full E rid lo hi row \<Longrightarrow> lo' \<le> lo \<Longrightarrow> hi \<le> hi' \<Longrightarrow> told_full E rid lo' hi' row"
  unfolding told_full_def by (meson le_trans less_le_trans)

lemma slot_given_mono: "slot_given E rid lo hi row \<Longrightarrow> lo' \<le> lo \<Longrightarrow> hi \<le> hi' \<Longrightarrow> slot_given E rid lo' hi' row"
  unfolding slot_given_def by (meson le_trans less_le_trans)

lemma tick_await [simp]: "tick (await E w) = Suc (tick w)"
  by (simp add: await_def)

lemma tick_steps:
  "candidates_for E rows now w = (cs, w') \<Longrightarrow> tick w' = Suc (tick w)"
  "fastrand_u64 E w = (n, w') \<Longrightarrow> tick w' = Suc (tick w)"
  "claim_slot E row rid w = (b, w') \<Longrightarrow> tick w' = Suc (tick w)"
  "pick_with_redis_room E rows now w = (r, w') \<Longrightarrow> tick w \<le> tick w'"
  "worth_a_recount E rows now again w = (b, w') \<Longrightarrow> tick w \<le> tick w'"
  "tick (sticky_set E key a w) = Suc (tick w)"
  by (auto simp: candidates_for_def fastrand_u64_def claim_slot_def pick_with_redis_room_def worth_a_recount_def redis_has_room_def
      sticky_set_def Let_def split: if_splits prod.splits)

lemma claim_slot_answer:
  "claim_slot E row rid w = (True, w') \<Longrightarrow> slot_given E rid (tick w) (tick w') row"
  "claim_slot E row rid w = (False, w') \<Longrightarrow> told_full E rid (tick w) (tick w') row"
proof -
  assume "claim_slot E row rid w = (True, w')"
  then have "tick w < tick w'" "\<forall>live. try_acquire_slot E (tick w) (row_id row) rid (u32_of (row_max_concurrency row)) \<noteq> Inr (Full live)"
    by (auto simp: claim_slot_def split: sum.splits slot_claim.splits)
  then show "slot_given E rid (tick w) (tick w') row" unfolding slot_given_def by blast
next
  assume "claim_slot E row rid w = (False, w')"
  then have "tick w < tick w'" "\<exists>live. try_acquire_slot E (tick w) (row_id row) rid (u32_of (row_max_concurrency row)) = Inr (Full live)"
    by (auto simp: claim_slot_def split: sum.splits slot_claim.splits)
  then show "told_full E rid (tick w) (tick w') row" unfolding told_full_def by blast
qed

text \<open>The rows a pass of the cascade asks Redis about, and the candidates it makes of the answer.\<close>

definition probed :: "('d::linordered_idom, 'm) env_scheme \<Rightarrow> 'd account_row list \<Rightarrow> int \<Rightarrow> world \<Rightarrow> 'd account_row list" where
  "probed E remaining now w = filter (eligible_with (registered E) now 0)
     (filter (\<lambda>r. breakers_permits (w_breakers w) (row_id r) now) remaining)"

lemma map_filter_total:
  "(\<And>x. x \<in> set xs \<Longrightarrow> \<exists>y. f x = Some y) \<Longrightarrow> List.map_filter f xs = map (the \<circ> f) xs"
  by (induction xs) (force simp: List.map_filter_simps)+

lemma candidates_of_probed:
  assumes "candidates_for E remaining now w = (cs, w')"
  obtains counts where "length counts = length (probed E remaining now w)" "length cs = length (probed E remaining now w)"
    "\<And>i. i < length cs \<Longrightarrow> to_candidate (registered E) (probed E remaining now w ! i) (counts ! i) 0 = Some (cs ! i)"
    "\<And>i. i < length cs \<Longrightarrow> 0 < counts ! i \<Longrightarrow> slots_in_use_many E (tick w) (map row_id (probed E remaining now w)) = Inr counts"
proof -
  let ?rows = "probed E remaining now w"
  define counts where "counts = (case slots_in_use_many E (tick w) (map row_id ?rows) of
      Inr counts \<Rightarrow> if length counts = length ?rows then counts else replicate (length ?rows) 0
    | Inl e \<Rightarrow> replicate (length ?rows) 0)"
  have len: "length counts = length ?rows" by (simp add: counts_def split: sum.splits)
  have cs: "cs = List.map_filter (\<lambda>(row, n). to_candidate (registered E) row n 0) (zip ?rows counts)"
    using assms by (auto simp: candidates_for_def counts_def probed_def Let_def cong: sum.case_cong if_cong split: sum.splits)
  have some: "\<exists>c. to_candidate (registered E) row n 0 = Some c" if "row \<in> set ?rows" for row n
    using that by (auto simp: probed_def eligible_with_def to_candidate_def split: sum.splits option.splits)
  then have all: "cs = map (the \<circ> (\<lambda>(row, n). to_candidate (registered E) row n 0)) (zip ?rows counts)"
    unfolding cs by (intro map_filter_total) (auto dest: set_zip_leftD)
  show ?thesis
  proof
    show "length cs = length ?rows" using len all by simp
    show "to_candidate (registered E) (?rows ! i) (counts ! i) 0 = Some (cs ! i)" if "i < length cs" for i
      using that len some [of "?rows ! i" "counts ! i"] by (auto simp: all)
    show "slots_in_use_many E (tick w) (map row_id ?rows) = Inr counts" if "i < length cs" "0 < counts ! i" for i
      using that len all by (auto simp: counts_def split: sum.splits if_splits)
  qed (rule len)
qed

lemma to_candidate_counts:
  "to_candidate reg row n m = Some c \<Longrightarrow> max_concurrency c = u32_of (row_max_concurrency row) \<and> in_flight c = n"
  by (auto simp: to_candidate_def split: sum.splits)

lemma probed_live: "row \<in> set (probed E remaining now w) \<Longrightarrow> row_live (registered E) row now"
  by (auto simp: probed_def dest: eligible_with_live)

lemma unselected_are_full:
  assumes cs: "candidates_for E remaining now w = (cs, w')" and none: "select cs now tb = None"
  shows "every_candidate_is_full cs now = (if probed E remaining now w = [] then None else Some (length (probed E remaining now w)))"
    and "row \<in> set (probed E remaining now w) \<Longrightarrow> told_full E rid (tick w) (tick w') row"
proof -
  let ?rows = "probed E remaining now w"
  obtain counts where len: "length counts = length ?rows" "length cs = length ?rows"
    and c: "\<And>i. i < length cs \<Longrightarrow> to_candidate (registered E) (?rows ! i) (counts ! i) 0 = Some (cs ! i)"
    and asked: "\<And>i. i < length cs \<Longrightarrow> 0 < counts ! i \<Longrightarrow> slots_in_use_many E (tick w) (map row_id ?rows) = Inr counts"
    using candidates_of_probed [OF cs] by metis
  have live: "is_live (cs ! i) now" if "i < length cs" for i
    using to_candidate_live [OF c [OF that]] that len probed_live [OF nth_mem, of i E remaining now w] by simp
  have no: "\<not> eligible d now" if "d \<in> set cs" for d
    using none that select_nth [of cs now tb] finalists_empty [of cs now] by fastforce
  have full: "max_concurrency (cs ! i) \<le> in_flight (cs ! i)" if "i < length cs" for i
    using no [of "cs ! i"] live [OF that] that by (auto simp: is_eligible_iff [symmetric] is_eligible_def)
  have "filter (\<lambda>c. is_live c now \<and> in_flight c \<ge> max_concurrency c) cs = cs"
    using live full by (auto simp: filter_id_conv in_set_conv_nth)
  then show "every_candidate_is_full cs now = (if ?rows = [] then None else Some (length ?rows))"
    using len by (auto simp: every_candidate_is_full_def)
  assume "row \<in> set ?rows"
  then obtain i where i: "i < length cs" "?rows ! i = row" using len by (auto simp: in_set_conv_nth)
  have fields: "max_concurrency (cs ! i) = u32_of (row_max_concurrency row)" "in_flight (cs ! i) = counts ! i"
    using to_candidate_counts [OF c [OF i(1)]] i(2) by auto
  have "eligible_with (registered E) now 0 row" using i len by (auto simp: probed_def dest!: nth_mem)
  then have "0 < u32_of (row_max_concurrency row)"
    by (auto simp: eligible_with_def is_eligible_def to_candidate_def split: sum.splits)
  then have "slots_in_use_many E (tick w) (map row_id ?rows) = Inr counts"
    using asked [OF i(1)] full [OF i(1)] fields by simp
  moreover have "u32_of (row_max_concurrency row) \<le> counts ! i" using full [OF i(1)] fields by simp
  moreover have "tick w < tick w'" using tick_steps(1) [OF cs] by simp
  ultimately show "told_full E rid (tick w) (tick w') row"
    unfolding told_full_def using i len by (metis length_map nth_map order_refl)
qed

text \<open>
  A refusal tells the truth when it names the number of some of the live credentials Redis called full, or
  when, with nobody else moving the breakers, every credential was ineligible, stopped by its breaker or full.
\<close>

definition refusal_true :: "('d::linordered_idom, 'm) env_scheme \<Rightarrow> search \<Rightarrow> int \<Rightarrow> error \<Rightarrow> 'd account_row list \<Rightarrow>
    world \<Rightarrow> world \<Rightarrow> error \<Rightarrow> bool" where
  "refusal_true E s now none_left rows w w' e \<longleftrightarrow>
     (\<exists>F. F \<subseteq> set rows \<and> F \<noteq> {} \<and> e = AtCapacity (sr_provider s) (card F) \<and>
        (\<forall>row \<in> F. row_live (registered E) row now \<and> told_full E (sr_request s) (tick w) (tick w') row)) \<or>
     e = none_left \<and> (calm E \<longrightarrow> (\<forall>row \<in> set rows. \<not> eligible_with (registered E) now 0 row \<or>
        \<not> breakers_permits (w_breakers w) (row_id row) now \<or> told_full E (sr_request s) (tick w) (tick w') row))"

lemma refusal_true_mono:
  assumes "refusal_true E s now none_left rows w1 w2 e" and "reads_only E w w1" "tick w \<le> tick w1" "tick w2 \<le> tick w'"
  shows "refusal_true E s now none_left rows w w' e"
proof -
  have full: "told_full E (sr_request s) (tick w1) (tick w2) row \<Longrightarrow> told_full E (sr_request s) (tick w) (tick w') row" for row
    using assms(3,4) by (blast intro: told_full_mono)
  have same: "calm E \<Longrightarrow> w_breakers w1 = w_breakers w" using assms(2) by (simp add: reads_only_def)
  from assms(1) consider
      (capacity) F where "F \<subseteq> set rows" "F \<noteq> {}" "e = AtCapacity (sr_provider s) (card F)"
        "\<forall>row \<in> F. row_live (registered E) row now \<and> told_full E (sr_request s) (tick w1) (tick w2) row"
    | (none) "e = none_left" "calm E \<longrightarrow> (\<forall>row \<in> set rows. \<not> eligible_with (registered E) now 0 row \<or>
        \<not> breakers_permits (w_breakers w1) (row_id row) now \<or> told_full E (sr_request s) (tick w1) (tick w2) row)"
    unfolding refusal_true_def by blast
  then show ?thesis
  proof cases
    case capacity
    with full show ?thesis unfolding refusal_true_def by (intro disjI1 exI [of _ F]) simp
  next
    case none
    with full same show ?thesis unfolding refusal_true_def by (intro disjI2) auto
  qed
qed

definition cascade_tells :: "('d::linordered_idom, 'm) env_scheme \<Rightarrow> search \<Rightarrow> int \<Rightarrow> error \<Rightarrow> 'd account_row list \<Rightarrow>
    nat \<Rightarrow> world \<Rightarrow> 'd cascade_result \<Rightarrow> world \<Rightarrow> bool" where
  "cascade_tells E s now none_left rows exhausted w res w' \<longleftrightarrow> tick w \<le> tick w' \<and>
     (case res of
        Granted row \<Rightarrow> slot_given E (sr_request s) (tick w) (tick w') row
      | Refused e \<Rightarrow> refusal_true E s now none_left rows w w' e
      | Drained n \<Rightarrow> n = exhausted + length rows \<and>
          (\<forall>row \<in> set rows. row_live (registered E) row now \<and> told_full E (sr_request s) (tick w) (tick w') row))"

lemma cascade_tells_again:
  assumes "cascade_tells E s now none_left rows exhausted w1 res w'" and "reads_only E w w1" and "tick w \<le> tick w1"
  shows "cascade_tells E s now none_left rows exhausted w res w'"
  using assms by (auto simp: cascade_tells_def intro: refusal_true_mono slot_given_mono told_full_mono split: cascade_result.splits)

lemma cascade_tells_dropped:
  assumes rest: "cascade_tells E s now none_left (filter (\<lambda>r. row_id r \<noteq> a) rows) (Suc exhausted) w1 res w'"
    and before: "reads_only E w w1" "tick w \<le> tick w1" and keys: "distinct (map row_id rows)"
    and row: "row \<in> set rows" "row_id row = a" "row_live (registered E) row now" "told_full E (sr_request s) (tick w) (tick w1) row"
  shows "cascade_tells E s now none_left rows exhausted w res w'"
proof -
  have other: "r = row \<or> r \<in> set (filter (\<lambda>r. row_id r \<noteq> a) rows)" if "r \<in> set rows" for r
    using that row(1,2) keys by (auto simp: distinct_map dest: inj_onD)
  have "filter (\<lambda>r. row_id r = a) rows = [row]" using keys row(1,2)
    by (induction rows) (auto simp: filter_empty_conv image_iff)
  then have len: "Suc (length (filter (\<lambda>r. row_id r \<noteq> a) rows)) = length rows"
    using sum_length_filter_compl [of "\<lambda>r. row_id r = a" rows] by simp
  have again: "cascade_tells E s now none_left (filter (\<lambda>r. row_id r \<noteq> a) rows) (Suc exhausted) w res w'"
    using rest before by (rule cascade_tells_again)
  have late: "told_full E (sr_request s) (tick w) (tick w') row"
    using row(4) rest by (auto simp: cascade_tells_def intro: told_full_mono)
  show ?thesis
  proof (cases res)
    case (Refused e)
    have "refusal_true E s now none_left rows w w' e"
      using again Refused late other unfolding cascade_tells_def refusal_true_def
      by (simp add: subset_iff) metis
    with again Refused show ?thesis by (simp add: cascade_tells_def)
  next
    case (Drained n)
    with again late other len row(3) show ?thesis by (auto simp: cascade_tells_def)
  qed (use again in \<open>auto simp: cascade_tells_def\<close>)
qed

lemma cascade_true:
  assumes "cascade E s key now none_left remaining ghost exhausted w = (res, w')" and "distinct (map row_id remaining)"
  shows "cascade_tells E s now none_left remaining exhausted w res w'"
  using assms
proof (induction E s key now none_left remaining ghost exhausted w arbitrary: res w' rule: cascade.induct)
  case (1 E s key now none_left remaining ghost exhausted w)
  note run = trans [OF cascade.simps [of E s key now none_left remaining ghost exhausted w, symmetric] "1.prems"(1)]
  obtain cs w1 where cs: "candidates_for E remaining now w = (cs, w1)" by force
  obtain tb w2 where tb: "fastrand_u64 E w1 = (tb, w2)" by force
  have r2: "reads_only E w w2" using cs tb by (meson reads_only_steps reads_only_trans)
  have t2: "tick w1 \<le> tick w2" "tick w \<le> tick w2" using tick_steps(1) [OF cs] tick_steps(2) [OF tb] by auto
  show ?case
  proof (cases "remaining = []")
    case True
    then show ?thesis using run by (auto simp: cascade_tells_def)
  next
    case rem: False
    show ?thesis
    proof (cases "select cs now tb")
      case none: None
      let ?rows = "probed E remaining now w"
      note full = unselected_are_full [OF cs none]
      show ?thesis
      proof (cases "?rows = []")
        case True
        then have "res = Refused none_left" "w' = w2" using run rem cs tb none full(1) by auto
        moreover have "\<not> eligible_with (registered E) now 0 row \<or> \<not> breakers_permits (w_breakers w) (row_id row) now"
          if "row \<in> set remaining" for row using True that by (auto simp: probed_def filter_empty_conv)
        ultimately show ?thesis using t2 by (auto simp: cascade_tells_def refusal_true_def)
      next
        case False
        then have every: "every_candidate_is_full cs now = Some (length ?rows)" using full(1) by simp
        obtain recount w3 where rc: "worth_a_recount E (considered cs now remaining) now ghost w2 = (recount, w3)" by force
        have t3: "tick w2 \<le> tick w3" using tick_steps(5) [OF rc] .
        have r3: "reads_only E w w3" using rc r2 by (meson reads_only_steps reads_only_trans)
        show ?thesis
        proof (cases recount)
          case True
          then have "cascade E s key now none_left remaining True exhausted w3 = (res, w')"
            using run rem cs tb none every rc by simp
          then have "cascade_tells E s now none_left remaining exhausted w3 res w'"
            using "1.IH"(1) [OF rem cs [symmetric] tb [symmetric] none every rc [symmetric] True] "1.prems"(2) by simp
          then show ?thesis by (rule cascade_tells_again [OF _ r3]) (use t2 t3 in simp)
        next
          case again: False
          have "card (set ?rows) = length ?rows"
            using "1.prems"(2) by (intro distinct_card) (simp add: probed_def distinct_map)
          moreover have "told_full E (sr_request s) (tick w) (tick w3) row" if "row \<in> set ?rows" for row
            using full(2) [OF that] t2 t3 by (auto intro: told_full_mono)
          moreover have "set ?rows \<subseteq> set remaining" by (auto simp: probed_def)
          ultimately have "refusal_true E s now none_left remaining w w3 (AtCapacity (sr_provider s) (length ?rows))"
            unfolding refusal_true_def using False by (metis probed_live set_empty)
          then show ?thesis using run rem cs tb none every rc again t2 t3 by (auto simp: cascade_tells_def)
        qed
      qed
    next
      case sel: (Some sel)
      have "s_account sel \<in> c_account ` set cs"
        using select_picks_best_account [OF sel] by (auto simp: best_def least_by_def)
      then have "\<exists>row \<in> set remaining. row_id row = s_account sel"
        using candidates_for_sound [OF cs] by fastforce
      then obtain row where row: "find (\<lambda>r. row_id r = s_account sel) remaining = Some row"
        by (cases "find (\<lambda>r. row_id r = s_account sel) remaining") (auto simp: find_None_iff)
      have in_rows: "row \<in> set remaining" "row_id row = s_account sel" using find_SomeD [OF row] by auto
      have live: "row_live (registered E) row now" using select_sound [OF cs sel row "1.prems"(2)] by simp
      obtain got w3 where cl: "claim_slot E row (sr_request s) w2 = (got, w3)" by force
      have t3: "tick w3 = Suc (tick w2)" using tick_steps(3) [OF cl] .
      have r3: "reads_only E w w3" using cl r2 by (meson reads_only_steps reads_only_trans)
      show ?thesis
      proof (cases got)
        case True
        then have "res = Granted row" "w' = sticky_set E key (s_account sel) w3" using run rem cs tb sel row cl by auto
        moreover have "slot_given E (sr_request s) (tick w2) (tick w3) row" using claim_slot_answer(1) cl True by simp
        ultimately show ?thesis using t2 t3 by (auto simp: cascade_tells_def tick_steps(6) intro: slot_given_mono)
      next
        case False
        have "cascade_tells E s now none_left (filter (\<lambda>r. row_id r \<noteq> s_account sel) remaining) (Suc exhausted) w3 res w'"
          using "1.IH"(2) [OF rem cs [symmetric] tb [symmetric] sel row cl [symmetric]] run rem cs tb sel row cl False
            "1.prems"(2) by (simp add: distinct_map_filter)
        moreover have "told_full E (sr_request s) (tick w) (tick w3) row"
          using claim_slot_answer(2) [of E row "sr_request s" w2 w3] cl False t2 by (auto intro: told_full_mono)
        ultimately show ?thesis using r3 t2 t3 "1.prems"(2) in_rows live by (auto intro: cascade_tells_dropped)
      qed
    qed
  qed
qed

text \<open>The same of a whole search: what Redis gave is what is leased, and a refusal tells the truth.\<close>

definition lease_tells :: "('d::linordered_idom, 'm) env_scheme \<Rightarrow> search \<Rightarrow> int \<Rightarrow> error \<Rightarrow> 'd account_row list \<Rightarrow>
    world \<Rightarrow> error + 'd held_lease \<Rightarrow> world \<Rightarrow> bool" where
  "lease_tells E s now none_left rows w res w' \<longleftrightarrow>
     (case res of
        Inr l \<Rightarrow> slot_given E (sr_request s) (tick w) (tick w') (l_account l)
      | Inl e \<Rightarrow> refusal_true E s now none_left rows w w' e)"

lemma lease_tells_grant:
  assumes "slot_given E (sr_request s) lo hi row" and "tick w \<le> lo" "hi \<le> tick w1" and "grant row rid sticky w1 = (res, w')"
  shows "lease_tells E s now none_left rows w res w'"
  using assms by (auto simp: lease_tells_def grant_def leased_def intro: slot_given_mono)

lemma lease_tells_again:
  assumes "lease_tells E s now none_left rows w1 res w'" and "reads_only E w w1" and "tick w \<le> tick w1"
  shows "lease_tells E s now none_left rows w res w'"
  using assms by (auto simp: lease_tells_def intro: refusal_true_mono slot_given_mono split: sum.splits)

lemma tick_pinned: "try_pinned E rows key now rid w = (r, w') \<Longrightarrow> tick w \<le> tick w'"
  by (auto simp: try_pinned_def candidate_for_def Let_def split: sum.splits option.splits prod.splits if_splits bool.splits
      dest!: tick_steps(3))

lemma pinned_true:
  assumes "try_pinned E rows key now rid w = (Some row, w')"
  shows "slot_given E rid (tick w) (tick w') row"
proof -
  obtain w2 where "claim_slot E row rid w2 = (True, w')" "tick w \<le> tick w2"
    using assms by (auto simp: try_pinned_def candidate_for_def Let_def split: sum.splits option.splits prod.splits if_splits bool.splits)
  then show ?thesis by (blast intro: claim_slot_answer(1) slot_given_mono order_refl)
qed

lemma exhausted_retry_true:
  assumes run: "exhausted_retry E s key now rows (length rows) w1 = (res, w')" and keys: "distinct (map row_id rows)"
    and full: "\<And>row. row \<in> set rows \<Longrightarrow> row_live (registered E) row now \<and> told_full E (sr_request s) (tick w) (tick w1) row"
    and some: "rows \<noteq> []" and before: "tick w \<le> tick w1"
  shows "lease_tells E s now none_left rows w res w'"
proof -
  obtain r w2 where room: "pick_with_redis_room E rows now w1 = (r, w2)" by force
  have t2: "tick w1 \<le> tick w2" using tick_steps(4) [OF room] .
  have "card (set rows) = length rows" using keys by (intro distinct_card) (simp add: distinct_map)
  then have refuse: "refusal_true E s now none_left rows w w3 (AtCapacity (sr_provider s) (length rows))" if "tick w1 \<le> tick w3" for w3
    unfolding refusal_true_def using full some told_full_mono [of E "sr_request s" "tick w" "tick w1", OF _ order_refl that]
    by (intro disjI1 exI [of _ "set rows"]) simp
  show ?thesis
  proof (cases r)
    case None
    then show ?thesis using run room refuse [OF t2] by (auto simp: exhausted_retry_def lease_tells_def)
  next
    case (Some row)
    obtain got w3 where cl: "claim_slot E row (sr_request s) w2 = (got, w3)" by force
    have t3: "tick w3 = Suc (tick w2)" using tick_steps(3) [OF cl] .
    show ?thesis
    proof (cases got)
      case True
      then have "grant row (sr_request s) False (sticky_set E key (row_id row) w3) = (res, w')"
        using run room Some cl by (simp add: exhausted_retry_def)
      moreover have "slot_given E (sr_request s) (tick w2) (tick w3) row" using claim_slot_answer(1) cl True by simp
      ultimately show ?thesis using t2 t3 before tick_steps(6) [of E key "row_id row" w3]
        by (intro lease_tells_grant [of E s "tick w2" "tick w3"]) auto
    next
      case False
      then show ?thesis using run room Some cl refuse [of w3] t2 t3 by (auto simp: exhausted_retry_def lease_tells_def)
    qed
  qed
qed

lemma lease_by_cascade_true:
  assumes run: "lease_by_cascade E s key now none_left rows w = (res, w')" and keys: "distinct (map row_id rows)"
  shows "lease_tells E s now none_left rows w res w'"
proof -
  obtain cres w1 where casc: "cascade E s key now none_left rows False 0 w = (cres, w1)" by force
  note tells = cascade_true [OF casc keys]
  show ?thesis
  proof (cases cres)
    case (Granted row)
    then have "slot_given E (sr_request s) (tick w) (tick w1) row" using tells by (simp add: cascade_tells_def)
    then show ?thesis using run casc Granted by (auto simp: lease_by_cascade_def intro: lease_tells_grant)
  next
    case (Refused e)
    then show ?thesis using run casc tells by (auto simp: lease_by_cascade_def cascade_tells_def lease_tells_def)
  next
    case (Drained n)
    then have n: "n = length rows" "tick w \<le> tick w1"
      and full: "\<And>row. row \<in> set rows \<Longrightarrow> row_live (registered E) row now \<and> told_full E (sr_request s) (tick w) (tick w1) row"
      using tells by (auto simp: cascade_tells_def)
    show ?thesis
    proof (cases "rows = []")
      case True
      then show ?thesis using run casc Drained n by (auto simp: lease_by_cascade_def lease_tells_def refusal_true_def)
    next
      case False
      then have "exhausted_retry E s key now rows (length rows) w1 = (res, w')"
        using run casc Drained n by (simp add: lease_by_cascade_def)
      from exhausted_retry_true [OF this keys full False n(2)] show ?thesis .
    qed
  qed
qed

lemma lease_true:
  assumes found: "repo_candidates E (tick w) (sr_route s) (provider_as_str (sr_provider s)) (sr_principal s) = Inr rows"
    and keys: "distinct (map row_id rows)" and run: "lease E s excluded w = (res, w')"
  shows "lease_tells E s (unix_timestamp (now_ms E (Suc (tick w))))
    (nothing_usable s (reserve_holding_back (of_kind rows (sr_channel s))))
    (filter (\<lambda>r. row_id r \<notin> set excluded) (of_kind rows (sr_channel s))) w res w'"
proof (cases "of_kind rows (sr_channel s) = []")
  case True
  then show ?thesis using run found by (auto simp: lease_def lease_tells_def refusal_true_def)
next
  case False
  let ?now = "unix_timestamp (now_ms E (Suc (tick w)))" and ?rows = "of_kind rows (sr_channel s)"
  let ?key = "redis_key (sr_session s) (sr_route s) (provider_as_str (sr_provider s))"
  let ?open = "filter (\<lambda>r. row_id r \<notin> set excluded) ?rows"
  obtain w1 where clock: "read_clock E (await E w) = (now_ms E (Suc (tick w)), w1)" and t1: "tick w \<le> tick w1"
    by (simp add: read_clock_def await_def)
  have r1: "reads_only E w w1" using reads_only_clock [OF clock] reads_only_await reads_only_trans by blast
  obtain pin w2 where pin: "(if excluded = [] then try_pinned E ?rows ?key ?now (sr_request s) w1 else (None, w1)) = (pin, w2)"
    by force
  have r2: "reads_only E w w2" using pin r1 by (auto split: if_splits dest!: reads_only_pinned intro: reads_only_trans)
  have t2: "tick w1 \<le> tick w2" using pin by (auto split: if_splits dest!: tick_pinned)
  show ?thesis
  proof (cases pin)
    case (Some row)
    then have "slot_given E (sr_request s) (tick w1) (tick w2) row" using pin by (auto split: if_splits dest: pinned_true)
    moreover have "grant row (sr_request s) True w2 = (res, w')"
      using run found False clock pin Some by (simp add: lease_def)
    ultimately show ?thesis using t1 by (auto intro: lease_tells_grant)
  next
    case None
    then have "lease_by_cascade E s ?key ?now (nothing_usable s (reserve_holding_back ?rows)) ?open w2 = (res, w')"
      using run found False clock pin by (simp add: lease_def Let_def)
    from lease_tells_again [OF lease_by_cascade_true [OF this] r2] t1 t2 distinct_of_kind [OF keys] show ?thesis
      by (simp add: distinct_map_filter)
  qed
qed

text \<open>
  C2. A search for a credential ends in one of two ways, whatever Redis answers. It grants a lease on
  a credential of the route that this request has not excluded, of the kind the caller pinned, which
  is schedulable, not cooling, not rate limited and not under its reserve, and whose breaker permits
  a request (when no other request moves the breakers meanwhile); Redis was asked during the search
  for a slot of that credential at that credential's own limit and did not answer that it is full
  (it gave the slot or could not be asked), and the request holds exactly one credential more. Or it
  grants nothing, the request holds no credential more, and the error tells the truth. At capacity
  carries the number of a non-empty set of the open credentials, each of them live and each called
  full by Redis during the search, by refusing a slot at its limit or by counting that many in use.
  Any other error means that every open credential was ineligible, or stopped by its breaker (when
  no other request moves the breakers), or called full; it blames the reserve only when every
  credential of the kind asked for is at or under its own reserve, none of them above the one named, and otherwise
  names the kind the caller pinned, when it pinned one.
\<close>

theorem lease_is_usable_or_says_why:
  fixes E :: "('d::linordered_idom, 'm) env_scheme"
  assumes found: "repo_candidates E (tick w) (sr_route s) (provider_as_str (sr_provider s)) (sr_principal s) = Inr rows"
    and keys: "distinct (map row_id rows)"
    and run: "lease E s excluded w = (res, w')"
  shows "let now = unix_timestamp (now_ms E (Suc (tick w))); wanted = of_kind rows (sr_channel s);
      opn = filter (\<lambda>r. row_id r \<notin> set excluded) wanted in
    case res of
      Inr l \<Rightarrow>
        (let row = l_account l in
         row \<in> set rows \<and> row_id row \<notin> set excluded \<and>
         (\<forall>k. sr_channel s = Some k \<longrightarrow> kind_from_column (row_kind row) = Some k) \<and>
         row_live (registered E) row now \<and>
         (calm E \<longrightarrow> breakers_permits (w_breakers w) (row_id row) now) \<and>
         slot_given E (sr_request s) (tick w) (tick w') row \<and>
         held w' = row_id row # held w)
    | Inl e \<Rightarrow> held w' = held w \<and>
        ((\<exists>F. F \<subseteq> set opn \<and> F \<noteq> {} \<and> e = AtCapacity (sr_provider s) (card F) \<and>
            (\<forall>row \<in> F. row_live (registered E) row now \<and> told_full E (sr_request s) (tick w) (tick w') row))
         \<or> (calm E \<longrightarrow> (\<forall>row \<in> set opn. \<not> eligible_with (registered E) now 0 row \<or>
              \<not> breakers_permits (w_breakers w) (row_id row) now \<or> told_full E (sr_request s) (tick w) (tick w') row)) \<and>
           ((\<exists>pct. e = ReserveHeld (sr_provider s) pct \<and>
               (\<forall>row \<in> set wanted. row_held_by_reserve row \<and> (\<exists>q. row_reserve_pct row = Some q \<and> q \<le> pct)))
            \<or> (\<exists>k. sr_channel s = Some k \<and> e = NoCredentialOfKind (sr_provider s) k)
            \<or> sr_channel s = None \<and> e = NoCredential (sr_provider s)))"
proof (cases res)
  case (Inl e)
  then have "held w' = held w" using lease_sound [OF found run] by (simp add: lease_ok_def reads_only_def same_books_def)
  moreover have "refusal_true E s (unix_timestamp (now_ms E (Suc (tick w))))
      (nothing_usable s (reserve_holding_back (of_kind rows (sr_channel s))))
      (filter (\<lambda>r. row_id r \<notin> set excluded) (of_kind rows (sr_channel s))) w w' e"
    using lease_true [OF found keys run] Inl by (simp add: lease_tells_def)
  ultimately show ?thesis
    using nothing_usable_cases [of s "of_kind rows (sr_channel s)" e]
    unfolding refusal_true_def Inl Let_def by (elim disjE) simp_all
next
  case (Inr l)
  then show ?thesis
    using lease_sound [OF found run] lease_true [OF found keys run] distinct_of_kind [OF keys, of "sr_channel s"]
      set_of_kind [of rows "sr_channel s"]
    by (auto simp: lease_ok_def lease_tells_def usable_def reads_only_def same_books_def distinct_map_filter Let_def)
      (auto simp: of_kind_def)
qed

definition sample_row :: "account_id \<Rightarrow> string \<Rightarrow> int account_row" where
  "sample_row a kind = \<lparr>row_id = a, row_name = ''seat'', row_provider = ''openai'', row_kind = kind,
     credentials_sealed = [], credentials_nonce = [], token_version = 0, token_expires_at = None,
     owner_principal_id = None, proxy_url = None, row_priority = 0, row_max_concurrency = 4,
     row_schedulable = True, row_cooldown_until = None, row_rate_limited_until = None,
     row_window_resets_at = None, row_remaining_pct = None, row_reserve_pct = None, row_last_used_at = 0\<rparr>"

definition sample_env :: "int account_row list \<Rightarrow> int env" where
  "sample_env rows = \<lparr>now_ms = \<lambda>t. 1000 * int t, instant_ms = \<lambda>t. t, others = \<lambda>_ b. b,
     process_seed = \<lambda>_. 1, registered = [], repo_candidates = \<lambda>_ _ _ _. Inr rows,
     sticky_get = \<lambda>_ _. Inr None, slots_in_use = \<lambda>_ _. Inr 0, slots_in_use_many = \<lambda>_ ids. Inr (map (\<lambda>_. 0) ids),
     try_acquire_slot = \<lambda>_ _ _ _. Inr Taken\<rparr>"

definition sample_world :: world where
  "sample_world = \<lparr>tick = 0, w_breakers = breakers_new, rng = 0, pins = [], held = [], store_writes = [],
     refused = [], sends = [], sleeps = []\<rparr>"

definition sample_search :: search where
  "sample_search = \<lparr>sr_route = ''r'', sr_principal = ''p'', sr_provider = OpenAI, sr_session = ''s'',
     sr_request = ''q'', sr_channel = Some OAuth\<rparr>"

lemma sample_row_sel [simp]:
  "row_id (sample_row a k) = a" "row_kind (sample_row a k) = k" "proxy_url (sample_row a k) = None"
  "to_candidate [] (sample_row a k) n 0 = Some \<lparr>c_account = a, c_provider = OpenAI, c_priority = 0,
      max_concurrency = 4, in_flight = n, waiting = 0, schedulable = True, cooldown_until = None,
      rate_limited_until = None, window_resets_at = None, usage_remaining_pct = None, usage_reserve_pct = None,
      last_used_at = 0\<rparr>"
  by (simp_all add: to_candidate_def sample_row_def provider_from_str_def builtin_def u8_of_def u32_of_def
      unix_timestamp_def width_defs)

theorem lease_is_usable_or_says_why_witness:
  "\<exists>l w'. lease (sample_env [sample_row 1 ''api_key'', sample_row 2 ''oauth'', sample_row 3 ''oauth''])
     sample_search [2] sample_world = (Inr l, w') \<and> row_id (l_account l) = 3 \<and> held w' = [3]"
proof -
  let ?E = "sample_env [sample_row 1 ''api_key'', sample_row 2 ''oauth'', sample_row 3 ''oauth'']"
  obtain res w' where run: "lease ?E sample_search [2] sample_world = (res, w')" by force
  have "\<exists>l. res = Inr l"
    using run
    by (auto simp: lease_def lease_by_cascade_def cascade.simps [of _ _ _ _ _ "[_]"] candidates_for_def claim_slot_def
        grant_def leased_def sample_env_def sample_search_def of_kind_def read_clock_def kind_from_column_def
        eligible_with_def is_eligible_def is_live_def held_by_reserve_def Let_def select_def eligible_def
        breakers_permits_def breakers_new_def await_def sample_world_def List.map_filter_simps split: prod.splits)
  then show ?thesis
    using lease_is_usable_or_says_why [OF _ _ run] run
    by (auto simp: sample_env_def sample_search_def sample_world_def Let_def kind_from_column_def)
qed

end
