(* ===== verification/Canonical.thy ===== *)
theory Canonical
  imports Ladder Sticky
begin

text \<open>
  The hub representation of a request (\<^verbatim>\<open>oag-proto/src/canonical.rs\<close>): its blocks, messages and tools,
  the effort levels, the vendor fields that ride along, and what the router and the scheduler read
  off it. A JSON object is its list of members, with one entry for each key; the length of a value's
  serialised text, which a third-party serialiser decides, is the parameter \<open>json_len\<close>. Sums of
  lengths are over texts held in memory and do not reach the range of \<^verbatim>\<open>usize\<close>. A temperature is the bit pattern of its
  \<^verbatim>\<open>f32\<close>, which nothing here computes with.
\<close>

datatype json =
  JNull | JBool bool | JNum string | JStr string | JArr "json list" | JObj "(string \<times> json) list"

datatype role = RoleSystem | RoleUser | RoleAssistant | RoleTool

datatype cache_control = Ephemeral

datatype content_block =
    Text string "cache_control option"
  | Image string string
  | ToolUse string string json
  | ToolResult string tool_result_content bool
  | Thinking string "string option"
and tool_result_content =
    ResultText string
  | ResultBlocks "content_block list"

fun as_text :: "tool_result_content \<Rightarrow> string" where
  "as_text (ResultText s) = s"
| "as_text (ResultBlocks blocks) =
     join_with [CHR 0x0A] (List.map_filter (\<lambda>b. case b of Text t _ \<Rightarrow> Some t | _ \<Rightarrow> None) blocks)"

record message =
  msg_role :: role
  msg_content :: "content_block list"

record tool =
  tool_name :: string
  tool_description :: string
  input_schema :: json
  tool_cache_control :: "cache_control option"

datatype tool_choice = ChoiceAuto | ChoiceRequired | ChoiceNone | ChoiceTool string

datatype response_format = FormatText | FormatJsonObject | FormatJsonSchema string json bool

definition constrains_output :: "response_format \<Rightarrow> bool" where
  "constrains_output f = (case f of FormatText \<Rightarrow> False | _ \<Rightarrow> True)"

subsection \<open>Effort levels\<close>

datatype effort = Off | Low | Medium | High | XHigh | MaxEffort | Ultra

fun effort_rank :: "effort \<Rightarrow> nat" where
  "effort_rank Off = 0"
| "effort_rank Low = 1"
| "effort_rank Medium = 2"
| "effort_rank High = 3"
| "effort_rank XHigh = 4"
| "effort_rank MaxEffort = 5"
| "effort_rank Ultra = 6"

instantiation effort :: linorder
begin

definition less_eq_effort :: "effort \<Rightarrow> effort \<Rightarrow> bool" where
  "a \<le> b \<longleftrightarrow> effort_rank a \<le> effort_rank b"

definition less_effort :: "effort \<Rightarrow> effort \<Rightarrow> bool" where
  "a < b \<longleftrightarrow> effort_rank a < effort_rank b"

instance
proof
  fix a b :: effort
  assume "a \<le> b" "b \<le> a"
  then show "a = b" by (cases a; cases b) (auto simp: less_eq_effort_def)
qed (auto simp: less_eq_effort_def less_effort_def)

end

fun effort_as_str :: "effort \<Rightarrow> string" where
  "effort_as_str Off = ''none''"
| "effort_as_str Low = ''low''"
| "effort_as_str Medium = ''medium''"
| "effort_as_str High = ''high''"
| "effort_as_str XHigh = ''xhigh''"
| "effort_as_str MaxEffort = ''max''"
| "effort_as_str Ultra = ''ultra''"

definition effort_parse :: "string \<Rightarrow> effort option" where
  "effort_parse v =
     (if v = ''none'' \<or> v = ''minimal'' then Some Off
      else if v = ''low'' then Some Low
      else if v = ''medium'' then Some Medium
      else if v = ''high'' then Some High
      else if v = ''xhigh'' then Some XHigh
      else if v = ''max'' then Some MaxEffort
      else if v = ''ultra'' then Some Ultra
      else None)"

fun as_budget :: "effort \<Rightarrow> nat" where
  "as_budget Off = 0"
| "as_budget Low = 4096"
| "as_budget Medium = 8192"
| "as_budget High = 16384"
| "as_budget XHigh = 32768"
| "as_budget MaxEffort = 65536"
| "as_budget Ultra = 65536"

definition from_budget :: "nat \<Rightarrow> effort" where
  "from_budget tokens =
     (if tokens = 0 then Off
      else if 65536 \<le> tokens then MaxEffort
      else if 32768 \<le> tokens then XHigh
      else if 16384 \<le> tokens then High
      else if 8192 \<le> tokens then Medium
      else Low)"

definition listed_efforts :: "reasoning_efforts \<Rightarrow> effort list" where
  "listed_efforts levels = List.map_filter (\<lambda>l. effort_parse (lv_value l)) (re_levels levels)"

definition effort_for_model :: "effort \<Rightarrow> reasoning_efforts option \<Rightarrow> dialect \<Rightarrow> effort" where
  "effort_for_model e levels d =
     (if e \<noteq> Ultra then e
      else case levels of
        None \<Rightarrow> MaxEffort
      | Some ls \<Rightarrow>
          if (d = OpenAIChatCompletions \<or> d = OpenAIResponses) \<and> Ultra \<in> set (listed_efforts ls) then Ultra
          else let rest = filter (\<lambda>l. l \<noteq> Ultra) (listed_efforts ls)
               in if rest = [] then MaxEffort else fold max (tl rest) (hd rest))"

subsection \<open>Vendor fields that ride along\<close>

definition snake_of :: "string \<Rightarrow> string" where
  "snake_of camel = concat (map (\<lambda>c.
     if 65 \<le> (of_char c :: nat) \<and> (of_char c :: nat) \<le> 90 then [CHR ''_'', to_ascii_lower c] else [c]) camel)"

definition member_remove :: "string \<Rightarrow> (string \<times> json) list \<Rightarrow> (string \<times> json) list" where
  "member_remove k m = filter (\<lambda>(k', _). k' \<noteq> k) m"

lemma split_once_shorter: "split_once sep s = Some (a, b) \<Longrightarrow> length b < length s"
  by (auto simp: split_once_Some)

function remove_path :: "json \<Rightarrow> string \<Rightarrow> json" where
  "remove_path v path =
     (case v of
        JObj m \<Rightarrow>
          (case split_once (CHR ''.'') path of
             None \<Rightarrow> JObj (member_remove (snake_of path) (member_remove path m))
           | Some (head, rest) \<Rightarrow>
               JObj (fold (\<lambda>key m. case map_of m key of
                        None \<Rightarrow> m
                      | Some child \<Rightarrow> AList.update key (remove_path child rest) m) [head, snake_of head] m))
      | _ \<Rightarrow> v)"
  by auto
termination
  by (relation "measure (\<lambda>(_, path). length path)") (auto dest: split_once_shorter)

fun prune :: "json \<Rightarrow> json" where
  "prune (JObj m) = JObj (filter (\<lambda>(_, v). v \<noteq> JObj []) (map (\<lambda>(k, v). (k, prune v)) m))"
| "prune v = v"

fun json_merge :: "json \<Rightarrow> json \<Rightarrow> json"
  and merge_members :: "(string \<times> json) list \<Rightarrow> (string \<times> json) list \<Rightarrow> (string \<times> json) list" where
  "json_merge (JObj t) (JObj e) = JObj (merge_members t e)"
| "json_merge t _ = t"
| "merge_members t [] = t"
| "merge_members t ((key, val) # rest) =
     merge_members (case map_of t key of
         Some existing \<Rightarrow> AList.update key (json_merge existing val) t
       | None \<Rightarrow> AList.update key val t) rest"

record passthrough =
  pt_dialect :: dialect
  pt_body :: json

definition capture :: "dialect \<Rightarrow> json \<Rightarrow> string list \<Rightarrow> passthrough option" where
  "capture d body subtracted =
     (let residue = prune (fold (\<lambda>path v. remove_path v path) subtracted body) in
      case residue of
        JObj m \<Rightarrow> if m \<noteq> [] then Some \<lparr>pt_dialect = d, pt_body = residue\<rparr> else None
      | _ \<Rightarrow> None)"

definition merge_into :: "passthrough \<Rightarrow> dialect \<Rightarrow> json \<Rightarrow> json" where
  "merge_into pt d target = (if pt_dialect pt = d then json_merge target (pt_body pt) else target)"

subsection \<open>The request\<close>

record canonical_request =
  cr_model :: string
  cr_system :: "content_block list"
  cr_messages :: "message list"
  cr_tools :: "tool list"
  cr_max_tokens :: nat
  cr_stream :: bool
  cr_temperature :: "nat option"
  thinking_budget :: "nat option"
  thinking_effort :: "effort option"
  cr_client_session :: "string option"
  cr_tool_choice :: "tool_choice option"
  cr_response_format :: "response_format option"
  cr_stop :: "string list"
  previous_response_id :: "string option"
  cr_passthrough :: "passthrough option"

fun carries_image :: "content_block \<Rightarrow> bool" where
  "carries_image (Image _ _) = True"
| "carries_image (ToolResult _ (ResultBlocks blocks) _) = list_ex carries_image blocks"
| "carries_image _ = False"

fun count_block :: "(json \<Rightarrow> nat) \<Rightarrow> content_block \<Rightarrow> nat" where
  "count_block json_len (Text t _) = length t div 4"
| "count_block json_len (Thinking t _) = length t div 4"
| "count_block json_len (ToolResult _ (ResultText t) _) = length t div 4"
| "count_block json_len (ToolResult _ (ResultBlocks blocks) _) = sum_list (map (count_block json_len) blocks)"
| "count_block json_len (ToolUse _ name input) = (length name + json_len input) div 3"
| "count_block json_len (Image _ _) = 1500"

fun block_len :: "(json \<Rightarrow> nat) \<Rightarrow> content_block \<Rightarrow> nat" where
  "block_len json_len (Text t _) = length t"
| "block_len json_len (Thinking t _) = length t"
| "block_len json_len (ToolResult _ (ResultText t) _) = length t"
| "block_len json_len (ToolResult _ (ResultBlocks blocks) _) = sum_list (map (block_len json_len) blocks)"
| "block_len json_len (ToolUse _ name input) = length name + json_len input"
| "block_len json_len (Image _ _) = 1000"

definition message_blocks :: "canonical_request \<Rightarrow> content_block list" where
  "message_blocks r = concat (map msg_content (cr_messages r))"

definition estimated_prompt_tokens :: "(json \<Rightarrow> nat) \<Rightarrow> canonical_request \<Rightarrow> nat" where
  "estimated_prompt_tokens json_len r =
     (let txt = sum_list (map (block_len json_len) (cr_system r @ message_blocks r));
          tls = sum_list (map (\<lambda>t. length (tool_name t) + length (tool_description t)
                  + json_len (input_schema t)) (cr_tools r))
      in (txt + tls) div 4)"

definition req_has_images :: "canonical_request \<Rightarrow> bool" where
  "req_has_images r = list_ex carries_image (message_blocks r)"

definition req_has_code :: "canonical_request \<Rightarrow> bool" where
  "req_has_code r = list_ex (\<lambda>b. case b of
       Text t _ \<Rightarrow> str_contains (replicate 3 (CHR 0x60)) t \<or> str_contains (CHR 0x0A # ''@@ '') t
         \<or> str_contains (CHR 0x0A # ''--- '') t
     | _ \<Rightarrow> False) (cr_system r @ message_blocks r)"

definition signal_of :: "(json \<Rightarrow> nat) \<Rightarrow> canonical_request \<Rightarrow> request_signal" where
  "signal_of json_len r =
     \<lparr>sg_prompt_tokens = estimated_prompt_tokens json_len r, tool_count = length (cr_tools r),
      turn_count = length (cr_messages r), has_images = req_has_images r,
      thinking_requested = ((case thinking_budget r of Some b \<Rightarrow> b > 0 | None \<Rightarrow> False) \<or>
        (case thinking_effort r of Some e \<Rightarrow> as_budget e > 0 | None \<Rightarrow> False)),
      has_code = req_has_code r, explicit_tier = None\<rparr>"

definition thinking_request :: "canonical_request \<Rightarrow> (nat \<times> effort) option" where
  "thinking_request r =
     (case thinking_budget r of
        Some b \<Rightarrow> if b > 0 then Some (b, from_budget b)
          else (case thinking_effort r of
                  Some e \<Rightarrow> if e \<noteq> Off then Some (as_budget e, e) else None | None \<Rightarrow> None)
      | None \<Rightarrow> (case thinking_effort r of
          Some e \<Rightarrow> if e \<noteq> Off then Some (as_budget e, e) else None | None \<Rightarrow> None))"

definition req_for_model :: "canonical_request \<Rightarrow> reasoning_efforts option \<Rightarrow> dialect \<Rightarrow> canonical_request" where
  "req_for_model r levels d =
     (case thinking_effort r of
        None \<Rightarrow> r
      | Some asked \<Rightarrow>
          let sent = effort_for_model asked levels d in
          if sent = asked then r
          else let r' = r\<lparr>thinking_effort := Some sent\<rparr> in
            if thinking_budget r' = Some (as_budget asked) then r'\<lparr>thinking_budget := Some (as_budget sent)\<rparr>
            else r')"

definition count_input_tokens :: "(json \<Rightarrow> nat) \<Rightarrow> canonical_request \<Rightarrow> nat" where
  "count_input_tokens json_len r =
     (let content = sum_list (map (count_block json_len) (cr_system r @ message_blocks r));
          tls = sum_list (map (\<lambda>t. (length (tool_name t) + length (tool_description t)) div 4
                  + json_len (input_schema t) div 3) (cr_tools r));
          framing = 4 * length (cr_messages r) + 8 * length (cr_tools r)
      in content + tls + framing)"

definition cached_text :: "content_block \<Rightarrow> string option" where
  "cached_text b = (case b of Text t (Some Ephemeral) \<Rightarrow> Some t | _ \<Rightarrow> None)"

definition extract_cache_blocks :: "canonical_request \<Rightarrow> string list" where
  "extract_cache_blocks r =
     List.map_filter cached_text (cr_system r) @
     map tool_name (filter (\<lambda>t. tool_cache_control t \<noteq> None) (cr_tools r)) @
     List.map_filter cached_text (message_blocks r)"

subsection \<open>Effort: the properties\<close>

lemma from_as_budget: "from_budget (as_budget e) = (if e = Ultra then MaxEffort else e)"
  by (cases e) (simp_all add: from_budget_def)

lemma effort_as_str_parse: "effort_parse (effort_as_str e) = Some e"
  by (cases e) (simp_all add: effort_parse_def)

lemma fold_max_set: "xs \<noteq> [] \<Longrightarrow> fold max (tl xs) (hd xs :: 'a::linorder) = Max (set xs)"
  by (cases xs) (simp_all add: Max.set_eq_fold [symmetric])

lemma effort_lt_Ultra: "(e :: effort) \<noteq> Ultra \<Longrightarrow> e \<le> MaxEffort"
  by (cases e) (simp_all add: less_eq_effort_def)

text \<open>
  No model is sent a level nobody said it takes: every level but \<open>Ultra\<close> goes as asked; \<open>Ultra\<close>
  goes as itself only through a dialect that states effort as a checked word and to a model whose row
  lists it; otherwise the level sent is not \<open>Ultra\<close>, and for a row that lists another readable level
  it is the highest of those, which is \<open>MaxEffort\<close> whenever the row lists it.
\<close>

theorem effort_for_model_is_listed:
  "(e \<noteq> Ultra \<longrightarrow> effort_for_model e levels d = e) \<and>
   (effort_for_model e levels d = Ultra \<longleftrightarrow> e = Ultra \<and> d \<in> {OpenAIChatCompletions, OpenAIResponses} \<and>
      (\<exists>ls. levels = Some ls \<and> Ultra \<in> set (listed_efforts ls))) \<and>
   (effort_for_model Ultra (Some ls) d \<noteq> Ultra \<longrightarrow> set (listed_efforts ls) - {Ultra} \<noteq> {} \<longrightarrow>
      effort_for_model Ultra (Some ls) d \<in> set (listed_efforts ls) \<and>
      (\<forall>l \<in> set (listed_efforts ls) - {Ultra}. l \<le> effort_for_model Ultra (Some ls) d) \<and>
      (MaxEffort \<in> set (listed_efforts ls) \<longrightarrow> effort_for_model Ultra (Some ls) d = MaxEffort))"
proof -
  define rest where "rest ls = filter (\<lambda>l. l \<noteq> Ultra) (listed_efforts ls)" for ls
  have fm: "effort_for_model Ultra (Some ls) d =
      (if d \<in> {OpenAIChatCompletions, OpenAIResponses} \<and> Ultra \<in> set (listed_efforts ls) then Ultra
       else if rest ls = [] then MaxEffort else Max (set (rest ls)))" for ls
    using fold_max_set [of "rest ls"] by (simp add: effort_for_model_def rest_def Let_def)
  have set_rest: "set (rest ls) = set (listed_efforts ls) - {Ultra}" for ls by (auto simp: rest_def)
  have in_rest: "Max (set (rest ls)) \<in> set (listed_efforts ls) - {Ultra}" if "rest ls \<noteq> []" for ls
    using Max_in [of "set (rest ls)"] that by (simp flip: set_rest)
  have not_ultra: "effort_for_model e levels d = Ultra \<longleftrightarrow> e = Ultra \<and> d \<in> {OpenAIChatCompletions, OpenAIResponses} \<and>
      (\<exists>ls. levels = Some ls \<and> Ultra \<in> set (listed_efforts ls))"
    using in_rest by (cases "e = Ultra"; cases levels) (auto simp: fm, auto simp: effort_for_model_def)
  have best: "effort_for_model Ultra (Some ls) d \<in> set (listed_efforts ls) \<and>
      (\<forall>l \<in> set (listed_efforts ls) - {Ultra}. l \<le> effort_for_model Ultra (Some ls) d)"
    if "effort_for_model Ultra (Some ls) d \<noteq> Ultra" "set (listed_efforts ls) - {Ultra} \<noteq> {}"
  proof -
    have ne: "rest ls \<noteq> []" using that(2) by (auto simp flip: set_rest)
    with that(1) have "effort_for_model Ultra (Some ls) d = Max (set (rest ls))"
      by (auto simp: fm split: if_splits)
    with in_rest [OF ne] show ?thesis by (auto simp flip: set_rest) (simp add: rest_def)
  qed
  have "effort_for_model Ultra (Some ls) d = MaxEffort"
    if "effort_for_model Ultra (Some ls) d \<noteq> Ultra" "MaxEffort \<in> set (listed_efforts ls)"
  proof -
    have "set (listed_efforts ls) - {Ultra} \<noteq> {}" using that(2) by auto
    with best that have "MaxEffort \<le> effort_for_model Ultra (Some ls) d" by simp
    with effort_lt_Ultra [OF that(1)] show ?thesis by (rule order.antisym)
  qed
  moreover have "e \<noteq> Ultra \<longrightarrow> effort_for_model e levels d = e" by (simp add: effort_for_model_def)
  ultimately show ?thesis using not_ultra best by blast
qed

theorem effort_for_model_is_listed_witness:
  "effort_for_model Ultra (efforts_new [''low'', ''max'', ''ultra''] ''low'') AnthropicMessages = MaxEffort"
proof -
  obtain ls where ls: "efforts_new [''low'', ''max'', ''ultra''] ''low'' = Some ls"
      "listed_efforts ls = [Low, MaxEffort, Ultra]"
    by (simp add: efforts_new_def LEVELS_def listed_efforts_def effort_parse_def List.map_filter_simps)
  have "effort_for_model Ultra (Some ls) AnthropicMessages \<noteq> Ultra"
    using effort_for_model_is_listed [of Ultra "Some ls" AnthropicMessages] by simp
  with effort_for_model_is_listed [of Ultra "Some ls" AnthropicMessages ls]
  show ?thesis by (simp add: ls)
qed

text \<open>
  The two spellings of a request for thinking agree everywhere: the router classifies a request
  as wanting to think exactly when a renderer finds something to ask for; what it asks for is never
  a zero budget or the level that means off; and converting a level to its budget and back loses
  nothing but the difference between the top two levels, which share a budget.
\<close>

theorem thinking_spellings_agree:
  "(thinking_requested (signal_of json_len r) \<longleftrightarrow> thinking_request r \<noteq> None) \<and>
   (case thinking_request r of None \<Rightarrow> True | Some (b, e) \<Rightarrow> 0 < b \<and> e \<noteq> Off) \<and>
   from_budget (as_budget e) = (if e = Ultra then MaxEffort else e) \<and>
   effort_parse (effort_as_str e) = Some e"
proof -
  have pos: "0 < as_budget x \<longleftrightarrow> x \<noteq> Off" for x by (cases x) simp_all
  have lvl: "0 < b \<Longrightarrow> from_budget b \<noteq> Off" for b by (simp add: from_budget_def)
  show ?thesis
    by (auto simp: signal_of_def thinking_request_def pos lvl from_as_budget effort_as_str_parse
        split: option.splits)
qed

subsection \<open>Session affinity\<close>

lemma map_filter_append: "List.map_filter f (xs @ ys) = List.map_filter f xs @ List.map_filter f ys"
  by (simp add: List.map_filter_def)

text \<open>
  Affinity survives the conversation: however many turns are added, a request keeps the cacheable
  blocks of its beginning as a prefix of its own; and when the added turns mark nothing cacheable,
  the session key of the request is the same, so it goes back to the credential that has the prefix
  cached.
\<close>

theorem affinity_survives_new_turns:
  fixes r :: canonical_request
  defines "grown turns \<equiv> r\<lparr>cr_messages := cr_messages r @ turns\<rparr>"
  shows "(\<exists>more. extract_cache_blocks (grown turns) = extract_cache_blocks r @ more) \<and>
    ((\<forall>m \<in> set turns. \<forall>b \<in> set (msg_content m). cached_text b = None) \<longrightarrow>
      resolve_session sha pid (cr_client_session (grown turns)) (extract_cache_blocks (grown turns)) key model =
      resolve_session sha pid (cr_client_session r) (extract_cache_blocks r) key model)"
proof -
  have ex: "extract_cache_blocks (grown turns) =
      extract_cache_blocks r @ List.map_filter cached_text (concat (map msg_content turns))"
    by (simp add: extract_cache_blocks_def grown_def message_blocks_def map_filter_append)
  moreover have "List.map_filter cached_text (concat (map msg_content turns)) = []"
    if "\<forall>m \<in> set turns. \<forall>b \<in> set (msg_content m). cached_text b = None"
    using that by (auto simp: map_filter_empty)
  ultimately show ?thesis by (auto simp: grown_def)
qed

theorem affinity_survives_new_turns_witness:
  "\<exists>r. extract_cache_blocks r = [''stable''] \<and>
    resolve_session (\<lambda>_. replicate 32 (CHR ''h'')) ''p'' (cr_client_session r)
      (extract_cache_blocks (r\<lparr>cr_messages := cr_messages r @
         [\<lparr>msg_role = RoleUser, msg_content = [Text ''hi'' None]\<rparr>]\<rparr>)) ''k'' ''m'' =
    resolve_session (\<lambda>_. replicate 32 (CHR ''h'')) ''p'' (cr_client_session r) (extract_cache_blocks r) ''k'' ''m''"
proof -
  define r where "r = \<lparr>cr_model = ''m'', cr_system = [Text ''stable'' (Some Ephemeral)], cr_messages = [],
    cr_tools = [], cr_max_tokens = 10, cr_stream = False, cr_temperature = None, thinking_budget = None,
    thinking_effort = None, cr_client_session = None, cr_tool_choice = None, cr_response_format = None,
    cr_stop = [], previous_response_id = None, cr_passthrough = None\<rparr>"
  have "extract_cache_blocks r = [''stable'']"
    by (simp add: r_def extract_cache_blocks_def message_blocks_def cached_text_def List.map_filter_simps)
  then show ?thesis
    using affinity_survives_new_turns [of r "[\<lparr>msg_role = RoleUser, msg_content = [Text ''hi'' None]\<rparr>]"
        "\<lambda>_. replicate 32 (CHR ''h'')" "''p''" "''k''" "''m''"]
    by (intro exI [of _ r]) (simp add: cached_text_def)
qed

subsection \<open>Vendor fields: the properties\<close>

fun get_path :: "json \<Rightarrow> string list \<Rightarrow> json option" where
  "get_path v [] = Some v"
| "get_path (JObj m) (k # ks) = Option.bind (map_of m k) (\<lambda>v. get_path v ks)"
| "get_path _ (k # ks) = None"

text \<open>A path that leads through objects of a value to a member it does not have.\<close>

fun free_path :: "json \<Rightarrow> string list \<Rightarrow> bool" where
  "free_path (JObj m) (k # ks) = (case map_of m k of None \<Rightarrow> True | Some v \<Rightarrow> free_path v ks)"
| "free_path _ _ = False"

definition is_object :: "json \<Rightarrow> bool" where
  "is_object v = (case v of JObj _ \<Rightarrow> True | _ \<Rightarrow> False)"

fun json_wf :: "json \<Rightarrow> bool" where
  "json_wf (JObj m) = (distinct (map fst m) \<and> (\<forall>v \<in> set (map snd m). json_wf v))"
| "json_wf (JArr vs) = (\<forall>v \<in> set vs. json_wf v)"
| "json_wf _ = True"

lemma map_of_merge_members:
  "distinct (map fst e) \<Longrightarrow> map_of (merge_members t e) k =
     (case map_of t k of
        Some x \<Rightarrow> (case map_of e k of Some v \<Rightarrow> Some (json_merge x v) | None \<Rightarrow> Some x)
      | None \<Rightarrow> map_of e k)"
proof (induction e arbitrary: t)
  case (Cons kv e)
  obtain key v where kv: "kv = (key, v)" by force
  have "map_of e key = None" using Cons.prems by (auto simp: kv map_of_eq_None_iff)
  with Cons show ?case by (auto simp: kv split: option.splits)
qed (simp split: option.splits)

lemma merge_keeps_target:
  "json_wf e \<Longrightarrow> get_path t p = Some v \<Longrightarrow> \<not> is_object v \<Longrightarrow> get_path (json_merge t e) p = Some v"
proof (induction p arbitrary: t e)
  case Nil
  then show ?case by (cases t; cases e) (auto simp: is_object_def)
next
  case (Cons k ks)
  obtain m x where m: "t = JObj m" "map_of m k = Some x" "get_path x ks = Some v"
    using Cons.prems(2) by (cases t) (auto simp: bind_eq_Some_conv)
  show ?case
  proof (cases e)
    case (JObj em)
    with Cons.prems(1) have d: "distinct (map fst em)" by simp
    show ?thesis
    proof (cases "map_of em k")
      case None
      with m JObj show ?thesis by (simp add: map_of_merge_members [OF d])
    next
      case (Some ev)
      then have "json_wf ev" using Cons.prems(1) JObj by (force dest: map_of_SomeD)
      with Cons.IH [OF _ m(3) Cons.prems(3)] Some m JObj show ?thesis
        by (simp add: map_of_merge_members [OF d])
    qed
  qed (use m in auto)
qed

lemma merge_adds_free:
  "json_wf e \<Longrightarrow> get_path e p = Some v \<Longrightarrow> free_path t p \<Longrightarrow> get_path (json_merge t e) p = Some v"
proof (induction p arbitrary: t e)
  case Nil
  then show ?case by (cases t) auto
next
  case (Cons k ks)
  obtain em ev where e: "e = JObj em" "map_of em k = Some ev" "get_path ev ks = Some v"
    using Cons.prems(2) by (cases e) (auto simp: bind_eq_Some_conv)
  obtain m where t: "t = JObj m" using Cons.prems(3) by (cases t) auto
  have d: "distinct (map fst em)" and wf: "json_wf ev"
    using Cons.prems(1) e by (auto dest: map_of_SomeD)
  show ?case
    using Cons.IH [OF wf e(3)] Cons.prems(3) e t
    by (cases "map_of m k") (auto simp: map_of_merge_members [OF d])
qed

text \<open>Whether a dotted path, in either spelling of each segment, names a prefix of a list of keys.\<close>

function path_hits :: "string \<Rightarrow> string list \<Rightarrow> bool" where
  "path_hits path [] = False"
| "path_hits path (k # ks) =
     (case split_once (CHR ''.'') path of
        None \<Rightarrow> k = path \<or> k = snake_of path
      | Some (head, rest) \<Rightarrow> (k = head \<or> k = snake_of head) \<and> path_hits rest ks)"
  by pat_completeness auto
termination by (relation "measure (\<lambda>(_, ks). length ks)") auto

lemma map_of_member_remove: "map_of (member_remove k m) k' = (if k' = k then None else map_of m k')"
  by (induction m) (auto simp: member_remove_def)

definition descend :: "string \<Rightarrow> string \<Rightarrow> (string \<times> json) list \<Rightarrow> (string \<times> json) list" where
  "descend rest key m =
     (case map_of m key of None \<Rightarrow> m | Some child \<Rightarrow> AList.update key (remove_path child rest) m)"

lemma map_of_descend: "map_of (descend rest key m) k =
    (if k = key then map_option (\<lambda>c. remove_path c rest) (map_of m k) else map_of m k)"
  by (auto simp: descend_def split: option.splits)

lemma remove_path_obj:
  "remove_path (JObj m) path = JObj (case split_once (CHR ''.'') path of
     None \<Rightarrow> member_remove (snake_of path) (member_remove path m)
   | Some (head, rest) \<Rightarrow> descend rest (snake_of head) (descend rest head m))"
  by (subst remove_path.simps) (auto simp: descend_def split: option.splits)

lemma remove_path_other: "\<not> is_object v \<Longrightarrow> remove_path v path = v"
  by (subst remove_path.simps) (auto simp: is_object_def split: json.splits)

declare remove_path.simps [simp del]

lemma remove_path_keeps:
  "get_path v p = Some x \<Longrightarrow> \<not> is_object x \<Longrightarrow> \<not> path_hits path p \<Longrightarrow> get_path (remove_path v path) p = Some x"
proof (induction p arbitrary: v path)
  case Nil
  then show ?case by (simp add: remove_path_other)
next
  case (Cons k ks)
  obtain m y where m: "v = JObj m" "map_of m k = Some y" "get_path y ks = Some x"
    using Cons.prems(1) by (cases v) (auto simp: bind_eq_Some_conv)
  show ?case
  proof (cases "split_once (CHR ''.'') path")
    case None
    with Cons.prems(3) m show ?thesis by (simp add: remove_path_obj map_of_member_remove)
  next
    case (Some hr)
    obtain head rest where hr: "hr = (head, rest)" by force
    have again: "get_path (remove_path z rest) ks = Some x"
      if "k = head \<or> k = snake_of head" "get_path z ks = Some x" for z
      using Cons.IH [OF that(2) Cons.prems(2)] that(1) Cons.prems(3) by (simp add: Some hr)
    show ?thesis
      using m again [OF _ m(3)] again [of "remove_path y rest"]
      by (auto simp: remove_path_obj Some hr map_of_descend)
  qed
qed

lemma map_of_map_snd: "map_of (map (\<lambda>(k, v). (k, f v)) m) k = map_option f (map_of m k)"
  by (induction m) auto

lemma prune_keeps:
  "get_path v p = Some x \<Longrightarrow> \<not> is_object x \<Longrightarrow> get_path (prune v) p = Some x"
proof (induction p arbitrary: v)
  case Nil
  then show ?case by (cases v) (auto simp: is_object_def)
next
  case (Cons k ks)
  obtain m y where m: "v = JObj m" "map_of m k = Some y" "get_path y ks = Some x"
    using Cons.prems(1) by (cases v) (auto simp: bind_eq_Some_conv)
  have y: "get_path (prune y) ks = Some x" using Cons.IH [OF m(3) Cons.prems(2)] .
  then have "prune y \<noteq> JObj []" using Cons.prems(2) by (cases ks) (auto simp: is_object_def)
  then have "map_of (filter (\<lambda>(_, v). v \<noteq> JObj []) (map (\<lambda>(k, v). (k, prune v)) m)) k = Some (prune y)"
    using m(2) by (intro map_of_filter_keep) (simp_all add: map_of_map_snd)
  with y m(1) show ?case by simp
qed

lemma update_values: "set (map snd (AList.update k v m)) \<subseteq> insert v (set (map snd m))"
  by (induction m) auto

lemma wf_update: "json_wf (JObj m) \<Longrightarrow> json_wf v \<Longrightarrow> json_wf (JObj (AList.update k v m))"
  using update_values [of k v m] by (simp only: json_wf.simps distinct_update) blast

lemma wf_member: "json_wf (JObj m) \<Longrightarrow> map_of m k = Some v \<Longrightarrow> json_wf v"
  by (auto dest: map_of_SomeD)

lemma wf_filter: "json_wf (JObj m) \<Longrightarrow> json_wf (JObj (filter P m))"
  by (auto simp: distinct_map_filter)

lemma wf_descend:
  "json_wf (JObj m) \<Longrightarrow> (\<And>v. json_wf v \<Longrightarrow> json_wf (remove_path v rest)) \<Longrightarrow> json_wf (JObj (descend rest k m))"
  unfolding descend_def by (cases "map_of m k") (simp_all only: option.simps wf_update wf_member)

lemma wf_remove_path: "json_wf v \<Longrightarrow> json_wf (remove_path v path)"
proof (induction path arbitrary: v rule: measure_induct_rule [of length])
  case (less path)
  show ?case
  proof (cases v)
    case (JObj m)
    show ?thesis
    proof (cases "split_once (CHR ''.'') path")
      case None
      with less.prems JObj show ?thesis
        by (simp only: remove_path_obj option.simps member_remove_def wf_filter)
    next
      case (Some hr)
      then obtain head rest where hr: "split_once (CHR ''.'') path = Some (head, rest)" by (cases hr) auto
      from less.IH [OF split_once_shorter [OF hr]] less.prems JObj show ?thesis
        by (simp only: remove_path_obj hr option.simps prod.case wf_descend)
    qed
  qed (use less.prems in \<open>simp_all add: remove_path_other is_object_def\<close>)
qed

lemma wf_prune: "json_wf v \<Longrightarrow> json_wf (prune v)"
proof (induction v rule: prune.induct)
  case (1 m)
  have "json_wf (JObj (map (\<lambda>(k, v). (k, prune v)) m))"
    using 1 by (auto simp: comp_def case_prod_unfold)
  then show ?case unfolding prune.simps by (rule wf_filter)
qed simp_all

text \<open>
  A vendor field a client sends survives the trip through the hub to an upstream of its own
  dialect: any value other than an object, at a path that no subtracted path names in either
  spelling and that the rendered request leaves free, is in the request sent, at that path. The
  merge never overwrites a value the renderer wrote, and a request for another dialect is untouched.
\<close>

theorem vendor_fields_survive:
  assumes "json_wf body" and "get_path body p = Some v" and "\<not> is_object v"
    and "\<forall>path \<in> set subtracted. \<not> path_hits path p" and "free_path target p"
  shows "\<exists>pt. capture d body subtracted = Some pt \<and> get_path (merge_into pt d target) p = Some v \<and>
    (\<forall>q w. get_path target q = Some w \<longrightarrow> \<not> is_object w \<longrightarrow> get_path (merge_into pt d target) q = Some w) \<and>
    (\<forall>d'. d' \<noteq> d \<longrightarrow> merge_into pt d' target = target)"
proof -
  define left where "left = fold (\<lambda>path v. remove_path v path) subtracted body"
  have "json_wf left \<and> get_path left p = Some v"
    unfolding left_def using assms(1,2,4)
    by (induction subtracted arbitrary: body) (simp_all add: wf_remove_path remove_path_keeps assms(3))
  then have res: "json_wf (prune left)" "get_path (prune left) p = Some v"
    by (simp_all add: wf_prune prune_keeps assms(3))
  moreover have "p \<noteq> []" using assms(5) by (cases target) auto
  ultimately obtain m where "prune left = JObj m" "m \<noteq> []"
    by (cases p; cases "prune left"; cases "prune left = JObj []") auto
  then have "capture d body subtracted = Some \<lparr>pt_dialect = d, pt_body = prune left\<rparr>"
    by (simp add: capture_def left_def Let_def)
  with res show ?thesis
    using merge_adds_free [OF res assms(5)] merge_keeps_target [OF res(1)] by (auto simp: merge_into_def)
qed

theorem vendor_fields_survive_witness:
  "\<exists>pt. capture GeminiGenerateContent
      (JObj [(''generationConfig'', JObj [(''max_output_tokens'', JNum ''9''), (''audio'', JStr ''x'')])])
      [''generationConfig.maxOutputTokens''] = Some pt \<and>
    get_path (merge_into pt GeminiGenerateContent (JObj [(''generationConfig'', JObj [(''temperature'', JNum ''1'')])]))
      [''generationConfig'', ''audio''] = Some (JStr ''x'')"
proof -
  have "split_once (CHR ''.'') ''generationConfig.maxOutputTokens'' = Some (''generationConfig'', ''maxOutputTokens'')"
    "split_once (CHR ''.'') ''maxOutputTokens'' = None"
    by simp_all
  then have "\<not> path_hits ''generationConfig.maxOutputTokens'' [''generationConfig'', ''audio'']"
    by (simp add: snake_of_def to_ascii_lower_def)
  then show ?thesis
    using vendor_fields_survive [of
        "JObj [(''generationConfig'', JObj [(''max_output_tokens'', JNum ''9''), (''audio'', JStr ''x'')])]"
        "[''generationConfig'', ''audio'']" "JStr ''x''" "[''generationConfig.maxOutputTokens'']"
        "JObj [(''generationConfig'', JObj [(''temperature'', JNum ''1'')])]" GeminiGenerateContent]
    by (auto simp: is_object_def)
qed

text \<open>
  An object the client itself sent empty is dropped, though nothing was subtracted from it: the
  pruning does not tell it from an envelope that subtraction emptied.
\<close>

theorem client_empty_object_is_dropped:
  "capture GeminiGenerateContent (JObj [(''vendorFeature'', JObj [])]) [] = None"
  by (simp add: capture_def)

end
