(* ===== verification/Tool_Ids.thy ===== *)
theory Tool_Ids
  imports Canonical "HOL-Library.Word"
begin

text \<open>
  Tool-call ids as an upstream with a pattern for them must see them (\<^verbatim>\<open>ToolUseIds\<close> of
  \<^verbatim>\<open>oag-proto/src/converse.rs\<close>): an id outside the pattern is respelled, with a salted 64-bit FNV-1a
  hash when the plain respelling is too long, empty or taken. The hash works on 64-bit words, whose
  multiplication wraps as \<^verbatim>\<open>wrapping_mul\<close> does. The set of taken spellings is a list without repeats.
\<close>

unbundle bit_operations_syntax

definition TOOL_USE_ID_MAX :: nat where "TOOL_USE_ID_MAX = 64"

definition is_ascii_alphanumeric :: "char \<Rightarrow> bool" where
  "is_ascii_alphanumeric c =
     (let n = of_char c :: nat in (48 \<le> n \<and> n \<le> 57) \<or> (65 \<le> n \<and> n \<le> 90) \<or> (97 \<le> n \<and> n \<le> 122))"

definition tool_use_id_byte :: "char \<Rightarrow> bool" where
  "tool_use_id_byte b = (is_ascii_alphanumeric b \<or> b \<in> {CHR ''_'', CHR ''.'', CHR '':'', CHR ''-''})"

definition anthropic_id_byte :: "char \<Rightarrow> bool" where
  "anthropic_id_byte b = (is_ascii_alphanumeric b \<or> b \<in> {CHR ''_'', CHR ''-''})"

definition fnv_step :: "64 word \<Rightarrow> char \<Rightarrow> 64 word" where
  "fnv_step hash b = (hash XOR of_nat (of_char b)) * 1099511628211"

definition fnv1a :: "bytes \<Rightarrow> nat \<Rightarrow> 64 word" where
  "fnv1a bs salt = foldl fnv_step 14695981039346656037 (bs @ le_bytes salt)"

definition hex16 :: "64 word \<Rightarrow> string" where
  "hex16 w = hex (rev (le_bytes (unat w)))"

definition salted :: "string \<Rightarrow> string \<Rightarrow> nat \<Rightarrow> string" where
  "salted stem tid salt = stem @ ''_'' @ hex16 (fnv1a tid salt)"

definition respell_tool_use_id :: "string \<Rightarrow> string list \<Rightarrow> (char \<Rightarrow> bool) \<Rightarrow> string" where
  "respell_tool_use_id tid taken ok =
     (let plain = map (\<lambda>b. if ok b then b else CHR ''_'') tid in
      if 1 \<le> length plain \<and> length plain \<le> TOOL_USE_ID_MAX \<and> plain \<notin> set taken then plain
      else let stem = take (min (length plain) (TOOL_USE_ID_MAX - 17)) plain in
        case find (\<lambda>candidate. candidate \<notin> set taken) (map (salted stem tid) [0..<Suc (length taken)]) of
          Some candidate \<Rightarrow> candidate
        | None \<Rightarrow> tid)"

record tool_use_ids =
  id_to_wire :: "(string \<times> string) list"
  id_from_wire :: "(string \<times> string) list"

definition block_id :: "content_block \<Rightarrow> string option" where
  "block_id b = (case b of ToolUse tid _ _ \<Rightarrow> Some tid | ToolResult tid _ _ \<Rightarrow> Some tid | _ \<Rightarrow> None)"

definition history_ids :: "canonical_request \<Rightarrow> string list" where
  "history_ids r = fold (\<lambda>tid ids. if tid \<in> set ids then ids else ids @ [tid])
     (List.map_filter block_id (message_blocks r)) []"

definition legal_id :: "(char \<Rightarrow> bool) \<Rightarrow> string \<Rightarrow> bool" where
  "legal_id ok tid = (1 \<le> length tid \<and> length tid \<le> TOOL_USE_ID_MAX \<and> list_all ok tid)"

definition respell_one :: "(char \<Rightarrow> bool) \<Rightarrow> string \<Rightarrow> string list \<times> tool_use_ids \<Rightarrow> string list \<times> tool_use_ids" where
  "respell_one ok tid = (\<lambda>(taken, m).
     let wire = respell_tool_use_id tid taken ok in
     (List.insert wire taken,
      \<lparr>id_to_wire = AList.update tid wire (id_to_wire m), id_from_wire = AList.update wire tid (id_from_wire m)\<rparr>))"

definition ids_from_request_by :: "canonical_request \<Rightarrow> (char \<Rightarrow> bool) \<Rightarrow> tool_use_ids" where
  "ids_from_request_by r ok =
     (let ids = history_ids r; taken = filter (legal_id ok) ids in
      snd (fold (respell_one ok) (filter (\<lambda>tid. \<not> legal_id ok tid) ids)
        (taken, \<lparr>id_to_wire = [], id_from_wire = []\<rparr>)))"

definition ids_from_request :: "canonical_request \<Rightarrow> tool_use_ids" where
  "ids_from_request r = ids_from_request_by r tool_use_id_byte"

definition ids_for_anthropic :: "canonical_request \<Rightarrow> tool_use_ids" where
  "ids_for_anthropic r = ids_from_request_by r anthropic_id_byte"

definition id_wire :: "tool_use_ids \<Rightarrow> string \<Rightarrow> string" where
  "id_wire m tid = (case map_of (id_to_wire m) tid of Some w \<Rightarrow> w | None \<Rightarrow> tid)"

definition id_original :: "tool_use_ids \<Rightarrow> string \<Rightarrow> string" where
  "id_original m wire = (case map_of (id_from_wire m) wire of Some tid \<Rightarrow> tid | None \<Rightarrow> wire)"

subsection \<open>Salts spread the hash\<close>

lemma fnv_mul_inj: "a * 1099511628211 = b * (1099511628211 :: 64 word) \<Longrightarrow> a = b"
proof -
  assume eq: "a * 1099511628211 = b * (1099511628211 :: 64 word)"
  have inv: "(1099511628211 :: 64 word) * 14886173955864302971 = 1" by simp
  have "a = a * (1099511628211 * 14886173955864302971)" by (simp only: inv mult_1_right)
  also have "\<dots> = b * (1099511628211 * 14886173955864302971)" by (simp only: mult.assoc [symmetric] eq)
  finally show "a = b" by (simp only: inv mult_1_right)
qed

lemma xor_cancel: "(h :: 64 word) XOR a = h XOR b \<Longrightarrow> a = b"
  by (auto simp: bit_eq_iff bit_xor_iff)

lemma fnv_step_inj: "fnv_step h b = fnv_step h' b \<Longrightarrow> h = h'"
  unfolding fnv_step_def by (metis fnv_mul_inj xor.commute xor_cancel)

lemma fnv_fold_inj: "foldl fnv_step h bs = foldl fnv_step h' bs \<Longrightarrow> h = h'"
  by (induction bs arbitrary: h h') (auto dest: fnv_step_inj)

lemma fnv_byte_inj:
  assumes "fnv_step h b = fnv_step h b'"
  shows "b = b'"
proof -
  have "(of_nat (of_char b) :: 64 word) = of_nat (of_char b')"
    using assms unfolding fnv_step_def by (metis fnv_mul_inj xor_cancel)
  then have "unat (of_nat (of_char b) :: 64 word) = unat (of_nat (of_char b') :: 64 word)" by simp
  moreover have "(of_char c :: nat) < 256" for c :: char by simp
  then have "(of_char c :: nat) < 2 ^ 64" for c :: char by (rule order.strict_trans2) simp
  ultimately have "(of_char b :: nat) = of_char b'"
    by (simp add: unsigned_of_nat take_bit_nat_eq_self)
  then show ?thesis by simp
qed

definition zero_tail :: bytes where
  "zero_tail = replicate 7 (char_of (0 :: nat))"

lemma le_bytes_small:
  assumes "n < 256"
  shows "le_bytes n = char_of n # zero_tail"
proof (rule nth_equalityI)
  show "length (le_bytes n) = length (char_of n # zero_tail)" by (simp add: zero_tail_def)
  fix i
  assume i: "i < length (le_bytes n)"
  show "le_bytes n ! i = (char_of n # zero_tail) ! i"
  proof (cases i)
    case 0
    with assms show ?thesis by (simp add: le_bytes_def)
  next
    case (Suc k)
    have "n < 256 ^ Suc k" using assms by (rule order.strict_trans2) (simp add: one_le_power)
    with Suc i show ?thesis by (simp add: le_bytes_def zero_tail_def del: upt_Suc)
  qed
qed

lemma fnv1a_small: "n < 256 \<Longrightarrow>
    fnv1a bs n = foldl fnv_step (fnv_step (foldl fnv_step 14695981039346656037 bs) (char_of n)) zero_tail"
  by (simp only: fnv1a_def le_bytes_small foldl_append foldl_Cons)

lemma fnv1a_salt_inj:
  assumes "s < 256" "t < 256" "fnv1a bs s = fnv1a bs t"
  shows "s = t"
proof -
  have "(char_of s :: char) = char_of t"
    by (rule fnv_byte_inj, rule fnv_fold_inj, rule assms(3) [unfolded fnv1a_small [OF assms(1)] fnv1a_small [OF assms(2)]])
  then have "(of_char (char_of s :: char) :: nat) = of_char (char_of t :: char)" by simp
  with assms(1,2) show ?thesis by simp
qed

lemma hex16_inj: "hex16 v = hex16 w \<Longrightarrow> v = w"
proof -
  assume "hex16 v = hex16 w"
  then have "le_bytes (unat v) = le_bytes (unat w)" unfolding hex16_def using hex_inj by blast
  moreover have "unat x < 2 ^ 64" for x :: "64 word" using unsigned_less [of x] by simp
  ultimately have "unat v = unat w" by (intro le_bytes_inj)
  then show "v = w" by (rule unsigned_word_eqI)
qed

lemma salted_inj: "s < 256 \<Longrightarrow> t < 256 \<Longrightarrow> salted stem tid s = salted stem tid t \<Longrightarrow> s = t"
  unfolding salted_def using fnv1a_salt_inj hex16_inj by (metis append_same_eq same_append_eq)

subsection \<open>What a pattern must allow\<close>

text \<open>
  The respelling relies on two things of the pattern an upstream enforces: it takes the underscore
  and the digits of a hash.
\<close>

locale id_pattern =
  fixes ok :: "char \<Rightarrow> bool"
  assumes ok_underscore: "ok (CHR ''_'')"
    and ok_hex: "d < 16 \<Longrightarrow> ok (hex_digit d)"
begin

lemma ok_hex_bytes: "list_all ok (hex bs)"
proof -
  have "(of_char b :: nat) div 16 < 16" for b :: char by (simp add: div_less_iff_less_mult)
  then show ?thesis by (auto simp: hex_def list_all_iff ok_hex)
qed

lemma length_hex: "length (hex bs) = 2 * length bs"
  by (induction bs) (simp_all add: hex_def)

lemma salted_legal: "list_all ok stem \<Longrightarrow> length stem \<le> 47 \<Longrightarrow> legal_id ok (salted stem tid n)"
  by (simp add: legal_id_def salted_def hex16_def ok_hex_bytes length_hex TOOL_USE_ID_MAX_def ok_underscore)

lemma free_salt:
  assumes "length taken \<le> 255"
  shows "\<exists>candidate. find (\<lambda>c. c \<notin> set taken) (map (salted stem tid) [0..<Suc (length taken)]) = Some candidate"
proof (rule ccontr)
  let ?cs = "map (salted stem tid) [0..<Suc (length taken)]"
  assume "\<nexists>candidate. find (\<lambda>c. c \<notin> set taken) ?cs = Some candidate"
  then have sub: "set ?cs \<subseteq> set taken" by (auto simp: find_None_iff simp flip: not_None_eq)
  have "inj_on (salted stem tid) {0..<Suc (length taken)}"
    using assms salted_inj by (auto simp: inj_on_def)
  then have "card (salted stem tid ` {0..<Suc (length taken)}) = Suc (length taken)"
    by (simp only: card_image card_atLeastLessThan diff_zero)
  then have "card (set ?cs) = Suc (length taken)" by (simp only: set_map set_upt)
  moreover have "card (set ?cs) \<le> length taken"
    using card_mono [OF _ sub] card_length [of taken] by simp
  ultimately show False by simp
qed

lemma respell_fresh_legal:
  assumes "length taken \<le> 255"
  shows "respell_tool_use_id tid taken ok \<notin> set taken \<and> legal_id ok (respell_tool_use_id tid taken ok)"
proof -
  define plain where "plain = map (\<lambda>b. if ok b then b else CHR ''_'') tid"
  define stem where "stem = take (min (length plain) (TOOL_USE_ID_MAX - 17)) plain"
  have bytes: "list_all ok plain" by (auto simp: plain_def list_all_iff ok_underscore)
  then have stem: "list_all ok stem" "length stem \<le> 47"
    by (auto simp: stem_def list_all_iff TOOL_USE_ID_MAX_def dest: in_set_takeD)
  obtain cand where cand: "find (\<lambda>c. c \<notin> set taken) (map (salted stem tid) [0..<Suc (length taken)]) = Some cand"
    using free_salt [OF assms] by blast
  have cand_ok: "cand \<notin> set taken" "legal_id ok cand"
    using find_SomeD [OF cand] salted_legal [OF stem] by auto
  have "respell_tool_use_id tid taken ok =
      (if 1 \<le> length plain \<and> length plain \<le> TOOL_USE_ID_MAX \<and> plain \<notin> set taken then plain else cand)"
    using cand by (simp add: respell_tool_use_id_def Let_def del: upt_Suc flip: plain_def stem_def)
  with cand_ok bytes show ?thesis by (auto simp: legal_id_def)
qed

text \<open>The state of the respelling after some illegal ids: every one of them has a spelling of its own.\<close>

definition ids_inv :: "string list \<Rightarrow> string list \<Rightarrow> string list \<times> tool_use_ids \<Rightarrow> bool" where
  "ids_inv legal finished st \<longleftrightarrow>
     length (fst st) = length legal + length finished \<and> set legal \<subseteq> set (fst st) \<and>
     dom (map_of (id_to_wire (snd st))) = set finished \<and>
     (\<forall>tid w. map_of (id_to_wire (snd st)) tid = Some w \<longrightarrow>
        legal_id ok w \<and> map_of (id_from_wire (snd st)) w = Some tid) \<and>
     (\<forall>w tid. map_of (id_from_wire (snd st)) w = Some tid \<longrightarrow> w \<in> set (fst st) - set legal)"

lemma ids_inv_step:
  assumes inv: "ids_inv legal finished st" and "tid \<notin> set finished"
    and "length legal + length finished \<le> 255"
  shows "ids_inv legal (finished @ [tid]) (respell_one ok tid st)"
proof -
  obtain taken m where st: "st = (taken, m)" by force
  define wire where "wire = respell_tool_use_id tid taken ok"
  have w: "wire \<notin> set taken" "legal_id ok wire"
    using respell_fresh_legal [of taken tid] inv assms(3) by (auto simp: wire_def ids_inv_def st)
  have step: "respell_one ok tid st = (wire # taken,
      \<lparr>id_to_wire = AList.update tid wire (id_to_wire m), id_from_wire = AList.update wire tid (id_from_wire m)\<rparr>)"
    by (simp add: respell_one_def st Let_def List.insert_def w(1) flip: wire_def)
  have taken: "set legal \<subseteq> set taken" and len: "length taken = length legal + length finished"
    and bwd: "\<And>v t. map_of (id_from_wire m) v = Some t \<Longrightarrow> v \<in> set taken - set legal"
    and fwd: "\<And>t v. map_of (id_to_wire m) t = Some v \<Longrightarrow> legal_id ok v \<and> map_of (id_from_wire m) v = Some t"
    and dom: "dom (map_of (id_to_wire m)) = set finished"
    using inv by (auto simp: ids_inv_def st)
  have "wire \<notin> set legal" using taken w(1) by blast
  moreover have "v \<noteq> wire" if "map_of (id_to_wire m) t = Some v" for t v
    using fwd [OF that] bwd w(1) by blast
  ultimately show ?thesis
    using w taken len bwd fwd dom assms(2)
    by (auto simp: ids_inv_def step update_conv' split: if_splits)
qed

lemma ids_inv_fold:
  assumes "ids_inv legal finished st" and "distinct (finished @ tids)"
    and "length legal + length finished + length tids \<le> 256"
  shows "ids_inv legal (finished @ tids) (fold (respell_one ok) tids st)"
  using assms
proof (induction tids arbitrary: finished st)
  case (Cons tid tids)
  have "ids_inv legal (finished @ [tid]) (respell_one ok tid st)"
    using Cons.prems by (intro ids_inv_step) auto
  with Cons.IH [of "finished @ [tid]" "respell_one ok tid st"] Cons.prems show ?case by simp
qed simp

lemma history_ids_distinct: "distinct (history_ids r)"
proof -
  have "distinct (fold (\<lambda>tid ids. if tid \<in> set ids then ids else ids @ [tid]) xs ids)" if "distinct ids"
    for xs ids :: "string list"
    using that by (induction xs arbitrary: ids) auto
  then show ?thesis by (simp add: history_ids_def)
qed

lemma ids_roundtrip:
  assumes "length (history_ids r) \<le> 256" and "tid \<in> set (history_ids r)"
  shows "legal_id ok (id_wire (ids_from_request_by r ok) tid) \<and>
    id_original (ids_from_request_by r ok) (id_wire (ids_from_request_by r ok) tid) = tid \<and>
    (legal_id ok tid \<longrightarrow> id_wire (ids_from_request_by r ok) tid = tid)"
proof -
  let ?ids = "history_ids r"
  let ?legal = "filter (legal_id ok) ?ids" and ?bad = "filter (\<lambda>tid. \<not> legal_id ok tid) ?ids"
  let ?start = "(?legal, \<lparr>id_to_wire = [], id_from_wire = []\<rparr> :: tool_use_ids)"
  define st where "st = fold (respell_one ok) ?bad ?start"
  have m: "ids_from_request_by r ok = snd st"
    by (simp add: ids_from_request_by_def st_def Let_def)
  have len: "length ?legal + length ?bad = length ?ids" by (rule sum_length_filter_compl)
  have "ids_inv ?legal [] ?start" by (simp add: ids_inv_def)
  then have inv: "ids_inv ?legal ?bad st"
    using ids_inv_fold [of ?legal "[]" ?start ?bad] assms(1) len history_ids_distinct [of r]
    by (simp add: st_def)
  show ?thesis
  proof (cases "legal_id ok tid")
    case True
    then have "map_of (id_to_wire (snd st)) tid = None" "map_of (id_from_wire (snd st)) tid = None"
      using inv assms(2) by (auto simp: ids_inv_def dom_def)
    with True show ?thesis by (simp add: id_wire_def id_original_def m)
  next
    case False
    then have "tid \<in> dom (map_of (id_to_wire (snd st)))" using inv assms(2) by (simp add: ids_inv_def)
    then obtain w where "map_of (id_to_wire (snd st)) tid = Some w" by blast
    moreover from this have "legal_id ok w" "map_of (id_from_wire (snd st)) w = Some tid"
      using inv unfolding ids_inv_def by blast+
    ultimately show ?thesis using False by (simp add: id_wire_def id_original_def m)
  qed
qed

end

lemma hex_digit_cases: "d < 16 \<Longrightarrow> is_ascii_alphanumeric (hex_digit d)"
  by (auto simp: hex_digit_def is_ascii_alphanumeric_def Let_def)

interpretation converse: id_pattern tool_use_id_byte
  by unfold_locales (simp_all add: tool_use_id_byte_def hex_digit_cases)

interpretation anthropic: id_pattern anthropic_id_byte
  by unfold_locales (simp_all add: anthropic_id_byte_def hex_digit_cases)

text \<open>
  C35. In a conversation with at most 256 distinct tool-call ids every id goes out in a spelling the
  upstream takes, for Converse and for Anthropic alike; a legal id goes out as it is; and the id the
  upstream answers with is restored to the one the client sent, so no two ids share a spelling and a
  call never pairs with another's result. The bound is the one within which the salted hashes are
  shown to differ.
\<close>

theorem tool_ids_roundtrip:
  assumes "length (history_ids r) \<le> 256" and "tid \<in> set (history_ids r)"
  shows "legal_id tool_use_id_byte (id_wire (ids_from_request r) tid) \<and>
    id_original (ids_from_request r) (id_wire (ids_from_request r) tid) = tid \<and>
    (legal_id tool_use_id_byte tid \<longrightarrow> id_wire (ids_from_request r) tid = tid) \<and>
    legal_id anthropic_id_byte (id_wire (ids_for_anthropic r) tid) \<and>
    id_original (ids_for_anthropic r) (id_wire (ids_for_anthropic r) tid) = tid \<and>
    (legal_id anthropic_id_byte tid \<longrightarrow> id_wire (ids_for_anthropic r) tid = tid)"
  unfolding ids_from_request_def ids_for_anthropic_def
  using converse.ids_roundtrip [OF assms] anthropic.ids_roundtrip [OF assms] by blast

theorem tool_ids_roundtrip_witness:
  "\<exists>r. set (history_ids r) = {''read_file#1'', ''a.b''} \<and>
     id_original (ids_from_request r) (id_wire (ids_from_request r) ''read_file#1'') = ''read_file#1'' \<and>
     id_original (ids_for_anthropic r) (id_wire (ids_for_anthropic r) ''a.b'') = ''a.b''"
proof -
  define r where "r = \<lparr>cr_model = ''m'', cr_system = [], cr_messages =
    [\<lparr>msg_role = RoleAssistant, msg_content = [ToolUse ''read_file#1'' ''f'' JNull, ToolUse ''a.b'' ''g'' JNull]\<rparr>],
    cr_tools = [], cr_max_tokens = 10, cr_stream = False, cr_temperature = None, thinking_budget = None,
    thinking_effort = None, cr_client_session = None, cr_tool_choice = None, cr_response_format = None,
    cr_stop = [], previous_response_id = None, cr_passthrough = None\<rparr>"
  have ids: "history_ids r = [''read_file#1'', ''a.b'']"
    by (simp add: r_def history_ids_def message_blocks_def block_id_def List.map_filter_simps)
  have "length (history_ids r) \<le> 256" "''read_file#1'' \<in> set (history_ids r)" "''a.b'' \<in> set (history_ids r)"
    unfolding ids by simp_all
  from tool_ids_roundtrip [OF this(1,2)] tool_ids_roundtrip [OF this(1,3)] show ?thesis
    using ids by (intro exI [of _ r]) simp
qed

end
