(* ===== verification/Function_Names.thy ===== *)
theory Function_Names
  imports Tool_Ids
begin

text \<open>
  Function names on an OpenAI-shaped wire (\<^verbatim>\<open>oag-proto/src/function_names.rs\<close>): a name outside the
  pattern the upstream enforces is respelled, uniquely within the request, and put back on the way
  to the client. Hash sets are lists read through their sets, hash maps association lists.
  The search for a free suffix counts to \<^verbatim>\<open>usize::MAX\<close>, as the code does; that it never gets there is a
  theorem, not an assumption.
\<close>

definition OPENAI_FUNCTION_NAME_MAX :: nat where "OPENAI_FUNCTION_NAME_MAX = 64"
definition FALLBACK :: string where "FALLBACK = ''tool''"
definition usize_max :: nat where "usize_max = 18446744073709551615"

definition name_byte :: "char \<Rightarrow> bool" where
  "name_byte b = (is_ascii_alphanumeric b \<or> b = CHR ''_'' \<or> b = CHR ''-'')"

definition is_legal_openai_function_name :: "string \<Rightarrow> bool" where
  "is_legal_openai_function_name name =
     (1 \<le> length name \<and> length name \<le> OPENAI_FUNCTION_NAME_MAX \<and> list_all name_byte name)"

definition truncate_ascii :: "string \<Rightarrow> nat \<Rightarrow> string" where
  "truncate_ascii s m = (if length s \<le> m then s else take m s)"

definition trim_matches :: "char \<Rightarrow> string \<Rightarrow> string" where
  "trim_matches c s = rev (dropWhile (\<lambda>x. x = c) (rev (dropWhile (\<lambda>x. x = c) s)))"

definition sanitize_push :: "char \<Rightarrow> string \<Rightarrow> string" where
  "sanitize_push b out =
     (if name_byte b then out @ [b]
      else if out \<noteq> [] \<and> last out = CHR ''_'' then out
      else out @ [CHR ''_''])"

definition sanitize_openai_function_name :: "string \<Rightarrow> string" where
  "sanitize_openai_function_name name =
     (let out = fold sanitize_push name [];
          trimmed = trim_matches (CHR ''_'') out;
          stem = (if trimmed = [] then FALLBACK else trimmed)
      in truncate_ascii stem OPENAI_FUNCTION_NAME_MAX)"

definition suffix_candidate :: "string \<Rightarrow> nat \<Rightarrow> string" where
  "suffix_candidate base n =
     (let suffix = CHR ''_'' # show_nat n;
          stem_len = OPENAI_FUNCTION_NAME_MAX - length suffix;
          stem = (if stem_len = 0 then [] else truncate_ascii base stem_len);
          candidate = stem @ suffix;
          candidate = (if length candidate > OPENAI_FUNCTION_NAME_MAX
                       then take OPENAI_FUNCTION_NAME_MAX candidate else candidate)
      in if candidate = [] then FALLBACK else candidate)"

function uniquify_loop :: "string \<Rightarrow> string list \<Rightarrow> nat \<Rightarrow> string" where
  "uniquify_loop base used n =
     (let candidate = suffix_candidate base n in
      if candidate \<notin> set used then candidate
      else if usize_max \<le> n then candidate
      else uniquify_loop base used (n + 1))"
  by auto
termination by (relation "measure (\<lambda>(_, _, n). usize_max - n)") auto

declare uniquify_loop.simps [simp del]

definition uniquify :: "string \<Rightarrow> string list \<Rightarrow> string" where
  "uniquify base0 used =
     (let stem = truncate_ascii base0 OPENAI_FUNCTION_NAME_MAX;
          base = (if stem = [] then FALLBACK else stem)
      in if base \<notin> set used then base else uniquify_loop base used 2)"

record function_name_map =
  to_wire :: "(string \<times> string) list"
  from_wire :: "(string \<times> string) list"
  name_tool_use_ids :: tool_use_ids

definition no_tool_use_ids :: tool_use_ids where
  "no_tool_use_ids = \<lparr>id_to_wire = [], id_from_wire = []\<rparr>"

definition identity_names :: function_name_map where
  "identity_names = \<lparr>to_wire = [], from_wire = [], name_tool_use_ids = no_tool_use_ids\<rparr>"

definition seat_legal :: "string \<Rightarrow> string list \<times> (string \<times> string) list \<Rightarrow> string list \<times> (string \<times> string) list" where
  "seat_legal name = (\<lambda>(used, tw).
     if is_legal_openai_function_name name \<and> name \<notin> set used
     then (name # used, AList.update name name tw) else (used, tw))"

definition seat_other :: "string \<Rightarrow> string list \<times> (string \<times> string) list \<Rightarrow> string list \<times> (string \<times> string) list" where
  "seat_other name = (\<lambda>(used, tw).
     if map_of tw name \<noteq> None then (used, tw)
     else let wire = uniquify (sanitize_openai_function_name name) used
          in (wire # used, AList.update name wire tw))"

definition from_originals :: "string list \<Rightarrow> function_name_map" where
  "from_originals originals =
     (let (used, tw) = fold seat_other originals (fold seat_legal originals ([], []))
      in \<lparr>to_wire = tw, from_wire = fold (\<lambda>(orig, wire) fw. AList.update wire orig fw) tw [],
          name_tool_use_ids = no_tool_use_ids\<rparr>)"

definition push_name :: "string \<Rightarrow> string list \<Rightarrow> string list" where
  "push_name name originals = (if name \<in> set originals then originals else originals @ [name])"

definition request_names :: "canonical_request \<Rightarrow> string list" where
  "request_names r =
     (let after_tools = fold (\<lambda>t. push_name (tool_name t)) (cr_tools r) [];
          after_choice = (case cr_tool_choice r of
            Some (ChoiceTool name) \<Rightarrow> push_name name after_tools | _ \<Rightarrow> after_tools)
      in fold (\<lambda>b os. case b of ToolUse _ name _ \<Rightarrow> push_name name os | _ \<Rightarrow> os)
           (message_blocks r) after_choice)"

definition names_from_request :: "canonical_request \<Rightarrow> function_name_map" where
  "names_from_request r = from_originals (request_names r)"

definition wire_name :: "function_name_map \<Rightarrow> string \<Rightarrow> string" where
  "wire_name m original = (case map_of (to_wire m) original of Some w \<Rightarrow> w | None \<Rightarrow> original)"

definition original_name :: "function_name_map \<Rightarrow> string \<Rightarrow> string" where
  "original_name m wire = (case map_of (from_wire m) wire of Some os \<Rightarrow> os | None \<Rightarrow> wire)"

definition with_tool_use_ids :: "function_name_map \<Rightarrow> tool_use_ids \<Rightarrow> function_name_map" where
  "with_tool_use_ids m ids = m\<lparr>name_tool_use_ids := ids\<rparr>"

definition original_tool_use_id :: "function_name_map \<Rightarrow> string \<Rightarrow> string" where
  "original_tool_use_id m wire = id_original (name_tool_use_ids m) wire"

definition names_rewrite :: "function_name_map \<Rightarrow> bool" where
  "names_rewrite m = list_ex (\<lambda>(k, v). k \<noteq> v) (to_wire m)"

subsection \<open>Legal spellings\<close>

abbreviation "legal \<equiv> is_legal_openai_function_name"

lemma name_byte_underscore [simp]: "name_byte (CHR ''_'')"
  by (simp add: name_byte_def)

lemma digit_name_byte: "is_digit c \<Longrightarrow> name_byte c"
  by (simp add: is_digit_def name_byte_def is_ascii_alphanumeric_def Let_def)

lemma legal_fallback [simp]: "legal FALLBACK"
  by (simp add: is_legal_openai_function_name_def FALLBACK_def OPENAI_FUNCTION_NAME_MAX_def name_byte_def
      is_ascii_alphanumeric_def Let_def)

lemma sanitize_push_bytes: "list_all name_byte out \<Longrightarrow> list_all name_byte (fold sanitize_push name out)"
  by (induction name arbitrary: out) (simp_all add: sanitize_push_def)

lemma trim_matches_subset: "set (trim_matches c s) \<subseteq> set s"
  unfolding trim_matches_def by (auto dest!: set_dropWhileD)

lemma legal_truncate:
  "list_all name_byte s \<Longrightarrow> s \<noteq> [] \<Longrightarrow> legal (truncate_ascii s OPENAI_FUNCTION_NAME_MAX)"
  by (auto simp: is_legal_openai_function_name_def truncate_ascii_def OPENAI_FUNCTION_NAME_MAX_def list_all_iff
      dest: in_set_takeD) (simp add: Suc_le_eq)

lemma sanitize_legal: "legal (sanitize_openai_function_name name)"
proof -
  let ?t = "trim_matches (CHR ''_'') (fold sanitize_push name [])"
  have "list_all name_byte ?t"
    using sanitize_push_bytes [of "[]" name] trim_matches_subset [of "CHR ''_''" "fold sanitize_push name []"]
    by (auto simp: list_all_iff)
  moreover have "list_all name_byte FALLBACK" "FALLBACK \<noteq> []"
    using legal_fallback by (auto simp: is_legal_openai_function_name_def)
  ultimately show ?thesis by (simp add: sanitize_openai_function_name_def Let_def legal_truncate)
qed

subsection \<open>The search for a free suffix\<close>

lemma suffix_candidate_short:
  assumes "n \<le> usize_max"
  shows "suffix_candidate base n = truncate_ascii base (63 - length (show_nat n)) @ CHR ''_'' # show_nat n"
    and "length (suffix_candidate base n) \<le> 64"
proof -
  have "length (show_nat n) \<le> 20"
    using assms by (intro show_nat_length) (simp_all add: usize_max_def)
  then show "suffix_candidate base n = truncate_ascii base (63 - length (show_nat n)) @ CHR ''_'' # show_nat n"
    and "length (suffix_candidate base n) \<le> 64"
    by (auto simp: suffix_candidate_def Let_def OPENAI_FUNCTION_NAME_MAX_def truncate_ascii_def)
qed

lemma suffix_candidate_inj:
  assumes "m \<le> usize_max" "n \<le> usize_max" "suffix_candidate base m = suffix_candidate base n"
  shows "m = n"
proof -
  have digits: "takeWhile is_digit (rev (stem @ CHR ''_'' # show_nat k)) = rev (show_nat k)" for stem k
  proof -
    have "takeWhile is_digit (rev (show_nat k) @ CHR ''_'' # rev stem) = rev (show_nat k)"
      using show_nat_digits [of k] by (subst takeWhile_append2) (auto simp: list_all_iff is_digit_def)
    then show ?thesis by simp
  qed
  have "rev (show_nat m) = rev (show_nat n)"
    using assms(3) digits by (simp only: suffix_candidate_short(1) [OF assms(1)]
        suffix_candidate_short(1) [OF assms(2)]) metis
  then show ?thesis using show_nat_inj by simp
qed

lemma suffix_candidate_legal:
  assumes "n \<le> usize_max" "list_all name_byte base"
  shows "legal (suffix_candidate base n)"
proof -
  have "list_all name_byte (truncate_ascii base k)" for k
    using assms(2) by (auto simp: truncate_ascii_def list_all_iff dest: in_set_takeD)
  moreover have "list_all name_byte (show_nat n)"
    using show_nat_digits [of n] digit_name_byte by (auto simp: list_all_iff)
  ultimately show ?thesis
    using suffix_candidate_short [OF assms(1), of base]
    by (simp add: is_legal_openai_function_name_def OPENAI_FUNCTION_NAME_MAX_def)
qed

text \<open>The loop returns a free candidate as soon as the numbers left to try outnumber the names used.\<close>

lemma uniquify_loop_free:
  assumes "\<exists>k. n \<le> k \<and> k \<le> usize_max \<and> suffix_candidate base k \<notin> set used"
  shows "\<exists>k. n \<le> k \<and> k \<le> usize_max \<and> uniquify_loop base used n = suffix_candidate base k \<and>
    uniquify_loop base used n \<notin> set used"
  using assms
proof (induction base used n rule: uniquify_loop.induct)
  case (1 base used n)
  show ?case
  proof (cases "suffix_candidate base n \<notin> set used")
    case True
    then have "uniquify_loop base used n = suffix_candidate base n" by (subst uniquify_loop.simps) simp
    with True 1(2) show ?thesis by auto
  next
    case False
    then obtain k where k: "Suc n \<le> k" "k \<le> usize_max" "suffix_candidate base k \<notin> set used"
      using 1(2) by (metis Suc_leI le_neq_implies_less)
    then have n: "\<not> usize_max \<le> n" by simp
    then have "uniquify_loop base used n = uniquify_loop base used (n + 1)"
      using False by (subst uniquify_loop.simps) simp
    moreover have "\<exists>k. n + 1 \<le> k \<and> k \<le> usize_max \<and> uniquify_loop base used (n + 1) = suffix_candidate base k \<and>
        uniquify_loop base used (n + 1) \<notin> set used"
      using False n k by (intro 1(1) [OF refl]) auto
    ultimately show ?thesis by (metis add_leD1)
  qed
qed

lemma uniquify_fresh_legal:
  assumes "legal base" and "length used < usize_max - 1"
  shows "uniquify base used \<notin> set used \<and> legal (uniquify base used)"
proof -
  have base: "truncate_ascii base OPENAI_FUNCTION_NAME_MAX = base" "base \<noteq> []" "list_all name_byte base"
    using assms(1) by (auto simp: is_legal_openai_function_name_def truncate_ascii_def)
  show ?thesis
  proof (cases "base \<in> set used")
    case False
    with base assms(1) show ?thesis by (simp add: uniquify_def)
  next
    case True
    have "\<exists>k. 2 \<le> k \<and> k \<le> usize_max \<and> suffix_candidate base k \<notin> set used"
    proof (rule ccontr)
      assume "\<nexists>k. 2 \<le> k \<and> k \<le> usize_max \<and> suffix_candidate base k \<notin> set used"
      then have sub: "suffix_candidate base ` {2..usize_max} \<subseteq> set used" by auto
      have "inj_on (suffix_candidate base) {2..usize_max}"
        using suffix_candidate_inj by (auto simp: inj_on_def)
      then have "card (suffix_candidate base ` {2..usize_max}) = usize_max - 1"
        by (simp add: card_image)
      with card_mono [OF _ sub] card_length [of used] assms(2) show False by simp
    qed
    from uniquify_loop_free [OF this] obtain k where
      "k \<le> usize_max" "uniquify_loop base used 2 = suffix_candidate base k" "uniquify_loop base used 2 \<notin> set used"
      by blast
    with True base suffix_candidate_legal show ?thesis by (simp add: uniquify_def Let_def)
  qed
qed

subsection \<open>Seating every name\<close>

lemma update_new: "map_of al k = None \<Longrightarrow> AList.update k v al = al @ [(k, v)]"
  by (induction al) auto

definition seats_inv :: "string set \<Rightarrow> string list \<times> (string \<times> string) list \<Rightarrow> bool" where
  "seats_inv A st \<longleftrightarrow> distinct (map fst (snd st)) \<and> distinct (map snd (snd st)) \<and>
     length (fst st) = length (snd st) \<and> set (fst st) = snd ` set (snd st) \<and>
     (\<forall>(n, w) \<in> set (snd st). n \<in> A \<and> legal w \<and> (legal n \<longrightarrow> w = n))"

lemma seats_inv_add:
  assumes inv: "seats_inv A (used, tw)" and "map_of tw n = None" and "w \<notin> set used" and "n \<in> A" and "legal w"
    and "legal n \<Longrightarrow> w = n"
  shows "seats_inv A (w # used, AList.update n w tw)"
  using assms by (auto simp: seats_inv_def update_new map_of_eq_None_iff)

lemma seats_used_bound:
  assumes "seats_inv A (used, tw)" and "finite A"
  shows "length used \<le> card A"
proof -
  have "length tw = card (fst ` set tw)" using assms(1) distinct_card [of "map fst tw"] by (simp add: seats_inv_def)
  also have "\<dots> \<le> card A" using assms by (intro card_mono) (auto simp: seats_inv_def)
  finally show ?thesis using assms(1) by (simp add: seats_inv_def)
qed

lemma seat_legal_phase:
  assumes "set names \<subseteq> A" and "seats_inv A st" and "\<forall>(n, w) \<in> set (snd st). w = n"
  shows "seats_inv A (fold seat_legal names st) \<and> (\<forall>(n, w) \<in> set (snd (fold seat_legal names st)). w = n) \<and>
    fst ` set (snd (fold seat_legal names st)) = fst ` set (snd st) \<union> {n \<in> set names. legal n}"
  using assms
proof (induction names arbitrary: st)
  case (Cons name names)
  obtain used tw where st: "st = (used, tw)" by force
  have used: "set used = fst ` set tw"
  proof -
    have "snd ` set tw = fst ` set tw"
      using Cons.prems(3) by (intro image_cong) (auto simp: st)
    then show ?thesis using Cons.prems(2) by (simp add: seats_inv_def st)
  qed
  show ?case
  proof (cases "legal name \<and> name \<notin> set used")
    case True
    then have new: "map_of tw name = None" using used by (auto simp: map_of_eq_None_iff)
    have step: "seat_legal name st = (name # used, AList.update name name tw)" using True by (simp add: seat_legal_def st)
    have "seats_inv A (seat_legal name st)"
      unfolding step using True new Cons.prems by (intro seats_inv_add) (auto simp: st)
    moreover have "\<forall>(n, w) \<in> set (snd (seat_legal name st)). w = n"
      "fst ` set (snd (seat_legal name st)) = insert name (fst ` set tw)"
      unfolding step using Cons.prems(3) by (auto simp: st update_new [OF new])
    ultimately show ?thesis using Cons.IH [of "seat_legal name st"] Cons.prems(1) True by (auto simp: st)
  next
    case False
    then have "seat_legal name st = st" by (auto simp: seat_legal_def st)
    with False Cons show ?thesis by (auto simp: st used)
  qed
qed auto

lemma seat_other_phase:
  assumes "set names \<subseteq> A" and "finite A" and "card A < usize_max - 1" and "seats_inv A st"
    and "{n \<in> set names. legal n} \<subseteq> fst ` set (snd st)"
  shows "seats_inv A (fold seat_other names st) \<and>
    fst ` set (snd (fold seat_other names st)) = fst ` set (snd st) \<union> set names"
  using assms
proof (induction names arbitrary: st)
  case (Cons name names)
  obtain used tw where st: "st = (used, tw)" by force
  show ?case
  proof (cases "map_of tw name")
    case None
    define wire where "wire = uniquify (sanitize_openai_function_name name) used"
    have "length used < usize_max - 1" using seats_used_bound [of A used tw] Cons.prems by (simp add: st)
    then have w: "wire \<notin> set used" "legal wire"
      using uniquify_fresh_legal [OF sanitize_legal] by (auto simp: wire_def)
    have step: "seat_other name st = (wire # used, AList.update name wire tw)"
      using None by (simp add: seat_other_def st wire_def Let_def)
    have "\<not> legal name" using None Cons.prems(5) by (auto simp: st map_of_eq_None_iff)
    then have "seats_inv A (seat_other name st)"
      unfolding step using None w Cons.prems by (intro seats_inv_add) (auto simp: st)
    moreover have "fst ` set (snd (seat_other name st)) = insert name (fst ` set tw)"
      unfolding step by (simp add: update_new [OF None])
    ultimately show ?thesis using Cons.IH [of "seat_other name st"] Cons.prems by (auto simp: st)
  next
    case (Some w)
    then have same: "seat_other name st = st" by (simp add: seat_other_def st)
    have "name \<in> fst ` set (snd st)" using Some by (force simp: st dest: map_of_SomeD)
    moreover have "{n \<in> set names. legal n} \<subseteq> fst ` set (snd st)" using Cons.prems(5) by auto
    ultimately show ?thesis using Cons.IH [of st] Cons.prems(1-4) by (simp add: same insert_absorb)
  qed
qed auto

lemma from_wire_fold:
  "distinct (map snd tw) \<Longrightarrow> map_of (fold (\<lambda>(orig, wire) fw. AList.update wire orig fw) tw fw0) w =
     (case find (\<lambda>(n, w'). w' = w) tw of Some (n, _) \<Rightarrow> Some n | None \<Rightarrow> map_of fw0 w)"
proof (induction tw arbitrary: fw0)
  case (Cons p tw)
  obtain n v where p: "p = (n, v)" by force
  have "find (\<lambda>(n, w'). w' = v) tw = None" using Cons.prems by (force simp: p find_None_iff)
  with Cons show ?case by (auto simp: p split: option.splits)
qed simp

lemma from_originals_roundtrip:
  assumes "length originals < usize_max - 1" and "n \<in> set originals"
  shows "legal (wire_name (from_originals originals) n) \<and>
    original_name (from_originals originals) (wire_name (from_originals originals) n) = n \<and>
    (legal n \<longrightarrow> wire_name (from_originals originals) n = n)"
proof -
  let ?A = "set originals"
  define st where "st = fold seat_legal originals ([], [])"
  obtain used tw where fin: "fold seat_other originals st = (used, tw)" by force
  have p1: "seats_inv ?A st" "fst ` set (snd st) = {n \<in> ?A. legal n}"
    using seat_legal_phase [of originals ?A "([], [])"] by (auto simp: st_def seats_inv_def)
  have inv: "seats_inv ?A (used, tw)" "fst ` set tw = ?A"
    using seat_other_phase [of originals ?A st] p1 assms(1) card_length [of originals] by (auto simp: fin)
  obtain w where w: "(n, w) \<in> set tw" using inv(2) assms(2) by fastforce
  then have map: "map_of tw n = Some w" using inv(1) by (simp add: seats_inv_def)
  have "find (\<lambda>(n, w'). w' = w) tw = Some (n, w)"
    using find_unique [of "(n, w)" tw snd] w inv(1)
    by (simp add: seats_inv_def distinct_map case_prod_unfold)
  then have back_map: "map_of (fold (\<lambda>(orig, wire) fw. AList.update wire orig fw) tw []) w = Some n"
    using inv(1) by (simp add: from_wire_fold seats_inv_def)
  have m: "from_originals originals = \<lparr>to_wire = tw,
      from_wire = fold (\<lambda>(orig, wire) fw. AList.update wire orig fw) tw [], name_tool_use_ids = no_tool_use_ids\<rparr>"
    using fin by (simp add: from_originals_def st_def)
  have "legal w" "legal n \<longrightarrow> w = n" using inv(1) w by (auto simp: seats_inv_def)
  with map back_map show ?thesis by (simp add: m wire_name_def original_name_def)
qed

lemma set_push_name [simp]: "set (push_name n os) = insert n (set os)"
  by (auto simp: push_name_def)

lemma set_fold_push: "set (fold (\<lambda>x. push_name (f x)) xs os) = f ` set xs \<union> set os"
  by (induction xs arbitrary: os) auto

lemma set_fold_blocks:
  "set (fold (\<lambda>b os. case b of ToolUse _ name _ \<Rightarrow> push_name name os | _ \<Rightarrow> os) bs os) =
     {name. \<exists>tid input. ToolUse tid name input \<in> set bs} \<union> set os"
  by (induction bs arbitrary: os) (auto split: content_block.splits)

lemma set_request_names: "set (request_names r) = tool_name ` set (cr_tools r) \<union>
    {name. cr_tool_choice r = Some (ChoiceTool name)} \<union>
    {name. \<exists>tid input. ToolUse tid name input \<in> set (message_blocks r)}"
  unfolding request_names_def Let_def set_fold_blocks
  by (auto simp: set_fold_push split: option.splits tool_choice.splits)

text \<open>
  C34. Every function name a request puts on an OpenAI-shaped wire, from its tools, its tool choice or
  its history, goes out in the upstream's pattern and comes back as the client wrote it, so no two
  names share a spelling; a name already legal is sent as it is. The search for a free suffix always
  finds one before its counter runs out.
\<close>

theorem function_names_roundtrip:
  assumes "length (request_names r) < usize_max - 1"
    and "n \<in> tool_name ` set (cr_tools r) \<or> cr_tool_choice r = Some (ChoiceTool n) \<or>
         (\<exists>tid input. ToolUse tid n input \<in> set (message_blocks r))"
  shows "is_legal_openai_function_name (wire_name (names_from_request r) n) \<and>
    original_name (names_from_request r) (wire_name (names_from_request r) n) = n \<and>
    (is_legal_openai_function_name n \<longrightarrow> wire_name (names_from_request r) n = n)"
proof -
  have "n \<in> set (request_names r)" using assms(2) by (auto simp: set_request_names)
  from from_originals_roundtrip [OF assms(1) this] show ?thesis by (simp add: names_from_request_def)
qed

text \<open>Two underscores survive sanitising when the second is the client's own.\<close>

theorem sanitize_keeps_double_underscore: "sanitize_openai_function_name ''a._b'' = ''a__b''"
  by (simp add: sanitize_openai_function_name_def sanitize_push_def name_byte_def is_ascii_alphanumeric_def
      trim_matches_def truncate_ascii_def OPENAI_FUNCTION_NAME_MAX_def)

theorem function_names_roundtrip_witness:
  "\<exists>r. {''user.get'', ''user get''} \<subseteq> tool_name ` set (cr_tools r) \<and>
     original_name (names_from_request r) (wire_name (names_from_request r) ''user.get'') = ''user.get'' \<and>
     original_name (names_from_request r) (wire_name (names_from_request r) ''user get'') = ''user get''"
proof -
  define t where "t name = \<lparr>tool_name = name, tool_description = [], input_schema = JNull, tool_cache_control = None\<rparr>"
    for name
  define r where "r = \<lparr>cr_model = ''m'', cr_system = [], cr_messages = [],
    cr_tools = [t ''user.get'', t ''user get''], cr_max_tokens = 10, cr_stream = False, cr_temperature = None,
    thinking_budget = None, thinking_effort = None, cr_client_session = None, cr_tool_choice = None,
    cr_response_format = None, cr_stop = [], previous_response_id = None, cr_passthrough = None\<rparr>"
  have "length (request_names r) < usize_max - 1"
    by (simp add: request_names_def r_def t_def push_name_def message_blocks_def usize_max_def)
  from function_names_roundtrip [OF this, of "''user.get''"] function_names_roundtrip [OF this, of "''user get''"]
  show ?thesis by (intro exI [of _ r]) (simp add: r_def t_def)
qed

end
