(* ===== verification/Stream.thy ===== *)
theory Stream
  imports Function_Names Policy
begin

text \<open>
  The state carried across the events of one response (\<^verbatim>\<open>oag-proto/src/stream.rs\<close>) and the quality gate
  read off it, with the restoring of client-facing names and ids in parsed events. Whether a string
  is valid JSON is a third-party parser's answer, the parameter \<open>valid_json\<close>.
\<close>

datatype stop_reason = EndTurn | MaxTokens | StopSequence | StopToolUse | StopRefusal

datatype stream_event =
    Start string usage
  | TextDelta string
  | ThinkingDelta string
  | ToolUseStart string string
  | ToolUseDelta string string
  | ToolUseEnd string
  | UsageUpdate usage
  | Stop stop_reason usage
  | EventError string

definition adopt_model :: "string \<Rightarrow> string \<Rightarrow> string" where
  "adopt_model current announced = (if announced \<noteq> [] then announced else current)"

record accumulator =
  acc_usage :: usage
  committed :: bool
  text_len :: nat
  tool_calls :: nat
  acc_stop_reason :: "stop_reason option"
  tool_buffers :: "(string \<times> string) list"
  open_tool :: "string option"
  unparsed :: bool
  acc_saw_refusal :: bool
  held_stop :: "stop_reason option"
  acc_function_names :: function_name_map

definition acc_new :: accumulator where
  "acc_new = \<lparr>acc_usage = usage_default, committed = False, text_len = 0, tool_calls = 0,
     acc_stop_reason = None, tool_buffers = [], open_tool = None, unparsed = False, acc_saw_refusal = False,
     held_stop = None, acc_function_names = identity_names\<rparr>"

definition with_function_names :: "accumulator \<Rightarrow> function_name_map \<Rightarrow> accumulator" where
  "with_function_names a names = a\<lparr>acc_function_names := names\<rparr>"

definition restore_function_name :: "accumulator \<Rightarrow> string \<Rightarrow> string" where
  "restore_function_name a wire = original_name (acc_function_names a) wire"

definition restore_tool_use_id :: "accumulator \<Rightarrow> string \<Rightarrow> string" where
  "restore_tool_use_id a wire = original_tool_use_id (acc_function_names a) wire"

fun push_fragment :: "string \<Rightarrow> string \<Rightarrow> (string \<times> string) list \<Rightarrow> (string \<times> string) list" where
  "push_fragment tid frag [] = []"
| "push_fragment tid frag ((k, buf) # rest) =
     (if k = tid then (k, buf @ frag) # rest else (k, buf) # push_fragment tid frag rest)"

fun observe :: "stream_event \<Rightarrow> accumulator \<Rightarrow> accumulator" where
  "observe (Start _ u) a = a\<lparr>acc_usage := merge (acc_usage a) u\<rparr>"
| "observe (UsageUpdate u) a = a\<lparr>acc_usage := merge (acc_usage a) u\<rparr>"
| "observe (Stop reason u) a = a\<lparr>acc_usage := merge (acc_usage a) u, acc_stop_reason := Some reason\<rparr>"
| "observe (TextDelta t) a = a\<lparr>text_len := sat_add usize_max (text_len a) (length t)\<rparr>"
| "observe (ThinkingDelta t) a = a\<lparr>text_len := sat_add usize_max (text_len a) (length t)\<rparr>"
| "observe (ToolUseStart tid _) a =
     a\<lparr>tool_calls := sat_add usize_max (tool_calls a) 1, tool_buffers := tool_buffers a @ [(tid, [])],
       open_tool := Some tid\<rparr>"
| "observe (ToolUseDelta tid frag) a = a\<lparr>tool_buffers := push_fragment tid frag (tool_buffers a)\<rparr>"
| "observe (ToolUseEnd _) a = a\<lparr>open_tool := None\<rparr>"
| "observe (EventError _) a = a"

definition mark_committed :: "accumulator \<Rightarrow> accumulator" where
  "mark_committed a = a\<lparr>committed := True\<rparr>"

definition mark_unparsed :: "accumulator \<Rightarrow> accumulator" where
  "mark_unparsed a = a\<lparr>unparsed := True\<rparr>"

definition can_failover :: "accumulator \<Rightarrow> bool" where
  "can_failover a = (\<not> committed a)"

definition current_tool_id :: "accumulator \<Rightarrow> string option" where
  "current_tool_id a = (if tool_buffers a = [] then None else Some (fst (last (tool_buffers a))))"

definition tool_id_at :: "accumulator \<Rightarrow> nat \<Rightarrow> string option" where
  "tool_id_at a index = map_option fst (nth_opt (tool_buffers a) index)"

definition open_tool_id :: "accumulator \<Rightarrow> string option" where
  "open_tool_id a = open_tool a"

definition tool_ids :: "accumulator \<Rightarrow> string list" where
  "tool_ids a = map fst (tool_buffers a)"

definition note_refusal :: "accumulator \<Rightarrow> accumulator" where
  "note_refusal a = a\<lparr>acc_saw_refusal := True\<rparr>"

definition hold_stop :: "stop_reason \<Rightarrow> accumulator \<Rightarrow> accumulator" where
  "hold_stop reason a = a\<lparr>held_stop := Some reason\<rparr>"

definition take_held_stop :: "accumulator \<Rightarrow> stop_reason option \<times> accumulator" where
  "take_held_stop a = (held_stop a, a\<lparr>held_stop := None\<rparr>)"

definition saw_tool_call :: "accumulator \<Rightarrow> bool" where
  "saw_tool_call a = (tool_calls a > 0)"

definition quality_gate_of :: "(string \<Rightarrow> bool) \<Rightarrow> accumulator \<Rightarrow> quality_gate option" where
  "quality_gate_of valid_json a =
     (if unparsed a then None
      else if text_len a = 0 \<and> tool_calls a = 0 then Some EmptyResponse
      else case acc_stop_reason a of
        Some StopRefusal \<Rightarrow> Some Refusal
      | Some MaxTokens \<Rightarrow> Some Truncated
      | _ \<Rightarrow>
          if list_ex (\<lambda>(_, buf). trim buf \<noteq> [] \<and> \<not> valid_json buf) (tool_buffers a)
          then Some MalformedToolCall else None)"

definition restore_event :: "function_name_map \<Rightarrow> stream_event \<Rightarrow> stream_event" where
  "restore_event names ev =
     (case ev of
        ToolUseStart tid name \<Rightarrow> ToolUseStart (original_tool_use_id names tid) (original_name names name)
      | ToolUseDelta tid frag \<Rightarrow> ToolUseDelta (original_tool_use_id names tid) frag
      | ToolUseEnd tid \<Rightarrow> ToolUseEnd (original_tool_use_id names tid)
      | _ \<Rightarrow> ev)"

definition restore_in_events :: "function_name_map \<Rightarrow> stream_event list \<Rightarrow> stream_event list" where
  "restore_in_events names evs = map (restore_event names) evs"

subsection \<open>What a response amounts to\<close>

definition observe_all :: "stream_event list \<Rightarrow> accumulator \<Rightarrow> accumulator" where
  "observe_all evs a = fold observe evs a"

fun reported_usage :: "stream_event \<Rightarrow> usage option" where
  "reported_usage (Start _ u) = Some u"
| "reported_usage (UsageUpdate u) = Some u"
| "reported_usage (Stop _ u) = Some u"
| "reported_usage _ = None"

fun started_tool :: "stream_event \<Rightarrow> string option" where
  "started_tool (ToolUseStart tid _) = Some tid"
| "started_tool _ = None"

fun stopped :: "stream_event \<Rightarrow> stop_reason option" where
  "stopped (Stop reason _) = Some reason"
| "stopped _ = None"

fun shows_text :: "stream_event \<Rightarrow> bool" where
  "shows_text (TextDelta t) = (t \<noteq> [])"
| "shows_text (ThinkingDelta t) = (t \<noteq> [])"
| "shows_text _ = False"

text \<open>The arguments of a call: the fragments addressed to it after it opened, in order.\<close>

fun fragments :: "string \<Rightarrow> stream_event list \<Rightarrow> string" where
  "fragments tid [] = []"
| "fragments tid (ToolUseDelta t frag # evs) = (if t = tid then frag @ fragments tid evs else fragments tid evs)"
| "fragments tid (_ # evs) = fragments tid evs"

fun arguments :: "string \<Rightarrow> stream_event list \<Rightarrow> string" where
  "arguments tid [] = []"
| "arguments tid (ev # evs) = (if started_tool ev = Some tid then fragments tid evs else arguments tid evs)"

definition calls_opened :: "stream_event list \<Rightarrow> string list" where
  "calls_opened evs = List.map_filter started_tool evs"

lemma observe_all_Cons: "observe_all (ev # evs) a = observe_all evs (observe ev a)"
  by (simp add: observe_all_def)

lemma observe_usage: "acc_usage (observe_all evs a) =
    fold (\<lambda>r u. merge u r) (List.map_filter reported_usage evs) (acc_usage a)"
proof (induction evs arbitrary: a)
  case (Cons ev evs)
  show ?case
    unfolding observe_all_Cons Cons.IH
    by (cases ev) (simp_all add: List.map_filter_simps)
qed (simp add: observe_all_def List.map_filter_simps)

lemma push_fragment_map:
  "distinct (map fst bufs) \<Longrightarrow>
   push_fragment tid frag bufs = map (\<lambda>(k, buf). (k, if k = tid then buf @ frag else buf)) bufs"
proof (induction bufs)
  case (Cons kb bufs)
  obtain k buf where kb: "kb = (k, buf)" by force
  have "map (\<lambda>(k, buf). (k, if k = tid then buf @ frag else buf)) bufs = bufs" if "tid \<notin> fst ` set bufs"
    using that by (intro map_idI) (auto simp: image_iff)
  with Cons show ?case by (auto simp: kb)
qed simp

lemma observe_buffers:
  assumes "distinct (map fst (tool_buffers a) @ calls_opened evs)"
  shows "tool_buffers (observe_all evs a) =
    map (\<lambda>(k, buf). (k, buf @ fragments k evs)) (tool_buffers a) @
    map (\<lambda>tid. (tid, arguments tid evs)) (calls_opened evs)"
  using assms
proof (induction evs arbitrary: a)
  case Nil
  show ?case by (simp add: observe_all_def calls_opened_def List.map_filter_simps case_prod_unfold)
next
  case (Cons ev evs)
  show ?case
  proof (cases ev)
    case (ToolUseStart tid nm)
    have opened: "calls_opened (ToolUseStart tid nm # evs) = tid # calls_opened evs"
      by (simp add: calls_opened_def List.map_filter_simps)
    have dist: "distinct (map fst (tool_buffers a) @ tid # calls_opened evs)"
      using Cons.prems by (simp add: ToolUseStart opened)
    then have "tid \<notin> set (calls_opened evs)" by simp
    then have other: "map (\<lambda>t. (t, arguments t (ToolUseStart tid nm # evs))) (calls_opened evs) =
        map (\<lambda>t. (t, arguments t evs)) (calls_opened evs)"
      by (intro map_cong) auto
    have "distinct (map fst (tool_buffers (observe ev a)) @ calls_opened evs)"
      using dist by (simp add: ToolUseStart)
    from Cons.IH [OF this] show ?thesis
      unfolding observe_all_Cons by (simp only: ToolUseStart opened list.map other) simp
  next
    case (ToolUseDelta tid frag)
    have opened: "calls_opened (ToolUseDelta tid frag # evs) = calls_opened evs"
      by (simp add: calls_opened_def List.map_filter_simps)
    have d: "distinct (map fst (tool_buffers a))" using Cons.prems by simp
    have bufs: "tool_buffers (observe ev a) = map (\<lambda>(k, buf). (k, if k = tid then buf @ frag else buf)) (tool_buffers a)"
      by (simp add: ToolUseDelta push_fragment_map [OF d])
    then have "map fst (tool_buffers (observe ev a)) = map fst (tool_buffers a)" by (auto simp: case_prod_unfold)
    then have "distinct (map fst (tool_buffers (observe ev a)) @ calls_opened evs)"
      using Cons.prems by (simp only: ToolUseDelta opened)
    from Cons.IH [OF this] show ?thesis
      unfolding observe_all_Cons bufs by (auto simp: ToolUseDelta opened case_prod_unfold comp_def)
  qed (use Cons in \<open>simp_all add: observe_all_Cons calls_opened_def List.map_filter_simps\<close>)
qed

lemma observe_stop: "acc_stop_reason (observe_all evs a) =
    (case List.map_filter stopped evs of [] \<Rightarrow> acc_stop_reason a | rs \<Rightarrow> Some (last rs))"
proof (induction evs arbitrary: a)
  case (Cons ev evs)
  show ?case
    unfolding observe_all_Cons Cons.IH
    by (cases ev) (simp_all add: List.map_filter_simps split: list.split)
qed (simp add: observe_all_def List.map_filter_simps)

lemma observe_unparsed: "unparsed (observe_all evs a) = unparsed a"
proof (induction evs arbitrary: a)
  case (Cons ev evs)
  show ?case
    unfolding observe_all_Cons Cons.IH by (cases ev) simp_all
qed (simp add: observe_all_def)

lemma observe_silent:
  "text_len (observe_all evs a) = 0 \<longleftrightarrow> text_len a = 0 \<and> \<not> list_ex shows_text evs"
proof (induction evs arbitrary: a)
  case (Cons ev evs)
  show ?case
    unfolding observe_all_Cons Cons.IH
    by (cases ev) (auto simp: sat_add_def usize_max_def min_def split: if_splits)
qed (simp add: observe_all_def)

lemma observe_calls:
  "tool_calls (observe_all evs a) = 0 \<longleftrightarrow> tool_calls a = 0 \<and> calls_opened evs = []"
proof (induction evs arbitrary: a)
  case (Cons ev evs)
  show ?case
    unfolding observe_all_Cons Cons.IH
    by (cases ev) (auto simp: sat_add_def usize_max_def min_def calls_opened_def List.map_filter_simps)
qed (simp add: observe_all_def calls_opened_def List.map_filter_simps)

text \<open>What the gate reads, stated over the events alone.\<close>

definition gate_of_events :: "(string \<Rightarrow> bool) \<Rightarrow> stream_event list \<Rightarrow> quality_gate option" where
  "gate_of_events valid_json evs =
     (let stops = List.map_filter stopped evs;
          broken = (\<lambda>tid. trim (arguments tid evs) \<noteq> [] \<and> \<not> valid_json (arguments tid evs))
      in if \<not> list_ex shows_text evs \<and> calls_opened evs = [] then Some EmptyResponse
         else if stops \<noteq> [] \<and> last stops = StopRefusal then Some Refusal
         else if stops \<noteq> [] \<and> last stops = MaxTokens then Some Truncated
         else if list_ex broken (calls_opened evs) then Some MalformedToolCall
         else None)"

lemma buffers_of_response:
  assumes "distinct (calls_opened evs)"
  shows "tool_buffers (observe_all evs acc_new) = map (\<lambda>tid. (tid, arguments tid evs)) (calls_opened evs)"
  using observe_buffers [of acc_new evs] assms by (simp add: acc_new_def)

lemma gate_of_response:
  assumes "distinct (calls_opened evs)"
  shows "quality_gate_of vj (observe_all evs acc_new) = gate_of_events vj evs"
proof -
  have fresh: "text_len acc_new = 0" "tool_calls acc_new = 0" "\<not> unparsed acc_new" "acc_stop_reason acc_new = None"
    by (simp_all add: acc_new_def)
  show ?thesis
    unfolding quality_gate_of_def gate_of_events_def Let_def buffers_of_response [OF assms]
      observe_silent observe_calls observe_unparsed observe_stop
    by (cases "List.map_filter stopped evs"; cases "last (List.map_filter stopped evs)")
      (auto simp: fresh list_ex_iff)
qed

text \<open>
  C36. However the events of a response interleave, the accumulator ends with what the response said:
  one argument buffer per opened tool call, in opening order, holding exactly the fragments addressed
  to that call; the field-wise merge of every usage report; and the quality gate's verdict is the one
  stated over the events: empty before refusal before truncation before a call whose arguments are
  not JSON.
\<close>

theorem response_is_reassembled:
  assumes "distinct (calls_opened evs)"
  shows "tool_buffers (observe_all evs acc_new) = map (\<lambda>tid. (tid, arguments tid evs)) (calls_opened evs)
    \<and> acc_usage (observe_all evs acc_new) =
        fold (\<lambda>r u. merge u r) (List.map_filter reported_usage evs) usage_default
    \<and> quality_gate_of valid_json (observe_all evs acc_new) = gate_of_events valid_json evs"
  using buffers_of_response [OF assms] gate_of_response [OF assms] observe_usage [of evs acc_new]
  by (simp add: acc_new_def)

definition interleaved_calls :: "stream_event list" where
  "interleaved_calls =
    [ToolUseStart ''a'' ''read'', ToolUseStart ''b'' ''write'', ToolUseDelta ''a'' ''{'',
     ToolUseDelta ''b'' ''['', ToolUseDelta ''a'' ''}'', ToolUseEnd ''a'', Stop StopToolUse usage_default]"

theorem response_is_reassembled_witness:
  "tool_buffers (observe_all interleaved_calls acc_new) = [(''a'', ''{}''), (''b'', ''['')]
   \<and> quality_gate_of (\<lambda>s. s = ''{}'') (observe_all interleaved_calls acc_new) = Some MalformedToolCall"
proof -
  have opened: "calls_opened interleaved_calls = [''a'', ''b'']"
    by (simp add: calls_opened_def interleaved_calls_def List.map_filter_simps)
  have args: "arguments ''a'' interleaved_calls = ''{}''" "arguments ''b'' interleaved_calls = ''[''"
    by (simp_all add: interleaved_calls_def)
  have stops: "List.map_filter stopped interleaved_calls = [StopToolUse]"
    by (simp add: interleaved_calls_def List.map_filter_simps)
  have plain: "trim_done ''[''"
    by (simp add: trim_done_visible visible_def)
  have gate: "gate_of_events (\<lambda>s. s = ''{}'') interleaved_calls = Some MalformedToolCall"
    by (simp add: gate_of_events_def opened args stops trim_id [OF plain])
  show ?thesis
    using response_is_reassembled [of interleaved_calls "\<lambda>s. s = ''{}''"] by (simp add: opened args gate)
qed

end
