(* ===== verification/Secrets.thy ===== *)
theory Secrets
  imports Rust_Strings
begin

text \<open>
  Decrypted credential material (\<^verbatim>\<open>SecretMaterial\<close> of \<^verbatim>\<open>oag-core/src/credential.rs\<close>): trimming the
  secrets an operator pasted, and the test that a token is due for a refresh. The subtraction in
  that test is on \<^verbatim>\<open>i64\<close> and wraps in the release build.
\<close>

record secret_material =
  access_token :: string
  refresh_token :: "string option"
  expires_at :: "int option"
  version :: nat
  client_id :: "string option"
  sm_account_id :: "string option"

definition i64_wrap :: "int \<Rightarrow> int" where
  "i64_wrap x = (x + 2 ^ 63) mod 2 ^ 64 - 2 ^ 63"

definition trimmed :: "secret_material \<Rightarrow> secret_material" where
  "trimmed m = m\<lparr>access_token := trim (access_token m),
     refresh_token := map_option trim (refresh_token m),
     client_id := map_option trim (client_id m)\<rparr>"

definition expires_within :: "secret_material \<Rightarrow> int \<Rightarrow> int \<Rightarrow> bool" where
  "expires_within m now_unix skew_secs =
     (case expires_at m of None \<Rightarrow> False | Some t \<Rightarrow> i64_wrap (t - skew_secs) \<le> now_unix)"

lemma i64_wrap_id: "i64_min \<le> x \<Longrightarrow> x \<le> i64_max \<Longrightarrow> i64_wrap x = x"
  by (simp add: i64_wrap_def i64_min_def i64_max_def)

text \<open>
  Trimming takes nothing but surrounding white space off a credential's secrets: what is left of
  each is a contiguous part of what was stored, has no white space at either end, and trimming it
  again changes nothing; expiry, version and account are untouched.
\<close>

theorem trimmed_secrets_are_clean:
  "trimmed (trimmed m) = trimmed m \<and>
   trim_done (access_token (trimmed m)) \<and>
   (\<exists>a b. access_token m = a @ access_token (trimmed m) @ b) \<and>
   rel_option (\<lambda>old new. trim_done new \<and> (\<exists>a b. old = a @ new @ b))
     (refresh_token m) (refresh_token (trimmed m)) \<and>
   rel_option (\<lambda>old new. trim_done new \<and> (\<exists>a b. old = a @ new @ b))
     (client_id m) (client_id (trimmed m)) \<and>
   (expires_at (trimmed m), version (trimmed m), sm_account_id (trimmed m)) =
     (expires_at m, version m, sm_account_id m)"
proof -
  have part: "rel_option (\<lambda>old new. trim_done new \<and> (\<exists>a b. old = a @ new @ b)) x (map_option trim x)" for x
    by (cases x) (auto simp: trim_is_done trim_infix)
  show ?thesis
    by (simp add: trimmed_def trim_is_done trim_infix part option.map_comp comp_def)
qed

text \<open>
  A token is refreshed from exactly \<open>skew\<close> seconds before it expires, and a token that does not
  expire never is, as long as the expiry is not within \<open>skew\<close> of the bottom of the clock's range.
  Once due it stays due.
\<close>

theorem expires_within_is_a_deadline:
  assumes "0 \<le> skew" and "\<forall>t. expires_at m = Some t \<longrightarrow> i64_min + skew \<le> t \<and> t \<le> i64_max"
  shows "(expires_within m now skew \<longleftrightarrow> (\<exists>t. expires_at m = Some t \<and> t \<le> now + skew)) \<and>
         (expires_within m now skew \<longrightarrow> now \<le> now' \<longrightarrow> expires_within m now' skew)"
proof -
  have "i64_wrap (t - skew) = t - skew" if "expires_at m = Some t" for t
    using assms that by (intro i64_wrap_id) auto
  then show ?thesis by (auto simp: expires_within_def split: option.splits)
qed

theorem expires_within_is_a_deadline_witness:
  "expires_within \<lparr>access_token = ''sk'', refresh_token = None, expires_at = Some 1000, version = 0,
     client_id = None, sm_account_id = None\<rparr> 700 300 \<and>
   \<not> expires_within \<lparr>access_token = ''sk'', refresh_token = None, expires_at = Some 1000, version = 0,
     client_id = None, sm_account_id = None\<rparr> 699 300"
proof -
  define m where "m = \<lparr>access_token = ''sk'', refresh_token = None, expires_at = Some 1000,
     version = 0, client_id = None, sm_account_id = None\<rparr>"
  have "\<forall>t. expires_at m = Some t \<longrightarrow> i64_min + 300 \<le> t \<and> t \<le> i64_max"
    by (simp add: m_def width_defs)
  from expires_within_is_a_deadline [OF _ this, of 700 700]
    expires_within_is_a_deadline [OF _ this, of 699 699]
  have "expires_within m 700 300 \<and> \<not> expires_within m 699 300" by (simp add: m_def)
  then show ?thesis by (simp add: m_def)
qed

end
