(* ===== verification/Failover.thy ===== *)
theory Failover
  imports Leasing Stream Secrets
begin

text \<open>
  One attempt at one rung of the ladder (\<^verbatim>\<open>oag-server/src/gateway/failover.rs\<close>): credentials, retries,
  backoff and failover, with the dispatch counter and the metering context it takes from
  \<^verbatim>\<open>climb.rs\<close>. The two loops are recursive functions over the ranges the code iterates. The adapter
  (how a provider's request is built and its credential prepared), the transport and the reading of
  a response body are the environment's; a response is its status, its \<^verbatim>\<open>Retry-After\<close> header, its text
  and an opaque body.
\<close>

subsection \<open>Small operations\<close>

datatype framing = Sse | AwsEventStream | AwsConverseStream

datatype egress =
    EgressPassthrough dialect string string
  | EgressChatCompletions string string
  | EgressAnthropicMessages string string
  | EgressGemini
  | EgressResponses string string

fun dialect_debug :: "dialect \<Rightarrow> string" where
  "dialect_debug AnthropicMessages = ''AnthropicMessages''"
| "dialect_debug OpenAIChatCompletions = ''OpenAIChatCompletions''"
| "dialect_debug OpenAIResponses = ''OpenAIResponses''"
| "dialect_debug GeminiGenerateContent = ''GeminiGenerateContent''"
| "dialect_debug SystemOne = ''SystemOne''"
| "dialect_debug BedrockConverse = ''BedrockConverse''"

definition egress_for :: "dialect \<Rightarrow> 'd routing_decision \<Rightarrow> string \<Rightarrow> framing \<Rightarrow> dialect \<Rightarrow> bool \<Rightarrow>
    error + egress" where
  "egress_for ingress decision request_id fr upstream rewrite_tool_names =
     (let model = ms_id (dec_model decision) in
      if ingress = upstream \<and> fr = Sse \<and> \<not> rewrite_tool_names
      then Inr (EgressPassthrough ingress request_id model)
      else case ingress of
          OpenAIChatCompletions \<Rightarrow> Inr (EgressChatCompletions request_id model)
        | AnthropicMessages \<Rightarrow> Inr (EgressAnthropicMessages request_id model)
        | GeminiGenerateContent \<Rightarrow> Inr EgressGemini
        | OpenAIResponses \<Rightarrow> Inr (EgressResponses request_id model)
        | _ \<Rightarrow> Inl (Internal (''no renderer from '' @ dialect_debug upstream @ '' to '' @ dialect_debug ingress
                @ ''; route this request to a '' @ dialect_debug ingress @ ''-native provider instead'')))"

definition openai_function_names :: "canonical_request \<Rightarrow> dialect \<Rightarrow> function_name_map" where
  "openai_function_names req upstream =
     (if upstream \<in> {OpenAIChatCompletions, OpenAIResponses, BedrockConverse}
      then (let names = names_from_request req
            in if upstream = BedrockConverse then with_tool_use_ids names (ids_from_request req) else names)
      else identity_names)"

definition may_try_another :: "nat \<Rightarrow> duration \<Rightarrow> duration \<Rightarrow> bool" where
  "may_try_another switch elapsed budget = (switch = 0 \<or> elapsed < budget)"

datatype step = Retry | StepEscalate | StepSwitch | StepFatal

definition step_for :: "disposition \<Rightarrow> bool \<Rightarrow> step" where
  "step_for d retries_left =
     (case d of
        RetrySameAccount \<Rightarrow> if retries_left then Retry else StepSwitch
      | EscalateTier \<Rightarrow> StepEscalate
      | DFatal \<Rightarrow> StepFatal
      | _ \<Rightarrow> StepSwitch)"

definition TRANSPORT_COOLDOWN :: duration where "TRANSPORT_COOLDOWN = from_secs 30"
definition MAX_RETRY_AFTER :: nat where "MAX_RETRY_AFTER = 3600"

text \<open>\<^verbatim>\<open>u64::from_str\<close>: an optional plus sign, then at least one digit, within range.\<close>

definition digits_value :: "string \<Rightarrow> nat" where
  "digits_value s = foldl (\<lambda>n c. 10 * n + (of_char c - 48)) 0 s"

definition parse_u64 :: "string \<Rightarrow> nat option" where
  "parse_u64 s =
     (let ds = (case s of c # cs \<Rightarrow> if c = CHR ''+'' then cs else s | [] \<Rightarrow> [])
      in if ds = [] \<or> \<not> list_all is_digit ds \<or> digits_value ds > u64_max then None
         else Some (digits_value ds))"

text \<open>\<^verbatim>\<open>HeaderValue::to_str\<close> succeeds on visible ASCII and tabs.\<close>

definition header_text :: "bytes \<Rightarrow> string option" where
  "header_text h =
     (if list_all (\<lambda>c. let n = of_char c :: nat in 32 \<le> n \<and> n < 127 \<or> n = 9) h then Some h else None)"

definition upstream_retry_after :: "bytes option \<Rightarrow> duration option" where
  "upstream_retry_after header =
     (case Option.bind (Option.bind header header_text) (\<lambda>h. parse_u64 (trim h)) of
        None \<Rightarrow> None
      | Some secs \<Rightarrow> if 1 \<le> secs \<and> secs \<le> MAX_RETRY_AFTER then Some (from_secs secs) else None)"

definition backoff :: "nat \<Rightarrow> duration" where
  "backoff attempt = min (sat_mul u64_max 300 (2 ^ min attempt 4)) MAX_BACKOFF"

definition is_char_boundary :: "string \<Rightarrow> nat \<Rightarrow> bool" where
  "is_char_boundary s i =
     (i = 0 \<or> i = length s \<or> (i < length s \<and> (let n = of_char (s ! i) :: nat in n < 128 \<or> 192 \<le> n)))"

fun floor_boundary :: "string \<Rightarrow> nat \<Rightarrow> nat" where
  "floor_boundary s 0 = 0"
| "floor_boundary s (Suc n) = (if is_char_boundary s (Suc n) then Suc n else floor_boundary s n)"

definition truncate_text :: "string \<Rightarrow> nat \<Rightarrow> string" where
  "truncate_text s m =
     (if length s \<le> m then s else take (floor_boundary s m) s @ byte_string [226, 128, 166])"

subsection \<open>The upstream side of the environment\<close>

record 'r response =
  rs_status :: nat
  rs_retry_after :: "bytes option"
  rs_text :: "string option"
  rs_body :: 'r

record ('d, 'q) adapter =
  ad_dialect :: dialect
  ad_framing :: framing
  always_streams :: bool
  prepare_credential :: "nat \<Rightarrow> account_id \<Rightarrow> secret_material \<Rightarrow> string option \<Rightarrow> error + secret_material"
  build_request :: "canonical_request \<Rightarrow> 'd model_spec \<Rightarrow> secret_material \<Rightarrow> string \<Rightarrow> error + 'q"

record ('d, 'q, 'r) gateway_env = "'d env" +
  config :: gateway_config
  codex_adapter :: "('d, 'q) adapter"
  adapter_map :: "nat \<Rightarrow> (provider \<times> ('d, 'q) adapter) list"
  ensure_fresh :: "nat \<Rightarrow> 'd account_row \<Rightarrow> error + secret_material"
  transports_get :: "nat \<Rightarrow> account_id \<Rightarrow> string option \<Rightarrow> error + unit"
  transport_execute :: "nat \<Rightarrow> account_id \<Rightarrow> 'q \<Rightarrow> error + 'r response"
  collect_stream_with :: "nat \<Rightarrow> 'r response \<Rightarrow> ('d, 'q) adapter \<Rightarrow> function_name_map \<Rightarrow>
    (error \<times> accumulator) + (stream_event list \<times> accumulator)"
  collect_with :: "nat \<Rightarrow> 'r response \<Rightarrow> dialect \<Rightarrow> function_name_map \<Rightarrow>
    error + (bytes \<times> stream_event list \<times> accumulator)"
  uuid_v5 :: "string \<Rightarrow> string"

datatype ('d, 'q, 'r) attempt =
    Streaming "'r response" "'d held_lease" nat function_name_map "('d, 'q) adapter"
  | Collected bytes "stream_event list" accumulator "'d held_lease" nat "('d, 'q) adapter"
  | Rejected error

datatype ('d, 'q, 'r) outcome =
    OutOk "('d, 'q, 'r) attempt"
  | OutSwitch error
  | OutLost error accumulator
  | OutRaced
  | OutEscalate error
  | OutFatal error

definition state_adapter :: "('d, 'q, 'r, 'm) gateway_env_scheme \<Rightarrow> provider \<Rightarrow> world \<Rightarrow> error + ('d, 'q) adapter" where
  "state_adapter E p w =
     (case find (\<lambda>(q, _). provider_eq q p) (adapter_map E (tick w)) of
        Some (_, a) \<Rightarrow> Inr a
      | None \<Rightarrow> Inl (Internal (''no adapter for provider '' @ provider_as_str p)))"

definition adapter_for :: "('d, 'q, 'r, 'm) gateway_env_scheme \<Rightarrow> provider \<Rightarrow> 'd account_row \<Rightarrow> world \<Rightarrow>
    error + ('d, 'q) adapter" where
  "adapter_for E p account w =
     (if p = OpenAI \<and> kind_from_column (row_kind account) = Some OAuth then Inr (codex_adapter E)
      else state_adapter E p w)"

definition conversation_id :: "('d, 'q, 'r, 'm) gateway_env_scheme \<Rightarrow> string \<Rightarrow> string" where
  "conversation_id E session = uuid_v5 E session"

subsection \<open>What a failure leaves behind\<close>

definition cool_down :: "('d, 'q, 'r, 'm) gateway_env_scheme \<Rightarrow> account_id \<Rightarrow> duration \<Rightarrow> world \<Rightarrow> world" where
  "cool_down E account cooldown w =
     (case read_clock E w of
        (t, w1) \<Rightarrow> await E (w1\<lparr>store_writes := store_writes w1 @
          [CoolDown account (t + int cooldown) ''upstream error'']\<rparr>))"

definition rate_limit :: "('d, 'q, 'r, 'm) gateway_env_scheme \<Rightarrow> account_id \<Rightarrow> duration \<Rightarrow> world \<Rightarrow> world" where
  "rate_limit E account wait w =
     (case read_clock E w of
        (t, w1) \<Rightarrow> await E (w1\<lparr>store_writes := store_writes w1 @ [RateLimitUntil account (t + int wait)]\<rparr>))"

definition apply_disposition :: "('d, 'q, 'r, 'm) gateway_env_scheme \<Rightarrow> account_id \<Rightarrow> disposition \<Rightarrow> world \<Rightarrow> world" where
  "apply_disposition E account d w =
     (case d of
        FailoverAccount cooldown \<Rightarrow> cool_down E account cooldown w
      | DRateLimited retry_after \<Rightarrow>
          rate_limit E account (case retry_after of None \<Rightarrow> from_mins 1 | Some wait \<Rightarrow> wait) w
      | _ \<Rightarrow> w)"

definition transport_failure :: "('d, 'q, 'r, 'm) gateway_env_scheme \<Rightarrow> account_id \<Rightarrow> bool \<Rightarrow> world \<Rightarrow>
    disposition option \<times> world" where
  "transport_failure E account retrying w =
     (if retrying then None else Some (FailoverAccount TRANSPORT_COOLDOWN), replica_record_failure E account w)"

definition unprepared :: "('d, 'q, 'r, 'm) gateway_env_scheme \<Rightarrow> account_id \<Rightarrow> error \<Rightarrow> world \<Rightarrow>
    ('d, 'q, 'r) outcome \<times> world" where
  "unprepared E account e w = (OutSwitch e, apply_disposition E account (disposition_of e) w)"

definition collect_failed :: "error \<times> accumulator \<Rightarrow> ('d, 'q, 'r) outcome" where
  "collect_failed failure =
     (case failure of (e, acc) \<Rightarrow> if output_tokens (acc_usage acc) > 0 then OutLost e acc else OutSwitch e)"

definition succeeded :: "('d, 'q, 'r, 'm) gateway_env_scheme \<Rightarrow> 'd held_lease \<Rightarrow> 'r response \<Rightarrow> bool \<Rightarrow> nat \<Rightarrow>
    function_name_map \<Rightarrow> ('d, 'q) adapter \<Rightarrow> world \<Rightarrow> ('d, 'q, 'r) outcome \<times> world" where
  "succeeded E l resp stream ordinal names ad w =
     (let w1 = replica_record_success (row_id (l_account l)) w in
      if stream then (OutOk (Streaming resp l ordinal names ad), w1)
      else if always_streams ad
      then (case collect_stream_with E (tick w1) resp ad names of
              Inr (events, acc) \<Rightarrow> OutOk (Collected [] events acc l ordinal ad)
            | Inl failure \<Rightarrow> collect_failed failure,
            await E w1)
      else (case collect_with E (tick w1) resp (ad_dialect ad) names of
              Inr (body, events, acc) \<Rightarrow> OutOk (Collected body events acc l ordinal ad)
            | Inl e \<Rightarrow> OutSwitch e,
            await E w1))"

subsection \<open>One credential\<close>

datatype ('d, 'q, 'r) verdict = Return "('d, 'q, 'r) outcome" | Again error

definition retry_later :: "('d, 'q, 'r, 'm) gateway_env_scheme \<Rightarrow> account_id \<Rightarrow> nat \<Rightarrow> error \<Rightarrow> world \<Rightarrow>
    ('d, 'q, 'r) verdict \<times> world" where
  "retry_later E account k last_error w =
     (case read_clock E w of
        (t, w1) \<Rightarrow>
          if \<not> breakers_permits (w_breakers w1) account (unix_timestamp t)
          then (Return (OutSwitch last_error), w1)
          else (Again last_error, await E (w1\<lparr>sleeps := sleeps w1 @ [backoff k]\<rparr>)))"

definition rejected :: "('d, 'q, 'r, 'm) gateway_env_scheme \<Rightarrow> provider \<Rightarrow> account_id \<Rightarrow> nat \<Rightarrow> 'r response \<Rightarrow>
    world \<Rightarrow> ('d, 'q, 'r) verdict \<times> world" where
  "rejected E p account k resp w =
     (let w1 = (if rs_status resp = 401 then await E (w\<lparr>refused := account # refused w\<rparr>) else w);
          hint = upstream_retry_after (rs_retry_after resp);
          body = (case rs_text resp of Some t \<Rightarrow> t | None \<Rightarrow> []);
          err = Upstream p account (rs_status resp) (truncate_text body 512) hint;
          d = disposition_of err;
          w2 = apply_disposition E account d (replica_record_failure E account (await E w1))
      in case step_for d (k < same_account_retries (config E)) of
           Retry \<Rightarrow> retry_later E account k err w2
         | StepEscalate \<Rightarrow> (Return (OutEscalate err), w2)
         | StepSwitch \<Rightarrow> (Return (OutSwitch err), w2)
         | StepFatal \<Rightarrow> (Return (OutFatal err), w2))"

definition unanswered :: "('d, 'q, 'r, 'm) gateway_env_scheme \<Rightarrow> account_id \<Rightarrow> nat \<Rightarrow> error \<Rightarrow> world \<Rightarrow>
    ('d, 'q, 'r) verdict \<times> world" where
  "unanswered E account k e w =
     (case e of
        UpstreamTimeout _ \<Rightarrow>
          (Return (OutSwitch e), apply_disposition E account (disposition_of e) (replica_record_failure E account w))
      | _ \<Rightarrow>
          (let retrying = k < same_account_retries (config E) in
           case transport_failure E account retrying w of
             (Some d, w1) \<Rightarrow> (Return (OutSwitch e), apply_disposition E account d w1)
           | (None, w1) \<Rightarrow> retry_later E account k e w1))"

definition send_once :: "('d, 'q, 'r, 'm) gateway_env_scheme \<Rightarrow> 'd routing_decision \<Rightarrow> canonical_request \<Rightarrow>
    'd held_lease \<Rightarrow> nat \<Rightarrow> function_name_map \<Rightarrow> ('d, 'q) adapter \<Rightarrow> 'q \<Rightarrow> nat \<Rightarrow> world \<Rightarrow>
    ('d, 'q, 'r) verdict \<times> world" where
  "send_once E dec req l ordinal names ad q k w =
     (let account = row_id (l_account l);
          w1 = w\<lparr>sends := sends w @ [account]\<rparr>;
          w2 = await E w1
      in case transport_execute E (tick w1) account q of
           Inr resp \<Rightarrow>
             if 200 \<le> rs_status resp \<and> rs_status resp < 300
             then (case succeeded E l resp (cr_stream req) ordinal names ad w2 of (out, w3) \<Rightarrow> (Return out, w3))
             else rejected E (ms_provider (dec_model dec)) account k resp w2
         | Inl e \<Rightarrow> unanswered E account k e w2)"

definition drop_dispatch :: "dispatch \<Rightarrow> world \<Rightarrow> world" where
  "drop_dispatch d w = w\<lparr>w_breakers := dispatch_drop (w_breakers w) d\<rparr>"

fun attempts :: "('d, 'q, 'r, 'm) gateway_env_scheme \<Rightarrow> 'd routing_decision \<Rightarrow> canonical_request \<Rightarrow>
    'd held_lease \<Rightarrow> nat \<Rightarrow> function_name_map \<Rightarrow> ('d, 'q) adapter \<Rightarrow> secret_material \<Rightarrow> string \<Rightarrow>
    nat list \<Rightarrow> dispatch \<Rightarrow> error \<Rightarrow> world \<Rightarrow> ('d, 'q, 'r) outcome \<times> world" where
  "attempts E dec req l ordinal names ad cred conv [] d last_error w = (OutSwitch last_error, drop_dispatch d w)"
| "attempts E dec req l ordinal names ad cred conv (k # ks) d last_error w =
     (case build_request ad req (dec_model dec) cred conv of
        Inl e \<Rightarrow> (OutFatal e, drop_dispatch d w)
      | Inr q \<Rightarrow>
          (case transports_get E (tick w) (row_id (l_account l)) (proxy_url (l_account l)) of
             Inl e \<Rightarrow> (OutSwitch e, drop_dispatch d (await E w))
           | Inr _ \<Rightarrow>
               (case send_once E dec req l ordinal names ad q k (await E w) of
                  (Return out, w1) \<Rightarrow> (out, drop_dispatch (dispatch_sent d) w1)
                | (Again e, w1) \<Rightarrow>
                    attempts E dec req l ordinal names ad cred conv ks (dispatch_sent d) e w1)))"

definition try_credential :: "('d, 'q, 'r, 'm) gateway_env_scheme \<Rightarrow> 'd routing_decision \<Rightarrow> canonical_request \<Rightarrow>
    string \<Rightarrow> 'd held_lease \<Rightarrow> nat \<Rightarrow> world \<Rightarrow> ('d, 'q, 'r) outcome \<times> world" where
  "try_credential E dec req0 conv l ordinal w =
     (let p = ms_provider (dec_model dec); account = row_id (l_account l) in
      case adapter_for E p (l_account l) w of
        Inl e \<Rightarrow> (OutFatal e, w)
      | Inr ad \<Rightarrow>
          (let req = req_for_model req0 (ms_reasoning_efforts (dec_model dec)) (ad_dialect ad);
               names = openai_function_names req (ad_dialect ad);
               w1 = await E w
           in case ensure_fresh E (tick w) (l_account l) of
                Inl e \<Rightarrow> (OutSwitch e, w1)
              | Inr stored \<Rightarrow>
                  (let w2 = await E w1 in
                   case prepare_credential ad (tick w1) account stored (proxy_url (l_account l)) of
                     Inl e \<Rightarrow> unprepared E account e w2
                   | Inr cred \<Rightarrow>
                       (case read_clock E w2 of
                          (t, w3) \<Rightarrow>
                            (case dispatch_claim (w_breakers w3) account (unix_timestamp t) of
                               (None, bs) \<Rightarrow> (OutRaced, w3\<lparr>w_breakers := bs\<rparr>)
                             | (Some d, bs) \<Rightarrow>
                                 attempts E dec req l ordinal names ad cred conv
                                   [0..<Suc (same_account_retries (config E))] d (NoCredential p)
                                   (w3\<lparr>w_breakers := bs\<rparr>))))))"

subsection \<open>Metering an attempt\<close>

record auth_context =
  au_route :: string
  au_principal :: string
  au_api_key :: string

record dispatches =
  dp_request_id :: string
  dp_started :: nat
  dp_next :: nat

definition dispatches_new :: "string \<Rightarrow> nat \<Rightarrow> dispatches" where
  "dispatches_new rid began = \<lparr>dp_request_id = rid, dp_started = began, dp_next = 0\<rparr>"

definition take_dispatch :: "dispatches \<Rightarrow> nat \<times> dispatches" where
  "take_dispatch dp = (dp_next dp, dp\<lparr>dp_next := sat_add u8_max (dp_next dp) 1\<rparr>)"

record 'd meter_ctx =
  mc_request_id :: string
  mc_auth :: auth_context
  mc_decision :: "'d routing_decision"
  mc_account :: account_id
  mc_started :: nat
  mc_attempt :: nat
  mc_flat_rate :: bool

definition meter_context :: "auth_context \<Rightarrow> 'd routing_decision \<Rightarrow> 'd held_lease \<Rightarrow> string \<Rightarrow> nat \<Rightarrow> nat \<Rightarrow>
    'd meter_ctx" where
  "meter_context auth dec l rid began ordinal =
     \<lparr>mc_request_id = rid, mc_auth = auth, mc_decision = dec, mc_account = row_id (l_account l),
       mc_started = began, mc_attempt = ordinal,
       mc_flat_rate = (case kind_from_column (row_kind (l_account l)) of None \<Rightarrow> False | Some k \<Rightarrow> flat_rate k)\<rparr>"

record stream_outcome =
  so_accumulator :: accumulator
  so_ttft :: "duration option"
  so_total :: duration
  so_client_gone :: bool
  so_error :: "string option"

definition elapsed_since :: "('d, 'm) env_scheme \<Rightarrow> nat \<Rightarrow> world \<Rightarrow> duration" where
  "elapsed_since E began w = instant_ms E (tick w) - began"

definition collected_outcome :: "('d, 'm) env_scheme \<Rightarrow> 'd meter_ctx \<Rightarrow> accumulator \<Rightarrow> world \<Rightarrow> stream_outcome" where
  "collected_outcome E ctx acc w =
     \<lparr>so_accumulator = acc, so_ttft = None, so_total = elapsed_since E (mc_started ctx) w,
       so_client_gone = False, so_error = None\<rparr>"

record 'd lost_answer =
  lost_ctx :: "'d meter_ctx"
  lost_outcome :: stream_outcome

definition lose :: "('d, 'm) env_scheme \<Rightarrow> 'd meter_ctx \<Rightarrow> accumulator \<Rightarrow> error \<Rightarrow> world \<Rightarrow> 'd lost_answer" where
  "lose E ctx acc e w = \<lparr>lost_ctx = ctx, lost_outcome = (collected_outcome E ctx acc w)\<lparr>so_error := Some (error_display e)\<rparr>\<rparr>"

subsection \<open>Failing over\<close>

definition keep_genuine :: "error \<Rightarrow> error \<Rightarrow> error" where
  "keep_genuine last_error e = (case last_error of NoCredential _ \<Rightarrow> e | _ \<Rightarrow> last_error)"

text \<open>
  The loop, over what it calls: the search for a credential, the attempt on one, the release of a
  lease, the wall-clock budget and the capture of a lost answer. \<open>forward_with_failover\<close> is the loop
  on the gateway's own.
\<close>

fun failover_loop :: "(account_id list \<Rightarrow> world \<Rightarrow> (error + 'd held_lease) \<times> world) \<Rightarrow>
    ('d held_lease \<Rightarrow> nat \<Rightarrow> world \<Rightarrow> ('d, 'q, 'r) outcome \<times> world) \<Rightarrow> ('d held_lease \<Rightarrow> world \<Rightarrow> world) \<Rightarrow>
    (nat \<Rightarrow> world \<Rightarrow> bool) \<Rightarrow> ('d held_lease \<Rightarrow> nat \<Rightarrow> accumulator \<Rightarrow> error \<Rightarrow> world \<Rightarrow> 'd lost_answer) \<Rightarrow>
    nat list \<Rightarrow> account_id list \<Rightarrow> error \<Rightarrow> dispatches \<Rightarrow> 'd lost_answer list \<Rightarrow> world \<Rightarrow>
    (error + ('d, 'q, 'r) attempt) \<times> dispatches \<times> 'd lost_answer list \<times> world" where
  "failover_loop lease_of try_of release_of may lose_of [] excluded last_error dp lost w =
     (Inl last_error, dp, lost, w)"
| "failover_loop lease_of try_of release_of may lose_of (switch # rest) excluded last_error dp lost w =
     (if \<not> may switch w then (Inl last_error, dp, lost, w)
      else case lease_of excluded w of
        (Inl e, w1) \<Rightarrow> (Inl (keep_genuine last_error e), dp, lost, w1)
      | (Inr l, w1) \<Rightarrow>
          (let account = row_id (l_account l);
               (ordinal, dp1) = take_dispatch dp;
               (out, w2) = try_of l ordinal w1
           in case out of
                OutOk a \<Rightarrow> (Inr a, dp1, lost, w2)
              | OutFatal e \<Rightarrow> (Inl e, dp1, lost, release_of l w2)
              | OutEscalate e \<Rightarrow> (Inr (Rejected e), dp1, lost, release_of l w2)
              | OutSwitch e \<Rightarrow>
                  failover_loop lease_of try_of release_of may lose_of rest (account # excluded) e dp1 lost
                    (release_of l w2)
              | OutLost e acc \<Rightarrow>
                  failover_loop lease_of try_of release_of may lose_of rest (account # excluded) e dp1
                    (lost @ [lose_of l ordinal acc e w2]) (release_of l w2)
              | OutRaced \<Rightarrow>
                  failover_loop lease_of try_of release_of may lose_of rest (account # excluded) last_error dp1 lost
                    (release_of l w2)))"

definition search_for :: "auth_context \<Rightarrow> provider \<Rightarrow> string \<Rightarrow> string \<Rightarrow> credential_kind option \<Rightarrow> search" where
  "search_for auth p session rid channel =
     \<lparr>sr_route = au_route auth, sr_principal = au_principal auth, sr_provider = p, sr_session = session,
       sr_request = rid, sr_channel = channel\<rparr>"

definition forward_with_failover :: "('d::linordered_idom, 'q, 'r, 'm) gateway_env_scheme \<Rightarrow> auth_context \<Rightarrow>
    'd routing_decision \<Rightarrow> canonical_request \<Rightarrow> string \<Rightarrow> dispatches \<Rightarrow> 'd lost_answer list \<Rightarrow>
    credential_kind option \<Rightarrow> world \<Rightarrow>
    (error + ('d, 'q, 'r) attempt) \<times> dispatches \<times> 'd lost_answer list \<times> world" where
  "forward_with_failover E auth dec req session dp lost channel w =
     (let rid = dp_request_id dp;
          p = ms_provider (dec_model dec);
          conv = conversation_id E session;
          began = instant_ms E (tick w);
          g = config E
      in failover_loop
           (lease E (search_for auth p session rid channel))
           (try_credential E dec req conv)
           (release_lease E)
           (\<lambda>switch w'. may_try_another switch (elapsed_since E began w') (failover_budget g))
           (\<lambda>l ordinal acc e w'. lose E (meter_context auth dec l rid (dp_started dp) ordinal) acc e w')
           [0..<Suc (max_account_switches g)] [] (NoCredential p) dp lost w)"

subsection \<open>What one credential's attempts leave behind\<close>

definition spoke :: "account_id \<Rightarrow> nat \<Rightarrow> nat \<Rightarrow> world \<Rightarrow> world \<Rightarrow> bool" where
  "spoke a n m w w' \<longleftrightarrow> held w' = held w \<and> sends w' = sends w @ replicate n a \<and>
     (\<exists>xs. sleeps w' = sleeps w @ xs \<and> length xs = m \<and> list_all (\<lambda>x. x \<le> MAX_BACKOFF) xs)"

lemma spoke_trans: "spoke a n m u v \<Longrightarrow> spoke a n' m' v w \<Longrightarrow> spoke a (n + n') (m + m') u w"
  unfolding spoke_def by (auto simp: replicate_add)

lemma same_books_spoke: "same_books w w' \<Longrightarrow> spoke a 0 0 w w'"
  by (simp add: same_books_def spoke_def)

lemma spoke_quiet: "spoke a n m u v \<Longrightarrow> spoke a 0 0 v w \<Longrightarrow> spoke a n m u w"
  using spoke_trans [of a n m u v 0 0 w] by simp

lemma spoke_then: "spoke a 0 0 u v \<Longrightarrow> spoke a n m v w \<Longrightarrow> spoke a n m u w"
  using spoke_trans [of a 0 0 u v n m w] by simp

lemma spoke_await [simp]: "spoke a n m u (await E w) \<longleftrightarrow> spoke a n m u w"
  by (simp add: spoke_def await_def)

lemma spoke_drop [simp]: "spoke a n m u (drop_dispatch d w) \<longleftrightarrow> spoke a n m u w"
  by (simp add: spoke_def drop_dispatch_def)

lemma spoke_breakers [simp]: "spoke a n m u (w\<lparr>w_breakers := b\<rparr>) \<longleftrightarrow> spoke a n m u w"
  by (simp add: spoke_def)

lemma spoke_clock: "read_clock E w = (t, w') \<Longrightarrow> spoke a n m u w' \<longleftrightarrow> spoke a n m u w"
  by (auto simp: read_clock_def spoke_def)

lemma spoke_failure [simp]: "spoke a n m u (replica_record_failure E b w) \<longleftrightarrow> spoke a n m u w"
  by (simp add: replica_record_failure_def spoke_def read_clock_def)

lemma spoke_success [simp]: "spoke a n m u (replica_record_success b w) \<longleftrightarrow> spoke a n m u w"
  by (simp add: replica_record_success_def spoke_def)

lemma spoke_disposition [simp]: "spoke a n m u (apply_disposition E b d w) \<longleftrightarrow> spoke a n m u w"
  by (simp add: apply_disposition_def cool_down_def rate_limit_def read_clock_def spoke_def await_def
      split: disposition.splits)

lemma spoke_refl [simp]: "spoke a 0 0 w w"
  by (simp add: spoke_def)

lemma backoff_le [simp]: "backoff k \<le> MAX_BACKOFF"
  by (simp add: backoff_def)

fun pauses :: "('d, 'q, 'r) verdict \<Rightarrow> nat" where
  "pauses (Return out) = 0"
| "pauses (Again e) = 1"

lemma retry_later_spoke:
  assumes "retry_later E a k e w = (v, w')"
  shows "spoke a 0 (pauses v) w w'"
  using assms
  by (auto simp: retry_later_def read_clock_def spoke_def await_def split: if_splits)

lemma rejected_spoke:
  assumes "rejected E p a k resp w = (v, w')"
  shows "spoke a 0 (pauses v) w w'"
proof -
  define w2 where "w2 = (if rs_status resp = 401 then await E (w\<lparr>refused := a # refused w\<rparr>) else w)"
  have quiet: "spoke a 0 0 w (apply_disposition E a d (replica_record_failure E a (await E w2)))" for d
    by (simp add: w2_def) (simp add: spoke_def)
  show ?thesis
    using assms quiet unfolding rejected_def Let_def w2_def [symmetric]
    by (auto split: step.splits dest!: retry_later_spoke intro: spoke_then [OF quiet])
qed

lemma unanswered_spoke:
  assumes "unanswered E a k e w = (v, w')"
  shows "spoke a 0 (pauses v) w w'"
proof -
  have quiet: "spoke a 0 0 w (replica_record_failure E a w)" by simp
  show ?thesis
    using assms unfolding unanswered_def transport_failure_def Let_def
    by (auto split: error.splits if_splits dest!: retry_later_spoke
        intro: spoke_then [OF quiet])
qed

lemma succeeded_spoke: "succeeded E l resp st oi names ad w = (out, w') \<Longrightarrow> spoke a 0 0 w w'"
  by (auto simp: succeeded_def Let_def split: if_splits)

lemma send_once_spoke:
  assumes "send_once E dec req l oi names ad q k w = (v, w')"
  shows "spoke (row_id (l_account l)) 1 (pauses v) w w'"
proof -
  define w2 where "w2 = await E (w\<lparr>sends := sends w @ [row_id (l_account l)]\<rparr>)"
  have sent: "spoke (row_id (l_account l)) 1 0 w w2" by (simp add: w2_def) (simp add: spoke_def)
  have "spoke (row_id (l_account l)) 0 (pauses v) w2 w'"
    using assms unfolding send_once_def Let_def w2_def [symmetric]
    by (auto split: sum.splits if_splits prod.splits dest!: rejected_spoke unanswered_spoke intro: succeeded_spoke)
  from spoke_trans [OF sent this] show ?thesis by simp
qed

lemma attempts_spoke:
  assumes "attempts E dec req l oi names ad cred conv ks d e w = (out, w')"
  shows "\<exists>n m. n \<le> length ks \<and> m \<le> n \<and> spoke (row_id (l_account l)) n m w w'"
  using assms
proof (induction ks arbitrary: d e w)
  case Nil
  then show ?case by auto
next
  case (Cons k ks)
  let ?a = "row_id (l_account l)"
  consider (quiet) "spoke ?a 0 0 w w'"
    | (sent) q v w1 where "send_once E dec req l oi names ad q k (await E w) = (v, w1)"
        "(case v of Return out' \<Rightarrow> (out', drop_dispatch (dispatch_sent d) w1)
          | Again e' \<Rightarrow> attempts E dec req l oi names ad cred conv ks (dispatch_sent d) e' w1) = (out, w')"
    using Cons.prems by (auto split: sum.splits prod.splits verdict.splits)
  then show ?case
  proof cases
    case quiet
    then show ?thesis by blast
  next
    case sent
    have one: "spoke ?a 1 (pauses v) w w1" using send_once_spoke [OF sent(1)] by (simp add: spoke_def await_def)
    show ?thesis
    proof (cases v)
      case (Return out')
      then have "spoke ?a 1 0 w w'" using one sent(2) by auto
      then show ?thesis by force
    next
      case (Again e')
      from Cons.IH [OF sent(2) [unfolded Again verdict.case]] obtain n m
        where "n \<le> length ks" "m \<le> n" "spoke ?a n m w1 w'" by blast
      then show ?thesis using spoke_trans [OF one, of n m w'] Again
        by (intro exI [of _ "1 + n"] exI [of _ "1 + m"]) simp
    qed
  qed
qed

lemma try_credential_spoke:
  assumes "try_credential E dec req conv l oi w = (out, w')"
  shows "\<exists>n m. n \<le> Suc (same_account_retries (config E)) \<and> m \<le> n \<and> spoke (row_id (l_account l)) n m w w'"
proof -
  consider (quiet) "spoke (row_id (l_account l)) 0 0 w w'"
    | (claimed) t w3 bs req' names ad cred d e where
        "read_clock E (await E (await E w)) = (t, w3)"
        "attempts E dec req' l oi names ad cred conv [0..<Suc (same_account_retries (config E))] d e
           (w3\<lparr>w_breakers := bs\<rparr>) = (out, w')"
    using assms
    by (auto simp: try_credential_def unprepared_def Let_def spoke_clock simp del: upt_Suc attempts.simps
        split: sum.splits prod.splits option.splits)
  then show ?thesis
  proof cases
    case quiet
    then show ?thesis by blast
  next
    case claimed
    have quiet: "spoke (row_id (l_account l)) 0 0 w (w3\<lparr>w_breakers := bs\<rparr>)"
      by (simp add: spoke_clock [OF claimed(1)])
    from attempts_spoke [OF claimed(2)] obtain n m where "n \<le> Suc (same_account_retries (config E))" "m \<le> n"
      "spoke (row_id (l_account l)) n m (w3\<lparr>w_breakers := bs\<rparr>) w'" by auto
    then show ?thesis using spoke_then [OF quiet] by blast
  qed
qed

subsection \<open>The lease a result carries\<close>

fun carried :: "('d, 'q, 'r) attempt \<Rightarrow> 'd held_lease option" where
  "carried (Streaming _ l _ _ _) = Some l"
| "carried (Collected _ _ _ l _ _) = Some l"
| "carried (Rejected _) = None"

fun stamp :: "('d, 'q, 'r) attempt \<Rightarrow> nat option" where
  "stamp (Streaming _ _ k _ _) = Some k"
| "stamp (Collected _ _ _ _ k _) = Some k"
| "stamp (Rejected _) = None"

fun out_carries :: "'d held_lease \<Rightarrow> nat \<Rightarrow> ('d, 'q, 'r) outcome \<Rightarrow> bool" where
  "out_carries l k (OutOk a) = (carried a = Some l \<and> stamp a = Some k)"
| "out_carries l k _ = True"

fun verdict_carries :: "'d held_lease \<Rightarrow> nat \<Rightarrow> ('d, 'q, 'r) verdict \<Rightarrow> bool" where
  "verdict_carries l k (Return out) = out_carries l k out"
| "verdict_carries l k (Again e) = True"

lemma retry_later_carries: "retry_later E a k e w = (v, w') \<Longrightarrow> verdict_carries l oi v"
  by (auto simp: retry_later_def split: prod.splits if_splits)

lemma send_once_carries:
  assumes "send_once E dec req l oi names ad q k w = (v, w')"
  shows "verdict_carries l oi v"
proof -
  have ok: "succeeded E l resp st oi names ad u = (out, u') \<Longrightarrow> out_carries l oi out" for resp st u out u'
    by (auto simp: succeeded_def collect_failed_def Let_def split: if_splits sum.splits prod.splits)
  have no: "rejected E p a k resp u = (v, u') \<Longrightarrow> verdict_carries l oi v" for p a resp u u'
    by (auto simp: rejected_def Let_def split: step.splits intro: retry_later_carries)
  have un: "unanswered E a k e u = (v, u') \<Longrightarrow> verdict_carries l oi v" for a e u u'
    by (auto simp: unanswered_def transport_failure_def Let_def split: error.splits if_splits intro: retry_later_carries)
  show ?thesis
    using assms by (auto simp: send_once_def Let_def split: sum.splits if_splits prod.splits intro: ok no un)
qed

lemma attempts_carries:
  "attempts E dec req l oi names ad cred conv ks d e w = (out, w') \<Longrightarrow> out_carries l oi out"
proof (induction ks arbitrary: d e w)
  case (Cons k ks)
  then show ?case
    by (auto split: sum.splits prod.splits verdict.splits dest: send_once_carries)
qed auto

lemma try_credential_carries:
  "try_credential E dec req conv l oi w = (out, w') \<Longrightarrow> out_carries l oi out"
  by (auto simp: try_credential_def unprepared_def Let_def simp del: upt_Suc attempts.simps
      split: sum.splits prod.splits option.splits intro: attempts_carries)

subsection \<open>The failover loop over its parts\<close>

lemma lease_grants_fresh:
  assumes "lease E s ex w = (Inr l, w')"
  shows "row_id (l_account l) \<notin> set ex \<and> held w' = row_id (l_account l) # held w \<and> sends w' = sends w
    \<and> sleeps w' = sleeps w"
proof -
  obtain rows where found: "repo_candidates E (tick w) (sr_route s) (provider_as_str (sr_provider s)) (sr_principal s) = Inr rows"
    using assms by (auto simp: lease_def split: sum.splits)
  from lease_sound [OF this assms] show ?thesis
    by (auto simp: lease_ok_def usable_def reads_only_def same_books_def)
qed

lemma lease_refusal_books:
  assumes "lease E s ex w = (Inl e, w')"
  shows "same_books w w'"
proof (cases "repo_candidates E (tick w) (sr_route s) (provider_as_str (sr_provider s)) (sr_principal s)")
  case (Inl e')
  then show ?thesis using assms by (auto simp: lease_def)
next
  case (Inr rows)
  from lease_sound [OF this assms] show ?thesis by (simp add: lease_ok_def reads_only_def)
qed

type_synonym run = "account_id \<times> nat"

definition sent_by :: "run list \<Rightarrow> account_id list" where
  "sent_by runs = concat (map (\<lambda>(a, n). replicate n a) runs)"

definition holds_after :: "error + ('d, 'q, 'r) attempt \<Rightarrow> account_id list \<Rightarrow> account_id list" where
  "holds_after res before =
     (case res of
        Inl _ \<Rightarrow> before
      | Inr a \<Rightarrow> (case carried a of None \<Rightarrow> before | Some l \<Rightarrow> row_id (l_account l) # before))"

text \<open>
  The interface between the loop and what it calls. A lease is never on an excluded credential and
  takes one slot; an attempt on a credential sends to that credential alone, at most one more time
  than its retries, waits no longer than the backoff's cap between two sends, keeps the slot, and
  hands on the lease it was given if it answers; a release gives the slot back.
\<close>

locale failover_parts =
  fixes lease_of :: "account_id list \<Rightarrow> world \<Rightarrow> (error + 'd held_lease) \<times> world"
    and try_of :: "'d held_lease \<Rightarrow> nat \<Rightarrow> world \<Rightarrow> ('d, 'q, 'r) outcome \<times> world"
    and release_of :: "'d held_lease \<Rightarrow> world \<Rightarrow> world"
    and retries :: nat
  assumes lease_grants: "lease_of ex w = (Inr l, w') \<Longrightarrow> row_id (l_account l) \<notin> set ex \<and>
      held w' = row_id (l_account l) # held w \<and> sends w' = sends w \<and> sleeps w' = sleeps w"
    and lease_refuses: "lease_of ex w = (Inl e, w') \<Longrightarrow> same_books w w'"
    and try_speaks: "try_of l k w = (out, w') \<Longrightarrow>
      \<exists>n m. n \<le> Suc retries \<and> m \<le> n \<and> spoke (row_id (l_account l)) n m w w'"
    and try_carries: "try_of l k w = (out, w') \<Longrightarrow> out_carries l k out"
    and release_held: "held (release_of l w) = remove1 (row_id (l_account l)) (held w)"
    and release_sends: "sends (release_of l w) = sends w"
    and release_sleeps: "sleeps (release_of l w) = sleeps w"
begin

definition accounted :: "nat \<Rightarrow> account_id list \<Rightarrow> error + ('d, 'q, 'r) attempt \<Rightarrow> world \<Rightarrow> world \<Rightarrow> bool" where
  "accounted tries ex res w w' \<longleftrightarrow>
     (\<exists>runs xs. length runs \<le> tries \<and> distinct (map fst runs) \<and> set (map fst runs) \<inter> set ex = {} \<and>
        list_all (\<lambda>(a, n). n \<le> Suc retries) runs \<and> sends w' = sends w @ sent_by runs \<and>
        sleeps w' = sleeps w @ xs \<and> length xs \<le> length (sent_by runs) \<and> list_all (\<lambda>x. x \<le> MAX_BACKOFF) xs) \<and>
     held w' = holds_after res (held w)"

lemma accounted_idle: "same_books w w' \<Longrightarrow> holds_after res (held w) = held w \<Longrightarrow> accounted tries ex res w w'"
  unfolding accounted_def same_books_def by (auto simp: sent_by_def intro!: exI [of _ "[]"])

lemma accounted_run:
  assumes "lease_of ex w = (Inr l, w1)" and "try_of l k w1 = (out, w2)"
    and rest: "accounted tries (row_id (l_account l) # ex) res (release_of l w2) w'"
  shows "accounted (Suc tries) ex res w w'"
proof -
  let ?a = "row_id (l_account l)"
  note l = lease_grants [OF assms(1)]
  obtain n m where nm: "n \<le> Suc retries" "m \<le> n" "spoke ?a n m w1 w2" using try_speaks [OF assms(2)] by blast
  then obtain ys where ys: "sleeps w2 = sleeps w1 @ ys" "length ys = m" "list_all (\<lambda>x. x \<le> MAX_BACKOFF) ys"
    and w2: "held w2 = held w1" "sends w2 = sends w1 @ replicate n ?a" by (auto simp: spoke_def)
  obtain runs xs where runs: "length runs \<le> tries" "distinct (map fst runs)"
      "set (map fst runs) \<inter> set (?a # ex) = {}" "list_all (\<lambda>(a, n). n \<le> Suc retries) runs"
      "sends w' = sends w2 @ sent_by runs" "sleeps w' = sleeps w2 @ xs"
      "length xs \<le> length (sent_by runs)" "list_all (\<lambda>x. x \<le> MAX_BACKOFF) xs"
    and held: "held w' = holds_after res (held (release_of l w2))"
    using rest by (auto simp: accounted_def release_sends release_sleeps)
  have "held (release_of l w2) = held w" using l w2 by (simp add: release_held)
  then show ?thesis
    unfolding accounted_def using nm ys w2 runs held l
    by (intro conjI exI [of _ "(?a, n) # runs"] exI [of _ "ys @ xs"]) (auto simp: sent_by_def)
qed

lemma accounted_last:
  assumes "lease_of ex w = (Inr l, w1)" and "try_of l k w1 = (OutOk a, w2)"
  shows "accounted (Suc tries) ex (Inr a) w w2"
proof -
  let ?a = "row_id (l_account l)"
  note l = lease_grants [OF assms(1)]
  obtain n m where "n \<le> Suc retries" "m \<le> n" "spoke ?a n m w1 w2" using try_speaks [OF assms(2)] by blast
  then show ?thesis
    using l try_carries [OF assms(2)] unfolding accounted_def
    by (intro conjI exI [of _ "[(?a, n)]"]) (auto simp: sent_by_def spoke_def holds_after_def)
qed

theorem loop_accounted:
  assumes "failover_loop lease_of try_of release_of may lose_of ks ex last_error dp lost w = (res, dp', lost', w')"
  shows "accounted (length ks) ex res w w'"
  using assms
proof (induction ks arbitrary: ex last_error dp lost w)
  case Nil
  then show ?case by (auto intro: accounted_idle simp: holds_after_def)
next
  case (Cons k ks)
  show ?case
  proof (cases "may k w")
    case False
    then show ?thesis using Cons.prems by (auto intro: accounted_idle simp: holds_after_def)
  next
    case True
    obtain r w1 where lw: "lease_of ex w = (r, w1)" by force
    show ?thesis
    proof (cases r)
      case (Inl e)
      then show ?thesis using Cons.prems True lw
        by (auto intro!: accounted_idle lease_refuses simp: holds_after_def)
    next
      case (Inr l)
      obtain oi dp1 where dp: "take_dispatch dp = (oi, dp1)" by force
      obtain out w2 where tw: "try_of l oi w1 = (out, w2)" by force
      note run = accounted_run [OF lw [unfolded Inr] tw]
      have stop: "accounted t x (Inl e) u u" "accounted t x (Inr (Rejected e)) u u" for t x e u
        by (auto intro!: accounted_idle simp: holds_after_def)
      show ?thesis
        using Cons.prems True lw Inr dp tw
        by (cases out) (auto intro: run stop Cons.IH accounted_last)
    qed
  qed
qed

end

text \<open>The ledger keys of a run: the ordinals of the answers it lost and of the answer it returns.\<close>

definition ordinals :: "'d lost_answer list \<Rightarrow> error + ('d, 'q, 'r) attempt \<Rightarrow> nat list" where
  "ordinals lost res = map (mc_attempt \<circ> lost_ctx) lost @
     (case res of Inl _ \<Rightarrow> [] | Inr a \<Rightarrow> (case stamp a of None \<Rightarrow> [] | Some k \<Rightarrow> [k]))"

definition numbered :: "nat \<Rightarrow> nat \<Rightarrow> 'd lost_answer list \<Rightarrow> error + ('d, 'q, 'r) attempt \<Rightarrow> bool" where
  "numbered n n' lost res \<longleftrightarrow> n \<le> n' \<and> distinct (ordinals lost res) \<and> set (ordinals lost res) \<subseteq> {n..<n'}"

lemma numbered_later: "numbered (Suc n) n' lost res \<Longrightarrow> numbered n n' lost res"
  by (auto simp: numbered_def)

lemma numbered_lost:
  "numbered (Suc n) n' lost res \<Longrightarrow> mc_attempt (lost_ctx x) = n \<Longrightarrow> numbered n n' (x # lost) res"
  by (auto simp: numbered_def ordinals_def)

context failover_parts
begin

lemma loop_numbered:
  assumes "\<And>l k acc e w. mc_attempt (lost_ctx (lose_of l k acc e w)) = k"
    and "failover_loop lease_of try_of release_of may lose_of ks ex last_error dp lost w = (res, dp', lost', w')"
    and "dp_next dp + length ks \<le> u8_max"
  shows "\<exists>new. lost' = lost @ new \<and> numbered (dp_next dp) (dp_next dp') new res \<and>
    dp_next dp' \<le> dp_next dp + length ks \<and> dp_request_id dp' = dp_request_id dp \<and> dp_started dp' = dp_started dp"
  using assms(2,3)
proof (induction ks arbitrary: ex last_error dp lost w)
  case Nil
  then show ?case by (auto simp: numbered_def ordinals_def)
next
  case (Cons k ks)
  have idle: "numbered (dp_next dp) (dp_next dp) [] (Inl e)" for e by (simp add: numbered_def ordinals_def)
  show ?case
  proof (cases "may k w")
    case False
    then show ?thesis using Cons.prems idle by auto
  next
    case True
    obtain r w1 where lw: "lease_of ex w = (r, w1)" by force
    show ?thesis
    proof (cases r)
      case (Inl e)
      then show ?thesis using Cons.prems True lw idle by auto
    next
      case (Inr l)
      define dp1 where "dp1 = dp\<lparr>dp_next := Suc (dp_next dp)\<rparr>"
      have dp: "take_dispatch dp = (dp_next dp, dp1)" and n1: "dp_next dp1 = Suc (dp_next dp)"
          "dp_request_id dp1 = dp_request_id dp" "dp_started dp1 = dp_started dp"
        using Cons.prems(2) by (simp_all add: take_dispatch_def dp1_def sat_add_def)
      obtain out w2 where tw: "try_of l (dp_next dp) w1 = (out, w2)" by force
      note IH = Cons.IH [of _ _ dp1 _ "release_of l w2"]
      have fin: "numbered (dp_next dp) (dp_next dp1) [] (Inl e)"
          "numbered (dp_next dp) (dp_next dp1) [] (Inr (Rejected e))"
          "out = OutOk a \<Longrightarrow> numbered (dp_next dp) (dp_next dp1) [] (Inr a)" for e a
        using try_carries [OF tw] by (auto simp: numbered_def ordinals_def n1)
      show ?thesis
      proof (cases out)
        case (OutLost e acc)
        with Cons.prems True lw Inr dp tw IH [of "row_id (l_account l) # ex" e "lost @ [lose_of l (dp_next dp) acc e w2]"]
        obtain new where "lost' = (lost @ [lose_of l (dp_next dp) acc e w2]) @ new"
          "numbered (dp_next dp1) (dp_next dp') new res" "dp_next dp' \<le> dp_next dp1 + length ks"
          "dp_request_id dp' = dp_request_id dp1" "dp_started dp' = dp_started dp1"
          by (auto simp: n1)
        then show ?thesis using numbered_lost [of "dp_next dp" "dp_next dp'" new res, OF _ assms(1)]
          by (intro exI [of _ "lose_of l (dp_next dp) acc e w2 # new"]) (simp add: n1)
      qed (use Cons.prems True lw Inr dp tw fin n1 in \<open>auto dest!: IH intro: numbered_later\<close>)
    qed
  qed
qed

end

interpretation gateway: failover_parts "lease E s" "try_credential E dec req conv" "release_lease E"
    "same_account_retries (config E)"
  for E :: "('d::linordered_idom, 'q, 'r, 'm) gateway_env_scheme" and s dec req conv
proof unfold_locales
  fix ex w l w'
  assume "lease E s ex w = (Inr l, w')"
  then show "row_id (l_account l) \<notin> set ex \<and> held w' = row_id (l_account l) # held w \<and> sends w' = sends w
      \<and> sleeps w' = sleeps w"
    by (rule lease_grants_fresh)
next
  fix ex w e w'
  assume "lease E s ex w = (Inl e, w')"
  then show "same_books w w'" by (rule lease_refusal_books)
next
  fix l k w out w'
  assume "try_credential E dec req conv l k w = (out, w')"
  then show "\<exists>n m. n \<le> Suc (same_account_retries (config E)) \<and> m \<le> n \<and> spoke (row_id (l_account l)) n m w w'"
    by (rule try_credential_spoke)
next
  fix l k w out w'
  assume "try_credential E dec req conv l k w = (out, w')"
  then show "out_carries l k out" by (rule try_credential_carries)
qed (simp_all add: release_lease_def await_def)

subsection \<open>Which error a failed request reports\<close>

text \<open>The errors a search for a credential ends in, as opposed to those of an upstream.\<close>

fun search_error :: "error \<Rightarrow> bool" where
  "search_error (NoCredential _) = True"
| "search_error (NoCredentialOfKind _ _) = True"
| "search_error (ReserveHeld _ _) = True"
| "search_error (AtCapacity _ _) = True"
| "search_error _ = False"

definition own_errors :: "error + 'a \<Rightarrow> bool" where
  "own_errors r \<longleftrightarrow> (case r of Inl e \<Rightarrow> \<not> search_error e | Inr _ \<Rightarrow> True)"

definition adapter_of :: "('d, 'q, 'r, 'm) gateway_env_scheme \<Rightarrow> ('d, 'q) adapter \<Rightarrow> bool" where
  "adapter_of E ad \<longleftrightarrow> ad = codex_adapter E \<or> (\<exists>t. ad \<in> snd ` set (adapter_map E t))"

text \<open>Nothing but the search itself reports that there is no credential.\<close>

definition upstream_errors_are_own :: "('d, 'q, 'r, 'm) gateway_env_scheme \<Rightarrow> bool" where
  "upstream_errors_are_own E \<longleftrightarrow>
     (\<forall>t r. own_errors (ensure_fresh E t r)) \<and> (\<forall>t a p. own_errors (transports_get E t a p)) \<and>
     (\<forall>t a q. own_errors (transport_execute E t a q)) \<and>
     (\<forall>t r ad n e acc. collect_stream_with E t r ad n = Inl (e, acc) \<longrightarrow> \<not> search_error e) \<and>
     (\<forall>t r d n. own_errors (collect_with E t r d n)) \<and>
     (\<forall>ad. adapter_of E ad \<longrightarrow> (\<forall>t a m p. own_errors (prepare_credential ad t a m p)) \<and>
        (\<forall>c s m v. own_errors (build_request ad c s m v)))"

fun out_own :: "('d, 'q, 'r) outcome \<Rightarrow> bool" where
  "out_own (OutOk a) = True"
| "out_own (OutSwitch e) = (\<not> search_error e)"
| "out_own (OutLost e acc) = (\<not> search_error e)"
| "out_own OutRaced = False"
| "out_own (OutEscalate e) = (\<not> search_error e)"
| "out_own (OutFatal e) = (\<not> search_error e)"

fun verdict_own :: "('d, 'q, 'r) verdict \<Rightarrow> bool" where
  "verdict_own (Return out) = out_own out"
| "verdict_own (Again e) = (\<not> search_error e)"

lemma own_errorsD: "own_errors r \<Longrightarrow> r = Inl e \<Longrightarrow> \<not> search_error e"
  by (simp add: own_errors_def)

lemma upstream_ownD:
  assumes "upstream_errors_are_own E"
  shows "ensure_fresh E t r = Inl e \<Longrightarrow> \<not> search_error e"
    and "transports_get E t a p = Inl e \<Longrightarrow> \<not> search_error e"
    and "transport_execute E t a q = Inl e \<Longrightarrow> \<not> search_error e"
    and "adapter_of E ad \<Longrightarrow> prepare_credential ad t a m p = Inl e \<Longrightarrow> \<not> search_error e"
    and "adapter_of E ad \<Longrightarrow> build_request ad c s m v = Inl e \<Longrightarrow> \<not> search_error e"
    and "collect_stream_with E t resp ad n = Inl (e, acc) \<Longrightarrow> \<not> search_error e"
    and "collect_with E t resp dl n = Inl e \<Longrightarrow> \<not> search_error e"
proof -
  have own: "own_errors (ensure_fresh E t r)" "own_errors (transports_get E t a p)"
    "own_errors (transport_execute E t a q)" "own_errors (collect_with E t resp dl n)"
    using assms by (simp_all add: upstream_errors_are_own_def)
  show "ensure_fresh E t r = Inl e \<Longrightarrow> \<not> search_error e" "transports_get E t a p = Inl e \<Longrightarrow> \<not> search_error e"
    "transport_execute E t a q = Inl e \<Longrightarrow> \<not> search_error e" "collect_with E t resp dl n = Inl e \<Longrightarrow> \<not> search_error e"
    using own by (auto simp: own_errors_def)
  show "collect_stream_with E t resp ad n = Inl (e, acc) \<Longrightarrow> \<not> search_error e"
    using assms by (simp add: upstream_errors_are_own_def) blast
  assume "adapter_of E ad"
  then have "own_errors (prepare_credential ad t a m p)" "own_errors (build_request ad c s m v)"
    using assms by (simp_all add: upstream_errors_are_own_def)
  then show "prepare_credential ad t a m p = Inl e \<Longrightarrow> \<not> search_error e"
    "build_request ad c s m v = Inl e \<Longrightarrow> \<not> search_error e"
    by (auto simp: own_errors_def)
qed

lemma retry_later_own: "retry_later E a k e w = (v, w') \<Longrightarrow> \<not> search_error e \<Longrightarrow> verdict_own v"
  by (auto simp: retry_later_def split: prod.splits if_splits)

lemma rejected_own: "rejected E p a k resp w = (v, w') \<Longrightarrow> verdict_own v"
  by (auto simp: rejected_def Let_def split: step.splits intro: retry_later_own)

lemma unanswered_own: "unanswered E a k e w = (v, w') \<Longrightarrow> \<not> search_error e \<Longrightarrow> verdict_own v"
  by (auto simp: unanswered_def transport_failure_def Let_def split: error.splits if_splits intro: retry_later_own)

lemma succeeded_own:
  assumes "upstream_errors_are_own E" and "succeeded E l resp st oi names ad w = (out, w')"
  shows "out_own out"
  using assms(2) upstream_ownD(6,7) [OF assms(1)]
  by (auto simp: succeeded_def collect_failed_def Let_def split: if_splits sum.splits prod.splits)

lemma send_once_own:
  assumes "upstream_errors_are_own E" and "send_once E dec req l oi names ad q k w = (v, w')"
  shows "verdict_own v"
  using assms(2) succeeded_own [OF assms(1)] upstream_ownD(3) [OF assms(1)]
  by (auto simp: send_once_def Let_def split: sum.splits if_splits prod.splits
      intro: rejected_own unanswered_own)

lemma attempts_own:
  assumes "upstream_errors_are_own E" and "adapter_of E ad"
    and "attempts E dec req l oi names ad cred conv ks d e w = (out, w')" and "ks \<noteq> [] \<or> \<not> search_error e"
  shows "out_own out"
  using assms(3,4)
proof (induction ks arbitrary: d e w)
  case (Cons k ks)
  note own = upstream_ownD(2) [OF assms(1)] upstream_ownD(5) [OF assms(1,2)]
  show ?case
    using Cons.prems(1) Cons.IH send_once_own [OF assms(1)]
    by (auto split: sum.splits prod.splits verdict.splits dest: own) fastforce+
qed auto

lemma adapter_for_adapter: "adapter_for E p row w = Inr ad \<Longrightarrow> adapter_of E ad"
  unfolding adapter_for_def state_adapter_def adapter_of_def
  by (auto split: if_splits option.splits prod.splits dest!: find_SomeD) force+

lemma try_credential_own:
  assumes "upstream_errors_are_own E" and "try_credential E dec req conv l oi w = (out, w')"
  shows "out_own out \<or> out = OutRaced \<and> sends w' = sends w"
proof (cases "adapter_for E (ms_provider (dec_model dec)) (l_account l) w")
  case (Inl e)
  then have "e = Internal (''no adapter for provider '' @ provider_as_str (ms_provider (dec_model dec)))"
    by (auto simp: adapter_for_def state_adapter_def split: if_splits option.splits)
  then show ?thesis using assms(2) Inl by (auto simp: try_credential_def)
next
  case (Inr ad)
  note ad = adapter_for_adapter [OF this]
  show ?thesis
    using assms(2) Inr upstream_ownD(1) [OF assms(1)] upstream_ownD(4) [OF assms(1) ad]
    by (auto simp: try_credential_def unprepared_def read_clock_def await_def Let_def simp del: upt_Suc attempts.simps
        split: sum.splits prod.splits option.splits dest: attempts_own [OF assms(1) ad])
qed

context failover_parts
begin

lemma keeps_genuine_error:
  assumes own: "\<And>l k w out w'. try_of l k w = (out, w') \<Longrightarrow> out_own out \<or> out = OutRaced \<and> sends w' = sends w"
    and "failover_loop lease_of try_of release_of may lose_of ks ex last_error dp lost w = (Inl e, dp', lost', w')"
    and "sends w = before \<or> \<not> search_error last_error"
  shows "sends w' = before \<or> \<not> search_error e"
  using assms(2,3)
proof (induction ks arbitrary: ex last_error dp lost w)
  case (Cons k ks)
  show ?case
  proof (cases "may k w")
    case True
    obtain r w1 where lw: "lease_of ex w = (r, w1)" by force
    show ?thesis
    proof (cases r)
      case (Inl e')
      then have "e = keep_genuine last_error e'" "sends w' = sends w"
        using Cons.prems(1) True lw lease_refuses [of ex w e' w1] by (auto simp: same_books_def)
      then show ?thesis using Cons.prems(2) by (auto simp: keep_genuine_def split: error.splits)
    next
      case (Inr l)
      obtain oi dp1 where dp: "take_dispatch dp = (oi, dp1)" by force
      obtain out w2 where tw: "try_of l oi w1 = (out, w2)" by force
      have same: "sends w1 = sends w" using lease_grants lw Inr by blast
      show ?thesis
        using Cons.prems True lw Inr dp tw same own [OF tw] Cons.IH
        by (cases out) (auto simp: release_sends)
    qed
  qed (use Cons.prems in auto)
qed auto

end

text \<open>
  C1. Forwarding is bounded and leaks no slot, whatever the upstreams, the clocks and Redis do. The
  requests it sends are runs on distinct credentials, at most one more than the allowed switches,
  each run at most one more than the allowed retries; it sleeps at most once for each request sent
  and never longer than the cap; and afterwards the caller holds the slots it held before, plus the
  slot of the answer's own lease when there is an answer.
\<close>

theorem forwarding_is_bounded:
  fixes E :: "('d::linordered_idom, 'q, 'r, 'm) gateway_env_scheme"
  assumes "forward_with_failover E auth dec req session dp lost channel w = (res, dp', lost', w')"
  shows "(\<exists>runs xs. length runs \<le> Suc (max_account_switches (config E)) \<and> distinct (map fst runs) \<and>
        list_all (\<lambda>(a, n). n \<le> Suc (same_account_retries (config E))) runs \<and>
        sends w' = sends w @ sent_by runs \<and>
        sleeps w' = sleeps w @ xs \<and> length xs \<le> length (sent_by runs) \<and> list_all (\<lambda>x. x \<le> MAX_BACKOFF) xs) \<and>
     held w' = holds_after res (held w)"
  using gateway.loop_accounted [OF assms [unfolded forward_with_failover_def Let_def]]
  unfolding gateway.accounted_def by fastforce

text \<open>
  C8. One rung's forwarding that reached an upstream never ends by blaming the pool: if this call of
  \<open>forward_with_failover\<close> sent anything, the error it returns is one of an upstream or of building a
  request, not ``no credential'', ``at capacity'' or ``reserve held'', even when the credentials run
  out afterwards or a probe is lost to another request. Assumed is that the parts outside the search
  do not report such errors themselves. It says nothing of a request that climbs: a second rung that
  sent nothing may still end it with an error of the pool.
\<close>

theorem upstream_error_is_not_buried:
  fixes E :: "('d::linordered_idom, 'q, 'r, 'm) gateway_env_scheme"
  assumes "upstream_errors_are_own E"
    and "forward_with_failover E auth dec req session dp lost channel w = (Inl e, dp', lost', w')"
    and "sends w' \<noteq> sends w"
  shows "\<not> search_error e"
proof -
  have "sends w' = sends w \<or> \<not> search_error e"
    by (rule gateway.keeps_genuine_error [OF _ assms(2) [unfolded forward_with_failover_def Let_def]])
      (use try_credential_own [OF assms(1)] in blast, simp)
  with assms(3) show ?thesis by blast
qed

text \<open>A concrete run: one seat, whose upstream answers 503.\<close>

definition sample_adapter :: "(int, unit) adapter" where
  "sample_adapter = \<lparr>ad_dialect = AnthropicMessages, ad_framing = Sse, always_streams = False,
     prepare_credential = \<lambda>_ _ m _. Inr m, build_request = \<lambda>_ _ _ _. Inr ()\<rparr>"

definition sample_secret :: secret_material where
  "sample_secret = \<lparr>access_token = ''t'', refresh_token = None, expires_at = None, version = 0,
     client_id = None, sm_account_id = None\<rparr>"

definition sample_config :: gateway_config where
  "sample_config = \<lparr>same_account_retries = 0, max_account_switches = 1, failover_budget = 60000,
     upstream_response_timeout = 0, max_stream_duration = 0, stream_idle_timeout = 0, client_write_timeout = 0\<rparr>"

definition sample_gateway :: "(int, unit, unit) gateway_env" where
  "sample_gateway = env.extend (sample_env [sample_row 3 ''oauth'']) (gateway_env.fields sample_config sample_adapter
     (\<lambda>_. []) (\<lambda>_ _. Inr sample_secret) (\<lambda>_ _ _. Inr ())
     (\<lambda>_ _ _. Inr \<lparr>rs_status = 503, rs_retry_after = None, rs_text = None, rs_body = ()\<rparr>)
     (\<lambda>_ _ _ _. Inr ([], acc_new)) (\<lambda>_ _ _ _. Inr ([], [], acc_new)) (\<lambda>s. s))"

lemmas sample_gateway_defs = sample_gateway_def sample_env_def env.defs gateway_env.defs

definition sample_request :: canonical_request where
  "sample_request = \<lparr>cr_model = ''m'', cr_system = [], cr_messages = [], cr_tools = [], cr_max_tokens = 100,
     cr_stream = False, cr_temperature = None, thinking_budget = None, thinking_effort = None,
     cr_client_session = None, cr_tool_choice = None, cr_response_format = None, cr_stop = [],
     previous_response_id = None, cr_passthrough = None\<rparr>"

definition sample_decision :: "int routing_decision" where
  "sample_decision = \<lparr>dec_model = sample_model ''a/x'' OpenAI ''x'' 2, dec_tier = None, dec_reason = ReasonPassthrough,
     capability_escalated_from = None, ceiling_model = None\<rparr>"

definition sample_auth :: auth_context where
  "sample_auth = \<lparr>au_route = ''r'', au_principal = ''p'', au_api_key = ''k''\<rparr>"

lemma sample_lease_first:
  "\<exists>w'. lease sample_gateway (search_for sample_auth OpenAI ''s'' ''q'' None) [] sample_world =
     (Inr \<lparr>l_account = sample_row 3 ''oauth'', l_request_id = ''q'', via_sticky = False\<rparr>, w') \<and>
     w_breakers w' = breakers_new \<and> held w' = [3] \<and> sends w' = []"
  by (auto simp: lease_def lease_by_cascade_def cascade.simps [of _ _ _ _ _ "[_]"] candidates_for_def claim_slot_def
        grant_def leased_def sample_gateway_defs search_for_def sample_auth_def of_kind_def read_clock_def
        eligible_with_def is_eligible_def is_live_def held_by_reserve_def Let_def select_def eligible_def try_pinned_def
        breakers_permits_def breakers_new_def await_def sample_world_def sticky_set_def List.map_filter_simps
        fastrand_u64_def)

lemma sample_lease_none:
  "\<exists>w'. lease sample_gateway (search_for sample_auth OpenAI ''s'' ''q'' None) [3] w = (Inl (NoCredential OpenAI), w') \<and>
     sends w' = sends w"
  by (auto simp: lease_def lease_by_cascade_def cascade.simps [of _ _ _ _ _ "[]"] sample_gateway_defs search_for_def
      sample_auth_def of_kind_def read_clock_def await_def nothing_usable_def reserve_holding_back_def
      row_held_by_reserve_def held_by_reserve_def sample_row_def)

lemma sample_try:
  assumes "w_breakers w = breakers_new"
  shows "\<exists>w'. try_credential sample_gateway sample_decision sample_request (conversation_id sample_gateway ''s'')
      \<lparr>l_account = sample_row 3 ''oauth'', l_request_id = ''q'', via_sticky = False\<rparr> 0 w =
    (OutSwitch (Upstream OpenAI 3 503 [] None), w') \<and> sends w' = sends w @ [3]"
  using assms
  by (auto simp: try_credential_def adapter_for_def sample_gateway_defs sample_decision_def sample_model_def
      kind_from_column_def sample_adapter_def openai_function_names_def req_for_model_def sample_request_def
      sample_config_def await_def read_clock_def dispatch_claim_def breakers_begin_request_def breakers_new_def
      entry_def send_once_def rejected_def step_for_def upstream_disposition_def upstream_retry_after_def
      truncate_text_def apply_disposition_def cool_down_def replica_record_failure_def drop_dispatch_def Let_def)

lemma sample_forward:
  "\<exists>dp' lost' w'. forward_with_failover sample_gateway sample_auth sample_decision sample_request ''s''
     (dispatches_new ''q'' 0) [] None sample_world = (Inl (Upstream OpenAI 3 503 [] None), dp', lost', w') \<and>
     sends w' = [3]"
proof -
  have p: "ms_provider (dec_model sample_decision) = OpenAI" and q: "dp_request_id (dispatches_new ''q'' 0) = ''q''"
    by (simp_all add: sample_decision_def sample_model_def dispatches_new_def)
  have g: "config sample_gateway = sample_config" by (simp add: sample_gateway_defs)
  obtain w1 where w1: "lease sample_gateway (search_for sample_auth OpenAI ''s'' ''q'' None) [] sample_world =
     (Inr \<lparr>l_account = sample_row 3 ''oauth'', l_request_id = ''q'', via_sticky = False\<rparr>, w1)"
     "w_breakers w1 = breakers_new" "sends w1 = []"
    using sample_lease_first by auto
  obtain w2 where w2: "try_credential sample_gateway sample_decision sample_request (conversation_id sample_gateway ''s'')
      \<lparr>l_account = sample_row 3 ''oauth'', l_request_id = ''q'', via_sticky = False\<rparr> 0 w1 =
    (OutSwitch (Upstream OpenAI 3 503 [] None), w2)" "sends w2 = [3]"
    using sample_try [OF w1(2)] w1(3) by auto
  let ?w3 = "release_lease sample_gateway \<lparr>l_account = sample_row 3 ''oauth'', l_request_id = ''q'', via_sticky = False\<rparr> w2"
  obtain w4 where w4: "lease sample_gateway (search_for sample_auth OpenAI ''s'' ''q'' None) [3] ?w3 =
      (Inl (NoCredential OpenAI), w4)" "sends w4 = [3]"
    using sample_lease_none [of ?w3] w2(2) by (auto simp: release_lease_def await_def)
  have "[0..<Suc (max_account_switches sample_config)] = [0, 1]" by (simp add: sample_config_def upt_rec)
  moreover have "take_dispatch (dispatches_new ''q'' 0) = (0, (dispatches_new ''q'' 0)\<lparr>dp_next := 1\<rparr>)"
    by (simp add: take_dispatch_def dispatches_new_def sat_add_def u8_max_def)
  moreover have "sends ?w3 = [3]" using w2(2) by (simp add: release_lease_def await_def)
  ultimately show ?thesis
    using w1(1) w2(1) w4
    by (simp add: forward_with_failover_def p q g may_try_another_def keep_genuine_def Let_def)
qed

theorem forwarding_is_bounded_witness:
  "\<exists>res dp' lost' w'. forward_with_failover sample_gateway sample_auth sample_decision sample_request ''s''
     (dispatches_new ''q'' 0) [] None sample_world = (res, dp', lost', w') \<and> sends w' = [3] \<and> held w' = []"
proof -
  obtain dp' lost' w' where run: "forward_with_failover sample_gateway sample_auth sample_decision sample_request ''s''
     (dispatches_new ''q'' 0) [] None sample_world = (Inl (Upstream OpenAI 3 503 [] None), dp', lost', w')" "sends w' = [3]"
    using sample_forward by blast
  from forwarding_is_bounded [OF run(1)] run show ?thesis
    by (auto simp: holds_after_def sample_world_def)
qed

theorem upstream_error_is_not_buried_witness:
  "\<exists>e dp' lost' w'. forward_with_failover sample_gateway sample_auth sample_decision sample_request ''s''
     (dispatches_new ''q'' 0) [] None sample_world = (Inl e, dp', lost', w') \<and> sends w' = [3] \<and> \<not> search_error e"
proof -
  obtain dp' lost' w' where run: "forward_with_failover sample_gateway sample_auth sample_decision sample_request ''s''
     (dispatches_new ''q'' 0) [] None sample_world = (Inl (Upstream OpenAI 3 503 [] None), dp', lost', w')" "sends w' = [3]"
    using sample_forward by blast
  have own: "upstream_errors_are_own sample_gateway"
    by (auto simp: upstream_errors_are_own_def own_errors_def adapter_of_def sample_gateway_defs sample_adapter_def)
  from upstream_error_is_not_buried [OF own run(1)] run show ?thesis
    by (auto simp: sample_world_def)
qed

end
