(* ===== verification/Climb.thy ===== *)
theory Climb
  imports Failover Routing
begin

text \<open>
  Climbing the ladder when an answer is not good enough (\<^verbatim>\<open>oag-server/src/gateway/climb.rs\<close>):
  forward, judge the answer, and try one rung up. The loop is a recursive function whose termination
  is the escalation ceiling. What the request owes the ledger is a list of rows in the order the
  detached task writes them; the answer handed to the renderers is the datatype \<open>reply\<close>, with
  \<^verbatim>\<open>stream_response\<close> of \<^verbatim>\<open>respond.rs\<close> up to the start of its pump.
\<close>

definition MAX_ESCALATIONS :: nat where "MAX_ESCALATIONS = 1"

record 'd plan =
  pl_policy :: routing_policy
  pl_decision :: "'d routing_decision"
  pl_signal :: request_signal
  pl_catalog :: "'d catalog"
  pl_pressure :: budget_pressure
  pl_channel :: "credential_kind option"
  pl_served :: "string list"

definition should_climb :: "selection_reason \<Rightarrow> quality_gate \<Rightarrow> budget_pressure \<Rightarrow> nat \<Rightarrow> nat \<Rightarrow> nat \<Rightarrow> bool" where
  "should_climb reason gate p escalations requested_max model_max \<longleftrightarrow>
     climb_allowed reason \<and>
     \<not> (gate = Truncated \<and> truncated_by_client_cap requested_max model_max) \<and>
     escalation_allowed p escalations MAX_ESCALATIONS"

definition budget_alone_prevented_the_climb :: "'d::linorder decimal \<Rightarrow> quality_gate option \<Rightarrow> budget_pressure \<Rightarrow>
    'd routing_decision \<Rightarrow> nat \<Rightarrow> nat \<Rightarrow> routing_policy \<Rightarrow> request_signal \<Rightarrow> 'd catalog \<Rightarrow> string list \<Rightarrow> bool" where
  "budget_alone_prevented_the_climb D gate p dec escalations max_tokens policy signal catalog served =
     (case gate of
        None \<Rightarrow> False
      | Some g \<Rightarrow>
          p \<noteq> Normal \<and>
          should_climb (dec_reason dec) g Normal escalations max_tokens (ms_max_output_tokens (dec_model dec)) \<and>
          (case dec_tier dec of
             None \<Rightarrow> False
           | Some start \<Rightarrow> policy_escalate D policy start g signal catalog max_tokens served \<noteq> None))"

subsection \<open>What the request owes the ledger, and what it answers\<close>

record 'd abandoned_answer =
  ab_ctx :: "'d meter_ctx"
  ab_outcome :: stream_outcome
  ab_gate :: quality_gate

definition abandon :: "('d, 'm) env_scheme \<Rightarrow> 'd meter_ctx \<Rightarrow> accumulator \<Rightarrow> quality_gate \<Rightarrow> world \<Rightarrow> 'd abandoned_answer" where
  "abandon E ctx acc gate w = \<lparr>ab_ctx = ctx, ab_outcome = collected_outcome E ctx acc w, ab_gate = gate\<rparr>"

datatype 'd ledger_row =
    RowCollected "'d meter_ctx" accumulator "quality_gate option"
  | RowAbandoned "'d abandoned_answer"
  | RowLost "'d lost_answer"

definition unserved_rows :: "'d abandoned_answer option \<Rightarrow> 'd lost_answer list \<Rightarrow> 'd ledger_row list" where
  "unserved_rows abandoned lost =
     (case abandoned of None \<Rightarrow> [] | Some a \<Rightarrow> [RowAbandoned a]) @ map RowLost lost"

datatype ('d, 'q, 'r) reply =
    StreamReply "'r response" egress "'d meter_ctx" "quality_gate option" "'d held_lease" function_name_map
      "('d, 'q) adapter" "'d routing_decision"
  | JsonReply bytes "stream_event list" "quality_gate option" "'d routing_decision" dialect bool bool

definition stream_response :: "('d, 'm) env_scheme \<Rightarrow> 'r response \<Rightarrow> 'd held_lease \<Rightarrow> auth_context \<Rightarrow>
    'd routing_decision \<Rightarrow> string \<Rightarrow> nat \<Rightarrow> nat \<Rightarrow> dialect \<Rightarrow> quality_gate option \<Rightarrow> function_name_map \<Rightarrow>
    ('d, 'q) adapter \<Rightarrow> world \<Rightarrow> (error + ('d, 'q, 'r) reply) \<times> world" where
  "stream_response E resp l auth dec rid started ordinal ingress trig names ad w =
     (case egress_for ingress dec rid (ad_framing ad) (ad_dialect ad) (names_rewrite names) of
        Inl e \<Rightarrow> (Inl e, release_lease E l w)
      | Inr eg \<Rightarrow>
          (Inr (StreamReply resp eg (meter_context auth dec l rid started ordinal) trig l names ad dec), w))"

record 'd climb_state =
  cs_request :: canonical_request
  cs_decision :: "'d routing_decision"
  cs_escalations :: nat
  cs_trigger :: "quality_gate option"
  cs_abandoned :: "'d abandoned_answer option"
  cs_lost :: "'d lost_answer list"
  cs_dispatches :: dispatches

definition climb_to :: "'d routing_decision \<Rightarrow> quality_gate \<Rightarrow> 'd climb_state \<Rightarrow> 'd climb_state" where
  "climb_to next gate c = c\<lparr>cs_request := (cs_request c)\<lparr>cr_model := upstream_name (dec_model next)\<rparr>,
     cs_decision := next, cs_escalations := cs_escalations c + 1, cs_trigger := Some gate\<rparr>"

definition next_rung :: "'d::linorder decimal \<Rightarrow> 'd plan \<Rightarrow> quality_gate \<Rightarrow> 'd climb_state \<Rightarrow> 'd routing_decision option" where
  "next_rung D pl gate c =
     (if should_climb (dec_reason (cs_decision c)) gate (pl_pressure pl) (cs_escalations c)
           (cr_max_tokens (cs_request c)) (ms_max_output_tokens (dec_model (cs_decision c)))
      then (case dec_tier (cs_decision c) of
              None \<Rightarrow> None
            | Some start \<Rightarrow> policy_escalate D (pl_policy pl) start gate (pl_signal pl) (pl_catalog pl)
                (cr_max_tokens (cs_request c)) (pl_served pl))
      else None)"

definition next_provider :: "'d::linorder decimal \<Rightarrow> 'd plan \<Rightarrow> error \<Rightarrow> 'd climb_state \<Rightarrow> 'd routing_decision option" where
  "next_provider D pl e c =
     (if disposition_of e = EscalateTier \<and> climb_allowed (dec_reason (cs_decision c)) \<and>
         escalation_allowed (pl_pressure pl) (cs_escalations c) MAX_ESCALATIONS
      then (case dec_tier (cs_decision c) of
              None \<Rightarrow> None
            | Some start \<Rightarrow> escalate_past_provider D (pl_policy pl) start (ms_provider (dec_model (cs_decision c)))
                (pl_signal pl) (pl_catalog pl) (cr_max_tokens (cs_request c)) (pl_served pl))
      else None)"

record ('d, 'q, 'r) finished =
  f_result :: "error + ('d, 'q, 'r) reply"
  f_rows :: "'d ledger_row list"
  f_world :: world

definition climb_pass :: "('d::linordered_idom, 'q, 'r, 'm) gateway_env_scheme \<Rightarrow> 'd decimal \<Rightarrow> (string \<Rightarrow> bool) \<Rightarrow>
    auth_context \<Rightarrow> 'd plan \<Rightarrow> string \<Rightarrow> string \<Rightarrow> nat \<Rightarrow> dialect \<Rightarrow> 'd climb_state \<Rightarrow> world \<Rightarrow>
    ('d, 'q, 'r) finished + ('d climb_state \<times> world)" where
  "climb_pass E D valid_json auth pl session rid started ingress c w =
     (case forward_with_failover E auth (cs_decision c) (cs_request c) session (cs_dispatches c) (cs_lost c)
             (pl_channel pl) w of
        (res, dp, lost, w1) \<Rightarrow>
          (let c1 = c\<lparr>cs_dispatches := dp, cs_lost := lost\<rparr>;
               unserved = unserved_rows (cs_abandoned c1) lost
           in case res of
             Inl e \<Rightarrow>
               (case next_provider D pl e c1 of
                  Some next \<Rightarrow> Inr (climb_to next GateNoCredential c1, w1)
                | None \<Rightarrow> Inl \<lparr>f_result = Inl e, f_rows = unserved, f_world = w1\<rparr>)
           | Inr (Streaming resp l ordinal names ad) \<Rightarrow>
               (case stream_response E resp l auth (cs_decision c1) rid started ordinal ingress (cs_trigger c1)
                       names ad w1 of
                  (r, w2) \<Rightarrow> Inl \<lparr>f_result = r, f_rows = unserved, f_world = w2\<rparr>)
           | Inr (Rejected e) \<Rightarrow>
               (case next_rung D pl ContextOverflow c1 of
                  Some next \<Rightarrow> Inr (climb_to next ContextOverflow c1, w1)
                | None \<Rightarrow> Inl \<lparr>f_result = Inl e, f_rows = unserved, f_world = w1\<rparr>)
           | Inr (Collected body events acc l ordinal ad) \<Rightarrow>
               (let gate = quality_gate_of valid_json acc;
                    ctx = meter_context auth (cs_decision c1) l rid started ordinal;
                    w2 = release_lease E l w1
                in case Option.bind gate (\<lambda>g. map_option (Pair g) (next_rung D pl g c1)) of
                     Some (g, next) \<Rightarrow>
                       Inr (climb_to next g (c1\<lparr>cs_abandoned := Some (abandon E ctx acc g w1)\<rparr>), w2)
                   | None \<Rightarrow>
                       Inl \<lparr>f_result = Inr (JsonReply body events gate (cs_decision c1) (ad_dialect ad) (always_streams ad)
                            (names_rewrite (acc_function_names acc))),
                         f_rows = RowCollected ctx acc (case cs_trigger c1 of Some g \<Rightarrow> Some g | None \<Rightarrow> gate) # unserved,
                         f_world = w2\<rparr>)))"

definition rungs_left :: "'d plan \<Rightarrow> 'd climb_state \<Rightarrow> nat" where
  "rungs_left pl c =
     (if pl_pressure pl = Normal \<and> climb_allowed (dec_reason (cs_decision c)) then MAX_ESCALATIONS - cs_escalations c
      else 0)"

lemma next_rung_left:
  assumes "next_rung D pl g c = Some next"
  shows "rungs_left pl (climb_to next g c) < rungs_left pl c"
  using assms
  by (auto simp: next_rung_def should_climb_def escalation_allowed_def rungs_left_def climb_to_def split: if_splits)

lemma next_provider_left:
  assumes "next_provider D pl e c = Some next"
  shows "rungs_left pl (climb_to next g c) < rungs_left pl c"
  using assms
  by (auto simp: next_provider_def escalation_allowed_def rungs_left_def climb_to_def split: if_splits)

lemma rungs_left_update [simp]:
  "rungs_left pl (c\<lparr>cs_dispatches := dp, cs_lost := lost\<rparr>) = rungs_left pl c"
  "rungs_left pl (climb_to next g (c\<lparr>cs_abandoned := a\<rparr>)) = rungs_left pl (climb_to next g c)"
  by (simp_all add: rungs_left_def climb_to_def)

lemma climb_pass_left:
  assumes "climb_pass E D vj auth pl session rid started ingress c w = Inr (c', w')"
  shows "rungs_left pl c' < rungs_left pl c"
  using assms
  by (auto simp: climb_pass_def Let_def Option.bind_eq_Some_conv split: prod.splits sum.splits attempt.splits option.splits
      dest!: next_rung_left next_provider_left)

function climb :: "('d::linordered_idom, 'q, 'r, 'm) gateway_env_scheme \<Rightarrow> 'd decimal \<Rightarrow> (string \<Rightarrow> bool) \<Rightarrow>
    auth_context \<Rightarrow> 'd plan \<Rightarrow> string \<Rightarrow> string \<Rightarrow> nat \<Rightarrow> dialect \<Rightarrow> 'd climb_state \<Rightarrow> world \<Rightarrow>
    ('d, 'q, 'r) finished" where
  "climb E D valid_json auth pl session rid started ingress c w =
     (case climb_pass E D valid_json auth pl session rid started ingress c w of
        Inl f \<Rightarrow> f
      | Inr (c', w') \<Rightarrow> climb E D valid_json auth pl session rid started ingress c' w')"
  by pat_completeness auto
termination
  by (relation "measure (\<lambda>(E, D, vj, auth, pl, session, rid, started, ingress, c, w). rungs_left pl c)")
    (auto dest: climb_pass_left)

declare climb.simps [simp del]

definition climb_start :: "'d plan \<Rightarrow> canonical_request \<Rightarrow> string \<Rightarrow> nat \<Rightarrow> 'd climb_state" where
  "climb_start pl req rid started =
     \<lparr>cs_request = req, cs_decision = pl_decision pl, cs_escalations = 0, cs_trigger = None,
       cs_abandoned = None, cs_lost = [], cs_dispatches = dispatches_new rid started\<rparr>"

definition run_with_escalation :: "('d::linordered_idom, 'q, 'r, 'm) gateway_env_scheme \<Rightarrow> 'd decimal \<Rightarrow>
    (string \<Rightarrow> bool) \<Rightarrow> auth_context \<Rightarrow> 'd plan \<Rightarrow> canonical_request \<Rightarrow> string \<Rightarrow> string \<Rightarrow> nat \<Rightarrow> dialect \<Rightarrow> world \<Rightarrow>
    ('d, 'q, 'r) finished" where
  "run_with_escalation E D valid_json auth pl req session rid started ingress w =
     climb E D valid_json auth pl session rid started ingress (climb_start pl req rid started) w"

subsection \<open>What one forwarding contributes\<close>

lemma sent_by_bound:
  "list_all (\<lambda>(a, n). n \<le> r) runs \<Longrightarrow> length (sent_by runs) \<le> length runs * r"
proof (induction runs)
  case (Cons x runs)
  then show ?case by (cases x) (auto simp: sent_by_def)
qed (simp add: sent_by_def)

lemma forward_books:
  assumes "forward_with_failover E auth dec req session dp lost channel w = (res, dp', lost', w')"
  shows "held w' = holds_after res (held w)"
    and "length (sends w') \<le> length (sends w)
      + Suc (max_account_switches (config E)) * Suc (same_account_retries (config E))"
proof -
  from gateway.loop_accounted [OF assms [unfolded forward_with_failover_def Let_def]]
  obtain runs where runs: "length runs \<le> Suc (max_account_switches (config E))"
      "list_all (\<lambda>(a, n). n \<le> Suc (same_account_retries (config E))) runs" "sends w' = sends w @ sent_by runs"
    and held: "held w' = holds_after res (held w)"
    by (auto simp: gateway.accounted_def simp del: upt_Suc)
  from held show "held w' = holds_after res (held w)" .
  have "length (sent_by runs) \<le> length runs * Suc (same_account_retries (config E))"
    by (rule sent_by_bound [OF runs(2)])
  also have "\<dots> \<le> Suc (max_account_switches (config E)) * Suc (same_account_retries (config E))"
    by (rule mult_le_mono1 [OF runs(1)])
  finally show "length (sends w') \<le> length (sends w)
      + Suc (max_account_switches (config E)) * Suc (same_account_retries (config E))"
    by (simp add: runs(3))
qed

lemma forward_numbered:
  assumes "forward_with_failover E auth dec req session dp lost channel w = (res, dp', lost', w')"
    and "dp_next dp + Suc (max_account_switches (config E)) \<le> u8_max"
  shows "\<exists>new. lost' = lost @ new \<and> numbered (dp_next dp) (dp_next dp') new res \<and>
    dp_next dp' \<le> dp_next dp + Suc (max_account_switches (config E))"
  using gateway.loop_numbered [OF _ assms(1) [unfolded forward_with_failover_def Let_def]] assms(2)
  by (auto simp: lose_def meter_context_def simp del: upt_Suc)

subsection \<open>Bounds, slots and decisions of the whole climb\<close>

fun reply_lease :: "error + ('d, 'q, 'r) reply \<Rightarrow> 'd held_lease option" where
  "reply_lease (Inr (StreamReply _ _ _ _ l _ _ _)) = Some l"
| "reply_lease _ = None"

fun reply_decision :: "('d, 'q, 'r) reply \<Rightarrow> 'd routing_decision" where
  "reply_decision (StreamReply _ _ _ _ _ _ _ dec) = dec"
| "reply_decision (JsonReply _ _ _ dec _ _ _) = dec"

definition held_for :: "error + ('d, 'q, 'r) reply \<Rightarrow> account_id list \<Rightarrow> account_id list" where
  "held_for r before = (case reply_lease r of None \<Rightarrow> before | Some l \<Rightarrow> row_id (l_account l) # before)"

definition sends_allowed :: "('d, 'q, 'r, 'm) gateway_env_scheme \<Rightarrow> nat" where
  "sends_allowed E = Suc (max_account_switches (config E)) * Suc (same_account_retries (config E))"

definition climb_ok :: "('d, 'q, 'r, 'm) gateway_env_scheme \<Rightarrow> 'd plan \<Rightarrow> 'd climb_state \<Rightarrow> world \<Rightarrow>
    ('d, 'q, 'r) finished \<Rightarrow> bool" where
  "climb_ok E pl c w f \<longleftrightarrow>
     length (sends (f_world f)) \<le> length (sends w) + Suc (rungs_left pl c) * sends_allowed E \<and>
     held (f_world f) = held_for (f_result f) (held w) \<and>
     (rungs_left pl c = 0 \<longrightarrow> (\<forall>r. f_result f = Inr r \<longrightarrow> reply_decision r = cs_decision c))"

lemma climb_ok_again:
  assumes "climb_ok E pl c' w' f" and "rungs_left pl c' < rungs_left pl c"
    and "held w' = held w" and "length (sends w') \<le> length (sends w) + sends_allowed E"
  shows "climb_ok E pl c w f"
proof -
  have "Suc (rungs_left pl c') * sends_allowed E \<le> rungs_left pl c * sends_allowed E"
    using assms(2) by (intro mult_le_mono1) simp
  then show ?thesis using assms by (simp add: climb_ok_def)
qed

lemma climb_ok_stop:
  assumes "held (f_world f) = held_for (f_result f) (held w)"
    and "length (sends (f_world f)) \<le> length (sends w) + sends_allowed E"
    and "\<And>r. f_result f = Inr r \<Longrightarrow> reply_decision r = cs_decision c"
  shows "climb_ok E pl c w f"
  using assms by (simp add: climb_ok_def)

lemma climb_pass_finished:
  assumes "climb_pass E D vj auth pl session rid started ingress c w = Inl f"
  shows "climb_ok E pl c w f"
proof -
  obtain res dp lost w1 where fw: "forward_with_failover E auth (cs_decision c) (cs_request c) session
      (cs_dispatches c) (cs_lost c) (pl_channel pl) w = (res, dp, lost, w1)" by (metis prod_cases4)
  note held = forward_books(1) [OF fw] and sent = forward_books(2) [OF fw, folded sends_allowed_def]
  have rel: "held (release_lease E l w1) = remove1 (row_id (l_account l)) (held w1)"
      "sends (release_lease E l w1) = sends w1" for l
    by (simp_all add: release_lease_def await_def)
  show ?thesis
    by (rule climb_ok_stop)
      (use assms fw held sent rel in \<open>auto simp: climb_pass_def stream_response_def Let_def holds_after_def held_for_def
        split: sum.splits attempt.splits option.splits prod.splits\<close>)
qed

lemma climb_pass_again:
  assumes "climb_pass E D vj auth pl session rid started ingress c w = Inr (c', w')"
  shows "held w' = held w" and "length (sends w') \<le> length (sends w) + sends_allowed E"
proof -
  obtain res dp lost w1 where fw: "forward_with_failover E auth (cs_decision c) (cs_request c) session
      (cs_dispatches c) (cs_lost c) (pl_channel pl) w = (res, dp, lost, w1)" by (metis prod_cases4)
  note held = forward_books(1) [OF fw] and sent = forward_books(2) [OF fw, folded sends_allowed_def]
  have rel: "held (release_lease E l w1) = remove1 (row_id (l_account l)) (held w1)"
      "sends (release_lease E l w1) = sends w1" for l
    by (simp_all add: release_lease_def await_def)
  show "held w' = held w" "length (sends w') \<le> length (sends w) + sends_allowed E"
    using assms fw held sent rel
    by (auto simp: climb_pass_def Let_def holds_after_def split: sum.splits attempt.splits option.splits prod.splits)
qed

lemma climb_sound: "climb_ok E pl c w (climb E D vj auth pl session rid started ingress c w)"
proof (induction E D vj auth pl session rid started ingress c w rule: climb.induct)
  case (1 E D vj auth pl session rid started ingress c w)
  show ?case
  proof (cases "climb_pass E D vj auth pl session rid started ingress c w")
    case (Inl f)
    then show ?thesis using climb_pass_finished [OF Inl] by (simp add: climb.simps)
  next
    case (Inr cw)
    obtain c' w' where cw: "cw = (c', w')" by force
    note pass = Inr [unfolded cw]
    from climb_ok_again [OF "1.IH" [OF pass refl] climb_pass_left [OF pass] climb_pass_again [OF pass]]
    show ?thesis by (simp add: climb.simps [of _ _ _ _ _ _ _ _ _ c] pass)
  qed
qed

subsection \<open>Every ledger row has its own key\<close>

fun row_attempt :: "'d ledger_row \<Rightarrow> nat" where
  "row_attempt (RowCollected ctx _ _) = mc_attempt ctx"
| "row_attempt (RowAbandoned a) = mc_attempt (ab_ctx a)"
| "row_attempt (RowLost x) = mc_attempt (lost_ctx x)"

fun streamed_attempt :: "error + ('d, 'q, 'r) reply \<Rightarrow> nat list" where
  "streamed_attempt (Inr (StreamReply _ _ ctx _ _ _ _ _)) = [mc_attempt ctx]"
| "streamed_attempt _ = []"

definition ledger_keys :: "('d, 'q, 'r) finished \<Rightarrow> nat list" where
  "ledger_keys f = streamed_attempt (f_result f) @ map row_attempt (f_rows f)"

definition keyed :: "'d climb_state \<Rightarrow> bool" where
  "keyed c \<longleftrightarrow> (let ks = map row_attempt (unserved_rows (cs_abandoned c) (cs_lost c)) in
     distinct ks \<and> (\<forall>k \<in> set ks. k < dp_next (cs_dispatches c)))"

lemma unserved_attempts:
  "map row_attempt (unserved_rows ab lost) =
     (case ab of None \<Rightarrow> [] | Some a \<Rightarrow> [mc_attempt (ab_ctx a)]) @ map (mc_attempt \<circ> lost_ctx) lost"
  by (simp add: unserved_rows_def split: option.splits)

lemma keyed_climb_to [simp]: "keyed (climb_to next g c) = keyed c"
  by (simp add: keyed_def climb_to_def)

lemma keyed_abandoned:
  assumes "keyed c" and "mc_attempt (ab_ctx x) < dp_next (cs_dispatches c)"
    and "mc_attempt (ab_ctx x) \<notin> row_attempt ` set (unserved_rows (cs_abandoned c) (cs_lost c))"
  shows "keyed (c\<lparr>cs_abandoned := Some x\<rparr>)"
proof -
  have "row_attempt ` set (unserved_rows (cs_abandoned c) (cs_lost c)) =
      set (map row_attempt (unserved_rows (cs_abandoned c) (cs_lost c)))" by simp
  then show ?thesis using assms
    by (auto simp: keyed_def Let_def unserved_attempts simp del: set_map split: option.splits)
qed

lemma forward_keyed:
  assumes "keyed c" and "dp_next (cs_dispatches c) + Suc (max_account_switches (config E)) \<le> u8_max"
    and "forward_with_failover E auth (cs_decision c) (cs_request c) session (cs_dispatches c) (cs_lost c) ch w =
      (res, dp, lost, w1)"
  shows "keyed (c\<lparr>cs_dispatches := dp, cs_lost := lost\<rparr>)"
    and "dp_next dp \<le> dp_next (cs_dispatches c) + Suc (max_account_switches (config E))"
    and "res = Inr a \<Longrightarrow> stamp a = Some k \<Longrightarrow> k < dp_next dp \<and>
      k \<notin> set (map row_attempt (unserved_rows (cs_abandoned c) lost))"
proof -
  obtain new where new: "lost = cs_lost c @ new" "numbered (dp_next (cs_dispatches c)) (dp_next dp) new res"
    "dp_next dp \<le> dp_next (cs_dispatches c) + Suc (max_account_switches (config E))"
    using forward_numbered [OF assms(3,2)] by blast
  then show "dp_next dp \<le> dp_next (cs_dispatches c) + Suc (max_account_switches (config E))" by simp
  show "keyed (c\<lparr>cs_dispatches := dp, cs_lost := lost\<rparr>)"
    using assms(1) new(1,2)
    by (fastforce simp: keyed_def Let_def unserved_attempts numbered_def ordinals_def split: option.splits)
  show "k < dp_next dp \<and> k \<notin> set (map row_attempt (unserved_rows (cs_abandoned c) lost))"
    if "res = Inr a" "stamp a = Some k"
    using assms(1) new(1,2) that
    by (fastforce simp: keyed_def Let_def unserved_attempts numbered_def ordinals_def split: option.splits)
qed

lemma climb_pass_finished_keyed:
  assumes "keyed c" and "dp_next (cs_dispatches c) + Suc (max_account_switches (config E)) \<le> u8_max"
    and "climb_pass E D vj auth pl session rid started ingress c w = Inl f"
  shows "distinct (ledger_keys f)"
proof -
  obtain res dp lost w1 where fw: "forward_with_failover E auth (cs_decision c) (cs_request c) session
      (cs_dispatches c) (cs_lost c) (pl_channel pl) w = (res, dp, lost, w1)" by (metis prod_cases4)
  note k = forward_keyed [OF assms(1,2) fw]
  have d: "distinct (map row_attempt (unserved_rows (cs_abandoned c) lost))" using k(1) by (simp add: keyed_def Let_def)
  have fresh: "\<forall>a k. res = Inr a \<longrightarrow> stamp a = Some k \<longrightarrow>
      k \<notin> set (map row_attempt (unserved_rows (cs_abandoned c) lost))"
    using k(3) by blast
  show ?thesis
    using assms(3) fw d fresh
    by (auto simp: climb_pass_def stream_response_def meter_context_def ledger_keys_def Let_def
        split: sum.splits attempt.splits option.splits prod.splits)
qed

lemma climb_pass_again_keyed:
  assumes "keyed c" and "dp_next (cs_dispatches c) + Suc (max_account_switches (config E)) \<le> u8_max"
    and "climb_pass E D vj auth pl session rid started ingress c w = Inr (c', w')"
  shows "keyed c'" and "dp_next (cs_dispatches c') \<le> dp_next (cs_dispatches c) + Suc (max_account_switches (config E))"
proof -
  obtain res dp lost w1 where fw: "forward_with_failover E auth (cs_decision c) (cs_request c) session
      (cs_dispatches c) (cs_lost c) (pl_channel pl) w = (res, dp, lost, w1)" by (metis prod_cases4)
  note k = forward_keyed [OF assms(1,2) fw]
  have fresh: "\<forall>a k. res = Inr a \<longrightarrow> stamp a = Some k \<longrightarrow> k < dp_next dp \<and>
      k \<notin> set (map row_attempt (unserved_rows (cs_abandoned c) lost))"
    using k(3) by blast
  show "keyed c'"
    using assms(3) fw k(1) fresh
    by (auto simp: climb_pass_def Let_def abandon_def meter_context_def
        split: sum.splits attempt.splits option.splits prod.splits intro!: keyed_abandoned)
  show "dp_next (cs_dispatches c') \<le> dp_next (cs_dispatches c) + Suc (max_account_switches (config E))"
    using assms(3) fw k(2)
    by (auto simp: climb_pass_def climb_to_def Let_def split: sum.splits attempt.splits option.splits prod.splits)
qed

lemma climb_keyed:
  assumes "keyed c" and "dp_next (cs_dispatches c) + Suc (rungs_left pl c) * Suc (max_account_switches (config E)) \<le> u8_max"
  shows "distinct (ledger_keys (climb E D vj auth pl session rid started ingress c w))"
  using assms
proof (induction E D vj auth pl session rid started ingress c w rule: climb.induct)
  case (1 E D vj auth pl session rid started ingress c w)
  let ?s = "Suc (max_account_switches (config E))"
  have room: "dp_next (cs_dispatches c) + ?s \<le> u8_max" using "1.prems"(2) by simp
  show ?case
  proof (cases "climb_pass E D vj auth pl session rid started ingress c w")
    case (Inl f)
    then show ?thesis using climb_pass_finished_keyed [OF "1.prems"(1) room Inl] by (simp add: climb.simps)
  next
    case (Inr cw)
    obtain c' w' where cw: "cw = (c', w')" by force
    note pass = Inr [unfolded cw]
    note k = climb_pass_again_keyed [OF "1.prems"(1) room pass]
    have "Suc (rungs_left pl c') * ?s \<le> rungs_left pl c * ?s"
      using climb_pass_left [OF pass] by (intro mult_le_mono1) simp
    then have "dp_next (cs_dispatches c') + Suc (rungs_left pl c') * ?s \<le> u8_max"
      using "1.prems"(2) k(2) by simp
    from "1.IH" [OF pass refl k(1) this] show ?thesis
      by (simp add: climb.simps [of _ _ _ _ _ _ _ _ _ c] pass)
  qed
qed

lemma ledger_keys_distinct:
  assumes "2 * Suc (max_account_switches (config E)) \<le> u8_max"
  shows "distinct (ledger_keys (run_with_escalation E D vj auth pl req session rid started ingress w))"
proof -
  let ?c = "climb_start pl req rid started"
  have "rungs_left pl ?c \<le> 1" by (simp add: rungs_left_def MAX_ESCALATIONS_def)
  then have "Suc (rungs_left pl ?c) * Suc (max_account_switches (config E)) \<le> 2 * Suc (max_account_switches (config E))"
    by (intro mult_le_mono1) simp
  then show ?thesis
    unfolding run_with_escalation_def using assms
    by (intro climb_keyed) (auto simp: climb_start_def keyed_def unserved_rows_def dispatches_new_def)
qed

subsection \<open>The properties\<close>

text \<open>
  C5. Escalation is bounded and always ends: a request is sent at most twice the sends one forwarding
  may make, once for the rung it was given and once for the single climb; afterwards no slot is held
  but that of a stream being handed to the client. A caller who named a model, or whose budget is
  under pressure, is never moved: the request is sent for one rung only and what is answered is the
  planned decision.
\<close>

theorem escalation_is_bounded:
  assumes "run_with_escalation E D vj auth pl req session rid started ingress w = f"
  shows "length (sends (f_world f)) \<le> length (sends w) + 2 * sends_allowed E \<and>
    held (f_world f) = held_for (f_result f) (held w) \<and>
    (pl_pressure pl \<noteq> Normal \<or> dec_reason (pl_decision pl) = ReasonPassthrough \<longrightarrow>
       length (sends (f_world f)) \<le> length (sends w) + sends_allowed E \<and>
       (\<forall>r. f_result f = Inr r \<longrightarrow> reply_decision r = pl_decision pl))"
proof -
  have ok: "climb_ok E pl (climb_start pl req rid started) w f"
    using climb_sound assms unfolding run_with_escalation_def by metis
  have "rungs_left pl (climb_start pl req rid started) \<le> 1"
    by (simp add: rungs_left_def MAX_ESCALATIONS_def)
  then have "Suc (rungs_left pl (climb_start pl req rid started)) * sends_allowed E \<le> 2 * sends_allowed E"
    by (intro mult_le_mono1) simp
  with ok have "length (sends (f_world f)) \<le> length (sends w) + 2 * sends_allowed E"
    unfolding climb_ok_def by linarith
  moreover have "rungs_left pl (climb_start pl req rid started) = 0"
    if "pl_pressure pl \<noteq> Normal \<or> dec_reason (pl_decision pl) = ReasonPassthrough"
    using that by (auto simp: rungs_left_def climb_start_def climb_allowed_def)
  ultimately show ?thesis using ok by (auto simp: climb_ok_def climb_start_def)
qed

text \<open>
  Every row a request writes to the ledger has its own key: with a configuration whose switches
  fit the ordinal's byte, the streamed answer, the collected one, the abandoned one and every lost one
  carry different ordinals, so the ledger's unique request-and-attempt index never drops a charge.
\<close>

theorem ledger_keys_are_distinct:
  assumes "2 * Suc (max_account_switches (config E)) \<le> u8_max"
  shows "distinct (ledger_keys (run_with_escalation E D vj auth pl req session rid started ingress w))"
  by (rule ledger_keys_distinct [OF assms])

subsection \<open>Witnesses\<close>

definition sample_plan :: "int plan" where
  "sample_plan = \<lparr>pl_policy = sample_policy None, pl_decision = sample_decision, pl_signal = sample_signal,
     pl_catalog = sample_catalog, pl_pressure = Normal, pl_channel = None, pl_served = []\<rparr>"

definition sample_run :: "(int, unit, unit) finished" where
  "sample_run = run_with_escalation sample_gateway fixed28 (\<lambda>_. True) sample_auth sample_plan sample_request
     ''s'' ''q'' 0 AnthropicMessages sample_world"

lemma sample_run_fails:
  "f_result sample_run = Inl (Upstream OpenAI 3 503 [] None) \<and> sends (f_world sample_run) = [3]"
proof -
  obtain dp' lost' w' where "forward_with_failover sample_gateway sample_auth sample_decision sample_request ''s''
     (dispatches_new ''q'' 0) [] None sample_world = (Inl (Upstream OpenAI 3 503 [] None), dp', lost', w')" "sends w' = [3]"
    using sample_forward by blast
  then show ?thesis
    by (simp add: sample_run_def run_with_escalation_def climb.simps climb_pass_def climb_start_def sample_plan_def
        next_provider_def climb_allowed_def)
       (simp add: sample_decision_def)
qed

theorem escalation_is_bounded_witness:
  "length (sends (f_world sample_run)) = 1 \<and> sends_allowed sample_gateway = 2 \<and> held (f_world sample_run) = []"
  using escalation_is_bounded [OF sample_run_def [symmetric]] sample_run_fails
  by (simp add: held_for_def sample_world_def sends_allowed_def sample_gateway_defs sample_config_def)

theorem ledger_keys_are_distinct_witness: "distinct (ledger_keys sample_run)"
  unfolding sample_run_def
  by (rule ledger_keys_are_distinct) (simp add: sample_gateway_defs sample_config_def u8_max_def)

end
