(* ===== verification/Respond.thy ===== *)
theory Respond
  imports Climb
begin

text \<open>
  What the caller gets back (\<^verbatim>\<open>oag-server/src/gateway/respond.rs\<close>): the response of an error, with
  its status, its JSON body and its \<^verbatim>\<open>Retry-After\<close>, and the response of an answer. The texts are the
  errors' own (\<open>error_display\<close>). Parameters (\<open>http_env\<close>): JSON parsing and
  printing, what the HTTP library accepts as a status or a header value, the build's name, and the four
  renderers of the wire codecs. A duration's seconds are rounded up exactly, which is what the
  floating-point ceiling does at the lengths that occur (at most an hour). The messages that
  explain an unroutable model are left out.
\<close>

subsection \<open>The response of an error\<close>

record http_env =
  parse_json :: "string \<Rightarrow> json option"
  json_text :: "json \<Rightarrow> bytes"
  status_from_u16 :: "nat \<Rightarrow> nat option"
  header_value_ok :: "string \<Rightarrow> bool"
  build_id :: string
  render_from_events :: "stream_event list \<Rightarrow> string \<Rightarrow> string \<Rightarrow> json"
  render_completion :: "json \<Rightarrow> string \<Rightarrow> json"
  render_message_response :: "json \<Rightarrow> json"
  render_response :: "json \<Rightarrow> string \<Rightarrow> json"

datatype http_body = JsonBody json | BytesBody bytes | StreamBody | EmptyBody

record http_response =
  hr_status :: nat
  hr_headers :: "(string \<times> string) list"
  hr_body :: http_body

definition client_status_for :: "http_env \<Rightarrow> nat \<Rightarrow> nat" where
  "client_status_for H upstream =
     (if 300 \<le> upstream \<and> upstream \<le> 399 \<or> 401 \<le> upstream \<and> upstream \<le> 403 \<or> upstream = 407 then 502
      else case status_from_u16 H upstream of Some s \<Rightarrow> s | None \<Rightarrow> 502)"

fun error_kind :: "http_env \<Rightarrow> error \<Rightarrow> nat \<times> string \<times> string" where
  "error_kind H Unauthenticated = (401, ''authentication_error'', error_display Unauthenticated)"
| "error_kind H (BudgetExhausted scope) = (402, ''budget_exhausted'', scope_display scope @ '' is exhausted'')"
| "error_kind H (RateLimited d) = (429, ''rate_limit_error'', error_display (RateLimited d))"
| "error_kind H Overloaded = (503, ''overloaded'', error_display Overloaded)"
| "error_kind H (UnsupportedAction a) = (404, ''not_found'', error_display (UnsupportedAction a))"
| "error_kind H (NoCredential p) = (503, ''no_credential'', error_display (NoCredential p))"
| "error_kind H (UnknownModelChannel q) = (400, ''invalid_model_qualifier'', error_display (UnknownModelChannel q))"
| "error_kind H (ChannelNotOffered p k) = (400, ''invalid_model_qualifier'', error_display (ChannelNotOffered p k))"
| "error_kind H (NoCredentialOfKind p k) = (503, ''no_credential_of_kind'', error_display (NoCredentialOfKind p k))"
| "error_kind H (ReserveHeld p pct) = (503, ''quota_reserve_held'', error_display (ReserveHeld p pct))"
| "error_kind H (AtCapacity p n) = (503, ''at_capacity'', error_display (AtCapacity p n))"
| "error_kind H (NoViableModel s) = (400, ''no_viable_model'', error_display (NoViableModel s))"
| "error_kind H (UnsupportedField f d) = (400, ''unsupported_field'', error_display (UnsupportedField f d))"
| "error_kind H (Upstream p a status body ra) =
     (client_status_for H status, ''upstream_error'', error_display (Upstream p a status body ra))"
| "error_kind H (Serde s) = (400, ''invalid_request'', error_display (Serde s))"
| "error_kind H (StreamIdle d) = (504, ''stream_idle'', error_display (StreamIdle d))"
| "error_kind H (UpstreamTimeout d) = (504, ''upstream_timeout'', error_display (UpstreamTimeout d))"
| "error_kind H (UpstreamUnavailable r l) = (503, ''upstream_unavailable'', error_display (UpstreamUnavailable r l))"
| "error_kind H (SystemOneNotConfigured r p) =
     (503, ''system_one_not_configured'', error_display (SystemOneNotConfigured r p))"
| "error_kind H _ = (500, ''internal_error'', ''internal error'')"

definition upstream_fields :: "http_env \<Rightarrow> error \<Rightarrow> (string \<times> json) list" where
  "upstream_fields H e =
     (case e of
        Upstream _ _ status body _ \<Rightarrow>
          (''upstream_status'', JNum (show_nat status)) #
          (if body = [] then []
           else [(''upstream'', case parse_json H body of Some v \<Rightarrow> v | None \<Rightarrow> JStr body)])
      | _ \<Rightarrow> [])"

fun wait_of :: "error \<Rightarrow> duration option" where
  "wait_of (RateLimited retry_after) = Some retry_after"
| "wait_of (Upstream _ _ status _ retry_after) =
     (if status = 429 then Some (case retry_after of Some d \<Rightarrow> d | None \<Rightarrow> from_secs 1) else None)"
| "wait_of Overloaded = Some (from_secs 1)"
| "wait_of _ = None"

definition whole_secs :: "duration \<Rightarrow> nat" where
  "whole_secs d = max 1 ((d + 999) div 1000)"

definition error_response :: "http_env \<Rightarrow> error \<Rightarrow> http_response" where
  "error_response H e =
     (case error_kind H e of
        (status, kind, message) \<Rightarrow>
          \<lparr>hr_status = status,
            hr_headers = (''content-type'', ''application/json'') #
              (case wait_of e of
                 Some d \<Rightarrow> if header_value_ok H (show_nat (whole_secs d))
                           then [(''retry-after'', show_nat (whole_secs d))] else []
               | None \<Rightarrow> []),
            hr_body = JsonBody (JObj [(''type'', JStr ''error''),
              (''error'', JObj ([(''type'', JStr kind), (''message'', JStr message)] @ upstream_fields H e))])\<rparr>)"

subsection \<open>The response of an answer\<close>

definition identity_headers :: "http_env \<Rightarrow> string \<Rightarrow> (string \<times> string) list" where
  "identity_headers H rid = [(''x-oag-request-id'', rid), (''x-oag-build'', build_id H)]"

definition oag_headers :: "http_env \<Rightarrow> 'd routing_decision \<Rightarrow> string \<Rightarrow> (string \<times> string) list" where
  "oag_headers H dec rid =
     (''x-oag-model'', ms_id (dec_model dec)) # identity_headers H rid @
     (case rung_name dec of Some tier \<Rightarrow> [(''x-oag-tier'', tier)] | None \<Rightarrow> [])"

definition built :: "http_env \<Rightarrow> (string \<times> string) list \<Rightarrow> http_body \<Rightarrow> http_response" where
  "built H headers body =
     (if list_all (\<lambda>(_, v). header_value_ok H v) headers
      then \<lparr>hr_status = 200, hr_headers = headers, hr_body = body\<rparr>
      else \<lparr>hr_status = 500, hr_headers = [], hr_body = EmptyBody\<rparr>)"

definition render_collected :: "http_env \<Rightarrow> stream_event list \<Rightarrow> dialect \<Rightarrow> string \<Rightarrow> string \<Rightarrow> error + bytes" where
  "render_collected H events ingress rid model =
     (let hub = render_from_events H events rid model in
      case ingress of
        AnthropicMessages \<Rightarrow> Inr (json_text H hub)
      | OpenAIChatCompletions \<Rightarrow> Inr (json_text H (render_completion H hub rid))
      | GeminiGenerateContent \<Rightarrow> Inr (json_text H (render_message_response H hub))
      | OpenAIResponses \<Rightarrow> Inr (json_text H (render_response H hub rid))
      | SystemOne \<Rightarrow> Inl (Internal (''no non-streaming converter into the SystemOne dialect''))
      | BedrockConverse \<Rightarrow> Inl (Internal (''no non-streaming converter into the BedrockConverse dialect'')))"

definition json_response :: "http_env \<Rightarrow> bytes \<Rightarrow> stream_event list \<Rightarrow> 'd routing_decision \<Rightarrow> string \<Rightarrow> dialect \<Rightarrow> dialect \<Rightarrow>
    bool \<Rightarrow> bool \<Rightarrow> http_response" where
  "json_response H body events dec rid ingress upstream_dialect streams rewrites =
     (case (if ingress = upstream_dialect \<and> \<not> streams \<and> \<not> rewrites then Inr body
            else render_collected H events ingress rid (ms_id (dec_model dec))) of
        Inl e \<Rightarrow> error_response H e
      | Inr out \<Rightarrow> built H ((''content-type'', ''application/json'') # oag_headers H dec rid) (BytesBody out))"

definition client_got_nothing :: "quality_gate option \<Rightarrow> bool \<Rightarrow> dialect \<Rightarrow> dialect \<Rightarrow> bytes \<Rightarrow> bool" where
  "client_got_nothing gate streams ingress upstream_dialect body \<longleftrightarrow>
     gate = Some EmptyResponse \<and> (streams \<or> ingress \<noteq> upstream_dialect \<or> body = [])"

fun reply_response :: "http_env \<Rightarrow> string \<Rightarrow> dialect \<Rightarrow> ('d, 'q, 'r) reply \<Rightarrow> http_response" where
  "reply_response H rid ingress (JsonReply body events gate dec upstream_dialect streams rewrites) =
     json_response H body events dec rid ingress upstream_dialect streams rewrites"
| "reply_response H rid ingress (StreamReply _ _ _ _ _ _ _ dec) =
     built H ([(''content-type'', ''text/event-stream''), (''cache-control'', ''no-cache''), (''x-accel-buffering'', ''no'')]
       @ oag_headers H dec rid) StreamBody"

subsection \<open>What a client can rely on\<close>

definition http_laws :: "http_env \<Rightarrow> bool" where
  "http_laws H \<longleftrightarrow> (\<forall>n s. status_from_u16 H n = Some s \<longrightarrow> s = n) \<and> (\<forall>n. header_value_ok H (show_nat n))"

definition header_named :: "string \<Rightarrow> http_response \<Rightarrow> string option" where
  "header_named name r = map_of (hr_headers r) name"

lemma client_status_range:
  "http_laws H \<Longrightarrow> client_status_for H u \<notin> {401, 402, 403, 407} \<and> \<not> (300 \<le> client_status_for H u \<and> client_status_for H u \<le> 399)"
proof (cases "status_from_u16 H u")
  case None
  then show ?thesis by (simp add: client_status_for_def)
next
  case (Some s)
  assume "http_laws H"
  then have "s = u" using Some by (simp add: http_laws_def)
  then show ?thesis using Some by (auto simp: client_status_for_def)
qed

lemma status_of_error: "hr_status (error_response H e) = fst (error_kind H e)"
  by (simp add: error_response_def split: prod.splits)

lemma whole_secs_covers: "d \<le> 1000 * whole_secs d" "1 \<le> whole_secs d" "whole_secs d \<noteq> 1 \<Longrightarrow> 1000 * (whole_secs d - 1) < d"
  by (auto simp: whole_secs_def max_def split: if_splits)

lemma whole_secs_bound: "d \<le> from_secs n \<Longrightarrow> 1 \<le> n \<Longrightarrow> whole_secs d \<le> n"
  by (auto simp: whole_secs_def from_secs_def)

lemma throttle_has_wait: "http_laws H \<Longrightarrow> hr_status (error_response H e) = 429 \<Longrightarrow> wait_of e \<noteq> None"
  by (cases e) (auto simp: status_of_error client_status_for_def http_laws_def split: if_splits option.splits)

lemma retry_after_header:
  "http_laws H \<Longrightarrow> wait_of e = Some d \<Longrightarrow> header_named ''retry-after'' (error_response H e) = Some (show_nat (whole_secs d))"
  by (simp add: header_named_def error_response_def http_laws_def split: prod.splits)

lemma whitespace_no_digit: "w \<in> set WHITESPACE \<Longrightarrow> c \<in> set w \<Longrightarrow> \<not> is_digit c"
  by (auto simp: WHITESPACE_def byte_string_def is_digit_def)

lemma digit_trim:
  assumes "list_all is_digit s"
  shows "trim s = s"
proof -
  have "\<not> prefix w s \<and> \<not> suffix w s" if "w \<in> set WHITESPACE" for w
    using whitespace_nonempty [OF that] whitespace_no_digit [OF that] assms
    by (cases w) (auto simp: prefix_def suffix_def list_all_iff)
  then have "find (\<lambda>w. prefix w s) WHITESPACE = None" "find (\<lambda>w. suffix w s) WHITESPACE = None"
    by (auto simp: find_None_iff)
  then show ?thesis by (simp add: trim_def trim_start.simps trim_end.simps)
qed

lemma retry_after_reads_back:
  assumes "1 \<le> n" and "n \<le> MAX_RETRY_AFTER"
  shows "upstream_retry_after (Some (show_nat n)) = Some (from_secs n)"
proof -
  note digits = show_nat_digits [of n]
  have "show_nat n \<noteq> []" by (subst show_nat.simps) simp
  then obtain c cs where c: "show_nat n = c # cs" "is_digit c" using digits by (cases "show_nat n") auto
  then have "c \<noteq> CHR ''+''" by (auto simp: is_digit_def)
  then have "parse_u64 (show_nat n) = Some n"
    using digits assms(2) show_nat_value [of n] c(1)
    by (auto simp: parse_u64_def digits_value_def MAX_RETRY_AFTER_def u64_max_def)
  moreover have "header_text (show_nat n) = Some (show_nat n)"
    using digits by (auto simp: header_text_def is_digit_def list_all_iff Let_def)
  ultimately show ?thesis using assms by (simp add: upstream_retry_after_def digit_trim [OF digits])
qed

text \<open>
  C30. The status a client sees is about the right party: 401 means exactly that its key was refused and
  402 exactly that one of its own caps is spent; a provider's 401, 402, 403, 407 or redirect never
  reaches it; and an error of the gateway's own says nothing of its cause. \<open>http_laws\<close> is what the
  HTTP library documents of status codes and of digits in header values.
\<close>

theorem client_status_tells_the_truth:
  assumes "http_laws H"
  shows "(hr_status (error_response H e) = 401 \<longleftrightarrow> e = Unauthenticated) \<and>
    (hr_status (error_response H e) = 402 \<longleftrightarrow> (\<exists>scope. e = BudgetExhausted scope)) \<and>
    hr_status (error_response H e) \<notin> {403, 407} \<and>
    \<not> (300 \<le> hr_status (error_response H e) \<and> hr_status (error_response H e) \<le> 399) \<and>
    (hr_status (error_response H e) = 500 \<longrightarrow>
       (\<exists>p a body ra. e = Upstream p a 500 body ra) \<or> error_response H e = error_response H (Internal []))"
proof -
  have "error_response H e = error_response H (Internal [])" if "fst (error_kind H e) = 500" "\<nexists>p a s b r. e = Upstream p a s b r"
    using that by (cases e) (simp_all add: error_response_def upstream_fields_def)
  moreover have "s = 500" if "client_status_for H s = 500" for s
    using that assms by (auto simp: client_status_for_def http_laws_def split: if_splits option.splits)
  ultimately show ?thesis
    using client_status_range [OF assms] unfolding status_of_error by (cases e) auto
qed

text \<open>
  Every 429, the gateway's own or a provider's, says when to come back: a whole number of seconds,
  at least one, never shorter than the wait and less than a second longer; and another gateway
  that meets it as its upstream reads exactly that wait, as long as it is within the hour a hint may name.
\<close>

theorem throttled_says_when:
  assumes "http_laws H" and "hr_status (error_response H e) = 429"
  shows "\<exists>d n. wait_of e = Some d \<and> header_named ''retry-after'' (error_response H e) = Some (show_nat n) \<and>
    1 \<le> n \<and> d \<le> from_secs n \<and> (n = 1 \<or> from_secs (n - 1) < d) \<and>
    (n \<le> MAX_RETRY_AFTER \<longrightarrow> upstream_retry_after (Some (show_nat n)) = Some (from_secs n))"
proof -
  obtain d where d: "wait_of e = Some d" using throttle_has_wait [OF assms] by blast
  show ?thesis
    using retry_after_header [OF assms(1) d] whole_secs_covers [of d] retry_after_reads_back [of "whole_secs d"] d
    by (intro exI [of _ d] exI [of _ "whole_secs d"]) (auto simp: from_secs_def)
qed

definition sample_http :: http_env where
  "sample_http = \<lparr>parse_json = \<lambda>_. None, json_text = \<lambda>_. [], 
     status_from_u16 = \<lambda>n. if 100 \<le> n \<and> n < 1000 then Some n else None,
     header_value_ok = list_all (\<lambda>c. let n = of_char c :: nat in n = 9 \<or> 32 \<le> n \<and> n \<noteq> 127), build_id = ''0.1.0+abc'',
     render_from_events = \<lambda>_ _ _. JNull, render_completion = \<lambda>_ _. JNull, render_message_response = \<lambda>_. JNull,
     render_response = \<lambda>_ _. JNull\<rparr>"

lemma sample_http_laws: "http_laws sample_http"
proof -
  have "list_all (\<lambda>c. let n = of_char c :: nat in n = 9 \<or> 32 \<le> n \<and> n \<noteq> 127) (show_nat n)" for n
    using show_nat_digits [of n] by (auto simp: list_all_iff is_digit_def Let_def)
  then show ?thesis by (simp add: http_laws_def sample_http_def)
qed

theorem client_status_tells_the_truth_witness:
  "hr_status (error_response sample_http (Upstream OpenAI 3 401 [] None)) = 502 \<and>
   hr_status (error_response sample_http (Upstream OpenAI 3 401 [] None)) \<noteq> 401"
  using client_status_tells_the_truth [OF sample_http_laws, of "Upstream OpenAI 3 401 [] None"]
  by (simp add: status_of_error client_status_for_def)

theorem throttled_says_when_witness:
  "\<exists>n. header_named ''retry-after'' (error_response sample_http (RateLimited 2500)) = Some (show_nat n) \<and> n = 3"
proof -
  have "hr_status (error_response sample_http (RateLimited 2500)) = 429" by (simp add: status_of_error)
  from throttled_says_when [OF sample_http_laws this] obtain n where
    "header_named ''retry-after'' (error_response sample_http (RateLimited 2500)) = Some (show_nat n)"
    "2500 \<le> from_secs n" "n = 1 \<or> from_secs (n - 1) < 2500" by auto
  then show ?thesis by (intro exI [of _ n]) (auto simp: from_secs_def)
qed

end
