(* ===== verification/Ledger.thy ===== *)
theory Ledger
  imports Climb
begin

text \<open>
  The usage ledger: the row an attempt becomes (\<^verbatim>\<open>oag-server/src/gateway/meter.rs\<close>), the one
  statement that appends it and debits the three counters (\<^verbatim>\<open>record_usage\<close> of
  \<^verbatim>\<open>oag-store/src/repo/usage.rs\<close>), and the reading and reconciliation of those counters
  (\<^verbatim>\<open>oag-store/src/repo/spend.rs\<close>). A statement is atomic and takes the transaction's start time; what
  the database does beyond the statement's own text is the record \<open>db_env\<close>: the month a time falls
  in, the rounding of a money column to its scale, and whether a statement fails. The counters of metrics
  and the log lines are left out.
\<close>

subsection \<open>The row of one attempt\<close>

datatype fate = Served | Abandoned | Lost

record 'd usage_row =
  uw_request_id :: string
  uw_attempt :: nat
  uw_principal_id :: "string option"
  uw_api_key_id :: "string option"
  uw_route_id :: "string option"
  uw_account_id :: "account_id option"
  uw_model_id :: model_id
  uw_tier :: string
  uw_selection_reason :: string
  uw_escalated_from_tier :: "string option"
  uw_escalation_gate :: "string option"
  uw_usage :: usage
  uw_cost_usd :: 'd
  uw_counterfactual_usd :: 'd
  uw_counterfactual_model_id :: "model_id option"
  uw_counterfactual_api_usd :: 'd
  uw_status :: nat
  uw_latency_ms :: "nat option"
  uw_ttft_ms :: "nat option"
  uw_streamed :: bool

definition recorded_gate :: "(string \<Rightarrow> bool) \<Rightarrow> quality_gate option \<Rightarrow> accumulator \<Rightarrow> quality_gate option" where
  "recorded_gate valid_json triggering acc =
     (case triggering of Some g \<Rightarrow> Some g | None \<Rightarrow> quality_gate_of valid_json acc)"

fun gate_debug :: "quality_gate \<Rightarrow> string" where
  "gate_debug Refusal = ''Refusal''"
| "gate_debug Truncated = ''Truncated''"
| "gate_debug MalformedToolCall = ''MalformedToolCall''"
| "gate_debug EmptyResponse = ''EmptyResponse''"
| "gate_debug ContextOverflow = ''ContextOverflow''"
| "gate_debug GateNoCredential = ''NoCredential''"

fun reason_label :: "selection_reason \<Rightarrow> string" where
  "reason_label ReasonPassthrough = ''passthrough''"
| "reason_label Classified = ''classified''"
| "reason_label FloorPinned = ''floor_pinned''"
| "reason_label BudgetDowngraded = ''budget_downgraded''"
| "reason_label (Escalated _ _) = ''escalated''"

definition i32_of :: "nat \<Rightarrow> nat option" where
  "i32_of n = (if n < 2 ^ 31 then Some n else None)"

definition usage_write :: "'d decimal \<Rightarrow> 'd meter_ctx \<Rightarrow> stream_outcome \<Rightarrow> quality_gate option \<Rightarrow> bool \<Rightarrow> fate \<Rightarrow>
    'd usage_row" where
  "usage_write D ctx out gate streamed fate =
     (let usage = acc_usage (so_accumulator out);
          dec = mc_decision ctx;
          api_equivalent = cost D (ms_pricing (dec_model dec)) usage;
          cost_usd = (if mc_flat_rate ctx then d_zero D else api_equivalent);
          (counterfactual, counterfactual_model) =
            (case fate of
               Served \<Rightarrow> (case ceiling_model dec of None \<Rightarrow> cost_usd | Some m \<Rightarrow> cost D (ms_pricing m) usage,
                          map_option ms_id (ceiling_model dec))
             | _ \<Rightarrow> (d_zero D, None));
          counterfactual_api = (case fate of Served \<Rightarrow> api_equivalent | _ \<Rightarrow> d_zero D);
          escalated_from = (case dec_reason dec of Escalated tn _ \<Rightarrow> Some tn | _ \<Rightarrow> None)
      in \<lparr>uw_request_id = mc_request_id ctx, uw_attempt = mc_attempt ctx,
           uw_principal_id = Some (au_principal (mc_auth ctx)), uw_api_key_id = Some (au_api_key (mc_auth ctx)),
           uw_route_id = Some (au_route (mc_auth ctx)), uw_account_id = Some (mc_account ctx),
           uw_model_id = ms_id (dec_model dec),
           uw_tier = (case rung_name dec of None \<Rightarrow> '''' | Some t \<Rightarrow> t),
           uw_selection_reason =
             (case fate of Served \<Rightarrow> reason_label (dec_reason dec) | Abandoned \<Rightarrow> ''abandoned'' | Lost \<Rightarrow> ''lost''),
           uw_escalated_from_tier = escalated_from, uw_escalation_gate = map_option gate_debug gate,
           uw_usage = usage, uw_cost_usd = cost_usd, uw_counterfactual_usd = counterfactual,
           uw_counterfactual_model_id = counterfactual_model, uw_counterfactual_api_usd = counterfactual_api,
           uw_status = (if so_error out \<noteq> None then 502 else 200),
           uw_latency_ms = i32_of (so_total out), uw_ttft_ms = Option.bind (so_ttft out) i32_of,
           uw_streamed = streamed\<rparr>)"

text \<open>
  What \<^verbatim>\<open>record_collected\<close>, \<^verbatim>\<open>record_abandoned\<close> and \<^verbatim>\<open>record_lost\<close> hand to the
  writer. The latency of a collected answer is read when its row is written, at \<open>w\<close>.
\<close>

fun row_write :: "('d, 'm) env_scheme \<Rightarrow> 'd decimal \<Rightarrow> world \<Rightarrow> 'd ledger_row \<Rightarrow> 'd usage_row" where
  "row_write E D w (RowCollected ctx acc gate) = usage_write D ctx (collected_outcome E ctx acc w) gate False Served"
| "row_write E D w (RowAbandoned a) = usage_write D (ab_ctx a) (ab_outcome a) (Some (ab_gate a)) False Abandoned"
| "row_write E D w (RowLost x) = usage_write D (lost_ctx x) (lost_outcome x) None False Lost"

definition streamed_write :: "'d decimal \<Rightarrow> (string \<Rightarrow> bool) \<Rightarrow> 'd meter_ctx \<Rightarrow> stream_outcome \<Rightarrow> quality_gate option \<Rightarrow>
    'd usage_row" where
  "streamed_write D valid_json ctx out triggering =
     usage_write D ctx out (recorded_gate valid_json triggering (so_accumulator out)) True Served"

subsection \<open>The ledger and its counters\<close>

record 'd usage_event =
  ev_row :: "'d usage_row"
  ev_at :: nat

record 'd counter =
  ct_spent_usd :: 'd
  ct_spent_month :: "nat option"
  ct_monthly_budget_usd :: "'d option"

record 'd db =
  usage_events :: "'d usage_event list"
  db_api_keys :: "(string \<times> 'd) list"
  db_principals :: "(string \<times> 'd counter) list"
  db_routes :: "(string \<times> 'd counter) list"
  db_accounts :: "(account_id \<times> nat option) list"

record 'd db_env =
  month_of :: "nat \<Rightarrow> nat"
  to_scale :: "'d \<Rightarrow> 'd"
  fault :: "nat \<Rightarrow> string option"

definition update_where :: "'k option \<Rightarrow> ('v \<Rightarrow> 'v) \<Rightarrow> ('k \<times> 'v) list \<Rightarrow> ('k \<times> 'v) list" where
  "update_where key f table = map (\<lambda>(k, v). (k, if Some k = key then f v else v)) table"

definition ev_key :: "'d usage_event \<Rightarrow> string \<times> nat" where
  "ev_key e = (uw_request_id (ev_row e), uw_attempt (ev_row e))"

definition i64_sat :: "nat \<Rightarrow> nat" where "i64_sat n = min n (2 ^ 63 - 1)"

definition stored_row :: "('d, 'm) db_env_scheme \<Rightarrow> 'd usage_row \<Rightarrow> 'd usage_row" where
  "stored_row P r = r\<lparr>uw_usage := \<lparr>input_tokens = i64_sat (input_tokens (uw_usage r)),
       output_tokens = i64_sat (output_tokens (uw_usage r)), cache_read_tokens = i64_sat (cache_read_tokens (uw_usage r)),
       cache_write_tokens = i64_sat (cache_write_tokens (uw_usage r))\<rparr>,
     uw_cost_usd := to_scale P (uw_cost_usd r), uw_counterfactual_usd := to_scale P (uw_counterfactual_usd r),
     uw_counterfactual_api_usd := to_scale P (uw_counterfactual_api_usd r)\<rparr>"

definition references_hold :: "'d db \<Rightarrow> 'd usage_row \<Rightarrow> bool" where
  "references_hold s r \<longleftrightarrow>
     (case uw_principal_id r of None \<Rightarrow> True | Some i \<Rightarrow> i \<in> fst ` set (db_principals s)) \<and>
     (case uw_api_key_id r of None \<Rightarrow> True | Some i \<Rightarrow> i \<in> fst ` set (db_api_keys s)) \<and>
     (case uw_route_id r of None \<Rightarrow> True | Some i \<Rightarrow> i \<in> fst ` set (db_routes s)) \<and>
     (case uw_account_id r of None \<Rightarrow> True | Some i \<Rightarrow> i \<in> fst ` set (db_accounts s))"

definition debit :: "nat \<Rightarrow> 'd::plus \<Rightarrow> 'd counter \<Rightarrow> 'd counter" where
  "debit month amount c =
     c\<lparr>ct_spent_usd := (case ct_spent_month c of
          Some m \<Rightarrow> if month \<le> m then ct_spent_usd c + amount else amount
        | None \<Rightarrow> amount),
       ct_spent_month := Some (case ct_spent_month c of Some m \<Rightarrow> max m month | None \<Rightarrow> month)\<rparr>"

definition ledger_event :: "('d, 'm) db_env_scheme \<Rightarrow> nat \<Rightarrow> 'd usage_row \<Rightarrow> 'd usage_event" where
  "ledger_event P now w = \<lparr>ev_row = stored_row P w, ev_at = now\<rparr>"

definition post :: "('d::plus, 'm) db_env_scheme \<Rightarrow> nat \<Rightarrow> 'd usage_row \<Rightarrow> 'd db \<Rightarrow> 'd db" where
  "post P now w s =
     (let row = stored_row P w; amount = uw_cost_usd row; month = month_of P now
      in s\<lparr>usage_events := usage_events s @ [ledger_event P now w],
           db_accounts := update_where (uw_account_id row) (\<lambda>_. Some now) (db_accounts s),
           db_api_keys := update_where (uw_api_key_id row) (\<lambda>x. x + amount) (db_api_keys s),
           db_principals := update_where (uw_principal_id row) (debit month amount) (db_principals s),
           db_routes := update_where (uw_route_id row) (debit month amount) (db_routes s)\<rparr>)"

definition record_usage :: "('d::plus, 'm) db_env_scheme \<Rightarrow> nat \<Rightarrow> 'd usage_row \<Rightarrow> 'd db \<Rightarrow> error + 'd db" where
  "record_usage P now w s =
     (case fault P now of
        Some e \<Rightarrow> Inl (Internal (''recording usage: '' @ e))
      | None \<Rightarrow>
          if ev_key (ledger_event P now w) \<in> ev_key ` set (usage_events s) then Inr s
          else if references_hold s w then Inr (post P now w s)
          else Inl (Internal ''recording usage: foreign key''))"

definition record_with_gate :: "('d::plus, 'm) db_env_scheme \<Rightarrow> nat \<Rightarrow> 'd usage_row \<Rightarrow> 'd db \<Rightarrow> 'd db" where
  "record_with_gate P now w s = (case record_usage P now w s of Inl _ \<Rightarrow> s | Inr s' \<Rightarrow> s')"

subsection \<open>Reading and reconciling the counters\<close>

record 'd spend =
  sp_key_usd :: 'd
  sp_principal_usd :: 'd

definition spend_for :: "('d::zero, 'm) db_env_scheme \<Rightarrow> nat \<Rightarrow> string \<Rightarrow> string \<Rightarrow> 'd db \<Rightarrow> error + 'd spend" where
  "spend_for P now key prin s =
     (case fault P now of
        Some e \<Rightarrow> Inl (Internal (''reading spend: '' @ e))
      | None \<Rightarrow>
          (case (map_of (db_api_keys s) key, map_of (db_principals s) prin) of
             (Some k, Some p) \<Rightarrow>
               Inr \<lparr>sp_key_usd = k,
                 sp_principal_usd = (if ct_spent_month p = Some (month_of P now) then ct_spent_usd p else 0)\<rparr>
           | _ \<Rightarrow> Inl Unauthenticated))"

definition month_sum :: "('d::comm_monoid_add, 'm) db_env_scheme \<Rightarrow> nat \<Rightarrow> 'd usage_event list \<Rightarrow> 'd" where
  "month_sum P month evs = sum_list (map (\<lambda>e. uw_cost_usd (ev_row e)) (filter (\<lambda>e. month \<le> month_of P (ev_at e)) evs))"

definition of_principal :: "string \<Rightarrow> 'd db \<Rightarrow> 'd usage_event list" where
  "of_principal p s = filter (\<lambda>e. uw_principal_id (ev_row e) = Some p) (usage_events s)"

definition of_route :: "string \<Rightarrow> 'd db \<Rightarrow> 'd usage_event list" where
  "of_route r s = filter (\<lambda>e. uw_route_id (ev_row e) = Some r) (usage_events s)"

definition of_api_key :: "string \<Rightarrow> 'd db \<Rightarrow> 'd usage_event list" where
  "of_api_key k s = filter (\<lambda>e. uw_api_key_id (ev_row e) = Some k) (usage_events s)"

definition stale :: "nat \<Rightarrow> 'd counter \<Rightarrow> bool" where
  "stale month c \<longleftrightarrow> (case ct_spent_month c of None \<Rightarrow> True | Some m \<Rightarrow> m \<le> month)"

definition rewrite_counter :: "nat \<Rightarrow> 'd \<Rightarrow> 'd counter \<Rightarrow> 'd counter" where
  "rewrite_counter month tot c =
     (if stale month c then c\<lparr>ct_spent_usd := tot, ct_spent_month := Some month\<rparr> else c)"

definition reconcile_principal :: "('d::comm_monoid_add, 'm) db_env_scheme \<Rightarrow> nat \<Rightarrow> string \<Rightarrow> 'd db \<Rightarrow> nat \<times> 'd db" where
  "reconcile_principal P now i s =
     (let month = month_of P now in
      (length (filter (\<lambda>(k, c). k = i \<and> stale month c) (db_principals s)),
       s\<lparr>db_principals := update_where (Some i) (rewrite_counter month (month_sum P month (of_principal i s)))
          (db_principals s)\<rparr>))"

definition reconcile_route :: "('d::comm_monoid_add, 'm) db_env_scheme \<Rightarrow> nat \<Rightarrow> string \<Rightarrow> 'd db \<Rightarrow> nat \<times> 'd db" where
  "reconcile_route P now i s =
     (let month = month_of P now in
      (length (filter (\<lambda>(k, c). k = i \<and> stale month c) (db_routes s)),
       s\<lparr>db_routes := update_where (Some i) (rewrite_counter month (month_sum P month (of_route i s))) (db_routes s)\<rparr>))"

fun reconcile_rows :: "('d, 'm) db_env_scheme \<Rightarrow> (nat \<Rightarrow> string \<Rightarrow> 'd db \<Rightarrow> nat \<times> 'd db) \<Rightarrow> (nat \<Rightarrow> nat) \<Rightarrow> nat \<Rightarrow>
    string list \<Rightarrow> 'd db \<Rightarrow> (error + nat) \<times> 'd db" where
  "reconcile_rows P rewrite clock t [] s = (Inr 0, s)"
| "reconcile_rows P rewrite clock t (i # ids) s =
     (case fault P (clock t) of
        Some e \<Rightarrow> (Inl (Internal (''reconciling monthly spend: '' @ e)), s)
      | None \<Rightarrow>
          (let (done, s1) = rewrite (clock t) i s in
           case reconcile_rows P rewrite clock (Suc t) ids s1 of
             (Inl e, s2) \<Rightarrow> (Inl e, s2)
           | (Inr n, s2) \<Rightarrow> (Inr (done + n), s2)))"

definition budgeted :: "(string \<times> 'd counter) list \<Rightarrow> string list" where
  "budgeted table = map fst (filter (\<lambda>(_, c). ct_monthly_budget_usd c \<noteq> None) table)"

text \<open>
  \<open>clock\<close> gives the start times of the transactions, one a row.
\<close>

definition reconcile_monthly_spend :: "('d::comm_monoid_add, 'm) db_env_scheme \<Rightarrow> (nat \<Rightarrow> nat) \<Rightarrow> 'd db \<Rightarrow>
    (error + nat \<times> nat) \<times> 'd db" where
  "reconcile_monthly_spend P clock s =
     (case reconcile_rows P (reconcile_principal P) clock 0 (budgeted (db_principals s)) s of
        (Inl e, s1) \<Rightarrow> (Inl e, s1)
      | (Inr n, s1) \<Rightarrow>
          (case reconcile_rows P (reconcile_route P) clock (length (budgeted (db_principals s)))
                  (budgeted (db_routes s1)) s1 of
             (Inl e, s2) \<Rightarrow> (Inl e, s2)
           | (Inr m, s2) \<Rightarrow> (Inr (n, m), s2)))"

subsection \<open>What balanced books are\<close>

text \<open>
  \<open>counter_ok until\<close> relates a monthly counter to its owner's ledger rows. With \<open>until = Some b\<close> every
  statement so far ran in order and no later than month \<open>b\<close>, and the counter is exact; with \<open>None\<close>
  statements ran in any order, as transactions waiting on each other's locks around midnight do.
\<close>

definition spent_on :: "'d::comm_monoid_add usage_event list \<Rightarrow> 'd" where
  "spent_on evs = sum_list (map (\<lambda>e. uw_cost_usd (ev_row e)) evs)"

definition counter_ok :: "nat option \<Rightarrow> ('d::linordered_idom, 'm) db_env_scheme \<Rightarrow> 'd usage_event list \<Rightarrow> 'd counter \<Rightarrow>
    bool" where
  "counter_ok until P evs c \<longleftrightarrow>
     (case ct_spent_month c of
        None \<Rightarrow> evs = []
      | Some m \<Rightarrow> list_all (\<lambda>e. month_of P (ev_at e) \<le> m) evs \<and>
          (case until of
             Some b \<Rightarrow> m \<le> b \<and> ct_spent_usd c = month_sum P m evs
           | None \<Rightarrow> month_sum P m evs \<le> ct_spent_usd c \<and> ct_spent_usd c \<le> spent_on evs))"

definition balanced :: "nat option \<Rightarrow> ('d::linordered_idom, 'm) db_env_scheme \<Rightarrow> 'd db \<Rightarrow> bool" where
  "balanced until P s \<longleftrightarrow>
     distinct (map ev_key (usage_events s)) \<and> list_all (\<lambda>e. 0 \<le> uw_cost_usd (ev_row e)) (usage_events s) \<and>
     list_all (\<lambda>(k, x). x = spent_on (of_api_key k s)) (db_api_keys s) \<and>
     list_all (\<lambda>(p, c). counter_ok until P (of_principal p s) c) (db_principals s) \<and>
     list_all (\<lambda>(r, c). counter_ok until P (of_route r s) c) (db_routes s)"

definition advance :: "nat \<Rightarrow> nat option \<Rightarrow> nat option" where
  "advance n until = map_option (\<lambda>_. n) until"

definition not_after :: "nat option \<Rightarrow> nat \<Rightarrow> bool" where
  "not_after until n \<longleftrightarrow> (case until of None \<Rightarrow> True | Some b \<Rightarrow> b \<le> n)"

lemma month_sum_Nil [simp]: "month_sum P m [] = 0"
  by (simp add: month_sum_def)

lemma month_sum_snoc: "month_sum P m (evs @ [e]) =
   month_sum P m evs + (if m \<le> month_of P (ev_at e) then uw_cost_usd (ev_row e) else 0)"
  by (simp add: month_sum_def)

lemma month_sum_beyond:
  "list_all (\<lambda>e. month_of P (ev_at e) < n) evs \<Longrightarrow> month_sum P n evs = 0"
  by (induction evs) (auto simp: month_sum_def)

lemma spent_on_nonneg:
  fixes evs :: "'d::linordered_idom usage_event list"
  shows "list_all (\<lambda>e. 0 \<le> uw_cost_usd (ev_row e)) evs \<Longrightarrow> 0 \<le> spent_on evs"
  by (auto simp: spent_on_def list_all_iff intro!: sum_list_nonneg)

lemma month_sum_le_spent_on:
  fixes evs :: "'d::linordered_idom usage_event list"
  shows "list_all (\<lambda>e. 0 \<le> uw_cost_usd (ev_row e)) evs \<Longrightarrow> month_sum P m evs \<le> spent_on evs"
  by (induction evs) (auto simp: month_sum_def spent_on_def intro: add_mono add_increasing)

lemma counter_ok_later:
  assumes "counter_ok until P evs c" and "not_after until n"
  shows "counter_ok (advance n until) P evs c"
  using assms by (auto simp: counter_ok_def advance_def not_after_def split: option.splits)

lemma counter_ok_debit:
  fixes P :: "('d::linordered_idom, 'm) db_env_scheme"
  assumes ok: "counter_ok until P evs c" and "not_after until n" and "month_of P (ev_at e) = n"
    and "uw_cost_usd (ev_row e) = a" and "0 \<le> a" and "list_all (\<lambda>e. 0 \<le> uw_cost_usd (ev_row e)) evs"
  shows "counter_ok (advance n until) P (evs @ [e]) (debit n a c)"
proof (cases "ct_spent_month c")
  case None
  then show ?thesis using assms
    by (auto simp: counter_ok_def debit_def advance_def not_after_def month_sum_def spent_on_def split: option.splits)
next
  case (Some m)
  show ?thesis
  proof (cases "n \<le> m")
    case True
    have "n = m" if "until = Some b" for b
      using ok assms(2) Some True that by (auto simp: counter_ok_def not_after_def)
    then show ?thesis using assms Some True
      by (cases until) (auto simp: counter_ok_def debit_def advance_def month_sum_snoc spent_on_def)
  next
    case False
    then have "month_sum P n evs = 0"
      using ok Some by (intro month_sum_beyond) (auto simp: counter_ok_def list_all_iff split: option.splits)
    moreover have "list_all (\<lambda>e. month_of P (ev_at e) \<le> n) evs"
      using ok Some False by (auto simp: counter_ok_def list_all_iff split: option.splits)
    ultimately show ?thesis using assms Some False spent_on_nonneg [of evs]
      by (auto simp: counter_ok_def debit_def advance_def not_after_def month_sum_snoc spent_on_def max_def
          split: option.splits)
  qed
qed

lemma counter_ok_rewrite:
  assumes "counter_ok until P evs c" and "not_after until n" and "list_all (\<lambda>e. 0 \<le> uw_cost_usd (ev_row e)) evs"
  shows "counter_ok (advance n until) P evs (rewrite_counter n (month_sum P n evs) c)"
  using assms month_sum_le_spent_on [OF assms(3), of P n]
  by (auto simp: counter_ok_def rewrite_counter_def stale_def advance_def not_after_def list_all_iff
      split: option.splits intro: le_trans)

subsection \<open>Every statement keeps the books balanced\<close>

lemma update_where_fst [simp]: "fst ` set (update_where i f t) = fst ` set t"
  by (force simp: update_where_def)

lemma list_all_update_where:
  "list_all Q (update_where i f t) \<longleftrightarrow> list_all (\<lambda>(k, v). Q (k, if Some k = i then f v else v)) t"
  by (induction t) (auto simp: update_where_def)

lemma record_with_gate_eq: "record_with_gate P now w s =
    (if fault P now = None \<and> ev_key (ledger_event P now w) \<notin> ev_key ` set (usage_events s) \<and> references_hold s w
     then post P now w s else s)"
  by (simp add: record_with_gate_def record_usage_def split: option.splits)

definition write_key :: "'d usage_row \<Rightarrow> string \<times> nat" where
  "write_key x = (uw_request_id x, uw_attempt x)"

lemma ledger_event_simps [simp]:
  "ev_at (ledger_event P now w) = now" "ev_row (ledger_event P now w) = stored_row P w"
  "uw_cost_usd (stored_row P w) = to_scale P (uw_cost_usd w)" "uw_principal_id (stored_row P w) = uw_principal_id w"
  "uw_api_key_id (stored_row P w) = uw_api_key_id w" "uw_route_id (stored_row P w) = uw_route_id w"
  "ev_key (ledger_event P now w) = write_key w"
  by (simp_all add: ledger_event_def stored_row_def ev_key_def write_key_def)

datatype 'd db_op = Record (op_at: nat) "'d usage_row" | ReconcilePrincipal (op_at: nat) string | ReconcileRoute (op_at: nat) string

fun apply_op :: "('d::linordered_idom, 'm) db_env_scheme \<Rightarrow> 'd db_op \<Rightarrow> 'd db \<Rightarrow> 'd db" where
  "apply_op P (Record now w) s = record_with_gate P now w s"
| "apply_op P (ReconcilePrincipal now i) s = snd (reconcile_principal P now i s)"
| "apply_op P (ReconcileRoute now i) s = snd (reconcile_route P now i s)"

fun op_charges :: "('d::linordered_idom, 'm) db_env_scheme \<Rightarrow> 'd db_op \<Rightarrow> bool" where
  "op_charges P (Record _ w) = (0 \<le> to_scale P (uw_cost_usd w))"
| "op_charges P _ = True"

lemma balanced_later: "balanced until P s \<Longrightarrow> not_after until n \<Longrightarrow> balanced (advance n until) P s"
  by (auto simp: balanced_def list_all_iff intro: counter_ok_later)

lemma list_all_filtered: "list_all Q xs \<Longrightarrow> list_all Q (filter R xs)"
  by (auto simp: list_all_iff)

lemma balanced_post:
  assumes bal: "balanced until P s" and "not_after until (month_of P now)" and "0 \<le> to_scale P (uw_cost_usd w)"
    and fresh: "ev_key (ledger_event P now w) \<notin> ev_key ` set (usage_events s)"
  shows "balanced (advance (month_of P now) until) P (post P now w s)"
proof -
  have nonneg: "list_all (\<lambda>e. 0 \<le> uw_cost_usd (ev_row e)) (filter Q (usage_events s))" for Q
    using bal by (intro list_all_filtered) (simp add: balanced_def)
  have step: "counter_ok (advance (month_of P now) until) P (filter Q (usage_events s) @ [ledger_event P now w])
      (debit (month_of P now) (to_scale P (uw_cost_usd w)) c)"
    if "counter_ok until P (filter Q (usage_events s)) c" for Q c
    using that assms(2,3) nonneg by (intro counter_ok_debit) simp_all
  have keep: "counter_ok until P evs c \<Longrightarrow> counter_ok (advance (month_of P now) until) P evs c" for evs c
    by (rule counter_ok_later [OF _ assms(2)])
  show ?thesis
    using bal fresh assms(3) step keep unfolding balanced_def post_def Let_def
    by (simp add: list_all_update_where of_principal_def of_route_def of_api_key_def spent_on_def)
      (auto simp: list_all_iff)
qed

lemma balanced_record:
  assumes "balanced until P s" and "not_after until (month_of P now)" and "0 \<le> to_scale P (uw_cost_usd w)"
  shows "balanced (advance (month_of P now) until) P (record_with_gate P now w s)"
  using balanced_post [OF assms] balanced_later [OF assms(1,2)] by (simp add: record_with_gate_eq)

lemma balanced_principal_table:
  assumes "balanced until P s" and "list_all (\<lambda>(p, c). counter_ok until P (of_principal p s) c) t"
  shows "balanced until P (s\<lparr>db_principals := t\<rparr>)"
  using assms by (simp add: balanced_def of_principal_def of_route_def of_api_key_def)

lemma balanced_route_table:
  assumes "balanced until P s" and "list_all (\<lambda>(r, c). counter_ok until P (of_route r s) c) t"
  shows "balanced until P (s\<lparr>db_routes := t\<rparr>)"
  using assms by (simp add: balanced_def of_principal_def of_route_def of_api_key_def)

lemma balanced_reconcile_principal:
  assumes "balanced until P s" and "not_after until (month_of P now)"
  shows "balanced (advance (month_of P now) until) P (snd (reconcile_principal P now i s))"
proof -
  have nonneg: "list_all (\<lambda>e. 0 \<le> uw_cost_usd (ev_row e)) (of_principal i s)"
    using assms(1) unfolding of_principal_def by (intro list_all_filtered) (simp add: balanced_def)
  have ok: "counter_ok until P (of_principal k s) c" if "(k, c) \<in> set (db_principals s)" for k c
    using assms(1) that by (auto simp: balanced_def list_all_iff)
  show ?thesis
    unfolding reconcile_principal_def Let_def snd_conv
    by (rule balanced_principal_table [OF balanced_later [OF assms]])
      (auto simp: update_where_def list_all_iff
        intro: counter_ok_rewrite [OF ok assms(2) nonneg] counter_ok_later [OF ok assms(2)])
qed

lemma balanced_reconcile_route:
  assumes "balanced until P s" and "not_after until (month_of P now)"
  shows "balanced (advance (month_of P now) until) P (snd (reconcile_route P now i s))"
proof -
  have nonneg: "list_all (\<lambda>e. 0 \<le> uw_cost_usd (ev_row e)) (of_route i s)"
    using assms(1) unfolding of_route_def by (intro list_all_filtered) (simp add: balanced_def)
  have ok: "counter_ok until P (of_route k s) c" if "(k, c) \<in> set (db_routes s)" for k c
    using assms(1) that by (auto simp: balanced_def list_all_iff)
  show ?thesis
    unfolding reconcile_route_def Let_def snd_conv
    by (rule balanced_route_table [OF balanced_later [OF assms]])
      (auto simp: update_where_def list_all_iff
        intro: counter_ok_rewrite [OF ok assms(2) nonneg] counter_ok_later [OF ok assms(2)])
qed

lemma balanced_op:
  assumes "balanced until P s" and "not_after until (month_of P (op_at x))" and "op_charges P x"
  shows "balanced (advance (month_of P (op_at x)) until) P (apply_op P x s)"
  using assms by (cases x) (simp_all add: balanced_record balanced_reconcile_principal balanced_reconcile_route)

lemma balanced_any_order:
  assumes "balanced None P s" and "list_all (op_charges P) ops"
  shows "balanced None P (fold (apply_op P) ops s)"
  using assms
proof (induction ops arbitrary: s)
  case (Cons x ops)
  have "balanced None P (apply_op P x s)"
    using balanced_op [OF Cons.prems(1), of x] Cons.prems(2) by (simp add: advance_def not_after_def)
  then show ?case using Cons.IH Cons.prems(2) by simp
qed simp

lemma balanced_in_order:
  assumes "balanced (Some b) P s" and "list_all (op_charges P) ops"
    and "sorted (b # map (\<lambda>x. month_of P (op_at x)) ops @ [n])"
  shows "balanced (Some n) P (fold (apply_op P) ops s)"
  using assms
proof (induction ops arbitrary: s b)
  case Nil
  then show ?case using balanced_later [of "Some b" P s n] by (simp add: advance_def not_after_def)
next
  case (Cons x ops)
  have "balanced (Some (month_of P (op_at x))) P (apply_op P x s)"
    using balanced_op [OF Cons.prems(1), of x] Cons.prems(2,3) by (simp add: advance_def not_after_def)
  then show ?case using Cons.IH Cons.prems(2,3) by simp
qed

subsection \<open>The rows of one request\<close>

lemma failover_loop_lost:
  assumes "failover_loop lease_of try_of release_of may lose_of ks ex last_error dp lost w = (res, dp', lost', w')"
    and "\<And>l k acc e w. Q (lose_of l k acc e w)" and "list_all Q lost"
  shows "list_all Q lost' \<and> dp_request_id dp' = dp_request_id dp"
  using assms(1,3)
proof (induction ks arbitrary: ex last_error dp lost w)
  case (Cons k ks)
  obtain r w1 where lw: "lease_of ex w = (r, w1)" by force
  obtain n dp1 where td: "take_dispatch dp = (n, dp1)" by force
  then have same: "dp_request_id dp1 = dp_request_id dp" by (auto simp: take_dispatch_def)
  show ?case
  proof (cases "may k w \<and> (\<exists>l. r = Inr l)")
    case False
    then show ?thesis using Cons.prems lw by (cases r) (auto split: if_splits)
  next
    case True
    then obtain l where l: "may k w" "r = Inr l" by blast
    obtain out w2 where tw: "try_of l n w1 = (out, w2)" by force
    note run = Cons.prems(1) [simplified, simplified lw td tw l, simplified]
    show ?thesis
    proof (cases out)
      case (OutLost e acc)
      show ?thesis
        using Cons.IH [of "row_id (l_account l) # ex" e dp1 "lost @ [lose_of l n acc e w2]" "release_of l w2"]
          run OutLost Cons.prems(2) assms(2) same by (simp add: tw)
    qed (use run Cons.prems(2) same in \<open>auto simp: tw dest!: Cons.IH\<close>)
  qed
qed simp

fun ctx_of :: "'d ledger_row \<Rightarrow> 'd meter_ctx" where
  "ctx_of (RowCollected ctx _ _) = ctx"
| "ctx_of (RowAbandoned a) = ab_ctx a"
| "ctx_of (RowLost x) = lost_ctx x"

definition for_request :: "string \<Rightarrow> auth_context \<Rightarrow> 'd ledger_row list \<Rightarrow> bool" where
  "for_request rid auth rows \<longleftrightarrow> list_all (\<lambda>row. mc_request_id (ctx_of row) = rid \<and> mc_auth (ctx_of row) = auth) rows"

lemma forward_lost:
  assumes "forward_with_failover E auth dec req session dp lost ch w = (res, dp', lost', w')"
    and "dp_request_id dp = rid" and "for_request rid auth (unserved_rows ab lost)"
  shows "for_request rid auth (unserved_rows ab lost') \<and> dp_request_id dp' = rid"
proof -
  have split: "for_request rid auth (unserved_rows ab xs) \<longleftrightarrow> for_request rid auth (unserved_rows ab []) \<and>
      list_all (\<lambda>x. mc_request_id (lost_ctx x) = rid \<and> mc_auth (lost_ctx x) = auth) xs" for xs :: "'a lost_answer list"
    by (cases ab) (simp_all add: for_request_def unserved_rows_def list.pred_map comp_def)
  have kept: "list_all (\<lambda>x. mc_request_id (lost_ctx x) = rid \<and> mc_auth (lost_ctx x) = auth) lost"
    using assms(3) split by metis
  note run = assms(1) [unfolded forward_with_failover_def Let_def assms(2)]
  have "list_all (\<lambda>x. mc_request_id (lost_ctx x) = rid \<and> mc_auth (lost_ctx x) = auth) lost' \<and>
      dp_request_id dp' = dp_request_id dp"
    by (rule failover_loop_lost [OF run _ kept]) (simp add: lose_def meter_context_def)
  then show ?thesis using assms(2,3) split [of lost] split [of lost'] by simp
qed

fun streamed_ctx :: "error + ('d, 'q, 'r) reply \<Rightarrow> 'd meter_ctx option" where
  "streamed_ctx (Inr (StreamReply _ _ ctx _ _ _ _ _)) = Some ctx"
| "streamed_ctx _ = None"

definition finished_for :: "string \<Rightarrow> auth_context \<Rightarrow> ('d, 'q, 'r) finished \<Rightarrow> bool" where
  "finished_for rid auth f \<longleftrightarrow> for_request rid auth (f_rows f) \<and>
     pred_option (\<lambda>ctx. mc_request_id ctx = rid \<and> mc_auth ctx = auth) (streamed_ctx (f_result f))"

definition owed :: "string \<Rightarrow> auth_context \<Rightarrow> 'd climb_state \<Rightarrow> bool" where
  "owed rid auth c \<longleftrightarrow> dp_request_id (cs_dispatches c) = rid \<and>
     for_request rid auth (unserved_rows (cs_abandoned c) (cs_lost c))"

lemma owed_climb_to [simp]: "owed rid auth (climb_to nx g c) = owed rid auth c"
  by (simp add: owed_def climb_to_def)

lemma owed_abandoned:
  "owed rid auth c \<Longrightarrow> mc_request_id (ab_ctx x) = rid \<Longrightarrow> mc_auth (ab_ctx x) = auth \<Longrightarrow>
   owed rid auth (c\<lparr>cs_abandoned := Some x\<rparr>)"
  by (auto simp: owed_def for_request_def unserved_rows_def)

lemma climb_pass_owed:
  assumes "owed rid auth c"
  shows "climb_pass E D vj auth pl session rid started ingress c w = Inl f \<Longrightarrow> finished_for rid auth f"
    and "climb_pass E D vj auth pl session rid started ingress c w = Inr (c', w') \<Longrightarrow> owed rid auth c'"
proof -
  obtain res dp lost w1 where fw: "forward_with_failover E auth (cs_decision c) (cs_request c) session
      (cs_dispatches c) (cs_lost c) (pl_channel pl) w = (res, dp, lost, w1)" by (metis prod_cases4)
  have rows: "for_request rid auth (unserved_rows (cs_abandoned c) lost)" "dp_request_id dp = rid"
    using forward_lost [OF fw] assms by (auto simp: owed_def)
  then have c1: "owed rid auth (c\<lparr>cs_dispatches := dp, cs_lost := lost\<rparr>)" by (simp add: owed_def)
  show "finished_for rid auth f" if "climb_pass E D vj auth pl session rid started ingress c w = Inl f"
    using that fw rows(1)
    by (auto simp: climb_pass_def finished_for_def for_request_def meter_context_def stream_response_def Let_def
        split: sum.splits attempt.splits option.splits prod.splits)
  show "owed rid auth c'" if "climb_pass E D vj auth pl session rid started ingress c w = Inr (c', w')"
    using that fw c1
    by (auto simp: climb_pass_def abandon_def meter_context_def Let_def
        split: sum.splits attempt.splits option.splits prod.splits intro!: owed_abandoned)
qed

lemma climb_owed:
  assumes "owed rid auth c"
  shows "finished_for rid auth (climb E D vj auth pl session rid started ingress c w)"
  using assms
proof (induction E D vj auth pl session rid started ingress c w rule: climb.induct)
  case (1 E D vj auth pl session rid started ingress c w)
  show ?case
  proof (cases "climb_pass E D vj auth pl session rid started ingress c w")
    case (Inl f)
    then show ?thesis using climb_pass_owed(1) [OF "1.prems"] by (simp add: climb.simps)
  next
    case (Inr cw)
    obtain c' w' where cw: "cw = (c', w')" by force
    from "1.IH" [OF Inr [unfolded cw] refl climb_pass_owed(2) [OF "1.prems" Inr [unfolded cw]]]
    show ?thesis by (simp add: climb.simps [of _ _ _ _ _ _ _ _ _ c] Inr cw)
  qed
qed

subsection \<open>Posting the rows of a request\<close>

text \<open>
  The rows of a finished request: the streamed answer's, written by the pump with the outcome \<open>out\<close> it
  saw, and those the detached task writes. \<open>post_all\<close> is any sequence of writes with their times.
\<close>

fun streamed_writes :: "'d decimal \<Rightarrow> (string \<Rightarrow> bool) \<Rightarrow> stream_outcome \<Rightarrow> error + ('d, 'q, 'r) reply \<Rightarrow> 'd usage_row list" where
  "streamed_writes D valid_json out (Inr (StreamReply _ _ ctx triggering _ _ _ _)) =
     [streamed_write D valid_json ctx out triggering]"
| "streamed_writes D valid_json out _ = []"

definition request_writes :: "('d, 'm) env_scheme \<Rightarrow> 'd decimal \<Rightarrow> (string \<Rightarrow> bool) \<Rightarrow> world \<Rightarrow> stream_outcome \<Rightarrow>
    ('d, 'q, 'r) finished \<Rightarrow> 'd usage_row list" where
  "request_writes E D valid_json w out f = streamed_writes D valid_json out (f_result f) @ map (row_write E D w) (f_rows f)"

definition post_all :: "('d::plus, 'm) db_env_scheme \<Rightarrow> (nat \<times> 'd usage_row) list \<Rightarrow> 'd db \<Rightarrow> 'd db" where
  "post_all P posts s = fold (\<lambda>(t, x). record_with_gate P t x) posts s"

lemma write_key_usage_write [simp]:
  "write_key (usage_write D ctx out gate st fate) = (mc_request_id ctx, mc_attempt ctx)"
  "uw_api_key_id (usage_write D ctx out gate st fate) = Some (au_api_key (mc_auth ctx))"
  by (simp_all add: write_key_def usage_write_def Let_def split: prod.splits)

lemma write_key_row_write [simp]:
  "write_key (row_write E D w row) = (mc_request_id (ctx_of row), row_attempt row)"
  "uw_api_key_id (row_write E D w row) = Some (au_api_key (mc_auth (ctx_of row)))"
  by (cases row; simp)+

lemma references_post [simp]: "references_hold (record_with_gate P t x s) y = references_hold s y"
proof -
  have "references_hold (post P t x s) y = references_hold s y"
    by (simp add: references_hold_def post_def Let_def cong: option.case_cong)
  then show ?thesis by (simp add: record_with_gate_eq)
qed

lemma references_post_all [simp]: "references_hold (post_all P posts s) y = references_hold s y"
proof (induction posts arbitrary: s)
  case (Cons p posts)
  then show ?case by (cases p) (simp add: post_all_def)
qed (simp add: post_all_def)

lemma posted_events:
  assumes "list_all (\<lambda>(t, x). fault P t = None \<and> references_hold s x) posts" and "inj_on write_key (snd ` set posts)"
  shows "\<exists>evs. usage_events (post_all P posts s) = usage_events s @ evs \<and> distinct (map ev_key evs) \<and>
    ev_row ` set evs = stored_row P ` {x \<in> snd ` set posts. write_key x \<notin> ev_key ` set (usage_events s)} \<and>
    ev_key ` set evs = write_key ` {x \<in> snd ` set posts. write_key x \<notin> ev_key ` set (usage_events s)}"
  using assms
proof (induction posts rule: rev_induct)
  case Nil
  then show ?case by (simp add: post_all_def)
next
  case (snoc p posts)
  obtain t x where p: "p = (t, x)" by force
  let ?old = "ev_key ` set (usage_events s)"
  have inj: "inj_on write_key (snd ` set posts)"
    using snoc.prems(2) by (rule inj_on_subset) auto
  from snoc.IH snoc.prems(1) inj obtain evs where evs: "usage_events (post_all P posts s) = usage_events s @ evs"
      "distinct (map ev_key evs)"
      "ev_row ` set evs = stored_row P ` {x \<in> snd ` set posts. write_key x \<notin> ?old}"
      "ev_key ` set evs = write_key ` {x \<in> snd ` set posts. write_key x \<notin> ?old}"
    by auto
  have run: "post_all P (posts @ [p]) s = record_with_gate P t x (post_all P posts s)"
    by (simp add: post_all_def p)
  have ok: "fault P t = None" "references_hold s x" using snoc.prems(1) by (simp_all add: p)
  consider (old) "write_key x \<in> ?old" | (again) "write_key x \<notin> ?old" "x \<in> snd ` set posts"
    | (new) "write_key x \<notin> ?old" "x \<notin> snd ` set posts" by blast
  then show ?case
  proof cases
    case old
    then have "{y \<in> snd ` set (posts @ [p]). write_key y \<notin> ?old} = {y \<in> snd ` set posts. write_key y \<notin> ?old}"
      by (auto simp: p)
    moreover have "post_all P (posts @ [p]) s = post_all P posts s"
      using old by (simp add: run record_with_gate_eq evs(1) image_Un)
    ultimately show ?thesis using evs by metis
  next
    case again
    then have "snd ` set (posts @ [p]) = snd ` set posts" by (auto simp: p)
    moreover have "write_key x \<in> ev_key ` set evs" using again unfolding evs(4) by blast
    then have "post_all P (posts @ [p]) s = post_all P posts s"
      by (simp add: run record_with_gate_eq evs(1) image_Un)
    ultimately show ?thesis using evs by metis
  next
    case new
    have fresh: "write_key x \<notin> ev_key ` set evs"
    proof
      assume "write_key x \<in> ev_key ` set evs"
      then obtain y where y: "y \<in> snd ` set posts" "write_key x = write_key y" unfolding evs(4) by blast
      then have "x = y" using inj_onD [OF snoc.prems(2), of x y] by (simp add: p)
      with new y show False by simp
    qed
    have rows: "{y \<in> snd ` set (posts @ [p]). write_key y \<notin> ?old} =
        insert x {y \<in> snd ` set posts. write_key y \<notin> ?old}" using new(1) by (auto simp: p)
    have "usage_events (post_all P (posts @ [p]) s) = usage_events s @ evs @ [ledger_event P t x]"
      using ok new(1) fresh by (simp add: run record_with_gate_eq post_def Let_def evs(1) image_Un)
    moreover have "distinct (map ev_key (evs @ [ledger_event P t x]))" using evs(2) fresh by simp
    ultimately show ?thesis unfolding rows image_insert
      using evs(3,4) by (intro exI [of _ "evs @ [ledger_event P t x]"]) (simp only: set_append list.set image_Un
        image_insert image_empty ledger_event_simps Un_insert_right Un_empty_right simp_thms)
  qed
qed

lemma map_of_list_all: "list_all (\<lambda>(k, v). Q k v) t \<Longrightarrow> map_of t k = Some v \<Longrightarrow> Q k v"
  by (auto simp: list_all_iff dest!: map_of_SomeD)

lemma map_of_update_where: "map_of (update_where i f t) k = map_option (if Some k = i then f else id) (map_of t k)"
  by (induction t) (auto simp: update_where_def)

lemma key_survives: "(map_of (db_api_keys (record_with_gate P t x s)) k = None) = (map_of (db_api_keys s) k = None)"
  by (simp add: record_with_gate_eq post_def Let_def map_of_update_where)

lemma key_survives_all: "(map_of (db_api_keys (post_all P posts s)) k = None) = (map_of (db_api_keys s) k = None)"
proof (induction posts arbitrary: s)
  case (Cons p posts)
  then show ?case by (cases p) (simp add: post_all_def key_survives)
qed (simp add: post_all_def)

lemma balanced_post_all:
  assumes "balanced None P s" and "list_all (\<lambda>(t, x). 0 \<le> to_scale P (uw_cost_usd x)) posts"
  shows "balanced None P (post_all P posts s)"
proof -
  have "post_all P posts s = fold (apply_op P) (map (\<lambda>(t, x). Record t x) posts) s"
    unfolding post_all_def fold_map by (rule fold_cong) (auto simp: fun_eq_iff)
  moreover have "list_all (op_charges P) (map (\<lambda>(t, x). Record t x) posts)" using assms(2) by (auto simp: list_all_iff)
  ultimately show ?thesis using balanced_any_order [OF assms(1)] by simp
qed

lemma key_charged:
  fixes s :: "'d::linordered_idom db"
  assumes "balanced None P s" and "map_of (db_api_keys s) k = Some spent"
    and ok: "list_all (\<lambda>(t, x). fault P t = None \<and> references_hold s x \<and> 0 \<le> to_scale P (uw_cost_usd x)) posts"
    and "snd ` set posts = set xs" and "distinct (map write_key xs)"
    and "list_all (\<lambda>x. write_key x \<notin> ev_key ` set (usage_events s) \<and> uw_api_key_id x = Some k) xs"
  shows "map_of (db_api_keys (post_all P posts s)) k = Some (spent + (\<Sum>x\<leftarrow>xs. to_scale P (uw_cost_usd x)))"
proof -
  let ?s = "post_all P posts s"
  have inj: "inj_on write_key (snd ` set posts)" using assms(4,5) by (simp add: distinct_map)
  have all: "{x \<in> snd ` set posts. write_key x \<notin> ev_key ` set (usage_events s)} = set xs"
    using assms(4,6) by (auto simp: list_all_iff)
  have "list_all (\<lambda>(t, x). fault P t = None \<and> references_hold s x) posts"
      "list_all (\<lambda>(t, x). 0 \<le> to_scale P (uw_cost_usd x)) posts"
    using ok by (auto simp: list_all_iff)
  note posts = this
  obtain evs where evs: "usage_events ?s = usage_events s @ evs" "distinct (map ev_key evs)"
      "ev_row ` set evs = stored_row P ` set xs"
    using posted_events [OF posts(1) inj] unfolding all by blast
  have "map write_key (map ev_row evs) = map ev_key evs" by (simp add: ev_key_def write_key_def)
  then have d1: "distinct (map ev_row evs)" using evs(2) by (metis distinct_map)
  have "map write_key (map (stored_row P) xs) = map write_key xs" by (simp add: write_key_def stored_row_def)
  then have d2: "distinct (map (stored_row P) xs)" using assms(5) by (metis distinct_map)
  have "spent_on evs = sum uw_cost_usd (set (map ev_row evs))"
    using sum_list_distinct_conv_sum_set [OF d1, of uw_cost_usd] by (simp add: spent_on_def comp_def)
  also have "\<dots> = sum uw_cost_usd (set (map (stored_row P) xs))" using evs(3) by simp
  also have "\<dots> = (\<Sum>x\<leftarrow>xs. to_scale P (uw_cost_usd x))"
    using sum_list_distinct_conv_sum_set [OF d2, of uw_cost_usd] by (simp add: comp_def)
  finally have total: "spent_on evs = (\<Sum>x\<leftarrow>xs. to_scale P (uw_cost_usd x))" .
  have "uw_api_key_id (ev_row e) = Some k" if "e \<in> set evs" for e
  proof -
    from that have "ev_row e \<in> stored_row P ` set xs" unfolding evs(3) [symmetric] by (rule imageI)
    then obtain x where "ev_row e = stored_row P x" "x \<in> set xs" by (rule imageE)
    then show ?thesis using assms(6) by (simp add: list_all_iff)
  qed
  then have mine: "of_api_key k ?s = of_api_key k s @ evs" by (simp add: of_api_key_def evs(1))
  have bal: "balanced None P ?s" by (rule balanced_post_all [OF assms(1) posts(2)])
  obtain now where now: "map_of (db_api_keys ?s) k = Some now"
    using key_survives_all [of P posts s k] assms(2) by (cases "map_of (db_api_keys ?s) k") auto
  have "now = spent_on (of_api_key k ?s)" "spent = spent_on (of_api_key k s)"
    using map_of_list_all [OF _ now, of "\<lambda>k v. v = spent_on (of_api_key k ?s)"]
      map_of_list_all [OF _ assms(2), of "\<lambda>k v. v = spent_on (of_api_key k s)"] bal assms(1)
    by (auto simp: balanced_def)
  then show ?thesis using now total by (simp add: mine spent_on_def)
qed

lemma request_writes_keys:
  assumes "run_with_escalation E D vj auth pl req session rid started ingress w = f"
  shows "map write_key (request_writes E D vj w' out f) = map (Pair rid) (ledger_keys f)"
    and "list_all (\<lambda>x. uw_api_key_id x = Some (au_api_key auth)) (request_writes E D vj w' out f)"
proof -
  have mine: "for_request rid auth (f_rows f)"
      "pred_option (\<lambda>ctx. mc_request_id ctx = rid \<and> mc_auth ctx = auth) (streamed_ctx (f_result f))"
    using climb_owed [of rid auth "climb_start pl req rid started" E D vj pl session started ingress w] assms
    by (auto simp: run_with_escalation_def climb_start_def owed_def for_request_def unserved_rows_def dispatches_new_def
        finished_for_def)
  show "map write_key (request_writes E D vj w' out f) = map (Pair rid) (ledger_keys f)"
    using mine
    by (cases "(D, vj, out, f_result f)" rule: streamed_writes.cases)
      (auto simp: request_writes_def ledger_keys_def streamed_write_def for_request_def list_all_iff)
  show "list_all (\<lambda>x. uw_api_key_id x = Some (au_api_key auth)) (request_writes E D vj w' out f)"
    using mine
    by (cases "(D, vj, out, f_result f)" rule: streamed_writes.cases)
      (auto simp: request_writes_def streamed_write_def for_request_def list_all_iff)
qed

subsection \<open>The properties\<close>

text \<open>
  C9. The caps are checked against the ledger itself: after any run of ledger writes and reconciliations
  in order of time, the spend read for a caller is exactly the sum of the ledger's rows for their key,
  and the sum of this month's rows for their principal.
\<close>

theorem caps_read_the_ledger:
  fixes s :: "'d::linordered_idom db"
  assumes "balanced (Some b) P s" and "list_all (op_charges P) ops"
    and "sorted (b # map (\<lambda>x. month_of P (op_at x)) ops @ [month_of P now])"
    and "spend_for P now k p (fold (apply_op P) ops s) = Inr sp"
  shows "sp_key_usd sp = spent_on (of_api_key k (fold (apply_op P) ops s)) \<and>
    sp_principal_usd sp = month_sum P (month_of P now) (of_principal p (fold (apply_op P) ops s))"
proof -
  let ?s = "fold (apply_op P) ops s"
  have bal: "balanced (Some (month_of P now)) P ?s" by (rule balanced_in_order [OF assms(1-3)])
  from assms(4) obtain x c where xc: "map_of (db_api_keys ?s) k = Some x" "map_of (db_principals ?s) p = Some c"
    and sp: "sp = \<lparr>sp_key_usd = x,
      sp_principal_usd = (if ct_spent_month c = Some (month_of P now) then ct_spent_usd c else 0)\<rparr>"
    by (auto simp: spend_for_def split: option.splits)
  have key: "x = spent_on (of_api_key k ?s)" and cnt: "counter_ok (Some (month_of P now)) P (of_principal p ?s) c"
    using map_of_list_all [OF _ xc(1), of "\<lambda>k x. x = spent_on (of_api_key k ?s)"]
      map_of_list_all [OF _ xc(2), of "\<lambda>p c. counter_ok (Some (month_of P now)) P (of_principal p ?s) c"] bal
    by (simp_all add: balanced_def)
  have "month_sum P (month_of P now) (of_principal p ?s) = 0" if "ct_spent_month c \<noteq> Some (month_of P now)"
    using cnt that by (intro month_sum_beyond) (auto simp: counter_ok_def list_all_iff split: option.splits)
  then show ?thesis using key cnt by (auto simp: sp counter_ok_def)
qed

text \<open>
  C10. Spend is never lost from the counters, whatever the order in which statements commit: around a
  month's end, with clocks behind, with replays and with failed statements. Row identities stay unique,
  a key's counter is the exact sum of its rows, and a principal's or route's monthly counter holds at
  least its rows of the month it is stamped with and at most all of its rows.
\<close>

theorem counters_never_lose_spend:
  assumes "balanced None P s" and "list_all (op_charges P) ops"
  shows "balanced None P (fold (apply_op P) ops s)"
  by (rule balanced_any_order [OF assms])

text \<open>
  C4. A request is billed exactly once for everything it generated: posting the rows of a finished
  request in any order, with any replays, to a ledger that does not hold the request yet raises the
  caller's counter by the sum of the rows' costs, the abandoned and lost answers' included.
\<close>

theorem request_is_billed_once:
  fixes s :: "'d::linordered_idom db"
  assumes "run_with_escalation E D vj auth pl req session rid started ingress w = f"
    and "2 * Suc (max_account_switches (config E)) \<le> u8_max"
    and "balanced None P s" and "map_of (db_api_keys s) (au_api_key auth) = Some spent"
    and "list_all (\<lambda>e. uw_request_id (ev_row e) \<noteq> rid) (usage_events s)"
    and "snd ` set posts = set (request_writes E D vj w' out f)"
    and "list_all (\<lambda>(t, x). fault P t = None \<and> references_hold s x \<and> 0 \<le> to_scale P (uw_cost_usd x)) posts"
  shows "map_of (db_api_keys (post_all P posts s)) (au_api_key auth) =
    Some (spent + (\<Sum>x\<leftarrow>request_writes E D vj w' out f. to_scale P (uw_cost_usd x)))"
proof -
  let ?xs = "request_writes E D vj w' out f"
  note keys = request_writes_keys [OF assms(1), of w' out]
  have d: "distinct (map write_key ?xs)"
    using ledger_keys_distinct [OF assms(2)] assms(1) unfolding keys(1) by (auto simp: distinct_map inj_on_def)
  have "fst (write_key x) = rid" if "x \<in> set ?xs" for x
  proof -
    from that have "write_key x \<in> set (map write_key ?xs)" by simp
    then show ?thesis unfolding keys(1) by auto
  qed
  then have "list_all (\<lambda>x. write_key x \<notin> ev_key ` set (usage_events s) \<and> uw_api_key_id x = Some (au_api_key auth)) ?xs"
    using assms(5) keys(2) by (force simp: list_all_iff ev_key_def)
  from key_charged [OF assms(3,4,7,6) d this] show ?thesis .
qed

lemma length_filter_mono: "(\<And>x. Q x \<Longrightarrow> R x) \<Longrightarrow> length (filter Q xs) \<le> length (filter R xs)"
  by (induction xs) (auto intro: le_SucI)

fun is_served :: "'d ledger_row \<Rightarrow> bool" where
  "is_served (RowCollected _ _ _) = True"
| "is_served _ = False"

lemma climb_serves_once:
  "length (streamed_attempt (f_result (climb E D vj auth pl session rid started ingress c w))) +
   length (filter is_served (f_rows (climb E D vj auth pl session rid started ingress c w))) \<le> 1"
proof (induction E D vj auth pl session rid started ingress c w rule: climb.induct)
  case (1 E D vj auth pl session rid started ingress c w)
  have none: "filter is_served (unserved_rows ab lost) = []" for ab :: "'a abandoned_answer option" and lost
    by (auto simp: unserved_rows_def filter_empty_conv split: option.splits)
  show ?case
  proof (cases "climb_pass E D vj auth pl session rid started ingress c w")
    case (Inl f)
    then have "length (streamed_attempt (f_result f)) + length (filter is_served (f_rows f)) \<le> 1"
      by (auto simp: climb_pass_def stream_response_def none Let_def
          split: prod.splits sum.splits attempt.splits option.splits)
    then show ?thesis by (simp add: climb.simps Inl)
  next
    case (Inr cw)
    obtain c' w' where cw: "cw = (c', w')" by force
    from "1.IH" [OF Inr [unfolded cw] refl] show ?thesis
      by (simp add: climb.simps [of _ _ _ _ _ _ _ _ _ c] Inr cw)
  qed
qed

lemma unserved_claims_nothing:
  "\<not> is_served row \<Longrightarrow> uw_counterfactual_usd (row_write E D w row) = d_zero D \<and>
     uw_counterfactual_model_id (row_write E D w row) = None \<and> uw_counterfactual_api_usd (row_write E D w row) = d_zero D"
  by (cases row) (simp_all add: usage_write_def Let_def)

text \<open>
  C29. Savings are claimed once a request: of all the rows a request writes at most one carries a
  baseline, so an answer thrown away or lost never books its own cost as savings, while every row on a
  metered credential still carries the price of its tokens and every row on a flat-rate seat costs
  nothing.
\<close>

theorem savings_are_claimed_once:
  fixes D :: "'d::linordered_idom decimal"
  assumes "run_with_escalation E D vj auth pl req session rid started ingress w = f"
  shows "length (filter (\<lambda>x. uw_counterfactual_usd x \<noteq> d_zero D \<or> uw_counterfactual_model_id x \<noteq> None \<or>
      uw_counterfactual_api_usd x \<noteq> d_zero D) (request_writes E D vj w' out f)) \<le> 1 \<and>
    uw_cost_usd (usage_write D ctx o' gate st fate) =
      (if mc_flat_rate ctx then d_zero D
       else cost D (ms_pricing (dec_model (mc_decision ctx))) (acc_usage (so_accumulator o')))"
proof -
  let ?claims = "\<lambda>x. uw_counterfactual_usd x \<noteq> d_zero D \<or> uw_counterfactual_model_id x \<noteq> None \<or>
      uw_counterfactual_api_usd x \<noteq> d_zero D"
  have "length (filter (\<lambda>row. ?claims (row_write E D w' row)) (f_rows f)) \<le> length (filter is_served (f_rows f))"
    by (rule length_filter_mono) (metis unserved_claims_nothing)
  moreover have "length (filter ?claims (streamed_writes D vj out (f_result f))) \<le> length (streamed_attempt (f_result f))"
    by (cases "f_result f" rule: streamed_attempt.cases) auto
  ultimately have "length (filter ?claims (request_writes E D vj w' out f)) \<le> 1"
    using climb_serves_once [of E D vj auth pl session rid started ingress "climb_start pl req rid started" w] assms
    by (simp add: request_writes_def run_with_escalation_def filter_map comp_def)
  then show ?thesis by (simp add: usage_write_def Let_def split: prod.splits)
qed

subsection \<open>Witnesses\<close>

definition sample_pg :: "int db_env" where
  "sample_pg = \<lparr>month_of = \<lambda>t. t div 100, to_scale = \<lambda>x. x, fault = \<lambda>_. None\<rparr>"

definition sample_db :: "int db" where
  "sample_db = \<lparr>usage_events = [], db_api_keys = [(''k'', 0)],
     db_principals = [(''p'', \<lparr>ct_spent_usd = 0, ct_spent_month = None, ct_monthly_budget_usd = Some 100\<rparr>)],
     db_routes = [(''r'', \<lparr>ct_spent_usd = 0, ct_spent_month = None, ct_monthly_budget_usd = None\<rparr>)],
     db_accounts = [(3, None)]\<rparr>"

definition sample_usage_row :: "string \<Rightarrow> int \<Rightarrow> int usage_row" where
  "sample_usage_row rid c = \<lparr>uw_request_id = rid, uw_attempt = 0, uw_principal_id = Some ''p'', uw_api_key_id = Some ''k'',
     uw_route_id = Some ''r'', uw_account_id = Some 3, uw_model_id = ''a/x'', uw_tier = [], uw_selection_reason = ''passthrough'',
     uw_escalated_from_tier = None, uw_escalation_gate = None, uw_usage = usage_default, uw_cost_usd = c,
     uw_counterfactual_usd = c, uw_counterfactual_model_id = None, uw_counterfactual_api_usd = c, uw_status = 200,
     uw_latency_ms = None, uw_ttft_ms = None, uw_streamed = False\<rparr>"

lemma sample_db_balanced: "balanced (Some 0) sample_pg sample_db" "balanced None sample_pg sample_db"
  by (simp_all add: balanced_def sample_db_def counter_ok_def spent_on_def of_api_key_def of_principal_def of_route_def)

definition sample_ops :: "int db_op list" where
  "sample_ops = [Record 5 (sample_usage_row ''a'' 7), Record 105 (sample_usage_row ''b'' 3),
     Record 106 (sample_usage_row ''b'' 3), ReconcilePrincipal 110 ''p'']"

lemma sample_ops_charge: "list_all (op_charges sample_pg) sample_ops"
  by (simp add: sample_ops_def sample_pg_def sample_usage_row_def)

lemma sample_spend: "spend_for sample_pg 120 ''k'' ''p'' (fold (apply_op sample_pg) sample_ops sample_db) =
    Inr \<lparr>sp_key_usd = 10, sp_principal_usd = 3\<rparr>"
  by (simp add: sample_ops_def record_with_gate_eq post_def references_hold_def sample_db_def sample_pg_def sample_usage_row_def
      update_where_def stored_row_def ledger_event_def debit_def reconcile_principal_def rewrite_counter_def stale_def
      month_sum_def of_principal_def spend_for_def ev_key_def write_key_def Let_def)

theorem caps_read_the_ledger_witness:
  "spent_on (of_api_key ''k'' (fold (apply_op sample_pg) sample_ops sample_db)) = 10 \<and>
   month_sum sample_pg 1 (of_principal ''p'' (fold (apply_op sample_pg) sample_ops sample_db)) = 3"
  using caps_read_the_ledger [OF sample_db_balanced(1) sample_ops_charge _ sample_spend]
  by (simp add: sample_ops_def sample_pg_def)

theorem counters_never_lose_spend_witness:
  "balanced None sample_pg (fold (apply_op sample_pg) (rev sample_ops) sample_db)"
  by (rule counters_never_lose_spend [OF sample_db_balanced(2)]) (use sample_ops_charge in \<open>simp add: list_all_iff\<close>)

text \<open>A metered key whose upstream answers.\<close>

definition sample_served_acc :: accumulator where
  "sample_served_acc = acc_new\<lparr>acc_usage := \<lparr>input_tokens = 1000000, output_tokens = 1000000, cache_read_tokens = 0,
     cache_write_tokens = 0\<rparr>, text_len := 5\<rparr>"

definition sample_serving :: "(int, unit, unit) gateway_env" where
  "sample_serving = env.extend (sample_env [sample_row 3 ''api_key'']) (gateway_env.fields sample_config sample_adapter
     (\<lambda>_. [(OpenAI, sample_adapter)]) (\<lambda>_ _. Inr sample_secret) (\<lambda>_ _ _. Inr ())
     (\<lambda>_ _ _. Inr \<lparr>rs_status = 200, rs_retry_after = None, rs_text = None, rs_body = ()\<rparr>)
     (\<lambda>_ _ _ _. Inr ([], acc_new)) (\<lambda>_ _ _ _. Inr ([], [], sample_served_acc)) (\<lambda>s. s))"

lemmas sample_serving_defs = sample_serving_def sample_env_def env.defs gateway_env.defs

lemma sample_serving_lease:
  assumes "w_breakers w = breakers_new" and "au_route auth = ''r''" and "au_principal auth = ''p''"
  shows "\<exists>w'. lease sample_serving (search_for auth OpenAI session ''q'' None) [] w =
     (Inr \<lparr>l_account = sample_row 3 ''api_key'', l_request_id = ''q'', via_sticky = False\<rparr>, w') \<and>
     w_breakers w' = breakers_new \<and> sends w' = sends w"
  using assms
  by (auto simp: lease_def lease_by_cascade_def cascade.simps [of _ _ _ _ _ "[_]"] candidates_for_def claim_slot_def
        grant_def leased_def sample_serving_defs search_for_def of_kind_def read_clock_def
        eligible_with_def is_eligible_def is_live_def held_by_reserve_def Let_def select_def eligible_def try_pinned_def
        breakers_permits_def breakers_new_def await_def sticky_set_def List.map_filter_simps
        fastrand_u64_def)

lemma sample_serving_try:
  assumes "w_breakers w = breakers_new" and "dec_model dec = sample_model ''a/x'' OpenAI ''x'' 2"
  shows "\<exists>w'. try_credential sample_serving dec (sample_request\<lparr>cr_model := m\<rparr>) conv
      \<lparr>l_account = sample_row 3 ''api_key'', l_request_id = ''q'', via_sticky = False\<rparr> 0 w =
    (OutOk (Collected [] [] sample_served_acc \<lparr>l_account = sample_row 3 ''api_key'', l_request_id = ''q'', via_sticky = False\<rparr>
       0 sample_adapter), w') \<and> sends w' = sends w @ [3]"
  using assms
  by (auto simp: try_credential_def adapter_for_def sample_serving_defs sample_model_def
      kind_from_column_def sample_adapter_def openai_function_names_def req_for_model_def sample_request_def
      sample_config_def await_def read_clock_def dispatch_claim_def breakers_begin_request_def breakers_new_def
      entry_def send_once_def succeeded_def state_adapter_def drop_dispatch_def replica_record_success_def Let_def)

definition sample_lease :: "int held_lease" where
  "sample_lease = \<lparr>l_account = sample_row 3 ''api_key'', l_request_id = ''q'', via_sticky = False\<rparr>"

lemma sample_serving_forward:
  assumes "w_breakers w = breakers_new" and "dec_model dec = sample_model ''a/x'' OpenAI ''x'' 2"
    and "au_route auth = ''r''" and "au_principal auth = ''p''"
  shows "\<exists>dp' w'. forward_with_failover sample_serving auth dec (sample_request\<lparr>cr_model := m\<rparr>) session
     (dispatches_new ''q'' began) [] None w =
     (Inr (Collected [] [] sample_served_acc sample_lease 0 sample_adapter), dp', [], w') \<and> sends w' = sends w @ [3]"
proof -
  have p: "ms_provider (dec_model dec) = OpenAI" and q: "dp_request_id (dispatches_new ''q'' began) = ''q''"
    by (simp_all add: assms(2) sample_model_def dispatches_new_def)
  have g: "config sample_serving = sample_config" by (simp add: sample_serving_defs)
  obtain w1 where w1: "lease sample_serving (search_for auth OpenAI session ''q'' None) [] w = (Inr sample_lease, w1)"
      "w_breakers w1 = breakers_new" "sends w1 = sends w"
    using sample_serving_lease [OF assms(1,3,4)] by (auto simp: sample_lease_def)
  obtain w2 where w2: "try_credential sample_serving dec (sample_request\<lparr>cr_model := m\<rparr>) (conversation_id sample_serving session)
      sample_lease 0 w1 = (OutOk (Collected [] [] sample_served_acc sample_lease 0 sample_adapter), w2)" "sends w2 = sends w @ [3]"
    using sample_serving_try [OF w1(2) assms(2)] w1(3) unfolding sample_lease_def by metis
  have "[0..<Suc (max_account_switches sample_config)] = [0, 1]" by (simp add: sample_config_def upt_rec)
  moreover have "take_dispatch (dispatches_new ''q'' began) = (0, (dispatches_new ''q'' began)\<lparr>dp_next := 1\<rparr>)"
    by (simp add: take_dispatch_def dispatches_new_def sat_add_def u8_max_def)
  ultimately show ?thesis
    using w1(1) w2 by (simp add: forward_with_failover_def p q g may_try_another_def Let_def)
qed

definition sample_served :: "(int, unit, unit) finished" where
  "sample_served = run_with_escalation sample_serving fixed28 (\<lambda>_. True) sample_auth sample_plan sample_request
     ''s'' ''q'' 0 AnthropicMessages sample_world"

definition sample_served_row :: "int usage_row" where
  "sample_served_row = row_write sample_serving fixed28 sample_world
     (RowCollected (meter_context sample_auth sample_decision sample_lease ''q'' 0 0) sample_served_acc None)"

lemma sample_served_rows:
  "request_writes sample_serving fixed28 (\<lambda>_. True) sample_world out sample_served =
     [sample_served_row]"
proof -
  obtain dp' w' where "forward_with_failover sample_serving sample_auth sample_decision sample_request ''s''
     (dispatches_new ''q'' 0) [] None sample_world =
     (Inr (Collected [] [] sample_served_acc sample_lease 0 sample_adapter), dp', [], w')"
    using sample_serving_forward [of sample_world sample_decision sample_auth "''m''" "''s''" 0]
    by (auto simp: sample_world_def sample_decision_def sample_auth_def sample_request_def)
  then show ?thesis
    by (simp add: sample_served_def run_with_escalation_def climb.simps climb_pass_def climb_start_def sample_plan_def
        quality_gate_of_def sample_served_acc_def acc_new_def unserved_rows_def request_writes_def sample_served_row_def
        Let_def)
qed

lemma sample_served_row: "uw_cost_usd sample_served_row = 4" "references_hold sample_db sample_served_row"
  by (simp_all add: sample_served_row_def usage_write_def meter_context_def sample_lease_def sample_row_def kind_from_column_def
      collected_outcome_def sample_served_acc_def sample_decision_def sample_model_def cost_def TOKENS_PER_MILLION_def
      fixed28_def references_hold_def sample_db_def sample_auth_def Let_def)

theorem request_is_billed_once_witness:
  "map_of (db_api_keys (post_all sample_pg [(5, sample_served_row), (9, sample_served_row)] sample_db)) ''k'' = Some 4"
proof -
  have c: "max_account_switches (config sample_serving) = 1" by (simp add: sample_serving_defs sample_config_def)
  have s: "usage_events sample_db = []" "map_of (db_api_keys sample_db) (au_api_key sample_auth) = Some 0"
    by (simp_all add: sample_db_def sample_auth_def)
  have p: "fault sample_pg t = None" "to_scale sample_pg y = y" for t y by (simp_all add: sample_pg_def)
  have "map_of (db_api_keys (post_all sample_pg [(5, sample_served_row), (9, sample_served_row)] sample_db))
        (au_api_key sample_auth) =
      Some (0 + (\<Sum>x\<leftarrow>request_writes sample_serving fixed28 (\<lambda>_. True) sample_world
        (collected_outcome sample_serving (meter_context sample_auth sample_decision sample_lease ''q'' 0 0)
          sample_served_acc sample_world) sample_served. to_scale sample_pg (uw_cost_usd x)))"
    by (rule request_is_billed_once [OF sample_served_def [symmetric] _ sample_db_balanced(2) s(2)])
      (simp_all add: sample_served_rows sample_served_row c s p u8_max_def)
  then show ?thesis by (simp add: sample_served_rows sample_served_row p sample_auth_def)
qed

theorem savings_are_claimed_once_witness:
  "length (filter (\<lambda>x. uw_counterfactual_usd x \<noteq> 0) [sample_served_row]) = 1 \<and>
   length (filter (\<lambda>x. uw_counterfactual_usd x \<noteq> 0 \<or> uw_counterfactual_model_id x \<noteq> None \<or>
     uw_counterfactual_api_usd x \<noteq> 0) [sample_served_row]) \<le> 1"
proof -
  have "uw_counterfactual_usd sample_served_row = 4"
    by (simp add: sample_served_row_def usage_write_def meter_context_def sample_lease_def sample_row_def kind_from_column_def
      collected_outcome_def sample_served_acc_def sample_decision_def sample_model_def cost_def TOKENS_PER_MILLION_def
      fixed28_def Let_def)
  then show ?thesis
    using savings_are_claimed_once [OF sample_served_def [symmetric], of sample_world undefined] sample_served_rows
    by (simp add: fixed28_def)
qed

end
