(* ===== verification/Gateway.thy ===== *)
theory Gateway
  imports Alias Respond Ledger
begin

text \<open>
  The inference request path put together: authentication in front of the body
  (\<^verbatim>\<open>gateway/authn.rs\<close>, \<^verbatim>\<open>oag-store/src/repo/keys.rs\<close>), planning (\<^verbatim>\<open>gateway/plan.rs\<close>) and the
  handler (\<^verbatim>\<open>gateway/mod.rs\<close>) that parses, normalises, plans and runs a request. What the stores answer
  while a request is authenticated and planned is the record \<open>plan_reads\<close>; the codecs' request parsers
  and the text that explains an unroutable model are parameters. Planning's reads count as one await.
\<close>

subsection \<open>Keys\<close>

definition KEY_PREFIX :: string where "KEY_PREFIX = ''oag_live_''"
definition KEY_LEN :: nat where "KEY_LEN = 9 + 64"

definition lower_hex :: "char \<Rightarrow> bool" where
  "lower_hex c \<longleftrightarrow> is_digit c \<or> (let n = of_char c :: nat in 97 \<le> n \<and> n \<le> 102)"

definition is_issued_key_shape :: "string \<Rightarrow> bool" where
  "is_issued_key_shape raw \<longleftrightarrow> length raw = KEY_LEN \<and> prefix KEY_PREFIX raw \<and>
     list_all lower_hex (drop (length KEY_PREFIX) raw)"

definition mint_key :: "bytes \<Rightarrow> string" where
  "mint_key raw = KEY_PREFIX @ hex raw"

record request_head =
  hd_authorization :: "bytes option"
  hd_x_api_key :: "bytes option"
  hd_x_goog_api_key :: "bytes option"
  hd_oag_tier :: "bytes option"

definition extract_key :: "request_head \<Rightarrow> string option" where
  "extract_key h =
     (case Option.bind (Option.bind (hd_authorization h) header_text) (strip_prefix ''Bearer '') of
        Some token \<Rightarrow> Some token
      | None \<Rightarrow> Option.bind (case hd_x_api_key h of Some v \<Rightarrow> Some v | None \<Rightarrow> hd_x_goog_api_key h) header_text)"

subsection \<open>Planning\<close>

record 'd caller = auth_context +
  ca_key_floor_tier :: "string option"
  ca_quota_usd :: "'d option"
  ca_principal_budget_usd :: "'d option"
  ca_hard_stop_multiple :: 'd

record 'd route_row =
  rr_name :: string
  rr_tiers :: "string + rung list"
  rr_default_mode :: string
  rr_floor_tier :: "string option"
  rr_rpm_limit :: "int option"
  rr_monthly_budget_usd :: "'d option"
  rr_spent_usd :: 'd

record 'd plan_reads =
  auth_lookup :: "string \<Rightarrow> error + 'd caller option"
  route_by_id :: "string \<Rightarrow> error + 'd route_row option"
  read_spend :: "string \<Rightarrow> string \<Rightarrow> error + 'd spend"
  take_rate_token :: "string \<Rightarrow> nat \<Rightarrow> error + duration option"
  route_channels :: "string \<Rightarrow> string \<Rightarrow> error + (string list option) list"
  no_viable_message :: "'d route_row \<Rightarrow> string \<Rightarrow> string"

definition parse_ladder :: "string + rung list \<Rightarrow> error + tier_ladder" where
  "parse_ladder tiers =
     (case tiers of
        Inl e \<Rightarrow> Inl (Config (''route.tiers is not a ladder: '' @ e))
      | Inr rungs \<Rightarrow> (case ladder_new rungs of
          None \<Rightarrow> Inl (Config ''route.tiers is empty; a route must have a rung'')
        | Some l \<Rightarrow> Inr l))"

definition policy_for :: "('d, 'm) plan_reads_scheme \<Rightarrow> 'd caller \<Rightarrow> error + 'd route_row \<times> routing_policy \<times> 'd spend" where
  "policy_for R c =
     (case route_by_id R (au_route c) of
        Inl e \<Rightarrow> Inl e
      | Inr None \<Rightarrow> Inl (Internal ''route vanished between auth and routing'')
      | Inr (Some route) \<Rightarrow>
          (case read_spend R (au_api_key c) (au_principal c) of
             Inl e \<Rightarrow> Inl e
           | Inr spend \<Rightarrow>
               (case parse_ladder (rr_tiers route) of
                  Inl e \<Rightarrow> Inl e
                | Inr l \<Rightarrow>
                    (let named = (case ca_key_floor_tier c of Some t \<Rightarrow> Some t | None \<Rightarrow> rr_floor_tier route);
                         fl = Option.bind named (ladder_tier l)
                     in Inr (route, with_floor (policy_new l (classify thresholds_default)) fl, spend)))))"

definition budgets_for :: "'d decimal \<Rightarrow> 'd caller \<Rightarrow> 'd route_row \<Rightarrow> 'd spend \<Rightarrow> 'd budgets" where
  "budgets_for D c route spend =
     \<lparr>b_key = \<lparr>spent_usd = sp_key_usd spend, limit_usd = ca_quota_usd c, hard_stop_multiple = d_one D\<rparr>,
       b_route = \<lparr>spent_usd = rr_spent_usd route, limit_usd = rr_monthly_budget_usd route, hard_stop_multiple = d_one D\<rparr>,
       b_principal = \<lparr>spent_usd = sp_principal_usd spend, limit_usd = ca_principal_budget_usd c,
         hard_stop_multiple = ca_hard_stop_multiple c\<rparr>\<rparr>"

definition virtual_tier :: "string \<Rightarrow> tier_name option" where
  "virtual_tier model =
     (case strip_prefix ''oag/'' model of
        None \<Rightarrow> None
      | Some s \<Rightarrow> if s = ''auto'' then None else Some s)"

definition served_models_for :: "('d, 'm) plan_reads_scheme \<Rightarrow> 'd caller \<Rightarrow> string list" where
  "served_models_for R c =
     (case route_channels R (au_route c) (au_principal c) of
        Inr rows \<Rightarrow> concat (List.map_filter id rows)
      | Inl _ \<Rightarrow> [])"

definition throttled :: "('d, 'm) plan_reads_scheme \<Rightarrow> 'd caller \<Rightarrow> 'd route_row \<Rightarrow> error option" where
  "throttled R c route =
     (case rr_rpm_limit route of
        None \<Rightarrow> None
      | Some rpm \<Rightarrow>
          if 0 \<le> rpm then
            (case take_rate_token R (au_route c) (nat rpm) of
               Inl e \<Rightarrow> Some e
             | Inr None \<Rightarrow> None
             | Inr (Some retry_after) \<Rightarrow> Some (RateLimited retry_after))
          else None)"

definition requested_tier :: "routing_policy \<Rightarrow> request_head \<Rightarrow> canonical_request \<Rightarrow> tier_name option" where
  "requested_tier policy h req =
     (let real = (\<lambda>t. if policy_rung policy t \<noteq> None then Some t else None);
          header = Option.bind (Option.bind (hd_oag_tier h) header_text) real
      in Option.bind (case header of Some t \<Rightarrow> Some t | None \<Rightarrow> virtual_tier (cr_model req)) real)"

definition mode_for :: "'d route_row \<Rightarrow> canonical_request \<Rightarrow> request_signal \<Rightarrow> routing_mode" where
  "mode_for route req signal =
     (if prefix ''oag/'' (cr_model req) \<or> rr_default_mode route = ''managed'' \<or> explicit_tier signal \<noteq> None
      then Managed else Passthrough)"

definition plan_request :: "'d::linorder decimal \<Rightarrow> (json \<Rightarrow> nat) \<Rightarrow> ('d, 'm) plan_reads_scheme \<Rightarrow> 'd caller \<Rightarrow>
    canonical_request \<Rightarrow> request_head \<Rightarrow> 'd catalog \<Rightarrow> credential_kind option \<Rightarrow> error + 'd plan" where
  "plan_request D json_len R c req h catalog channel =
     (case policy_for R c of
        Inl e \<Rightarrow> Inl e
      | Inr (route, policy, spend) \<Rightarrow>
          (case throttled R c route of
             Some e \<Rightarrow> Inl e
           | None \<Rightarrow>
               (let signal = (signal_of json_len req)\<lparr>explicit_tier := requested_tier policy h req\<rparr>;
                    budget = budgets_for D c route spend;
                    served = served_models_for R c
                in case decide D policy (mode_for route req signal) (Some (cr_model req)) signal budget catalog
                          (cr_max_tokens req) served of
                     Inr dec \<Rightarrow> Inr \<lparr>pl_policy = policy, pl_decision = dec, pl_signal = signal, pl_catalog = catalog,
                       pl_pressure = budgets_pressure D budget, pl_channel = channel, pl_served = served\<rparr>
                   | Inl (NoViableModel _) \<Rightarrow> Inl (NoViableModel (no_viable_message R route (cr_model req)))
                   | Inl e \<Rightarrow> Inl e)))"

subsection \<open>Handling\<close>

record path_fields =
  pf_model :: string
  pf_stream :: bool

record 'd inbound =
  in_head :: request_head
  in_body :: bytes
  in_dialect :: dialect
  in_path :: "path_fields option"
  in_request_id :: string
  in_catalog :: "'d catalog"

record codecs =
  parse_request :: "dialect \<Rightarrow> bytes \<Rightarrow> error + canonical_request"
  json_len :: "json \<Rightarrow> nat"
  valid_json :: "string \<Rightarrow> bool"
  sha256 :: hash

definition parsed :: "codecs \<Rightarrow> 'd inbound \<Rightarrow> error + canonical_request" where
  "parsed C i =
     (case parse_request C (in_dialect i) (in_body i) of
        Inl e \<Rightarrow> Inl e
      | Inr req \<Rightarrow>
          (case (in_dialect i, in_path i) of
             (GeminiGenerateContent, Some p) \<Rightarrow> Inr (req\<lparr>cr_model := pf_model p, cr_stream := pf_stream p\<rparr>)
           | _ \<Rightarrow> Inr req))"

definition refused_with :: "error \<Rightarrow> world \<Rightarrow> ('d, 'q, 'r) finished" where
  "refused_with e w = \<lparr>f_result = Inl e, f_rows = [], f_world = w\<rparr>"

definition handle :: "('d::linordered_idom, 'q, 'r, 'm) gateway_env_scheme \<Rightarrow> 'd decimal \<Rightarrow> codecs \<Rightarrow>
    ('d, 'n) plan_reads_scheme \<Rightarrow> 'd caller \<Rightarrow> 'd inbound \<Rightarrow> world \<Rightarrow> ('d, 'q, 'r) finished" where
  "handle E D C R c i w =
     (let started = instant_ms E (tick w) in
      case parsed C i of
        Inl e \<Rightarrow> refused_with e w
      | Inr req0 \<Rightarrow>
          (case normalise (cr_model req0) (in_catalog i) of
             Inl e \<Rightarrow> refused_with e w
           | Inr n \<Rightarrow>
               (let req1 = (case nm_model n of Some name \<Rightarrow> req0\<lparr>cr_model := name\<rparr> | None \<Rightarrow> req0) in
                case plan_request D (json_len C) R c req1 (in_head i) (in_catalog i) (nm_channel n) of
                  Inl e \<Rightarrow> refused_with e (await E w)
                | Inr pl \<Rightarrow>
                    (let req = req1\<lparr>cr_model := upstream_name (dec_model (pl_decision pl))\<rparr>;
                         session = resolve_session (sha256 C) (au_principal c) (cr_client_session req)
                           (extract_cache_blocks req) (au_api_key c) (ms_id (dec_model (pl_decision pl)))
                     in run_with_escalation E D (valid_json C) (auth_context.truncate c) pl req session (in_request_id i)
                          started (in_dialect i) (await E w)))))"

definition dispatch_request :: "('d::linordered_idom, 'q, 'r, 'm) gateway_env_scheme \<Rightarrow> http_env \<Rightarrow> 'd decimal \<Rightarrow> codecs \<Rightarrow>
    ('d, 'n) plan_reads_scheme \<Rightarrow> 'd caller \<Rightarrow> 'd inbound \<Rightarrow> world \<Rightarrow> http_response \<times> ('d, 'q, 'r) finished" where
  "dispatch_request E H D C R c i w =
     (let f = handle E D C R c i w in
      (case f_result f of
         Inr r \<Rightarrow> reply_response H (in_request_id i) (in_dialect i) r
       | Inl e \<Rightarrow> error_response H e, f))"

definition require_key_layer :: "('d, 'n) plan_reads_scheme \<Rightarrow> request_head \<Rightarrow> error + 'd caller" where
  "require_key_layer R h =
     (case extract_key h of
        None \<Rightarrow> Inl Unauthenticated
      | Some key \<Rightarrow>
          if \<not> is_issued_key_shape key then Inl Unauthenticated
          else (case auth_lookup R key of
                  Inr (Some c) \<Rightarrow> Inr c
                | Inr None \<Rightarrow> Inl Unauthenticated
                | Inl e \<Rightarrow> Inl e))"

definition serve :: "('d::linordered_idom, 'q, 'r, 'm) gateway_env_scheme \<Rightarrow> http_env \<Rightarrow> 'd decimal \<Rightarrow> codecs \<Rightarrow>
    ('d, 'n) plan_reads_scheme \<Rightarrow> 'd inbound \<Rightarrow> world \<Rightarrow> http_response \<times> ('d, 'q, 'r) finished" where
  "serve E H D C R i w =
     (case require_key_layer R (in_head i) of
        Inl e \<Rightarrow> (error_response H e, refused_with e w)
      | Inr c \<Rightarrow> dispatch_request E H D C R c i w)"


subsection \<open>Keys have the shape that is asked of them\<close>

lemma hex_lower: "list_all lower_hex (hex raw)"
proof -
  have "lower_hex (hex_digit n)" if "n < 16" for n
    using that by (auto simp: hex_digit_def lower_hex_def is_digit_def Let_def)
  moreover have "(of_char c :: nat) div 16 < 16" for c :: char
    by (simp add: div_less_iff_less_mult)
  ultimately show ?thesis by (auto simp: hex_def list_all_iff)
qed

lemma minted_key_is_issued: "length raw = 32 \<Longrightarrow> is_issued_key_shape (mint_key raw)"
  using hex_lower [of raw]
  by (simp add: is_issued_key_shape_def mint_key_def KEY_LEN_def KEY_PREFIX_def hex_def length_concat comp_def sum_list_triv)

subsection \<open>The floor holds through every climb\<close>

definition floored :: "routing_policy \<Rightarrow> 'd routing_decision \<Rightarrow> bool" where
  "floored p d \<longleftrightarrow> floor_rank p \<le> (case dec_tier d of Some t \<Rightarrow> t_rank t | None \<Rightarrow> 0)"

lemma decided_floored: "decide D p mode req signal b c max_out served = Inr d \<Longrightarrow> floored p d"
  using decide_Inr(2) [of D p mode req signal b c max_out served d]
  by (auto simp: floored_def resolves_at_def split: option.splits)

lemma next_rung_floored:
  assumes "next_rung D pl g c = Some nx" and "floored (pl_policy pl) (cs_decision c)"
  shows "floored (pl_policy pl) nx"
proof -
  from assms(1) obtain start where "dec_tier (cs_decision c) = Some start"
      "policy_escalate D (pl_policy pl) start g (pl_signal pl) (pl_catalog pl) (cr_max_tokens (cs_request c)) (pl_served pl) = Some nx"
    by (auto simp: next_rung_def split: if_splits option.splits)
  with escalate_Some(1) [OF this(2)] assms(2) show ?thesis
    by (auto simp: floored_def resolves_at_def split: option.splits)
qed

lemma next_provider_floored:
  assumes "next_provider D pl e c = Some nx" and "floored (pl_policy pl) (cs_decision c)"
  shows "floored (pl_policy pl) nx"
proof -
  from assms(1) obtain start where s: "dec_tier (cs_decision c) = Some start"
      "escalate_past_provider D (pl_policy pl) start (ms_provider (dec_model (cs_decision c))) (pl_signal pl) (pl_catalog pl)
         (cr_max_tokens (cs_request c)) (pl_served pl) = Some nx"
    by (auto simp: next_provider_def split: if_splits option.splits)
  have "\<exists>t. dec_tier nx = Some t \<and> t_rank start < t_rank t"
    using s(2) past_provider_spec [where D = D and p = "pl_policy pl" and origin = start and fr = start
        and avoid = "ms_provider (dec_model (cs_decision c))" and signal = "pl_signal pl" and c = "pl_catalog pl"
        and max_out = "cr_max_tokens (cs_request c)" and served = "pl_served pl"]
    by (auto simp: escalate_past_provider_def)
  with s(1) assms(2) show ?thesis by (auto simp: floored_def)
qed

lemma climb_pass_floored:
  assumes "floored (pl_policy pl) (cs_decision c)"
  shows "climb_pass E D vj auth pl session rid started ingress c w = Inl f \<Longrightarrow> f_result f = Inr r \<Longrightarrow>
      floored (pl_policy pl) (reply_decision r)"
    and "climb_pass E D vj auth pl session rid started ingress c w = Inr (c', w') \<Longrightarrow>
      floored (pl_policy pl) (cs_decision c')"
proof -
  have again: "floored (pl_policy pl) nx"
    if "next_rung D pl g (c\<lparr>cs_dispatches := dp, cs_lost := lost\<rparr>) = Some nx \<or>
        next_provider D pl e (c\<lparr>cs_dispatches := dp, cs_lost := lost\<rparr>) = Some nx" for nx g dp lost e
    using that assms next_rung_floored [of D pl g "c\<lparr>cs_dispatches := dp, cs_lost := lost\<rparr>" nx]
      next_provider_floored [of D pl e "c\<lparr>cs_dispatches := dp, cs_lost := lost\<rparr>" nx] by auto
  show "floored (pl_policy pl) (reply_decision r)"
    if "climb_pass E D vj auth pl session rid started ingress c w = Inl f" "f_result f = Inr r"
    using that assms
    by (auto simp: climb_pass_def stream_response_def Let_def split: prod.splits sum.splits attempt.splits option.splits)
  show "floored (pl_policy pl) (cs_decision c')"
    if "climb_pass E D vj auth pl session rid started ingress c w = Inr (c', w')"
    using that
    by (auto simp: climb_pass_def climb_to_def Let_def Option.bind_eq_Some_conv intro: again
        split: prod.splits sum.splits attempt.splits option.splits)
qed

lemma climb_floored:
  assumes "floored (pl_policy pl) (cs_decision c)"
    and "f_result (climb E D vj auth pl session rid started ingress c w) = Inr r"
  shows "floored (pl_policy pl) (reply_decision r)"
  using assms
proof (induction E D vj auth pl session rid started ingress c w rule: climb.induct)
  case (1 E D vj auth pl session rid started ingress c w)
  show ?case
  proof (cases "climb_pass E D vj auth pl session rid started ingress c w")
    case (Inl f)
    then show ?thesis using climb_pass_floored(1) [OF "1.prems"(1) Inl] "1.prems"(2) by (simp add: climb.simps)
  next
    case (Inr cw)
    obtain c' w' where cw: "cw = (c', w')" by force
    from "1.IH" [OF Inr [unfolded cw] refl climb_pass_floored(2) [OF "1.prems"(1) Inr [unfolded cw]]] "1.prems"(2)
    show ?thesis by (simp add: climb.simps [of _ _ _ _ _ _ _ _ _ c] Inr cw)
  qed
qed

lemma run_floored:
  assumes "f_result (run_with_escalation E D vj auth pl req session rid started ingress w) = Inr r"
    and "floored (pl_policy pl) (pl_decision pl)"
  shows "floored (pl_policy pl) (reply_decision r)"
  using assms(1) unfolding run_with_escalation_def
  by (rule climb_floored [rotated]) (simp add: climb_start_def assms(2))



subsection \<open>From the key to the plan\<close>

lemma plan_request_Inr:
  assumes "plan_request D jl R c req h catalog channel = Inr pl"
  obtains route spend where "policy_for R c = Inr (route, pl_policy pl, spend)" and "throttled R c route = None"
    and "budgets_pressure D (budgets_for D c route spend) \<noteq> Exhausted" and "floored (pl_policy pl) (pl_decision pl)"
proof -
  obtain route policy spend where pf: "policy_for R c = Inr (route, policy, spend)" and th: "throttled R c route = None"
    using assms by (auto simp: plan_request_def split: sum.splits option.splits)
  define signal where "signal = (signal_of jl req)\<lparr>explicit_tier := requested_tier policy h req\<rparr>"
  obtain dec where dec: "decide D policy (mode_for route req signal) (Some (cr_model req)) signal (budgets_for D c route spend)
      catalog (cr_max_tokens req) (served_models_for R c) = Inr dec"
    and pl: "pl_policy pl = policy" "pl_decision pl = dec"
    using assms pf th
    by (auto simp: plan_request_def signal_def Let_def split: sum.splits error.splits)
  show thesis
    using that [of route spend] pf th decide_Inr(1) [OF dec] decided_floored [OF dec] by (simp add: pl)
qed

lemma refused_with_simps [simp]:
  "f_result (refused_with e w) = Inl e" "f_rows (refused_with e w) = []" "f_world (refused_with e w) = w"
  by (simp_all add: refused_with_def)

lemma await_books [simp]: "sends (await E w) = sends w" "held (await E w) = held w"
  by (simp_all add: await_def)

lemma handle_cases:
  obtains e where "f_result (handle E D C R c i w) = Inl e" and "f_rows (handle E D C R c i w) = []"
    and "sends (f_world (handle E D C R c i w)) = sends w" and "held (f_world (handle E D C R c i w)) = held w"
  | req pl req' session where "plan_request D (json_len C) R c req (in_head i) (in_catalog i) (pl_channel pl) = Inr pl"
    and "handle E D C R c i w = run_with_escalation E D (valid_json C) (auth_context.truncate c) pl req' session
      (in_request_id i) (instant_ms E (tick w)) (in_dialect i) (await E w)"
proof -
  have chan: "pl_channel pl = ch" if "plan_request D jl R c req h cat ch = Inr pl" for jl req h cat ch pl
    using that by (auto simp: plan_request_def Let_def split: sum.splits option.splits error.splits)
  show thesis
  proof (cases "parsed C i")
    case (Inl e)
    then show ?thesis using that(1) by (simp add: handle_def Let_def)
  next
    case (Inr req0)
    note p = this
    show ?thesis
    proof (cases "normalise (cr_model req0) (in_catalog i)")
      case (Inl e)
      then show ?thesis using p that(1) by (simp add: handle_def Let_def)
    next
      case (Inr n)
      define req1 where "req1 = (case nm_model n of Some name \<Rightarrow> req0\<lparr>cr_model := name\<rparr> | None \<Rightarrow> req0)"
      show ?thesis
      proof (cases "plan_request D (json_len C) R c req1 (in_head i) (in_catalog i) (nm_channel n)")
        case (Inl e)
        then show ?thesis using p Inr that(1) by (simp add: handle_def Let_def req1_def)
      next
        case plan: (Inr pl)
        then show ?thesis using p Inr chan [OF plan] that(2) [of req1 pl] by (simp add: handle_def Let_def req1_def)
      qed
    qed
  qed
qed

lemma serve_cases:
  obtains e where "f_result (snd (serve E H D C R i w)) = Inl e" and "f_rows (snd (serve E H D C R i w)) = []"
    and "sends (f_world (snd (serve E H D C R i w))) = sends w" and "held (f_world (snd (serve E H D C R i w))) = held w"
  | key c req pl req' session where "extract_key (in_head i) = Some key" and "is_issued_key_shape key"
    and "auth_lookup R key = Inr (Some c)"
    and "plan_request D (json_len C) R c req (in_head i) (in_catalog i) (pl_channel pl) = Inr pl"
    and "snd (serve E H D C R i w) = run_with_escalation E D (valid_json C) (auth_context.truncate c) pl req' session
      (in_request_id i) (instant_ms E (tick w)) (in_dialect i) (await E w)"
proof (cases "require_key_layer R (in_head i)")
  case (Inl e)
  then show ?thesis using that(1) by (simp add: serve_def)
next
  case (Inr c)
  then obtain key where key: "extract_key (in_head i) = Some key" "is_issued_key_shape key" "auth_lookup R key = Inr (Some c)"
    by (auto simp: require_key_layer_def split: option.splits if_splits sum.splits)
  have run: "snd (serve E H D C R i w) = handle E D C R c i w"
    using Inr by (simp add: serve_def dispatch_request_def Let_def)
  show ?thesis
    by (cases rule: handle_cases [of E D C R c i w])
      (use that(1) in \<open>simp add: run\<close>, use that(2) [OF key] in \<open>simp add: run\<close>)
qed

subsection \<open>The properties\<close>

text \<open>
  Nothing moves for a caller who may not pay for it: if a request reached an upstream, wrote a ledger row
  or left a slot held, its key had an issued key's shape and was found, its route's rate limit let it through,
  and none of the caps on its key, its route and its principal was exhausted.
\<close>

theorem only_paid_requests_move:
  assumes "snd (serve E H D C R i w) = f"
    and "sends (f_world f) \<noteq> sends w \<or> f_rows f \<noteq> [] \<or> held (f_world f) \<noteq> held w"
  shows "\<exists>key c route policy spend. extract_key (in_head i) = Some key \<and> is_issued_key_shape key \<and>
    auth_lookup R key = Inr (Some c) \<and> policy_for R c = Inr (route, policy, spend) \<and> throttled R c route = None \<and>
    budgets_pressure D (budgets_for D c route spend) \<noteq> Exhausted"
proof (cases rule: serve_cases [of E H D C R i w])
  case 1
  then show ?thesis using assms by simp
next
  case (2 key c req pl req' session)
  from plan_request_Inr [OF 2(4)] obtain route spend where "policy_for R c = Inr (route, pl_policy pl, spend)"
    "throttled R c route = None" "budgets_pressure D (budgets_for D c route spend) \<noteq> Exhausted" by blast
  with 2(1-3) show ?thesis by blast
qed

lemma policy_for_floor:
  assumes "policy_for R c = Inr (route, policy, spend)"
  obtains l where "route_by_id R (au_route c) = Inr (Some route)" and "parse_ladder (rr_tiers route) = Inr l"
    and "\<forall>name fl. (ca_key_floor_tier c = Some name \<or> ca_key_floor_tier c = None \<and> rr_floor_tier route = Some name) \<and>
      ladder_tier l name = Some fl \<longrightarrow> t_rank fl \<le> floor_rank policy"
  using assms
  by (auto simp: policy_for_def with_floor_def floor_rank_def Let_def split: sum.splits option.splits)

text \<open>
  C3. The floor a key or a route was given holds for every answer, end to end: whatever the request says, and
  however failover and escalation went, the decision an answer is served by sits on no rung below the rung the
  key names or, when the key names none, the route does.
\<close>

theorem served_answers_respect_the_floor:
  assumes "f_result (snd (serve E H D C R i w)) = Inr r"
  shows "\<exists>key c route l. extract_key (in_head i) = Some key \<and> auth_lookup R key = Inr (Some c) \<and>
    route_by_id R (au_route c) = Inr (Some route) \<and> parse_ladder (rr_tiers route) = Inr l \<and>
    (\<forall>name fl. (ca_key_floor_tier c = Some name \<or> ca_key_floor_tier c = None \<and> rr_floor_tier route = Some name) \<and>
       ladder_tier l name = Some fl \<longrightarrow>
         t_rank fl \<le> (case dec_tier (reply_decision r) of Some t \<Rightarrow> t_rank t | None \<Rightarrow> 0))"
proof (cases rule: serve_cases [of E H D C R i w])
  case 1
  then show ?thesis using assms by simp
next
  case (2 key c req pl req' session)
  from plan_request_Inr [OF 2(4)] obtain route spend where p: "policy_for R c = Inr (route, pl_policy pl, spend)"
    "floored (pl_policy pl) (pl_decision pl)" by blast
  from policy_for_floor [OF p(1)] obtain l where "route_by_id R (au_route c) = Inr (Some route)"
    "parse_ladder (rr_tiers route) = Inr l" "\<forall>name fl. (ca_key_floor_tier c = Some name \<or> ca_key_floor_tier c = None \<and>
       rr_floor_tier route = Some name) \<and> ladder_tier l name = Some fl \<longrightarrow> t_rank fl \<le> floor_rank (pl_policy pl)" by blast
  with run_floored [OF assms [unfolded 2(5)] p(2)] 2(1,3) show ?thesis unfolding floored_def by (meson order_trans)
qed

text \<open>
  C6. Every refusal on the way in has its status and costs nothing: no key, a string that is not one or one nobody
  holds is a 401 before anything happens; past that, a route over its rate is a 429 and an exhausted cap a
  402, with nothing sent, nothing held and no ledger row.
\<close>

theorem refusals_cost_nothing:
  assumes "serve E H D C R i w = (resp, f)"
  shows "(extract_key (in_head i) = None \<or>
      (\<exists>key. extract_key (in_head i) = Some key \<and> (\<not> is_issued_key_shape key \<or> auth_lookup R key = Inr None)) \<longrightarrow>
        hr_status resp = 401 \<and> f_world f = w \<and> f_rows f = []) \<and>
    (require_key_layer R (in_head i) = Inr c \<and> parsed C i = Inr req \<and> normalise (cr_model req) (in_catalog i) = Inr n \<and>
      policy_for R c = Inr (route, policy, spend) \<longrightarrow>
        (throttled R c route = Some (RateLimited d) \<longrightarrow>
          hr_status resp = 429 \<and> sends (f_world f) = sends w \<and> held (f_world f) = held w \<and> f_rows f = []) \<and>
        (throttled R c route = None \<and> budgets_pressure D (budgets_for D c route spend) = Exhausted \<longrightarrow>
          hr_status resp = 402 \<and> sends (f_world f) = sends w \<and> held (f_world f) = held w \<and> f_rows f = []))"
  (is "(?nokey \<longrightarrow> ?refused) \<and> (?known \<longrightarrow> (?over \<longrightarrow> ?throttled) \<and> (?spent \<longrightarrow> ?capped))")
proof (intro conjI impI)
  assume ?nokey
  then have "require_key_layer R (in_head i) = Inl Unauthenticated" by (auto simp: require_key_layer_def)
  then show "hr_status resp = 401" "f_world f = w" "f_rows f = []"
    using assms by (auto simp: serve_def status_of_error)
next
  assume known: ?known
  define req1 where "req1 = (case nm_model n of Some name \<Rightarrow> req\<lparr>cr_model := name\<rparr> | None \<Rightarrow> req)"
  have run: "(resp, f) = (error_response H e, refused_with e (await E w))"
    if "plan_request D (json_len C) R c req1 (in_head i) (in_catalog i) (nm_channel n) = Inl e" for e
    using assms known that by (simp add: serve_def dispatch_request_def handle_def Let_def req1_def)
  {
    assume ?over
    then have "plan_request D (json_len C) R c req1 (in_head i) (in_catalog i) (nm_channel n) = Inl (RateLimited d)"
      using known by (simp add: plan_request_def)
    from run [OF this] show "hr_status resp = 429" "sends (f_world f) = sends w" "held (f_world f) = held w" "f_rows f = []"
      by (auto simp: status_of_error)
  next
    assume ?spent
    then have "plan_request D (json_len C) R c req1 (in_head i) (in_catalog i) (nm_channel n) =
        Inl (BudgetExhausted (binding D (budgets_for D c route spend)))"
      using known by (simp add: plan_request_def decide_def Let_def)
    from run [OF this] show "hr_status resp = 402" "sends (f_world f) = sends w" "held (f_world f) = held w" "f_rows f = []"
      by (auto simp: status_of_error)
  }
qed

subsection \<open>Witnesses\<close>

definition sample_caller :: "int \<Rightarrow> int caller" where
  "sample_caller quota = auth_context.extend sample_auth
     (caller.fields None (Some quota) None (10 ^ 28))"

definition sample_ladder :: tier_ladder where
  "sample_ladder = [\<lparr>r_name = ''cheap'', r_models = [''a/y'']\<rparr>, \<lparr>r_name = ''top'', r_models = [''a/x'']\<rparr>]"

definition sample_route :: "int route_row" where
  "sample_route = \<lparr>rr_name = ''r'', rr_tiers = Inr sample_ladder,
     rr_default_mode = ''passthrough'', rr_floor_tier = Some ''top'', rr_rpm_limit = None, rr_monthly_budget_usd = None,
     rr_spent_usd = 0\<rparr>"

definition sample_reads :: "int \<Rightarrow> int plan_reads" where
  "sample_reads quota = \<lparr>auth_lookup = \<lambda>_. Inr (Some (sample_caller quota)), route_by_id = \<lambda>_. Inr (Some sample_route),
     read_spend = \<lambda>_ _. Inr \<lparr>sp_key_usd = 5, sp_principal_usd = 5\<rparr>, take_rate_token = \<lambda>_ _. Inr None,
     route_channels = \<lambda>_ _. Inr [], no_viable_message = \<lambda>_ m. m\<rparr>"

definition sample_inbound :: "int inbound" where
  "sample_inbound = \<lparr>in_head = \<lparr>hd_authorization = None, hd_x_api_key = Some (mint_key (replicate 32 (CHR ''z''))),
       hd_x_goog_api_key = None, hd_oag_tier = None\<rparr>,
     in_body = [], in_dialect = AnthropicMessages, in_path = None, in_request_id = ''q'',
     in_catalog = from_entries [sample_model ''a/x'' OpenAI ''x'' 2]\<rparr>"

definition sample_codecs :: codecs where
  "sample_codecs = \<lparr>parse_request = \<lambda>_ _. Inr (sample_request\<lparr>cr_model := ''a/x''\<rparr>), json_len = \<lambda>_. 0,
     valid_json = \<lambda>_. True, sha256 = \<lambda>_. []\<rparr>"

lemma key_is_header_text: "header_text (mint_key raw) = Some (mint_key raw)"
proof -
  have ok: "list_all (\<lambda>c. let n = of_char c :: nat in 32 \<le> n \<and> n < 127 \<or> n = 9) (hex raw)"
    using hex_lower [of raw] by (auto simp: lower_hex_def is_digit_def list_all_iff Let_def)
  then show ?thesis by (simp add: header_text_def mint_key_def KEY_PREFIX_def)
qed

lemma sample_key: "extract_key (in_head sample_inbound) = Some (mint_key (replicate 32 (CHR ''z'')))"
  by (simp add: extract_key_def sample_inbound_def key_is_header_text)

lemma sample_layer: "require_key_layer (sample_reads quota) (in_head sample_inbound) = Inr (sample_caller quota)"
  using minted_key_is_issued [of "replicate 32 (CHR ''z'')"] by (simp add: require_key_layer_def sample_key sample_reads_def)

lemma sample_policy_for: "\<exists>policy. policy_for (sample_reads quota) (sample_caller quota) =
    Inr (sample_route, policy, \<lparr>sp_key_usd = 5, sp_principal_usd = 5\<rparr>) \<and> policy_floor policy = Some (mk_tier ''top'' 1) \<and>
    ladder policy = sample_ladder"
  by (simp add: policy_for_def sample_ladder_def sample_reads_def sample_route_def sample_caller_def auth_context.defs caller.defs parse_ladder_def
      ladder_new_def with_floor_def policy_new_def floor_rank_def ladder_tier_def u8_try_from_def u8_max_def Let_def)

lemma sample_catalog_get: "catalog_resolve (from_entries [sample_model ''a/x'' OpenAI ''x'' 2]) ''a/x'' =
    Some (sample_model ''a/x'' OpenAI ''x'' (2 :: int))"
  using get_from_entries [of "[sample_model ''a/x'' OpenAI ''x'' (2 :: int)]" "''a/x''"]
  by (simp add: catalog_resolve_def catalog_get_def)

lemma sample_normalise: "normalise ''a/x'' (in_catalog sample_inbound) = Inr \<lparr>nm_model = None, nm_channel = None\<rparr>"
  using split_plain [of "''a/x''" "in_catalog sample_inbound"] canonicalise_known [of "in_catalog sample_inbound" "''a/x''"]
  by (simp add: normalise_def sample_inbound_def sample_catalog_get CHANNEL_SEPARATOR_def Let_def)

definition plenty :: int where "plenty = 10 ^ 28"

lemma sample_planned:
  "\<exists>pl. plan_request fixed28 (\<lambda>_. 0) (sample_reads plenty) (sample_caller plenty) (sample_request\<lparr>cr_model := ''a/x''\<rparr>)
     (in_head sample_inbound) (in_catalog sample_inbound) None = Inr pl \<and>
     dec_model (pl_decision pl) = sample_model ''a/x'' OpenAI ''x'' 2 \<and> dec_reason (pl_decision pl) = ReasonPassthrough \<and>
     pl_channel pl = None"
proof -
  obtain policy where p: "policy_for (sample_reads plenty) (sample_caller plenty) =
      Inr (sample_route, policy, \<lparr>sp_key_usd = 5, sp_principal_usd = 5\<rparr>)" "policy_floor policy = Some (mk_tier ''top'' 1)"
      "ladder policy = sample_ladder"
    using sample_policy_for by blast
  have b: "budgets_pressure fixed28 (budgets_for fixed28 (sample_caller plenty) sample_route
      \<lparr>sp_key_usd = 5, sp_principal_usd = 5\<rparr>) = Normal"
    by (simp add: budgets_pressure_def budgets_for_def pressure_def sample_caller_def auth_context.defs caller.defs
        sample_route_def fixed28_def max_def plenty_def Let_def)
  define need where "need = requirements_of ((signal_of (\<lambda>_. 0) (sample_request\<lparr>cr_model := ''a/x''\<rparr>))\<lparr>explicit_tier := None\<rparr>)
      (cr_max_tokens sample_request)"
  define ceil where "ceil = baseline fixed28 policy (in_catalog sample_inbound)
      (served_models_for (sample_reads plenty) (sample_caller plenty)) need"
  obtain d where d: "decide_passthrough policy ''a/x'' (in_catalog sample_inbound) need ceil = Inr d"
      "dec_model d = sample_model ''a/x'' OpenAI ''x'' 2" "dec_reason d = ReasonPassthrough"
    by (simp add: decide_passthrough_def sample_inbound_def sample_catalog_get tier_of_def p(2,3) sample_ladder_def
        u8_try_from_def u8_max_def tier_eq_def clamp_to_floor_def tier_less_def Let_def)
  have t: "requested_tier policy (in_head sample_inbound) (sample_request\<lparr>cr_model := ''a/x''\<rparr>) = None"
    by (simp add: requested_tier_def virtual_tier_def strip_prefix_def sample_inbound_def)
  have r: "throttled (sample_reads plenty) (sample_caller plenty) sample_route = None"
      "rr_default_mode sample_route \<noteq> ''managed''"
    by (simp_all add: throttled_def sample_route_def)
  show ?thesis
    using d r by (simp add: plan_request_def p(1) b t decide_def mode_for_def need_def ceil_def Let_def)
qed

definition sample_serve :: "int \<Rightarrow> http_response \<times> (int, unit, unit) finished" where
  "sample_serve quota = serve sample_serving sample_http fixed28 sample_codecs (sample_reads quota) sample_inbound sample_world"

lemma sample_serve_runs:
  "\<exists>body ev g d up s rw. f_result (snd (sample_serve plenty)) = Inr (JsonReply body ev g d up s rw) \<and>
     sends (f_world (snd (sample_serve plenty))) = [3]"
proof -
  obtain pl where pl: "plan_request fixed28 (\<lambda>_. 0) (sample_reads plenty) (sample_caller plenty)
       (sample_request\<lparr>cr_model := ''a/x''\<rparr>) (in_head sample_inbound) (in_catalog sample_inbound) None = Inr pl"
     "dec_model (pl_decision pl) = sample_model ''a/x'' OpenAI ''x'' 2" "dec_reason (pl_decision pl) = ReasonPassthrough"
     "pl_channel pl = None"
    using sample_planned by blast
  have auth: "auth_context.truncate (sample_caller plenty) = sample_auth"
    by (simp add: sample_caller_def auth_context.defs caller.defs sample_auth_def)
  define session where "session = resolve_session (\<lambda>_. []) (au_principal (sample_caller plenty)) None
    (extract_cache_blocks (sample_request\<lparr>cr_model := ''x''\<rparr>)) (au_api_key (sample_caller plenty)) ''a/x''"
  have parts: "in_dialect sample_inbound = AnthropicMessages" "in_request_id sample_inbound = ''q''"
    "parsed sample_codecs sample_inbound = Inr (sample_request\<lparr>cr_model := ''a/x''\<rparr>)"
    "json_len sample_codecs = (\<lambda>_. 0)" "valid_json sample_codecs = (\<lambda>_. True)" "sha256 sample_codecs = (\<lambda>_. [])"
    "cr_client_session sample_request = None"
    by (simp_all add: parsed_def sample_codecs_def sample_inbound_def sample_request_def)
  have model: "upstream_name (dec_model (pl_decision pl)) = ''x''" "ms_id (dec_model (pl_decision pl)) = ''a/x''"
    by (simp_all add: pl(2) sample_model_def)
  have run: "snd (sample_serve plenty) = run_with_escalation sample_serving fixed28 (\<lambda>_. True) sample_auth pl
      (sample_request\<lparr>cr_model := ''x''\<rparr>) session ''q'' (instant_ms sample_serving (tick sample_world)) AnthropicMessages
      (await sample_serving sample_world)"
    unfolding sample_serve_def serve_def sample_layer dispatch_request_def handle_def Let_def session_def
    using pl(1) sample_normalise by (simp add: parts model auth)
  have start: "w_breakers (await sample_serving sample_world) = breakers_new" and sent: "sends (await sample_serving sample_world) @ [3] = [3]"
    by (simp_all add: await_def sample_world_def sample_serving_defs)
  have au: "au_route sample_auth = ''r''" "au_principal sample_auth = ''p''" by (simp_all add: sample_auth_def)
  obtain dp' w' where fw: "forward_with_failover sample_serving sample_auth (pl_decision pl) (sample_request\<lparr>cr_model := ''x''\<rparr>)
      session (dispatches_new ''q'' (instant_ms sample_serving (tick sample_world))) [] None (await sample_serving sample_world) =
      (Inr (Collected [] [] sample_served_acc sample_lease 0 sample_adapter), dp', [], w')" "sends w' = [3]"
    using sample_serving_forward [OF start pl(2) au, of "''x''" session "instant_ms sample_serving (tick sample_world)"] sent by metis
  have rel: "sends (release_lease sample_serving l w'') = sends w''" for l w''
    by (simp add: release_lease_def await_def)
  have gate: "quality_gate_of (\<lambda>_. True) sample_served_acc = None"
    by (simp add: quality_gate_of_def sample_served_acc_def acc_new_def)
  have "run_with_escalation sample_serving fixed28 (\<lambda>_. True) sample_auth pl (sample_request\<lparr>cr_model := ''x''\<rparr>) session ''q''
      (instant_ms sample_serving (tick sample_world)) AnthropicMessages (await sample_serving sample_world) =
    (case climb_pass sample_serving fixed28 (\<lambda>_. True) sample_auth pl session ''q'' (instant_ms sample_serving (tick sample_world))
        AnthropicMessages (climb_start pl (sample_request\<lparr>cr_model := ''x''\<rparr>) ''q'' (instant_ms sample_serving (tick sample_world)))
        (await sample_serving sample_world) of
       Inl f \<Rightarrow> f | Inr (c', w') \<Rightarrow> undefined c' w')" (is "_ = ?pass")
    unfolding run_with_escalation_def by (subst climb.simps) (simp add: climb_pass_def climb_start_def pl(4) fw gate Let_def)
  moreover have "\<exists>body ev g d up s rw. f_result ?pass = Inr (JsonReply body ev g d up s rw) \<and> sends (f_world ?pass) = [3]"
    by (simp add: climb_pass_def climb_start_def pl(4) fw gate rel Let_def)
  ultimately show ?thesis by (simp add: run)
qed

theorem only_paid_requests_move_witness:
  "\<exists>key c. extract_key (in_head sample_inbound) = Some key \<and> auth_lookup (sample_reads plenty) key = Inr (Some c) \<and>
     sends (f_world (snd (sample_serve plenty))) = [3]"
  using only_paid_requests_move [OF sample_serve_def [of plenty, THEN arg_cong [where f = snd], symmetric]] sample_serve_runs
  by (auto simp: sample_world_def)

theorem served_answers_respect_the_floor_witness:
  "\<exists>r t. f_result (snd (sample_serve plenty)) = Inr r \<and> dec_tier (reply_decision r) = Some t \<and> 1 \<le> t_rank t"
proof -
  obtain r where r: "f_result (snd (sample_serve plenty)) = Inr r" using sample_serve_runs by blast
  have fl: "ladder_tier sample_ladder ''top'' = Some (mk_tier ''top'' 1)"
    by (simp add: ladder_tier_def sample_ladder_def u8_try_from_def u8_max_def)
  have c: "auth_lookup (sample_reads plenty) k = Inr (Some c) \<Longrightarrow> c = sample_caller plenty" for k c
    by (simp add: sample_reads_def)
  have rt: "route_by_id (sample_reads plenty) n = Inr (Some route) \<Longrightarrow> route = sample_route" for n route
    by (simp add: sample_reads_def)
  have rr: "parse_ladder (rr_tiers sample_route) = Inr sample_ladder" "rr_floor_tier sample_route = Some ''top''"
      "ca_key_floor_tier (sample_caller plenty) = None"
    by (simp_all add: parse_ladder_def sample_route_def sample_ladder_def ladder_new_def sample_caller_def auth_context.defs
        caller.defs)
  from served_answers_respect_the_floor [OF r [unfolded sample_serve_def]] fl rr
  have "1 \<le> (case dec_tier (reply_decision r) of Some t \<Rightarrow> t_rank t | None \<Rightarrow> 0)"
    by (fastforce dest!: c rt)
  with r show ?thesis by (cases "dec_tier (reply_decision r)") auto
qed

theorem refusals_cost_nothing_witness:
  "hr_status (fst (sample_serve 5)) = 402 \<and> f_rows (snd (sample_serve 5)) = [] \<and> sends (f_world (snd (sample_serve 5))) = []"
proof -
  obtain policy where p: "policy_for (sample_reads 5) (sample_caller 5) =
      Inr (sample_route, policy, \<lparr>sp_key_usd = 5, sp_principal_usd = 5\<rparr>)" using sample_policy_for by blast
  have c: "parsed sample_codecs sample_inbound = Inr (sample_request\<lparr>cr_model := ''a/x''\<rparr>)"
    by (simp add: parsed_def sample_codecs_def sample_inbound_def)
  have b: "budgets_pressure fixed28 (budgets_for fixed28 (sample_caller 5) sample_route
      \<lparr>sp_key_usd = 5, sp_principal_usd = 5\<rparr>) = Exhausted"
    by (simp add: budgets_pressure_def budgets_for_def pressure_def sample_caller_def auth_context.defs caller.defs
        sample_route_def fixed28_def max_def Let_def)
  have t: "throttled (sample_reads 5) (sample_caller 5) sample_route = None" by (simp add: throttled_def sample_route_def)
  obtain resp f where s: "sample_serve 5 = (resp, f)" by force
  from refusals_cost_nothing [OF s [unfolded sample_serve_def], of "sample_caller 5" "sample_request\<lparr>cr_model := ''a/x''\<rparr>"
      "\<lparr>nm_model = None, nm_channel = None\<rparr>" sample_route policy "\<lparr>sp_key_usd = 5, sp_principal_usd = 5\<rparr>"]
    sample_layer [of 5] c p b t sample_normalise
  show ?thesis by (simp add: s sample_world_def)
qed


end
