(* ===== verification/Refresh.thy ===== *)
theory Refresh
  imports Secrets Errors
begin

text \<open>
  Keeping one credential's token fresh across a fleet (\<^verbatim>\<open>gateway/refresh.rs\<close>, the refresh lock of
  \<^verbatim>\<open>oag-store/src/cache.rs\<close>, \<^verbatim>\<open>store_credentials\<close> of \<^verbatim>\<open>repo/accounts.rs\<close>, \<^verbatim>\<open>refresh_gate\<close> of
  \<^verbatim>\<open>state.rs\<close>). Every replica's requests are tasks; a step carries one of them from one await to the
  next, with what the awaited call answered as the event, so any interleaving is a sequence of steps.
  A client hanging up drops its request's future wherever it is awaiting. The sealing key and the way
  to the adapter are the environment; the expiry column that the write also sets is read by none of this;
  the list \<open>spent\<close> only records which stored tokens the token
  endpoint has exchanged, and no step reads it.
\<close>

subsection \<open>State\<close>

definition REFRESH_SKEW :: int where "REFRESH_SKEW = 300"
definition LOCK_TTL :: nat where "LOCK_TTL = 30"
definition LOSER_WAIT :: nat where "LOSER_WAIT = 5"

type_synonym refreshed = "error + secret_material"

record 'c refresh_env =
  open_json :: "'c \<Rightarrow> refreshed"
  seal_json :: "secret_material \<Rightarrow> error + 'c"
  adapter_error :: "error option"
  replica_of :: "nat \<Rightarrow> nat"
  gates_poisoned :: "nat \<Rightarrow> bool"

record 'c credential_row =
  cw_sealed :: 'c
  cw_token_version :: nat

datatype 'c refresh_pc =
    Idle
  | Waiting int
  | Gated int
  | Due int
  | Losing nat
  | Locked int nat
  | Granting nat nat secret_material
  | Storing nat nat secret_material 'c secret_material
  | Outrun nat
  | Denied nat secret_material error
  | Releasing nat refreshed
  | Finished refreshed
  | Dropped

record 'c fleet =
  clock :: nat
  stored :: "'c credential_row option"
  fleet_lock :: "nat option"
  gates :: "nat \<Rightarrow> nat option"
  tasks :: "nat \<Rightarrow> 'c refresh_pc"
  spent :: "(nat \<times> secret_material \<times> secret_material option) list"

subsection \<open>What the calls do\<close>

definition acquire_refresh_lock :: "nat \<Rightarrow> 'c fleet \<Rightarrow> bool \<times> 'c fleet" where
  "acquire_refresh_lock ttl s =
     (case fleet_lock s of
        Some until \<Rightarrow> if clock s < until then (False, s) else (True, s\<lparr>fleet_lock := Some (clock s + ttl)\<rparr>)
      | None \<Rightarrow> (True, s\<lparr>fleet_lock := Some (clock s + ttl)\<rparr>))"

definition release_refresh_lock :: "'c fleet \<Rightarrow> 'c fleet" where
  "release_refresh_lock s = s\<lparr>fleet_lock := None\<rparr>"

definition store_credentials :: "'c \<Rightarrow> nat \<Rightarrow> 'c fleet \<Rightarrow> bool \<times> 'c fleet" where
  "store_credentials sealed expected s =
     (case stored s of
        Some row \<Rightarrow>
          if cw_token_version row = expected
          then (True, s\<lparr>stored := Some \<lparr>cw_sealed = sealed, cw_token_version = cw_token_version row + 1\<rparr>\<rparr>)
          else (False, s)
      | None \<Rightarrow> (False, s))"

definition opened :: "('c, 'm) refresh_env_scheme \<Rightarrow> 'c \<Rightarrow> refreshed" where
  "opened E sealed = map_sum id trimmed (open_json E sealed)"

definition reread :: "('c, 'm) refresh_env_scheme \<Rightarrow> 'c fleet \<Rightarrow> error + secret_material option" where
  "reread E s =
     (case stored s of
        None \<Rightarrow> Inr None
      | Some row \<Rightarrow> map_sum id Some (opened E (cw_sealed row)))"

definition still_due :: "secret_material \<Rightarrow> int \<Rightarrow> bool" where
  "still_due m now = expires_within m now REFRESH_SKEW"

definition gate_free :: "('c, 'm) refresh_env_scheme \<Rightarrow> nat \<Rightarrow> 'c fleet \<Rightarrow> bool" where
  "gate_free E t s \<longleftrightarrow> gates_poisoned E (replica_of E t) \<or> gates s (replica_of E t) = None"

definition take_gate :: "('c, 'm) refresh_env_scheme \<Rightarrow> nat \<Rightarrow> 'c fleet \<Rightarrow> 'c fleet" where
  "take_gate E t s =
     (if gates_poisoned E (replica_of E t) then s else s\<lparr>gates := (gates s)(replica_of E t := Some t)\<rparr>)"

definition drop_gate :: "nat \<Rightarrow> 'c fleet \<Rightarrow> 'c fleet" where
  "drop_gate t s = s\<lparr>gates := (\<lambda>r. if gates s r = Some t then None else gates s r)\<rparr>"

subsection \<open>Steps\<close>

datatype 'c event =
    Begin 'c
  | Proceed
  | Grants "secret_material option"
  | Breaks error
  | BreaksAfter error
  | HangsUp bool

definition goto :: "nat \<Rightarrow> 'c refresh_pc \<Rightarrow> 'c fleet \<Rightarrow> 'c fleet" where
  "goto t pc s = s\<lparr>tasks := (tasks s)(t := pc)\<rparr>"

definition finish :: "nat \<Rightarrow> refreshed \<Rightarrow> 'c fleet \<Rightarrow> 'c fleet" where
  "finish t r s = goto t (Finished r) (drop_gate t s)"

definition exchange :: "nat \<Rightarrow> secret_material \<Rightarrow> secret_material option \<Rightarrow> 'c fleet \<Rightarrow> 'c fleet" where
  "exchange v current answer s = s\<lparr>spent := (v, current, answer) # spent s\<rparr>"

definition vanished :: error where
  "vanished = Internal ''credential vanished during refresh''"

definition begins :: "('c, 'm) refresh_env_scheme \<Rightarrow> nat \<Rightarrow> 'c \<Rightarrow> 'c fleet \<Rightarrow> 'c fleet" where
  "begins E t sealed s =
     (case opened E sealed of
        Inl e \<Rightarrow> finish t (Inl e) s
      | Inr material \<Rightarrow>
          if \<not> still_due material (int (clock s)) then finish t (Inr material) s
          else (case adapter_error E of
                  Some e \<Rightarrow> finish t (Inl e) s
                | None \<Rightarrow> goto t (Waiting (int (clock s))) s))"

definition behind_the_gate :: "('c, 'm) refresh_env_scheme \<Rightarrow> nat \<Rightarrow> int \<Rightarrow> 'c fleet \<Rightarrow> 'c fleet" where
  "behind_the_gate E t now s =
     (case reread E s of
        Inl e \<Rightarrow> finish t (Inl e) s
      | Inr (Some current) \<Rightarrow> if \<not> still_due current now then finish t (Inr current) s else goto t (Due now) s
      | Inr None \<Rightarrow> goto t (Due now) s)"

definition race :: "nat \<Rightarrow> int \<Rightarrow> 'c fleet \<Rightarrow> 'c fleet" where
  "race t now s =
     (case acquire_refresh_lock LOCK_TTL s of
        (True, s') \<Rightarrow> goto t (Locked now (clock s + LOCK_TTL)) s'
      | (False, s') \<Rightarrow> goto t (Losing (clock s + LOSER_WAIT)) s')"

definition loser_reads :: "('c, 'm) refresh_env_scheme \<Rightarrow> nat \<Rightarrow> 'c fleet \<Rightarrow> 'c fleet" where
  "loser_reads E t s =
     finish t (case reread E s of Inl e \<Rightarrow> Inl e | Inr (Some m) \<Rightarrow> Inr m | Inr None \<Rightarrow> Inl vanished) s"

definition refresh_locked :: "('c, 'm) refresh_env_scheme \<Rightarrow> nat \<Rightarrow> int \<Rightarrow> nat \<Rightarrow> 'c fleet \<Rightarrow> 'c fleet" where
  "refresh_locked E t now until s =
     (case stored s of
        None \<Rightarrow> goto t (Releasing until (Inl vanished)) s
      | Some row \<Rightarrow>
          (case opened E (cw_sealed row) of
             Inl e \<Rightarrow> goto t (Releasing until (Inl e)) s
           | Inr current \<Rightarrow>
               if \<not> still_due current now then goto t (Releasing until (Inr current)) s
               else goto t (Granting until (cw_token_version row) current) s))"

definition granted :: "('c, 'm) refresh_env_scheme \<Rightarrow> nat \<Rightarrow> nat \<Rightarrow> nat \<Rightarrow> secret_material \<Rightarrow> secret_material \<Rightarrow>
    'c fleet \<Rightarrow> 'c fleet" where
  "granted E t until v current f s =
     (let fresh = f\<lparr>version := sat_add (2 ^ 64 - 1) (version current) 1\<rparr>;
          s' = exchange v current (Some f) s
      in case seal_json E fresh of
           Inl e \<Rightarrow> goto t (Releasing until (Inl e)) s'
         | Inr sealed \<Rightarrow> goto t (Storing until v current sealed fresh) s')"

definition swaps :: "nat \<Rightarrow> nat \<Rightarrow> nat \<Rightarrow> 'c \<Rightarrow> secret_material \<Rightarrow> 'c fleet \<Rightarrow> 'c fleet" where
  "swaps t until v sealed fresh s =
     (case store_credentials sealed v s of
        (True, s') \<Rightarrow> goto t (Releasing until (Inr fresh)) s'
      | (False, s') \<Rightarrow> goto t (Outrun until) s')"

definition uses_the_winners :: "('c, 'm) refresh_env_scheme \<Rightarrow> nat \<Rightarrow> nat \<Rightarrow> 'c fleet \<Rightarrow> 'c fleet" where
  "uses_the_winners E t until s =
     goto t (Releasing until (case reread E s of
          Inl e \<Rightarrow> Inl e | Inr (Some m) \<Rightarrow> Inr m | Inr None \<Rightarrow> Inl (Internal ''credential vanished''))) s"

definition checks_for_a_race :: "('c, 'm) refresh_env_scheme \<Rightarrow> nat \<Rightarrow> nat \<Rightarrow> secret_material \<Rightarrow> error \<Rightarrow> 'c fleet \<Rightarrow> 'c fleet" where
  "checks_for_a_race E t until current e s =
     goto t (Releasing until (case reread E s of
          Inr (Some after) \<Rightarrow> if version current < version after then Inr after else Inl e
        | _ \<Rightarrow> Inl e)) s"

definition hangs_up :: "nat \<Rightarrow> bool \<Rightarrow> ('c fleet \<Rightarrow> 'c fleet) \<Rightarrow> 'c fleet \<Rightarrow> 'c fleet option" where
  "hangs_up t took effect s = Some (goto t Dropped (drop_gate t (if took then effect s else s)))"

fun ensure_fresh_step :: "('c, 'm) refresh_env_scheme \<Rightarrow> nat \<Rightarrow> 'c refresh_pc \<Rightarrow> 'c event \<Rightarrow> 'c fleet \<Rightarrow> 'c fleet option" where
  "ensure_fresh_step E t Idle ev s =
     (case ev of Begin sealed \<Rightarrow> Some (begins E t sealed s) | _ \<Rightarrow> None)"
| "ensure_fresh_step E t (Waiting now) ev s =
     (case ev of
        Proceed \<Rightarrow> if gate_free E t s then Some (goto t (Gated now) (take_gate E t s)) else None
      | HangsUp took \<Rightarrow> hangs_up t took id s
      | _ \<Rightarrow> None)"
| "ensure_fresh_step E t (Gated now) ev s =
     (case ev of
        Proceed \<Rightarrow> Some (behind_the_gate E t now s)
      | Breaks e \<Rightarrow> Some (finish t (Inl e) s)
      | HangsUp took \<Rightarrow> hangs_up t took id s
      | _ \<Rightarrow> None)"
| "ensure_fresh_step E t (Due now) ev s =
     (case ev of
        Proceed \<Rightarrow> Some (race t now s)
      | Breaks e \<Rightarrow> Some (goto t (Losing (clock s + LOSER_WAIT)) s)
      | BreaksAfter e \<Rightarrow> Some (goto t (Losing (clock s + LOSER_WAIT)) (snd (acquire_refresh_lock LOCK_TTL s)))
      | HangsUp took \<Rightarrow> hangs_up t took (\<lambda>s. snd (acquire_refresh_lock LOCK_TTL s)) s
      | _ \<Rightarrow> None)"
| "ensure_fresh_step E t (Losing wake) ev s =
     (case ev of
        Proceed \<Rightarrow> if wake \<le> clock s then Some (loser_reads E t s) else None
      | Breaks e \<Rightarrow> if wake \<le> clock s then Some (finish t (Inl e) s) else None
      | HangsUp took \<Rightarrow> hangs_up t took id s
      | _ \<Rightarrow> None)"
| "ensure_fresh_step E t (Locked now until) ev s =
     (case ev of
        Proceed \<Rightarrow> Some (refresh_locked E t now until s)
      | Breaks e \<Rightarrow> Some (goto t (Releasing until (Inl e)) s)
      | HangsUp took \<Rightarrow> hangs_up t took id s
      | _ \<Rightarrow> None)"
| "ensure_fresh_step E t (Granting until v current) ev s =
     (case ev of
        Grants None \<Rightarrow> Some (goto t (Releasing until (Inr current)) s)
      | Grants (Some f) \<Rightarrow> Some (granted E t until v current f s)
      | Breaks e \<Rightarrow> Some (goto t (Denied until current e) s)
      | BreaksAfter e \<Rightarrow> Some (goto t (Denied until current e) (exchange v current None s))
      | HangsUp took \<Rightarrow> hangs_up t took (exchange v current None) s
      | _ \<Rightarrow> None)"
| "ensure_fresh_step E t (Storing until v current sealed fresh) ev s =
     (case ev of
        Proceed \<Rightarrow> Some (swaps t until v sealed fresh s)
      | Breaks e \<Rightarrow> Some (goto t (Releasing until (Inl e)) s)
      | BreaksAfter e \<Rightarrow> Some (goto t (Releasing until (Inl e)) (snd (store_credentials sealed v s)))
      | HangsUp took \<Rightarrow> hangs_up t took (\<lambda>s. snd (store_credentials sealed v s)) s
      | _ \<Rightarrow> None)"
| "ensure_fresh_step E t (Outrun until) ev s =
     (case ev of
        Proceed \<Rightarrow> Some (uses_the_winners E t until s)
      | Breaks e \<Rightarrow> Some (goto t (Releasing until (Inl e)) s)
      | HangsUp took \<Rightarrow> hangs_up t took id s
      | _ \<Rightarrow> None)"
| "ensure_fresh_step E t (Denied until current e) ev s =
     (case ev of
        Proceed \<Rightarrow> Some (checks_for_a_race E t until current e s)
      | Breaks e' \<Rightarrow> Some (goto t (Releasing until (Inl e)) s)
      | HangsUp took \<Rightarrow> hangs_up t took id s
      | _ \<Rightarrow> None)"
| "ensure_fresh_step E t (Releasing until r) ev s =
     (case ev of
        Proceed \<Rightarrow> Some (finish t r (release_refresh_lock s))
      | Breaks e \<Rightarrow> Some (finish t r s)
      | HangsUp took \<Rightarrow> hangs_up t took release_refresh_lock s
      | _ \<Rightarrow> None)"
| "ensure_fresh_step E t (Finished r) ev s = None"
| "ensure_fresh_step E t Dropped ev s = None"

datatype 'c label = Act nat "'c event" | Passes nat | Removed

fun fleet_next :: "('c, 'm) refresh_env_scheme \<Rightarrow> 'c label \<Rightarrow> 'c fleet \<Rightarrow> 'c fleet option" where
  "fleet_next E (Act t ev) s = ensure_fresh_step E t (tasks s t) ev s"
| "fleet_next E (Passes d) s = Some (s\<lparr>clock := clock s + d\<rparr>)"
| "fleet_next E Removed s = Some (s\<lparr>stored := None\<rparr>)"

definition fleet_start :: "nat \<Rightarrow> 'c credential_row \<Rightarrow> 'c fleet" where
  "fleet_start now row = \<lparr>clock = now, stored = Some row, fleet_lock = None, gates = (\<lambda>_. None), tasks = (\<lambda>_. Idle), spent = []\<rparr>"

inductive reaches :: "('c, 'm) refresh_env_scheme \<Rightarrow> ('c fleet \<Rightarrow> 'c label \<Rightarrow> 'c fleet \<Rightarrow> bool) \<Rightarrow> 'c fleet \<Rightarrow> 'c fleet \<Rightarrow> bool"
  for E ok s where
  here: "reaches E ok s s"
| onward: "reaches E ok s u \<Longrightarrow> fleet_next E l u = Some v \<Longrightarrow> ok u l v \<Longrightarrow> reaches E ok s v"

fun section_until :: "'c refresh_pc \<Rightarrow> nat option" where
  "section_until (Locked now until) = Some until"
| "section_until (Granting until v current) = Some until"
| "section_until (Storing until v current sealed fresh) = Some until"
| "section_until (Outrun until) = Some until"
| "section_until (Denied until current e) = Some until"
| "section_until (Releasing until r) = Some until"
| "section_until _ = None"

fun task_version :: "'c refresh_pc \<Rightarrow> nat option" where
  "task_version (Granting until v current) = Some v"
| "task_version (Storing until v current sealed fresh) = Some v"
| "task_version _ = None"

definition prompt :: "'c fleet \<Rightarrow> 'c label \<Rightarrow> 'c fleet \<Rightarrow> bool" where
  "prompt s l s' \<longleftrightarrow> (\<forall>t until. section_until (tasks s' t) = Some until \<longrightarrow> clock s' < until)"

lemma section_goto [simp]: "tasks (goto t pc s) = (tasks s)(t := pc)" "fleet_lock (goto t pc s) = fleet_lock s"
  "clock (goto t pc s) = clock s" "stored (goto t pc s) = stored s" "spent (goto t pc s) = spent s"
  by (simp_all add: goto_def)

lemma drop_gate_simps [simp]: "tasks (drop_gate t s) = tasks s" "fleet_lock (drop_gate t s) = fleet_lock s"
  "clock (drop_gate t s) = clock s" "stored (drop_gate t s) = stored s" "spent (drop_gate t s) = spent s"
  by (simp_all add: drop_gate_def)

lemma take_gate_simps [simp]: "tasks (take_gate E t s) = tasks s" "fleet_lock (take_gate E t s) = fleet_lock s"
  "clock (take_gate E t s) = clock s" "stored (take_gate E t s) = stored s" "spent (take_gate E t s) = spent s"
  by (simp_all add: take_gate_def)

lemma finish_simps [simp]: "tasks (finish t r s) = (tasks s)(t := Finished r)" "fleet_lock (finish t r s) = fleet_lock s"
  "clock (finish t r s) = clock s" "stored (finish t r s) = stored s" "spent (finish t r s) = spent s"
  by (simp_all add: finish_def)

lemma exchange_simps [simp]: "tasks (exchange v c a s) = tasks s" "fleet_lock (exchange v c a s) = fleet_lock s"
  "clock (exchange v c a s) = clock s" "stored (exchange v c a s) = stored s" "spent (exchange v c a s) = (v, c, a) # spent s"
  by (simp_all add: exchange_def)

lemma release_simps [simp]: "tasks (release_refresh_lock s) = tasks s" "fleet_lock (release_refresh_lock s) = None"
  "clock (release_refresh_lock s) = clock s" "stored (release_refresh_lock s) = stored s"
  "spent (release_refresh_lock s) = spent s"
  by (simp_all add: release_refresh_lock_def)

subsection \<open>One step\<close>

definition lock_free :: "'c fleet \<Rightarrow> bool" where
  "lock_free s \<longleftrightarrow> (case fleet_lock s of Some until \<Rightarrow> until \<le> clock s | None \<Rightarrow> True)"

definition at_version :: "nat \<Rightarrow> 'c fleet \<Rightarrow> bool" where
  "at_version v s \<longleftrightarrow> map_option cw_token_version (stored s) = Some v"

lemma acquire_eq:
  "acquire_refresh_lock ttl s = (if lock_free s then (True, s\<lparr>fleet_lock := Some (clock s + ttl)\<rparr>) else (False, s))"
  by (auto simp: acquire_refresh_lock_def lock_free_def split: option.splits)

lemma store_eq:
  "store_credentials sealed v s =
     (if at_version v s then (True, s\<lparr>stored := Some \<lparr>cw_sealed = sealed, cw_token_version = v + 1\<rparr>\<rparr>) else (False, s))"
  by (auto simp: store_credentials_def at_version_def split: option.splits)

lemmas step_defs = begins_def behind_the_gate_def race_def loser_reads_def refresh_locked_def granted_def swaps_def
  uses_the_winners_def checks_for_a_race_def hangs_up_def acquire_eq store_eq

lemma step_frame:
  assumes "ensure_fresh_step E t pc ev s = Some s'"
  shows "tasks s' = (tasks s)(t := tasks s' t) \<and> clock s' = clock s"
  using assms by (cases pc; cases ev) (auto simp: step_defs Let_def split: option.splits if_splits sum.splits)

lemma step_lock:
  assumes "ensure_fresh_step E t pc ev s = Some s'"
  shows "section_until (tasks s' t) = section_until pc \<and> fleet_lock s' = fleet_lock s \<or>
    section_until pc = None \<and> lock_free s \<and> fleet_lock s' = Some (clock s + LOCK_TTL) \<and>
      section_until (tasks s' t) \<in> {None, fleet_lock s'} \<or>
    section_until pc \<noteq> None \<and> section_until (tasks s' t) = None \<and> fleet_lock s' \<in> {None, fleet_lock s}"
  using assms by (cases pc; cases ev) (auto simp: step_defs Let_def split: option.splits if_splits sum.splits)

lemma step_stored:
  assumes "ensure_fresh_step E t pc ev s = Some s'"
  shows "stored s' = stored s \<or>
    (\<exists>until v current sealed fresh. pc = Storing until v current sealed fresh \<and> at_version v s \<and>
       stored s' = Some \<lparr>cw_sealed = sealed, cw_token_version = v + 1\<rparr> \<and> spent s' = spent s \<and> task_version (tasks s' t) = None)"
  using assms by (cases pc; cases ev) (auto simp: step_defs Let_def split: option.splits if_splits sum.splits)

lemma step_spent:
  assumes "ensure_fresh_step E t pc ev s = Some s'"
  shows "spent s' = spent s \<or>
    (\<exists>until v current a. pc = Granting until v current \<and> spent s' = (v, current, a) # spent s \<and> stored s' = stored s \<and>
       (task_version (tasks s' t) = None \<or>
        (\<exists>f sealed fresh. a = Some f \<and> fresh = f\<lparr>version := sat_add (2 ^ 64 - 1) (version current) 1\<rparr> \<and>
           seal_json E fresh = Inr sealed \<and> tasks s' t = Storing until v current sealed fresh)))"
  using assms by (cases pc; cases ev) (auto simp: step_defs Let_def split: option.splits if_splits sum.splits)

lemma step_version:
  assumes "ensure_fresh_step E t pc ev s = Some s'" and "task_version (tasks s' t) = Some v"
  shows "task_version pc = Some v \<and> spent s' \<noteq> spent s \<and> stored s' = stored s \<or>
    (\<exists>now until row current. pc = Locked now until \<and> stored s = Some row \<and> cw_token_version row = v \<and>
       opened E (cw_sealed row) = Inr current \<and> tasks s' t = Granting until v current \<and> stored s' = stored s \<and> spent s' = spent s)"
  using assms by (cases pc; cases ev) (auto simp: step_defs Let_def split: option.splits if_splits sum.splits)

subsection \<open>One refresh at a time\<close>

definition exclusive :: "'c fleet \<Rightarrow> bool" where
  "exclusive s \<longleftrightarrow>
     (\<forall>t until. section_until (tasks s t) = Some until \<longrightarrow> fleet_lock s = Some until \<and> clock s < until) \<and>
     (\<forall>t t'. section_until (tasks s t) \<noteq> None \<and> section_until (tasks s t') \<noteq> None \<longrightarrow> t = t')"

lemma exclusive_next:
  assumes inv: "exclusive s" and step: "fleet_next E l s = Some s'" and ok: "prompt s l s'"
  shows "exclusive s'"
proof (cases l)
  case (Act t ev)
  with step have st: "ensure_fresh_step E t (tasks s t) ev s = Some s'" by simp
  from step_frame [OF st] have fr: "tasks s' = (tasks s)(t := tasks s' t)" "clock s' = clock s" by auto
  have other: "tasks s' u = tasks s u" if "u \<noteq> t" for u using that by (subst fr(1)) simp
  from inv have held: "section_until (tasks s u) = Some until \<Longrightarrow> fleet_lock s = Some until \<and> \<not> lock_free s" for u until
    by (fastforce simp: exclusive_def lock_free_def)
  from step_lock [OF st] show ?thesis
  proof (elim disjE conjE)
    assume "section_until (tasks s' t) = section_until (tasks s t)" "fleet_lock s' = fleet_lock s"
    then have "section_until (tasks s' u) = section_until (tasks s u)" for u using other by (cases "u = t") auto
    with inv fr(2) \<open>fleet_lock s' = fleet_lock s\<close> show ?thesis by (simp add: exclusive_def)
  next
    assume free: "lock_free s" and lk: "fleet_lock s' = Some (clock s + LOCK_TTL)"
      "section_until (tasks s' t) \<in> {None, fleet_lock s'}"
    have "section_until (tasks s u) = None" for u using held [of u] free by (cases "section_until (tasks s u)") auto
    then have none: "section_until (tasks s' u) = None" if "u \<noteq> t" for u using other that by simp
    have "u = t \<and> fleet_lock s' = Some until \<and> clock s' < until" if "section_until (tasks s' u) = Some until" for u until
      using that none lk ok by (cases "u = t") (auto simp: prompt_def)
    then show ?thesis unfolding exclusive_def by blast
  next
    assume sec: "section_until (tasks s t) \<noteq> None" "section_until (tasks s' t) = None"
    have "section_until (tasks s' u) = None" for u
      using inv sec other [of u] unfolding exclusive_def by (metis not_None_eq)
    then show ?thesis by (simp add: exclusive_def)
  qed
next
  case (Passes d)
  with assms show ?thesis by (auto simp: exclusive_def prompt_def)
next
  case Removed
  with assms show ?thesis by (auto simp: exclusive_def)
qed



subsection \<open>Writes follow reads\<close>

fun right_to :: "('c, 'm) refresh_env_scheme \<Rightarrow> (nat \<times> secret_material \<times> secret_material option) list \<Rightarrow> 'c credential_row \<Rightarrow>
    'c refresh_pc \<Rightarrow> bool" where
  "right_to E sp row (Granting until v current) \<longleftrightarrow>
     v \<le> cw_token_version row \<and> (v = cw_token_version row \<longrightarrow> opened E (cw_sealed row) = Inr current)"
| "right_to E sp row (Storing until v current sealed fresh) \<longleftrightarrow>
     v \<le> cw_token_version row \<and> (v = cw_token_version row \<longrightarrow> opened E (cw_sealed row) = Inr current) \<and>
     (\<exists>f. (v, current, Some f) \<in> set sp \<and> fresh = f\<lparr>version := sat_add (2 ^ 64 - 1) (version current) 1\<rparr> \<and>
        seal_json E fresh = Inr sealed)"
| "right_to E sp row pc = True"

definition fresh_rights :: "('c, 'm) refresh_env_scheme \<Rightarrow> 'c fleet \<Rightarrow> bool" where
  "fresh_rights E s \<longleftrightarrow> (\<forall>t row. stored s = Some row \<longrightarrow> right_to E (spent s) row (tasks s t))"

lemma right_to_later:
  assumes "right_to E sp row pc" and "set sp \<subseteq> set sp'" and "row' = row \<or> cw_token_version row < cw_token_version row'"
  shows "right_to E sp' row' pc"
  using assms by (cases pc) auto

lemma step_right:
  assumes "ensure_fresh_step E t pc ev s = Some s'" and "stored s' = Some row'" and "stored s = Some row"
    and "right_to E (spent s) row pc"
  shows "right_to E (spent s') row' (tasks s' t)"
  using assms
  by (cases pc; cases ev) (auto simp: step_defs Let_def at_version_def split: option.splits if_splits sum.splits)

lemma step_grows:
  assumes "ensure_fresh_step E t pc ev s = Some s'"
  shows "set (spent s) \<subseteq> set (spent s')" and "stored s' = Some row' \<Longrightarrow>
    \<exists>row. stored s = Some row \<and> (row' = row \<or> cw_token_version row' = cw_token_version row + 1)"
  using step_spent [OF assms] step_stored [OF assms] by (cases "stored s"; auto simp: at_version_def)+

lemma fresh_rights_next:
  assumes inv: "fresh_rights E s" and step: "fleet_next E l s = Some s'"
  shows "fresh_rights E s'"
proof (cases l)
  case (Act t ev)
  with step have st: "ensure_fresh_step E t (tasks s t) ev s = Some s'" by simp
  from step_frame [OF st] have other: "tasks s' u = tasks s u" if "u \<noteq> t" for u using that by (metis fun_upd_other)
  show ?thesis
    unfolding fresh_rights_def
  proof (intro allI impI)
    fix u row' assume r: "stored s' = Some row'"
    with step_grows(2) [OF st] obtain row where row: "stored s = Some row"
      "row' = row \<or> cw_token_version row < cw_token_version row'" by fastforce
    with inv have right: "right_to E (spent s) row (tasks s v)" for v by (simp add: fresh_rights_def)
    show "right_to E (spent s') row' (tasks s' u)"
    proof (cases "u = t")
      case True
      with step_right [OF st r row(1) right] show ?thesis by simp
    next
      case False
      with right_to_later [OF right step_grows(1) [OF st] row(2)] other show ?thesis by simp
    qed
  qed
qed (use assms in \<open>auto simp: fresh_rights_def\<close>)

lemma fresh_rights_start: "fresh_rights E (fleet_start now row)"
  by (simp add: fresh_rights_def fleet_start_def)

lemma reaches_fresh_rights:
  assumes "reaches E ok s u" and "fresh_rights E s"
  shows "fresh_rights E u"
  using assms by (induction rule: reaches.induct) (auto intro: fresh_rights_next)

lemma exclusive_start: "exclusive (fleet_start now row)"
  by (simp add: exclusive_def fleet_start_def)

lemma reaches_exclusive:
  assumes "reaches E ok s u" and "exclusive s" and "\<And>a l b. ok a l b \<Longrightarrow> prompt a l b"
  shows "exclusive u"
  using assms by (induction rule: reaches.induct) (auto intro: exclusive_next)



subsection \<open>Tokens are spent once\<close>

definition undisturbed :: "'c fleet \<Rightarrow> 'c label \<Rightarrow> 'c fleet \<Rightarrow> bool" where
  "undisturbed s l s' \<longleftrightarrow> prompt s l s' \<and>
     (case l of
        Act t ev \<Rightarrow>
          (case tasks s t of
             Granting until v current \<Rightarrow> (\<exists>a. ev = Grants a) \<or> (\<exists>e. ev = Breaks e)
           | Storing until v current sealed fresh \<Rightarrow> ev = Proceed
           | _ \<Rightarrow> True)
      | _ \<Rightarrow> True)"

fun is_storing :: "'c refresh_pc \<Rightarrow> bool" where
  "is_storing (Storing until v current sealed fresh) = True"
| "is_storing pc = False"

definition storing :: "'c fleet \<Rightarrow> nat \<Rightarrow> bool" where
  "storing s v \<longleftrightarrow> (\<exists>t until current sealed fresh. tasks s t = Storing until v current sealed fresh)"

definition spent_once :: "'c fleet \<Rightarrow> bool" where
  "spent_once s \<longleftrightarrow> distinct (map fst (spent s)) \<and>
     (\<forall>t until v current. tasks s t = Granting until v current \<longrightarrow> v \<notin> fst ` set (spent s)) \<and>
     (\<forall>row v. stored s = Some row \<and> v \<in> fst ` set (spent s) \<longrightarrow> v < cw_token_version row \<or>
        v = cw_token_version row \<and> storing s v)"

lemma exclusive_same:
  "exclusive s \<Longrightarrow> section_until (tasks s t) \<noteq> None \<Longrightarrow> section_until (tasks s u) \<noteq> None \<Longrightarrow> u = t"
  unfolding exclusive_def by blast

lemma spent_settled:
  assumes "spent_once s" and "exclusive s" and "section_until (tasks s t) \<noteq> None"
    and "\<And>until current sealed fresh. tasks s t \<noteq> Storing until w current sealed fresh"
    and "stored s = Some row" and "w \<in> fst ` set (spent s)"
  shows "w < cw_token_version row"
proof (rule ccontr)
  assume "\<not> ?thesis"
  with assms(1,5,6) obtain u until current sealed fresh where u: "tasks s u = Storing until w current sealed fresh"
    unfolding spent_once_def storing_def by blast
  with exclusive_same [OF assms(2,3), of u] assms(4) show False by auto
qed

lemma spent_once_grant:
  assumes once: "spent_once s" and ex: "exclusive s" and rights: "fresh_rights E s"
    and pc: "tasks s t = Granting until v current" and other: "\<And>u. u \<noteq> t \<Longrightarrow> tasks s' u = tasks s u"
    and s': "tasks s' t = Storing until v current sealed fresh" "spent s' = (v, current, a) # spent s" "stored s' = stored s"
  shows "spent_once s'"
proof -
  have lone: "tasks s' u \<noteq> Granting x y z" for u x y z
    using exclusive_same [OF ex, of t u] pc s'(1) other [of u] by (cases "u = t") auto
  have bound: "v \<le> cw_token_version row" if "stored s = Some row" for row
    using rights that pc unfolding fresh_rights_def by (metis right_to.simps(1))
  have old: "w < cw_token_version row" if "stored s = Some row" "w \<in> fst ` set (spent s)" for row w
    using spent_settled [OF once ex _ _ that, of t] pc by simp
  have new: "v \<notin> fst ` set (spent s)" "distinct (map fst (spent s))" using once pc unfolding spent_once_def by blast+
  from s'(1) have "storing s' v" unfolding storing_def by blast
  then have "w < cw_token_version row \<or> w = cw_token_version row \<and> storing s' w"
    if "stored s' = Some row" "w \<in> fst ` set (spent s')" for row w
    using that s' old bound by (cases "w = v") (auto simp: le_less)
  with lone new s'(2) show ?thesis by (simp add: spent_once_def)
qed

lemma spent_once_store:
  assumes once: "spent_once s" and ex: "exclusive s" and rights: "fresh_rights E s"
    and pc: "tasks s t = Storing until v current sealed fresh" and other: "\<And>u. u \<noteq> t \<Longrightarrow> tasks s' u = tasks s u"
    and s': "task_version (tasks s' t) = None" "spent s' = spent s"
    and st: "stored s' = (if at_version v s then Some \<lparr>cw_sealed = sealed, cw_token_version = v + 1\<rparr> else stored s)"
  shows "spent_once s'"
proof -
  have lone: "tasks s' u \<noteq> Granting x y z" for u x y z
    using exclusive_same [OF ex, of t u] pc s'(1) other [of u] by (cases "u = t") auto
  have "w < cw_token_version row" if r: "stored s' = Some row" "w \<in> fst ` set (spent s')" for row w
  proof -
    obtain row0 where row0: "stored s = Some row0" using r st by (cases "stored s") (auto simp: at_version_def split: if_splits)
    have "w < cw_token_version row0 \<or> w = cw_token_version row0 \<and> w = v"
    proof (cases "w = v")
      case True
      then show ?thesis using rights pc row0 unfolding fresh_rights_def by (metis right_to.simps(2) le_less)
    next
      case False
      then show ?thesis using spent_settled [OF once ex _ _ row0, of t w] pc r s'(2) by simp
    qed
    then show ?thesis using r st row0 by (auto simp: at_version_def split: if_splits)
  qed
  with lone once s'(2) show ?thesis by (simp add: spent_once_def)
qed

lemma spent_once_quiet:
  assumes once: "spent_once s" and other: "\<And>u. u \<noteq> t \<Longrightarrow> tasks s' u = tasks s u"
    and pc: "\<not> is_storing (tasks s t)"
    and new: "\<And>until v current. tasks s' t = Granting until v current \<Longrightarrow> v \<notin> fst ` set (spent s)"
    and s': "spent s' = spent s" "stored s' = stored s"
  shows "spent_once s'"
proof -
  have grants: "v \<notin> fst ` set (spent s')" if "tasks s' u = Granting until v current" for u until v current
  proof (cases "u = t")
    case True
    with new that s'(1) show ?thesis by simp
  next
    case False
    with other that have "tasks s u = Granting until v current" by simp
    with once s'(1) show ?thesis unfolding spent_once_def by metis
  qed
  have keeps: "storing s' v" if st: "storing s v" for v
  proof -
    obtain u until current sealed fresh where u: "tasks s u = Storing until v current sealed fresh"
      using st unfolding storing_def by blast
    with pc have "u \<noteq> t" by auto
    with u other [of u] show ?thesis unfolding storing_def by metis
  qed
  have "v < cw_token_version row \<or> v = cw_token_version row \<and> storing s' v"
    if "stored s' = Some row" "v \<in> fst ` set (spent s')" for row v
    using once that s' keeps [of v] unfolding spent_once_def by auto
  with once grants s'(1) show ?thesis unfolding spent_once_def by simp
qed

lemma spent_once_next:
  assumes once: "spent_once s" and ex: "exclusive s" and rights: "fresh_rights E s"
    and seals: "\<And>m. \<exists>c. seal_json E m = Inr c"
    and step: "fleet_next E l s = Some s'" and ok: "undisturbed s l s'"
  shows "spent_once s'"
proof (cases l)
  case (Act t ev)
  with step have st: "ensure_fresh_step E t (tasks s t) ev s = Some s'" by simp
  from step_frame [OF st] have other: "tasks s' u = tasks s u" if "u \<noteq> t" for u using that by (metis fun_upd_other)
  consider (granting) until v current where "tasks s t = Granting until v current"
    | (storing) until v current sealed fresh where "tasks s t = Storing until v current sealed fresh"
    | (locked) now until where "tasks s t = Locked now until"
    | (quiet) "task_version (tasks s t) = None" "\<not> is_storing (tasks s t)" "\<And>now until. tasks s t \<noteq> Locked now until"
    by (cases "tasks s t") auto
  then show ?thesis
  proof cases
    case pc: granting
    with ok Act have "(\<exists>a. ev = Grants a) \<or> (\<exists>e. ev = Breaks e)" by (simp add: undisturbed_def)
    then consider f where "ev = Grants (Some f)" | "ev = Grants None \<or> (\<exists>e. ev = Breaks e)"
      by (metis not_None_eq)
    then show ?thesis
    proof cases
      case 1
      obtain sealed where "seal_json E (f\<lparr>version := sat_add (2 ^ 64 - 1) (version current) 1\<rparr>) = Inr sealed" using seals by blast
      with st pc 1 have "tasks s' t = Storing until v current sealed (f\<lparr>version := sat_add (2 ^ 64 - 1) (version current) 1\<rparr>)"
        "spent s' = (v, current, Some f) # spent s" "stored s' = stored s" by (auto simp: granted_def Let_def)
      with spent_once_grant [OF once ex rights pc other] show ?thesis by blast
    next
      case 2
      with st pc have "spent s' = spent s" "stored s' = stored s" "task_version (tasks s' t) = None" by auto
      then show ?thesis using pc by (intro spent_once_quiet [OF once, of t]) (auto simp: other)
    qed
  next
    case pc: storing
    with ok Act have "ev = Proceed" by (simp add: undisturbed_def)
    with st pc have "task_version (tasks s' t) = None" "spent s' = spent s"
      "stored s' = (if at_version v s then Some \<lparr>cw_sealed = sealed, cw_token_version = v + 1\<rparr> else stored s)"
      by (auto simp: swaps_def store_eq split: if_splits)
    with spent_once_store [OF once ex rights pc other] show ?thesis by blast
  next
    case pc: locked
    with step_spent [OF st] step_stored [OF st] have same: "spent s' = spent s" "stored s' = stored s" by auto
    have "v \<notin> fst ` set (spent s)" if g: "tasks s' t = Granting until' v current" for until' v current
    proof -
      from step_version [OF st, of v] g pc obtain row where "stored s = Some row" "cw_token_version row = v" by auto
      with spent_settled [OF once ex, of t v row] pc show ?thesis by auto
    qed
    then show ?thesis using pc same by (intro spent_once_quiet [OF once, of t]) (auto simp: other)
  next
    case quiet
    have same: "spent s' = spent s" "stored s' = stored s"
      using step_spent [OF st] step_stored [OF st] quiet(1) by (auto dest: arg_cong [where f = task_version])
    have "task_version (tasks s' t) = None" using step_version [OF st] quiet by fastforce
    then show ?thesis using quiet(2) same by (intro spent_once_quiet [OF once, of t]) (auto simp: other)
  qed
next
  case (Passes d)
  with step have "s' = s\<lparr>clock := clock s + d\<rparr>" by simp
  with once show ?thesis by (simp add: spent_once_def storing_def)
next
  case Removed
  with step have "s' = s\<lparr>stored := None\<rparr>" by simp
  with once show ?thesis by (simp add: spent_once_def)
qed

text \<open>
  C11. Every refresh token is spent at most once: as long as a refresh ends within the lock's time to live and no
  request is dropped, and no answer lost, between the exchange and the write, at most one task of the whole
  fleet is refreshing at any moment and no stored token is ever exchanged twice.
\<close>

theorem refresh_tokens_are_spent_once:
  assumes "reaches E undisturbed (fleet_start now row) s" and "\<And>m. \<exists>c. seal_json E m = Inr c"
  shows "distinct (map fst (spent s)) \<and>
    (\<forall>t t'. section_until (tasks s t) \<noteq> None \<and> section_until (tasks s t') \<noteq> None \<longrightarrow> t = t')"
proof -
  have ok: "undisturbed a l b \<Longrightarrow> prompt a l b" for a l and b :: "'a fleet" by (simp add: undisturbed_def)
  from assms(1) have "spent_once s \<and> exclusive s \<and> fresh_rights E s"
  proof (induction rule: reaches.induct)
    case here
    show ?case by (simp add: exclusive_start fresh_rights_start) (simp add: spent_once_def fleet_start_def)
  next
    case (onward u l v)
    then show ?case
      using spent_once_next [OF _ _ _ assms(2)] exclusive_next [OF _ _ ok] fresh_rights_next by blast
  qed
  then show ?thesis unfolding spent_once_def exclusive_def by blast
qed

text \<open>
  C12. A newer token is never overwritten with an older one, however long refreshes take, whatever fails and
  whoever hangs up: each change of the stored credential advances its version by one and stores what the token
  endpoint answered for the very material it replaces.
\<close>

theorem newer_token_never_overwritten:
  assumes "reaches E (\<lambda>_ _ _. True) (fleet_start now row0) s" and "fleet_next E l s = Some s'"
    and "stored s = Some row" and "stored s' = Some row'"
  shows "row' = row \<or> cw_token_version row' = cw_token_version row + 1 \<and>
    (\<exists>current f. opened E (cw_sealed row) = Inr current \<and> (cw_token_version row, current, Some f) \<in> set (spent s) \<and>
       seal_json E (f\<lparr>version := sat_add (2 ^ 64 - 1) (version current) 1\<rparr>) = Inr (cw_sealed row'))"
proof (cases l)
  case (Act t ev)
  with assms(2) have st: "ensure_fresh_step E t (tasks s t) ev s = Some s'" by simp
  have "right_to E (spent s) row (tasks s t)"
    using reaches_fresh_rights [OF assms(1) fresh_rights_start] assms(3) by (simp add: fresh_rights_def)
  with step_stored [OF st] assms(3,4) show ?thesis by (auto simp: at_version_def)
qed (use assms in auto)



subsection \<open>A client that hangs up\<close>

definition single_use :: "'c fleet \<Rightarrow> 'c label \<Rightarrow> 'c fleet \<Rightarrow> bool" where
  "single_use s l s' \<longleftrightarrow>
     (\<forall>t f until v current. l = Act t (Grants (Some f)) \<and> tasks s t = Granting until v current \<longrightarrow> v \<notin> fst ` set (spent s))"

definition stranded :: "'c credential_row \<Rightarrow> 'c fleet \<Rightarrow> bool" where
  "stranded row s \<longleftrightarrow> cw_token_version row \<in> fst ` set (spent s) \<and> (stored s = Some row \<or> stored s = None) \<and>
     \<not> storing s (cw_token_version row)"

lemma stranded_next:
  assumes "stranded row s" and "fleet_next E l s = Some s'" and "single_use s l s'"
  shows "stranded row s'"
proof (cases l)
  case (Act t ev)
  with assms(2) have st: "ensure_fresh_step E t (tasks s t) ev s = Some s'" by simp
  from step_frame [OF st] have other: "tasks s' u = tasks s u" if "u \<noteq> t" for u using that by (metis fun_upd_other)
  have none: "tasks s u \<noteq> Storing until (cw_token_version row) current sealed fresh" for u until current sealed fresh
    using assms(1) unfolding stranded_def storing_def by blast
  have "stored s' = stored s"
    using step_stored [OF st] none assms(1) by (auto simp: at_version_def stranded_def)
  moreover have "tasks s' t \<noteq> Storing until (cw_token_version row) current sealed fresh" for until current sealed fresh
  proof
    assume new: "tasks s' t = Storing until (cw_token_version row) current sealed fresh"
    from step_version [OF st, of "cw_token_version row"] new have "spent s' \<noteq> spent s" by auto
    with step_spent [OF st] new obtain c a where g: "tasks s t = Granting until (cw_token_version row) c"
      "spent s' = (cw_token_version row, c, a) # spent s" by auto
    with st new have "\<exists>f. ev = Grants (Some f)" by (cases ev) (auto simp: hangs_up_def split: option.splits)
    with g assms(1,3) Act show False unfolding single_use_def stranded_def by blast
  qed
  then have "\<not> storing s' (cw_token_version row)" using none other unfolding storing_def by metis
  ultimately show ?thesis using assms(1) step_grows(1) [OF st] unfolding stranded_def by auto
next
  case (Passes d)
  with assms(2) have "s' = s\<lparr>clock := clock s + d\<rparr>" by simp
  with assms(1) show ?thesis by (simp add: stranded_def storing_def)
next
  case Removed
  with assms(2) have "s' = s\<lparr>stored := None\<rparr>" by simp
  with assms(1) show ?thesis by (simp add: stranded_def storing_def)
qed

text \<open>
  C39. A client that hangs up at the wrong moment strands the credential: the refresh runs inside the request, so
  dropping it between the exchange and the write loses the only copy of the new token. From then on, with an
  endpoint that honours a refresh token once, the stored credential never changes again, and what it holds is
  spent.
\<close>

theorem hangup_strands_the_credential:
  assumes "reaches E prompt (fleet_start now row0) s" and "tasks s t = Storing until v current sealed fresh"
    and "stored s = Some row" and "cw_token_version row = v"
    and "fleet_next E (Act t (HangsUp False)) s = Some s'" and "reaches E single_use s' s''"
  shows "v \<in> fst ` set (spent s'') \<and> (stored s'' = Some row \<or> stored s'' = None)"
proof -
  have ex: "exclusive s" using reaches_exclusive [OF assms(1) exclusive_start] by blast
  have "right_to E (spent s) row (tasks s t)"
    using reaches_fresh_rights [OF assms(1) fresh_rights_start] assms(3) by (simp add: fresh_rights_def)
  with assms(2) have sp: "v \<in> fst ` set (spent s)" by force
  from assms(2,5) have s': "s' = goto t Dropped (drop_gate t s)" by (simp add: hangs_up_def)
  have "\<not> storing s' v"
  proof
    assume "storing s' v"
    then obtain u until current sealed fresh where u: "tasks s' u = Storing until v current sealed fresh"
      unfolding storing_def by blast
    with s' have "u \<noteq> t" "tasks s u = Storing until v current sealed fresh" by (auto split: if_splits)
    with exclusive_same [OF ex, of t u] assms(2) show False by simp
  qed
  with sp s' assms(3,4) have "stranded row s'" by (simp add: stranded_def)
  with assms(6) have "stranded row s''" by (induction rule: reaches.induct) (auto intro: stranded_next)
  with assms(4) show ?thesis by (simp add: stranded_def)
qed

subsection \<open>Witnesses\<close>

fun follows :: "('c, 'm) refresh_env_scheme \<Rightarrow> ('c fleet \<Rightarrow> 'c label \<Rightarrow> 'c fleet \<Rightarrow> bool) \<Rightarrow> 'c label list \<Rightarrow> 'c fleet \<Rightarrow> 'c fleet \<Rightarrow> bool" where
  "follows E ok [] s s' \<longleftrightarrow> s' = s"
| "follows E ok (l # ls) s s' \<longleftrightarrow> (case fleet_next E l s of None \<Rightarrow> False | Some u \<Rightarrow> ok s l u \<and> follows E ok ls u s')"

lemma follows_reaches: "reaches E ok s u \<Longrightarrow> follows E ok ls u v \<Longrightarrow> reaches E ok s v"
  by (induction ls arbitrary: u) (auto split: option.splits intro: reaches.onward)

definition sample_token :: "string \<Rightarrow> int \<Rightarrow> nat \<Rightarrow> secret_material" where
  "sample_token r t v = \<lparr>access_token = ''a'', refresh_token = Some r, expires_at = Some t, version = v, client_id = None,
     sm_account_id = None\<rparr>"

definition sample_refresh :: "secret_material refresh_env" where
  "sample_refresh = \<lparr>open_json = Inr, seal_json = Inr, adapter_error = None, replica_of = id, gates_poisoned = (\<lambda>_. False)\<rparr>"

definition sample_fleet :: "secret_material fleet" where
  "sample_fleet = fleet_start 1000 \<lparr>cw_sealed = sample_token ''r'' 1100 0, cw_token_version = 7\<rparr>"

definition to_the_write :: "secret_material label list" where
  "to_the_write = [Act 0 (Begin (sample_token ''r'' 1100 0)), Act 0 Proceed, Act 0 Proceed, Act 0 Proceed, Passes 1, Act 0 Proceed,
     Act 0 (Grants (Some (sample_token ''s'' 5000 0)))]"

definition sample_due :: secret_material where
  "sample_due = trimmed (sample_token ''r'' 1100 0)"

definition sample_next :: secret_material where
  "sample_next = (sample_token ''s'' 5000 0)\<lparr>version := 1\<rparr>"

definition at_the_write :: "secret_material fleet" where
  "at_the_write = \<lparr>clock = 1001, stored = stored sample_fleet, fleet_lock = Some 1030, gates = (\<lambda>_. None)(0 := Some 0),
     tasks = (\<lambda>_. Idle)(0 := Storing 1030 7 sample_due sample_next sample_next),
     spent = [(7, sample_due, Some (sample_token ''s'' 5000 0))]\<rparr>"

lemma sample_still_due: "still_due sample_due 1000" "version sample_due = 0" "opened sample_refresh (sample_token ''r'' 1100 0) = Inr sample_due"
  by (simp_all add: still_due_def sample_due_def expires_within_def trimmed_def sample_token_def REFRESH_SKEW_def i64_wrap_def
      opened_def sample_refresh_def)

lemma sample_refresh_simps: "seal_json sample_refresh = Inr" "adapter_error sample_refresh = None" "replica_of sample_refresh = id"
    "gates_poisoned sample_refresh = (\<lambda>_. False)"
  by (simp_all add: sample_refresh_def)

lemma sample_written: "follows sample_refresh undisturbed to_the_write sample_fleet at_the_write"
  by (simp add: to_the_write_def sample_fleet_def fleet_start_def undisturbed_def prompt_def begins_def behind_the_gate_def
      reread_def race_def acquire_refresh_lock_def refresh_locked_def granted_def gate_free_def take_gate_def goto_def exchange_def
      sample_still_due LOCK_TTL_def at_the_write_def sat_add_def Let_def sample_next_def sample_refresh_simps)

lemma sample_reached: "reaches sample_refresh undisturbed sample_fleet at_the_write"
  by (rule follows_reaches [OF reaches.here sample_written])

lemma reaches_mono: "reaches E ok s u \<Longrightarrow> (\<And>a l b. ok a l b \<Longrightarrow> ok' a l b) \<Longrightarrow> reaches E ok' s u"
  by (induction rule: reaches.induct) (auto intro: reaches.intros)

theorem refresh_tokens_are_spent_once_witness:
  "spent at_the_write \<noteq> [] \<and> distinct (map fst (spent at_the_write)) \<and> section_until (tasks at_the_write 0) = Some 1030"
  using refresh_tokens_are_spent_once [OF sample_reached [unfolded sample_fleet_def]]
  by (simp add: at_the_write_def sample_refresh_simps)

theorem newer_token_never_overwritten_witness:
  "\<exists>s' row'. fleet_next sample_refresh (Act 0 Proceed) at_the_write = Some s' \<and> stored s' = Some row' \<and> cw_token_version row' = 8 \<and>
     (\<exists>current f. (7, current, Some f) \<in> set (spent at_the_write) \<and>
        seal_json sample_refresh (f\<lparr>version := sat_add (2 ^ 64 - 1) (version current) 1\<rparr>) = Inr (cw_sealed row'))"
proof -
  have r: "reaches sample_refresh (\<lambda>_ _ _. True) (fleet_start 1000 \<lparr>cw_sealed = sample_token ''r'' 1100 0, cw_token_version = 7\<rparr>) at_the_write"
    by (rule reaches_mono [OF sample_reached [unfolded sample_fleet_def]]) simp
  obtain s' row row' where s': "fleet_next sample_refresh (Act 0 Proceed) at_the_write = Some s'" "stored s' = Some row'"
      "stored at_the_write = Some row" "cw_token_version row' = 8" "cw_token_version row = 7"
    by (simp add: at_the_write_def swaps_def store_eq at_version_def sample_fleet_def fleet_start_def)
  from newer_token_never_overwritten [OF r s'(1,3,2)] s' show ?thesis by fastforce
qed

theorem hangup_strands_the_credential_witness:
  "\<exists>s'. fleet_next sample_refresh (Act 0 (HangsUp False)) at_the_write = Some s' \<and> 7 \<in> fst ` set (spent s') \<and>
     map_option cw_token_version (stored s') = Some 7 \<and> tasks s' 0 = Dropped"
proof -
  obtain s' where s': "fleet_next sample_refresh (Act 0 (HangsUp False)) at_the_write = Some s'" "tasks s' 0 = Dropped"
      "stored s' = stored sample_fleet"
    by (simp add: at_the_write_def hangs_up_def)
  have r: "reaches sample_refresh prompt (fleet_start 1000 \<lparr>cw_sealed = sample_token ''r'' 1100 0, cw_token_version = 7\<rparr>) at_the_write"
    by (rule reaches_mono [OF sample_reached [unfolded sample_fleet_def]]) (simp add: undisturbed_def)
  have "7 \<in> fst ` set (spent s')"
    using hangup_strands_the_credential [OF r _ _ _ s'(1) reaches.here, of 1030 7 sample_due sample_next sample_next
        "\<lparr>cw_sealed = sample_token ''r'' 1100 0, cw_token_version = 7\<rparr>"]
    by (simp add: at_the_write_def sample_fleet_def fleet_start_def)
  with s' show ?thesis by (simp add: sample_fleet_def fleet_start_def)
qed



text \<open>
  The lock's time to live is a real condition: a refresh that outlasts it does not stop a second replica from
  presenting the same refresh token. The xAI adapter's two requests of up to twenty seconds each can.
\<close>

lemma outlasted_lock_admits_a_second:
  "\<exists>s. reaches sample_refresh (\<lambda>_ _ _. True) sample_fleet s \<and>
     tasks s 0 = Granting 1030 7 sample_due \<and> tasks s 1 = Granting 1070 7 sample_due"
proof -
  let ?enter = "\<lambda>t. [Act t (Begin (sample_token ''r'' 1100 0)), Act t Proceed, Act t Proceed, Act t Proceed, Act t Proceed]"
  have d: "still_due sample_due 1040"
    by (simp add: still_due_def sample_due_def expires_within_def trimmed_def sample_token_def REFRESH_SKEW_def i64_wrap_def)
  have "\<exists>s. follows sample_refresh (\<lambda>_ _ _. True) (?enter 0 @ Passes 40 # ?enter 1) sample_fleet s \<and>
     tasks s 0 = Granting 1030 7 sample_due \<and> tasks s 1 = Granting 1070 7 sample_due"
    by (simp add: sample_fleet_def fleet_start_def begins_def behind_the_gate_def d
      reread_def race_def acquire_refresh_lock_def refresh_locked_def gate_free_def take_gate_def goto_def
      sample_still_due LOCK_TTL_def sample_refresh_simps)
  then show ?thesis using follows_reaches [OF reaches.here] by blast
qed

end
