(* ===== verification/Slots.thy ===== *)
theory Slots
  imports Leasing
begin

text \<open>
  The concurrency slots of one credential (the Redis scripts of \<^verbatim>\<open>oag-store/src/cache.rs\<close> and the
  heartbeat of \<^verbatim>\<open>gateway/select.rs\<close>): a sorted set of request ids scored by Redis's clock, with an
  expiry on the whole key. Each script runs atomically, so what a fleet does to a key is a sequence of
  operations, each at the time Redis gives it.
\<close>

subsection \<open>The sorted set\<close>

record slot_set =
  zs :: "(string \<times> nat) list"
  key_expires :: "nat option"

definition no_slots :: slot_set where
  "no_slots = \<lparr>zs = [], key_expires = None\<rparr>"

definition members_at :: "nat \<Rightarrow> slot_set \<Rightarrow> (string \<times> nat) list" where
  "members_at now s = (case key_expires s of Some e \<Rightarrow> if e \<le> now then [] else zs s | None \<Rightarrow> zs s)"

definition zremrangebyscore :: "nat \<Rightarrow> nat \<Rightarrow> (string \<times> nat) list \<Rightarrow> (string \<times> nat) list" where
  "zremrangebyscore now ttl z = filter (\<lambda>(m, score). \<not> score + ttl \<le> now) z"

definition zadd :: "nat \<Rightarrow> string \<Rightarrow> (string \<times> nat) list \<Rightarrow> (string \<times> nat) list" where
  "zadd now m z = AList.update m now z"

definition put :: "(string \<times> nat) list \<Rightarrow> nat option \<Rightarrow> slot_set" where
  "put z e = (if z = [] then no_slots else \<lparr>zs = z, key_expires = e\<rparr>)"

subsection \<open>The scripts\<close>

definition ACQUIRE_SLOT :: "nat \<Rightarrow> string \<Rightarrow> nat \<Rightarrow> nat \<Rightarrow> slot_set \<Rightarrow> (nat \<times> nat) \<times> slot_set" where
  "ACQUIRE_SLOT now member limit ttl s =
     (let z = zremrangebyscore now ttl (members_at now s); live = length z in
      if limit \<le> live then ((0, live), put z (key_expires s))
      else (let z' = zadd now member z in ((1, length z'), put z' (Some (now + ttl * 2)))))"

definition SLOTS_IN_USE :: "nat \<Rightarrow> nat \<Rightarrow> slot_set \<Rightarrow> nat \<times> slot_set" where
  "SLOTS_IN_USE now ttl s =
     (let z = zremrangebyscore now ttl (members_at now s) in (length z, put z (key_expires s)))"

definition CLEAR_SLOTS :: "nat \<Rightarrow> slot_set \<Rightarrow> nat \<times> slot_set" where
  "CLEAR_SLOTS now s = (length (members_at now s), no_slots)"

definition REFRESH_SLOT :: "nat \<Rightarrow> string \<Rightarrow> nat \<Rightarrow> slot_set \<Rightarrow> nat \<times> slot_set" where
  "REFRESH_SLOT now member ttl s =
     (let z = members_at now s in
      if map_of z member = None then (0, put z (key_expires s))
      else (1, put (zadd now member z) (Some (now + ttl * 2))))"

definition release_slot :: "nat \<Rightarrow> string \<Rightarrow> slot_set \<Rightarrow> slot_set" where
  "release_slot now member s = put (AList.delete member (members_at now s)) (key_expires s)"

subsection \<open>What the gateway does with them\<close>

definition try_acquire :: "nat \<Rightarrow> string \<Rightarrow> nat \<Rightarrow> nat \<Rightarrow> slot_set \<Rightarrow> slot_claim \<times> slot_set" where
  "try_acquire now request limit ttl s =
     (case ACQUIRE_SLOT now request limit ttl s of
        ((taken, live), s') \<Rightarrow> (if taken = 1 then Taken else Full (min live (2 ^ 32 - 1)), s'))"

definition ttl_secs :: nat where "ttl_secs = SLOT_TTL div 1000"

definition beat :: "nat \<Rightarrow> string \<Rightarrow> nat \<Rightarrow> slot_set \<Rightarrow> slot_set" where
  "beat now request limit s =
     (case REFRESH_SLOT now request ttl_secs s of
        (kept, s') \<Rightarrow> if kept = 1 then s' else snd (try_acquire now request limit ttl_secs s'))"

datatype slot_op = Claim string nat | Beat string nat | GiveBack string | CountSlots | ClearSlots

fun slot_step :: "nat \<times> slot_op \<Rightarrow> slot_set \<Rightarrow> slot_set" where
  "slot_step (now, Claim m limit) s = snd (try_acquire now m limit ttl_secs s)"
| "slot_step (now, Beat m limit) s = beat now m limit s"
| "slot_step (now, GiveBack m) s = release_slot now m s"
| "slot_step (now, CountSlots) s = snd (SLOTS_IN_USE now ttl_secs s)"
| "slot_step (now, ClearSlots) s = snd (CLEAR_SLOTS now s)"

fun op_limit :: "slot_op \<Rightarrow> nat" where
  "op_limit (Claim m limit) = limit"
| "op_limit (Beat m limit) = limit"
| "op_limit _ = 0"

subsection \<open>The key never holds more than its limit\<close>

definition within :: "nat \<Rightarrow> slot_set \<Rightarrow> bool" where
  "within limit s \<longleftrightarrow> length (zs s) \<le> limit \<and> distinct (map fst (zs s))"

lemma length_update: "length (AList.update k v z) = (if k \<in> fst ` set z then length z else Suc (length z))"
  by (induction z) auto

lemma within_put: "length z \<le> limit \<Longrightarrow> distinct (map fst z) \<Longrightarrow> within limit (put z e)"
  by (simp add: within_def put_def no_slots_def)

lemma within_no_slots [simp]: "within limit no_slots"
  by (simp add: within_def no_slots_def)

lemma within_members: "within limit s \<Longrightarrow> length (members_at now s) \<le> limit \<and> distinct (map fst (members_at now s))"
  by (auto simp: within_def members_at_def split: option.splits)

lemma within_trim:
  assumes "length z \<le> limit \<and> distinct (map fst z)"
  shows "length (zremrangebyscore now ttl z) \<le> limit \<and> distinct (map fst (zremrangebyscore now ttl z))"
  using assms le_trans [OF length_filter_le] by (auto simp: zremrangebyscore_def distinct_map_filter)

lemma within_acquire:
  assumes "within limit s" and "limit' \<le> limit"
  shows "within limit (snd (try_acquire now m limit' ttl s))"
  using within_trim [OF within_members [OF assms(1), of now], of now ttl] assms(2)
  by (auto simp: try_acquire_def ACQUIRE_SLOT_def Let_def zadd_def length_update distinct_update intro!: within_put)

lemma within_refresh: "within limit s \<Longrightarrow> within limit (snd (REFRESH_SLOT now m ttl s))"
  using within_members [of limit s now]
  by (simp add: REFRESH_SLOT_def Let_def zadd_def length_update distinct_update map_of_eq_None_iff within_put)

lemma within_step:
  assumes "within limit s" and "op_limit op \<le> limit"
  shows "within limit (slot_step (now, op) s)"
proof (cases op)
  case (Beat m limit')
  then show ?thesis
    using within_refresh [OF assms(1), of now m ttl_secs] within_acquire [of limit _ limit'] assms(2)
    by (auto simp: beat_def split: prod.splits)
next
  case (GiveBack m)
  have "length (AList.delete m z) \<le> length z" for z :: "(string \<times> nat) list" by (induction z) auto
  with GiveBack within_members [OF assms(1), of now] show ?thesis
    by (auto simp: release_slot_def intro!: within_put distinct_delete intro: le_trans)
qed (use assms within_trim [OF within_members [OF assms(1), of now], of now ttl_secs] in
    \<open>auto simp: SLOTS_IN_USE_def CLEAR_SLOTS_def Let_def intro!: within_acquire within_put\<close>)

subsection \<open>A tended slot stays\<close>

definition dated :: "nat \<Rightarrow> slot_set \<Rightarrow> bool" where
  "dated now s \<longleftrightarrow> (\<forall>(m, score) \<in> set (zs s). score \<le> now \<and> (\<exists>e. key_expires s = Some e \<and> score + ttl_secs * 2 \<le> e))"

lemma dated_put:
  assumes "dated t s" and "set z \<subseteq> set (zs s)" and "t \<le> now"
  shows "dated now (put z (key_expires s))"
  using assms by (fastforce simp: dated_def put_def no_slots_def)

lemma dated_members: "set (members_at now s) \<subseteq> set (zs s)"
  by (auto simp: members_at_def split: option.splits if_splits)

lemma dated_zadd:
  assumes "dated t s" and "set z \<subseteq> set (zs s)" and "t \<le> now"
  shows "dated now (put (zadd now m z) (Some (now + ttl_secs * 2)))"
proof -
  have "(k, score) \<in> set z \<Longrightarrow> score \<le> now" for k score using assms by (fastforce simp: dated_def)
  moreover have "set (AList.update m now z) \<subseteq> insert (m, now) (set z)" by (induction z) auto
  ultimately show ?thesis by (fastforce simp: dated_def put_def no_slots_def zadd_def)
qed

lemma trim_subset: "set (zremrangebyscore now ttl z) \<subseteq> set z"
  by (auto simp: zremrangebyscore_def)

lemma dated_acquire:
  assumes "dated t s" and "t \<le> now"
  shows "dated now (snd (try_acquire now m limit ttl_secs s))"
  using dated_put [OF assms(1) _ assms(2)] dated_zadd [OF assms(1) _ assms(2)] trim_subset dated_members
  by (simp add: try_acquire_def ACQUIRE_SLOT_def Let_def) (meson order_trans)

lemma dated_refresh:
  assumes "dated t s" and "t \<le> now"
  shows "dated now (snd (REFRESH_SLOT now m ttl_secs s))"
  using dated_put [OF assms(1) dated_members assms(2)] dated_zadd [OF assms(1) dated_members assms(2)]
  by (simp add: REFRESH_SLOT_def Let_def)

lemma dated_step:
  assumes "dated t s" and "t \<le> now"
  shows "dated now (slot_step (now, op) s)"
proof (cases op)
  case (Beat m limit)
  then show ?thesis
    using dated_refresh [OF assms, of m] dated_acquire [of now _ now m limit] by (auto simp: beat_def split: prod.splits)
next
  case (GiveBack m)
  have "set (AList.delete m z) \<subseteq> set z" for z :: "(string \<times> nat) list" by (induction z) auto
  then have "set (AList.delete m (members_at now s)) \<subseteq> set (zs s)" using dated_members by blast
  with GiveBack dated_put [OF assms(1) _ assms(2)] show ?thesis by (simp add: release_slot_def)
next
  case CountSlots
  with dated_put [OF assms(1) order_trans [OF trim_subset dated_members] assms(2)] show ?thesis
    by (simp add: SLOTS_IN_USE_def Let_def)
qed (use dated_acquire [OF assms] in \<open>auto simp: CLEAR_SLOTS_def dated_def no_slots_def\<close>)

lemma map_of_trim:
  assumes "map_of z m = Some score" and "now < score + ttl" and "distinct (map fst z)"
  shows "map_of (zremrangebyscore now ttl z) m = Some score"
  using assms by (simp add: zremrangebyscore_def map_of_filter_keep)

lemma members_of_live:
  assumes "dated t s" and "map_of (zs s) m = Some score" and "now < score + ttl_secs"
  shows "members_at now s = zs s"
  using assms by (fastforce simp: dated_def members_at_def dest!: map_of_SomeD split: option.splits)

lemma kept_by_acquire:
  assumes "dated t s" and "within L s" and "map_of (zs s) m = Some score" and "now < score + ttl_secs" and "score \<le> now"
  shows "\<exists>score'. map_of (zs (snd (try_acquire now k limit ttl_secs s))) m = Some score' \<and> score \<le> score'"
proof -
  have "map_of (zremrangebyscore now ttl_secs (members_at now s)) m = Some score"
    using map_of_trim [OF assms(3,4)] assms(2) members_of_live [OF assms(1,3,4)] by (simp add: within_def)
  then show ?thesis using assms(5)
    by (auto simp: try_acquire_def ACQUIRE_SLOT_def Let_def put_def zadd_def update_conv')
qed

fun beats :: "string \<Rightarrow> slot_op \<Rightarrow> bool" where
  "beats m (Beat k limit) = (k = m)"
| "beats m op = False"

fun ends :: "string \<Rightarrow> slot_op \<Rightarrow> bool" where
  "ends m (GiveBack k) = (k = m)"
| "ends m ClearSlots = True"
| "ends m op = False"

lemma kept_by_step:
  assumes "dated t s" and "within L s" and "map_of (zs s) m = Some score" and "now < score + ttl_secs" and "t \<le> now"
    and "\<not> ends m op"
  shows "\<exists>score'. map_of (zs (slot_step (now, op) s)) m = Some score' \<and> (if beats m op then now else score) \<le> score'"
proof -
  have past: "score \<le> now" using assms(1,3,5) by (fastforce simp: dated_def dest!: map_of_SomeD)
  have mem: "members_at now s = zs s" by (rule members_of_live [OF assms(1,3,4)])
  show ?thesis
  proof (cases op)
    case (Beat k limit)
    show ?thesis
    proof (cases "map_of (zs s) k")
      case None
      with assms(3) have "k \<noteq> m" by auto
      have "put (zs s) (key_expires s) = s"
        using assms(3) by (cases s) (auto simp: put_def)
      with None Beat \<open>k \<noteq> m\<close> kept_by_acquire [OF assms(1-4) past, of k limit] show ?thesis
        by (simp add: beat_def REFRESH_SLOT_def mem)
    next
      case (Some old)
      with Beat assms(3) past show ?thesis
        by (auto simp: beat_def REFRESH_SLOT_def mem put_def zadd_def update_conv')
    qed
  next
    case (GiveBack k)
    with assms(3,6) show ?thesis by (auto simp: release_slot_def mem put_def delete_conv' no_slots_def dest: arg_cong [where f = "\<lambda>z. map_of z m"])
  next
    case CountSlots
    have "map_of (zremrangebyscore now ttl_secs (zs s)) m = Some score"
      using map_of_trim [OF assms(3,4)] assms(2) by (simp add: within_def)
    with CountSlots show ?thesis by (auto simp: SLOTS_IN_USE_def mem put_def Let_def)
  qed (use kept_by_acquire [OF assms(1-4) past] assms(6) in auto)
qed

fun tended :: "string \<Rightarrow> nat \<Rightarrow> (nat \<times> slot_op) list \<Rightarrow> nat \<Rightarrow> bool" where
  "tended m score [] now \<longleftrightarrow> now < score + ttl_secs"
| "tended m score ((t, op) # ops) now \<longleftrightarrow>
     t < score + ttl_secs \<and> \<not> ends m op \<and> tended m (if beats m op then t else score) ops now"

lemma tended_kept:
  assumes "dated t s" and "within L s" and "map_of (zs s) m = Some score'" and "score \<le> score'" and "tended m score ops now"
    and "sorted (t # map fst ops)" and "list_all (\<lambda>(t, op). op_limit op \<le> L) ops"
  shows "\<exists>score'. map_of (zs (fold slot_step ops s)) m = Some score' \<and> now < score' + ttl_secs"
  using assms
proof (induction ops arbitrary: t s score score')
  case Nil
  then show ?case by auto
next
  case (Cons a ops)
  obtain u op where a: "a = (u, op)" by force
  with Cons.prems have tu: "t \<le> u" "u < score' + ttl_secs" "\<not> ends m op" "op_limit op \<le> L" by auto
  obtain new where new: "map_of (zs (slot_step (u, op) s)) m = Some new" "(if beats m op then u else score') \<le> new"
    using kept_by_step [OF Cons.prems(1-3) tu(2,1,3)] by blast
  with Cons.prems(4) have "(if beats m op then u else score) \<le> new" by auto
  with Cons.IH [OF dated_step [OF Cons.prems(1) tu(1)] within_step [OF Cons.prems(2) tu(4)] new(1)] Cons.prems a
  show ?case by simp
qed

fun touches :: "string \<Rightarrow> slot_op \<Rightarrow> bool" where
  "touches m (Claim k limit) = (k = m)"
| "touches m (Beat k limit) = (k = m)"
| "touches m op = False"

lemma set_update_subset: "set (AList.update k v z) \<subseteq> insert (k, v) (set z)"
  by (induction z) auto

lemma set_put [simp]: "set (zs (put z e)) = set z"
  by (simp add: put_def no_slots_def)

lemma step_members:
  "(m, score) \<in> set (zs (slot_step (now, op) s)) \<Longrightarrow> (m, score) \<in> set (zs s) \<or> score = now \<and> touches m op"
proof -
  have acq: "set (zs (snd (try_acquire now k limit ttl_secs s'))) \<subseteq> insert (k, now) (set (zs s'))" for k limit s'
  proof -
    have "set (zremrangebyscore now ttl_secs (members_at now s')) \<subseteq> set (zs s')" using trim_subset dated_members by blast
    with set_update_subset [of k now "zremrangebyscore now ttl_secs (members_at now s')"] show ?thesis
      by (auto simp: try_acquire_def ACQUIRE_SLOT_def Let_def zadd_def)
  qed
  have ref: "set (zs (snd (REFRESH_SLOT now k ttl_secs s))) \<subseteq> insert (k, now) (set (zs s))" for k
    using set_update_subset [of k now "members_at now s"] dated_members [of now s] by (auto simp: REFRESH_SLOT_def Let_def zadd_def)
  have del: "set (AList.delete k z) \<subseteq> set z" for k and z :: "(string \<times> nat) list" by (induction z) auto
  assume new: "(m, score) \<in> set (zs (slot_step (now, op) s))"
  show ?thesis
  proof (cases op)
    case (Beat k limit)
    with new ref [of k] acq [of k limit] show ?thesis by (fastforce simp: beat_def split: prod.splits if_splits)
  qed (use new acq trim_subset dated_members [of now s] del in
      \<open>fastforce simp: SLOTS_IN_USE_def CLEAR_SLOTS_def release_slot_def Let_def no_slots_def\<close>)+
qed

lemma run_members:
  "(m, score) \<in> set (zs (fold slot_step ops no_slots)) \<Longrightarrow> \<exists>op. (score, op) \<in> set ops \<and> touches m op"
proof (induction ops rule: rev_induct)
  case Nil
  then show ?case by (simp add: no_slots_def)
next
  case (snoc a ops)
  obtain t op where a: "a = (t, op)" by force
  with snoc step_members [of m score t op] show ?case by auto
qed

lemma run_within: "within L s \<Longrightarrow> list_all (\<lambda>(t, op). op_limit op \<le> L) ops \<Longrightarrow> within L (fold slot_step ops s)"
  by (induction ops arbitrary: s) (auto intro: within_step)

lemma run_dated:
  assumes "dated t s" and "sorted (t # map fst ops @ [now])"
  shows "dated now (fold slot_step ops s)"
  using assms
proof (induction ops arbitrary: t s)
  case Nil
  then show ?case by (fastforce simp: dated_def)
next
  case (Cons a ops)
  obtain u op where "a = (u, op)" by force
  with Cons.prems Cons.IH [OF dated_step [of t s u op]] show ?case by simp
qed

lemma claim_takes:
  assumes "try_acquire t m limit ttl s = (Taken, s')"
  shows "map_of (zs s') m = Some t"
  using assms by (auto simp: try_acquire_def ACQUIRE_SLOT_def Let_def put_def zadd_def update_conv' no_slots_def split: if_splits)

text \<open>
  C28. The slots bound a credential's concurrency and nothing else: in any sequence of claims, heartbeats, releases,
  counts and clears by any number of replicas, at Redis's times, every request whose claim was granted and whose
  heartbeats kept coming within the time to live holds a counted slot, there are never more such requests
  than the limit, and whatever is counted was claimed or beaten for within the time to live: a dead replica's
  slots are gone after it.
\<close>

theorem slots_bound_concurrency:
  assumes "sorted (map fst ops @ [now])" and "list_all (\<lambda>(t, op). op_limit op \<le> L) ops" and "distinct ms"
    and "list_all (\<lambda>m. \<exists>before t limit after s'. ops = before @ (t, Claim m limit) # after \<and>
        try_acquire t m limit ttl_secs (fold slot_step before no_slots) = (Taken, s') \<and> tended m t after now) ms"
  shows "length ms \<le> L \<and> length ms \<le> fst (SLOTS_IN_USE now ttl_secs (fold slot_step ops no_slots)) \<and>
    (\<forall>m \<in> fst ` set (zs (snd (SLOTS_IN_USE now ttl_secs (fold slot_step ops no_slots)))).
       \<exists>t op. (t, op) \<in> set ops \<and> touches m op \<and> now < t + ttl_secs)"
proof -
  let ?s = "fold slot_step ops no_slots" and ?z = "zremrangebyscore now ttl_secs (members_at now (fold slot_step ops no_slots))"
  have w: "within L ?s" by (rule run_within [OF within_no_slots assms(2)])
  have d0: "dated 0 no_slots" by (simp add: dated_def no_slots_def)
  have held: "m \<in> fst ` set ?z" if m: "m \<in> set ms" for m
  proof -
    obtain before t limit after s' where c: "ops = before @ (t, Claim m limit) # after"
      "try_acquire t m limit ttl_secs (fold slot_step before no_slots) = (Taken, s')" "tended m t after now"
      using m assms(4) by (fastforce simp: list_all_iff)
    have s': "s' = slot_step (t, Claim m limit) (fold slot_step before no_slots)" using c(2) by simp
    have "dated t (fold slot_step before no_slots)"
      using run_dated [OF d0, of before t] assms(1) by (simp add: c(1) sorted_append)
    then have "dated t s'" unfolding s' by (rule dated_step) simp
    moreover have "within L s'" unfolding s' using run_within [OF within_no_slots, of L before] assms(2) c(1)
      by (intro within_step) auto
    ultimately obtain score where sc: "map_of (zs ?s) m = Some score" "now < score + ttl_secs"
      using tended_kept [OF _ _ claim_takes [OF c(2)] order_refl c(3), of t L] assms(1,2) c(1) s'
      by (auto simp: sorted_append)
    have "dated now ?s" using run_dated [OF d0, of ops now] assms(1) by simp
    with map_of_trim [OF sc] w members_of_live [OF _ sc] have "map_of ?z m = Some score" by (simp add: within_def)
    then show ?thesis by (force dest: map_of_SomeD)
  qed
  have z: "length ?z \<le> L" "distinct (map fst ?z)" using within_trim [OF within_members [OF w]] by auto
  have "card (set ms) \<le> card (fst ` set ?z)" by (rule card_mono) (use held in auto)
  also have "\<dots> \<le> length ?z" using card_length [of "map fst ?z"] by simp
  finally have len: "length ms \<le> length ?z" using assms(3) by (simp add: distinct_card)
  have "\<exists>t op. (t, op) \<in> set ops \<and> touches m op \<and> now < t + ttl_secs" if "(m, score) \<in> set ?z" for m score
    using that run_members [of m score ops] dated_members [of now ?s] by (fastforce simp: zremrangebyscore_def)
  with len z(1) show ?thesis by (auto simp: SLOTS_IN_USE_def Let_def)
qed

subsection \<open>Heartbeats\<close>

definition SLOT_OP_TIMEOUT :: nat where "SLOT_OP_TIMEOUT = 2"

text \<open>A slot survives two missed heartbeats and a third that takes a whole slot operation's deadline.\<close>

lemma two_beats_may_be_missed:
  "t' \<le> t + (SLOT_HEARTBEAT div 1000) * 3 + SLOT_OP_TIMEOUT \<Longrightarrow> tended m t ((t', Beat m limit) # ops) now = tended m t' ops now"
  by (simp add: ttl_secs_def SLOT_TTL_def SLOT_HEARTBEAT_def SLOT_OP_TIMEOUT_def from_secs_def from_mins_def)

text \<open>
  The script refuses to refresh a member that is gone, so that a release is not undone by a heartbeat that lost the
  race; but the heartbeat then claims the seat again. A beat that read the guard as held just before the release
  puts the slot back, with nobody left to give it back: it stands until the time to live.
\<close>

lemma late_beat_undoes_a_release:
  assumes "within L s" and "length (AList.delete m (members_at now s)) < limit" and "key_expires s = None \<or> members_at now s = zs s"
  shows "m \<in> fst ` set (zs (beat now m limit (release_slot now m s)))"
proof -
  let ?z = "AList.delete m (members_at now s)" and ?r = "release_slot now m s"
  have "members_at now ?r = ?z"
    using assms(3) by (auto simp: release_slot_def put_def members_at_def no_slots_def split: option.splits if_splits)
  moreover have "map_of ?z m = None" by (simp add: delete_conv')
  ultimately have b: "beat now m limit ?r = snd (try_acquire now m limit ttl_secs (put ?z (key_expires ?r)))"
    by (simp add: beat_def REFRESH_SLOT_def)
  have sub: "length (members_at now (put ?z (key_expires ?r))) \<le> length ?z"
    by (auto simp: members_at_def put_def no_slots_def split: option.splits)
  have "length (zremrangebyscore now ttl_secs (members_at now (put ?z (key_expires ?r)))) < limit"
    unfolding zremrangebyscore_def by (rule le_less_trans [OF le_trans [OF length_filter_le sub] assms(2)])
  then have "fst (try_acquire now m limit ttl_secs (put ?z (key_expires ?r))) = Taken"
    by (auto simp: try_acquire_def ACQUIRE_SLOT_def Let_def)
  then have "map_of (zs (beat now m limit ?r)) m = Some now"
    using claim_takes [of now m limit ttl_secs "put ?z (key_expires ?r)"] b by (metis prod.collapse)
  then show ?thesis by (force dest: map_of_SomeD)
qed

subsection \<open>Witness\<close>

theorem slots_bound_concurrency_witness:
  "let ops = [(10, Claim ''a'' 2), (20, Claim ''b'' 2), (40, Beat ''a'' 2), (45, Claim ''c'' 2), (100, GiveBack ''b'')] in
     1 \<le> fst (SLOTS_IN_USE 159 ttl_secs (fold slot_step ops no_slots))"
proof -
  let ?ops = "[(10, Claim ''a'' 2), (20, Claim ''b'' 2), (40, Beat ''a'' 2), (45, Claim ''c'' 2), (100, GiveBack ''b'')]"
  have t: "ttl_secs = 120" by (simp add: ttl_secs_def SLOT_TTL_def from_mins_def from_secs_def)
  have "\<exists>s'. try_acquire 10 ''a'' 2 ttl_secs (fold slot_step [] no_slots) = (Taken, s')"
    by (simp add: try_acquire_def ACQUIRE_SLOT_def members_at_def zremrangebyscore_def no_slots_def zadd_def Let_def)
  moreover have "tended ''a'' 10 (tl ?ops) 159" by (simp add: t)
  ultimately have "\<exists>before u limit after s'. ?ops = before @ (u, Claim ''a'' limit) # after \<and>
      try_acquire u ''a'' limit ttl_secs (fold slot_step before no_slots) = (Taken, s') \<and> tended ''a'' u after 159"
    by (intro exI [of _ "[]"] exI [of _ 10] exI [of _ 2] exI [of _ "tl ?ops"]) auto
  then show ?thesis using slots_bound_concurrency [of ?ops 159 2 "[''a'']"] by simp
qed

end
