(* ===== verification/Rate_Limit.thy ===== *)
theory Rate_Limit
  imports Complex_Main Errors
begin

text \<open>
  A route's requests-per-minute limit (the token-bucket script and its callers in
  \<^verbatim>\<open>oag-store/src/cache.rs\<close>). Redis keeps the bucket's tokens and the time they were counted; the
  script runs atomically at Redis's own clock. This is the limit in exact arithmetic: the script
  computes in double precision and prints the wait, which the gateway reads back and rounds to a
  duration. Neither rounding is modelled, so nothing here is exact of the code to the last digit; a
  gateway that cannot reach Redis lets the request through, the flag \<open>reachable\<close>.
\<close>

subsection \<open>The bucket\<close>

record bucket =
  tokens :: rat
  counted_at :: rat
  bucket_expires :: rat

definition rate_and_burst :: "nat \<Rightarrow> rat \<times> rat" where
  "rate_and_burst rpm = (let burst = of_nat (max rpm 1) in (burst / 60, burst))"

definition live_bucket :: "rat \<Rightarrow> bucket option \<Rightarrow> bucket option" where
  "live_bucket now b = (case b of Some k \<Rightarrow> if bucket_expires k \<le> now then None else Some k | None \<Rightarrow> None)"

definition refilled :: "rat \<Rightarrow> rat \<Rightarrow> rat \<Rightarrow> bucket option \<Rightarrow> rat" where
  "refilled rate burst now b =
     (case b of
        Some k \<Rightarrow> min burst (tokens k + (now - counted_at k) * rate)
      | None \<Rightarrow> min burst burst)"

definition drawn :: "rat \<Rightarrow> rat \<Rightarrow> rat \<Rightarrow> rat \<Rightarrow> rat \<times> bucket" where
  "drawn rate burst now have =
     (let wait = (if 1 \<le> have then 0 else (1 - have) / rate);
          left = (if 1 \<le> have then have - 1 else have)
      in (wait, \<lparr>tokens = left, counted_at = now, bucket_expires = now + of_int \<lceil>burst / rate\<rceil> + 1\<rparr>))"

definition TAKE_TOKEN :: "rat \<Rightarrow> rat \<Rightarrow> rat \<Rightarrow> bucket option \<Rightarrow> rat \<times> bucket" where
  "TAKE_TOKEN rate burst now b = drawn rate burst now (refilled rate burst now (live_bucket now b))"

definition positive_wait :: "rat \<Rightarrow> rat option" where
  "positive_wait wait = (if 0 < wait then Some wait else None)"

definition take_token :: "nat \<Rightarrow> rat \<Rightarrow> bool \<Rightarrow> bucket option \<Rightarrow> rat option \<times> bucket option" where
  "take_token rpm now reachable b =
     (if rpm = 0 then (None, b)
      else if \<not> reachable then (None, b)
      else case rate_and_burst rpm of (rate, burst) \<Rightarrow>
        (case TAKE_TOKEN rate burst now b of (wait, b') \<Rightarrow> (positive_wait wait, Some b')))"

fun granted_in :: "nat \<Rightarrow> bucket option \<Rightarrow> rat list \<Rightarrow> nat" where
  "granted_in rpm b [] = 0"
| "granted_in rpm b (t # ts) =
     (case take_token rpm t True b of (w, b') \<Rightarrow> (if w = None then 1 else 0) + granted_in rpm b' ts)"

subsection \<open>Laws\<close>

definition bucket_sane :: "nat \<Rightarrow> rat \<Rightarrow> bucket option \<Rightarrow> bool" where
  "bucket_sane rpm now b \<longleftrightarrow>
     (case b of
        None \<Rightarrow> True
      | Some k \<Rightarrow> 0 \<le> tokens k \<and> tokens k \<le> of_nat rpm \<and> counted_at k \<le> now \<and> counted_at k + 60 \<le> bucket_expires k)"

definition bucket_level :: "nat \<Rightarrow> rat \<Rightarrow> bucket option \<Rightarrow> rat" where
  "bucket_level rpm now b = refilled (of_nat rpm / 60) (of_nat rpm) now b"

lemma expiry_is_full:
  assumes "bucket_sane rpm now b"
  shows "refilled (of_nat rpm / 60) (of_nat rpm) now (live_bucket now b) = bucket_level rpm now b"
proof (cases b)
  case (Some k)
  show ?thesis
  proof (cases "bucket_expires k \<le> now")
    case True
    with assms Some have "60 \<le> now - counted_at k" "0 \<le> tokens k" by (auto simp: bucket_sane_def)
    then have "of_nat rpm \<le> tokens k + (now - counted_at k) * (of_nat rpm / 60)"
      using mult_right_mono [of 60 "now - counted_at k" "of_nat rpm / 60"] by simp
    with True Some show ?thesis by (simp add: bucket_level_def refilled_def live_bucket_def)
  qed (simp add: Some bucket_level_def live_bucket_def)
qed (simp add: bucket_level_def live_bucket_def)

lemma level_bounds: "bucket_sane rpm now b \<Longrightarrow> 0 \<le> bucket_level rpm now b \<and> bucket_level rpm now b \<le> of_nat rpm"
  by (auto simp: bucket_sane_def bucket_level_def refilled_def split: option.splits)

lemma take_token_spec:
  assumes "0 < rpm" and "bucket_sane rpm now b"
  shows "take_token rpm now True b =
    (if 1 \<le> bucket_level rpm now b then None else Some ((1 - bucket_level rpm now b) * 60 / of_nat rpm),
     Some \<lparr>tokens = bucket_level rpm now b - (if 1 \<le> bucket_level rpm now b then 1 else 0), counted_at = now, bucket_expires = now + 61\<rparr>)"
proof -
  have r: "rate_and_burst rpm = (of_nat rpm / 60, of_nat rpm)" using assms(1) by (simp add: rate_and_burst_def max_def Let_def)
  have c: "\<lceil>(of_nat rpm :: rat) / (of_nat rpm / 60)\<rceil> = 60" using assms(1) by simp
  have "0 < (1 - bucket_level rpm now b) / (of_nat rpm / 60)" if "\<not> 1 \<le> bucket_level rpm now b" using that assms(1) by simp
  then show ?thesis using assms(1)
    by (simp add: take_token_def r TAKE_TOKEN_def expiry_is_full [OF assms(2)] drawn_def c positive_wait_def Let_def)
qed

lemma sane_after:
  assumes "0 < rpm" and "bucket_sane rpm now b"
  shows "bucket_sane rpm now (snd (take_token rpm now True b))"
  using level_bounds [OF assms(2)] by (auto simp: take_token_spec [OF assms] bucket_sane_def)

lemma sane_later: "bucket_sane rpm t b \<Longrightarrow> t \<le> now \<Longrightarrow> bucket_sane rpm now b"
  by (auto simp: bucket_sane_def split: option.splits)

lemma level_grows:
  assumes "bucket_sane rpm t b" and "t \<le> now"
  shows "bucket_level rpm now b \<le> bucket_level rpm t b + (now - t) * (of_nat rpm / 60)"
proof (cases b)
  case (Some k)
  have "(now - counted_at k) * (of_nat rpm / 60) = (t - counted_at k) * (of_nat rpm / 60) + (now - t) * (of_nat rpm / 60)"
    using distrib_right [of "t - counted_at k" "now - t" "of_nat rpm / 60"] by simp
  moreover have "0 \<le> (now - t) * (of_nat rpm / 60 :: rat)" using assms(2) by simp
  ultimately show ?thesis by (auto simp: Some bucket_level_def refilled_def min_def add_divide_distrib)
qed (use assms in \<open>simp add: bucket_level_def refilled_def\<close>)

lemma granted_bound:
  assumes "0 < rpm" and "bucket_sane rpm t0 b" and "sorted (t0 # ts @ [t1])"
  shows "of_nat (granted_in rpm b ts) \<le> bucket_level rpm t0 b + (t1 - t0) * (of_nat rpm / 60)"
  using assms
proof (induction ts arbitrary: t0 b)
  case Nil
  then show ?case using level_bounds [of rpm t0 b] by simp
next
  case (Cons t ts)
  let ?b = "snd (take_token rpm t True b)"
  have s: "bucket_sane rpm t b" using sane_later Cons.prems(2,3) by simp
  have lv: "bucket_level rpm t ?b = bucket_level rpm t b - (if 1 \<le> bucket_level rpm t b then 1 else 0)"
    using level_bounds [OF s] by (simp add: take_token_spec [OF Cons.prems(1) s] bucket_level_def [of _ _ "Some _"] refilled_def)
  have "of_nat (granted_in rpm ?b ts) \<le> bucket_level rpm t ?b + (t1 - t) * (of_nat rpm / 60)"
    using Cons.IH [OF Cons.prems(1) sane_after [OF Cons.prems(1) s]] Cons.prems(3) by simp
  moreover have "bucket_level rpm t b \<le> bucket_level rpm t0 b + (t - t0) * (of_nat rpm / 60)"
    using level_grows [OF Cons.prems(2)] Cons.prems(3) by simp
  moreover have "granted_in rpm b (t # ts) = (if 1 \<le> bucket_level rpm t b then 1 else 0) + granted_in rpm ?b ts"
    by (simp add: take_token_spec [OF Cons.prems(1) s])
  moreover have "(t1 - t0) * (of_nat rpm / 60) = (t1 - t) * (of_nat rpm / 60) + (t - t0) * (of_nat rpm / 60 :: rat)"
    using distrib_right [of "t1 - t" "t - t0" "of_nat rpm / 60"] by simp
  ultimately show ?case unfolding lv by (cases "1 \<le> bucket_level rpm t b") (simp_all add: add_divide_distrib del: granted_in.simps)
qed

text \<open>
  In exact arithmetic, and while Redis answers, a route's rate limit holds over every window, not only over
  whole minutes: from whatever state the bucket is in, however the requests are spread and whether or not the
  bucket's key expired in between, the requests let through in any stretch of time are at most the
  allowance plus what accrues during it, and a request that is refused is told how long: a try then is let
  through, and one at any earlier moment is not.
\<close>

theorem rate_limit_bounds_every_window:
  assumes "0 < rpm" and "bucket_sane rpm t0 b" and "sorted (t0 # ts @ [t1])"
  shows "of_nat (granted_in rpm b ts) \<le> of_nat rpm + of_nat rpm * (t1 - t0) / (60 :: rat) \<and>
    (\<forall>w b'. take_token rpm t0 True b = (Some w, b') \<longrightarrow>
       0 < w \<and> fst (take_token rpm (t0 + w) True b') = None \<and>
       (\<forall>v. 0 \<le> v \<and> v < w \<longrightarrow> fst (take_token rpm (t0 + v) True b') \<noteq> None))"
proof (intro conjI allI impI)
  show "of_nat (granted_in rpm b ts) \<le> of_nat rpm + of_nat rpm * (t1 - t0) / (60 :: rat)"
    using granted_bound [OF assms] level_bounds [OF assms(2)] by (simp add: mult.commute)
next
  fix w b' assume take: "take_token rpm t0 True b = (Some w, b')"
  let ?l = "bucket_level rpm t0 b"
  from take have l: "\<not> 1 \<le> ?l" "w = (1 - ?l) * 60 / of_nat rpm" "b' = Some \<lparr>tokens = ?l, counted_at = t0, bucket_expires = t0 + 61\<rparr>"
    by (auto simp: take_token_spec [OF assms(1,2)] split: if_splits)
  then show w: "0 < w" using assms(1) by simp
  have s: "bucket_sane rpm (t0 + v) b'" if "0 \<le> v" for v
    using sane_later [OF sane_after [OF assms(1,2)], of "t0 + v"] take that by simp
  define r :: rat where "r = of_nat rpm / 60"
  have lv: "bucket_level rpm (t0 + v) b' = min (of_nat rpm) (?l + v * r)" for v
    by (simp add: l(3) bucket_level_def refilled_def r_def)
  have wr: "w * r = 1 - ?l" and r: "0 < r" using l(2) assms(1) by (simp_all add: r_def)
  then have "1 \<le> bucket_level rpm (t0 + w) b'" using assms(1) by (simp add: lv)
  then show "fst (take_token rpm (t0 + w) True b') = None" using take_token_spec [OF assms(1) s, of w] w by simp
  fix v assume v: "0 \<le> v \<and> v < w"
  then have "v * r < 1 - ?l" using wr r mult_strict_right_mono [of v w r] by simp
  then have "\<not> 1 \<le> bucket_level rpm (t0 + v) b'" by (simp add: lv)
  then show "fst (take_token rpm (t0 + v) True b') \<noteq> None" using take_token_spec [OF assms(1) s, of v] v by simp
qed

theorem rate_limit_bounds_every_window_witness:
  "of_nat (granted_in 2 None [0, 0, 10, 30]) \<le> (2 :: rat) + 2 * (30 - 0) / 60 \<and> bucket_sane 2 0 None"
  using rate_limit_bounds_every_window [of 2 0 None "[0, 0, 10, 30]" 30] by (simp add: bucket_sane_def)

text \<open>
  The whole allowance can be spent at once and again as it accrues, so a minute can see more than the limit: with
  two requests a minute, three within half of one.
\<close>

lemma allowance_is_exceeded_within_a_minute: "granted_in 2 None [0, 0, 30] = 3"
  by (simp add: take_token_def rate_and_burst_def TAKE_TOKEN_def refilled_def live_bucket_def drawn_def positive_wait_def Let_def)

end
