(* ===== verification/Wire_Json.thy ===== *)
theory Wire_Json
  imports Tool_Ids Stream Errors
begin

text \<open>
  What the codecs of \<^verbatim>\<open>oag-proto/src\<close> do with JSON values, before any dialect. Indexing, the typed
  readers and the assignment of a member behave as the documentation of \<^verbatim>\<open>serde_json::Value\<close> says:
  a missing member reads as null, a reader of another type gives nothing. A number is its text. The
  text of a value and the reading of a text belong to the serialiser, a third-party crate, and so does
  the text of a 32-bit float; they are the record \<open>serde\<close>.
\<close>

subsection \<open>Values\<close>

definition idx :: "json \<Rightarrow> string \<Rightarrow> json" where
  "idx v k = (case v of JObj m \<Rightarrow> (case map_of m k of Some x \<Rightarrow> x | None \<Rightarrow> JNull) | _ \<Rightarrow> JNull)"

definition idx_at :: "json \<Rightarrow> nat \<Rightarrow> json" where
  "idx_at v i = (case v of JArr xs \<Rightarrow> (if i < length xs then xs ! i else JNull) | _ \<Rightarrow> JNull)"

definition get_member :: "json \<Rightarrow> string \<Rightarrow> json option" where
  "get_member v k = (case v of JObj m \<Rightarrow> map_of m k | _ \<Rightarrow> None)"

definition set_member :: "string \<Rightarrow> json \<Rightarrow> json \<Rightarrow> json" where
  "set_member k x v = (case v of JObj m \<Rightarrow> JObj (AList.update k x m) | _ \<Rightarrow> v)"

definition as_str :: "json \<Rightarrow> string option" where
  "as_str v = (case v of JStr s \<Rightarrow> Some s | _ \<Rightarrow> None)"

definition as_array :: "json \<Rightarrow> json list option" where
  "as_array v = (case v of JArr xs \<Rightarrow> Some xs | _ \<Rightarrow> None)"

definition as_bool :: "json \<Rightarrow> bool option" where
  "as_bool v = (case v of JBool b \<Rightarrow> Some b | _ \<Rightarrow> None)"

definition dec_value :: "string \<Rightarrow> nat" where
  "dec_value s = foldl (\<lambda>a c. 10 * a + (of_char c - 48)) 0 s"

definition as_u64 :: "json \<Rightarrow> nat option" where
  "as_u64 v = (case v of JNum s \<Rightarrow> (if s \<noteq> [] \<and> list_all is_digit s \<and> dec_value s \<le> u64_max then Some (dec_value s) else None) | _ \<Rightarrow> None)"

definition jnat :: "nat \<Rightarrow> json" where
  "jnat n = JNum (show_nat n)"

definition str_or :: "string \<Rightarrow> json \<Rightarrow> string" where
  "str_or d v = (case as_str v of Some s \<Rightarrow> s | None \<Rightarrow> d)"

definition items :: "json \<Rightarrow> json list" where
  "items v = (case as_array v of Some xs \<Rightarrow> xs | None \<Rightarrow> [])"

definition u64_or :: "nat \<Rightarrow> json \<Rightarrow> nat" where
  "u64_or d v = (case as_u64 v of Some n \<Rightarrow> n | None \<Rightarrow> d)"

definition bool_or :: "bool \<Rightarrow> json \<Rightarrow> bool" where
  "bool_or d v = (case as_bool v of Some b \<Rightarrow> b | None \<Rightarrow> d)"

definition u32_try_from :: "nat \<Rightarrow> nat option" where
  "u32_try_from n = (if n \<le> u32_max then Some n else None)"

definition set_when :: "bool \<Rightarrow> string \<Rightarrow> json \<Rightarrow> json \<Rightarrow> json" where
  "set_when b k x v = (if b then set_member k x v else v)"

definition set_some :: "string \<Rightarrow> json option \<Rightarrow> json \<Rightarrow> json" where
  "set_some k x v = (case x of Some x \<Rightarrow> set_member k x v | None \<Rightarrow> v)"

definition bind_str :: "json \<Rightarrow> (string \<Rightarrow> 'a option) \<Rightarrow> 'a option" where
  "bind_str v f = Option.bind (as_str v) f"

subsection \<open>The serialiser\<close>

record serde =
  to_text :: "json \<Rightarrow> string"
  from_text :: "string \<Rightarrow> string + json"
  f32_of :: "string \<Rightarrow> nat"
  of_f32 :: "nat \<Rightarrow> json"

definition parsed_or :: "serde \<Rightarrow> json \<Rightarrow> string \<Rightarrow> json" where
  "parsed_or S d t = (case from_text S t of Inr v \<Rightarrow> v | Inl _ \<Rightarrow> d)"

text \<open>\<^verbatim>\<open>as_f64\<close> and the cast to \<^verbatim>\<open>f32\<close>.\<close>

definition as_f32 :: "serde \<Rightarrow> json \<Rightarrow> nat option" where
  "as_f32 S v = (case v of JNum s \<Rightarrow> Some (f32_of S s) | _ \<Rightarrow> None)"

subsection \<open>Names of models\<close>

text \<open>\<^verbatim>\<open>str::split\<close> at every character of a set, and \<^verbatim>\<open>str::parse::<u32>\<close>.\<close>

fun split_at :: "char set \<Rightarrow> string \<Rightarrow> string list" where
  "split_at seps [] = [[]]"
| "split_at seps (c # s) =
     (if c \<in> seps then [] # split_at seps s
      else case split_at seps s of p # ps \<Rightarrow> (c # p) # ps | [] \<Rightarrow> [[c]])"

definition parse_u32 :: "string \<Rightarrow> nat option" where
  "parse_u32 s =
     (let ds = (case s of CHR ''+'' # rest \<Rightarrow> rest | _ \<Rightarrow> s) in
      if ds \<noteq> [] \<and> list_all is_digit ds \<and> dec_value ds \<le> u32_max then Some (dec_value ds) else None)"

subsection \<open>Laws\<close>

named_theorems json_simps "how the readers see what the codecs write"

lemma idx_obj [json_simps]: "idx (JObj m) k = (case map_of m k of Some x \<Rightarrow> x | None \<Rightarrow> JNull)"
  by (simp add: idx_def)

lemma idx_other [json_simps]: "idx JNull k = JNull" "idx (JStr s) k = JNull" "idx (JArr xs) k = JNull"
  "idx (JBool b) k = JNull" "idx (JNum n) k = JNull"
  by (simp_all add: idx_def)

lemma idx_set_member [json_simps]:
  "idx (set_member k x (JObj m)) k' = (if k' = k then x else idx (JObj m) k')"
  by (simp add: set_member_def idx_def)

lemma set_member_obj: "set_member k x (JObj m) = JObj (AList.update k x m)"
  by (simp add: set_member_def)

lemma as_str_simps [json_simps]: "as_str (JStr s) = Some s" "as_str JNull = None" "as_str (JObj m) = None"
  "as_str (JArr xs) = None" "as_str (JNum n) = None" "as_str (JBool b) = None"
  by (simp_all add: as_str_def)

lemma as_array_simps [json_simps]: "as_array (JArr xs) = Some xs" "as_array JNull = None" "as_array (JStr s) = None"
  "as_array (JObj m) = None" "as_array (JNum n) = None"
  by (simp_all add: as_array_def)

lemma as_bool_simps [json_simps]: "as_bool (JBool b) = Some b" "as_bool JNull = None" "as_bool (JStr s) = None"
  by (simp_all add: as_bool_def)

lemma dec_value_show [simp]: "dec_value (show_nat n) = n"
  by (simp add: dec_value_def show_nat_value)

lemma show_nat_ne [simp]: "show_nat n \<noteq> []"
  by (subst show_nat.simps) simp

lemma as_u64_simps [json_simps]: "as_u64 (jnat n) = (if n \<le> u64_max then Some n else None)"
  "as_u64 JNull = None" "as_u64 (JStr s) = None" "as_u64 (JObj m) = None"
  by (simp_all add: as_u64_def jnat_def show_nat_digits)

lemma as_str_jnat [json_simps]: "as_str (jnat n) = None" "as_array (jnat n) = None" "idx (jnat n) k = JNull"
  by (simp_all add: as_str_def as_array_def idx_def jnat_def)

lemma items_simps [json_simps]: "items (JArr xs) = xs" "items JNull = []" "items (JStr s) = []"
  by (simp_all add: items_def json_simps)

lemma str_or_simps [json_simps]: "str_or d (JStr s) = s" "str_or d JNull = d"
  by (simp_all add: str_or_def json_simps)

lemma u64_or_simps [json_simps]: "n \<le> u64_max \<Longrightarrow> u64_or d (jnat n) = n" "u64_or d JNull = d"
  by (simp_all add: u64_or_def json_simps)

lemma bool_or_simps [json_simps]: "bool_or d (JBool b) = b" "bool_or d JNull = d"
  by (simp_all add: bool_or_def json_simps)

lemma u32_fits_u64: "n \<le> u32_max \<Longrightarrow> n \<le> u64_max"
  by (simp add: u32_max_def u64_max_def)

lemma u32_try_from_fits [json_simps]: "n \<le> u32_max \<Longrightarrow> u32_try_from n = Some n"
  by (simp add: u32_try_from_def)

lemma is_object_simps [json_simps]: "is_object (JObj m)" "is_object (set_member k x v) = is_object v"
  "is_object (set_when b k x v) = is_object v" "is_object (set_some k y v) = is_object v"
  by (cases v; cases y; simp add: is_object_def set_member_def set_when_def set_some_def)+

lemma idx_set [json_simps]: "is_object v \<Longrightarrow> idx (set_member k x v) k' = (if k' = k then x else idx v k')"
  "is_object v \<Longrightarrow> idx (set_when b k x v) k' = (if b \<and> k' = k then x else idx v k')"
  "is_object v \<Longrightarrow> idx (set_some k y v) k' = (case y of Some x \<Rightarrow> if k' = k then x else idx v k' | None \<Rightarrow> idx v k')"
  by (cases v; cases y; simp add: is_object_def set_when_def set_some_def json_simps)+

lemma bind_str_simps [json_simps]: "bind_str (JStr s) f = f s" "bind_str JNull f = None"
  by (simp_all add: bind_str_def json_simps)

lemma map_filter_map: "List.map_filter f (map g xs) = List.map_filter (\<lambda>x. f (g x)) xs"
  by (induction xs) (simp_all add: List.map_filter_simps split: option.split)

lemma map_filter_cong [fundef_cong]:
  "xs = ys \<Longrightarrow> (\<And>x. x \<in> set ys \<Longrightarrow> f x = g x) \<Longrightarrow> List.map_filter f xs = List.map_filter g ys"
  by (induction ys arbitrary: xs) (simp_all add: List.map_filter_simps split: option.split)

lemma size_member: "(k, x) \<in> set m \<Longrightarrow> size x < size (JObj m)"
  by (induction m) auto

lemma size_idx: "idx v k = x \<Longrightarrow> x \<noteq> JNull \<Longrightarrow> size x < size v"
  by (auto simp: idx_def split: json.splits option.splits dest!: map_of_SomeD) (force dest: size_member)

lemma map_filter_all: "(\<And>x. x \<in> set xs \<Longrightarrow> f x = Some (g x)) \<Longrightarrow> List.map_filter f xs = map g xs"
  by (induction xs) (simp_all add: List.map_filter_simps)


subsection \<open>A small instance\<close>

definition tiny_serde :: serde where
  "tiny_serde = \<lparr>to_text = (\<lambda>_. ''{}''), from_text = (\<lambda>_. Inr (JObj [])), f32_of = (\<lambda>_. 0), of_f32 = (\<lambda>_. JNum ''0'')\<rparr>"

definition spoken_request :: canonical_request where
  "spoken_request = \<lparr>cr_model = ''m'', cr_system = [Text ''be brief'' None],
     cr_messages = [\<lparr>msg_role = RoleUser, msg_content = [Text ''hi'' None, Image ''image/png'' ''AA'']\<rparr>,
       \<lparr>msg_role = RoleAssistant, msg_content = [ToolUse ''call.1'' ''look'' (JObj [])]\<rparr>,
       \<lparr>msg_role = RoleUser, msg_content = [ToolResult ''call.1'' (ResultText ''ok'') False]\<rparr>],
     cr_tools = [], cr_max_tokens = 100, cr_stream = False, cr_temperature = Some 0, thinking_budget = None,
     thinking_effort = Some High, cr_client_session = None, cr_tool_choice = None, cr_response_format = None,
     cr_stop = [''END''], previous_response_id = None, cr_passthrough = None\<rparr>"

end
