(* ===== verification/Conversation.thy ===== *)
theory Conversation
  imports Wire_Json
begin

text \<open>
  What a conversation says, whatever dialect it is written in: who said which words, which calls were
  made, what they returned, which pictures were shown. Dialects that take a conversation apart into
  messages and items of their own share the locale \<open>conversation_codec\<close>: reading back what one message is
  written as adds what that message said, and so reading a whole conversation back gives the whole of it.
\<close>

subsection \<open>Blocks\<close>

definition text_of :: "content_block \<Rightarrow> string option" where
  "text_of b = (case b of Text t _ \<Rightarrow> Some t | _ \<Rightarrow> None)"

definition texts :: "content_block list \<Rightarrow> string list" where
  "texts bs = List.map_filter text_of bs"

definition call_in :: "(string \<Rightarrow> string) \<Rightarrow> content_block \<Rightarrow> (string \<times> string \<times> json) option" where
  "call_in f b = (case b of ToolUse tid name input \<Rightarrow> Some (tid, f name, input) | _ \<Rightarrow> None)"

definition result_in :: "content_block \<Rightarrow> (string \<times> string) option" where
  "result_in b = (case b of ToolResult tid content _ \<Rightarrow> Some (tid, as_text content) | _ \<Rightarrow> None)"

definition picture_in :: "content_block \<Rightarrow> (string \<times> string) option" where
  "picture_in b = (case b of Image media_type data \<Rightarrow> Some (media_type, data) | _ \<Rightarrow> None)"

lemmas block_views = call_in_def result_in_def picture_in_def text_of_def

lemma block_view_simps [simp]:
  "text_of (Text t c) = Some t" "text_of (Image m d) = None" "text_of (ToolUse i n v) = None" "text_of (ToolResult i r e) = None" "text_of (Thinking t g) = None"
  "call_in f (Text t c) = None" "call_in f (Image m d) = None" "call_in f (ToolUse i n v) = Some (i, f n, v)" "call_in f (ToolResult i r e) = None"
  "call_in f (Thinking t g) = None"
  "result_in (Text t c) = None" "result_in (Image m d) = None" "result_in (ToolUse i n v) = None" "result_in (ToolResult i r e) = Some (i, as_text r)"
  "result_in (Thinking t g) = None"
  "picture_in (Text t c) = None" "picture_in (Image m d) = Some (m, d)" "picture_in (ToolUse i n v) = None" "picture_in (ToolResult i r e) = None"
  "picture_in (Thinking t g) = None"
  by (simp_all add: block_views)

lemma texts_simps [simp]: "texts [] = []" "texts (xs @ ys) = texts xs @ texts ys"
  by (simp_all add: texts_def map_filter_append List.map_filter_simps)

lemma views_of_calls:
  "List.map_filter (call_in (\<lambda>n. n)) (map (\<lambda>(tid, name, input). ToolUse tid name input) cs) = cs"
  "List.map_filter result_in (map (\<lambda>(tid, name, input). ToolUse tid name input) cs) = []"
  "List.map_filter picture_in (map (\<lambda>(tid, name, input). ToolUse tid name input) cs) = []"
  "texts (map (\<lambda>(tid, name, input). ToolUse tid name input) cs) = []"
  by (induction cs) (auto simp: List.map_filter_simps block_views texts_def)

lemma views_of_pictures:
  "List.map_filter (call_in (\<lambda>n. n)) (map (\<lambda>(m, d). Image m d) ps) = []"
  "List.map_filter result_in (map (\<lambda>(m, d). Image m d) ps) = []"
  "List.map_filter picture_in (map (\<lambda>(m, d). Image m d) ps) = ps"
  "texts (map (\<lambda>(m, d). Image m d) ps) = []"
  by (induction ps) (auto simp: List.map_filter_simps block_views texts_def)

subsection \<open>Conversations\<close>

record talk =
  tk_words :: "(bool \<times> string) list"
  tk_calls :: "(string \<times> string \<times> json) list"
  tk_results :: "(string \<times> string) list"
  tk_pictures :: "(string \<times> string) list"

definition flat :: "message list \<Rightarrow> content_block list" where
  "flat ms = concat (map msg_content ms)"

definition words_in :: "message list \<Rightarrow> (bool \<times> string) list" where
  "words_in ms = filter (\<lambda>(_, t). t \<noteq> []) (map (\<lambda>m. (msg_role m = RoleAssistant, concat (texts (msg_content m)))) ms)"

definition talk_of :: "(string \<Rightarrow> string) \<Rightarrow> message list \<Rightarrow> talk" where
  "talk_of f ms =
     \<lparr>tk_words = words_in ms, tk_calls = List.map_filter (call_in f) (flat ms), tk_results = List.map_filter result_in (flat ms),
      tk_pictures = List.map_filter picture_in (flat ms)\<rparr>"

definition talk_then :: "talk \<Rightarrow> talk \<Rightarrow> talk" where
  "talk_then a b =
     \<lparr>tk_words = tk_words a @ tk_words b, tk_calls = tk_calls a @ tk_calls b, tk_results = tk_results a @ tk_results b,
      tk_pictures = tk_pictures a @ tk_pictures b\<rparr>"

lemma flat_simps [simp]: "flat [] = []" "flat (m # ms) = msg_content m @ flat ms" "flat (ms @ ns) = flat ms @ flat ns"
  by (simp_all add: flat_def)

lemma words_in_append [simp]: "words_in (ms @ ns) = words_in ms @ words_in ns"
  by (simp add: words_in_def)

lemma talk_of_append: "talk_of f (ms @ ns) = talk_then (talk_of f ms) (talk_of f ns)"
  by (simp add: talk_of_def talk_then_def map_filter_append)

lemma talk_of_Nil: "talk_of f [] = \<lparr>tk_words = [], tk_calls = [], tk_results = [], tk_pictures = []\<rparr>"
  by (simp add: talk_of_def words_in_def List.map_filter_simps)

lemma talk_then_silence [simp]: "talk_then a (talk_of f []) = a" "talk_then (talk_of f []) a = a"
  by (simp_all add: talk_then_def talk_of_Nil)

lemma talk_then_assoc: "talk_then (talk_then a b) c = talk_then a (talk_then b c)"
  by (simp add: talk_then_def)

subsection \<open>Joining the turn before\<close>

definition join_turn :: "role \<Rightarrow> content_block \<Rightarrow> message list \<Rightarrow> message list" where
  "join_turn role block messages =
     (if messages \<noteq> [] \<and> msg_role (last messages) = role
      then butlast messages @ [(last messages)\<lparr>msg_content := msg_content (last messages) @ [block]\<rparr>]
      else messages @ [\<lparr>msg_role = role, msg_content = [block]\<rparr>])"

lemma flat_join_turn [simp]: "flat (join_turn role b ms) = flat ms @ [b]"
proof (cases "ms \<noteq> [] \<and> msg_role (last ms) = role")
  case True
  then have "flat ms = flat (butlast ms) @ msg_content (last ms)"
    by (metis append_butlast_last_id append_Nil2 flat_simps(1,2,3))
  with True show ?thesis by (simp add: join_turn_def)
qed (auto simp: join_turn_def)

lemma words_join_turn:
  assumes "text_of b = None"
  shows "words_in (join_turn role b ms) = words_in ms"
proof -
  have one: "words_in [m\<lparr>msg_content := msg_content m @ [b]\<rparr>] = words_in [m]" for m
    using assms by (simp add: words_in_def) (simp add: texts_def List.map_filter_simps)
  have "words_in [\<lparr>msg_role = role, msg_content = [b]\<rparr>] = []"
    using assms by (simp add: words_in_def texts_def List.map_filter_simps)
  moreover have "words_in ms = words_in (butlast ms) @ words_in [last ms]" if "ms \<noteq> []"
    using that by (metis append_butlast_last_id words_in_append)
  ultimately show ?thesis by (simp add: join_turn_def one)
qed

lemma talk_join_turn:
  "text_of b = None \<Longrightarrow> talk_of f (join_turn role b ms) = talk_then (talk_of f ms) (talk_of f [\<lparr>msg_role = role, msg_content = [b]\<rparr>])"
  by (simp add: talk_of_def talk_then_def words_join_turn map_filter_append) (simp add: words_in_def texts_def List.map_filter_simps)

lemma talk_joined:
  assumes "\<And>b. b \<in> set bs \<Longrightarrow> text_of b = None"
  shows "talk_of f (fold (join_turn role) bs ms) = talk_then (talk_of f ms) (talk_of f [\<lparr>msg_role = role, msg_content = bs\<rparr>])"
  using assms
proof (induction bs arbitrary: ms)
  case Nil
  have "talk_of f [\<lparr>msg_role = role, msg_content = []\<rparr>] = talk_of f []" by (simp add: talk_of_def words_in_def)
  then show ?case by simp
next
  case (Cons b bs)
  have quiet: "texts (b # bs) = []" "texts [b] = []" "texts bs = []" using Cons.prems by (simp_all add: texts_def map_filter_empty)
  have "talk_of f [\<lparr>msg_role = role, msg_content = b # bs\<rparr>] =
      talk_then (talk_of f [\<lparr>msg_role = role, msg_content = [b]\<rparr>]) (talk_of f [\<lparr>msg_role = role, msg_content = bs\<rparr>])"
    by (simp add: talk_of_def talk_then_def words_in_def quiet List.map_filter_simps split: option.split)
  with Cons show ?case by (simp add: talk_join_turn talk_then_assoc)
qed

lemma views_of_results:
  "List.map_filter result_in (map (\<lambda>(tid, t). ToolResult tid (ResultText t) False) rs) = rs"
  "List.map_filter (call_in g) (map (\<lambda>(tid, t). ToolResult tid (ResultText t) False) rs) = []"
  "List.map_filter picture_in (map (\<lambda>(tid, t). ToolResult tid (ResultText t) False) rs) = []"
  "texts (map (\<lambda>(tid, t). ToolResult tid (ResultText t) False) rs) = []"
  by (induction rs) (auto simp: List.map_filter_simps block_views texts_def)

lemma talk_results:
  "talk_of g (fold (join_turn role) (map (\<lambda>(tid, t). ToolResult tid (ResultText t) False) rs) ms) =
     talk_then (talk_of g ms) \<lparr>tk_words = [], tk_calls = [], tk_results = rs, tk_pictures = []\<rparr>"
  by (subst talk_joined) (auto simp: text_of_def talk_of_def words_in_def views_of_results)

lemma talk_calls:
  "talk_of (\<lambda>n. n) (fold (join_turn role) (map (\<lambda>(tid, name, input). ToolUse tid name input) cs) ms) =
     talk_then (talk_of (\<lambda>n. n) ms) \<lparr>tk_words = [], tk_calls = cs, tk_results = [], tk_pictures = []\<rparr>"
  by (subst talk_joined) (auto simp: text_of_def talk_of_def words_in_def views_of_calls)

subsection \<open>Codecs\<close>

locale conversation_codec =
  fixes render :: "message \<Rightarrow> json list"
    and read :: "json \<Rightarrow> 's \<Rightarrow> 's"
    and heard :: "'s \<Rightarrow> message list"
    and beside :: "'s \<Rightarrow> 'r"
    and spelled :: "string \<Rightarrow> string"
    and plain :: "message \<Rightarrow> bool"
  assumes turn: "plain m \<Longrightarrow> beside (fold read (render m) s) = beside s \<and>
      talk_of (\<lambda>n. n) (heard (fold read (render m) s)) = talk_then (talk_of (\<lambda>n. n) (heard s)) (talk_of spelled [m])"
begin

lemma conversation_kept:
  "\<forall>m \<in> set ms. plain m \<Longrightarrow> beside (fold read (concat (map render ms)) s) = beside s \<and>
   talk_of (\<lambda>n. n) (heard (fold read (concat (map render ms)) s)) = talk_then (talk_of (\<lambda>n. n) (heard s)) (talk_of spelled ms)"
proof (induction ms arbitrary: s)
  case (Cons m ms)
  have "talk_of spelled (m # ms) = talk_then (talk_of spelled [m]) (talk_of spelled ms)"
    using talk_of_append [of spelled "[m]" ms] by simp
  with Cons turn [of m s] show ?case by (simp add: talk_then_assoc)
qed simp

end

subsection \<open>Pictures and arguments\<close>

definition data_url :: "string \<Rightarrow> string \<Rightarrow> string" where
  "data_url media_type data = ''data:'' @ media_type @ '';base64,'' @ data"

definition split_data_url :: "string \<Rightarrow> (string \<times> string) option" where
  "split_data_url url = Option.bind (strip_prefix ''data:'' url) (split_once_str '';base64,'')"

lemma split_once_str_first:
  "CHR '';'' \<notin> set m \<Longrightarrow> split_once_str '';base64,'' (m @ '';base64,'' @ d) = Some (m, d)"
  by (induction m) auto

lemma data_url_roundtrip: "CHR '';'' \<notin> set m \<Longrightarrow> split_data_url (data_url m d) = Some (m, d)"
  using split_once_str_first [of m d] by (simp add: split_data_url_def data_url_def strip_prefix_def)

text \<open>What can be said in a dialect that writes arguments as text and pictures as data URLs.\<close>

definition sayable :: "serde \<Rightarrow> content_block \<Rightarrow> bool" where
  "sayable S b =
     (case b of
        Image media_type _ \<Rightarrow> CHR '';'' \<notin> set media_type
      | ToolUse _ _ input \<Rightarrow> from_text S (to_text S input) = Inr input
      | _ \<Rightarrow> True)"

subsection \<open>Depth of reasoning\<close>

definition asked_effort :: "canonical_request \<Rightarrow> effort option" where
  "asked_effort r = (case thinking_effort r of Some e \<Rightarrow> Some e | None \<Rightarrow> map_option from_budget (thinking_budget r))"

subsection \<open>The system prompt as one text\<close>

definition heard_system :: "canonical_request \<Rightarrow> content_block list" where
  "heard_system r = (let t = join_with [CHR 0x0A, CHR 0x0A] (texts (cr_system r)) in if t = [] then [] else [Text t None])"

definition choice_on_wire :: "function_name_map \<Rightarrow> tool_choice \<Rightarrow> tool_choice" where
  "choice_on_wire names c = (case c of ChoiceTool name \<Rightarrow> ChoiceTool (wire_name names name) | _ \<Rightarrow> c)"

end
