(* ===== verification/Responses.thy ===== *)
theory Responses
  imports Conversation
begin

text \<open>
  Requests in the Responses dialect (\<^verbatim>\<open>oag-proto/src/responses.rs\<close>): rendered for an upstream, and read
  from a client. A conversation is a list of items; tool calls and their results are items beside the
  messages, and reading joins them to the turn they belong to.
\<close>

subsection \<open>Rendering a request\<close>

definition resp_result :: "content_block \<Rightarrow> json option" where
  "resp_result b =
     (case b of
        ToolResult tid content _ \<Rightarrow>
          Some (JObj [(''type'', JStr ''function_call_output''), (''call_id'', JStr tid), (''output'', JStr (as_text content))])
      | _ \<Rightarrow> None)"

definition resp_part :: "bool \<Rightarrow> content_block \<Rightarrow> json option" where
  "resp_part assistant b =
     (case b of
        Text t _ \<Rightarrow> Some (JObj [(''type'', JStr (if assistant then ''output_text'' else ''input_text'')), (''text'', JStr t)])
      | Image media_type data \<Rightarrow> Some (JObj [(''type'', JStr ''input_image''), (''image_url'', JStr (data_url media_type data))])
      | _ \<Rightarrow> None)"

definition resp_call :: "serde \<Rightarrow> function_name_map \<Rightarrow> content_block \<Rightarrow> json option" where
  "resp_call S names b =
     (case b of
        ToolUse tid name input \<Rightarrow>
          Some (JObj [(''type'', JStr ''function_call''), (''call_id'', JStr tid), (''name'', JStr (wire_name names name)),
            (''arguments'', JStr (to_text S input))])
      | _ \<Rightarrow> None)"

definition resp_turn :: "message \<Rightarrow> json list" where
  "resp_turn m =
     (let assistant = (msg_role m = RoleAssistant);
          parts = List.map_filter (resp_part assistant) (msg_content m) in
      if parts \<noteq> []
      then [JObj [(''type'', JStr ''message''), (''role'', JStr (if assistant then ''assistant'' else ''user'')), (''content'', JArr parts)]]
      else [])"

definition render_message_into :: "serde \<Rightarrow> function_name_map \<Rightarrow> message \<Rightarrow> json list" where
  "render_message_into S names m =
     List.map_filter resp_result (msg_content m) @ resp_turn m @ List.map_filter (resp_call S names) (msg_content m)"

definition resp_tool :: "function_name_map \<Rightarrow> tool \<Rightarrow> json" where
  "resp_tool names t =
     JObj [(''type'', JStr ''function''), (''name'', JStr (wire_name names (tool_name t))), (''description'', JStr (tool_description t)),
       (''parameters'', input_schema t)]"

definition resp_tool_choice :: "function_name_map \<Rightarrow> tool_choice \<Rightarrow> json" where
  "resp_tool_choice names c =
     (case c of
        ChoiceAuto \<Rightarrow> JStr ''auto''
      | ChoiceRequired \<Rightarrow> JStr ''required''
      | ChoiceNone \<Rightarrow> JStr ''none''
      | ChoiceTool name \<Rightarrow> JObj [(''type'', JStr ''function''), (''name'', JStr (wire_name names name))])"

definition resp_format :: "response_format \<Rightarrow> json" where
  "resp_format f =
     (case f of
        FormatText \<Rightarrow> JObj [(''type'', JStr ''text'')]
      | FormatJsonObject \<Rightarrow> JObj [(''type'', JStr ''json_object'')]
      | FormatJsonSchema name schema strict \<Rightarrow>
          JObj [(''type'', JStr ''json_schema''), (''name'', JStr name), (''schema'', schema), (''strict'', JBool strict)])"

definition resp_render_request :: "serde \<Rightarrow> canonical_request \<Rightarrow> string \<Rightarrow> error + json" where
  "resp_render_request S req upstream_model =
     (let names = names_from_request req;
          body = JObj [(''model'', JStr upstream_model), (''input'', JArr (concat (map (render_message_into S names) (cr_messages req)))),
            (''max_output_tokens'', jnat (cr_max_tokens req)), (''stream'', JBool (cr_stream req))];
          body = set_when (cr_system req \<noteq> []) ''instructions'' (JStr (join_with [CHR 0x0A, CHR 0x0A] (texts (cr_system req)))) body;
          body = set_when (cr_tools req \<noteq> []) ''tools'' (JArr (map (resp_tool names) (cr_tools req))) body;
          body = set_some ''temperature'' (map_option (of_f32 S) (cr_temperature req)) body;
          body = set_some ''reasoning'' (map_option (\<lambda>e. JObj [(''effort'', JStr (effort_as_str e))]) (asked_effort req)) body in
      if cr_stop req \<noteq> [] then Inl (UnsupportedField ''stop'' OpenAIResponses)
      else
        let body = set_some ''tool_choice'' (map_option (resp_tool_choice names) (cr_tool_choice req)) body;
            body = set_some ''text'' (map_option (\<lambda>f. JObj [(''format'', resp_format f)]) (cr_response_format req)) body in
        Inr (set_some ''previous_response_id'' (map_option JStr (previous_response_id req)) body))"

subsection \<open>Reading a request\<close>

definition resp_parse_part :: "json \<Rightarrow> content_block list" where
  "resp_parse_part p =
     (let t = str_or [] (idx p ''type'') in
      if t = ''input_text'' \<or> t = ''output_text'' \<or> t = ''text'' then [Text (str_or [] (idx p ''text'')) None]
      else if t = ''input_image'' then
        (case split_data_url (str_or [] (idx p ''image_url'')) of Some (media_type, data) \<Rightarrow> [Image media_type data] | None \<Rightarrow> [])
      else [])"

definition parse_input_item :: "serde \<Rightarrow> json \<Rightarrow> message list \<Rightarrow> message list" where
  "parse_input_item S item messages =
     (let t = str_or ''message'' (idx item ''type'') in
      if t = ''function_call'' then
        join_turn RoleAssistant (ToolUse (str_or [] (idx item ''call_id'')) (str_or [] (idx item ''name''))
          (case as_str (idx item ''arguments'') of Some a \<Rightarrow> parsed_or S (JObj []) a | None \<Rightarrow> JObj [])) messages
      else if t = ''function_call_output'' then
        join_turn RoleUser (ToolResult (str_or [] (idx item ''call_id''))
          (ResultText (case idx item ''output'' of JStr s \<Rightarrow> s | other \<Rightarrow> to_text S other)) False) messages
      else if t = ''reasoning'' then messages
      else
        let content = (case idx item ''content'' of
              JStr s \<Rightarrow> if s \<noteq> [] then [Text s None] else []
            | JArr parts \<Rightarrow> concat (map resp_parse_part parts)
            | _ \<Rightarrow> []) in
        if content \<noteq> []
        then messages @ [\<lparr>msg_role = (if as_str (idx item ''role'') = Some ''assistant'' then RoleAssistant else RoleUser), msg_content = content\<rparr>]
        else messages)"

definition resp_parse_tool :: "json \<Rightarrow> tool option" where
  "resp_parse_tool t =
     bind_str (idx t ''name'') (\<lambda>name. Some
       \<lparr>tool_name = name, tool_description = str_or [] (idx t ''description''), input_schema = idx t ''parameters'',
        tool_cache_control = None\<rparr>)"

definition resp_parse_tool_choice :: "json \<Rightarrow> tool_choice option" where
  "resp_parse_tool_choice v =
     (case as_str v of
        Some s \<Rightarrow>
          if s = ''auto'' then Some ChoiceAuto
          else if s = ''required'' then Some ChoiceRequired
          else if s = ''none'' then Some ChoiceNone
          else None
      | None \<Rightarrow> map_option ChoiceTool (as_str (idx v ''name'')))"

definition resp_parse_format :: "json \<Rightarrow> response_format option" where
  "resp_parse_format v =
     bind_str (idx v ''type'') (\<lambda>t.
       if t = ''text'' then Some FormatText
       else if t = ''json_object'' then Some FormatJsonObject
       else if t = ''json_schema''
       then Some (FormatJsonSchema (str_or ''response'' (idx v ''name'')) (idx v ''schema'') (bool_or False (idx v ''strict'')))
       else None)"

definition resp_messages :: "serde \<Rightarrow> json \<Rightarrow> message list" where
  "resp_messages S v =
     (case v of
        JStr s \<Rightarrow> [\<lparr>msg_role = RoleUser, msg_content = [Text s None]\<rparr>]
      | JArr xs \<Rightarrow> fold (parse_input_item S) xs []
      | _ \<Rightarrow> [])"

definition resp_parse_request :: "serde \<Rightarrow> json \<Rightarrow> error + canonical_request" where
  "resp_parse_request S body =
     (let effort = bind_str (idx (idx body ''reasoning'') ''effort'') effort_parse in
      Inr \<lparr>cr_model = str_or [] (idx body ''model''),
        cr_system = (case as_str (idx body ''instructions'') of Some t \<Rightarrow> if t \<noteq> [] then [Text t None] else [] | None \<Rightarrow> []),
        cr_messages = resp_messages S (idx body ''input''),
        cr_tools = List.map_filter resp_parse_tool (items (idx body ''tools'')),
        cr_max_tokens = (case Option.bind (as_u64 (idx body ''max_output_tokens'')) u32_try_from of Some n \<Rightarrow> n | None \<Rightarrow> 4096),
        cr_stream = bool_or False (idx body ''stream''),
        cr_temperature = as_f32 S (idx body ''temperature''),
        thinking_budget = map_option as_budget effort,
        thinking_effort = effort,
        cr_client_session = as_str (idx body ''user''),
        cr_tool_choice = resp_parse_tool_choice (idx body ''tool_choice''),
        cr_response_format = resp_parse_format (idx (idx body ''text'') ''format''),
        cr_stop = [],
        previous_response_id = as_str (idx body ''previous_response_id''),
        cr_passthrough = None\<rparr>)"

subsection \<open>What is heard\<close>

lemma read_results:
  "fold (parse_input_item S) (List.map_filter resp_result bs) ms =
     fold (join_turn RoleUser) (map (\<lambda>(tid, t). ToolResult tid (ResultText t) False) (List.map_filter result_in bs)) ms"
  by (induction bs arbitrary: ms)
    (auto simp: List.map_filter_simps resp_result_def result_in_def parse_input_item_def json_simps Let_def split: content_block.splits)

lemma read_calls:
  "\<forall>b \<in> set bs. sayable S b \<Longrightarrow> fold (parse_input_item S) (List.map_filter (resp_call S names) bs) ms =
     fold (join_turn RoleAssistant) (map (\<lambda>(tid, name, input). ToolUse tid name input) (List.map_filter (call_in (wire_name names)) bs)) ms"
  by (induction bs arbitrary: ms)
    (auto simp: List.map_filter_simps resp_call_def call_in_def parse_input_item_def json_simps Let_def sayable_def parsed_or_def
      split: content_block.splits)

lemma resp_part_simps:
  "resp_part w (Text t c) = Some (JObj [(''type'', JStr (if w then ''output_text'' else ''input_text'')), (''text'', JStr t)])"
  "resp_part w (Image m d) = Some (JObj [(''type'', JStr ''input_image''), (''image_url'', JStr (data_url m d))])"
  "resp_part w (ToolUse i n v) = None" "resp_part w (ToolResult i r e) = None" "resp_part w (Thinking t g) = None"
  by (simp_all add: resp_part_def)

lemma read_part:
  "sayable S b \<Longrightarrow> concat (map resp_parse_part (List.map_filter (resp_part assistant) (b # bs))) =
     (case b of Text t _ \<Rightarrow> [Text t None] | Image m d \<Rightarrow> [Image m d] | _ \<Rightarrow> []) @
     concat (map resp_parse_part (List.map_filter (resp_part assistant) bs))"
  by (cases b) (simp_all add: List.map_filter_simps resp_part_def resp_parse_part_def sayable_def data_url_roundtrip json_simps Let_def)

lemma read_parts:
  fixes assistant :: bool
  assumes "\<forall>b \<in> set bs. sayable S b"
  defines "c \<equiv> concat (map resp_parse_part (List.map_filter (resp_part assistant) bs))"
  shows "texts c = texts bs" and "List.map_filter picture_in c = List.map_filter picture_in bs"
    and "List.map_filter (call_in f) c = []" and "List.map_filter result_in c = []"
    and "c = [] \<longleftrightarrow> List.map_filter (resp_part assistant) bs = []"
proof -
  have "texts c = texts bs \<and> List.map_filter picture_in c = List.map_filter picture_in bs \<and>
      List.map_filter (call_in f) c = [] \<and> List.map_filter result_in c = [] \<and> (c = [] \<longleftrightarrow> List.map_filter (resp_part assistant) bs = [])"
    using assms(1) unfolding c_def
  proof (induction bs)
    case (Cons b bs)
    from Cons show ?case
      unfolding read_part [OF bspec [OF Cons.prems list.set_intros(1)]]
      by (cases b) (simp_all add: List.map_filter_simps texts_def resp_part_simps)
  qed (simp add: List.map_filter_simps)
  then show "texts c = texts bs" "List.map_filter picture_in c = List.map_filter picture_in bs"
    "List.map_filter (call_in f) c = []" "List.map_filter result_in c = []" "c = [] \<longleftrightarrow> List.map_filter (resp_part assistant) bs = []"
    by simp_all
qed

lemma resp_turn_kept:
  assumes "\<forall>b \<in> set (msg_content m). sayable S b"
  shows "talk_of (\<lambda>n. n) (fold (parse_input_item S) (render_message_into S names m) ms) =
    talk_then (talk_of (\<lambda>n. n) ms) (talk_of (wire_name names) [m])"
proof -
  let ?bs = "msg_content m" and ?who = "msg_role m = RoleAssistant"
  note parts = read_parts [OF assms, where assistant = ?who]
  have turn: "talk_of (\<lambda>n. n) (fold (parse_input_item S) (resp_turn m) x) = talk_then (talk_of (\<lambda>n. n) x)
      \<lparr>tk_words = words_in [m], tk_calls = [], tk_results = [], tk_pictures = List.map_filter picture_in ?bs\<rparr>" for x
  proof (cases "List.map_filter (resp_part ?who) ?bs = []")
    case True
    then have "fold (parse_input_item S) (resp_turn m) x = x" "texts ?bs = []" "List.map_filter picture_in ?bs = []"
      using parts(1,2) by (auto simp: resp_turn_def List.map_filter_simps)
    then show ?thesis by (simp add: words_in_def talk_then_def)
  next
    case False
    define c where "c = concat (map resp_parse_part (List.map_filter (resp_part ?who) ?bs))"
    have "fold (parse_input_item S) (resp_turn m) x = x @ [\<lparr>msg_role = (if ?who then RoleAssistant else RoleUser), msg_content = c\<rparr>]"
      using False parts(5) by (auto simp: resp_turn_def parse_input_item_def json_simps Let_def c_def)
    moreover have "talk_of (\<lambda>n. n) [\<lparr>msg_role = (if ?who then RoleAssistant else RoleUser), msg_content = c\<rparr>] =
        \<lparr>tk_words = words_in [m], tk_calls = [], tk_results = [], tk_pictures = List.map_filter picture_in ?bs\<rparr>"
      using parts [folded c_def] by (simp add: talk_of_def words_in_def)
    ultimately show ?thesis by (simp add: talk_of_append)
  qed
  show ?thesis
    by (simp add: render_message_into_def read_results read_calls [OF assms] talk_results talk_calls turn talk_then_assoc)
      (simp add: talk_then_def talk_of_def)
qed

interpretation resp_turns: conversation_codec "render_message_into S names" "parse_input_item S" "\<lambda>ms. ms" "\<lambda>_. ()" "wire_name names"
  "\<lambda>m. \<forall>b \<in> set (msg_content m). sayable S b" for S names
  by unfold_locales (simp add: resp_turn_kept)

lemma resp_tool_back: "resp_parse_tool (resp_tool names t) =
    Some (t\<lparr>tool_name := wire_name names (tool_name t), tool_cache_control := None\<rparr>)"
  by (simp add: resp_parse_tool_def resp_tool_def json_simps)

lemma resp_choice_back: "resp_parse_tool_choice (resp_tool_choice names c) = Some (choice_on_wire names c)"
  by (cases c) (simp_all add: resp_parse_tool_choice_def resp_tool_choice_def choice_on_wire_def json_simps)

lemma resp_format_back: "resp_parse_format (resp_format f) = Some f"
  by (cases f) (simp_all add: resp_parse_format_def resp_format_def json_simps)

lemma resp_absent [simp]: "resp_parse_tool_choice JNull = None" "resp_parse_format JNull = None"
  by (simp_all add: resp_parse_tool_choice_def resp_parse_format_def json_simps)

text \<open>
  A request rendered for an upstream of this dialect keeps what the dialect can say of its conversation: read
  back, each in its order, the words of every turn with their speaker, every call with its arguments and its
  function in the wire spelling, every tool result as its text, and every picture that stands in a turn and
  not in a result; every limit and switch is unchanged, the id of the response it continues included; and
  the words to stop at, which the dialect cannot say, are refused by name. Meant are media types without
  a semicolon and arguments the serialiser reads back.
\<close>

theorem responses_request_keeps_the_conversation:
  fixes r :: canonical_request
  defines "names \<equiv> names_from_request r"
  assumes "cr_max_tokens r \<le> u32_max" and "\<forall>t. cr_temperature r = Some t \<longrightarrow> as_f32 S (of_f32 S t) = Some t"
    and "\<forall>m \<in> set (cr_messages r). \<forall>b \<in> set (msg_content m). sayable S b"
  shows "(case resp_render_request S r m of
      Inl e \<Rightarrow> e = UnsupportedField ''stop'' OpenAIResponses \<and> cr_stop r \<noteq> []
    | Inr body \<Rightarrow> cr_stop r = [] \<and> (\<exists>r'. resp_parse_request S body = Inr r' \<and>
        talk_of (\<lambda>n. n) (cr_messages r') = talk_of (wire_name names) (cr_messages r) \<and>
        r' = r\<lparr>cr_model := m, cr_system := heard_system r, cr_messages := cr_messages r',
          cr_tools := map (\<lambda>t. t\<lparr>tool_name := wire_name names (tool_name t), tool_cache_control := None\<rparr>) (cr_tools r),
          thinking_budget := map_option as_budget (asked_effort r), thinking_effort := asked_effort r, cr_client_session := None,
          cr_tool_choice := map_option (choice_on_wire names) (cr_tool_choice r), cr_passthrough := None\<rparr>))"
proof (cases "resp_render_request S r m")
  case (Inl e)
  then show ?thesis by (auto simp: resp_render_request_def Let_def split: if_splits)
next
  case (Inr body)
  let ?items = "concat (map (render_message_into S names) (cr_messages r))"
  define v where "v = set_some ''temperature'' (map_option (of_f32 S) (cr_temperature r))
    (set_when (cr_tools r \<noteq> []) ''tools'' (JArr (map (resp_tool names) (cr_tools r)))
      (set_when (cr_system r \<noteq> []) ''instructions'' (JStr (join_with [CHR 0x0A, CHR 0x0A] (texts (cr_system r))))
        (JObj [(''model'', JStr m), (''input'', JArr ?items), (''max_output_tokens'', jnat (cr_max_tokens r)), (''stream'', JBool (cr_stream r))])))"
  have ok: "cr_stop r = []" and body: "body = set_some ''previous_response_id'' (map_option JStr (previous_response_id r))
      (set_some ''text'' (map_option (\<lambda>f. JObj [(''format'', resp_format f)]) (cr_response_format r))
        (set_some ''tool_choice'' (map_option (resp_tool_choice names) (cr_tool_choice r))
          (set_some ''reasoning'' (map_option (\<lambda>e. JObj [(''effort'', JStr (effort_as_str e))]) (asked_effort r)) v)))"
    using Inr by (auto simp: resp_render_request_def Let_def v_def names_def split: if_splits)
  have obj: "is_object v" by (simp add: v_def json_simps)
  have bv: "idx body k = idx v k" if "k \<notin> {''previous_response_id'', ''text'', ''tool_choice'', ''reasoning''}" for k
    using that obj by (simp add: body json_simps split: option.split)
  let ?ms = "fold (parse_input_item S) ?items []"
  let ?r' = "r\<lparr>cr_model := m, cr_system := heard_system r, cr_messages := ?ms,
    cr_tools := map (\<lambda>t. t\<lparr>tool_name := wire_name names (tool_name t), tool_cache_control := None\<rparr>) (cr_tools r),
    thinking_budget := map_option as_budget (asked_effort r), thinking_effort := asked_effort r, cr_client_session := None,
    cr_tool_choice := map_option (choice_on_wire names) (cr_tool_choice r), cr_passthrough := None\<rparr>"
  have top: "idx body ''model'' = JStr m" "idx body ''user'' = JNull" "idx body ''stream'' = JBool (cr_stream r)"
    "idx body ''input'' = JArr ?items" "idx body ''max_output_tokens'' = jnat (cr_max_tokens r)"
    by (simp_all add: bv) (simp_all add: v_def json_simps split: option.split)
  have system: "(case as_str (idx body ''instructions'') of Some t \<Rightarrow> if t \<noteq> [] then [Text t None] else [] | None \<Rightarrow> []) = heard_system r"
    by (simp add: bv) (auto simp: v_def json_simps heard_system_def Let_def split: option.split)
  have fields: "List.map_filter resp_parse_tool (items (idx body ''tools'')) = cr_tools ?r'" "as_f32 S (idx body ''temperature'') = cr_temperature r"
    using assms(3) by (simp_all add: bv) (auto simp: v_def json_simps map_filter_map resp_tool_back map_filter_all as_f32_def split: option.split)
  have absent: "idx v ''previous_response_id'' = JNull" "idx v ''text'' = JNull" "idx v ''tool_choice'' = JNull" "idx v ''reasoning'' = JNull"
    by (simp_all add: v_def json_simps split: option.split)
  have late: "bind_str (idx (idx body ''reasoning'') ''effort'') effort_parse = asked_effort r"
    "resp_parse_tool_choice (idx body ''tool_choice'') = cr_tool_choice ?r'"
    "resp_parse_format (idx (idx body ''text'') ''format'') = cr_response_format r"
    "as_str (idx body ''previous_response_id'') = previous_response_id r"
    using obj by (simp_all add: body json_simps absent resp_choice_back resp_format_back effort_as_str_parse split: option.split)
  have "resp_parse_request S body = Inr ?r'"
    using top system fields late ok assms(2) u32_fits_u64 [OF assms(2)]
    by (simp add: resp_parse_request_def Let_def json_simps u32_try_from_fits resp_messages_def)
  moreover have "talk_of (\<lambda>n. n) ?ms = talk_of (wire_name names) (cr_messages r)"
    using resp_turns.conversation_kept [OF assms(4), of names "[]"] by simp
  ultimately show ?thesis using Inr ok by auto
qed

theorem responses_request_keeps_the_conversation_witness:
  "\<exists>body r'. resp_render_request tiny_serde (spoken_request\<lparr>cr_stop := []\<rparr>) ''gpt-5'' = Inr body \<and>
     resp_parse_request tiny_serde body = Inr r' \<and> tk_results (talk_of (\<lambda>n. n) (cr_messages r')) = [(''call.1'', ''ok'')]"
proof -
  let ?r = "spoken_request\<lparr>cr_stop := []\<rparr>"
  have "cr_max_tokens ?r \<le> u32_max" "cr_stop ?r = []"
    "\<forall>t. cr_temperature ?r = Some t \<longrightarrow> as_f32 tiny_serde (of_f32 tiny_serde t) = Some t"
    "\<forall>m \<in> set (cr_messages ?r). \<forall>b \<in> set (msg_content m). sayable tiny_serde b"
    "List.map_filter result_in (flat (cr_messages ?r)) = [(''call.1'', ''ok'')]"
    by (simp_all add: spoken_request_def u32_max_def tiny_serde_def as_f32_def sayable_def result_in_def List.map_filter_simps)
  then show ?thesis
    using responses_request_keeps_the_conversation [of ?r tiny_serde "''gpt-5''"]
    by (auto simp: talk_of_def split: sum.splits)
qed

end
