(* ===== verification/Completions.thy ===== *)
theory Completions
  imports Conversation
begin

text \<open>
  Requests in the OpenAI Chat Completions dialect (\<^verbatim>\<open>oag-proto/src/openai.rs\<close>): a turn of the hub becomes
  one message for its words and calls and one for each result, and back.
\<close>

subsection \<open>Rendering a request\<close>

definition reasoning_model :: "string \<Rightarrow> bool" where
  "reasoning_model upstream_model =
     (let name = last (split_at {CHR ''/''} upstream_model) in
      (case strip_prefix ''o'' name of Some (d # _) \<Rightarrow> is_digit d | _ \<Rightarrow> False) \<or>
      (case strip_prefix ''gpt-'' name of
         Some rest \<Rightarrow> (case parse_u32 (hd (split_at {CHR ''.'', CHR ''-''} rest)) of Some major \<Rightarrow> 5 \<le> major | None \<Rightarrow> False)
       | None \<Rightarrow> False))"

definition chat_result :: "content_block \<Rightarrow> json option" where
  "chat_result b =
     (case b of
        ToolResult tid content _ \<Rightarrow>
          Some (JObj [(''role'', JStr ''tool''), (''tool_call_id'', JStr tid), (''content'', JStr (as_text content))])
      | _ \<Rightarrow> None)"

definition chat_call :: "serde \<Rightarrow> function_name_map \<Rightarrow> content_block \<Rightarrow> json option" where
  "chat_call S names b =
     (case b of
        ToolUse tid name input \<Rightarrow>
          Some (JObj [(''id'', JStr tid), (''type'', JStr ''function''),
            (''function'', JObj [(''name'', JStr (wire_name names name)), (''arguments'', JStr (to_text S input))])])
      | _ \<Rightarrow> None)"

definition chat_image :: "content_block \<Rightarrow> json option" where
  "chat_image b =
     (case b of
        Image media_type data \<Rightarrow>
          Some (JObj [(''type'', JStr ''image_url''), (''image_url'', JObj [(''url'', JStr (data_url media_type data))])])
      | _ \<Rightarrow> None)"

definition chat_turn :: "serde \<Rightarrow> function_name_map \<Rightarrow> message \<Rightarrow> json list" where
  "chat_turn S names m =
     (let t = concat (texts (msg_content m));
          calls = List.map_filter (chat_call S names) (msg_content m);
          images = List.map_filter chat_image (msg_content m) in
      if t = [] \<and> calls = [] \<and> images = [] then []
      else
        let msg = JObj [(''role'', JStr (case msg_role m of RoleAssistant \<Rightarrow> ''assistant'' | RoleSystem \<Rightarrow> ''system'' | _ \<Rightarrow> ''user''))];
            msg = set_member ''content''
              (if images = [] then JStr t else JArr (JObj [(''type'', JStr ''text''), (''text'', JStr t)] # images)) msg in
        [set_when (calls \<noteq> []) ''tool_calls'' (JArr calls) msg])"

definition chat_render_message :: "serde \<Rightarrow> function_name_map \<Rightarrow> message \<Rightarrow> json list" where
  "chat_render_message S names m = List.map_filter chat_result (msg_content m) @ chat_turn S names m"

definition chat_system :: "content_block list \<Rightarrow> json list" where
  "chat_system system =
     (let t = join_with [CHR 0x0A, CHR 0x0A] (texts system) in
      if t \<noteq> [] then [JObj [(''role'', JStr ''system''), (''content'', JStr t)]] else [])"

definition chat_tool_choice :: "function_name_map \<Rightarrow> tool_choice \<Rightarrow> json" where
  "chat_tool_choice names c =
     (case c of
        ChoiceAuto \<Rightarrow> JStr ''auto''
      | ChoiceRequired \<Rightarrow> JStr ''required''
      | ChoiceNone \<Rightarrow> JStr ''none''
      | ChoiceTool name \<Rightarrow> JObj [(''type'', JStr ''function''), (''function'', JObj [(''name'', JStr (wire_name names name))])])"

definition chat_response_format :: "response_format \<Rightarrow> json" where
  "chat_response_format f =
     (case f of
        FormatText \<Rightarrow> JObj [(''type'', JStr ''text'')]
      | FormatJsonObject \<Rightarrow> JObj [(''type'', JStr ''json_object'')]
      | FormatJsonSchema name schema strict \<Rightarrow>
          JObj [(''type'', JStr ''json_schema''),
            (''json_schema'', JObj [(''name'', JStr name), (''schema'', schema), (''strict'', JBool strict)])])"

definition chat_tool :: "function_name_map \<Rightarrow> tool \<Rightarrow> json" where
  "chat_tool names t =
     JObj [(''type'', JStr ''function''),
       (''function'', JObj [(''name'', JStr (wire_name names (tool_name t))), (''description'', JStr (tool_description t)),
         (''parameters'', input_schema t)])]"

definition chat_render_request :: "serde \<Rightarrow> canonical_request \<Rightarrow> string \<Rightarrow> error + json" where
  "chat_render_request S req upstream_model =
     (let names = names_from_request req;
          messages = chat_system (cr_system req) @ concat (map (chat_render_message S names) (cr_messages req));
          body = JObj [(''model'', JStr upstream_model), (''messages'', JArr messages), (''stream'', JBool (cr_stream req))];
          body = set_member (if reasoning_model upstream_model then ''max_completion_tokens'' else ''max_tokens'')
            (jnat (cr_max_tokens req)) body;
          body = set_some ''reasoning_effort'' (map_option (\<lambda>e. JStr (effort_as_str e)) (asked_effort req)) body;
          body = set_when (cr_stream req) ''stream_options'' (JObj [(''include_usage'', JBool True)]) body;
          body = set_when (cr_tools req \<noteq> []) ''tools'' (JArr (map (chat_tool names) (cr_tools req))) body;
          body = set_some ''temperature'' (map_option (of_f32 S) (cr_temperature req)) body in
      if previous_response_id req \<noteq> None then Inl (UnsupportedField ''previous_response_id'' OpenAIChatCompletions)
      else
        let body = set_some ''tool_choice'' (map_option (chat_tool_choice names) (cr_tool_choice req)) body;
            body = set_some ''response_format'' (map_option chat_response_format (cr_response_format req)) body in
        Inr (set_when (cr_stop req \<noteq> []) ''stop'' (JArr (map JStr (cr_stop req))) body))"

subsection \<open>Reading a request\<close>

definition chat_parse_tool_choice :: "json \<Rightarrow> tool_choice option" where
  "chat_parse_tool_choice v =
     (case as_str v of
        Some s \<Rightarrow>
          if s = ''auto'' then Some ChoiceAuto
          else if s = ''required'' \<or> s = ''any'' then Some ChoiceRequired
          else if s = ''none'' then Some ChoiceNone
          else None
      | None \<Rightarrow>
          (case as_str (idx (idx v ''function'') ''name'') of
             Some name \<Rightarrow> Some (ChoiceTool name)
           | None \<Rightarrow> map_option ChoiceTool (as_str (idx v ''name''))))"

definition chat_parse_response_format :: "json \<Rightarrow> response_format option" where
  "chat_parse_response_format v =
     bind_str (idx v ''type'') (\<lambda>t.
       if t = ''text'' then Some FormatText
       else if t = ''json_object'' then Some FormatJsonObject
       else if t = ''json_schema'' then
         (let s = idx v ''json_schema'' in
          Some (FormatJsonSchema (str_or ''response'' (idx s ''name'')) (idx s ''schema'') (bool_or False (idx s ''strict''))))
       else None)"

definition chat_parse_stop :: "json \<Rightarrow> string list" where
  "chat_parse_stop v = (case v of JStr s \<Rightarrow> [s] | JArr xs \<Rightarrow> List.map_filter as_str xs | _ \<Rightarrow> [])"

definition chat_part :: "json \<Rightarrow> content_block list" where
  "chat_part p =
     (let t = str_or [] (idx p ''type'') in
      if t = ''text'' then [Text (str_or [] (idx p ''text'')) None]
      else if t = ''image_url'' then
        (case split_data_url (str_or [] (idx (idx p ''image_url'') ''url'')) of
           Some (media_type, data) \<Rightarrow> [Image media_type data]
         | None \<Rightarrow> [])
      else [])"

definition chat_parse_call :: "serde \<Rightarrow> json \<Rightarrow> content_block" where
  "chat_parse_call S call =
     ToolUse (str_or [] (idx call ''id'')) (str_or [] (idx (idx call ''function'') ''name''))
       (case as_str (idx (idx call ''function'') ''arguments'') of Some a \<Rightarrow> parsed_or S (JObj []) a | None \<Rightarrow> JObj [])"

definition chat_parse_message :: "serde \<Rightarrow> json \<Rightarrow> content_block list \<times> message list \<Rightarrow> content_block list \<times> message list" where
  "chat_parse_message S m = (\<lambda>(system, messages).
     let role = str_or ''user'' (idx m ''role'') in
     if role = ''system'' \<or> role = ''developer'' then
       (system @ (case idx m ''content'' of
           JStr t \<Rightarrow> [Text t None]
         | JArr parts \<Rightarrow> List.map_filter (\<lambda>p. map_option (\<lambda>t. Text t None) (as_str (idx p ''text''))) parts
         | _ \<Rightarrow> []), messages)
     else if role = ''tool'' then
       (system, join_turn RoleUser (ToolResult (str_or [] (idx m ''tool_call_id''))
          (ResultText (case idx m ''content'' of
             JStr s \<Rightarrow> s
           | JArr parts \<Rightarrow> join_with [CHR 0x0A] (List.map_filter (\<lambda>p. as_str (idx p ''text'')) parts)
           | other \<Rightarrow> to_text S other)) False) messages)
     else
       let content = (case idx m ''content'' of
             JStr s \<Rightarrow> if s \<noteq> [] then [Text s None] else []
           | JArr parts \<Rightarrow> concat (map chat_part parts)
           | _ \<Rightarrow> []) @ map (chat_parse_call S) (items (idx m ''tool_calls'')) in
       (system, if content = [] then messages
          else messages @ [\<lparr>msg_role = (if idx m ''role'' = JStr ''assistant'' then RoleAssistant else RoleUser), msg_content = content\<rparr>]))"

definition chat_parse_tool :: "json \<Rightarrow> tool option" where
  "chat_parse_tool v =
     (let f = idx v ''function'' in
      bind_str (idx f ''name'') (\<lambda>name. Some
        \<lparr>tool_name = name, tool_description = str_or [] (idx f ''description''), input_schema = idx f ''parameters'',
         tool_cache_control = None\<rparr>))"

definition chat_parse_request :: "serde \<Rightarrow> json \<Rightarrow> error + canonical_request" where
  "chat_parse_request S body =
     (case fold (chat_parse_message S) (items (idx body ''messages'')) ([], []) of (system, messages) \<Rightarrow>
      let max_tokens = (case as_u64 (idx body ''max_completion_tokens'') of Some n \<Rightarrow> n | None \<Rightarrow> u64_or 4096 (idx body ''max_tokens'')) in
      Inr \<lparr>cr_model = str_or [] (idx body ''model''),
        cr_system = system,
        cr_messages = messages,
        cr_tools = List.map_filter chat_parse_tool (items (idx body ''tools'')),
        cr_max_tokens = (case u32_try_from max_tokens of Some n \<Rightarrow> n | None \<Rightarrow> 4096),
        cr_stream = bool_or False (idx body ''stream''),
        cr_temperature = as_f32 S (idx body ''temperature''),
        thinking_budget = None,
        thinking_effort = bind_str (idx body ''reasoning_effort'') effort_parse,
        cr_client_session = as_str (idx body ''user''),
        cr_tool_choice = chat_parse_tool_choice (idx body ''tool_choice''),
        cr_response_format = chat_parse_response_format (idx body ''response_format''),
        cr_stop = chat_parse_stop (idx body ''stop''),
        previous_response_id = None,
        cr_passthrough = None\<rparr>)"

subsection \<open>What is heard\<close>

lemma parse_result:
  assumes "result_in b = Some (tid, t)"
  shows "\<exists>v. chat_result b = Some v \<and>
    chat_parse_message S v (system, ms) = (system, join_turn RoleUser (ToolResult tid (ResultText t) False) ms)"
  using assms by (cases b) (auto simp: result_in_def chat_result_def chat_parse_message_def json_simps)

lemma parse_results:
  "fold (chat_parse_message S) (List.map_filter chat_result bs) (system, ms) =
     (system, fold (join_turn RoleUser) (map (\<lambda>(tid, t). ToolResult tid (ResultText t) False) (List.map_filter result_in bs)) ms)"
proof (induction bs arbitrary: ms)
  case (Cons b bs)
  show ?case
  proof (cases "result_in b")
    case None
    then have "chat_result b = None" by (cases b) (simp_all add: result_in_def chat_result_def)
    with None Cons.IH show ?thesis by (simp add: List.map_filter_simps)
  next
    case (Some r)
    with Cons.IH parse_result [of b "fst r" "snd r" S system ms] show ?thesis
      by (auto simp: List.map_filter_simps split_beta)
  qed
qed (simp add: List.map_filter_simps)

lemma parse_images:
  assumes "\<forall>b \<in> set bs. sayable S b"
  shows "concat (map chat_part (List.map_filter chat_image bs)) = map (\<lambda>(m, d). Image m d) (List.map_filter picture_in bs)"
  using assms
  by (induction bs) (auto simp: List.map_filter_simps chat_image_def picture_in_def chat_part_def sayable_def json_simps
      data_url_roundtrip Let_def split: content_block.splits)

lemma parse_calls:
  assumes "\<forall>b \<in> set bs. sayable S b"
  shows "map (chat_parse_call S) (List.map_filter (chat_call S names) bs) =
    map (\<lambda>(tid, name, input). ToolUse tid name input) (List.map_filter (call_in (wire_name names)) bs)"
  using assms
  by (induction bs) (auto simp: List.map_filter_simps chat_call_def call_in_def chat_parse_call_def sayable_def json_simps
      parsed_or_def split: content_block.splits)

definition plain_turn :: "serde \<Rightarrow> message \<Rightarrow> bool" where
  "plain_turn S m \<longleftrightarrow> msg_role m \<noteq> RoleSystem \<and> (\<forall>b \<in> set (msg_content m). sayable S b)"

lemma parse_turn:
  assumes "plain_turn S m"
  defines "bs \<equiv> msg_content m"
  shows "\<exists>ms'. fold (chat_parse_message S) (chat_turn S names m) (system, ms) = (system, ms @ ms') \<and>
     List.map_filter result_in (flat ms') = [] \<and>
     List.map_filter (call_in (\<lambda>n. n)) (flat ms') = List.map_filter (call_in (wire_name names)) bs \<and>
     List.map_filter picture_in (flat ms') = List.map_filter picture_in bs \<and> words_in ms' = words_in [m]"
proof -
  let ?t = "concat (texts bs)" and ?calls = "List.map_filter (chat_call S names) bs" and ?images = "List.map_filter chat_image bs"
  let ?cs = "List.map_filter (call_in (wire_name names)) bs" and ?ps = "List.map_filter picture_in bs"
  have said: "\<forall>b \<in> set bs. sayable S b" and role: "msg_role m \<noteq> RoleSystem" using assms by (simp_all add: plain_turn_def)
  have cs: "?calls = [] \<longleftrightarrow> ?cs = []"
    by (auto simp: map_filter_empty chat_call_def call_in_def split: content_block.splits)
  have ps: "?images = [] \<longleftrightarrow> ?ps = []"
    by (auto simp: map_filter_empty chat_image_def picture_in_def split: content_block.splits)
  show ?thesis
  proof (cases "?t = [] \<and> ?calls = [] \<and> ?images = []")
    case True
    with cs ps show ?thesis
      by (intro exI [of _ "[]"]) (simp add: chat_turn_def bs_def [symmetric] words_in_def List.map_filter_simps)
  next
    case False
    define said where "said = (if ?images = [] then (if ?t = [] then [] else [Text ?t None]) else [Text ?t None])"
    let ?content = "said @ map (\<lambda>(m, d). Image m d) ?ps @ map (\<lambda>(tid, name, input). ToolUse tid name input) ?cs"
    let ?m = "\<lparr>msg_role = (if msg_role m = RoleAssistant then RoleAssistant else RoleUser), msg_content = ?content\<rparr>"
    have "?content \<noteq> []" using False cs ps by (auto simp: said_def)
    then have "fold (chat_parse_message S) (chat_turn S names m) (system, ms) = (system, ms @ [?m])"
      using False ps parse_images [OF said] parse_calls [OF said, of names] role
      by (cases "msg_role m") (auto simp: chat_turn_def chat_parse_message_def json_simps said_def Let_def bs_def chat_part_def)
    moreover have "concat (texts said) = ?t" by (auto simp: said_def texts_def List.map_filter_simps text_of_def)
    moreover have "List.map_filter result_in said = []" "List.map_filter (call_in (\<lambda>n. n)) said = []" "List.map_filter picture_in said = []"
      by (simp_all add: said_def List.map_filter_simps block_views)
    ultimately show ?thesis
      by (intro exI [of _ "[?m]"]) (simp add: map_filter_append views_of_calls views_of_pictures words_in_def bs_def)
  qed
qed

lemma chat_turn_kept:
  assumes "plain_turn S m"
  shows "fst (fold (chat_parse_message S) (chat_render_message S names m) s) = fst s \<and>
    talk_of (\<lambda>n. n) (snd (fold (chat_parse_message S) (chat_render_message S names m) s)) =
      talk_then (talk_of (\<lambda>n. n) (snd s)) (talk_of (wire_name names) [m])"
proof -
  obtain system ms where s: "s = (system, ms)" by force
  define ms1 where "ms1 = fold (join_turn RoleUser) (map (\<lambda>(tid, t). ToolResult tid (ResultText t) False) (List.map_filter result_in (msg_content m))) ms"
  have one: "fold (chat_parse_message S) (List.map_filter chat_result (msg_content m)) (system, ms) = (system, ms1)"
    by (simp add: ms1_def parse_results)
  have talk1: "talk_of (\<lambda>n. n) ms1 = talk_then (talk_of (\<lambda>n. n) ms)
      \<lparr>tk_words = [], tk_calls = [], tk_results = List.map_filter result_in (msg_content m), tk_pictures = []\<rparr>"
    by (simp add: ms1_def talk_results)
  from parse_turn [OF assms, of names system ms1] talk1 one show ?thesis
    by (auto simp: s chat_render_message_def talk_of_append talk_then_assoc) (simp_all add: talk_of_def talk_then_def)
qed

interpretation chat_turns: conversation_codec "chat_render_message S names" "chat_parse_message S" snd fst "wire_name names" "plain_turn S"
  for S names
  by unfold_locales (rule chat_turn_kept)

lemma parse_system: "fold (chat_parse_message S) (chat_system (cr_system r)) ([], []) = (heard_system r, [])"
  by (simp add: chat_system_def heard_system_def chat_parse_message_def json_simps Let_def)

lemma parse_render_chat_tool: "chat_parse_tool (chat_tool names t) =
    Some (t\<lparr>tool_name := wire_name names (tool_name t), tool_cache_control := None\<rparr>)"
  by (simp add: chat_parse_tool_def chat_tool_def json_simps Let_def)

lemma parse_render_choice: "chat_parse_tool_choice (chat_tool_choice names c) = Some (choice_on_wire names c)"
  by (cases c) (simp_all add: chat_parse_tool_choice_def chat_tool_choice_def choice_on_wire_def json_simps)

lemma parse_render_format: "chat_parse_response_format (chat_response_format f) = Some f"
  by (cases f) (simp_all add: chat_parse_response_format_def chat_response_format_def json_simps Let_def)

lemma absent_fields [simp]: "chat_parse_tool_choice JNull = None" "chat_parse_response_format JNull = None" "chat_parse_stop JNull = []"
  by (simp_all add: chat_parse_tool_choice_def chat_parse_response_format_def chat_parse_stop_def json_simps)

text \<open>
  C23. A request rendered for an upstream of this dialect keeps what the dialect can say of its conversation. For
  conversations with no system turn among the messages, whose pictures have a media type without a
  semicolon and whose call arguments the serialiser reads back as it wrote them, reading the body back
  gives, each in its order: the words of every turn that has any, with their speaker; every call with
  its id, its arguments and its function name in the wire spelling; every tool result under its call's
  id, as its text; and every picture that stands in a turn. What a result holds besides text (a
  picture in it, its error mark) and the reasoning are not kept. The limits and
  switches of the request are unchanged, the ceiling under whichever name the model takes; the system
  prompt is one text, a thinking budget is its effort, cache marks are gone; and the one field the dialect
  cannot say is refused by name.
\<close>

theorem chat_request_keeps_the_conversation:
  fixes r :: canonical_request
  defines "names \<equiv> names_from_request r"
  assumes "cr_max_tokens r \<le> u32_max" and "\<forall>t. cr_temperature r = Some t \<longrightarrow> as_f32 S (of_f32 S t) = Some t"
    and "\<forall>m \<in> set (cr_messages r). plain_turn S m"
  shows "(case chat_render_request S r m of
      Inl e \<Rightarrow> e = UnsupportedField ''previous_response_id'' OpenAIChatCompletions \<and> previous_response_id r \<noteq> None
    | Inr body \<Rightarrow> previous_response_id r = None \<and> (\<exists>r'. chat_parse_request S body = Inr r' \<and>
        talk_of (\<lambda>n. n) (cr_messages r') = talk_of (wire_name names) (cr_messages r) \<and>
        r' = r\<lparr>cr_model := m, cr_system := heard_system r, cr_messages := cr_messages r',
          cr_tools := map (\<lambda>t. t\<lparr>tool_name := wire_name names (tool_name t), tool_cache_control := None\<rparr>) (cr_tools r),
          thinking_budget := None, thinking_effort := asked_effort r, cr_client_session := None,
          cr_tool_choice := map_option (choice_on_wire names) (cr_tool_choice r), cr_passthrough := None\<rparr>))"
proof (cases "chat_render_request S r m")
  case (Inl e)
  then show ?thesis by (auto simp: chat_render_request_def Let_def split: if_splits)
next
  case (Inr body)
  obtain ms' where ms: "fold (chat_parse_message S) (chat_system (cr_system r) @ concat (map (chat_render_message S names) (cr_messages r))) ([], []) =
      (heard_system r, ms')" "talk_of (\<lambda>n. n) ms' = talk_of (wire_name names) (cr_messages r)"
    using chat_turns.conversation_kept [OF assms(4), of names "(heard_system r, [])"] parse_system [of S r]
    by (auto simp: prod_eq_iff)
  define v where "v = set_some ''temperature'' (map_option (of_f32 S) (cr_temperature r))
    (set_when (cr_tools r \<noteq> []) ''tools'' (JArr (map (chat_tool names) (cr_tools r)))
      (set_when (cr_stream r) ''stream_options'' (JObj [(''include_usage'', JBool True)])
        (set_some ''reasoning_effort'' (map_option (\<lambda>e. JStr (effort_as_str e)) (asked_effort r))
          (set_member (if reasoning_model m then ''max_completion_tokens'' else ''max_tokens'') (jnat (cr_max_tokens r))
            (JObj [(''model'', JStr m),
              (''messages'', JArr (chat_system (cr_system r) @ concat (map (chat_render_message S names) (cr_messages r)))),
              (''stream'', JBool (cr_stream r))])))))"
  have ok: "previous_response_id r = None" and body: "body = set_when (cr_stop r \<noteq> []) ''stop'' (JArr (map JStr (cr_stop r)))
      (set_some ''response_format'' (map_option chat_response_format (cr_response_format r))
        (set_some ''tool_choice'' (map_option (chat_tool_choice names) (cr_tool_choice r)) v))"
    using Inr by (auto simp: chat_render_request_def Let_def v_def names_def split: if_splits)
  have obj: "is_object v" by (simp add: v_def json_simps)
  have bv: "idx body k = idx v k" if "k \<noteq> ''stop''" "k \<noteq> ''response_format''" "k \<noteq> ''tool_choice''" for k
    using that obj by (simp add: body json_simps split: option.split)
  let ?r' = "r\<lparr>cr_model := m, cr_system := heard_system r, cr_messages := ms',
    cr_tools := map (\<lambda>t. t\<lparr>tool_name := wire_name names (tool_name t), tool_cache_control := None\<rparr>) (cr_tools r),
    thinking_budget := None, thinking_effort := asked_effort r, cr_client_session := None,
    cr_tool_choice := map_option (choice_on_wire names) (cr_tool_choice r), cr_passthrough := None\<rparr>"
  have top: "idx body ''model'' = JStr m" "idx body ''user'' = JNull" "idx body ''stream'' = JBool (cr_stream r)"
    "items (idx body ''messages'') = chat_system (cr_system r) @ concat (map (chat_render_message S names) (cr_messages r))"
    by (simp_all add: bv) (simp_all add: v_def json_simps split: option.split)
  have ceiling: "idx body ''max_completion_tokens'' = (if reasoning_model m then jnat (cr_max_tokens r) else JNull)"
    "idx body ''max_tokens'' = (if reasoning_model m then JNull else jnat (cr_max_tokens r))"
    by (simp_all add: bv) (simp_all add: v_def json_simps split: option.split)
  have limits: "(case as_u64 (idx body ''max_completion_tokens'') of Some n \<Rightarrow> n | None \<Rightarrow> u64_or 4096 (idx body ''max_tokens'')) = cr_max_tokens r"
    using u32_fits_u64 [OF assms(2)] by (simp add: ceiling json_simps)
  have fields: "List.map_filter chat_parse_tool (items (idx body ''tools'')) = cr_tools ?r'"
    "as_f32 S (idx body ''temperature'') = cr_temperature r"
    "bind_str (idx body ''reasoning_effort'') effort_parse = asked_effort r"
    using assms(3) by (simp_all add: bv) (auto simp: v_def json_simps map_filter_map parse_render_chat_tool map_filter_all as_f32_def
        effort_as_str_parse split: option.split)
  have choices: "chat_parse_tool_choice (idx body ''tool_choice'') = cr_tool_choice ?r'"
    "chat_parse_response_format (idx body ''response_format'') = cr_response_format r" "chat_parse_stop (idx body ''stop'') = cr_stop r"
    using obj by (auto simp: body json_simps parse_render_choice parse_render_format chat_parse_stop_def map_filter_map map_filter_all
        split: option.split) (simp_all add: v_def json_simps split: option.split)
  have "chat_parse_request S body = Inr ?r'"
    using ms(1) top limits fields choices ok assms(2)
    by (auto simp: chat_parse_request_def Let_def json_simps u32_try_from_fits intro!: canonical_request.equality)
  then show ?thesis using Inr ok ms(2) by auto
qed


theorem chat_request_keeps_the_conversation_witness:
  "\<exists>body r'. chat_render_request tiny_serde spoken_request ''gpt-5'' = Inr body \<and> chat_parse_request tiny_serde body = Inr r' \<and>
     List.map_filter result_in (flat (cr_messages r')) = [(''call.1'', ''ok'')]"
proof -
  have "cr_max_tokens spoken_request \<le> u32_max" "previous_response_id spoken_request = None"
    "\<forall>t. cr_temperature spoken_request = Some t \<longrightarrow> as_f32 tiny_serde (of_f32 tiny_serde t) = Some t"
    "\<forall>m \<in> set (cr_messages spoken_request). plain_turn tiny_serde m"
    "List.map_filter result_in (flat (cr_messages spoken_request)) = [(''call.1'', ''ok'')]"
    by (simp_all add: spoken_request_def u32_max_def tiny_serde_def as_f32_def plain_turn_def sayable_def result_in_def List.map_filter_simps)
  then show ?thesis
    using chat_request_keeps_the_conversation [of spoken_request tiny_serde "''gpt-5''"]
    by (auto simp: talk_of_def split: sum.splits)
qed

end
