(* ===== verification/Messages.thy ===== *)
theory Messages
  imports Wire_Json
begin

text \<open>
  The Anthropic Messages dialect (\<^verbatim>\<open>oag-proto/src/anthropic.rs\<close>): requests both ways, the events of a
  stream both ways, and the whole response every non-streamed answer is rendered through.
\<close>

subsection \<open>Thinking\<close>

definition MIN_THINKING_BUDGET :: nat where "MIN_THINKING_BUDGET = 1024"

datatype thinking_mode = Budget | Adaptive

definition generation :: "string \<Rightarrow> (nat \<times> nat) option" where
  "generation upstream_model =
     (case filter (\<lambda>number. number < 100)
        (List.map_filter parse_u32 (split_at {CHR ''-'', CHR ''.'', CHR ''_'', CHR '':''} upstream_model)) of
        [] \<Rightarrow> None
      | major # rest \<Rightarrow> Some (major, case rest of [] \<Rightarrow> 0 | minor # _ \<Rightarrow> minor))"

definition thinking_mode_of :: "string \<Rightarrow> thinking_mode option" where
  "thinking_mode_of upstream_model =
     (case generation upstream_model of
        None \<Rightarrow> None
      | Some (major, minor) \<Rightarrow> Some (if (4, 6) \<le> (major, minor) then Adaptive else Budget))"

definition anthropic_budget :: "canonical_request \<Rightarrow> nat option" where
  "anthropic_budget req =
     (case thinking_request req of
        None \<Rightarrow> None
      | Some (asked, _) \<Rightarrow>
          if cr_max_tokens req = 0 then None
          else let budget = min asked (cr_max_tokens req - 1) in
            if MIN_THINKING_BUDGET \<le> budget then Some budget else None)"

subsection \<open>Rendering a request\<close>

definition ephemeral :: json where
  "ephemeral = JObj [(''type'', JStr ''ephemeral'')]"

fun anthropic_render_block :: "tool_use_ids \<Rightarrow> content_block \<Rightarrow> json" where
  "anthropic_render_block ids (Text t cc) =
     (let v = JObj [(''type'', JStr ''text''), (''text'', JStr t)] in
      if cc \<noteq> None then set_member ''cache_control'' ephemeral v else v)"
| "anthropic_render_block ids (Image media_type data) =
     JObj [(''type'', JStr ''image''),
       (''source'', JObj [(''type'', JStr ''base64''), (''media_type'', JStr media_type), (''data'', JStr data)])]"
| "anthropic_render_block ids (ToolUse tid name input) =
     JObj [(''type'', JStr ''tool_use''), (''id'', JStr (id_wire ids tid)), (''name'', JStr name), (''input'', input)]"
| "anthropic_render_block ids (ToolResult tid (ResultText t) is_error) =
     JObj [(''type'', JStr ''tool_result''), (''tool_use_id'', JStr (id_wire ids tid)), (''content'', JStr t),
       (''is_error'', JBool is_error)]"
| "anthropic_render_block ids (ToolResult tid (ResultBlocks blocks) is_error) =
     JObj [(''type'', JStr ''tool_result''), (''tool_use_id'', JStr (id_wire ids tid)),
       (''content'', JArr (map (anthropic_render_block ids) blocks)), (''is_error'', JBool is_error)]"
| "anthropic_render_block ids (Thinking t signature) =
     (let v = JObj [(''type'', JStr ''thinking''), (''thinking'', JStr t)] in
      case signature of Some sig \<Rightarrow> set_member ''signature'' (JStr sig) v | None \<Rightarrow> v)"

definition anthropic_render_message :: "tool_use_ids \<Rightarrow> message \<Rightarrow> json" where
  "anthropic_render_message ids m =
     JObj [(''role'', JStr (case msg_role m of RoleAssistant \<Rightarrow> ''assistant'' | _ \<Rightarrow> ''user'')),
       (''content'', JArr (map (anthropic_render_block ids) (msg_content m)))]"

definition anthropic_render_tool :: "tool \<Rightarrow> json" where
  "anthropic_render_tool t =
     (let v = JObj [(''name'', JStr (tool_name t)), (''description'', JStr (tool_description t)), (''input_schema'', input_schema t)] in
      if tool_cache_control t \<noteq> None then set_member ''cache_control'' ephemeral v else v)"

definition anthropic_tool_choice :: "tool_choice \<Rightarrow> json" where
  "anthropic_tool_choice c =
     (case c of
        ChoiceAuto \<Rightarrow> JObj [(''type'', JStr ''auto'')]
      | ChoiceRequired \<Rightarrow> JObj [(''type'', JStr ''any'')]
      | ChoiceNone \<Rightarrow> JObj [(''type'', JStr ''none'')]
      | ChoiceTool name \<Rightarrow> JObj [(''type'', JStr ''tool''), (''name'', JStr name)])"

definition anthropic_thinking :: "canonical_request \<Rightarrow> string \<Rightarrow> json \<Rightarrow> json" where
  "anthropic_thinking req upstream_model body =
     (case thinking_mode_of upstream_model of
        Some Budget \<Rightarrow>
          (case anthropic_budget req of
             Some budget \<Rightarrow> set_member ''thinking'' (JObj [(''type'', JStr ''enabled''), (''budget_tokens'', jnat budget)]) body
           | None \<Rightarrow> body)
      | Some Adaptive \<Rightarrow>
          (case thinking_request req of
             Some (_, effort) \<Rightarrow>
               set_member ''output_config''
                 (JObj [(''effort'', JStr (effort_as_str (if effort = Ultra then MaxEffort else effort)))])
                 (set_member ''thinking'' (JObj [(''type'', JStr ''adaptive'')]) body)
           | None \<Rightarrow> body)
      | None \<Rightarrow> body)"

definition anthropic_render_request :: "serde \<Rightarrow> canonical_request \<Rightarrow> string \<Rightarrow> error + json" where
  "anthropic_render_request S req upstream_model =
     (let ids = ids_for_anthropic req;
          body = JObj [(''model'', JStr upstream_model), (''max_tokens'', jnat (cr_max_tokens req)),
            (''stream'', JBool (cr_stream req)), (''messages'', JArr (map (anthropic_render_message ids) (cr_messages req)))];
          body = set_when (cr_system req \<noteq> []) ''system'' (JArr (map (anthropic_render_block no_tool_use_ids) (cr_system req))) body;
          body = set_when (cr_tools req \<noteq> []) ''tools'' (JArr (map anthropic_render_tool (cr_tools req))) body;
          body = set_some ''temperature'' (map_option (of_f32 S) (cr_temperature req)) body;
          body = anthropic_thinking req upstream_model body in
      if (case cr_response_format req of Some f \<Rightarrow> constrains_output f | None \<Rightarrow> False)
      then Inl (UnsupportedField ''response_format'' AnthropicMessages)
      else if previous_response_id req \<noteq> None then Inl (UnsupportedField ''previous_response_id'' AnthropicMessages)
      else
        let body = set_some ''tool_choice'' (map_option anthropic_tool_choice (cr_tool_choice req)) body in
        Inr (set_when (cr_stop req \<noteq> []) ''stop_sequences'' (JArr (map JStr (cr_stop req))) body))"

subsection \<open>Reading a request\<close>

definition cache_control_of :: "json \<Rightarrow> cache_control option" where
  "cache_control_of v = map_option (\<lambda>_. Ephemeral) (as_str (idx (idx v ''cache_control'') ''type''))"

function anthropic_parse_block :: "serde \<Rightarrow> json \<Rightarrow> content_block option" where
  "anthropic_parse_block S v =
     bind_str (idx v ''type'') (\<lambda>kind.
       if kind = ''text'' then
         bind_str (idx v ''text'') (\<lambda>t. Some (Text t (cache_control_of v)))
       else if kind = ''image'' then
         bind_str (idx (idx v ''source'') ''media_type'') (\<lambda>media_type.
         bind_str (idx (idx v ''source'') ''data'') (\<lambda>data. Some (Image media_type data)))
       else if kind = ''tool_use'' then
         bind_str (idx v ''id'') (\<lambda>tid. bind_str (idx v ''name'') (\<lambda>name. Some (ToolUse tid name (idx v ''input''))))
       else if kind = ''tool_result'' then
         bind_str (idx v ''tool_use_id'') (\<lambda>tid. Some (ToolResult tid
           (case idx v ''content'' of
              JStr s \<Rightarrow> ResultText s
            | JArr xs \<Rightarrow> ResultBlocks (List.map_filter (anthropic_parse_block S) xs)
            | other \<Rightarrow> ResultText (to_text S other))
           (bool_or False (idx v ''is_error''))))
       else if kind = ''thinking'' then
         Some (Thinking (str_or [] (idx v ''thinking'')) (as_str (idx v ''signature'')))
       else None)"
  by pat_completeness auto
termination
proof (relation "measure (\<lambda>(_, v). size v)")
  fix S :: serde and v x :: json and kind tid xs
  assume "idx v ''content'' = JArr xs" and "x \<in> set xs"
  moreover from this have "size (JArr xs) < size v" by (auto dest: size_idx)
  moreover have "size x < size (JArr xs)" using \<open>x \<in> set xs\<close> by (induction xs) auto
  ultimately show "((S, x), S, v) \<in> measure (\<lambda>(_, v). size v)" by simp
qed simp

definition parse_blocks :: "serde \<Rightarrow> json \<Rightarrow> content_block list" where
  "parse_blocks S v =
     (case v of
        JStr s \<Rightarrow> [Text s None]
      | JArr xs \<Rightarrow> List.map_filter (anthropic_parse_block S) xs
      | _ \<Rightarrow> [])"

definition anthropic_parse_message :: "serde \<Rightarrow> json \<Rightarrow> message option" where
  "anthropic_parse_message S v =
     bind_str (idx v ''role'') (\<lambda>r. Some
       \<lparr>msg_role = (if r = ''assistant'' then RoleAssistant else if r = ''system'' then RoleSystem else RoleUser),
        msg_content = parse_blocks S (idx v ''content'')\<rparr>)"

definition anthropic_parse_tool :: "json \<Rightarrow> tool option" where
  "anthropic_parse_tool v =
     bind_str (idx v ''name'') (\<lambda>name. Some
       \<lparr>tool_name = name, tool_description = str_or [] (idx v ''description''), input_schema = idx v ''input_schema'',
        tool_cache_control = cache_control_of v\<rparr>)"

definition anthropic_parse_tool_choice :: "json \<Rightarrow> tool_choice option" where
  "anthropic_parse_tool_choice v =
     bind_str (idx v ''type'') (\<lambda>t.
       if t = ''auto'' then Some ChoiceAuto
       else if t = ''any'' then Some ChoiceRequired
       else if t = ''none'' then Some ChoiceNone
       else if t = ''tool'' then bind_str (idx v ''name'') (\<lambda>name. Some (ChoiceTool name))
       else None)"

definition anthropic_parse_effort :: "json \<Rightarrow> effort option" where
  "anthropic_parse_effort body =
     (if as_str (idx (idx body ''thinking'') ''type'') = Some ''adaptive'' then
        (case bind_str (idx (idx body ''output_config'') ''effort'') effort_parse of
           Some e \<Rightarrow> Some e | None \<Rightarrow> Some Medium)
      else None)"

definition anthropic_parse_request :: "serde \<Rightarrow> json \<Rightarrow> error + canonical_request" where
  "anthropic_parse_request S body =
     (let budget = Option.bind (as_u64 (idx (idx body ''thinking'') ''budget_tokens'')) u32_try_from in
      Inr \<lparr>cr_model = str_or [] (idx body ''model''),
        cr_system = parse_blocks S (idx body ''system''),
        cr_messages = List.map_filter (anthropic_parse_message S) (items (idx body ''messages'')),
        cr_tools = List.map_filter anthropic_parse_tool (items (idx body ''tools'')),
        cr_max_tokens = (case u32_try_from (u64_or 4096 (idx body ''max_tokens'')) of Some n \<Rightarrow> n | None \<Rightarrow> 4096),
        cr_stream = bool_or False (idx body ''stream''),
        cr_temperature = as_f32 S (idx body ''temperature''),
        thinking_budget = budget,
        thinking_effort = (case budget of Some b \<Rightarrow> Some (from_budget b) | None \<Rightarrow> anthropic_parse_effort body),
        cr_client_session = as_str (idx (idx body ''metadata'') ''user_id''),
        cr_tool_choice = anthropic_parse_tool_choice (idx body ''tool_choice''),
        cr_response_format = None,
        cr_stop = List.map_filter as_str (items (idx body ''stop_sequences'')),
        previous_response_id = None,
        cr_passthrough = None\<rparr>)"

subsection \<open>What an upstream of this dialect reads\<close>

fun rewire :: "(string \<Rightarrow> string) \<Rightarrow> content_block \<Rightarrow> content_block" where
  "rewire f (ToolUse tid name input) = ToolUse (f tid) name input"
| "rewire f (ToolResult tid (ResultText t) is_error) = ToolResult (f tid) (ResultText t) is_error"
| "rewire f (ToolResult tid (ResultBlocks blocks) is_error) = ToolResult (f tid) (ResultBlocks (map (rewire f) blocks)) is_error"
| "rewire f b = b"

definition turn_as_sent :: "(string \<Rightarrow> string) \<Rightarrow> message \<Rightarrow> message" where
  "turn_as_sent f m =
     \<lparr>msg_role = (if msg_role m = RoleAssistant then RoleAssistant else RoleUser), msg_content = map (rewire f) (msg_content m)\<rparr>"

definition thinking_as_sent :: "canonical_request \<Rightarrow> string \<Rightarrow> nat option \<times> effort option" where
  "thinking_as_sent r upstream_model =
     (case thinking_mode_of upstream_model of
        Some Budget \<Rightarrow> (anthropic_budget r, map_option from_budget (anthropic_budget r))
      | Some Adaptive \<Rightarrow> (None, map_option (\<lambda>(_, e). if e = Ultra then MaxEffort else e) (thinking_request r))
      | None \<Rightarrow> (None, None))"

definition request_as_sent :: "canonical_request \<Rightarrow> string \<Rightarrow> canonical_request" where
  "request_as_sent r upstream_model =
     r\<lparr>cr_model := upstream_model, cr_messages := map (turn_as_sent (id_wire (ids_for_anthropic r))) (cr_messages r),
       thinking_budget := fst (thinking_as_sent r upstream_model), thinking_effort := snd (thinking_as_sent r upstream_model),
       cr_client_session := None, cr_response_format := None, cr_passthrough := None\<rparr>"

lemma id_wire_no_ids [simp]: "id_wire no_tool_use_ids = id"
  by (auto simp: id_wire_def no_tool_use_ids_def)

lemma cached_only: "Ephemeral = c"
  by (cases c) simp

declare anthropic_parse_block.simps [simp del]

lemma parse_render_block: "anthropic_parse_block S (anthropic_render_block ids b) = Some (rewire (id_wire ids) b)"
proof (induction ids b rule: anthropic_render_block.induct)
  case (1 ids t cc)
  then show ?case by (subst anthropic_parse_block.simps) (auto simp: json_simps ephemeral_def cache_control_of_def Let_def cached_only)
next
  case (5 ids tid blocks is_error)
  then have "List.map_filter (anthropic_parse_block S) (map (anthropic_render_block ids) blocks) = map (rewire (id_wire ids)) blocks"
    by (simp add: map_filter_map map_filter_all)
  then show ?case by (subst anthropic_parse_block.simps) (simp add: json_simps)
qed (subst anthropic_parse_block.simps, simp add: json_simps Let_def split: option.split)+

lemma rewire_id: "rewire id b = b"
  by (induction "id :: string \<Rightarrow> string" b rule: rewire.induct) (simp_all add: map_idI)


lemma parse_render_message:
  "anthropic_parse_message S (anthropic_render_message ids m) = Some (turn_as_sent (id_wire ids) m)"
  by (cases "msg_role m") (simp_all add: anthropic_parse_message_def anthropic_render_message_def turn_as_sent_def json_simps
      parse_blocks_def map_filter_map map_filter_all [OF parse_render_block])

lemma parse_render_tool: "anthropic_parse_tool (anthropic_render_tool t) = Some t"
  by (cases t) (auto simp: anthropic_parse_tool_def anthropic_render_tool_def cache_control_of_def ephemeral_def Let_def cached_only json_simps)

lemma parse_render_tool_choice: "anthropic_parse_tool_choice (anthropic_tool_choice c) = Some c"
  by (cases c) (simp_all add: anthropic_parse_tool_choice_def anthropic_tool_choice_def json_simps)

lemma parse_tool_choice_null [simp]: "anthropic_parse_tool_choice JNull = None"
  by (simp add: anthropic_parse_tool_choice_def json_simps)

lemma thinking_object [json_simps]: "is_object (anthropic_thinking r m v) = is_object v"
  by (simp add: anthropic_thinking_def json_simps split: option.split thinking_mode.split)

lemma thinking_elsewhere [json_simps]:
  "is_object v \<Longrightarrow> k \<noteq> ''thinking'' \<Longrightarrow> k \<noteq> ''output_config'' \<Longrightarrow> idx (anthropic_thinking r m v) k = idx v k"
  by (simp add: anthropic_thinking_def json_simps split: option.split thinking_mode.split)

lemma budget_bounds: "anthropic_budget r = Some b \<Longrightarrow> MIN_THINKING_BUDGET \<le> b \<and> b < cr_max_tokens r"
  by (auto simp: anthropic_budget_def Let_def split: option.splits if_splits)


lemma thinking_read_back:
  fixes m :: string
  assumes "is_object v" and "idx v ''thinking'' = JNull" and "cr_max_tokens r \<le> u32_max"
  defines "body \<equiv> anthropic_thinking r m v"
  defines "budget \<equiv> Option.bind (as_u64 (idx (idx body ''thinking'') ''budget_tokens'')) u32_try_from"
  shows "(budget, case budget of Some b \<Rightarrow> Some (from_budget b) | None \<Rightarrow> anthropic_parse_effort body) = thinking_as_sent r m"
proof (cases "thinking_mode_of m")
  case None
  then show ?thesis using assms(1,2)
    by (simp add: budget_def body_def anthropic_thinking_def thinking_as_sent_def anthropic_parse_effort_def json_simps)
next
  case (Some mode)
  show ?thesis
  proof (cases mode)
    case Budget
    have "b \<le> u32_max" if "anthropic_budget r = Some b" for b using budget_bounds [OF that] assms(3) by simp
    with Budget Some assms(1,2) show ?thesis
      by (auto simp: budget_def body_def anthropic_thinking_def thinking_as_sent_def anthropic_parse_effort_def json_simps
          u32_fits_u64 split: option.split)
  next
    case Adaptive
    with Some assms(1,2) show ?thesis
      by (auto simp: budget_def body_def anthropic_thinking_def thinking_as_sent_def anthropic_parse_effort_def json_simps
          effort_as_str_parse split: option.split)
  qed
qed




end
