(* ===== verification/Answers.thy ===== *)
theory Answers
  imports Wire_Json
begin

text \<open>
  What a stream of canonical events says, whatever dialect it is written in: the text, the reasoning,
  the calls with their arguments, why it stopped and what it used. This is the contract of every
  renderer of \<^verbatim>\<open>oag-proto/src\<close>, and the locale \<open>faithful_stream\<close> states it: the frames a renderer writes for
  one event take a client of its dialect from what it knew to what it should know.
\<close>

subsection \<open>What was said\<close>

record answer =
  an_text :: string
  an_thinking :: string
  an_calls :: "(string \<times> string \<times> string) list"
  an_stop :: "stop_reason option"
  an_usage :: "usage option"
  an_running :: usage

definition nothing_said :: answer where
  "nothing_said = \<lparr>an_text = [], an_thinking = [], an_calls = [], an_stop = None, an_usage = None, an_running = usage_default\<rparr>"

definition add_fragment :: "string \<Rightarrow> string \<Rightarrow> (string \<times> string \<times> string) list \<Rightarrow> (string \<times> string \<times> string) list" where
  "add_fragment tid frag calls = map (\<lambda>(k, name, args). (k, name, if k = tid then args @ frag else args)) calls"

text \<open>A dialect may have fewer words for stopping and fewer counts of tokens; \<open>w\<close>, told whether a
  tool was called, and \<open>c\<close> say what is left.\<close>

definition same_word :: "bool \<Rightarrow> stop_reason \<Rightarrow> stop_reason" where
  "same_word _ r = r"

fun hear :: "(bool \<Rightarrow> stop_reason \<Rightarrow> stop_reason) \<Rightarrow> (usage \<Rightarrow> usage) \<Rightarrow> stream_event \<Rightarrow> answer \<Rightarrow> answer" where
  "hear w c (Start _ u) a = a\<lparr>an_running := merge (an_running a) u\<rparr>"
| "hear w c (UsageUpdate u) a = a\<lparr>an_running := merge (an_running a) u\<rparr>"
| "hear w c (TextDelta t) a = a\<lparr>an_text := an_text a @ t\<rparr>"
| "hear w c (ThinkingDelta t) a = a\<lparr>an_thinking := an_thinking a @ t\<rparr>"
| "hear w c (ToolUseStart tid name) a = a\<lparr>an_calls := an_calls a @ [(tid, name, [])]\<rparr>"
| "hear w c (ToolUseDelta tid frag) a = a\<lparr>an_calls := add_fragment tid frag (an_calls a)\<rparr>"
| "hear w c (ToolUseEnd _) a = a"
| "hear w c (Stop reason u) a =
     (if an_stop a \<noteq> None then a
      else let used = merge (an_running a) u in a\<lparr>an_running := used, an_usage := Some (c used), an_stop := Some (w (an_calls a \<noteq> []) reason)\<rparr>)"
| "hear w c (EventError _) a = a"

subsection \<open>Streams that can be told\<close>

text \<open>
  What a parser emits: a call opens once, under an id of its own, and its fragments come while it is
  open; nothing is said after the stop. Calls may interleave. With \<open>mix\<close> off, text ends the calls that
  are open, and reasoning and text are separated by a call.
\<close>

record tell =
  tl_reasoning :: "bool option"
  tl_open :: "string list"
  tl_seen :: "string list"
  tl_done :: bool

definition tell_new :: tell where
  "tell_new = \<lparr>tl_reasoning = None, tl_open = [], tl_seen = [], tl_done = False\<rparr>"

definition tell_words :: "bool \<Rightarrow> bool \<Rightarrow> tell \<Rightarrow> tell option" where
  "tell_words mix reasoning t =
     (if tl_done t \<or> \<not> mix \<and> tl_reasoning t = Some (\<not> reasoning) then None
      else Some (t\<lparr>tl_reasoning := Some reasoning, tl_open := (if mix then tl_open t else [])\<rparr>))"

fun tell_step :: "bool \<Rightarrow> stream_event \<Rightarrow> tell \<Rightarrow> tell option" where
  "tell_step mix (TextDelta _) t = tell_words mix False t"
| "tell_step mix (ThinkingDelta _) t = tell_words mix True t"
| "tell_step mix (ToolUseStart tid _) t =
     (if tl_done t \<or> tid \<in> set (tl_seen t) then None
      else Some (t\<lparr>tl_reasoning := None, tl_open := tl_open t @ [tid], tl_seen := tid # tl_seen t\<rparr>))"
| "tell_step mix (ToolUseDelta tid _) t = (if tl_done t \<or> tid \<notin> set (tl_open t) then None else Some t)"
| "tell_step mix (ToolUseEnd tid) t = Some (t\<lparr>tl_open := removeAll tid (tl_open t)\<rparr>)"
| "tell_step mix (Stop _ _) t = Some (t\<lparr>tl_reasoning := None, tl_open := [], tl_done := True\<rparr>)"
| "tell_step mix _ t = Some t"

fun tellable :: "(stream_event \<Rightarrow> 't \<Rightarrow> 't option) \<Rightarrow> stream_event list \<Rightarrow> 't \<Rightarrow> bool" where
  "tellable step [] t = True"
| "tellable step (ev # evs) t = (case step ev t of Some t' \<Rightarrow> tellable step evs t' | None \<Rightarrow> False)"

subsection \<open>Renderers\<close>

fun render_all :: "(stream_event \<Rightarrow> 'st \<Rightarrow> 'f list \<times> 'st) \<Rightarrow> stream_event list \<Rightarrow> 'st \<Rightarrow> 'f list \<times> 'st" where
  "render_all render [] st = ([], st)"
| "render_all render (ev # evs) st =
     (case render ev st of (out, st') \<Rightarrow> case render_all render evs st' of (later, st'') \<Rightarrow> (out @ later, st''))"

fun read_all :: "('f \<Rightarrow> 'c \<Rightarrow> 'c option) \<Rightarrow> 'f list \<Rightarrow> 'c \<Rightarrow> 'c option" where
  "read_all read [] cl = Some cl"
| "read_all read (f # fs) cl = Option.bind (read f cl) (read_all read fs)"

lemma read_all_append: "read_all read (xs @ ys) cl = Option.bind (read_all read xs cl) (read_all read ys)"
proof (induction xs arbitrary: cl)
  case (Cons f xs)
  then show ?case by (cases "read f cl") simp_all
qed simp

text \<open>
  A renderer is followed when its frames, read one after another, keep a client in step with what the
  events said, \<open>update\<close> being what one event adds. It is faithful when what was said can be computed from
  the renderer and the client alone.
\<close>

locale followed_stream =
  fixes render :: "stream_event \<Rightarrow> 'st \<Rightarrow> 'f list \<times> 'st"
    and read :: "'f \<Rightarrow> 'c \<Rightarrow> 'c option"
    and follows :: "'t \<Rightarrow> 'st \<Rightarrow> 'c \<Rightarrow> 'b \<Rightarrow> bool"
    and step :: "stream_event \<Rightarrow> 't \<Rightarrow> 't option"
    and update :: "stream_event \<Rightarrow> 'b \<Rightarrow> 'b"
  assumes followed: "follows t st cl b \<Longrightarrow> step ev t = Some t' \<Longrightarrow>
      \<exists>cl'. read_all read (fst (render ev st)) cl = Some cl' \<and> follows t' (snd (render ev st)) cl' (update ev b)"
begin

lemma followed_all:
  "follows t st cl b \<Longrightarrow> tellable step evs t \<Longrightarrow>
   \<exists>t' cl'. read_all read (fst (render_all render evs st)) cl = Some cl' \<and> follows t' (snd (render_all render evs st)) cl' (fold update evs b)"
proof (induction evs arbitrary: t st cl b)
  case (Cons ev evs)
  obtain t1 where t1: "step ev t = Some t1" "tellable step evs t1"
    using Cons.prems(2) by (auto split: option.splits)
  obtain out st1 where r: "render ev st = (out, st1)" by force
  obtain cl1 where cl1: "read_all read out cl = Some cl1" "follows t1 st1 cl1 (update ev b)"
    using followed [OF Cons.prems(1) t1(1)] r by auto
  from Cons.IH [OF cl1(2) t1(2)] cl1 r show ?case by (auto simp: read_all_append split: prod.splits)
qed auto

end

locale faithful_stream =
  fixes render :: "stream_event \<Rightarrow> 'st \<Rightarrow> 'f list \<times> 'st"
    and read :: "'f \<Rightarrow> 'c \<Rightarrow> 'c option"
    and knows :: "'t \<Rightarrow> 'st \<Rightarrow> 'c \<Rightarrow> bool"
    and content :: "'st \<Rightarrow> 'c \<Rightarrow> answer"
    and step :: "stream_event \<Rightarrow> 't \<Rightarrow> 't option"
    and w :: "bool \<Rightarrow> stop_reason \<Rightarrow> stop_reason"
    and c :: "usage \<Rightarrow> usage"
  assumes told: "knows t st cl \<Longrightarrow> step ev t = Some t' \<Longrightarrow>
      \<exists>cl'. read_all read (fst (render ev st)) cl = Some cl' \<and> knows t' (snd (render ev st)) cl' \<and>
        content (snd (render ev st)) cl' = hear w c ev (content st cl)"

sublocale faithful_stream \<subseteq> followed_stream render read "\<lambda>t st cl b. knows t st cl \<and> content st cl = b" step "hear w c"
  by unfold_locales (use told in blast)

context faithful_stream begin

lemma told_all:
  "knows t st cl \<Longrightarrow> tellable step evs t \<Longrightarrow>
   \<exists>t' cl'. read_all read (fst (render_all render evs st)) cl = Some cl' \<and> knows t' (snd (render_all render evs st)) cl' \<and>
     content (snd (render_all render evs st)) cl' = fold (hear w c) evs (content st cl)"
  using followed_all [of t st cl "content st cl" evs] by blast

end

subsection \<open>Counts\<close>

text \<open>What a dialect makes of a count is settled where counts stay in range, and ranges are kept by merging.\<close>

lemma hear_counts:
  assumes closed: "\<And>u v. P u \<Longrightarrow> P v \<Longrightarrow> P (merge u v)" and same: "\<And>u. P u \<Longrightarrow> c u = c' u"
    and "\<forall>ev \<in> set evs. \<forall>u. reported_usage ev = Some u \<longrightarrow> P u" and "P (an_running a)"
  shows "fold (hear w c) evs a = fold (hear w c') evs a \<and> P (an_running (fold (hear w c') evs a))"
  using assms(3,4)
proof (induction evs arbitrary: a)
  case (Cons ev evs)
  have "hear w c ev a = hear w c' ev a \<and> P (an_running (hear w c' ev a))"
    using Cons.prems by (cases ev) (auto simp: same closed Let_def)
  with Cons show ?case by simp
qed simp

end
