(* ===== verification/Messages_Stream.thy ===== *)
theory Messages_Stream
  imports Messages Answers
begin

text \<open>
  Responses of the Anthropic Messages dialect (\<^verbatim>\<open>oag-proto/src/anthropic.rs\<close>): the events read from a
  stream or from a whole body, the frames a stream of events is written as, and the whole body every
  collected answer is rendered into. A frame is its event name and its payload; \<open>frame_text\<close> is what is
  written for it.
\<close>

subsection \<open>Reading\<close>

definition anthropic_parse_usage :: "json \<Rightarrow> usage" where
  "anthropic_parse_usage v =
     \<lparr>input_tokens = u64_or 0 (idx v ''input_tokens''), output_tokens = u64_or 0 (idx v ''output_tokens''),
      cache_read_tokens = u64_or 0 (idx v ''cache_read_input_tokens''),
      cache_write_tokens = u64_or 0 (idx v ''cache_creation_input_tokens'')\<rparr>"

definition anthropic_parse_stop :: "string \<Rightarrow> stop_reason" where
  "anthropic_parse_stop raw =
     (if raw = ''max_tokens'' then MaxTokens
      else if raw = ''stop_sequence'' then StopSequence
      else if raw = ''tool_use'' then StopToolUse
      else if raw = ''refusal'' then StopRefusal
      else EndTurn)"

definition anthropic_event :: "json \<Rightarrow> accumulator \<Rightarrow> stream_event list" where
  "anthropic_event v acc =
     (let kind = str_or [] (idx v ''type'') in
      if kind = ''message_start'' then
        [Start (str_or [] (idx (idx v ''message'') ''model'')) (anthropic_parse_usage (idx (idx v ''message'') ''usage''))]
      else if kind = ''content_block_start'' then
        (let block = idx v ''content_block'' in
         if str_or [] (idx block ''type'') = ''tool_use''
         then [ToolUseStart (str_or [] (idx block ''id'')) (str_or [] (idx block ''name''))]
         else [])
      else if kind = ''content_block_delta'' then
        (let delta = idx v ''delta''; what = str_or [] (idx delta ''type'') in
         if what = ''text_delta'' then [TextDelta (str_or [] (idx delta ''text''))]
         else if what = ''thinking_delta'' then [ThinkingDelta (str_or [] (idx delta ''thinking''))]
         else if what = ''input_json_delta'' then
           [ToolUseDelta (case current_tool_id acc of Some t \<Rightarrow> t | None \<Rightarrow> []) (str_or [] (idx delta ''partial_json''))]
         else [])
      else if kind = ''content_block_stop'' then
        (case open_tool_id acc of Some t \<Rightarrow> [ToolUseEnd t] | None \<Rightarrow> [])
      else if kind = ''message_delta'' then
        [UsageUpdate (anthropic_parse_usage (idx v ''usage''))] @
        (case as_str (idx (idx v ''delta'') ''stop_reason'') of
           Some reason \<Rightarrow> [Stop (anthropic_parse_stop reason) (anthropic_parse_usage (idx v ''usage''))]
         | None \<Rightarrow> [])
      else if kind = ''error'' then [EventError (str_or ''upstream error'' (idx (idx v ''error'') ''message''))]
      else [])"

definition anthropic_parse_event :: "serde \<Rightarrow> string \<Rightarrow> accumulator \<Rightarrow> error + stream_event list" where
  "anthropic_parse_event S payload acc =
     (case from_text S payload of Inl e \<Rightarrow> Inl (Serde e) | Inr v \<Rightarrow> Inr (anthropic_event v acc))"

definition anthropic_response_block :: "serde \<Rightarrow> json \<Rightarrow> stream_event list" where
  "anthropic_response_block S block =
     (let kind = str_or [] (idx block ''type'') in
      if kind = ''text'' then [TextDelta (str_or [] (idx block ''text''))]
      else if kind = ''thinking'' then [ThinkingDelta (str_or [] (idx block ''thinking''))]
      else if kind = ''tool_use'' then
        (let tid = str_or [] (idx block ''id'') in
         [ToolUseStart tid (str_or [] (idx block ''name'')), ToolUseDelta tid (to_text S (idx block ''input'')), ToolUseEnd tid])
      else [])"

definition anthropic_parse_response :: "serde \<Rightarrow> json \<Rightarrow> stream_event list" where
  "anthropic_parse_response S body =
     (let usage = anthropic_parse_usage (idx body ''usage'') in
      [UsageUpdate usage] @ concat (map (anthropic_response_block S) (items (idx body ''content''))) @
      (case as_str (idx body ''stop_reason'') of Some reason \<Rightarrow> [Stop (anthropic_parse_stop reason) usage] | None \<Rightarrow> []))"

subsection \<open>Writing a stream\<close>

type_synonym frame = "string \<times> json"

record anthropic_render =
  ar_id :: string
  ar_model :: string
  ar_started :: bool
  open_text :: "nat option"
  open_tools :: "(string \<times> nat) list"
  next_index :: nat
  ar_usage :: usage
  ar_finished :: bool

definition anthropic_render_new :: "string \<Rightarrow> string \<Rightarrow> anthropic_render" where
  "anthropic_render_new request_id model =
     \<lparr>ar_id = ''msg_'' @ request_id, ar_model = model, ar_started = False, open_text = None, open_tools = [],
      next_index = 0, ar_usage = usage_default, ar_finished = False\<rparr>"

definition frame_text :: "serde \<Rightarrow> frame \<Rightarrow> string" where
  "frame_text S f = ''event: '' @ fst f @ [CHR 0x0A] @ ''data: '' @ to_text S (snd f) @ [CHR 0x0A, CHR 0x0A]"

definition block_stop :: "nat \<Rightarrow> frame" where
  "block_stop index = (''content_block_stop'', JObj [(''type'', JStr ''content_block_stop''), (''index'', jnat index)])"

definition usage_json :: "usage \<Rightarrow> json" where
  "usage_json u = JObj [(''input_tokens'', jnat (input_tokens u)), (''output_tokens'', jnat (output_tokens u)),
     (''cache_read_input_tokens'', jnat (cache_read_tokens u)), (''cache_creation_input_tokens'', jnat (cache_write_tokens u))]"

definition stop_reason_str :: "stop_reason \<Rightarrow> string" where
  "stop_reason_str r =
     (case r of MaxTokens \<Rightarrow> ''max_tokens'' | StopSequence \<Rightarrow> ''stop_sequence'' | StopToolUse \<Rightarrow> ''tool_use''
      | StopRefusal \<Rightarrow> ''refusal'' | EndTurn \<Rightarrow> ''end_turn'')"

definition close_text :: "anthropic_render \<Rightarrow> frame list \<times> anthropic_render" where
  "close_text st = (case open_text st of Some index \<Rightarrow> ([block_stop index], st\<lparr>open_text := None\<rparr>) | None \<Rightarrow> ([], st))"

fun remove_first :: "string \<Rightarrow> (string \<times> nat) list \<Rightarrow> (string \<times> nat) list" where
  "remove_first tid [] = []"
| "remove_first tid ((k, i) # rest) = (if k = tid then rest else (k, i) # remove_first tid rest)"

definition close_tool :: "string \<Rightarrow> anthropic_render \<Rightarrow> frame list \<times> anthropic_render" where
  "close_tool tid st =
     (case map_of (open_tools st) tid of
        Some index \<Rightarrow> ([block_stop index], st\<lparr>open_tools := remove_first tid (open_tools st)\<rparr>)
      | None \<Rightarrow> ([], st))"

definition close_tools :: "anthropic_render \<Rightarrow> frame list \<times> anthropic_render" where
  "close_tools st = (map (\<lambda>(_, index). block_stop index) (open_tools st), st\<lparr>open_tools := []\<rparr>)"

definition tool_block :: "string \<Rightarrow> anthropic_render \<Rightarrow> nat option" where
  "tool_block tid st =
     (case map_of (open_tools st) tid of
        Some index \<Rightarrow> Some index
      | None \<Rightarrow> (if open_tools st = [] then None else Some (snd (last (open_tools st)))))"

definition message_start :: "anthropic_render \<Rightarrow> frame" where
  "message_start st =
     (''message_start'', JObj [(''type'', JStr ''message_start''),
        (''message'', JObj [(''id'', JStr (ar_id st)), (''type'', JStr ''message''), (''role'', JStr ''assistant''),
          (''model'', JStr (ar_model st)), (''content'', JArr []), (''stop_reason'', JNull), (''usage'', usage_json (ar_usage st))])])"

definition ensure_started :: "anthropic_render \<Rightarrow> frame list \<times> anthropic_render" where
  "ensure_started st = (if ar_started st then ([], st) else let st' = st\<lparr>ar_started := True\<rparr> in ([message_start st'], st'))"

definition block_start :: "nat \<Rightarrow> json \<Rightarrow> frame" where
  "block_start index block = (''content_block_start'',
     JObj [(''type'', JStr ''content_block_start''), (''index'', jnat index), (''content_block'', block)])"

definition block_delta :: "nat \<Rightarrow> json \<Rightarrow> frame" where
  "block_delta index delta = (''content_block_delta'',
     JObj [(''type'', JStr ''content_block_delta''), (''index'', jnat index), (''delta'', delta)])"

definition open_text_block :: "bool \<Rightarrow> anthropic_render \<Rightarrow> frame list \<times> anthropic_render" where
  "open_text_block is_thinking st =
     (case open_text st of
        Some _ \<Rightarrow> ([], st)
      | None \<Rightarrow>
          ([block_start (next_index st)
              (if is_thinking then JObj [(''type'', JStr ''thinking''), (''thinking'', JStr [])]
               else JObj [(''type'', JStr ''text''), (''text'', JStr [])])],
           st\<lparr>next_index := next_index st + 1, open_text := Some (next_index st)\<rparr>))"

definition text_delta :: "bool \<Rightarrow> string \<Rightarrow> json" where
  "text_delta is_thinking t =
     (if is_thinking then JObj [(''type'', JStr ''thinking_delta''), (''thinking'', JStr t)]
      else JObj [(''type'', JStr ''text_delta''), (''text'', JStr t)])"

definition render_text :: "string \<Rightarrow> bool \<Rightarrow> anthropic_render \<Rightarrow> frame list \<times> anthropic_render" where
  "render_text t is_thinking st =
     (case ensure_started st of (a, st) \<Rightarrow>
      case close_tools st of (b, st) \<Rightarrow>
      case open_text_block is_thinking st of (c, st) \<Rightarrow>
        (a @ b @ c @ [block_delta (case open_text st of Some index \<Rightarrow> index | None \<Rightarrow> 0)
            (text_delta is_thinking t)], st))"

definition message_delta :: "stop_reason \<Rightarrow> usage \<Rightarrow> frame" where
  "message_delta reason u = (''message_delta'',
     JObj [(''type'', JStr ''message_delta''),
       (''delta'', JObj [(''stop_reason'', JStr (stop_reason_str reason)), (''stop_sequence'', JNull)]),
       (''usage'', usage_json u)])"

fun anthropic_render_event :: "stream_event \<Rightarrow> anthropic_render \<Rightarrow> frame list \<times> anthropic_render" where
  "anthropic_render_event (Start model u) st =
     ensure_started (st\<lparr>ar_model := adopt_model (ar_model st) model, ar_usage := merge (ar_usage st) u\<rparr>)"
| "anthropic_render_event (TextDelta t) st = render_text t False st"
| "anthropic_render_event (ThinkingDelta t) st = render_text t True st"
| "anthropic_render_event (ToolUseStart tid name) st =
     (case ensure_started st of (a, st) \<Rightarrow>
      case close_text st of (b, st) \<Rightarrow>
        (a @ b @ [block_start (next_index st)
            (JObj [(''type'', JStr ''tool_use''), (''id'', JStr tid), (''name'', JStr name), (''input'', JObj [])])],
         st\<lparr>next_index := next_index st + 1, open_tools := open_tools st @ [(tid, next_index st)]\<rparr>))"
| "anthropic_render_event (ToolUseDelta tid partial_json) st =
     (case tool_block tid st of
        None \<Rightarrow> ([], st)
      | Some index \<Rightarrow>
          ([block_delta index (JObj [(''type'', JStr ''input_json_delta''), (''partial_json'', JStr partial_json)])], st))"
| "anthropic_render_event (ToolUseEnd tid) st = close_tool tid st"
| "anthropic_render_event (UsageUpdate u) st = ([], st\<lparr>ar_usage := merge (ar_usage st) u\<rparr>)"
| "anthropic_render_event (Stop reason u) st =
     (if ar_finished st then ([], st)
      else case ensure_started (st\<lparr>ar_finished := True, ar_usage := merge (ar_usage st) u\<rparr>) of (a, st) \<Rightarrow>
           case close_text st of (b, st) \<Rightarrow>
           case close_tools st of (c, st) \<Rightarrow>
             (a @ b @ c @ [message_delta reason (ar_usage st), (''message_stop'', JObj [(''type'', JStr ''message_stop'')])], st))"
| "anthropic_render_event (EventError message) st =
     ([(''error'', JObj [(''type'', JStr ''error''),
         (''error'', JObj [(''type'', JStr ''api_error''), (''message'', JStr message)])])], st)"

definition anthropic_render_text :: "serde \<Rightarrow> stream_event \<Rightarrow> anthropic_render \<Rightarrow> string option \<times> anthropic_render" where
  "anthropic_render_text S ev st =
     (case anthropic_render_event ev st of (out, st') \<Rightarrow>
        (if out \<noteq> [] then Some (concat (map (frame_text S) out)) else None, st'))"

subsection \<open>A whole answer\<close>

datatype open_block = OpenText string | OpenThinking string | OpenTool string string string

definition into_json :: "serde \<Rightarrow> open_block \<Rightarrow> json" where
  "into_json S b =
     (case b of
        OpenText t \<Rightarrow> JObj [(''type'', JStr ''text''), (''text'', JStr t)]
      | OpenThinking t \<Rightarrow> JObj [(''type'', JStr ''thinking''), (''thinking'', JStr t)]
      | OpenTool tid name input \<Rightarrow>
          JObj [(''type'', JStr ''tool_use''), (''id'', JStr tid), (''name'', JStr name), (''input'', parsed_or S (JObj []) input)])"

record collected =
  co_content :: "open_block list"
  co_open :: "open_block option"
  co_usage :: usage
  co_stop :: "stop_reason option"
  co_model :: string

definition close_block :: "collected \<Rightarrow> collected" where
  "close_block c =
     (case co_open c of Some b \<Rightarrow> c\<lparr>co_content := co_content c @ [b], co_open := None\<rparr> | None \<Rightarrow> c)"

definition open_block_as :: "open_block \<Rightarrow> collected \<Rightarrow> collected" where
  "open_block_as b c = (close_block c)\<lparr>co_open := Some b\<rparr>"

fun collect :: "stream_event \<Rightarrow> collected \<Rightarrow> collected" where
  "collect (Start announced u) c =
     c\<lparr>co_model := (if announced \<noteq> [] then announced else co_model c), co_usage := merge (co_usage c) u\<rparr>"
| "collect (UsageUpdate u) c = c\<lparr>co_usage := merge (co_usage c) u\<rparr>"
| "collect (TextDelta t) c =
     (case co_open c of Some (OpenText buf) \<Rightarrow> c\<lparr>co_open := Some (OpenText (buf @ t))\<rparr> | _ \<Rightarrow> open_block_as (OpenText t) c)"
| "collect (ThinkingDelta t) c =
     (case co_open c of Some (OpenThinking buf) \<Rightarrow> c\<lparr>co_open := Some (OpenThinking (buf @ t))\<rparr>
      | _ \<Rightarrow> open_block_as (OpenThinking t) c)"
| "collect (ToolUseStart tid name) c = open_block_as (OpenTool tid name []) c"
| "collect (ToolUseDelta tid partial_json) c =
     (case co_open c of
        Some (OpenTool open_id name input) \<Rightarrow>
          if open_id = tid then c\<lparr>co_open := Some (OpenTool open_id name (input @ partial_json))\<rparr>
          else open_block_as (OpenTool tid tid partial_json) c
      | _ \<Rightarrow> open_block_as (OpenTool tid tid partial_json) c)"
| "collect (ToolUseEnd _) c = close_block c"
| "collect (Stop reason u) c = c\<lparr>co_usage := merge (co_usage c) u, co_stop := Some reason\<rparr>"
| "collect (EventError _) c = c"

definition collect_all :: "string \<Rightarrow> stream_event list \<Rightarrow> collected" where
  "collect_all model evs =
     close_block (fold collect evs \<lparr>co_content = [], co_open = None, co_usage = usage_default, co_stop = None, co_model = model\<rparr>)"

definition is_tool_block :: "open_block \<Rightarrow> bool" where
  "is_tool_block b = (case b of OpenTool _ _ _ \<Rightarrow> True | _ \<Rightarrow> False)"

definition told_stop :: "collected \<Rightarrow> stop_reason option" where
  "told_stop c = (if co_stop c = Some EndTurn \<and> list_ex is_tool_block (co_content c) then Some StopToolUse else co_stop c)"

definition render_from_events :: "serde \<Rightarrow> stream_event list \<Rightarrow> string \<Rightarrow> string \<Rightarrow> json" where
  "render_from_events S evs request_id model =
     (let c = collect_all model evs in
      JObj [(''id'', JStr (''msg_'' @ request_id)), (''type'', JStr ''message''), (''role'', JStr ''assistant''),
        (''model'', JStr (co_model c)), (''content'', JArr (map (into_json S) (co_content c))),
        (''stop_reason'', case told_stop c of None \<Rightarrow> JNull | Some r \<Rightarrow> JStr (stop_reason_str r)),
        (''stop_sequence'', JNull), (''usage'', usage_json (co_usage c))])"


subsection \<open>A client of this dialect\<close>

text \<open>
  How a client of the dialect follows a stream: blocks are numbered from zero in the order they open, a
  delta goes to an open block of its own kind, a block closes once, and the message ends with every
  block closed. Anything else is a protocol error, \<open>None\<close>.
\<close>

datatype block_kind = KText | KThinking | KTool string string

record client_block =
  cb_kind :: block_kind
  cb_content :: string
  cb_open :: bool

record messages_client =
  mc_started :: bool
  mc_blocks :: "client_block list"
  mc_stop :: "stop_reason option"
  mc_usage :: "usage option"
  mc_done :: bool

definition messages_client_new :: messages_client where
  "messages_client_new = \<lparr>mc_started = False, mc_blocks = [], mc_stop = None, mc_usage = None, mc_done = False\<rparr>"

definition kind_of :: "json \<Rightarrow> block_kind option" where
  "kind_of b =
     (let t = idx b ''type'' in
      if t = JStr ''text'' then Some KText
      else if t = JStr ''thinking'' then Some KThinking
      else if t = JStr ''tool_use'' then Some (KTool (str_or [] (idx b ''id'')) (str_or [] (idx b ''name'')))
      else None)"

definition delta_for :: "block_kind \<Rightarrow> json \<Rightarrow> string option" where
  "delta_for k d =
     (let t = idx d ''type'' in
      case k of
        KText \<Rightarrow> if t = JStr ''text_delta'' then as_str (idx d ''text'') else None
      | KThinking \<Rightarrow> if t = JStr ''thinking_delta'' then as_str (idx d ''thinking'') else None
      | KTool _ _ \<Rightarrow> if t = JStr ''input_json_delta'' then as_str (idx d ''partial_json'') else None)"

definition addressed :: "json \<Rightarrow> messages_client \<Rightarrow> nat option" where
  "addressed v cl = find (\<lambda>i. idx v ''index'' = jnat i \<and> cb_open (mc_blocks cl ! i)) [0..<length (mc_blocks cl)]"

definition say_in :: "nat \<Rightarrow> string \<Rightarrow> client_block list \<Rightarrow> client_block list" where
  "say_in i s bs = bs[i := (bs ! i)\<lparr>cb_content := cb_content (bs ! i) @ s\<rparr>]"

definition shut :: "nat \<Rightarrow> client_block list \<Rightarrow> client_block list" where
  "shut i bs = bs[i := (bs ! i)\<lparr>cb_open := False\<rparr>]"

definition read_frame :: "frame \<Rightarrow> messages_client \<Rightarrow> messages_client option" where
  "read_frame f cl =
     (let v = snd f; bs = mc_blocks cl in
      if fst f = ''error'' then Some cl
      else if fst f = ''message_start'' then (if mc_started cl then None else Some (cl\<lparr>mc_started := True\<rparr>))
      else if \<not> mc_started cl \<or> mc_done cl then None
      else if fst f = ''content_block_start'' then
        (if idx v ''index'' \<noteq> jnat (length bs) then None
         else map_option (\<lambda>k. cl\<lparr>mc_blocks := bs @ [\<lparr>cb_kind = k, cb_content = [], cb_open = True\<rparr>]\<rparr>) (kind_of (idx v ''content_block'')))
      else if fst f = ''content_block_delta'' then
        Option.bind (addressed v cl) (\<lambda>i.
          map_option (\<lambda>s. cl\<lparr>mc_blocks := say_in i s bs\<rparr>) (delta_for (cb_kind (bs ! i)) (idx v ''delta'')))
      else if fst f = ''content_block_stop'' then
        map_option (\<lambda>i. cl\<lparr>mc_blocks := shut i bs\<rparr>) (addressed v cl)
      else if fst f = ''message_delta'' then
        (if list_ex cb_open bs then None
         else map_option (\<lambda>r. cl\<lparr>mc_stop := Some (anthropic_parse_stop r), mc_usage := Some (anthropic_parse_usage (idx v ''usage''))\<rparr>)
           (as_str (idx (idx v ''delta'') ''stop_reason'')))
      else if fst f = ''message_stop'' then (if mc_stop cl = None then None else Some (cl\<lparr>mc_done := True\<rparr>))
      else None)"

definition said :: "block_kind \<Rightarrow> client_block list \<Rightarrow> string" where
  "said k bs = concat (map (\<lambda>b. if cb_kind b = k then cb_content b else []) bs)"

definition call_of :: "client_block \<Rightarrow> (string \<times> string \<times> string) list" where
  "call_of b = (case cb_kind b of KTool tid name \<Rightarrow> [(tid, name, cb_content b)] | _ \<Rightarrow> [])"

definition calls_in :: "client_block list \<Rightarrow> (string \<times> string \<times> string) list" where
  "calls_in bs = concat (map call_of bs)"

definition client_content :: "anthropic_render \<Rightarrow> messages_client \<Rightarrow> answer" where
  "client_content st cl =
     \<lparr>an_text = said KText (mc_blocks cl), an_thinking = said KThinking (mc_blocks cl), an_calls = calls_in (mc_blocks cl),
      an_stop = mc_stop cl, an_usage = mc_usage cl, an_running = ar_usage st\<rparr>"

subsection \<open>The client follows the renderer\<close>

definition text_kind :: "bool \<Rightarrow> block_kind" where
  "text_kind reasoning = (if reasoning then KThinking else KText)"

definition open_indices :: "anthropic_render \<Rightarrow> nat set" where
  "open_indices st = set_option (open_text st) \<union> snd ` set (open_tools st)"

definition client_follows :: "tell \<Rightarrow> anthropic_render \<Rightarrow> messages_client \<Rightarrow> bool" where
  "client_follows t st cl \<longleftrightarrow>
     mc_started cl = ar_started st \<and> mc_done cl = ar_finished st \<and> (mc_stop cl \<noteq> None) = ar_finished st \<and> tl_done t = ar_finished st \<and>
     length (mc_blocks cl) = next_index st \<and> (\<not> ar_started st \<longrightarrow> next_index st = 0 \<and> \<not> ar_finished st) \<and>
     (open_text st = None \<longleftrightarrow> tl_reasoning t = None) \<and> (tl_reasoning t = None \<or> open_tools st = []) \<and>
     (\<forall>i. open_text st = Some i \<longrightarrow> Suc i = next_index st \<and> cb_kind (mc_blocks cl ! i) = text_kind (the (tl_reasoning t))) \<and>
     map fst (open_tools st) = tl_open t \<and> distinct (tl_open t) \<and> distinct (map snd (open_tools st)) \<and>
     (\<forall>(tid, i) \<in> set (open_tools st). i < next_index st \<and> (\<exists>name. cb_kind (mc_blocks cl ! i) = KTool tid name)) \<and>
     {i. i < next_index st \<and> cb_open (mc_blocks cl ! i)} = open_indices st \<and>
     (ar_finished st \<longrightarrow> open_indices st = {}) \<and>
     distinct (map fst (calls_in (mc_blocks cl))) \<and> fst ` set (calls_in (mc_blocks cl)) = set (tl_seen t)"


lemma jnat_inj [simp]: "jnat i = jnat j \<longleftrightarrow> i = j"
  by (auto simp: jnat_def dest: show_nat_inj)

lemma addressed_at:
  assumes "idx v ''index'' = jnat i" and "i < length (mc_blocks cl)" and "cb_open (mc_blocks cl ! i)"
  shows "addressed v cl = Some i"
  unfolding addressed_def find_Some_iff using assms by (intro exI [of _ i]) auto

lemma map_update_same: "i < length bs \<Longrightarrow> f b = f (bs ! i) \<Longrightarrow> map f (bs[i := b]) = map f bs"
  by (simp add: map_update list_update_same_conv)

lemma said_update: "i < length bs \<Longrightarrow> cb_kind b = cb_kind (bs ! i) \<Longrightarrow> cb_content b = cb_content (bs ! i) \<Longrightarrow>
    said k (bs[i := b]) = said k bs \<and> calls_in (bs[i := b]) = calls_in bs"
  unfolding said_def calls_in_def
  by (intro conjI arg_cong [where f = concat] map_update_same) (simp_all add: call_of_def split: block_kind.split)

lemma shut_simps [simp]: "length (shut i bs) = length bs" "said k (shut i bs) = said k bs" "calls_in (shut i bs) = calls_in bs"
  "j < length bs \<Longrightarrow> cb_kind (shut i bs ! j) = cb_kind (bs ! j)"
  "j < length bs \<Longrightarrow> cb_open (shut i bs ! j) \<longleftrightarrow> cb_open (bs ! j) \<and> j \<noteq> i"
  unfolding shut_def by (cases "i < length bs"; simp add: nth_list_update said_update list_update_beyond)+

lemma shut_all_simps [simp]: "length (fold shut is bs) = length bs" "said k (fold shut is bs) = said k bs"
  "calls_in (fold shut is bs) = calls_in bs"
  "j < length bs \<Longrightarrow> cb_kind (fold shut is bs ! j) = cb_kind (bs ! j)"
  "j < length bs \<Longrightarrow> cb_open (fold shut is bs ! j) \<longleftrightarrow> cb_open (bs ! j) \<and> j \<notin> set is"
  by (induction "is" arbitrary: bs) auto

lemma say_in_simps [simp]: "length (say_in i s bs) = length bs"
  "j < length bs \<Longrightarrow> cb_kind (say_in i s bs ! j) = cb_kind (bs ! j)"
  "j < length bs \<Longrightarrow> cb_open (say_in i s bs ! j) = cb_open (bs ! j)"
  by (cases "i < length bs"; auto simp: say_in_def nth_list_update)+

lemma say_last: "Suc i = length bs \<Longrightarrow>
    said k (say_in i s bs) = said k bs @ (if cb_kind (bs ! i) = k then s else [])"
  by (cases bs rule: rev_cases) (simp_all add: say_in_def said_def nth_append list_update_append)

lemma say_elsewhere:
  assumes "i < length bs" and "cb_kind (bs ! i) \<noteq> k"
  shows "said k (say_in i s bs) = said k bs"
  unfolding said_def say_in_def by (intro arg_cong [where f = concat] map_update_same) (use assms in simp_all)

lemma say_no_call:
  assumes "i < length bs" and "\<And>tid name. cb_kind (bs ! i) \<noteq> KTool tid name"
  shows "calls_in (say_in i s bs) = calls_in bs"
  unfolding calls_in_def say_in_def
  by (intro arg_cong [where f = concat] map_update_same) (use assms in \<open>auto simp: call_of_def split: block_kind.splits\<close>)

lemma calls_in_Cons: "calls_in (b # bs) = call_of b @ calls_in bs"
  by (simp add: calls_in_def)

lemma add_fragment_other: "tid \<notin> fst ` set calls \<Longrightarrow> add_fragment tid s calls = calls"
  unfolding add_fragment_def by (intro map_idI) force

lemma add_fragment_append: "add_fragment tid s (xs @ ys) = add_fragment tid s xs @ add_fragment tid s ys"
  by (simp add: add_fragment_def)

lemma say_call:
  "i < length bs \<Longrightarrow> cb_kind (bs ! i) = KTool tid name \<Longrightarrow> distinct (map fst (calls_in bs)) \<Longrightarrow>
   calls_in (say_in i s bs) = add_fragment tid s (calls_in bs)"
proof (induction bs arbitrary: i)
  case (Cons b bs)
  show ?case
  proof (cases i)
    case 0
    with Cons.prems have b: "call_of b = [(tid, name, cb_content b)]" by (simp add: call_of_def)
    with Cons.prems(3) have "tid \<notin> fst ` set (calls_in bs)" by (simp add: calls_in_Cons)
    with 0 Cons.prems(2) show ?thesis
      by (simp add: say_in_def calls_in_Cons add_fragment_append add_fragment_other) (simp add: call_of_def add_fragment_def)
  next
    case (Suc j)
    have "(tid, name, cb_content (bs ! j)) \<in> set (calls_in bs)"
      using Cons.prems Suc by (auto simp: calls_in_def call_of_def intro!: bexI [of _ "bs ! j"])
    then have "tid \<notin> fst ` set (call_of b)" using Cons.prems(3) by (force simp: calls_in_Cons)
    with Suc Cons show ?thesis
      by (simp add: say_in_def calls_in_Cons add_fragment_append add_fragment_other)
  qed
qed simp


definition leads :: "messages_client \<Rightarrow> frame list \<times> anthropic_render \<Rightarrow> tell \<Rightarrow> answer \<Rightarrow> bool" where
  "leads cl r t a \<longleftrightarrow>
     (\<exists>cl'. read_all read_frame (fst r) cl = Some cl' \<and> client_follows t (snd r) cl' \<and> client_content (snd r) cl' = a)"

lemma leads_append:
  assumes "leads cl (out, st1) t1 a1"
    and "\<And>cl1. client_follows t1 st1 cl1 \<Longrightarrow> client_content st1 cl1 = a1 \<Longrightarrow> leads cl1 (out', st2) t2 a2"
  shows "leads cl (out @ out', st2) t2 a2"
  using assms unfolding leads_def by (fastforce simp: read_all_append)

lemma open_is_live: "client_follows t st cl \<Longrightarrow> i \<in> open_indices st \<Longrightarrow>
    mc_started cl \<and> \<not> mc_done cl \<and> i < length (mc_blocks cl) \<and> cb_open (mc_blocks cl ! i)"
  by (auto simp: client_follows_def)

lemma read_stops:
  assumes "distinct is" and "mc_started cl" and "\<not> mc_done cl"
    and "\<And>i. i \<in> set is \<Longrightarrow> i < length (mc_blocks cl) \<and> cb_open (mc_blocks cl ! i)"
  shows "read_all read_frame (map block_stop is) cl = Some (cl\<lparr>mc_blocks := fold shut is (mc_blocks cl)\<rparr>)"
  using assms
proof (induction "is" arbitrary: cl)
  case (Cons i "is")
  have "addressed (snd (block_stop i)) cl = Some i"
    using Cons.prems(4) by (intro addressed_at) (simp_all add: block_stop_def json_simps)
  then have "read_frame (block_stop i) cl = Some (cl\<lparr>mc_blocks := shut i (mc_blocks cl)\<rparr>)"
    using Cons.prems by (simp add: read_frame_def block_stop_def)
  with Cons.IH [of "cl\<lparr>mc_blocks := shut i (mc_blocks cl)\<rparr>"] Cons.prems show ?case by auto
qed simp

lemma leads_started:
  assumes "client_follows t st cl"
  shows "leads cl (ensure_started st) t (client_content st cl)"
  using assms by (auto simp: leads_def ensure_started_def Let_def client_follows_def message_start_def read_frame_def open_indices_def client_content_def)

lemma started_is_started: "ar_started (snd (ensure_started st))" "open_text (snd (ensure_started st)) = open_text st"
  "open_tools (snd (ensure_started st)) = open_tools st" "next_index (snd (ensure_started st)) = next_index st"
  "ar_finished (snd (ensure_started st)) = ar_finished st" "ar_usage (snd (ensure_started st)) = ar_usage st"
  by (simp_all add: ensure_started_def Let_def)

lemma leads_close_text:
  assumes "client_follows t st cl"
  shows "leads cl (close_text st) (t\<lparr>tl_reasoning := None\<rparr>) (client_content st cl)"
proof (cases "open_text st")
  case None
  with assms show ?thesis by (simp add: leads_def close_text_def client_follows_def)
next
  case (Some i)
  have live: "mc_started cl" "\<not> mc_done cl" "i < length (mc_blocks cl)" "cb_open (mc_blocks cl ! i)"
    using open_is_live [OF assms, of i] Some by (simp_all add: open_indices_def)
  have "read_all read_frame [block_stop i] cl = Some (cl\<lparr>mc_blocks := shut i (mc_blocks cl)\<rparr>)"
    using read_stops [of "[i]" cl] live by simp
  moreover have "client_follows (t\<lparr>tl_reasoning := None\<rparr>) (st\<lparr>open_text := None\<rparr>) (cl\<lparr>mc_blocks := shut i (mc_blocks cl)\<rparr>)"
    using assms Some by (auto simp: client_follows_def open_indices_def)
  ultimately show ?thesis by (simp add: leads_def close_text_def Some client_content_def)
qed

lemma leads_close_tools:
  assumes "client_follows t st cl"
  shows "leads cl (close_tools st) (t\<lparr>tl_open := []\<rparr>) (client_content st cl)"
proof (cases "open_tools st")
  case Nil
  with assms show ?thesis by (auto simp: leads_def close_tools_def client_follows_def open_indices_def client_content_def)
next
  case (Cons x xs)
  let ?is = "map snd (open_tools st)"
  have live: "i \<in> set ?is \<Longrightarrow> mc_started cl \<and> \<not> mc_done cl \<and> i < length (mc_blocks cl) \<and> cb_open (mc_blocks cl ! i)" for i
    using open_is_live [OF assms, of i] by (simp add: open_indices_def)
  have "mc_started cl" "\<not> mc_done cl" using live [of "snd x"] Cons by auto
  then have "read_all read_frame (map block_stop ?is) cl = Some (cl\<lparr>mc_blocks := fold shut ?is (mc_blocks cl)\<rparr>)"
    using live assms by (intro read_stops) (auto simp: client_follows_def)
  moreover have "client_follows (t\<lparr>tl_open := []\<rparr>) (st\<lparr>open_tools := []\<rparr>) (cl\<lparr>mc_blocks := fold shut ?is (mc_blocks cl)\<rparr>)"
    using assms Cons by (auto simp: client_follows_def open_indices_def)
  ultimately show ?thesis by (simp add: leads_def close_tools_def client_content_def case_prod_unfold comp_def)
qed


lemma remove_first_spec:
  "distinct (map fst xs) \<Longrightarrow> remove_first tid xs = filter (\<lambda>(k, _). k \<noteq> tid) xs"
proof (induction xs)
  case (Cons x xs)
  have "filter (\<lambda>(k, _). k \<noteq> tid) xs = xs" if "fst x = tid" using Cons.prems that by (intro filter_True) (auto simp: image_iff)
  with Cons show ?case by (cases x) auto
qed simp

lemma leads_close_tool:
  assumes "client_follows t st cl"
  shows "leads cl (close_tool tid st) (t\<lparr>tl_open := removeAll tid (tl_open t)\<rparr>) (client_content st cl)"
proof -
  have d: "distinct (map fst (open_tools st))" "distinct (map snd (open_tools st))" and op: "map fst (open_tools st) = tl_open t"
    using assms by (simp_all add: client_follows_def)
  show ?thesis
  proof (cases "map_of (open_tools st) tid")
    case None
    then have "tid \<notin> set (tl_open t)" using op by (metis map_of_eq_None_iff set_map)
    with None assms show ?thesis by (simp add: leads_def close_tool_def)
  next
    case (Some i)
    then have mem: "(tid, i) \<in> set (open_tools st)" by (rule map_of_SomeD)
    let ?left = "filter (\<lambda>(k, _). k \<noteq> tid) (open_tools st)"
    have live: "mc_started cl" "\<not> mc_done cl" "i < length (mc_blocks cl)" "cb_open (mc_blocks cl ! i)"
      using open_is_live [OF assms, of i] mem by (force simp: open_indices_def)+
    have "read_all read_frame [block_stop i] cl = Some (cl\<lparr>mc_blocks := shut i (mc_blocks cl)\<rparr>)"
      using read_stops [of "[i]" cl] live by simp
    moreover have "client_follows (t\<lparr>tl_open := removeAll tid (tl_open t)\<rparr>) (st\<lparr>open_tools := ?left\<rparr>) (cl\<lparr>mc_blocks := shut i (mc_blocks cl)\<rparr>)"
    proof -
      have inj: "inj_on fst (set (open_tools st))" "inj_on snd (set (open_tools st))" using d by (simp_all add: distinct_map)
      have uniq: "k = tid \<longleftrightarrow> j = i" if "(k, j) \<in> set (open_tools st)" for k j
        using inj_onD [OF inj(1) _ that mem] inj_onD [OF inj(2) _ that mem] by auto
      then have "snd ` set ?left = snd ` set (open_tools st) - {i}" by force
      moreover have "map fst ?left = removeAll tid (tl_open t)"
        unfolding op [symmetric] removeAll_filter_not_eq filter_map by (auto intro!: arg_cong [where f = "map fst"] filter_cong)
      moreover have "distinct (map snd ?left)" using d by (simp add: distinct_map_filter)
      moreover have len: "length (mc_blocks cl) = next_index st" and "tl_reasoning t = None \<or> open_tools st = []"
        and "open_text st = None \<longleftrightarrow> tl_reasoning t = None"
        and opn: "{j. j < next_index st \<and> cb_open (mc_blocks cl ! j)} = open_indices st"
        and kinds: "\<forall>(k, j) \<in> set (open_tools st). j < next_index st \<and> (\<exists>name. cb_kind (mc_blocks cl ! j) = KTool k name)"
        using assms unfolding client_follows_def by - (elim conjE, assumption)+
      moreover have "open_text st = None" using calculation(5,6) mem by auto
      moreover have "{j. j < next_index st \<and> cb_open (shut i (mc_blocks cl) ! j)} = open_indices st - {i}"
        unfolding opn [symmetric] using len by auto
      ultimately show ?thesis using assms by (simp add: client_follows_def open_indices_def distinct_removeAll) (use kinds in force)
    qed
    ultimately show ?thesis by (simp add: leads_def close_tool_def Some client_content_def remove_first_spec [OF d(1)])
  qed
qed

lemma leads_open_text:
  assumes "client_follows t st cl" and "ar_started st" and "\<not> ar_finished st" and "open_tools st = []"
    and "tl_reasoning t \<noteq> Some (\<not> reasoning)"
  shows "leads cl (open_text_block reasoning st) (t\<lparr>tl_reasoning := Some reasoning\<rparr>) (client_content st cl)"
proof (cases "open_text st")
  case None
  let ?cl = "cl\<lparr>mc_blocks := mc_blocks cl @ [\<lparr>cb_kind = text_kind reasoning, cb_content = [], cb_open = True\<rparr>]\<rparr>"
  have "read_all read_frame (fst (open_text_block reasoning st)) cl = Some ?cl"
    using assms None by (simp add: open_text_block_def read_frame_def block_start_def kind_of_def json_simps client_follows_def text_kind_def Let_def)
  moreover have "client_follows (t\<lparr>tl_reasoning := Some reasoning\<rparr>) (snd (open_text_block reasoning st)) ?cl"
    using assms None
    by (auto simp: client_follows_def open_text_block_def open_indices_def nth_append calls_in_def call_of_def text_kind_def less_Suc_eq)
  moreover have "client_content (snd (open_text_block reasoning st)) ?cl = client_content st cl"
    by (simp add: client_content_def said_def calls_in_def call_of_def open_text_block_def None text_kind_def)
  ultimately show ?thesis by (auto simp: leads_def)
next
  case (Some i)
  with assms have "tl_reasoning t = Some reasoning" by (auto simp: client_follows_def)
  then have "t\<lparr>tl_reasoning := Some reasoning\<rparr> = t" by simp
  with Some assms(1) show ?thesis by (simp add: leads_def open_text_block_def)
qed


lemma follows_blocks:
  assumes "client_follows t st cl" and "length bs = length (mc_blocks cl)"
    and same: "\<And>j. j < length bs \<Longrightarrow> cb_kind (bs ! j) = cb_kind (mc_blocks cl ! j) \<and> cb_open (bs ! j) = cb_open (mc_blocks cl ! j)"
    and "distinct (map fst (calls_in bs))" and "fst ` set (calls_in bs) = set (tl_seen t)"
  shows "client_follows t st (cl\<lparr>mc_blocks := bs\<rparr>)"
proof -
  have len: "length (mc_blocks cl) = next_index st" and opn: "{j. j < next_index st \<and> cb_open (mc_blocks cl ! j)} = open_indices st"
    and kinds: "\<forall>(k, j) \<in> set (open_tools st). j < next_index st \<and> (\<exists>name. cb_kind (mc_blocks cl ! j) = KTool k name)"
    and words: "\<forall>i. open_text st = Some i \<longrightarrow> Suc i = next_index st \<and> cb_kind (mc_blocks cl ! i) = text_kind (the (tl_reasoning t))"
    using assms(1) unfolding client_follows_def by - (elim conjE, assumption)+
  have "{j. j < next_index st \<and> cb_open (bs ! j)} = open_indices st"
    unfolding opn [symmetric] using same len assms(2) by auto
  moreover have "\<forall>(k, j) \<in> set (open_tools st). j < next_index st \<and> (\<exists>name. cb_kind (bs ! j) = KTool k name)"
    using kinds same len assms(2) by auto
  moreover have "\<forall>i. open_text st = Some i \<longrightarrow> Suc i = next_index st \<and> cb_kind (bs ! i) = text_kind (the (tl_reasoning t))"
    using words same len assms(2) by auto
  ultimately show ?thesis using assms(1,2,4,5) len by (simp add: client_follows_def)
qed

lemma leads_say:
  assumes "client_follows t st cl" and "i \<in> open_indices st" and "delta_for (cb_kind (mc_blocks cl ! i)) d = Some s"
    and "client_content st (cl\<lparr>mc_blocks := say_in i s (mc_blocks cl)\<rparr>) = a" and "fst ` set (an_calls a) = set (tl_seen t)"
    and "distinct (map fst (an_calls a))"
  shows "leads cl ([block_delta i d], st) t a"
proof -
  have live: "mc_started cl" "\<not> mc_done cl" "i < length (mc_blocks cl)" "cb_open (mc_blocks cl ! i)"
    using open_is_live [OF assms(1,2)] by simp_all
  have "addressed (snd (block_delta i d)) cl = Some i"
    using live by (intro addressed_at) (simp_all add: block_delta_def json_simps)
  then have "read_frame (block_delta i d) cl = Some (cl\<lparr>mc_blocks := say_in i s (mc_blocks cl)\<rparr>)"
    using live assms(3) by (simp add: read_frame_def block_delta_def json_simps)
  moreover have "an_calls a = calls_in (say_in i s (mc_blocks cl))" by (simp flip: assms(4) add: client_content_def)
  then have "client_follows t st (cl\<lparr>mc_blocks := say_in i s (mc_blocks cl)\<rparr>)"
    using assms(5,6) by (intro follows_blocks [OF assms(1)]) simp_all
  ultimately show ?thesis using assms(4) by (simp add: leads_def)
qed

definition words_event :: "bool \<Rightarrow> string \<Rightarrow> stream_event" where
  "words_event reasoning s = (if reasoning then ThinkingDelta s else TextDelta s)"

lemma leads_words:
  assumes "client_follows t st cl" and "open_text st = Some i" and "tl_reasoning t = Some reasoning"
  shows "leads cl ([block_delta i
      (text_delta reasoning s)], st) t
    (hear same_word c (words_event reasoning s) (client_content st cl))"
proof (rule leads_say [OF assms(1), where s = s])
  have i: "Suc i = length (mc_blocks cl)" "cb_kind (mc_blocks cl ! i) = text_kind reasoning"
    using assms by (simp_all add: client_follows_def)
  show "i \<in> open_indices st" using assms(2) by (simp add: open_indices_def)
  show "delta_for (cb_kind (mc_blocks cl ! i))
      (text_delta reasoning s) = Some s"
    by (simp add: i(2) delta_for_def text_kind_def text_delta_def json_simps)
  have "calls_in (say_in i s (mc_blocks cl)) = calls_in (mc_blocks cl)"
    using i by (intro say_no_call) (simp_all add: text_kind_def)
  then show "client_content st (cl\<lparr>mc_blocks := say_in i s (mc_blocks cl)\<rparr>) =
      hear same_word c (words_event reasoning s) (client_content st cl)"
    using i by (simp add: client_content_def say_last text_kind_def words_event_def)
qed (use assms(1) in \<open>simp_all add: client_content_def client_follows_def words_event_def\<close>)

lemma leads_open_tool:
  assumes "client_follows t st cl" and "ar_started st" and "\<not> ar_finished st" and "open_text st = None" and "tid \<notin> set (tl_seen t)"
  shows "leads cl ([block_start (next_index st)
        (JObj [(''type'', JStr ''tool_use''), (''id'', JStr tid), (''name'', JStr name), (''input'', JObj [])])],
      st\<lparr>next_index := next_index st + 1, open_tools := open_tools st @ [(tid, next_index st)]\<rparr>)
    (t\<lparr>tl_reasoning := None, tl_open := tl_open t @ [tid], tl_seen := tid # tl_seen t\<rparr>)
    (hear same_word c (ToolUseStart tid name) (client_content st cl))"
proof -
  let ?b = "\<lparr>cb_kind = KTool tid name, cb_content = [], cb_open = True\<rparr>"
  let ?cl = "cl\<lparr>mc_blocks := mc_blocks cl @ [?b]\<rparr>"
  let ?st = "st\<lparr>next_index := next_index st + 1, open_tools := open_tools st @ [(tid, next_index st)]\<rparr>"
  have len: "length (mc_blocks cl) = next_index st" and opn: "{j. j < next_index st \<and> cb_open (mc_blocks cl ! j)} = open_indices st"
    and kinds: "\<forall>(k, j) \<in> set (open_tools st). j < next_index st \<and> (\<exists>name. cb_kind (mc_blocks cl ! j) = KTool k name)"
    and calls: "fst ` set (calls_in (mc_blocks cl)) = set (tl_seen t)" and op: "map fst (open_tools st) = tl_open t"
    using assms(1) unfolding client_follows_def by - (elim conjE, assumption)+
  have "k \<in> set (tl_seen t)" if "(k, j) \<in> set (open_tools st)" for k j
  proof -
    from that kinds obtain n where "j < next_index st" "cb_kind (mc_blocks cl ! j) = KTool k n" by auto
    then have "(k, n, cb_content (mc_blocks cl ! j)) \<in> set (calls_in (mc_blocks cl))"
      using len by (auto simp: calls_in_def call_of_def intro!: bexI [of _ "mc_blocks cl ! j"])
    with calls show ?thesis by force
  qed
  then have fresh: "tid \<notin> set (tl_open t)" unfolding op [symmetric] using assms(5) by auto
  have new_calls: "calls_in (mc_blocks cl @ [?b]) = calls_in (mc_blocks cl) @ [(tid, name, [])]"
    by (simp add: calls_in_def call_of_def)
  have rd: "read_all read_frame [block_start (next_index st)
      (JObj [(''type'', JStr ''tool_use''), (''id'', JStr tid), (''name'', JStr name), (''input'', JObj [])])] cl = Some ?cl"
    using assms len by (simp add: read_frame_def block_start_def kind_of_def json_simps client_follows_def Let_def)
  have "{j. j < next_index ?st \<and> cb_open (mc_blocks ?cl ! j)} = open_indices ?st"
    using opn len by (auto simp: open_indices_def nth_append less_Suc_eq)
  moreover have "\<forall>(k, j) \<in> set (open_tools ?st). j < next_index ?st \<and> (\<exists>name. cb_kind (mc_blocks ?cl ! j) = KTool k name)"
    using kinds len by (auto simp: nth_append)
  moreover have "next_index st \<notin> snd ` set (open_tools st)" using kinds by auto
  ultimately have "client_follows (t\<lparr>tl_reasoning := None, tl_open := tl_open t @ [tid], tl_seen := tid # tl_seen t\<rparr>) ?st ?cl"
    using assms fresh calls by (simp add: client_follows_def new_calls)
  then show ?thesis
    unfolding leads_def using rd by (intro exI [of _ ?cl]) (simp add: client_content_def new_calls said_def)
qed


lemma leads_render_text:
  assumes "client_follows t st cl" and "tell_words False reasoning t = Some t'"
  shows "leads cl (render_text s reasoning st) t'
    (hear same_word c (words_event reasoning s) (client_content st cl))"
proof -
  obtain a st1 where s1: "ensure_started st = (a, st1)" by force
  obtain b st2 where s2: "close_tools st1 = (b, st2)" by force
  obtain d st3 where s3: "open_text_block reasoning st2 = (d, st3)" by force
  let ?t2 = "t\<lparr>tl_open := []\<rparr>"
  have t: "\<not> tl_done t" "tl_reasoning t \<noteq> Some (\<not> reasoning)" "t' = ?t2\<lparr>tl_reasoning := Some reasoning\<rparr>"
    using assms(2) by (auto simp: tell_words_def split: if_splits)
  have st2: "ar_started st2" "open_tools st2 = []" "ar_finished st2 = ar_finished st"
    using started_is_started [of st] s1 s2 by (auto simp: close_tools_def)
  have fin: "\<not> ar_finished st" using t(1) assms(1) by (simp add: client_follows_def)
  obtain i where i: "open_text st3 = Some i"
    using s3 by (auto simp: open_text_block_def split: option.splits)
  have out: "render_text s reasoning st = (a @ b @ d @ [block_delta i
      (text_delta reasoning s)], st3)"
    by (simp add: render_text_def s1 s2 s3 i)
  show ?thesis unfolding out
  proof (rule leads_append [OF leads_started [OF assms(1), unfolded s1]])
    fix cl1 assume f1: "client_follows t st1 cl1" "client_content st1 cl1 = client_content st cl"
    show "leads cl1 (b @ d @ [block_delta i
        (text_delta reasoning s)], st3) t'
      (hear same_word c (words_event reasoning s) (client_content st cl))"
    proof (rule leads_append [OF leads_close_tools [OF f1(1), unfolded s2]])
      fix cl2 assume f2: "client_follows ?t2 st2 cl2" "client_content st2 cl2 = client_content st1 cl1"
      have l3: "leads cl2 (d, st3) t' (client_content st2 cl2)"
        using leads_open_text [OF f2(1) st2(1) _ st2(2), of reasoning] fin t st2(3) s3 by simp
      show "leads cl2 (d @ [block_delta i
          (text_delta reasoning s)], st3) t'
        (hear same_word c (words_event reasoning s) (client_content st cl))"
      proof (rule leads_append [OF l3])
        fix cl3 assume "client_follows t' st3 cl3" "client_content st3 cl3 = client_content st2 cl2"
        then show "leads cl3 ([block_delta i (text_delta reasoning s)], st3) t' (hear same_word c (words_event reasoning s) (client_content st cl))"
          using leads_words [OF _ i, of t' cl3 reasoning s c] t(3) f1(2) f2(2) by simp
      qed
    qed
  qed
qed

lemma leads_tool_start:
  assumes "client_follows t st cl" and "\<not> tl_done t" and "tid \<notin> set (tl_seen t)"
  shows "leads cl (anthropic_render_event (ToolUseStart tid name) st)
    (t\<lparr>tl_reasoning := None, tl_open := tl_open t @ [tid], tl_seen := tid # tl_seen t\<rparr>)
    (hear same_word c (ToolUseStart tid name) (client_content st cl))"
proof -
  obtain a st1 where s1: "ensure_started st = (a, st1)" by force
  obtain b st2 where s2: "close_text st1 = (b, st2)" by force
  have st2: "ar_started st2" "open_text st2 = None" "ar_finished st2 = ar_finished st"
    using started_is_started [of st] s1 s2 by (auto simp: close_text_def split: option.splits)
  have fin: "\<not> ar_finished st2" using assms(1,2) st2(3) by (simp add: client_follows_def)
  have two: "leads cl1 (b @ [block_start (next_index st2)
        (JObj [(''type'', JStr ''tool_use''), (''id'', JStr tid), (''name'', JStr name), (''input'', JObj [])])],
      st2\<lparr>next_index := next_index st2 + 1, open_tools := open_tools st2 @ [(tid, next_index st2)]\<rparr>)
    (t\<lparr>tl_reasoning := None, tl_open := tl_open t @ [tid], tl_seen := tid # tl_seen t\<rparr>)
    (hear same_word c (ToolUseStart tid name) (client_content st cl))"
    if "client_follows t st1 cl1" "client_content st1 cl1 = client_content st cl" for cl1
    using leads_open_tool [OF _ st2(1) fin st2(2), of _ _ tid name c] assms(3) that(2)
    by (intro leads_append [OF leads_close_text [OF that(1), unfolded s2]]) fastforce
  show ?thesis
    using leads_append [OF leads_started [OF assms(1), unfolded s1] two] by (simp add: s1 s2)
qed


definition told_usage :: "usage \<Rightarrow> usage" where
  "told_usage u = anthropic_parse_usage (usage_json u)"

lemma stop_word_roundtrip [simp]: "anthropic_parse_stop (stop_reason_str r) = r"
  by (cases r) (simp_all add: anthropic_parse_stop_def stop_reason_str_def)

lemma finished_commutes:
  "ensure_started (st\<lparr>ar_finished := f\<rparr>) = apsnd (ar_finished_update (\<lambda>_. f)) (ensure_started st)"
  "close_text (st\<lparr>ar_finished := f\<rparr>) = apsnd (ar_finished_update (\<lambda>_. f)) (close_text st)"
  "close_tools (st\<lparr>ar_finished := f\<rparr>) = apsnd (ar_finished_update (\<lambda>_. f)) (close_tools st)"
  by (simp_all add: ensure_started_def close_text_def close_tools_def message_start_def Let_def split: option.split)

lemma usage_kept: "ar_usage (snd (close_text st)) = ar_usage st" "ar_usage (snd (close_tools st)) = ar_usage st"
  "ar_started (snd (close_text st)) = ar_started st" "ar_started (snd (close_tools st)) = ar_started st"
  by (simp_all add: close_text_def close_tools_def split: option.split)

lemma leads_message_end:
  assumes "client_follows t st cl" and "\<not> tl_done t" and "ar_started st" and "open_indices st = {}"
  shows "leads cl ([message_delta reason (ar_usage st), (''message_stop'', JObj [(''type'', JStr ''message_stop'')])], st\<lparr>ar_finished := True\<rparr>)
    (t\<lparr>tl_done := True\<rparr>) ((client_content st cl)\<lparr>an_usage := Some (told_usage (ar_usage st)), an_stop := Some reason\<rparr>)"
proof -
  let ?cl = "cl\<lparr>mc_stop := Some reason, mc_usage := Some (told_usage (ar_usage st)), mc_done := True\<rparr>"
  have len: "length (mc_blocks cl) = next_index st" and opn: "{j. j < next_index st \<and> cb_open (mc_blocks cl ! j)} = open_indices st"
    using assms(1) unfolding client_follows_def by - (elim conjE, assumption)+
  then have "\<not> list_ex cb_open (mc_blocks cl)" using assms(4) by (auto simp: list_ex_iff in_set_conv_nth)
  then have "read_all read_frame [message_delta reason (ar_usage st), (''message_stop'', JObj [(''type'', JStr ''message_stop'')])] cl = Some ?cl"
    using assms by (simp add: read_frame_def message_delta_def client_follows_def json_simps told_usage_def Let_def)
  moreover have "client_follows (t\<lparr>tl_done := True\<rparr>) (st\<lparr>ar_finished := True\<rparr>) ?cl"
    using assms by (simp add: client_follows_def open_indices_def)
  ultimately show ?thesis by (simp add: leads_def client_content_def)
qed

lemma leads_stop:
  assumes "client_follows t st cl" and "\<not> tl_done t"
  shows "leads cl (anthropic_render_event (Stop reason u) st) (t\<lparr>tl_reasoning := None, tl_open := [], tl_done := True\<rparr>)
    (hear same_word told_usage (Stop reason u) (client_content st cl))"
proof -
  define st0 where "st0 = st\<lparr>ar_usage := merge (ar_usage st) u\<rparr>"
  have f0: "client_follows t st0 cl" and fin: "\<not> ar_finished st" using assms by (simp_all add: client_follows_def open_indices_def st0_def)
  have silent: "mc_stop cl = None" using assms(1) fin by (cases "mc_stop cl") (simp_all add: client_follows_def)
  obtain a st1 where s1: "ensure_started st0 = (a, st1)" by force
  obtain b st2 where s2: "close_text st1 = (b, st2)" by force
  obtain d st3 where s3: "close_tools st2 = (d, st3)" by force
  have st3: "ar_started st3" "open_indices st3 = {}" "ar_usage st3 = merge (ar_usage st) u"
    using started_is_started [of st0] usage_kept [of st1] usage_kept [of st2] s1 s2 s3
    by (auto simp: open_indices_def st0_def close_text_def close_tools_def split: option.splits)
  let ?fin = "[message_delta reason (ar_usage st3), (''message_stop'', JObj [(''type'', JStr ''message_stop'')])]"
  let ?t3 = "t\<lparr>tl_reasoning := None, tl_open := []\<rparr>" and ?a = "client_content st0 cl"
  have out: "anthropic_render_event (Stop reason u) st = (a @ b @ d @ ?fin, st3\<lparr>ar_finished := True\<rparr>)"
  proof -
    have "st\<lparr>ar_finished := True, ar_usage := merge (ar_usage st) u\<rparr> = st0\<lparr>ar_finished := True\<rparr>" by (simp add: st0_def)
    then show ?thesis using fin s1 s2 s3 by (simp add: finished_commutes)
  qed
  have l3: "leads cl3 (?fin, st3\<lparr>ar_finished := True\<rparr>) (?t3\<lparr>tl_done := True\<rparr>)
      (?a\<lparr>an_usage := Some (told_usage (ar_usage st3)), an_stop := Some reason\<rparr>)"
    if "client_follows ?t3 st3 cl3" "client_content st3 cl3 = ?a" for cl3
    using leads_message_end [OF that(1) _ st3(1,2), of reason] assms(2) that(2) by simp
  have l2: "leads cl2 (d @ ?fin, st3\<lparr>ar_finished := True\<rparr>) (?t3\<lparr>tl_done := True\<rparr>)
      (?a\<lparr>an_usage := Some (told_usage (ar_usage st3)), an_stop := Some reason\<rparr>)"
    if "client_follows (t\<lparr>tl_reasoning := None\<rparr>) st2 cl2" "client_content st2 cl2 = ?a" for cl2
    by (rule leads_append [OF leads_close_tools [OF that(1), unfolded s3]]) (use l3 that(2) in simp)
  have l1: "leads cl1 (b @ d @ ?fin, st3\<lparr>ar_finished := True\<rparr>) (?t3\<lparr>tl_done := True\<rparr>)
      (?a\<lparr>an_usage := Some (told_usage (ar_usage st3)), an_stop := Some reason\<rparr>)"
    if "client_follows t st1 cl1" "client_content st1 cl1 = ?a" for cl1
    by (rule leads_append [OF leads_close_text [OF that(1), unfolded s2]]) (use l2 that(2) in simp)
  have "leads cl (a @ b @ d @ ?fin, st3\<lparr>ar_finished := True\<rparr>) (?t3\<lparr>tl_done := True\<rparr>)
      (?a\<lparr>an_usage := Some (told_usage (ar_usage st3)), an_stop := Some reason\<rparr>)"
    by (rule leads_append [OF leads_started [OF f0, unfolded s1]]) (use l1 in simp)
  then show ?thesis unfolding out using st3(3) silent by (simp add: client_content_def st0_def Let_def same_word_def)
qed

lemma add_fragment_ids [simp]: "map fst (add_fragment tid s calls) = map fst calls" "fst ` set (add_fragment tid s calls) = fst ` set calls"
  by (force simp: add_fragment_def)+

lemma leads_tool_delta:
  assumes "client_follows t st cl" and "tid \<in> set (tl_open t)"
  shows "leads cl (anthropic_render_event (ToolUseDelta tid frag) st) t (hear same_word c (ToolUseDelta tid frag) (client_content st cl))"
proof -
  have len: "length (mc_blocks cl) = next_index st" and op: "map fst (open_tools st) = tl_open t"
    and kinds: "\<forall>(k, j) \<in> set (open_tools st). j < next_index st \<and> (\<exists>name. cb_kind (mc_blocks cl ! j) = KTool k name)"
    and calls: "distinct (map fst (calls_in (mc_blocks cl)))" "fst ` set (calls_in (mc_blocks cl)) = set (tl_seen t)"
    using assms(1) unfolding client_follows_def by - (elim conjE, assumption)+
  obtain i where i: "map_of (open_tools st) tid = Some i" using assms(2) op by (metis domIff map_of_eq_None_iff not_None_eq set_map)
  then have mem: "(tid, i) \<in> set (open_tools st)" by (rule map_of_SomeD)
  with kinds obtain name where k: "i < length (mc_blocks cl)" "cb_kind (mc_blocks cl ! i) = KTool tid name" using len by auto
  let ?d = "JObj [(''type'', JStr ''input_json_delta''), (''partial_json'', JStr frag)]"
  have "leads cl ([block_delta i ?d], st) t (hear same_word c (ToolUseDelta tid frag) (client_content st cl))"
  proof (rule leads_say [OF assms(1), where s = frag])
    show "i \<in> open_indices st" using mem by (force simp: open_indices_def)
    show "delta_for (cb_kind (mc_blocks cl ! i)) ?d = Some frag" by (simp add: k(2) delta_for_def json_simps)
    show "client_content st (cl\<lparr>mc_blocks := say_in i frag (mc_blocks cl)\<rparr>) = hear same_word c (ToolUseDelta tid frag) (client_content st cl)"
      using say_call [OF k calls(1)] k by (simp add: client_content_def say_elsewhere)
  qed (use calls in \<open>simp_all add: client_content_def\<close>)
  then show ?thesis by (simp add: tool_block_def i)
qed

lemma leads_event:
  assumes "client_follows t st cl" and "tell_step False ev t = Some t'"
  shows "leads cl (anthropic_render_event ev st) t' (hear same_word told_usage ev (client_content st cl))"
proof (cases ev)
  case (Start model u)
  let ?st = "st\<lparr>ar_model := adopt_model (ar_model st) model, ar_usage := merge (ar_usage st) u\<rparr>"
  have "client_follows t ?st cl" using assms(1) by (simp add: client_follows_def open_indices_def)
  from leads_started [OF this] Start assms(2) show ?thesis by (simp add: client_content_def)
next
  case (TextDelta s)
  with assms(2) leads_render_text [OF assms(1), of False] show ?thesis by (simp add: words_event_def)
next
  case (ThinkingDelta s)
  with assms(2) leads_render_text [OF assms(1), of True] show ?thesis by (simp add: words_event_def)
next
  case (ToolUseStart tid name)
  with assms(2) leads_tool_start [OF assms(1), of tid name] show ?thesis by (auto split: if_splits)
next
  case (ToolUseDelta tid frag)
  with assms(2) leads_tool_delta [OF assms(1)] show ?thesis by (auto split: if_splits)
next
  case (ToolUseEnd tid)
  with assms(2) leads_close_tool [OF assms(1), of tid] show ?thesis by simp
next
  case (UsageUpdate u)
  with assms show ?thesis by (simp add: leads_def client_follows_def open_indices_def client_content_def)
next
  case (Stop reason u)
  show ?thesis
  proof (cases "tl_done t")
    case True
    with assms(1) have fin: "ar_finished st" "mc_stop cl \<noteq> None" by (simp_all add: client_follows_def)
    with assms(1) have "open_text st = None" "open_tools st = []" by (auto simp: client_follows_def open_indices_def)
    with assms(1) have "tl_reasoning t = None" "tl_open t = []" by (simp_all add: client_follows_def)
    with Stop True assms(2) have "t' = t" by (cases t) auto
    with Stop fin assms(1) show ?thesis by (simp add: leads_def client_content_def)
  next
    case False
    with Stop leads_stop [OF assms(1)] assms(2) show ?thesis by simp
  qed
next
  case (EventError m)
  with assms show ?thesis by (simp add: leads_def read_frame_def)
qed


interpretation messages: faithful_stream anthropic_render_event read_frame client_follows client_content "tell_step False" same_word told_usage
  by unfold_locales (use leads_event in \<open>auto simp: leads_def\<close>)

definition usage_fits :: "usage \<Rightarrow> bool" where
  "usage_fits u \<longleftrightarrow> input_tokens u \<le> u64_max \<and> output_tokens u \<le> u64_max \<and> cache_read_tokens u \<le> u64_max \<and> cache_write_tokens u \<le> u64_max"

lemma told_usage_fits: "usage_fits u \<Longrightarrow> told_usage u = u"
  by (cases u) (simp add: told_usage_def usage_json_def anthropic_parse_usage_def usage_fits_def json_simps)

lemma merge_fits: "usage_fits u \<Longrightarrow> usage_fits v \<Longrightarrow> usage_fits (merge u v)"
  by (simp add: usage_fits_def merge_def)

text \<open>
  C19. A stream written for a client of this dialect is one its client can follow, and says what the events
  said: blocks are numbered in order, every delta goes to an open block of its own kind, the message
  ends with every block closed, and the client ends with the text, the reasoning, each call's own
  arguments (however the calls interleave), the reason for stopping and the merged usage. The streams
  meant are those in which text and reasoning never follow one another without a call opening between
  them (text straight after reasoning is the case \<open>text_after_reasoning_is_misplaced\<close> below shows the
  code to get wrong), a call's id is used once and its fragments come while it is open and before
  further text or reasoning, no words and no call follow the stop, and every reported count is in range.
\<close>

theorem messages_stream_is_faithful:
  fixes rid model :: string
  assumes "tellable (tell_step False) evs tell_new" and "\<forall>ev \<in> set evs. \<forall>u. reported_usage ev = Some u \<longrightarrow> usage_fits u"
  defines "r \<equiv> render_all anthropic_render_event evs (anthropic_render_new rid model)"
  shows "\<exists>cl. read_all read_frame (fst r) messages_client_new = Some cl \<and>
    client_content (snd r) cl = fold (hear same_word id) evs nothing_said \<and>
    (mc_done cl \<longleftrightarrow> an_stop (fold (hear same_word id) evs nothing_said) \<noteq> None) \<and> (mc_done cl \<longrightarrow> \<not> list_ex cb_open (mc_blocks cl))"
proof -
  have "client_follows tell_new (anthropic_render_new rid model) messages_client_new"
    by (simp add: client_follows_def tell_new_def anthropic_render_new_def messages_client_new_def open_indices_def calls_in_def)
  from messages.told_all [OF this assms(1)] obtain t cl where
    cl: "read_all read_frame (fst r) messages_client_new = Some cl" "client_follows t (snd r) cl"
      "client_content (snd r) cl = fold (hear same_word told_usage) evs (client_content (anthropic_render_new rid model) messages_client_new)"
    unfolding r_def by blast
  have "client_content (anthropic_render_new rid model) messages_client_new = nothing_said"
    by (simp add: client_content_def anthropic_render_new_def messages_client_new_def nothing_said_def said_def calls_in_def)
  then have told: "client_content (snd r) cl = fold (hear same_word id) evs nothing_said"
    using cl(3) hear_counts [OF merge_fits _ assms(2), of told_usage id nothing_said same_word] told_usage_fits
    by (simp add: nothing_said_def usage_fits_def usage_default_def)
  then have "an_stop (fold (hear same_word id) evs nothing_said) = mc_stop cl" by (simp add: client_content_def flip: told)
  moreover have "mc_done cl \<longleftrightarrow> mc_stop cl \<noteq> None" using cl(2) by (auto simp: client_follows_def)
  moreover have "\<not> list_ex cb_open (mc_blocks cl)" if "mc_done cl"
    using cl(2) that by (auto simp: client_follows_def list_ex_iff in_set_conv_nth)
  ultimately show ?thesis using cl(1) told by auto
qed

theorem messages_stream_is_faithful_witness:
  "\<exists>cl. read_all read_frame (fst (render_all anthropic_render_event interleaved_calls (anthropic_render_new ''r'' ''m''))) messages_client_new = Some cl \<and>
     calls_in (mc_blocks cl) = [(''a'', ''read'', ''{}''), (''b'', ''write'', ''['')] \<and> mc_done cl"
proof -
  have "tellable (tell_step False) interleaved_calls tell_new" by (simp add: interleaved_calls_def tell_new_def)
  moreover have "\<forall>ev \<in> set interleaved_calls. \<forall>u. reported_usage ev = Some u \<longrightarrow> usage_fits u"
    by (simp add: interleaved_calls_def usage_fits_def usage_default_def)
  moreover have "an_calls (fold (hear same_word id) interleaved_calls nothing_said) = [(''a'', ''read'', ''{}''), (''b'', ''write'', ''['')]"
    "an_stop (fold (hear same_word id) interleaved_calls nothing_said) = Some StopToolUse"
    by (simp_all add: interleaved_calls_def nothing_said_def add_fragment_def Let_def same_word_def)
  ultimately show ?thesis
    using messages_stream_is_faithful [of interleaved_calls "''r''" "''m''"] by (metis answer.select_convs(3) client_content_def option.distinct(1))
qed

text \<open>
  Reasoning followed by text is not followed. Whatever was written before, if no block of words is open, the text
  is written into the block the reasoning opened, which has no place for it, and no client of the dialect can
  take it.
\<close>

definition reasons_at :: "nat \<Rightarrow> messages_client \<Rightarrow> bool" where
  "reasons_at i cl \<longleftrightarrow> i < length (mc_blocks cl) \<and> cb_kind (mc_blocks cl ! i) = KThinking"

lemma addressed_is: "addressed v cl = Some j \<Longrightarrow> j < length (mc_blocks cl) \<and> idx v ''index'' = jnat j"
  by (auto simp: addressed_def dest!: find_SomeD)

lemma reasons_at_steps:
  "read_frame (block_start i (JObj [(''type'', JStr ''thinking''), (''thinking'', JStr [])])) cl = Some cl' \<Longrightarrow> reasons_at i cl'"
  "reasons_at i cl \<Longrightarrow> read_frame (block_delta i d) cl = Some cl' \<Longrightarrow> reasons_at i cl'"
  "reasons_at i cl \<Longrightarrow> read_frame (block_delta i (JObj [(''type'', JStr ''text_delta''), (''text'', JStr b)])) cl = None"
proof -
  show "read_frame (block_start i (JObj [(''type'', JStr ''thinking''), (''thinking'', JStr [])])) cl = Some cl' \<Longrightarrow> reasons_at i cl'"
    by (auto simp: read_frame_def block_start_def json_simps kind_of_def reasons_at_def Let_def split: if_splits)
  show "reasons_at i cl \<Longrightarrow> read_frame (block_delta i d) cl = Some cl' \<Longrightarrow> reasons_at i cl'"
    by (auto simp: read_frame_def block_delta_def reasons_at_def bind_eq_Some_conv Let_def split: if_splits)
  show "reasons_at i cl \<Longrightarrow> read_frame (block_delta i (JObj [(''type'', JStr ''text_delta''), (''text'', JStr b)])) cl = None"
    by (cases "addressed (JObj [(''type'', JStr ''content_block_delta''), (''index'', jnat i),
          (''delta'', JObj [(''type'', JStr ''text_delta''), (''text'', JStr b)])]) cl")
      (auto simp: read_frame_def block_delta_def reasons_at_def json_simps delta_for_def Let_def dest!: addressed_is)
qed

lemma text_in_reasoning_is_refused:
  "read_all read_frame [block_start i (JObj [(''type'', JStr ''thinking''), (''thinking'', JStr [])]),
      block_delta i (JObj [(''type'', JStr ''thinking_delta''), (''thinking'', JStr a)]),
      block_delta i (JObj [(''type'', JStr ''text_delta''), (''text'', JStr b)])] cl = None"
proof (rule ccontr)
  assume "\<not> ?thesis"
  then obtain c1 c2 c3 where
    "read_frame (block_start i (JObj [(''type'', JStr ''thinking''), (''thinking'', JStr [])])) cl = Some c1"
    "read_frame (block_delta i (JObj [(''type'', JStr ''thinking_delta''), (''thinking'', JStr a)])) c1 = Some c2"
    "read_frame (block_delta i (JObj [(''type'', JStr ''text_delta''), (''text'', JStr b)])) c2 = Some c3"
    by (auto simp: bind_eq_Some_conv)
  then show False using reasons_at_steps by (metis option.distinct(1))
qed

lemma text_after_reasoning_is_misplaced:
  fixes a b :: string and st :: anthropic_render
  assumes "open_text st = None"
  defines "out \<equiv> fst (render_all anthropic_render_event [ThinkingDelta a, TextDelta b] st)"
  shows "(\<exists>before. out = before @
      [block_start (next_index st) (JObj [(''type'', JStr ''thinking''), (''thinking'', JStr [])]),
       block_delta (next_index st) (JObj [(''type'', JStr ''thinking_delta''), (''thinking'', JStr a)]),
       block_delta (next_index st) (JObj [(''type'', JStr ''text_delta''), (''text'', JStr b)])]) \<and>
    read_all read_frame out cl = None"
proof -
  have "\<exists>before. out = before @
      [block_start (next_index st) (JObj [(''type'', JStr ''thinking''), (''thinking'', JStr [])]),
       block_delta (next_index st) (JObj [(''type'', JStr ''thinking_delta''), (''thinking'', JStr a)]),
       block_delta (next_index st) (JObj [(''type'', JStr ''text_delta''), (''text'', JStr b)])]"
    using assms(1) by (auto simp: out_def render_text_def ensure_started_def close_tools_def open_text_block_def text_delta_def Let_def)
  then obtain before where before: "out = before @
      [block_start (next_index st) (JObj [(''type'', JStr ''thinking''), (''thinking'', JStr [])]),
       block_delta (next_index st) (JObj [(''type'', JStr ''thinking_delta''), (''thinking'', JStr a)]),
       block_delta (next_index st) (JObj [(''type'', JStr ''text_delta''), (''text'', JStr b)])]" ..
  have "read_all read_frame out cl = None"
    unfolding before read_all_append
    by (cases "read_all read_frame before cl") (simp_all only: bind.bind_lzero bind.bind_lunit text_in_reasoning_is_refused)
  with before show ?thesis by blast
qed

end
