(* ===== verification/Collected.thy ===== *)
theory Collected
  imports Messages_Stream
begin

text \<open>
  The whole body a collected answer is rendered through (\<^verbatim>\<open>render_from_events\<close> of
  \<^verbatim>\<open>oag-proto/src/anthropic.rs\<close>), and what is read back from one.
\<close>

subsection \<open>What is collected\<close>

text \<open>
  Streams whose calls come one after another: a fragment belongs to the call that is open, an id is used
  once, and the stop is the end.
\<close>

record in_order =
  io_call :: "string option"
  io_seen :: "string list"
  io_done :: bool

definition in_order_new :: in_order where
  "in_order_new = \<lparr>io_call = None, io_seen = [], io_done = False\<rparr>"

fun in_order_event :: "stream_event \<Rightarrow> in_order \<Rightarrow> in_order option" where
  "in_order_event (ToolUseStart tid _) t =
     (if tid \<in> set (io_seen t) then None else Some (t\<lparr>io_call := Some tid, io_seen := tid # io_seen t\<rparr>))"
| "in_order_event (ToolUseDelta tid _) t = (if io_call t = Some tid then Some t else None)"
| "in_order_event (TextDelta _) t = Some (t\<lparr>io_call := None\<rparr>)"
| "in_order_event (ThinkingDelta _) t = Some (t\<lparr>io_call := None\<rparr>)"
| "in_order_event (ToolUseEnd _) t = Some (t\<lparr>io_call := None\<rparr>)"
| "in_order_event (Stop _ _) t = Some (t\<lparr>io_done := True\<rparr>)"
| "in_order_event _ t = Some t"

definition in_order_step :: "stream_event \<Rightarrow> in_order \<Rightarrow> in_order option" where
  "in_order_step ev t = (if io_done t then None else in_order_event ev t)"

definition all_blocks :: "collected \<Rightarrow> open_block list" where
  "all_blocks c = co_content c @ (case co_open c of Some b \<Rightarrow> [b] | None \<Rightarrow> [])"

definition block_text :: "open_block \<Rightarrow> string" where
  "block_text b = (case b of OpenText t \<Rightarrow> t | _ \<Rightarrow> [])"

definition block_thinking :: "open_block \<Rightarrow> string" where
  "block_thinking b = (case b of OpenThinking t \<Rightarrow> t | _ \<Rightarrow> [])"

definition block_call :: "open_block \<Rightarrow> (string \<times> string \<times> string) list" where
  "block_call b = (case b of OpenTool tid name input \<Rightarrow> [(tid, name, input)] | _ \<Rightarrow> [])"

lemmas block_parts = block_text_def block_thinking_def block_call_def

definition collected_content :: "collected \<Rightarrow> unit \<Rightarrow> answer" where
  "collected_content c u =
     \<lparr>an_text = concat (map block_text (all_blocks c)), an_thinking = concat (map block_thinking (all_blocks c)),
      an_calls = concat (map block_call (all_blocks c)), an_stop = co_stop c,
      an_usage = (if co_stop c = None then None else Some (co_usage c)), an_running = co_usage c\<rparr>"

definition collects :: "in_order \<Rightarrow> collected \<Rightarrow> unit \<Rightarrow> bool" where
  "collects t c u \<longleftrightarrow>
     io_done t = (co_stop c \<noteq> None) \<and>
     (\<forall>tid. io_call t = Some tid \<longrightarrow> (\<exists>name input. co_open c = Some (OpenTool tid name input))) \<and>
     fst ` set (an_calls (collected_content c u)) = set (io_seen t) \<and> distinct (map fst (an_calls (collected_content c u)))"

lemma all_blocks_simps [simp]: "all_blocks (close_block c) = all_blocks c"
  "all_blocks (open_block_as b c) = all_blocks c @ [b]"
  "all_blocks (c\<lparr>co_usage := u\<rparr>) = all_blocks c" "all_blocks (c\<lparr>co_stop := s\<rparr>) = all_blocks c"
  "all_blocks (c\<lparr>co_model := m\<rparr>) = all_blocks c"
  by (simp_all add: all_blocks_def close_block_def open_block_as_def split: option.split)

lemma close_block_simps [simp]: "co_stop (close_block c) = co_stop c" "co_usage (close_block c) = co_usage c"
  "co_open (close_block c) = None" "co_stop (open_block_as b c) = co_stop c" "co_usage (open_block_as b c) = co_usage c"
  "co_open (open_block_as b c) = Some b" "co_model (close_block c) = co_model c" "co_model (open_block_as b c) = co_model c"
  by (simp_all add: close_block_def open_block_as_def split: option.split)

lemma collect_words:
  "collected_content (collect (TextDelta s) c) u = hear same_word id (TextDelta s) (collected_content c u)"
  "collected_content (collect (ThinkingDelta s) c) u = hear same_word id (ThinkingDelta s) (collected_content c u)"
  "co_stop (collect (TextDelta s) c) = co_stop c" "co_stop (collect (ThinkingDelta s) c) = co_stop c"
  by (auto simp: collected_content_def block_parts all_blocks_def open_block_as_def close_block_def split: option.split open_block.split)

lemma collect_told:
  assumes "collects t c ()" and "in_order_step ev t = Some t'"
  shows "collects t' (collect ev c) () \<and> collected_content (collect ev c) () = hear same_word id ev (collected_content c ())"
proof (cases ev)
  case (ToolUseDelta tid frag)
  obtain name input where o: "co_open c = Some (OpenTool tid name input)" and t': "t' = t" "\<not> io_done t"
    using assms ToolUseDelta by (auto simp: collects_def in_order_step_def split: if_splits)
  let ?old = "concat (map block_call (co_content c))"
  have calls: "an_calls (collected_content c ()) = ?old @ [(tid, name, input)]"
    by (simp add: collected_content_def all_blocks_def o block_call_def)
  then have "tid \<notin> fst ` set ?old" using assms(1) by (auto simp: collects_def)
  then have "add_fragment tid frag (an_calls (collected_content c ())) = ?old @ [(tid, name, input @ frag)]"
    unfolding calls by (simp add: add_fragment_append add_fragment_other) (simp add: add_fragment_def)
  then have "collected_content (collect ev c) () = hear same_word id ev (collected_content c ())"
    by (simp add: ToolUseDelta o collected_content_def all_blocks_def block_parts)
  moreover from this have "collects t' (collect ev c) ()"
    using assms(1) t' by (auto simp: collects_def ToolUseDelta o)
  ultimately show ?thesis by simp
next
  case (TextDelta s)
  then show ?thesis using assms by (auto simp: collects_def in_order_step_def collect_words simp del: collect.simps split: if_splits)
next
  case (ThinkingDelta s)
  then show ?thesis using assms by (auto simp: collects_def in_order_step_def collect_words simp del: collect.simps split: if_splits)
qed (use assms in \<open>auto simp: collects_def in_order_step_def collected_content_def block_parts Let_def same_word_def split: if_splits\<close>)

interpretation collector: faithful_stream "\<lambda>ev c. ([] :: frame list, collect ev c)" "\<lambda>_ u. Some (u :: unit)" collects
    collected_content in_order_step same_word id
  by unfold_locales (use collect_told in auto)


subsection \<open>What is read back\<close>

definition block_events :: "serde \<Rightarrow> open_block \<Rightarrow> stream_event list" where
  "block_events S b =
     (case b of
        OpenText t \<Rightarrow> [TextDelta t]
      | OpenThinking t \<Rightarrow> [ThinkingDelta t]
      | OpenTool tid name input \<Rightarrow>
          [ToolUseStart tid name, ToolUseDelta tid (to_text S (parsed_or S (JObj []) input)), ToolUseEnd tid])"

lemma response_block_into_json: "anthropic_response_block S (into_json S b) = block_events S b"
  by (cases b) (simp_all add: anthropic_response_block_def into_json_def block_events_def json_simps Let_def)

lemma parse_rendered:
  assumes "usage_fits (co_usage (collect_all model evs))"
  defines "c \<equiv> collect_all model evs"
  shows "anthropic_parse_response S (render_from_events S evs rid model) =
    [UsageUpdate (co_usage c)] @ concat (map (block_events S) (co_content c)) @
    (case told_stop c of None \<Rightarrow> [] | Some r \<Rightarrow> [Stop r (co_usage c)])"
  using told_usage_fits [OF assms(1)]
  by (simp add: anthropic_parse_response_def render_from_events_def json_simps Let_def comp_def response_block_into_json
      told_usage_def flip: c_def split: option.split)

definition settled :: "serde \<Rightarrow> string \<Rightarrow> bool" where
  "settled S args \<longleftrightarrow> (\<exists>v. from_text S args = Inr v \<and> to_text S v = args)"

text \<open>
  What arguments are after a whole body: read and written again, in the serialiser's spelling, with the empty
  object for a text that is not JSON, an empty one included.
\<close>

definition respell :: "serde \<Rightarrow> string \<Rightarrow> string" where
  "respell S args = to_text S (parsed_or S (JObj []) args)"

definition respelt :: "serde \<Rightarrow> (string \<times> string \<times> string) list \<Rightarrow> (string \<times> string \<times> string) list" where
  "respelt S calls = map (\<lambda>(tid, name, args). (tid, name, respell S args)) calls"

lemma respelt_simps [simp]: "respelt S [] = []" "respelt S (xs @ ys) = respelt S xs @ respelt S ys"
  "fst ` set (respelt S xs) = fst ` set xs" "map fst (respelt S xs) = map fst xs"
  by (force simp: respelt_def comp_def case_prod_beta)+

lemma hear_block:
  assumes "\<forall>(tid, name, args) \<in> set (block_call b). tid \<notin> fst ` set (an_calls a)"
  shows "fold (hear w u) (block_events S b) a =
    a\<lparr>an_text := an_text a @ block_text b, an_thinking := an_thinking a @ block_thinking b,
      an_calls := an_calls a @ respelt S (block_call b)\<rparr>"
  using assms
  by (cases b) (auto simp: block_events_def block_parts respelt_def respell_def add_fragment_append add_fragment_other, simp_all add: add_fragment_def)

lemma hear_blocks:
  assumes "distinct (map fst (an_calls a @ concat (map block_call bs)))"
  shows "fold (hear w u) (concat (map (block_events S) bs)) a =
    a\<lparr>an_text := an_text a @ concat (map block_text bs), an_thinking := an_thinking a @ concat (map block_thinking bs),
      an_calls := an_calls a @ respelt S (concat (map block_call bs))\<rparr>"
  using assms
proof (induction bs arbitrary: a)
  case (Cons b bs)
  let ?a = "a\<lparr>an_text := an_text a @ block_text b, an_thinking := an_thinking a @ block_thinking b,
      an_calls := an_calls a @ respelt S (block_call b)\<rparr>"
  have "fold (hear w u) (block_events S b) a = ?a"
    using Cons.prems by (intro hear_block) (cases b; simp add: block_call_def)
  moreover have "distinct (map fst (an_calls ?a @ concat (map block_call bs)))" using Cons.prems by auto
  ultimately show ?case using Cons.IH [of ?a] by simp
qed simp

lemma collected_close [simp]: "collected_content (close_block c) u = collected_content c u"
  by (simp add: collected_content_def)

definition settled_stop :: "answer \<Rightarrow> stop_reason option" where
  "settled_stop a = (if an_stop a = Some EndTurn \<and> an_calls a \<noteq> [] then Some StopToolUse else an_stop a)"

lemma collected_all:
  fixes model :: string
  assumes "tellable in_order_step evs in_order_new"
  defines "c \<equiv> collect_all model evs" and "a \<equiv> fold (hear same_word id) evs nothing_said"
  shows "collected_content c () = a" and "co_open c = None" and "distinct (map fst (an_calls a))"
    and "co_content c = all_blocks c" and "told_stop c = settled_stop a" and "co_usage c = an_running a"
    and "an_usage a = (if an_stop a = None then None else Some (co_usage c))"
proof -
  let ?c0 = "\<lparr>co_content = [], co_open = None, co_usage = usage_default, co_stop = None, co_model = model\<rparr>"
  have "collects in_order_new ?c0 ()" "collected_content ?c0 () = nothing_said"
    by (simp_all add: collects_def in_order_new_def collected_content_def all_blocks_def nothing_said_def)
  moreover have "snd (render_all (\<lambda>ev c. ([] :: frame list, collect ev c)) evs c) = fold collect evs c" for c
    by (induction evs arbitrary: c) (simp_all add: case_prod_beta)
  ultimately obtain t where t: "collects t (fold collect evs ?c0) ()" "collected_content (fold collect evs ?c0) () = a"
    using collector.told_all [OF _ assms(1), of ?c0 "()"] by (auto simp: a_def)
  have c: "c = close_block (fold collect evs ?c0)" by (simp add: c_def collect_all_def)
  show content: "collected_content c () = a" using t(2) by (simp add: c)
  show "co_open c = None" by (simp add: c)
  then show blocks: "co_content c = all_blocks c" by (simp add: all_blocks_def)
  show "distinct (map fst (an_calls a))" using t by (simp add: collects_def)
  show "co_usage c = an_running a" by (simp add: collected_content_def flip: content)
  show "an_usage a = (if an_stop a = None then None else Some (co_usage c))" by (simp add: collected_content_def flip: content)
  have "list_ex is_tool_block (all_blocks c) \<longleftrightarrow> an_calls a \<noteq> []"
    by (auto simp: collected_content_def list_ex_iff is_tool_block_def block_call_def simp flip: content split: open_block.splits)
  then show "told_stop c = settled_stop a"
    by (simp add: told_stop_def settled_stop_def blocks) (simp add: collected_content_def flip: content)
qed


lemma merge_units [simp]: "merge usage_default u = u" "merge u u = u"
  by (cases u, simp_all add: merge_def usage_default_def)

lemma default_fits [simp]: "usage_fits usage_default" "usage_fits (an_running nothing_said)"
  by (simp_all add: usage_fits_def usage_default_def nothing_said_def)

text \<open>
  C21. The whole body a collected answer becomes says what the stream said, for streams whose calls come one
  after another, each under its own id, with nothing after the stop and counts in range. Reading the
  body back gives the same text, the same reasoning, the same usage and the same calls in the same order.
  Two things are not kept letter for letter: the arguments of a call come back in the serialiser's own
  spelling, and as the empty object where their text was not JSON, as the empty text of a call without arguments
  is not; and an answer that holds a call and ended its turn is said to have stopped for the tool.
\<close>

theorem collected_answer_roundtrip:
  fixes evs :: "stream_event list"
  defines "a \<equiv> fold (hear same_word id) evs nothing_said"
  assumes "tellable in_order_step evs in_order_new" and "\<forall>ev \<in> set evs. \<forall>u. reported_usage ev = Some u \<longrightarrow> usage_fits u"
  shows "fold (hear same_word id) (anthropic_parse_response S (render_from_events S evs rid model)) nothing_said =
    a\<lparr>an_calls := map (\<lambda>(tid, name, args). (tid, name, to_text S (case from_text S args of Inr v \<Rightarrow> v | Inl _ \<Rightarrow> JObj [])))
        (an_calls a),
      an_stop := if an_stop a = Some EndTurn \<and> an_calls a \<noteq> [] then Some StopToolUse else an_stop a\<rparr>"
proof -
  let ?c = "collect_all model evs"
  note all = collected_all [OF assms(2), folded a_def]
  have content: "an_text a = concat (map block_text (co_content ?c))" "an_thinking a = concat (map block_thinking (co_content ?c))"
    "an_calls a = concat (map block_call (co_content ?c))"
    using all(1) [of model] by (auto simp: collected_content_def all(4))
  have fits: "usage_fits (co_usage ?c)" 
    using hear_counts [OF merge_fits refl assms(3) default_fits(2), of same_word id] all(6) by (simp add: a_def)
  have said: "fold (hear same_word id) (concat (map (block_events S) (co_content ?c))) (nothing_said\<lparr>an_running := co_usage ?c\<rparr>) =
      nothing_said\<lparr>an_text := an_text a, an_thinking := an_thinking a, an_calls := respelt S (an_calls a), an_running := co_usage ?c\<rparr>"
    using hear_blocks [of "nothing_said\<lparr>an_running := co_usage ?c\<rparr>" "co_content ?c" same_word id S] all(3)
    by (simp add: content nothing_said_def)
  have stops: "settled_stop a = None \<longleftrightarrow> an_stop a = None" by (simp add: settled_stop_def)
  have "hear same_word id (UsageUpdate (co_usage ?c)) nothing_said = nothing_said\<lparr>an_running := co_usage ?c\<rparr>"
    by (simp add: nothing_said_def)
  then have "fold (hear same_word id) (anthropic_parse_response S (render_from_events S evs rid model)) nothing_said =
    fold (hear same_word id) (case settled_stop a of None \<Rightarrow> [] | Some r \<Rightarrow> [Stop r (co_usage ?c)])
      (nothing_said\<lparr>an_text := an_text a, an_thinking := an_thinking a, an_calls := respelt S (an_calls a), an_running := co_usage ?c\<rparr>)"
    unfolding parse_rendered [OF fits] all(5) by (simp add: said)
  also have "\<dots> = a\<lparr>an_calls := respelt S (an_calls a), an_stop := settled_stop a\<rparr>"
    using all(6,7) stops by (cases "settled_stop a") (auto simp: nothing_said_def Let_def same_word_def intro!: answer.equality)
  finally show ?thesis unfolding respelt_def respell_def parsed_or_def settled_stop_def .
qed

definition one_answer :: "stream_event list" where
  "one_answer = [TextDelta ''ok'', ToolUseStart ''a'' ''f'', ToolUseDelta ''a'' ''{}'', ToolUseEnd ''a'', Stop EndTurn usage_default]"

definition bare_call :: "stream_event list" where
  "bare_call = [TextDelta ''ok'', ToolUseStart ''a'' ''f'', ToolUseEnd ''a'', Stop EndTurn usage_default]"

theorem collected_answer_roundtrip_witness:
  "let told = fold (hear same_word id) (anthropic_parse_response tiny_serde (render_from_events tiny_serde bare_call ''r'' ''m'')) nothing_said
   in an_calls told = [(''a'', ''f'', ''{}'')] \<and> an_stop told = Some StopToolUse"
proof -
  have said: "an_calls (fold (hear same_word id) bare_call nothing_said) = [(''a'', ''f'', [])]"
      "an_stop (fold (hear same_word id) bare_call nothing_said) = Some EndTurn"
    by (simp_all add: bare_call_def nothing_said_def Let_def same_word_def)
  have "tellable in_order_step bare_call in_order_new"
    by (simp add: bare_call_def in_order_step_def in_order_new_def)
  moreover have "\<forall>ev \<in> set bare_call. \<forall>u. reported_usage ev = Some u \<longrightarrow> usage_fits u" by (simp add: bare_call_def)
  ultimately show ?thesis
    using collected_answer_roundtrip [of bare_call tiny_serde "''r''" "''m''"] said
    by (simp add: tiny_serde_def split: sum.split)
qed

text \<open>
  Calls that interleave are torn: every fragment for a call other than the last becomes a call of its own,
  named after the id.
\<close>

lemma interleaved_calls_are_torn:
  "an_calls (collected_content (collect_all m interleaved_calls) ()) =
     [(''a'', ''read'', []), (''b'', ''write'', []), (''a'', ''a'', ''{''), (''b'', ''b'', ''[''), (''a'', ''a'', ''}'')]"
  by (simp add: interleaved_calls_def collect_all_def collected_content_def all_blocks_def open_block_as_def close_block_def block_parts)

end
