(* ===== verification/Completions_Stream.thy ===== *)
theory Completions_Stream
  imports Completions Collected
begin

text \<open>
  Responses of the OpenAI Chat Completions dialect (\<^verbatim>\<open>oag-proto/src/openai.rs\<close>): chunks and whole bodies
  read into events, events written as chunks, and the conversion of the hub's message. Sums of token
  counts wrap at 64 bits, as they do in a release build.
\<close>

subsection \<open>Reading\<close>

definition chat_parse_usage :: "json \<Rightarrow> usage" where
  "chat_parse_usage v =
     (let cached = u64_or 0 (idx (idx v ''prompt_tokens_details'') ''cached_tokens'') in
      \<lparr>input_tokens = u64_or 0 (idx v ''prompt_tokens'') - cached, output_tokens = u64_or 0 (idx v ''completion_tokens''),
       cache_read_tokens = cached, cache_write_tokens = 0\<rparr>)"

definition finish_reason :: "string \<Rightarrow> bool \<Rightarrow> bool \<Rightarrow> stop_reason" where
  "finish_reason raw called_a_tool refused =
     (if raw = ''length'' then MaxTokens
      else if raw = ''tool_calls'' \<or> raw = ''function_call'' then StopToolUse
      else if raw = ''content_filter'' then StopRefusal
      else if refused then StopRefusal
      else if called_a_tool then StopToolUse
      else EndTurn)"

definition nonempty :: "string option \<Rightarrow> string option" where
  "nonempty s = (case s of Some [] \<Rightarrow> None | _ \<Rightarrow> s)"

definition resolve_opened :: "string list \<Rightarrow> accumulator \<Rightarrow> nat \<Rightarrow> string option" where
  "resolve_opened fresh acc index =
     (case tool_id_at acc index of
        Some t \<Rightarrow> Some t
      | None \<Rightarrow> (let already = length (tool_ids acc) in if index < already then None else nth_opt fresh (index - already)))"

definition or_else :: "'a option \<Rightarrow> 'a option \<Rightarrow> 'a option" where
  "or_else a b = (case a of Some x \<Rightarrow> Some x | None \<Rightarrow> b)"

definition last_opt :: "'a list \<Rightarrow> 'a option" where
  "last_opt xs = (if xs = [] then None else Some (last xs))"

definition chat_call_events :: "accumulator \<Rightarrow> json \<Rightarrow> string list \<times> stream_event list \<Rightarrow> string list \<times> stream_event list" where
  "chat_call_events acc call = (\<lambda>(fresh, events).
     let announced = nonempty (as_str (idx call ''id''));
         (fresh, events) = (case announced of
             Some t \<Rightarrow> (fresh @ [t], events @ [ToolUseStart t (restore_function_name acc (str_or [] (idx (idx call ''function'') ''name'')))])
           | None \<Rightarrow> (fresh, events)) in
     case nonempty (as_str (idx (idx call ''function'') ''arguments'')) of
       None \<Rightarrow> (fresh, events)
     | Some args \<Rightarrow>
         let t = or_else announced (or_else (Option.bind (as_u64 (idx call ''index'')) (resolve_opened fresh acc))
               (or_else (last_opt fresh) (current_tool_id acc))) in
         (fresh, events @ [ToolUseDelta (case t of Some t \<Rightarrow> t | None \<Rightarrow> []) args]))"

definition chat_finish_events :: "accumulator \<Rightarrow> string list \<Rightarrow> json \<Rightarrow> stream_event list" where
  "chat_finish_events acc fresh choice =
     (case nonempty (as_str (idx choice ''finish_reason'')) of
        None \<Rightarrow> []
      | Some reason \<Rightarrow>
          map ToolUseEnd (tool_ids acc @ filter (\<lambda>t. t \<notin> set (tool_ids acc)) fresh) @
          [Stop (finish_reason reason (saw_tool_call acc \<or> fresh \<noteq> []) (acc_saw_refusal acc)) usage_default])"

definition opt_event :: "(string \<Rightarrow> stream_event) \<Rightarrow> string option \<Rightarrow> stream_event list" where
  "opt_event f s = (case nonempty s of Some t \<Rightarrow> [f t] | None \<Rightarrow> [])"

definition chat_event :: "json \<Rightarrow> accumulator \<Rightarrow> stream_event list \<times> accumulator" where
  "chat_event v acc =
     (let usage = (case get_member v ''usage'' of Some u \<Rightarrow> if u \<noteq> JNull then [UsageUpdate (chat_parse_usage u)] else [] | None \<Rightarrow> []) in
      case items (idx v ''choices'') of
        [] \<Rightarrow> (usage, acc)
      | choice # _ \<Rightarrow>
          let delta = idx choice ''delta'';
              refusal = as_str (idx delta ''refusal'');
              acc = (if nonempty refusal \<noteq> None then note_refusal acc else acc);
              (fresh, calls) = fold (chat_call_events acc) (items (idx delta ''tool_calls'')) ([], []) in
          (usage @ opt_event TextDelta (as_str (idx delta ''content'')) @ opt_event TextDelta refusal @
           opt_event ThinkingDelta (or_else (as_str (idx delta ''reasoning_content'')) (as_str (idx delta ''reasoning''))) @
           calls @ chat_finish_events acc fresh choice, acc))"

definition chat_parse_event :: "serde \<Rightarrow> string \<Rightarrow> accumulator \<Rightarrow> error + stream_event list \<times> accumulator" where
  "chat_parse_event S payload acc =
     (if payload = ''[DONE]'' then Inr ([], acc)
      else case from_text S payload of Inl e \<Rightarrow> Inl (Serde e) | Inr v \<Rightarrow> Inr (chat_event v acc))"

definition chat_response_call :: "json \<Rightarrow> stream_event list" where
  "chat_response_call call =
     (let t = str_or [] (idx call ''id'') in
      [ToolUseStart t (str_or [] (idx (idx call ''function'') ''name'')),
       ToolUseDelta t (str_or [] (idx (idx call ''function'') ''arguments'')), ToolUseEnd t])"

definition chat_parse_response :: "json \<Rightarrow> stream_event list" where
  "chat_parse_response body =
     (let usage = chat_parse_usage (idx body ''usage'');
          choice = idx_at (idx body ''choices'') 0;
          message = idx choice ''message'';
          refusal = as_str (idx message ''refusal'') in
      [UsageUpdate usage] @ opt_event TextDelta (as_str (idx message ''content'')) @ opt_event TextDelta refusal @
      opt_event ThinkingDelta (or_else (as_str (idx message ''reasoning_content'')) (as_str (idx message ''reasoning''))) @
      concat (map chat_response_call (items (idx message ''tool_calls''))) @
      (case nonempty (as_str (idx choice ''finish_reason'')) of
         Some reason \<Rightarrow> [Stop (finish_reason reason (items (idx message ''tool_calls'') \<noteq> []) (nonempty refusal \<noteq> None)) usage]
       | None \<Rightarrow> []))"

subsection \<open>Writing\<close>

record chat_render =
  ch_id :: string
  ch_model :: string
  role_sent :: bool
  ch_tool_ids :: "string list"
  ch_finished :: bool
  ch_usage :: usage

definition chat_render_new :: "string \<Rightarrow> string \<Rightarrow> chat_render" where
  "chat_render_new request_id model =
     \<lparr>ch_id = ''chatcmpl-'' @ request_id, ch_model = model, role_sent = False, ch_tool_ids = [], ch_finished = False,
      ch_usage = usage_default\<rparr>"

fun tool_position :: "string \<Rightarrow> string list \<Rightarrow> nat option" where
  "tool_position t [] = None"
| "tool_position t (x # xs) = (if x = t then Some 0 else map_option Suc (tool_position t xs))"

definition tool_index :: "string \<Rightarrow> chat_render \<Rightarrow> nat \<times> chat_render" where
  "tool_index t st =
     (case tool_position t (ch_tool_ids st) of
        Some i \<Rightarrow> (i, st)
      | None \<Rightarrow> (length (ch_tool_ids st), st\<lparr>ch_tool_ids := ch_tool_ids st @ [t]\<rparr>))"

definition chunk :: "chat_render \<Rightarrow> json \<Rightarrow> string option \<Rightarrow> json" where
  "chunk st delta finish =
     JObj [(''id'', JStr (ch_id st)), (''object'', JStr ''chat.completion.chunk''), (''created'', jnat 0),
       (''model'', JStr (ch_model st)),
       (''choices'', JArr [JObj [(''index'', jnat 0), (''delta'', delta),
          (''finish_reason'', case finish of Some f \<Rightarrow> JStr f | None \<Rightarrow> JNull)]])]"

definition finish_word :: "stop_reason \<Rightarrow> string" where
  "finish_word r =
     (case r of MaxTokens \<Rightarrow> ''length'' | StopToolUse \<Rightarrow> ''tool_calls'' | StopRefusal \<Rightarrow> ''content_filter''
      | EndTurn \<Rightarrow> ''stop'' | StopSequence \<Rightarrow> ''stop'')"

definition wrap64 :: "nat \<Rightarrow> nat" where
  "wrap64 n = n mod 2 ^ 64"

definition chat_usage :: "nat \<Rightarrow> nat \<Rightarrow> nat \<Rightarrow> json" where
  "chat_usage prompt output cached =
     JObj [(''prompt_tokens'', jnat prompt), (''completion_tokens'', jnat output), (''total_tokens'', jnat (wrap64 (prompt + output))),
       (''prompt_tokens_details'', JObj [(''cached_tokens'', jnat cached)])]"

definition chat_usage_of :: "usage \<Rightarrow> json" where
  "chat_usage_of u = chat_usage (wrap64 (input_tokens u + cache_read_tokens u + cache_write_tokens u)) (output_tokens u) (cache_read_tokens u)"

fun chat_render_event :: "stream_event \<Rightarrow> chat_render \<Rightarrow> json list \<times> chat_render" where
  "chat_render_event (Start model u) st =
     (let st = st\<lparr>ch_model := adopt_model (ch_model st) model, ch_usage := merge (ch_usage st) u, role_sent := True\<rparr> in
      ([chunk st (JObj [(''role'', JStr ''assistant''), (''content'', JStr [])]) None], st))"
| "chat_render_event (TextDelta t) st =
     ([chunk st (JObj ((if role_sent st then [] else [(''role'', JStr ''assistant'')]) @ [(''content'', JStr t)])) None], st\<lparr>role_sent := True\<rparr>)"
| "chat_render_event (ThinkingDelta t) st = ([chunk st (JObj [(''reasoning_content'', JStr t)]) None], st)"
| "chat_render_event (ToolUseStart t name) st =
     (case tool_index t st of (index, st) \<Rightarrow>
        ([chunk st (JObj [(''tool_calls'', JArr [JObj [(''index'', jnat index), (''id'', JStr t), (''type'', JStr ''function''),
            (''function'', JObj [(''name'', JStr name), (''arguments'', JStr [])])]])]) None], st))"
| "chat_render_event (ToolUseDelta t partial_json) st =
     (case tool_index t st of (index, st) \<Rightarrow>
        ([chunk st (JObj [(''tool_calls'', JArr [JObj [(''index'', jnat index),
            (''function'', JObj [(''arguments'', JStr partial_json)])]])]) None], st))"
| "chat_render_event (Stop reason u) st =
     (if ch_finished st then ([], st)
      else let st = st\<lparr>ch_usage := merge (ch_usage st) u, ch_finished := True\<rparr> in
        ([set_member ''usage'' (chat_usage_of (ch_usage st)) (chunk st (JObj []) (Some (finish_word reason)))], st))"
| "chat_render_event (UsageUpdate u) st = ([], st\<lparr>ch_usage := merge (ch_usage st) u\<rparr>)"
| "chat_render_event (ToolUseEnd _) st = ([], st)"
| "chat_render_event (EventError message) st =
     ([JObj [(''error'', JObj [(''message'', JStr message), (''type'', JStr ''upstream_error'')])]], st)"

definition chat_frame_text :: "serde \<Rightarrow> json \<Rightarrow> string" where
  "chat_frame_text S v = ''data: '' @ to_text S v @ [CHR 0x0A, CHR 0x0A]"

definition done_frame :: string where
  "done_frame = ''data: [DONE]'' @ [CHR 0x0A, CHR 0x0A]"

subsection \<open>The hub's message in this dialect\<close>

definition hub_call :: "serde \<Rightarrow> json \<Rightarrow> json option" where
  "hub_call S block =
     (if str_or [] (idx block ''type'') = ''tool_use''
      then Some (JObj [(''id'', idx block ''id''), (''type'', JStr ''function''),
        (''function'', JObj [(''name'', idx block ''name''), (''arguments'', JStr (to_text S (idx block ''input'')))])])
      else None)"

definition hub_words :: "string \<Rightarrow> json \<Rightarrow> string" where
  "hub_words kind block = (if str_or [] (idx block ''type'') = kind then str_or [] (idx block kind) else [])"

definition hub_finish :: "string \<Rightarrow> string" where
  "hub_finish stop =
     (if stop = ''max_tokens'' then ''length'' else if stop = ''tool_use'' then ''tool_calls''
      else if stop = ''refusal'' then ''content_filter'' else ''stop'')"

definition render_completion :: "serde \<Rightarrow> json \<Rightarrow> string \<Rightarrow> json" where
  "render_completion S hub request_id =
     (let blocks = items (idx hub ''content'');
          t = concat (map (hub_words ''text'') blocks);
          reasoning = concat (map (hub_words ''thinking'') blocks);
          calls = List.map_filter (hub_call S) blocks;
          u = idx hub ''usage'';
          cached = u64_or 0 (idx u ''cache_read_input_tokens'');
          message = JObj [(''role'', JStr ''assistant''), (''content'', JStr t)];
          message = set_when (reasoning \<noteq> []) ''reasoning_content'' (JStr reasoning) message;
          message = (if calls \<noteq> [] then set_when (t = []) ''content'' JNull (set_member ''tool_calls'' (JArr calls) message) else message);
          prompt = wrap64 (u64_or 0 (idx u ''input_tokens'') + cached + u64_or 0 (idx u ''cache_creation_input_tokens'')) in
      JObj [(''id'', JStr (''chatcmpl-'' @ request_id)), (''object'', JStr ''chat.completion''), (''created'', jnat 0),
        (''model'', idx hub ''model''),
        (''choices'', JArr [JObj [(''index'', jnat 0), (''message'', message),
           (''finish_reason'', JStr (hub_finish (str_or ''end_turn'' (idx hub ''stop_reason''))))]]),
        (''usage'', chat_usage prompt (u64_or 0 (idx u ''output_tokens'')) cached)])"

subsection \<open>Chunks are read back\<close>

text \<open>
  The client is the dialect's own reader, as the gateway runs it against an upstream: the events it
  reads, what they say, and the accumulator they are folded into.
\<close>

definition read_chunk :: "json \<Rightarrow> accumulator \<times> answer \<Rightarrow> (accumulator \<times> answer) option" where
  "read_chunk v cl = (case cl of (acc, a) \<Rightarrow> case chat_event v acc of (evs, acc') \<Rightarrow>
     Some (observe_all evs acc', fold (hear same_word id) evs a))"

definition chat_content :: "chat_render \<Rightarrow> accumulator \<times> answer \<Rightarrow> answer" where
  "chat_content st cl = (snd cl)\<lparr>an_running := ch_usage st\<rparr>"

definition chat_step :: "stream_event \<Rightarrow> tell \<Rightarrow> tell option" where
  "chat_step ev t =
     (case ev of
        ToolUseStart tid _ \<Rightarrow> if tid = [] \<or> u64_max \<le> length (tl_seen t) then None else tell_step True ev t
      | _ \<Rightarrow> tell_step True ev t)"

definition chat_word :: "bool \<Rightarrow> stop_reason \<Rightarrow> stop_reason" where
  "chat_word called r = finish_reason (finish_word r) called False"

definition chat_told :: "usage \<Rightarrow> usage" where
  "chat_told u = chat_parse_usage (chat_usage_of u)"

definition chat_follows :: "tell \<Rightarrow> chat_render \<Rightarrow> accumulator \<times> answer \<Rightarrow> bool" where
  "chat_follows t st cl \<longleftrightarrow> (case cl of (acc, a) \<Rightarrow>
     map fst (tool_buffers acc) = ch_tool_ids st \<and> map fst (an_calls a) = ch_tool_ids st \<and> distinct (ch_tool_ids st) \<and>
     set (tl_seen t) = set (ch_tool_ids st) \<and> length (tl_seen t) = length (ch_tool_ids st) \<and>
     length (ch_tool_ids st) \<le> u64_max \<and> [] \<notin> set (ch_tool_ids st) \<and> set (tl_open t) \<subseteq> set (ch_tool_ids st) \<and>
     tl_done t = ch_finished st \<and> (ch_finished st \<longrightarrow> tl_open t = []) \<and> (an_stop a \<noteq> None) = ch_finished st \<and>
     acc_function_names acc = identity_names \<and> \<not> acc_saw_refusal acc \<and> (tool_calls acc = 0 \<longleftrightarrow> ch_tool_ids st = []) \<and>
     (\<not> ch_finished st \<longrightarrow> an_running a = usage_default))"

lemma chunk_simps [json_simps]:
  "items (idx (chunk st delta finish) ''choices'') =
     [JObj [(''index'', jnat 0), (''delta'', delta), (''finish_reason'', case finish of Some f \<Rightarrow> JStr f | None \<Rightarrow> JNull)]]"
  "get_member (chunk st delta finish) ''usage'' = None"
  "get_member (set_member ''usage'' u (chunk st delta finish)) ''usage'' = Some u"
  "idx (set_member ''usage'' u (chunk st delta finish)) ''choices'' = idx (chunk st delta finish) ''choices''"
  by (simp_all add: chunk_def get_member_def set_member_def json_simps)

lemma nonempty_simps [simp]: "nonempty None = None" "nonempty (Some []) = None" "nonempty (Some (x # xs)) = Some (x # xs)"
  by (simp_all add: nonempty_def)

lemma nonempty_Some: "s \<noteq> [] \<Longrightarrow> nonempty (Some s) = Some s"
  by (cases s) simp_all

lemma opt_event_None [simp]: "opt_event f None = []"
  by (simp add: opt_event_def)

lemma or_else_simps [simp]: "or_else None b = b" "or_else (Some x) b = Some x"
  by (simp_all add: or_else_def)

lemma tool_position_Some: "t \<in> set xs \<Longrightarrow> \<exists>i. tool_position t xs = Some i \<and> i < length xs \<and> xs ! i = t"
  by (induction xs) auto

lemma tool_position_None: "t \<notin> set xs \<Longrightarrow> tool_position t xs = None"
  by (induction xs) auto

lemma identity_restores [simp]: "acc_function_names acc = identity_names \<Longrightarrow> restore_function_name acc n = n"
  by (simp add: restore_function_name_def original_name_def identity_names_def)

lemma chat_words:
  fixes s :: string
  assumes "chat_follows t st (acc, a)" and "tell_words True reasoning t = Some t'"
  defines "ev \<equiv> words_event reasoning s"
  shows "\<exists>cl. read_all read_chunk (fst (chat_render_event ev st)) (acc, a) = Some cl \<and>
    chat_follows t' (snd (chat_render_event ev st)) cl \<and>
    chat_content (snd (chat_render_event ev st)) cl = hear chat_word chat_told ev (chat_content st (acc, a))"
proof -
  have "\<exists>d. fst (chat_render_event ev st) = [chunk st d None] \<and> chat_event (chunk st d None) acc = (if s = [] then [] else [ev], acc)"
    unfolding ev_def words_event_def
    by (cases s) (auto simp: chat_event_def json_simps opt_event_def chat_finish_events_def)
  moreover have "t' = t\<lparr>tl_reasoning := Some reasoning\<rparr>" "\<not> tl_done t" using assms(2) by (auto simp: tell_words_def split: if_splits)
  ultimately show ?thesis using assms(1)
    unfolding ev_def words_event_def
    by (cases reasoning; cases s) (auto simp: read_chunk_def chat_follows_def chat_content_def observe_all_def)
qed


lemma chat_opens:
  assumes "chat_follows t st (acc, a)" and "\<not> tl_done t" and "tid \<notin> set (tl_seen t)" and "tid \<noteq> []" and "length (tl_seen t) < u64_max"
  defines "t' \<equiv> t\<lparr>tl_reasoning := None, tl_open := tl_open t @ [tid], tl_seen := tid # tl_seen t\<rparr>"
  shows "\<exists>cl. read_all read_chunk (fst (chat_render_event (ToolUseStart tid name) st)) (acc, a) = Some cl \<and>
    chat_follows t' (snd (chat_render_event (ToolUseStart tid name) st)) cl \<and>
    chat_content (snd (chat_render_event (ToolUseStart tid name) st)) cl = hear chat_word chat_told (ToolUseStart tid name) (chat_content st (acc, a))"
proof -
  let ?st = "st\<lparr>ch_tool_ids := ch_tool_ids st @ [tid]\<rparr>"
  have f: "acc_function_names acc = identity_names" "tid \<notin> set (ch_tool_ids st)" using assms(1,3) by (auto simp: chat_follows_def)
  obtain d where d: "chat_render_event (ToolUseStart tid name) st = ([chunk ?st d None], ?st)"
    "d = JObj [(''tool_calls'', JArr [JObj [(''index'', jnat (length (ch_tool_ids st))), (''id'', JStr tid), (''type'', JStr ''function''),
            (''function'', JObj [(''name'', JStr name), (''arguments'', JStr [])])]])]"
    using f(2) by (simp add: tool_index_def tool_position_None)
  have "chat_event (chunk ?st d None) acc = ([ToolUseStart tid name], acc)"
    using f assms(4) by (simp add: d(2) chat_event_def json_simps chat_finish_events_def chat_call_events_def nonempty_Some)
  then show ?thesis using assms f(2) d(1)
    by (auto simp: read_chunk_def chat_follows_def chat_content_def observe_all_def usize_max_def sat_add_def)
qed

lemma chat_fragment:
  assumes "chat_follows t st (acc, a)" and "tid \<in> set (tl_open t)" and "\<not> tl_done t"
  shows "\<exists>cl. read_all read_chunk (fst (chat_render_event (ToolUseDelta tid frag) st)) (acc, a) = Some cl \<and>
    chat_follows t (snd (chat_render_event (ToolUseDelta tid frag) st)) cl \<and>
    chat_content (snd (chat_render_event (ToolUseDelta tid frag) st)) cl = hear chat_word chat_told (ToolUseDelta tid frag) (chat_content st (acc, a))"
proof -
  have mem: "tid \<in> set (ch_tool_ids st)" using assms(1,2) by (auto simp: chat_follows_def)
  then obtain i where i: "tool_position tid (ch_tool_ids st) = Some i" "i < length (ch_tool_ids st)" "ch_tool_ids st ! i = tid"
    using tool_position_Some by blast
  have keys: "map fst (tool_buffers acc) = ch_tool_ids st" and "length (ch_tool_ids st) \<le> u64_max"
    using assms(1) by (simp_all add: chat_follows_def)
  have len: "i \<le> u64_max" "length (tool_buffers acc) = length (ch_tool_ids st)" 
    using i(2) arg_cong [OF keys, of length] \<open>length (ch_tool_ids st) \<le> u64_max\<close> by simp_all
  have "fst (tool_buffers acc ! i) = tid" using i(2,3) len(2) arg_cong [OF keys, of "\<lambda>xs. xs ! i"] by simp
  then have at: "tool_id_at acc i = Some tid" using i(2) len by (simp add: tool_id_at_def nth_opt_def)
  let ?v = "chunk st (JObj [(''tool_calls'', JArr [JObj [(''index'', jnat i), (''function'', JObj [(''arguments'', JStr frag)])]])]) None"
  have out: "chat_render_event (ToolUseDelta tid frag) st = ([?v], st)" by (simp add: tool_index_def i(1))
  have ev: "chat_event ?v acc = (if frag = [] then [] else [ToolUseDelta tid frag], acc)"
    using len(1) at by (cases frag) (simp_all add: chat_event_def json_simps chat_finish_events_def chat_call_events_def resolve_opened_def)
  have keep: "map fst (push_fragment tid frag bufs) = map fst bufs" for bufs by (induction bufs) auto
  show ?thesis
  proof (cases "frag = []")
    case True
    then have "add_fragment tid frag calls = calls" for calls by (induction calls) (auto simp: add_fragment_def)
    moreover have "read_chunk ?v (acc, a) = Some (acc, a)"
      unfolding read_chunk_def prod.case ev using True by (simp add: observe_all_def)
    ultimately show ?thesis unfolding out using assms(1) by (simp add: chat_content_def)
  next
    case False
    have "chat_follows t st (acc\<lparr>tool_buffers := push_fragment tid frag (tool_buffers acc)\<rparr>, a\<lparr>an_calls := add_fragment tid frag (an_calls a)\<rparr>)"
      using assms(1) by (simp add: chat_follows_def keep)
    with False show ?thesis unfolding out by (simp add: ev read_chunk_def chat_content_def observe_all_def)
  qed
qed

lemma observe_ends:
  "observe_all (map ToolUseEnd ts) acc = (if ts = [] then acc else acc\<lparr>open_tool := None\<rparr>)"
  "fold (hear w c) (map ToolUseEnd ts) a = a"
  by (induction ts arbitrary: acc a) (auto simp: observe_all_def)

lemma observe_all_append: "observe_all (xs @ ys) acc = observe_all ys (observe_all xs acc)"
  by (simp add: observe_all_def)

lemma chat_stops:
  assumes "chat_follows t st (acc, a)" and "\<not> tl_done t"
  defines "t' \<equiv> t\<lparr>tl_reasoning := None, tl_open := [], tl_done := True\<rparr>"
  shows "\<exists>cl. read_all read_chunk (fst (chat_render_event (Stop reason u) st)) (acc, a) = Some cl \<and>
    chat_follows t' (snd (chat_render_event (Stop reason u) st)) cl \<and>
    chat_content (snd (chat_render_event (Stop reason u) st)) cl = hear chat_word chat_told (Stop reason u) (chat_content st (acc, a))"
proof -
  have f: "\<not> ch_finished st" "an_running a = usage_default" "an_stop a = None" "\<not> acc_saw_refusal acc"
    "map fst (an_calls a) = ch_tool_ids st" "tool_calls acc = 0 \<longleftrightarrow> ch_tool_ids st = []"
    using assms(1,2) by (auto simp: chat_follows_def)
  let ?st = "st\<lparr>ch_usage := merge (ch_usage st) u, ch_finished := True\<rparr>"
  define v where "v = set_member ''usage'' (chat_usage_of (ch_usage ?st)) (chunk ?st (JObj []) (Some (finish_word reason)))"
  have out: "chat_render_event (Stop reason u) st = ([v], ?st)" using f(1) by (simp add: v_def Let_def)
  have called: "saw_tool_call acc \<longleftrightarrow> an_calls a \<noteq> []" using f(5,6) by (auto simp: saw_tool_call_def)
  have word: "finish_word reason \<noteq> []" by (cases reason) (simp_all add: finish_word_def)
  have usage: "chat_usage_of x \<noteq> JNull" for x by (simp add: chat_usage_of_def chat_usage_def)
  have ev: "chat_event v acc = ([UsageUpdate (chat_told (merge (ch_usage st) u))] @ map ToolUseEnd (tool_ids acc) @
      [Stop (chat_word (an_calls a \<noteq> []) reason) usage_default], acc)"
    using word f(4) called usage
    by (simp add: chat_event_def v_def json_simps chat_finish_events_def nonempty_Some chat_told_def chat_word_def)
  let ?evs = "[UsageUpdate (chat_told (merge (ch_usage st) u))] @ map ToolUseEnd (tool_ids acc) @
      [Stop (chat_word (an_calls a \<noteq> []) reason) usage_default]"
  let ?acc = "observe_all ?evs acc" and ?a = "fold (hear same_word id) ?evs a"
  have acc: "tool_buffers ?acc = tool_buffers acc" "acc_function_names ?acc = acc_function_names acc"
    "acc_saw_refusal ?acc = acc_saw_refusal acc" "tool_calls ?acc = tool_calls acc"
    by (simp_all add: observe_all_Cons observe_all_append observe_ends) (simp_all add: observe_all_def)
  have merge0: "merge x usage_default = x" for x by (simp add: merge_def usage_default_def)
  have a: "?a = a\<lparr>an_running := chat_told (merge (ch_usage st) u), an_usage := Some (chat_told (merge (ch_usage st) u)),
      an_stop := Some (chat_word (an_calls a \<noteq> []) reason)\<rparr>"
    by (simp add: observe_ends f Let_def same_word_def merge0)
  have "chat_follows t' ?st (?acc, ?a)"
    using assms(1) unfolding chat_follows_def prod.case acc a t'_def by simp
  moreover have "chat_content ?st (?acc, ?a) = hear chat_word chat_told (Stop reason u) (chat_content st (acc, a))"
    unfolding chat_content_def snd_conv a using f by (simp add: Let_def)
  ultimately show ?thesis unfolding out by (simp add: read_chunk_def ev)
qed

lemma chat_event_told:
  assumes "chat_follows t st cl" and "chat_step ev t = Some t'"
  shows "\<exists>cl'. read_all read_chunk (fst (chat_render_event ev st)) cl = Some cl' \<and> chat_follows t' (snd (chat_render_event ev st)) cl' \<and>
    chat_content (snd (chat_render_event ev st)) cl' = hear chat_word chat_told ev (chat_content st cl)"
proof -
  obtain acc a where cl: "cl = (acc, a)" by force
  show ?thesis
  proof (cases ev)
    case (Start model u)
    have "chat_event (chunk st' (JObj [(''role'', JStr ''assistant''), (''content'', JStr [])]) None) acc = ([], acc)" for st'
      by (simp add: chat_event_def json_simps opt_event_def chat_finish_events_def)
    with Start assms cl show ?thesis
      by (simp add: chat_step_def read_chunk_def chat_follows_def chat_content_def observe_all_def Let_def)
  next
    case (TextDelta s)
    with assms chat_words [of t st acc a False t' s] cl show ?thesis by (simp add: chat_step_def words_event_def)
  next
    case (ThinkingDelta s)
    with assms chat_words [of t st acc a True t' s] cl show ?thesis by (simp add: chat_step_def words_event_def)
  next
    case (ToolUseStart tid name)
    with assms chat_opens [of t st acc a tid name] cl show ?thesis by (auto simp: chat_step_def not_le split: if_splits)
  next
    case (ToolUseDelta tid frag)
    with assms chat_fragment [of t st acc a tid frag] cl show ?thesis by (auto simp: chat_step_def split: if_splits)
  next
    case (ToolUseEnd tid)
    with assms cl show ?thesis by (auto simp: chat_step_def chat_follows_def chat_content_def)
  next
    case (UsageUpdate u)
    with assms cl show ?thesis by (auto simp: chat_step_def chat_follows_def chat_content_def)
  next
    case (Stop reason u)
    show ?thesis
    proof (cases "tl_done t")
      case True
      with Stop assms cl show ?thesis by (auto simp: chat_step_def chat_follows_def chat_content_def)
    next
      case False
      with Stop assms chat_stops [of t st acc a reason u] cl show ?thesis by (simp add: chat_step_def)
    qed
  next
    case (EventError m)
    have "chat_event (JObj [(''error'', x)]) acc = ([], acc)" for x
      by (simp add: chat_event_def json_simps get_member_def)
    with EventError assms cl show ?thesis by (simp add: chat_step_def read_chunk_def observe_all_def chat_content_def)
  qed
qed

interpretation chat: faithful_stream chat_render_event read_chunk chat_follows chat_content chat_step chat_word chat_told
  by unfold_locales (rule chat_event_told)


subsection \<open>What a client of this dialect is told\<close>

definition usage_small :: "usage \<Rightarrow> bool" where
  "usage_small u \<longleftrightarrow> input_tokens u < 2 ^ 62 \<and> output_tokens u < 2 ^ 62 \<and> cache_read_tokens u < 2 ^ 62 \<and> cache_write_tokens u < 2 ^ 62"

text \<open>This dialect has no count for what was written to the cache; it is part of the prompt.\<close>

definition chat_counts :: "usage \<Rightarrow> usage" where
  "chat_counts u = u\<lparr>input_tokens := input_tokens u + cache_write_tokens u, cache_write_tokens := 0\<rparr>"

lemma merge_small: "usage_small u \<Longrightarrow> usage_small v \<Longrightarrow> usage_small (merge u v)"
  by (simp add: usage_small_def merge_def)

lemma small_fits: "usage_small u \<Longrightarrow> usage_fits u"
  by (simp add: usage_small_def usage_fits_def u64_max_def)

lemma read_chat_usage:
  assumes "p \<le> u64_max" and "n \<le> u64_max" and "k \<le> u64_max"
  shows "chat_parse_usage (chat_usage p n k) = \<lparr>input_tokens = p - k, output_tokens = n, cache_read_tokens = k, cache_write_tokens = 0\<rparr>"
  using assms by (simp add: chat_parse_usage_def chat_usage_def json_simps)

lemma small_prompt:
  assumes "usage_small u"
  shows "wrap64 (input_tokens u + cache_read_tokens u + cache_write_tokens u) = input_tokens u + cache_read_tokens u + cache_write_tokens u"
    and "input_tokens u + cache_read_tokens u + cache_write_tokens u \<le> u64_max"
  using assms by (simp_all add: wrap64_def usage_small_def u64_max_def)

lemma chat_told_small:
  assumes "usage_small u"
  shows "chat_told u = chat_counts u"
proof -
  have "usage_fits u" using assms by (rule small_fits)
  then show ?thesis
    unfolding chat_told_def chat_usage_of_def small_prompt(1) [OF assms] using small_prompt(2) [OF assms]
    by (cases u) (simp add: read_chat_usage usage_fits_def chat_counts_def)
qed

lemma chat_word_spec: "chat_word called r = (if r \<in> {EndTurn, StopSequence} then if called then StopToolUse else EndTurn else r)"
  by (cases r) (simp_all add: chat_word_def finish_word_def finish_reason_def)

text \<open>
  C20. A stream written in this dialect and read by the gateway's own reader says what the events said: the
  text, the reasoning, each call's own arguments however the calls interleave and although a chunk names
  a call only by its position, why it stopped, and the usage, with what the dialect has no word for
  folded into what it has.
\<close>

theorem chat_stream_is_read_back:
  fixes rid model :: string
  assumes "tellable chat_step evs tell_new" and "\<forall>ev \<in> set evs. \<forall>u. reported_usage ev = Some u \<longrightarrow> usage_small u"
  defines "r \<equiv> render_all chat_render_event evs (chat_render_new rid model)"
  shows "\<exists>acc a. read_all read_chunk (fst r) (acc_new, nothing_said) = Some (acc, a) \<and>
    a\<lparr>an_running := ch_usage (snd r)\<rparr> = fold (hear chat_word chat_counts) evs nothing_said \<and>
    map fst (tool_buffers acc) = map fst (an_calls a)"
proof -
  have "chat_follows tell_new (chat_render_new rid model) (acc_new, nothing_said)"
    by (simp add: chat_follows_def tell_new_def chat_render_new_def acc_new_def nothing_said_def)
  from chat.told_all [OF this assms(1)] obtain t acc a where
    cl: "read_all read_chunk (fst r) (acc_new, nothing_said) = Some (acc, a)" "chat_follows t (snd r) (acc, a)"
      "chat_content (snd r) (acc, a) = fold (hear chat_word chat_told) evs (chat_content (chat_render_new rid model) (acc_new, nothing_said))"
    unfolding r_def by auto
  moreover have "chat_content (chat_render_new rid model) (acc_new, nothing_said) = nothing_said"
    by (simp add: chat_content_def chat_render_new_def nothing_said_def)
  moreover have "fold (hear chat_word chat_told) evs nothing_said = fold (hear chat_word chat_counts) evs nothing_said"
    using hear_counts [where P = usage_small and a = nothing_said, OF merge_small chat_told_small assms(2)] by (simp add: nothing_said_def usage_small_def usage_default_def)
  ultimately show ?thesis by (auto simp: chat_content_def chat_follows_def)
qed

theorem chat_stream_is_read_back_witness:
  "\<exists>acc a. read_all read_chunk (fst (render_all chat_render_event interleaved_calls (chat_render_new ''r'' ''m''))) (acc_new, nothing_said) = Some (acc, a) \<and>
     an_calls a = [(''a'', ''read'', ''{}''), (''b'', ''write'', ''['')]"
proof -
  have "tellable chat_step interleaved_calls tell_new" by (simp add: interleaved_calls_def tell_new_def chat_step_def u64_max_def)
  moreover have "\<forall>ev \<in> set interleaved_calls. \<forall>u. reported_usage ev = Some u \<longrightarrow> usage_small u"
    by (simp add: interleaved_calls_def usage_small_def usage_default_def)
  moreover have "an_calls (fold (hear chat_word chat_counts) interleaved_calls nothing_said) = [(''a'', ''read'', ''{}''), (''b'', ''write'', ''['')]"
    by (simp add: interleaved_calls_def nothing_said_def add_fragment_def Let_def)
  ultimately show ?thesis
    using chat_stream_is_read_back [of interleaved_calls "''r''" "''m''"] by (metis answer.select_convs(3) answer.surjective answer.update_convs(6))
qed


lemma hub_block_words: "hub_words ''text'' (into_json S b) = block_text b" "hub_words ''thinking'' (into_json S b) = block_thinking b"
  by (cases b; simp add: hub_words_def into_json_def block_parts json_simps)+

definition chat_call_json :: "string \<times> string \<times> string \<Rightarrow> json" where
  "chat_call_json call = (case call of (tid, name, args) \<Rightarrow>
     JObj [(''id'', JStr tid), (''type'', JStr ''function''), (''function'', JObj [(''name'', JStr name), (''arguments'', JStr args)])])"

lemma hub_calls:
  assumes "\<forall>(_, _, args) \<in> set (concat (map block_call bs)). settled S args"
  shows "List.map_filter (hub_call S) (map (into_json S) bs) = map chat_call_json (concat (map block_call bs))"
  using assms
proof (induction bs)
  case (Cons b bs)
  then show ?case
    by (cases b) (auto simp: hub_call_def into_json_def block_parts json_simps chat_call_json_def List.map_filter_simps settled_def parsed_or_def)
qed (simp add: List.map_filter_simps)

lemma response_calls: "concat (map chat_response_call (map chat_call_json calls)) =
    concat (map (\<lambda>(tid, name, args). [ToolUseStart tid name, ToolUseDelta tid args, ToolUseEnd tid]) calls)"
  by (induction calls) (auto simp: chat_response_call_def chat_call_json_def json_simps Let_def)

lemma hear_calls:
  "distinct (map fst (an_calls a @ calls)) \<Longrightarrow>
   fold (hear w c) (concat (map (\<lambda>(tid, name, args). [ToolUseStart tid name, ToolUseDelta tid args, ToolUseEnd tid]) calls)) a =
     a\<lparr>an_calls := an_calls a @ calls\<rparr>"
proof (induction calls arbitrary: a)
  case (Cons call calls)
  obtain tid name args where call: "call = (tid, name, args)" by (metis prod_cases3)
  have "add_fragment tid args (an_calls a @ [(tid, name, [])]) = an_calls a @ [call]"
    using Cons.prems by (simp add: call add_fragment_append add_fragment_other) (simp add: add_fragment_def)
  with Cons.IH [of "a\<lparr>an_calls := an_calls a @ [call]\<rparr>"] Cons.prems show ?case by (simp add: call)
qed simp

lemma hear_opt: "fold (hear w c) (opt_event TextDelta (Some t)) a = a\<lparr>an_text := an_text a @ t\<rparr>"
  "fold (hear w c) (opt_event ThinkingDelta (Some t)) a = a\<lparr>an_thinking := an_thinking a @ t\<rparr>"
  by (cases t; simp add: opt_event_def)+

lemma hub_says:
  fixes evs :: "stream_event list" and S :: serde and rid model :: string
  defines "a \<equiv> fold (hear same_word id) evs nothing_said"
  assumes "tellable in_order_step evs in_order_new" and "\<forall>ev \<in> set evs. \<forall>u. reported_usage ev = Some u \<longrightarrow> usage_small u" and "an_stop a = Some reason"
  defines "hub \<equiv> render_from_events S evs rid model"
  shows "\<exists>bs. items (idx hub ''content'') = map (into_json S) bs \<and> an_calls a = concat (map block_call bs)"
    and "concat (map (hub_words ''text'') (items (idx hub ''content''))) = an_text a"
    and "concat (map (hub_words ''thinking'') (items (idx hub ''content''))) = an_thinking a"
    and "idx hub ''usage'' = usage_json (an_running a)" and "usage_small (an_running a)" and "usage_fits (an_running a)"
    and "str_or ''end_turn'' (idx hub ''stop_reason'') = stop_reason_str (the (settled_stop a))"
    and "distinct (map fst (an_calls a))"
proof -
  let ?c = "collect_all model evs"
  note all = collected_all [OF assms(2), folded a_def]
  have content: "an_text a = concat (map block_text (co_content ?c))" "an_thinking a = concat (map block_thinking (co_content ?c))"
    "an_calls a = concat (map block_call (co_content ?c))"
    using all(1) [of model] by (auto simp: collected_content_def all(4))
  have hub: "items (idx hub ''content'') = map (into_json S) (co_content ?c)"
    by (simp add: hub_def render_from_events_def Let_def json_simps)
  then show "\<exists>bs. items (idx hub ''content'') = map (into_json S) bs \<and> an_calls a = concat (map block_call bs)" using content(3) by blast
  show "concat (map (hub_words ''text'') (items (idx hub ''content''))) = an_text a"
    "concat (map (hub_words ''thinking'') (items (idx hub ''content''))) = an_thinking a"
    by (simp_all add: hub content comp_def hub_block_words)
  show "idx hub ''usage'' = usage_json (an_running a)" "str_or ''end_turn'' (idx hub ''stop_reason'') = stop_reason_str (the (settled_stop a))"
    using assms(4) by (simp_all add: hub_def render_from_events_def Let_def json_simps all(5,6) settled_stop_def)
  show small: "usage_small (an_running a)"
    unfolding a_def using hear_counts [where P = usage_small and a = nothing_said and c = id and c' = id and w = same_word, OF merge_small refl assms(3)]
    by (simp add: nothing_said_def usage_small_def usage_default_def)
  then show "usage_fits (an_running a)" by (rule small_fits)
  show "distinct (map fst (an_calls a))" by (rule all(3))
qed

lemma one_answer_facts:
  "an_calls (fold (hear same_word id) one_answer nothing_said) = [(''a'', ''f'', ''{}'')]"
  "an_stop (fold (hear same_word id) one_answer nothing_said) = Some EndTurn"
  "tellable in_order_step one_answer in_order_new"
  "\<forall>ev \<in> set one_answer. \<forall>u. reported_usage ev = Some u \<longrightarrow> usage_small u"
  by (simp_all add: one_answer_def nothing_said_def add_fragment_def Let_def same_word_def in_order_step_def in_order_new_def
      usage_small_def usage_default_def)

text \<open>
  A collected answer converted for a client of this dialect: for events whose calls come one after another, each
  with arguments already in the serialiser's spelling, the body it becomes through the hub, read back, holds
  the text, the reasoning, the calls and the usage of the events, and their reason for stopping as
  this dialect has it.
\<close>

theorem chat_collected_answer:
  fixes evs :: "stream_event list"
  defines "a \<equiv> fold (hear same_word id) evs nothing_said"
  assumes "tellable in_order_step evs in_order_new" and "\<forall>ev \<in> set evs. \<forall>u. reported_usage ev = Some u \<longrightarrow> usage_small u"
    and "\<forall>(_, _, args) \<in> set (an_calls a). settled S args" and "an_stop a = Some reason"
  shows "fold (hear same_word id) (chat_parse_response (render_completion S (render_from_events S evs rid model) rid)) nothing_said =
    a\<lparr>an_stop := Some (chat_word (an_calls a \<noteq> []) reason), an_usage := Some (chat_counts (an_running a)), an_running := chat_counts (an_running a)\<rparr>"
proof -
  define hub where "hub = render_from_events S evs rid model"
  note hub = hub_says(1-4,7) [OF assms(2,3), folded a_def, OF assms(5), of S rid model, folded hub_def]
  note ans = hub_says(5,6,8) [OF assms(2,3), folded a_def, OF assms(5)]
  obtain bs where bs: "items (idx hub ''content'') = map (into_json S) bs" "an_calls a = concat (map block_call bs)" using hub(1) by blast
  define calls where "calls = map chat_call_json (an_calls a)"
  have calls: "List.map_filter (hub_call S) (items (idx hub ''content'')) = calls"
    unfolding bs calls_def using assms(4) by (intro hub_calls) (simp add: bs(2))
  define body where "body = render_completion S hub rid"
  define message where "message = idx (idx_at (idx body ''choices'') 0) ''message''"
  have m: "opt_event TextDelta (as_str (idx message ''content'')) = opt_event TextDelta (Some (an_text a))"
    "idx message ''refusal'' = JNull" "idx message ''reasoning'' = JNull" "items (idx message ''tool_calls'') = calls"
    "opt_event ThinkingDelta (as_str (idx message ''reasoning_content'')) = opt_event ThinkingDelta (Some (an_thinking a))"
    by (auto simp: message_def body_def render_completion_def Let_def calls hub(2,3) json_simps idx_at_def opt_event_def)
  have finish: "idx (idx_at (idx body ''choices'') 0) ''finish_reason'' = JStr (hub_finish (stop_reason_str (the (settled_stop a))))"
    by (simp add: body_def render_completion_def Let_def json_simps idx_at_def hub(5))
  have usage: "chat_parse_usage (idx body ''usage'') = chat_counts (an_running a)"
    using ans(1,2) small_prompt [OF ans(1)] chat_told_small [OF ans(1)]
    by (simp add: body_def render_completion_def Let_def json_simps hub(4) usage_json_def usage_fits_def chat_told_def chat_usage_of_def)
  have word: "nonempty (Some (hub_finish x)) = Some (hub_finish x)" for x by (simp add: hub_finish_def)
  have reason: "finish_reason (hub_finish (stop_reason_str (the (settled_stop a)))) (calls \<noteq> []) False = chat_word (an_calls a \<noteq> []) reason"
    using assms(5) by (cases reason) (simp_all add: settled_stop_def stop_reason_str_def hub_finish_def finish_reason_def chat_word_spec calls_def)
  have "chat_parse_response body = [UsageUpdate (chat_counts (an_running a))] @ opt_event TextDelta (Some (an_text a)) @
      opt_event ThinkingDelta (Some (an_thinking a)) @ concat (map chat_response_call calls) @
      [Stop (chat_word (an_calls a \<noteq> []) reason) (chat_counts (an_running a))]"
    unfolding chat_parse_response_def Let_def message_def [symmetric] finish usage as_str_simps word reason [symmetric]
    using m by (auto simp: json_simps or_else_def split: option.splits)
  moreover have "fold (hear same_word id) (concat (map chat_response_call calls)) x = x\<lparr>an_calls := an_calls a\<rparr>" if "an_calls x = []" for x
    unfolding calls_def response_calls using ans(3) that by (simp add: hear_calls)
  ultimately show ?thesis
    unfolding body_def [symmetric] hub_def [symmetric]
    by (simp add: hear_opt del: map_map) (simp add: nothing_said_def Let_def same_word_def hear_opt)
qed

theorem chat_collected_answer_witness:
  "an_calls (fold (hear same_word id) (chat_parse_response (render_completion tiny_serde (render_from_events tiny_serde one_answer ''r'' ''m'') ''r'')) nothing_said) =
     [(''a'', ''f'', ''{}'')]"
  using chat_collected_answer [of one_answer tiny_serde EndTurn "''r''" "''m''"] one_answer_facts
  by (simp add: settled_def tiny_serde_def)

end
