(* ===== verification/Responses_Stream.thy ===== *)
theory Responses_Stream
  imports Responses Completions_Stream
begin

text \<open>
  Responses of the Responses dialect (\<^verbatim>\<open>oag-proto/src/responses.rs\<close>): named events and whole bodies read
  into canonical events, canonical events written as the items of a response with their lifecycle, and
  the conversion of the hub's message. Sums of token counts wrap at 64 bits.
\<close>

subsection \<open>Reading\<close>

definition resp_parse_usage :: "json \<Rightarrow> usage" where
  "resp_parse_usage v =
     (let cached = u64_or 0 (idx (idx v ''input_tokens_details'') ''cached_tokens'') in
      \<lparr>input_tokens = u64_or 0 (idx v ''input_tokens'') - cached, output_tokens = u64_or 0 (idx v ''output_tokens''),
       cache_read_tokens = cached, cache_write_tokens = 0\<rparr>)"

definition has_refusal :: "json \<Rightarrow> bool" where
  "has_refusal item = list_ex (\<lambda>p. as_str (idx p ''type'') = Some ''refusal'') (items (idx item ''content''))"

definition resp_reason :: "string option \<Rightarrow> bool \<Rightarrow> bool \<Rightarrow> stop_reason" where
  "resp_reason details refused called_a_tool =
     (if details = Some ''max_output_tokens'' then MaxTokens
      else if details = Some ''content_filter'' then StopRefusal
      else if refused then StopRefusal
      else if called_a_tool then StopToolUse
      else EndTurn)"

definition resp_event :: "json \<Rightarrow> accumulator \<Rightarrow> stream_event list" where
  "resp_event v acc =
     (let kind = str_or [] (idx v ''type'') in
      if kind = ''response.created'' then
        [Start (str_or [] (idx (idx v ''response'') ''model'')) (resp_parse_usage (idx (idx v ''response'') ''usage''))]
      else if kind = ''response.output_text.delta'' then [TextDelta (str_or [] (idx v ''delta''))]
      else if kind = ''response.reasoning_summary_text.delta'' \<or> kind = ''response.reasoning_text.delta'' then
        [ThinkingDelta (str_or [] (idx v ''delta''))]
      else if kind = ''response.output_item.added'' then
        (let item = idx v ''item'' in
         if as_str (idx item ''type'') = Some ''function_call''
         then [ToolUseStart (str_or [] (idx item ''call_id'')) (restore_function_name acc (str_or [] (idx item ''name'')))]
         else [])
      else if kind = ''response.function_call_arguments.delta'' then
        [ToolUseDelta (case current_tool_id acc of Some t \<Rightarrow> t | None \<Rightarrow> []) (str_or [] (idx v ''delta''))]
      else if kind = ''response.output_item.done'' then
        (let item = idx v ''item'' in
         if as_str (idx item ''type'') = Some ''function_call''
         then [ToolUseEnd (case or_else (as_str (idx item ''call_id'')) (current_tool_id acc) of Some t \<Rightarrow> t | None \<Rightarrow> [])]
         else [])
      else if kind = ''response.completed'' \<or> kind = ''response.incomplete'' then
        (let response = idx v ''response'';
             usage = resp_parse_usage (idx response ''usage'');
             output = items (idx response ''output'');
             called = (saw_tool_call acc \<or> list_ex (\<lambda>item. as_str (idx item ''type'') = Some ''function_call'') output) in
         [UsageUpdate usage,
          Stop (resp_reason (as_str (idx (idx response ''incomplete_details'') ''reason'')) (list_ex has_refusal output) called) usage])
      else if kind = ''response.failed'' \<or> kind = ''error'' then
        [EventError (case or_else (as_str (idx (idx (idx v ''response'') ''error'') ''message'')) (as_str (idx v ''message'')) of
           Some m \<Rightarrow> m | None \<Rightarrow> ''upstream error'')]
      else [])"

definition resp_parse_event :: "serde \<Rightarrow> string \<Rightarrow> accumulator \<Rightarrow> error + stream_event list" where
  "resp_parse_event S payload acc =
     (case from_text S payload of Inl e \<Rightarrow> Inl (Serde e) | Inr v \<Rightarrow> Inr (resp_event v acc))"

definition resp_message_part :: "json \<Rightarrow> stream_event list" where
  "resp_message_part part =
     (let t = str_or [] (idx part ''type'') in
      if t = ''output_text'' then [TextDelta (str_or [] (idx part ''text''))]
      else if t = ''refusal'' then [TextDelta (str_or [] (idx part ''refusal''))]
      else [])"

definition resp_output_item :: "json \<Rightarrow> stream_event list" where
  "resp_output_item item =
     (let t = str_or [] (idx item ''type'') in
      if t = ''message'' then concat (map resp_message_part (items (idx item ''content'')))
      else if t = ''reasoning'' then concat (map (\<lambda>part. opt_event ThinkingDelta (as_str (idx part ''text''))) (items (idx item ''summary'')))
      else if t = ''function_call'' then
        (let tid = str_or [] (idx item ''call_id'') in
         [ToolUseStart tid (str_or [] (idx item ''name'')), ToolUseDelta tid (str_or [] (idx item ''arguments'')), ToolUseEnd tid])
      else [])"

definition resp_item_refuses :: "json \<Rightarrow> bool" where
  "resp_item_refuses item \<longleftrightarrow> str_or [] (idx item ''type'') = ''message'' \<and>
     list_ex (\<lambda>part. str_or [] (idx part ''type'') = ''refusal'') (items (idx item ''content''))"

definition resp_parse_response :: "json \<Rightarrow> stream_event list" where
  "resp_parse_response body =
     (let usage = resp_parse_usage (idx body ''usage'');
          output = items (idx body ''output'');
          tool_calls = list_ex (\<lambda>item. str_or [] (idx item ''type'') = ''function_call'') output in
      [UsageUpdate usage] @ concat (map resp_output_item output) @
      [Stop (resp_reason (as_str (idx (idx body ''incomplete_details'') ''reason'')) (list_ex resp_item_refuses output) tool_calls) usage])"

subsection \<open>Writing\<close>

record resp_tool_call =
  tc_call_id :: string
  tc_index :: nat
  tc_item_id :: string
  tc_name :: string
  tc_args :: string

record resp_render =
  rr_id :: string
  rr_model :: string
  rr_created :: bool
  rr_next_index :: nat
  rr_message :: "(nat \<times> string) option"
  rr_text :: string
  rr_reasoning :: "(nat \<times> string) option"
  rr_reasoning_text :: string
  rr_tools :: "resp_tool_call list"
  rr_usage :: usage
  rr_finished :: bool

definition resp_render_new :: "string \<Rightarrow> string \<Rightarrow> resp_render" where
  "resp_render_new request_id model =
     \<lparr>rr_id = ''resp_'' @ request_id, rr_model = model, rr_created = False, rr_next_index = 0, rr_message = None, rr_text = [],
      rr_reasoning = None, rr_reasoning_text = [], rr_tools = [], rr_usage = usage_default, rr_finished = False\<rparr>"

definition named :: "string \<Rightarrow> (string \<times> json) list \<Rightarrow> frame" where
  "named name fs = (name, JObj ((''type'', JStr name) # fs))"

definition item_id :: "string \<Rightarrow> nat \<Rightarrow> resp_render \<Rightarrow> string" where
  "item_id kind index st =
     kind @ ''_'' @ (case strip_prefix ''resp_'' (rr_id st) of Some rest \<Rightarrow> rest | None \<Rightarrow> rr_id st) @ ''_'' @ show_nat index"

definition ensure_created :: "resp_render \<Rightarrow> frame list \<times> resp_render" where
  "ensure_created st =
     (if rr_created st then ([], st)
      else ([named ''response.created'' [(''response'', JObj [(''id'', JStr (rr_id st)), (''object'', JStr ''response''), (''created_at'', jnat 0),
              (''status'', JStr ''in_progress''), (''model'', JStr (rr_model st)), (''output'', JArr [])])]], st\<lparr>rr_created := True\<rparr>))"

definition summary_part :: "string \<Rightarrow> json" where
  "summary_part t = JObj [(''type'', JStr ''summary_text''), (''text'', JStr t)]"

definition output_part :: "string \<Rightarrow> json" where
  "output_part t = JObj [(''type'', JStr ''output_text''), (''text'', JStr t), (''annotations'', JArr [])]"

definition item_added :: "nat \<Rightarrow> json \<Rightarrow> frame" where
  "item_added index item = named ''response.output_item.added'' [(''output_index'', jnat index), (''item'', item)]"

definition item_done :: "nat \<Rightarrow> json \<Rightarrow> frame" where
  "item_done index item = named ''response.output_item.done'' [(''output_index'', jnat index), (''item'', item)]"

definition close_message :: "resp_render \<Rightarrow> frame list \<times> resp_render" where
  "close_message st =
     (case rr_message st of
        None \<Rightarrow> ([], st)
      | Some (index, i) \<Rightarrow>
          ([named ''response.output_text.done'' [(''item_id'', JStr i), (''output_index'', jnat index), (''content_index'', jnat 0), (''text'', JStr (rr_text st))],
            named ''response.content_part.done'' [(''item_id'', JStr i), (''output_index'', jnat index), (''content_index'', jnat 0),
              (''part'', output_part (rr_text st))],
            item_done index (JObj [(''id'', JStr i), (''type'', JStr ''message''), (''status'', JStr ''completed''), (''role'', JStr ''assistant''),
              (''content'', JArr [output_part (rr_text st)])])],
           st\<lparr>rr_message := None, rr_text := []\<rparr>))"

definition close_reasoning :: "resp_render \<Rightarrow> frame list \<times> resp_render" where
  "close_reasoning st =
     (case rr_reasoning st of
        None \<Rightarrow> ([], st)
      | Some (index, i) \<Rightarrow>
          ([named ''response.reasoning_summary_text.done'' [(''item_id'', JStr i), (''output_index'', jnat index), (''summary_index'', jnat 0),
              (''text'', JStr (rr_reasoning_text st))],
            named ''response.reasoning_summary_part.done'' [(''item_id'', JStr i), (''output_index'', jnat index), (''summary_index'', jnat 0),
              (''part'', summary_part (rr_reasoning_text st))],
            item_done index (JObj [(''id'', JStr i), (''type'', JStr ''reasoning''), (''summary'', JArr [summary_part (rr_reasoning_text st)])])],
           st\<lparr>rr_reasoning := None, rr_reasoning_text := []\<rparr>))"

definition open_reasoning :: "resp_render \<Rightarrow> frame list \<times> resp_render" where
  "open_reasoning st =
     (case rr_reasoning st of
        Some _ \<Rightarrow> ([], st)
      | None \<Rightarrow>
          (case close_message st of (out, st) \<Rightarrow>
           let index = rr_next_index st; i = item_id ''rs'' index st in
           (out @
            [item_added index (JObj [(''id'', JStr i), (''type'', JStr ''reasoning''), (''summary'', JArr [])]),
             named ''response.reasoning_summary_part.added'' [(''item_id'', JStr i), (''output_index'', jnat index), (''summary_index'', jnat 0),
               (''part'', summary_part [])]],
            st\<lparr>rr_next_index := index + 1, rr_reasoning := Some (index, i)\<rparr>)))"

definition open_message :: "resp_render \<Rightarrow> frame list \<times> resp_render" where
  "open_message st =
     (case rr_message st of
        Some _ \<Rightarrow> ([], st)
      | None \<Rightarrow>
          (case close_reasoning st of (out, st) \<Rightarrow>
           let index = rr_next_index st; i = item_id ''msg'' index st in
           (out @
            [item_added index (JObj [(''id'', JStr i), (''type'', JStr ''message''), (''status'', JStr ''in_progress''), (''role'', JStr ''assistant''),
               (''content'', JArr [])]),
             named ''response.content_part.added'' [(''item_id'', JStr i), (''output_index'', jnat index), (''content_index'', jnat 0),
               (''part'', output_part [])]],
            st\<lparr>rr_next_index := index + 1, rr_message := Some (index, i)\<rparr>)))"

definition resp_usage :: "nat \<Rightarrow> nat \<Rightarrow> nat \<Rightarrow> json" where
  "resp_usage input output cached =
     JObj [(''input_tokens'', jnat input), (''input_tokens_details'', JObj [(''cached_tokens'', jnat cached)]), (''output_tokens'', jnat output),
       (''output_tokens_details'', JObj [(''reasoning_tokens'', jnat 0)]), (''total_tokens'', jnat (wrap64 (input + output)))]"

definition resp_usage_of :: "usage \<Rightarrow> json" where
  "resp_usage_of u = resp_usage (wrap64 (input_tokens u + cache_read_tokens u + cache_write_tokens u)) (output_tokens u) (cache_read_tokens u)"

definition render_tool_start :: "string \<Rightarrow> string \<Rightarrow> resp_render \<Rightarrow> frame list \<times> resp_render" where
  "render_tool_start tid name st =
     (case ensure_created st of (a, st) \<Rightarrow> case close_reasoning st of (b, st) \<Rightarrow> case close_message st of (c, st) \<Rightarrow>
      let index = rr_next_index st; i = item_id ''fc'' index st in
      (a @ b @ c @
       [item_added index (JObj [(''id'', JStr i), (''type'', JStr ''function_call''), (''status'', JStr ''in_progress''), (''call_id'', JStr tid),
          (''name'', JStr name), (''arguments'', JStr [])])],
       st\<lparr>rr_next_index := index + 1,
         rr_tools := rr_tools st @ [\<lparr>tc_call_id = tid, tc_index = index, tc_item_id = i, tc_name = name, tc_args = []\<rparr>]\<rparr>))"

fun push_args :: "string \<Rightarrow> string \<Rightarrow> resp_tool_call list \<Rightarrow> resp_tool_call list" where
  "push_args tid s [] = []"
| "push_args tid s (c # cs) = (if tc_call_id c = tid then c\<lparr>tc_args := tc_args c @ s\<rparr> # cs else c # push_args tid s cs)"

definition render_tool_delta :: "string \<Rightarrow> string \<Rightarrow> resp_render \<Rightarrow> frame list \<times> resp_render" where
  "render_tool_delta tid partial_json st =
     (case find (\<lambda>c. tc_call_id c = tid) (rr_tools st) of
        None \<Rightarrow> ([], st)
      | Some c \<Rightarrow>
          ([named ''response.function_call_arguments.delta'' [(''item_id'', JStr (tc_item_id c)), (''output_index'', jnat (tc_index c)),
              (''delta'', JStr partial_json)]],
           st\<lparr>rr_tools := push_args tid partial_json (rr_tools st)\<rparr>))"

fun drop_call :: "string \<Rightarrow> resp_tool_call list \<Rightarrow> resp_tool_call list" where
  "drop_call tid [] = []"
| "drop_call tid (c # cs) = (if tc_call_id c = tid then cs else c # drop_call tid cs)"

definition render_tool_end :: "string \<Rightarrow> resp_render \<Rightarrow> frame list \<times> resp_render" where
  "render_tool_end tid st =
     (case find (\<lambda>c. tc_call_id c = tid) (rr_tools st) of
        None \<Rightarrow> ([], st)
      | Some c \<Rightarrow>
          ([named ''response.function_call_arguments.done'' [(''item_id'', JStr (tc_item_id c)), (''output_index'', jnat (tc_index c)),
              (''arguments'', JStr (tc_args c))],
            item_done (tc_index c) (JObj [(''id'', JStr (tc_item_id c)), (''type'', JStr ''function_call''), (''status'', JStr ''completed''),
              (''call_id'', JStr (tc_call_id c)), (''name'', JStr (tc_name c)), (''arguments'', JStr (tc_args c))])],
           st\<lparr>rr_tools := drop_call tid (rr_tools st)\<rparr>))"

definition closing :: "resp_render \<Rightarrow> frame list \<times> resp_render" where
  "closing st =
     (case ensure_created st of (a, st) \<Rightarrow> case close_reasoning st of (b, st) \<Rightarrow> case close_message st of (c, st) \<Rightarrow> (a @ b @ c, st))"

definition incomplete_word :: "stop_reason \<Rightarrow> string option" where
  "incomplete_word r = (case r of MaxTokens \<Rightarrow> Some ''max_output_tokens'' | StopRefusal \<Rightarrow> Some ''content_filter'' | _ \<Rightarrow> None)"

definition resp_terminal :: "stop_reason \<Rightarrow> resp_render \<Rightarrow> frame" where
  "resp_terminal reason st =
     (let incomplete = (reason = MaxTokens \<or> reason = StopRefusal);
          response = JObj [(''id'', JStr (rr_id st)), (''object'', JStr ''response''), (''created_at'', jnat 0),
            (''status'', JStr (if incomplete then ''incomplete'' else ''completed'')), (''model'', JStr (rr_model st)),
            (''usage'', resp_usage_of (rr_usage st))] in
      named (if incomplete then ''response.incomplete'' else ''response.completed'')
        [(''response'', set_some ''incomplete_details'' (map_option (\<lambda>w. JObj [(''reason'', JStr w)]) (incomplete_word reason)) response)])"

definition render_failure :: "string \<Rightarrow> resp_render \<Rightarrow> frame list \<times> resp_render" where
  "render_failure message st =
     (if rr_finished st then ([], st)
      else case closing (st\<lparr>rr_finished := True\<rparr>) of (out, st) \<Rightarrow>
        (out @ [named ''response.failed'' [(''response'', JObj [(''id'', JStr (rr_id st)), (''object'', JStr ''response''), (''created_at'', jnat 0),
            (''status'', JStr ''failed''), (''model'', JStr (rr_model st)),
            (''error'', JObj [(''code'', JStr ''server_error''), (''message'', JStr message)]), (''usage'', resp_usage_of (rr_usage st))])]], st))"

fun resp_render_event :: "stream_event \<Rightarrow> resp_render \<Rightarrow> frame list \<times> resp_render" where
  "resp_render_event (Start model u) st =
     ensure_created (st\<lparr>rr_model := adopt_model (rr_model st) model, rr_usage := merge (rr_usage st) u\<rparr>)"
| "resp_render_event (TextDelta t) st =
     (case ensure_created st of (a, st) \<Rightarrow> case open_message st of (b, st) \<Rightarrow>
      let (index, i) = the (rr_message st) in
      (a @ b @ [named ''response.output_text.delta'' [(''item_id'', JStr i), (''output_index'', jnat index), (''content_index'', jnat 0), (''delta'', JStr t)]],
       st\<lparr>rr_text := rr_text st @ t\<rparr>))"
| "resp_render_event (ThinkingDelta t) st =
     (case ensure_created st of (a, st) \<Rightarrow> case open_reasoning st of (b, st) \<Rightarrow>
      let (index, i) = the (rr_reasoning st) in
      (a @ b @ [named ''response.reasoning_summary_text.delta'' [(''item_id'', JStr i), (''output_index'', jnat index), (''summary_index'', jnat 0), (''delta'', JStr t)]],
       st\<lparr>rr_reasoning_text := rr_reasoning_text st @ t\<rparr>))"
| "resp_render_event (ToolUseStart tid name) st = render_tool_start tid name st"
| "resp_render_event (ToolUseDelta tid partial_json) st = render_tool_delta tid partial_json st"
| "resp_render_event (ToolUseEnd tid) st = render_tool_end tid st"
| "resp_render_event (UsageUpdate u) st = ([], st\<lparr>rr_usage := merge (rr_usage st) u\<rparr>)"
| "resp_render_event (Stop reason u) st =
     (if rr_finished st then ([], st)
      else case closing (st\<lparr>rr_finished := True, rr_usage := merge (rr_usage st) u\<rparr>) of (out, st) \<Rightarrow> (out @ [resp_terminal reason st], st))"
| "resp_render_event (EventError message) st = render_failure message st"

subsection \<open>From the hub\<close>

definition hub_function_call :: "serde \<Rightarrow> string \<Rightarrow> nat \<Rightarrow> json \<Rightarrow> json" where
  "hub_function_call S request_id n block =
     JObj [(''id'', JStr (''fc_'' @ request_id @ ''_'' @ show_nat n)), (''type'', JStr ''function_call''), (''status'', JStr ''completed''),
       (''call_id'', idx block ''id''), (''name'', idx block ''name''), (''arguments'', JStr (to_text S (idx block ''input'')))]"

definition render_response :: "serde \<Rightarrow> json \<Rightarrow> string \<Rightarrow> json" where
  "render_response S hub request_id =
     (let blocks = items (idx hub ''content'');
          t = concat (map (hub_words ''text'') blocks);
          reasoning = concat (map (hub_words ''thinking'') blocks);
          calls = filter (\<lambda>b. str_or [] (idx b ''type'') = ''tool_use'') blocks;
          output = map (\<lambda>(n, b). hub_function_call S request_id n b) (enumerate 0 calls);
          output = (if t \<noteq> [] then JObj [(''id'', JStr (''msg_'' @ request_id @ ''_0'')), (''type'', JStr ''message''), (''status'', JStr ''completed''),
              (''role'', JStr ''assistant''), (''content'', JArr [output_part t])] # output else output);
          output = (if reasoning \<noteq> [] then JObj [(''id'', JStr (''rs_'' @ request_id @ ''_0'')), (''type'', JStr ''reasoning''), (''status'', JStr ''completed''),
              (''summary'', JArr [summary_part reasoning])] # output else output);
          u = idx hub ''usage'';
          cached = u64_or 0 (idx u ''cache_read_input_tokens'');
          input = wrap64 (u64_or 0 (idx u ''input_tokens'') + cached + u64_or 0 (idx u ''cache_creation_input_tokens''));
          stop = str_or ''end_turn'' (idx hub ''stop_reason'');
          incomplete = (stop = ''max_tokens'' \<or> stop = ''refusal'');
          response = JObj [(''id'', JStr (''resp_'' @ request_id)), (''object'', JStr ''response''), (''created_at'', jnat 0),
            (''status'', JStr (if incomplete then ''incomplete'' else ''completed'')), (''model'', idx hub ''model''), (''output'', JArr output),
            (''usage'', resp_usage input (u64_or 0 (idx u ''output_tokens'')) cached)] in
      set_when incomplete ''incomplete_details''
        (JObj [(''reason'', JStr (if stop = ''max_tokens'' then ''max_output_tokens'' else ''content_filter''))]) response)"

subsection \<open>A client of this dialect\<close>

text \<open>
  How a client of the dialect follows a stream: items are numbered from zero in the order they are added,
  every other frame names an item by index and id that was added and is not done, a delta is of its
  item's kind, what a closing frame repeats is what was streamed, and the response ends with every item
  done. Anything else is a protocol error, \<open>None\<close>.
\<close>

record resp_client =
  rc_created :: bool
  rc_next :: nat
  rc_open :: "(nat \<times> string \<times> block_kind \<times> string) list"
  rc_answer :: answer
  rc_done :: bool

definition resp_client_new :: resp_client where
  "resp_client_new = \<lparr>rc_created = False, rc_next = 0, rc_open = [], rc_answer = nothing_said, rc_done = False\<rparr>"

definition item_kind :: "json \<Rightarrow> block_kind option" where
  "item_kind item =
     (let t = idx item ''type'' in
      if t = JStr ''message'' then Some KText
      else if t = JStr ''reasoning'' then Some KThinking
      else if t = JStr ''function_call'' then Some (KTool (str_or [] (idx item ''call_id'')) (str_or [] (idx item ''name'')))
      else None)"

definition item_whole :: "block_kind \<Rightarrow> json \<Rightarrow> string option" where
  "item_whole k item =
     (case k of
        KText \<Rightarrow> as_str (idx (idx_at (idx item ''content'') 0) ''text'')
      | KThinking \<Rightarrow> as_str (idx (idx_at (idx item ''summary'') 0) ''text'')
      | KTool _ _ \<Rightarrow> as_str (idx item ''arguments''))"

definition delta_name :: "block_kind \<Rightarrow> string" where
  "delta_name k = (case k of KText \<Rightarrow> ''response.output_text.delta'' | KThinking \<Rightarrow> ''response.reasoning_summary_text.delta''
     | KTool _ _ \<Rightarrow> ''response.function_call_arguments.delta'')"

text \<open>The frames that repeat what an item holds: nothing when its part is added, all of it when it is done.\<close>

definition repeated :: "block_kind \<Rightarrow> string \<Rightarrow> json \<Rightarrow> string option" where
  "repeated k name v =
     (case k of
        KText \<Rightarrow>
          if name = ''response.output_text.done'' then as_str (idx v ''text'')
          else if name = ''response.content_part.added'' \<or> name = ''response.content_part.done'' then as_str (idx (idx v ''part'') ''text'')
          else None
      | KThinking \<Rightarrow>
          if name = ''response.reasoning_summary_text.done'' then as_str (idx v ''text'')
          else if name = ''response.reasoning_summary_part.added'' \<or> name = ''response.reasoning_summary_part.done''
          then as_str (idx (idx v ''part'') ''text'') else None
      | KTool _ _ \<Rightarrow> if name = ''response.function_call_arguments.done'' then as_str (idx v ''arguments'') else None)"

fun heard_in :: "block_kind \<Rightarrow> string \<Rightarrow> answer \<Rightarrow> answer" where
  "heard_in KText s a = a\<lparr>an_text := an_text a @ s\<rparr>"
| "heard_in KThinking s a = a\<lparr>an_thinking := an_thinking a @ s\<rparr>"
| "heard_in (KTool tid _) s a = a\<lparr>an_calls := add_fragment tid s (an_calls a)\<rparr>"

fun heard_open :: "block_kind \<Rightarrow> answer \<Rightarrow> answer" where
  "heard_open (KTool tid name) a = a\<lparr>an_calls := an_calls a @ [(tid, name, [])]\<rparr>"
| "heard_open _ a = a"

definition item_at :: "json \<Rightarrow> resp_client \<Rightarrow> (nat \<times> string \<times> block_kind \<times> string) option" where
  "item_at v cl = find (\<lambda>(i, _). idx v ''output_index'' = jnat i) (rc_open cl)"

definition read_named :: "frame \<Rightarrow> resp_client \<Rightarrow> resp_client option" where
  "read_named f cl =
     (let name = fst f; v = snd f in
      if idx v ''type'' \<noteq> JStr name then None
      else if name = ''response.created'' then (if rc_created cl then None else Some (cl\<lparr>rc_created := True\<rparr>))
      else if \<not> rc_created cl \<or> rc_done cl then None
      else if name = ''response.output_item.added'' then
        (let item = idx v ''item'' in
         case (item_kind item, as_str (idx item ''id'')) of
           (Some k, Some i) \<Rightarrow>
             if idx v ''output_index'' = jnat (rc_next cl)
             then Some (cl\<lparr>rc_next := rc_next cl + 1, rc_open := AList.update (rc_next cl) (i, k, []) (rc_open cl), rc_answer := heard_open k (rc_answer cl)\<rparr>)
             else None
         | _ \<Rightarrow> None)
      else if name = ''response.output_item.done'' then
        (case item_at v cl of
           Some (n, i, k, s) \<Rightarrow>
             if idx (idx v ''item'') ''id'' = JStr i \<and> item_kind (idx v ''item'') = Some k \<and> item_whole k (idx v ''item'') = Some s
             then Some (cl\<lparr>rc_open := AList.delete n (rc_open cl)\<rparr>) else None
         | None \<Rightarrow> None)
      else if name = ''response.completed'' \<or> name = ''response.incomplete'' then
        (if rc_open cl \<noteq> [] then None
         else
           let response = idx v ''response''; a = rc_answer cl in
           Some (cl\<lparr>rc_done := True, rc_answer := a\<lparr>
             an_stop := Some (resp_reason (as_str (idx (idx response ''incomplete_details'') ''reason'')) False (an_calls a \<noteq> [])),
             an_usage := Some (resp_parse_usage (idx response ''usage''))\<rparr>\<rparr>))
      else
        (case item_at v cl of
           Some (n, i, k, s) \<Rightarrow>
             if idx v ''item_id'' \<noteq> JStr i then None
             else if name = delta_name k then
               map_option (\<lambda>d. cl\<lparr>rc_open := AList.update n (i, k, s @ d) (rc_open cl), rc_answer := heard_in k d (rc_answer cl)\<rparr>) (as_str (idx v ''delta''))
             else if repeated k name v = Some s then Some cl
             else None
         | None \<Rightarrow> None))"

fun open_item :: "block_kind \<Rightarrow> (nat \<times> string) option \<Rightarrow> string \<Rightarrow> (nat \<times> string \<times> block_kind \<times> string) list" where
  "open_item k (Some (n, i)) s = [(n, i, k, s)]"
| "open_item k None s = []"

definition open_call :: "resp_tool_call \<Rightarrow> nat \<times> string \<times> block_kind \<times> string" where
  "open_call c = (tc_index c, tc_item_id c, KTool (tc_call_id c) (tc_name c), tc_args c)"

definition open_items :: "resp_render \<Rightarrow> (nat \<times> string \<times> block_kind \<times> string) list" where
  "open_items st =
     open_item KText (rr_message st) (rr_text st) @ open_item KThinking (rr_reasoning st) (rr_reasoning_text st) @ map open_call (rr_tools st)"

definition resp_content :: "resp_render \<Rightarrow> resp_client \<Rightarrow> answer" where
  "resp_content st cl = (rc_answer cl)\<lparr>an_running := rr_usage st\<rparr>"

definition resp_step :: "stream_event \<Rightarrow> tell \<Rightarrow> tell option" where
  "resp_step ev t =
     (case ev of
        Stop _ _ \<Rightarrow> if tl_open t \<noteq> [] then None else tell_step True ev t
      | EventError _ \<Rightarrow> None
      | _ \<Rightarrow> tell_step True ev t)"

definition items_follow :: "resp_render \<Rightarrow> resp_client \<Rightarrow> bool" where
  "items_follow st cl \<longleftrightarrow>
     rc_next cl = rr_next_index st \<and> map_of (rc_open cl) = map_of (open_items st) \<and> distinct (map fst (open_items st)) \<and>
     (\<forall>x \<in> set (open_items st). fst x < rr_next_index st)"

definition neat :: "tell \<Rightarrow> resp_render \<Rightarrow> bool" where
  "neat t st \<longleftrightarrow>
     tl_done t = rr_finished st \<and> (\<not> rr_created st \<longrightarrow> open_items st = [] \<and> \<not> rr_finished st) \<and> (rr_finished st \<longrightarrow> open_items st = []) \<and>
     map tc_call_id (rr_tools st) = tl_open t \<and> distinct (tl_open t) \<and> set (tl_open t) \<subseteq> set (tl_seen t) \<and>
     (rr_message st = None \<longrightarrow> rr_text st = []) \<and> (rr_reasoning st = None \<longrightarrow> rr_reasoning_text st = []) \<and>
     (rr_message st = None \<or> rr_reasoning st = None)"

definition resp_follows :: "tell \<Rightarrow> resp_render \<Rightarrow> resp_client \<Rightarrow> bool" where
  "resp_follows t st cl \<longleftrightarrow>
     items_follow st cl \<and> rc_created cl = rr_created st \<and> rc_done cl = rr_finished st \<and>
     (an_stop (rc_answer cl) = None \<longleftrightarrow> \<not> rr_finished st) \<and> neat t st"

subsection \<open>Items\<close>

lemma open_items_kept [simp]: "open_items (st\<lparr>rr_created := b\<rparr>) = open_items st" "open_items (st\<lparr>rr_finished := b\<rparr>) = open_items st"
  "open_items (st\<lparr>rr_usage := u\<rparr>) = open_items st" "open_items (st\<lparr>rr_model := m\<rparr>) = open_items st"
  "open_items (st\<lparr>rr_next_index := n\<rparr>) = open_items st"
  by (simp_all add: open_items_def)

lemma map_of_insert: "n \<notin> fst ` set A \<Longrightarrow> map_of (A @ (n, x) # B) = (map_of (A @ B))(n \<mapsto> x)"
  by (induction A) (auto simp: fun_eq_iff)

lemma map_of_middle:
  assumes "distinct (map fst (A @ (n, x) # B))"
  shows "(map_of (A @ (n, x) # B))(n := None) = map_of (A @ B)" and "(map_of (A @ (n, x) # B))(n \<mapsto> y) = map_of (A @ (n, y) # B)"
proof -
  have n: "n \<notin> fst ` set A" "map_of (A @ B) n = None" using assms by (auto simp: map_of_eq_None_iff)
  then show "(map_of (A @ (n, x) # B))(n := None) = map_of (A @ B)" by (simp add: map_of_insert fun_upd_idem del: map_of_append)
  show "(map_of (A @ (n, x) # B))(n \<mapsto> y) = map_of (A @ (n, y) # B)" using n by (simp add: map_of_insert del: map_of_append)
qed

lemma items_close:
  assumes "items_follow st cl" and "open_items st = A @ (n, i, k, s) # B" and "open_items st' = A @ B" and "rr_next_index st' = rr_next_index st"
  shows "items_follow st' (cl\<lparr>rc_open := AList.delete n (rc_open cl)\<rparr>)"
  using assms map_of_middle(1) [of A n "(i, k, s)" B] by (auto simp: items_follow_def delete_conv')

lemma items_say:
  assumes "items_follow st cl" and "open_items st = A @ (n, i, k, s) # B" and "open_items st' = A @ (n, i, k, s') # B"
    and "rr_next_index st' = rr_next_index st"
  shows "items_follow st' (cl\<lparr>rc_open := AList.update n (i, k, s') (rc_open cl), rc_answer := a\<rparr>)"
  using assms map_of_middle(2) [of A n "(i, k, s)" B "(i, k, s')"] by (auto simp: items_follow_def update_conv')

lemma items_open:
  assumes "items_follow st cl" and "open_items st = A @ B" and "open_items st' = A @ (rr_next_index st, i, k, []) # B"
    and "rr_next_index st' = rr_next_index st + 1"
  shows "items_follow st' (cl\<lparr>rc_next := rc_next cl + 1, rc_open := AList.update (rc_next cl) (i, k, []) (rc_open cl), rc_answer := a\<rparr>)"
proof -
  let ?n = "rr_next_index st"
  have below: "\<forall>x \<in> set (A @ B). fst x < ?n" and d: "distinct (map fst (A @ B))" and m: "map_of (rc_open cl) = map_of (A @ B)" "rc_next cl = ?n"
    using assms(1,2) by (simp_all add: items_follow_def)
  have fresh: "?n \<notin> fst ` set A" "?n \<notin> fst ` set B" using below by force+
  have "(map_of (A @ B))(?n \<mapsto> (i, k, [])) = map_of (A @ (?n, i, k, []) # B)"
    using fresh by (simp add: map_of_insert del: map_of_append)
  moreover have "distinct (map fst (A @ (?n, i, k, []) # B))" using fresh d by auto
  moreover have "\<forall>x \<in> set (A @ (?n, i, k, []) # B). fst x < ?n + 1" using below by force
  ultimately show ?thesis using assms(3,4) m by (simp add: items_follow_def update_conv')
qed

lemma find_key: "map_of xs n = Some x \<Longrightarrow> find (\<lambda>(i, _). jnat n = jnat i) xs = Some (n, x)"
  by (induction xs) (auto split: if_splits)

lemma item_found:
  assumes "items_follow st cl" and "(n, x) \<in> set (open_items st)" and "idx v ''output_index'' = jnat n"
  shows "item_at v cl = Some (n, x)"
  using assms find_key [of "rc_open cl" n x] by (simp add: item_at_def items_follow_def)

subsection \<open>The client follows the renderer\<close>

definition resp_leads :: "resp_client \<Rightarrow> frame list \<times> resp_render \<Rightarrow> tell \<Rightarrow> answer \<Rightarrow> bool" where
  "resp_leads cl r t a \<longleftrightarrow>
     (\<exists>cl'. read_all read_named (fst r) cl = Some cl' \<and> resp_follows t (snd r) cl' \<and> resp_content (snd r) cl' = a)"

lemma resp_leads_append:
  assumes "resp_leads cl (out, st1) t1 a1"
    and "\<And>cl1. resp_follows t1 st1 cl1 \<Longrightarrow> resp_content st1 cl1 = a1 \<Longrightarrow> resp_leads cl1 (out', st2) t2 a2"
  shows "resp_leads cl (out @ out', st2) t2 a2"
  using assms unfolding resp_leads_def by (fastforce simp: read_all_append)

lemma item_is_live:
  assumes "resp_follows t st cl" and "open_items st \<noteq> []"
  shows "rc_created cl" and "\<not> rc_done cl" and "rr_created st" and "\<not> rr_finished st" and "items_follow st cl"
  using assms by (auto simp: resp_follows_def neat_def)

lemmas frame_simps = read_named_def named_def item_done_def item_added_def repeated_def delta_name_def item_kind_def item_whole_def
  output_part_def summary_part_def idx_at_def json_simps

lemma read_closed_message:
  assumes "items_follow st cl" and "rc_created cl" and "\<not> rc_done cl" and "rr_message st = Some (n, i)"
  shows "read_all read_named (fst (close_message st)) cl = Some (cl\<lparr>rc_open := AList.delete n (rc_open cl)\<rparr>)"
proof -
  have found: "item_at v cl = Some (n, i, KText, rr_text st)" if "idx v ''output_index'' = jnat n" for v
    using item_found [OF assms(1) _ that] assms(4) by (simp add: open_items_def)
  show ?thesis using assms by (simp add: close_message_def frame_simps found)
qed

lemma read_closed_reasoning:
  assumes "items_follow st cl" and "rc_created cl" and "\<not> rc_done cl" and "rr_reasoning st = Some (n, i)"
  shows "read_all read_named (fst (close_reasoning st)) cl = Some (cl\<lparr>rc_open := AList.delete n (rc_open cl)\<rparr>)"
proof -
  have found: "item_at v cl = Some (n, i, KThinking, rr_reasoning_text st)" if "idx v ''output_index'' = jnat n" for v
    using item_found [OF assms(1) _ that] assms(4) by (simp add: open_items_def)
  show ?thesis using assms by (simp add: close_reasoning_def frame_simps found)
qed

lemma leads_close_message:
  assumes "resp_follows t st cl"
  shows "resp_leads cl (close_message st) t (resp_content st cl)"
proof (cases "rr_message st")
  case None
  with assms show ?thesis by (simp add: resp_leads_def close_message_def)
next
  case (Some x)
  obtain n i where x: "rr_message st = Some (n, i)" using Some by (cases x) simp
  let ?st = "st\<lparr>rr_message := None, rr_text := []\<rparr>" and ?cl = "cl\<lparr>rc_open := AList.delete n (rc_open cl)\<rparr>"
  have o: "open_items st = [] @ (n, i, KText, rr_text st) # open_items ?st" by (simp add: open_items_def x)
  note live = item_is_live [OF assms, unfolded o, simplified]
  have "items_follow ?st ?cl" by (rule items_close [OF live(5) o]) simp_all
  moreover have "neat t ?st" using assms live by (simp add: resp_follows_def neat_def)
  ultimately have "resp_follows t ?st ?cl" using assms by (simp add: resp_follows_def)
  with read_closed_message [OF live(5,1,2) x] show ?thesis by (simp add: resp_leads_def close_message_def x resp_content_def)
qed

lemma leads_close_reasoning:
  assumes "resp_follows t st cl"
  shows "resp_leads cl (close_reasoning st) t (resp_content st cl)"
proof (cases "rr_reasoning st")
  case None
  with assms show ?thesis by (simp add: resp_leads_def close_reasoning_def)
next
  case (Some x)
  obtain n i where x: "rr_reasoning st = Some (n, i)" using Some by (cases x) simp
  let ?st = "st\<lparr>rr_reasoning := None, rr_reasoning_text := []\<rparr>" and ?cl = "cl\<lparr>rc_open := AList.delete n (rc_open cl)\<rparr>"
  have m: "rr_message st = None" using assms x by (auto simp: resp_follows_def neat_def)
  have o: "open_items st = [] @ (n, i, KThinking, rr_reasoning_text st) # open_items ?st" by (simp add: open_items_def x m)
  note live = item_is_live [OF assms, unfolded o, simplified]
  have "items_follow ?st ?cl" by (rule items_close [OF live(5) o]) simp_all
  moreover have "neat t ?st" using assms live by (simp add: resp_follows_def neat_def)
  ultimately have "resp_follows t ?st ?cl" using assms by (simp add: resp_follows_def)
  with read_closed_reasoning [OF live(5,1,2) x] show ?thesis by (simp add: resp_leads_def close_reasoning_def x resp_content_def)
qed

lemma leads_created:
  assumes "resp_follows t st cl"
  shows "resp_leads cl (ensure_created st) t (resp_content st cl)"
proof (cases "rr_created st")
  case False
  then have "resp_follows t (st\<lparr>rr_created := True\<rparr>) (cl\<lparr>rc_created := True\<rparr>)"
    using assms by (simp add: resp_follows_def items_follow_def neat_def)
  with False assms show ?thesis
    by (simp add: resp_leads_def ensure_created_def frame_simps resp_content_def resp_follows_def)
qed (use assms in \<open>simp add: resp_leads_def ensure_created_def\<close>)

lemma kept_simps [simp]:
  "rr_created (snd (ensure_created st))" "rr_finished (snd (ensure_created st)) = rr_finished st"
  "rr_created (snd (close_message st)) = rr_created st" "rr_finished (snd (close_message st)) = rr_finished st"
  "rr_created (snd (close_reasoning st)) = rr_created st" "rr_finished (snd (close_reasoning st)) = rr_finished st"
  "rr_message (snd (close_message st)) = None" "rr_reasoning (snd (close_reasoning st)) = None"
  "rr_reasoning (snd (close_message st)) = rr_reasoning st" "rr_message (snd (close_reasoning st)) = rr_message st"
  "rr_usage (snd (ensure_created st)) = rr_usage st" "rr_usage (snd (close_message st)) = rr_usage st" "rr_usage (snd (close_reasoning st)) = rr_usage st"
  "rr_tools (snd (ensure_created st)) = rr_tools st" "rr_tools (snd (close_message st)) = rr_tools st" "rr_tools (snd (close_reasoning st)) = rr_tools st"
  by (simp_all add: ensure_created_def close_message_def close_reasoning_def split: option.split)

lemma leads_added:
  assumes "resp_follows t st cl" and "rr_created st" and "\<not> rr_finished st"
    and "open_items st = A @ B" and "open_items st' = A @ (rr_next_index st, i, k, []) # B"
    and "rr_next_index st' = rr_next_index st + 1" and "rr_usage st' = rr_usage st" and "rr_created st'" and "\<not> rr_finished st'"
    and "neat t' st'" and "item_kind item = Some k" and "as_str (idx item ''id'') = Some i"
  shows "resp_leads cl ([item_added (rr_next_index st) item], st') t' (heard_open k (resp_content st cl))"
proof -
  let ?cl = "cl\<lparr>rc_next := rc_next cl + 1, rc_open := AList.update (rc_next cl) (i, k, []) (rc_open cl), rc_answer := heard_open k (rc_answer cl)\<rparr>"
  have f: "items_follow st cl" "rc_created cl" "\<not> rc_done cl" "rc_next cl = rr_next_index st" "an_stop (rc_answer cl) = None"
    using assms(1-3) by (auto simp: resp_follows_def items_follow_def)
  have "read_named (item_added (rr_next_index st) item) cl = Some ?cl"
    using f(2-4) assms(11,12) by (simp add: read_named_def item_added_def named_def json_simps)
  moreover have "items_follow st' ?cl" by (rule items_open [OF f(1) assms(4-6)])
  moreover have "an_stop (heard_open k a) = an_stop a" for a by (cases k) simp_all
  ultimately have "read_named (item_added (rr_next_index st) item) cl = Some ?cl" "resp_follows t' st' ?cl"
    using assms(8-10) f by (simp_all add: resp_follows_def)
  moreover have "resp_content st' ?cl = heard_open k (resp_content st cl)"
    using assms(7) by (cases k) (simp_all add: resp_content_def)
  ultimately show ?thesis by (simp add: resp_leads_def)
qed

lemma leads_repeated:
  assumes "resp_follows t st cl" and "(n, i, k, s) \<in> set (open_items st)" and "repeated k name v = Some s"
    and "idx v ''type'' = JStr name" and "idx v ''output_index'' = jnat n" and "idx v ''item_id'' = JStr i"
    and "name \<notin> {''response.created'', ''response.output_item.added'', ''response.output_item.done'', ''response.completed'', ''response.incomplete'', delta_name k}"
  shows "resp_leads cl ([(name, v)], st) t (resp_content st cl)"
proof -
  have live: "rc_created cl" "\<not> rc_done cl" "items_follow st cl" using item_is_live [OF assms(1)] assms(2) by (cases "open_items st"; simp)+
  have "read_named (name, v) cl = Some cl"
    using live item_found [OF live(3) assms(2) assms(5)] assms(3,4,6,7) by (simp add: read_named_def)
  with assms(1) show ?thesis by (simp add: resp_leads_def)
qed

lemma leads_opened_message:
  assumes "resp_follows t st cl" and "rr_created st" and "\<not> rr_finished st"
  shows "resp_leads cl (open_message st) t (resp_content st cl)"
proof (cases "rr_message st")
  case (Some x)
  with assms show ?thesis by (simp add: resp_leads_def open_message_def)
next
  case None
  obtain out st1 where s1: "close_reasoning st = (out, st1)" by force
  have st1: "rr_created st1" "\<not> rr_finished st1" "rr_reasoning st1 = None" "rr_message st1 = None"
    using kept_simps [of st] s1 assms None by simp_all
  let ?n = "rr_next_index st1" and ?i = "item_id ''msg'' (rr_next_index st1) st1"
  let ?st = "st1\<lparr>rr_next_index := ?n + 1, rr_message := Some (?n, ?i)\<rparr>"
  let ?item = "JObj [(''id'', JStr ?i), (''type'', JStr ''message''), (''status'', JStr ''in_progress''), (''role'', JStr ''assistant''), (''content'', JArr [])]"
  let ?part = "named ''response.content_part.added'' [(''item_id'', JStr ?i), (''output_index'', jnat ?n), (''content_index'', jnat 0), (''part'', output_part [])]"
  have "resp_leads cl1 ([item_added ?n ?item] @ [?part], ?st) t (resp_content st cl)"
    if f: "resp_follows t st1 cl1" "resp_content st1 cl1 = resp_content st cl" for cl1
  proof (rule resp_leads_append)
    have empty: "rr_text st1 = []" using f(1) st1 by (simp add: resp_follows_def neat_def)
    have o: "open_items ?st = [] @ (?n, ?i, KText, []) # open_items st1" by (simp add: open_items_def st1 empty)
    show "resp_leads cl1 ([item_added ?n ?item], ?st) t (heard_open KText (resp_content st1 cl1))"
      using f(1) st1 o by (intro leads_added [where t = t and A = "[]" and B = "open_items st1"]) (simp_all add: item_kind_def json_simps resp_follows_def neat_def)
    fix cl2 assume "resp_follows t ?st cl2" "resp_content ?st cl2 = heard_open KText (resp_content st1 cl1)"
    then show "resp_leads cl2 ([?part], ?st) t (resp_content st cl)"
      using leads_repeated [of t ?st cl2 ?n ?i KText "[]" "fst ?part" "snd ?part"] o f(2)
      by (simp add: named_def json_simps repeated_def output_part_def delta_name_def)
  qed
  from resp_leads_append [OF leads_close_reasoning [OF assms(1), unfolded s1] this] show ?thesis
    by (simp add: open_message_def None s1 Let_def)
qed

lemma leads_opened_reasoning:
  assumes "resp_follows t st cl" and "rr_created st" and "\<not> rr_finished st"
  shows "resp_leads cl (open_reasoning st) t (resp_content st cl)"
proof (cases "rr_reasoning st")
  case (Some x)
  with assms show ?thesis by (simp add: resp_leads_def open_reasoning_def)
next
  case None
  obtain out st1 where s1: "close_message st = (out, st1)" by force
  have st1: "rr_created st1" "\<not> rr_finished st1" "rr_reasoning st1 = None" "rr_message st1 = None"
    using kept_simps [of st] s1 assms None by simp_all
  let ?n = "rr_next_index st1" and ?i = "item_id ''rs'' (rr_next_index st1) st1"
  let ?st = "st1\<lparr>rr_next_index := ?n + 1, rr_reasoning := Some (?n, ?i)\<rparr>"
  let ?item = "JObj [(''id'', JStr ?i), (''type'', JStr ''reasoning''), (''summary'', JArr [])]"
  let ?part = "named ''response.reasoning_summary_part.added'' [(''item_id'', JStr ?i), (''output_index'', jnat ?n), (''summary_index'', jnat 0), (''part'', summary_part [])]"
  have "resp_leads cl1 ([item_added ?n ?item] @ [?part], ?st) t (resp_content st cl)"
    if f: "resp_follows t st1 cl1" "resp_content st1 cl1 = resp_content st cl" for cl1
  proof (rule resp_leads_append)
    have empty: "rr_reasoning_text st1 = []" using f(1) st1 by (simp add: resp_follows_def neat_def)
    have o: "open_items ?st = [] @ (?n, ?i, KThinking, []) # open_items st1" by (simp add: open_items_def st1 empty)
    show "resp_leads cl1 ([item_added ?n ?item], ?st) t (heard_open KThinking (resp_content st1 cl1))"
      using f(1) st1 o by (intro leads_added [where t = t and A = "[]" and B = "open_items st1"]) (simp_all add: item_kind_def json_simps resp_follows_def neat_def)
    fix cl2 assume "resp_follows t ?st cl2" "resp_content ?st cl2 = heard_open KThinking (resp_content st1 cl1)"
    then show "resp_leads cl2 ([?part], ?st) t (resp_content st cl)"
      using leads_repeated [of t ?st cl2 ?n ?i KThinking "[]" "fst ?part" "snd ?part"] o f(2)
      by (simp add: named_def json_simps repeated_def summary_part_def delta_name_def)
  qed
  from resp_leads_append [OF leads_close_message [OF assms(1), unfolded s1] this] show ?thesis
    by (simp add: open_reasoning_def None s1 Let_def)
qed

lemma leads_delta:
  assumes "resp_follows t st cl" and "open_items st = A @ (n, i, k, s) # B" and "open_items st' = A @ (n, i, k, s @ d) # B"
    and "rr_next_index st' = rr_next_index st" and "rr_usage st' = rr_usage st" and "rr_created st' = rr_created st" and "rr_finished st' = rr_finished st"
    and "neat t' st'" and "idx v ''type'' = JStr (delta_name k)" and "idx v ''output_index'' = jnat n" and "idx v ''item_id'' = JStr i" and "idx v ''delta'' = JStr d"
  shows "resp_leads cl ([(delta_name k, v)], st') t' (heard_in k d (resp_content st cl))"
proof -
  let ?cl = "cl\<lparr>rc_open := AList.update n (i, k, s @ d) (rc_open cl), rc_answer := heard_in k d (rc_answer cl)\<rparr>"
  have mem: "(n, i, k, s) \<in> set (open_items st)" by (simp add: assms(2))
  note live = item_is_live [OF assms(1), unfolded assms(2), simplified]
  have "delta_name k \<notin> {''response.created'', ''response.output_item.added'', ''response.output_item.done'', ''response.completed'', ''response.incomplete''}"
    by (cases k) (simp_all add: delta_name_def)
  then have "read_named (delta_name k, v) cl = Some ?cl"
    using live(1,2) item_found [OF live(5) mem assms(10)] assms(9,11,12) by (simp add: read_named_def json_simps)
  moreover have "items_follow st' ?cl" by (rule items_say [OF live(5) assms(2-4)])
  moreover have "an_stop (heard_in k d a) = an_stop a" for a by (cases k) simp_all
  ultimately have "read_named (delta_name k, v) cl = Some ?cl" "resp_follows t' st' ?cl"
    using assms(1,6-8) by (simp_all add: resp_follows_def)
  moreover have "resp_content st' ?cl = heard_in k d (resp_content st cl)"
    using assms(5) by (cases k) (simp_all add: resp_content_def)
  ultimately show ?thesis by (simp add: resp_leads_def)
qed

lemma leads_text:
  assumes "resp_follows t st cl" and "\<not> tl_done t" and "tl_open t' = tl_open t" "tl_seen t' = tl_seen t" "tl_done t' = tl_done t"
  shows "resp_leads cl (resp_render_event (TextDelta d) st) t' (hear w c (TextDelta d) (resp_content st cl))"
proof -
  obtain a st1 where s1: "ensure_created st = (a, st1)" by force
  obtain b st2 where s2: "open_message st1 = (b, st2)" by force
  have st1: "rr_created st1" "\<not> rr_finished st1" using kept_simps [of st] s1 assms(1,2) by (auto simp: resp_follows_def neat_def)
  obtain n i where m: "rr_message st2 = Some (n, i)"
    using s2 by (cases "rr_message st1") (auto simp: open_message_def Let_def split: prod.splits)
  let ?st = "st2\<lparr>rr_text := rr_text st2 @ d\<rparr>"
  let ?f = "named ''response.output_text.delta'' [(''item_id'', JStr i), (''output_index'', jnat n), (''content_index'', jnat 0), (''delta'', JStr d)]"
  have last: "resp_leads cl2 ([?f], ?st) t' (hear w c (TextDelta d) (resp_content st cl))"
    if f: "resp_follows t st2 cl2" "resp_content st2 cl2 = resp_content st cl" for cl2
  proof -
    have "resp_leads cl2 ([(delta_name KText, snd ?f)], ?st) t' (heard_in KText d (resp_content st2 cl2))"
      by (rule leads_delta [OF f(1), of "[]" n i KText "rr_text st2" "map open_call (rr_tools st2)"])
        (use f(1) m assms(3-5) in \<open>auto simp: open_items_def resp_follows_def neat_def named_def json_simps delta_name_def\<close>)
    with f(2) show ?thesis by (simp add: delta_name_def named_def)
  qed
  have two: "resp_leads cl1 (b @ [?f], ?st) t' (hear w c (TextDelta d) (resp_content st cl))"
    if "resp_follows t st1 cl1" "resp_content st1 cl1 = resp_content st cl" for cl1
    using resp_leads_append [OF leads_opened_message [OF that(1) st1, unfolded s2]] last that(2) by simp
  show ?thesis
    using resp_leads_append [OF leads_created [OF assms(1), unfolded s1] two] by (simp add: s1 s2 m)
qed

lemma leads_thinking:
  assumes "resp_follows t st cl" and "\<not> tl_done t" and "tl_open t' = tl_open t" "tl_seen t' = tl_seen t" "tl_done t' = tl_done t"
  shows "resp_leads cl (resp_render_event (ThinkingDelta d) st) t' (hear w c (ThinkingDelta d) (resp_content st cl))"
proof -
  obtain a st1 where s1: "ensure_created st = (a, st1)" by force
  obtain b st2 where s2: "open_reasoning st1 = (b, st2)" by force
  have st1: "rr_created st1" "\<not> rr_finished st1" using kept_simps [of st] s1 assms(1,2) by (auto simp: resp_follows_def neat_def)
  obtain n i where m: "rr_reasoning st2 = Some (n, i)"
    using s2 by (cases "rr_reasoning st1") (auto simp: open_reasoning_def Let_def split: prod.splits)
  let ?st = "st2\<lparr>rr_reasoning_text := rr_reasoning_text st2 @ d\<rparr>"
  let ?f = "named ''response.reasoning_summary_text.delta'' [(''item_id'', JStr i), (''output_index'', jnat n), (''summary_index'', jnat 0), (''delta'', JStr d)]"
  have last: "resp_leads cl2 ([?f], ?st) t' (hear w c (ThinkingDelta d) (resp_content st cl))"
    if f: "resp_follows t st2 cl2" "resp_content st2 cl2 = resp_content st cl" for cl2
  proof -
    have "resp_leads cl2 ([(delta_name KThinking, snd ?f)], ?st) t' (heard_in KThinking d (resp_content st2 cl2))"
      by (rule leads_delta [OF f(1), of "[]" n i KThinking "rr_reasoning_text st2" "map open_call (rr_tools st2)"])
        (use f(1) m assms(3-5) in \<open>auto simp: open_items_def resp_follows_def neat_def named_def json_simps delta_name_def\<close>)
    with f(2) show ?thesis by (simp add: delta_name_def named_def)
  qed
  have two: "resp_leads cl1 (b @ [?f], ?st) t' (hear w c (ThinkingDelta d) (resp_content st cl))"
    if "resp_follows t st1 cl1" "resp_content st1 cl1 = resp_content st cl" for cl1
    using resp_leads_append [OF leads_opened_reasoning [OF that(1) st1, unfolded s2]] last that(2) by simp
  show ?thesis
    using resp_leads_append [OF leads_created [OF assms(1), unfolded s1] two] by (simp add: s1 s2 m)
qed

lemma item_start_leads:
  assumes "resp_follows t st cl" and "\<not> tl_done t" and "tid \<notin> set (tl_seen t)"
  shows "resp_leads cl (render_tool_start tid name st) (t\<lparr>tl_reasoning := None, tl_open := tl_open t @ [tid], tl_seen := tid # tl_seen t\<rparr>)
    (hear w c (ToolUseStart tid name) (resp_content st cl))"
proof -
  obtain a st1 where s1: "ensure_created st = (a, st1)" by force
  obtain b st2 where s2: "close_reasoning st1 = (b, st2)" by force
  obtain d st3 where s3: "close_message st2 = (d, st3)" by force
  have st3: "rr_created st3" "\<not> rr_finished st3" "rr_message st3 = None" "rr_reasoning st3 = None"
    using kept_simps [of st] kept_simps [of st1] kept_simps [of st2] s1 s2 s3 assms(1,2) by (auto simp: resp_follows_def neat_def)
  let ?n = "rr_next_index st3" and ?i = "item_id ''fc'' (rr_next_index st3) st3" and ?t = "t\<lparr>tl_reasoning := None, tl_open := tl_open t @ [tid], tl_seen := tid # tl_seen t\<rparr>"
  let ?st = "st3\<lparr>rr_next_index := ?n + 1, rr_tools := rr_tools st3 @ [\<lparr>tc_call_id = tid, tc_index = ?n, tc_item_id = ?i, tc_name = name, tc_args = []\<rparr>]\<rparr>"
  let ?f = "item_added ?n (JObj [(''id'', JStr ?i), (''type'', JStr ''function_call''), (''status'', JStr ''in_progress''), (''call_id'', JStr tid),
          (''name'', JStr name), (''arguments'', JStr [])])"
  have last: "resp_leads cl3 ([?f], ?st) ?t (hear w c (ToolUseStart tid name) (resp_content st cl))"
    if f: "resp_follows t st3 cl3" "resp_content st3 cl3 = resp_content st cl" for cl3
  proof -
    have "resp_leads cl3 ([?f], ?st) ?t (heard_open (KTool tid name) (resp_content st3 cl3))"
      by (rule leads_added [OF f(1) st3(1,2), of "open_items st3" "[]"])
        (use f(1) st3 assms(3) in \<open>auto simp: open_items_def open_call_def resp_follows_def neat_def item_kind_def json_simps\<close>)
    with f(2) show ?thesis by simp
  qed
  have l3: "resp_leads cl2 (d @ [?f], ?st) ?t (hear w c (ToolUseStart tid name) (resp_content st cl))"
    if "resp_follows t st2 cl2" "resp_content st2 cl2 = resp_content st cl" for cl2
    using resp_leads_append [OF leads_close_message [OF that(1), unfolded s3]] last that(2) by simp
  have l2: "resp_leads cl1 (b @ d @ [?f], ?st) ?t (hear w c (ToolUseStart tid name) (resp_content st cl))"
    if "resp_follows t st1 cl1" "resp_content st1 cl1 = resp_content st cl" for cl1
    using resp_leads_append [OF leads_close_reasoning [OF that(1), unfolded s2]] l3 that(2) by simp
  show ?thesis
    using resp_leads_append [OF leads_created [OF assms(1), unfolded s1] l2] by (simp add: render_tool_start_def s1 s2 s3 Let_def)
qed

lemma call_split:
  assumes "find (\<lambda>c. tc_call_id c = tid) cs = Some c"
  obtains xs ys where "cs = xs @ c # ys" and "tc_call_id c = tid" and "drop_call tid cs = xs @ ys"
    and "push_args tid s cs = xs @ c\<lparr>tc_args := tc_args c @ s\<rparr> # ys"
proof -
  have "\<exists>xs ys. cs = xs @ c # ys \<and> tc_call_id c = tid \<and> drop_call tid cs = xs @ ys \<and> push_args tid s cs = xs @ c\<lparr>tc_args := tc_args c @ s\<rparr> # ys"
    using assms
  proof (induction cs)
    case (Cons d cs)
    show ?case
    proof (cases "tc_call_id d = tid")
      case True
      with Cons.prems show ?thesis by (intro exI [of _ "[]"] exI [of _ cs]) auto
    next
      case False
      with Cons obtain xs ys where "cs = xs @ c # ys" "tc_call_id c = tid" "drop_call tid cs = xs @ ys"
        "push_args tid s cs = xs @ c\<lparr>tc_args := tc_args c @ s\<rparr> # ys" by auto
      with False show ?thesis by (intro exI [of _ "d # xs"] exI [of _ ys]) simp
    qed
  qed simp
  then show thesis using that by blast
qed

lemma open_calls: "resp_follows t st cl \<Longrightarrow> map tc_call_id (rr_tools st) = tl_open t"
  by (simp add: resp_follows_def neat_def)

lemma item_delta_leads:
  assumes "resp_follows t st cl" and "tid \<in> set (tl_open t)"
  shows "resp_leads cl (render_tool_delta tid s st) t (hear w c (ToolUseDelta tid s) (resp_content st cl))"
proof -
  have "tid \<in> tc_call_id ` set (rr_tools st)" using open_calls [OF assms(1)] assms(2) by (metis set_map)
  then obtain x where x: "find (\<lambda>c. tc_call_id c = tid) (rr_tools st) = Some x"
    by (cases "find (\<lambda>c. tc_call_id c = tid) (rr_tools st)") (auto simp: find_None_iff)
  obtain xs ys where cs: "rr_tools st = xs @ x # ys" "tc_call_id x = tid" "push_args tid s (rr_tools st) = xs @ x\<lparr>tc_args := tc_args x @ s\<rparr> # ys"
    using call_split [OF x, of s] by blast
  let ?st = "st\<lparr>rr_tools := push_args tid s (rr_tools st)\<rparr>" and ?k = "KTool tid (tc_name x)"
  let ?f = "named ''response.function_call_arguments.delta'' [(''item_id'', JStr (tc_item_id x)), (''output_index'', jnat (tc_index x)), (''delta'', JStr s)]"
  let ?A = "open_item KText (rr_message st) (rr_text st) @ open_item KThinking (rr_reasoning st) (rr_reasoning_text st) @ map open_call xs"
  have "resp_leads cl ([(delta_name ?k, snd ?f)], ?st) t (heard_in ?k s (resp_content st cl))"
  proof (rule leads_delta [OF assms(1), of ?A "tc_index x" "tc_item_id x" ?k "tc_args x" "map open_call ys"])
    show "neat t ?st" unfolding cs(3) using assms(1) by (auto simp: resp_follows_def neat_def open_items_def cs(1,2))
    show "open_items ?st = ?A @ (tc_index x, tc_item_id x, ?k, tc_args x @ s) # map open_call ys"
      unfolding cs(3) by (simp add: open_items_def open_call_def cs(2))
  qed (simp_all add: open_items_def cs(1,2) open_call_def delta_name_def named_def json_simps)
  then show ?thesis by (simp add: render_tool_delta_def x delta_name_def named_def)
qed

lemma leads_tool_end:
  assumes "resp_follows t st cl"
  shows "resp_leads cl (render_tool_end tid st) (t\<lparr>tl_open := removeAll tid (tl_open t)\<rparr>) (resp_content st cl)"
proof (cases "find (\<lambda>c. tc_call_id c = tid) (rr_tools st)")
  case None
  then have "tid \<notin> tc_call_id ` set (rr_tools st)" by (auto simp: find_None_iff)
  then have "tid \<notin> set (tl_open t)" using open_calls [OF assms] by (metis set_map)
  then have "t\<lparr>tl_open := removeAll tid (tl_open t)\<rparr> = t" by simp
  with None assms show ?thesis by (simp add: render_tool_end_def resp_leads_def)
next
  case (Some x)
  obtain xs ys where cs: "rr_tools st = xs @ x # ys" "tc_call_id x = tid" "drop_call tid (rr_tools st) = xs @ ys"
    using call_split [OF Some] by blast
  let ?st = "st\<lparr>rr_tools := drop_call tid (rr_tools st)\<rparr>" and ?k = "KTool tid (tc_name x)" and ?n = "tc_index x"
  let ?cl = "cl\<lparr>rc_open := AList.delete ?n (rc_open cl)\<rparr>"
  let ?A = "open_item KText (rr_message st) (rr_text st) @ open_item KThinking (rr_reasoning st) (rr_reasoning_text st) @ map open_call xs"
  have o: "open_items st = ?A @ (?n, tc_item_id x, ?k, tc_args x) # map open_call ys" "open_items ?st = ?A @ map open_call ys"
    by (simp add: open_items_def cs(1,2) open_call_def) (unfold cs(3), simp add: open_items_def)
  note live = item_is_live [OF assms, unfolded o, simplified]
  have found: "item_at v cl = Some (?n, tc_item_id x, ?k, tc_args x)" if "idx v ''output_index'' = jnat ?n" for v
    using item_found [OF live(5) _ that] by (simp add: o)
  have "read_all read_named (fst (render_tool_end tid st)) cl = Some ?cl"
    using live by (simp add: render_tool_end_def Some frame_simps found cs(2))
  moreover have "items_follow ?st ?cl" by (rule items_close [OF live(5) o]) simp_all
  moreover have "neat (t\<lparr>tl_open := removeAll tid (tl_open t)\<rparr>) ?st"
  proof -
    have op: "tl_open t = map tc_call_id xs @ tid # map tc_call_id ys" and d: "distinct (tl_open t)" and sub: "set (tl_open t) \<subseteq> set (tl_seen t)"
      using assms by (auto simp: resp_follows_def neat_def cs)
    have "removeAll tid (tl_open t) = map tc_call_id xs @ map tc_call_id ys" "distinct (map tc_call_id xs @ map tc_call_id ys)"
      "set (map tc_call_id xs @ map tc_call_id ys) \<subseteq> set (tl_seen t)"
      using d sub by (auto simp: op removeAll_append removeAll_id)
    then show ?thesis using assms live unfolding cs(3) by (simp add: resp_follows_def neat_def)
  qed
  ultimately have "resp_follows (t\<lparr>tl_open := removeAll tid (tl_open t)\<rparr>) ?st ?cl" using assms by (simp add: resp_follows_def)
  with \<open>read_all read_named (fst (render_tool_end tid st)) cl = Some ?cl\<close> show ?thesis
    by (simp add: resp_leads_def render_tool_end_def Some resp_content_def)
qed

lemma finished_later:
  "ensure_created (st\<lparr>rr_finished := f\<rparr>) = apsnd (rr_finished_update (\<lambda>_. f)) (ensure_created st)"
  "close_message (st\<lparr>rr_finished := f\<rparr>) = apsnd (rr_finished_update (\<lambda>_. f)) (close_message st)"
  "close_reasoning (st\<lparr>rr_finished := f\<rparr>) = apsnd (rr_finished_update (\<lambda>_. f)) (close_reasoning st)"
  by (simp_all add: ensure_created_def close_message_def close_reasoning_def split: option.split)

lemma closing_finished: "closing (st\<lparr>rr_finished := f\<rparr>) = apsnd (rr_finished_update (\<lambda>_. f)) (closing st)"
  by (simp add: closing_def finished_later split: prod.split)

definition resp_told :: "usage \<Rightarrow> usage" where
  "resp_told u = resp_parse_usage (resp_usage_of u)"

definition resp_word :: "bool \<Rightarrow> stop_reason \<Rightarrow> stop_reason" where
  "resp_word called r = resp_reason (incomplete_word r) False called"

lemma leads_closing:
  assumes "resp_follows t st cl"
  shows "resp_leads cl (closing st) t (resp_content st cl)" and "rr_created (snd (closing st))" and "rr_finished (snd (closing st)) = rr_finished st"
    and "rr_usage (snd (closing st)) = rr_usage st" and "open_items (snd (closing st)) = map open_call (rr_tools st)"
proof -
  obtain a st1 where s1: "ensure_created st = (a, st1)" by force
  obtain b st2 where s2: "close_reasoning st1 = (b, st2)" by force
  obtain c st3 where s3: "close_message st2 = (c, st3)" by force
  have l3: "resp_leads cl1 (b @ c, st3) t (resp_content st cl)"
    if "resp_follows t st1 cl1" "resp_content st1 cl1 = resp_content st cl" for cl1
    using resp_leads_append [OF leads_close_reasoning [OF that(1), unfolded s2]] leads_close_message [of t st2, unfolded s3] that(2) by metis
  show "resp_leads cl (closing st) t (resp_content st cl)"
    using resp_leads_append [OF leads_created [OF assms, unfolded s1] l3] by (simp add: closing_def s1 s2 s3)
  show "rr_created (snd (closing st))" "rr_finished (snd (closing st)) = rr_finished st" "rr_usage (snd (closing st)) = rr_usage st"
    "open_items (snd (closing st)) = map open_call (rr_tools st)"
    using kept_simps [of st] kept_simps [of st1] kept_simps [of st2] by (simp_all add: closing_def s1 s2 s3 open_items_def)
qed

lemma leads_terminal:
  assumes "resp_follows t st cl" and "rr_created st" and "\<not> rr_finished st" and "open_items st = []"
  shows "resp_leads cl ([resp_terminal reason (st\<lparr>rr_finished := True\<rparr>)], st\<lparr>rr_finished := True\<rparr>) (t\<lparr>tl_done := True\<rparr>)
    ((resp_content st cl)\<lparr>an_usage := Some (resp_told (rr_usage st)), an_stop := Some (resp_word (an_calls (resp_content st cl) \<noteq> []) reason)\<rparr>)"
proof -
  let ?st = "st\<lparr>rr_finished := True\<rparr>"
  let ?a = "(rc_answer cl)\<lparr>an_stop := Some (resp_word (an_calls (rc_answer cl) \<noteq> []) reason), an_usage := Some (resp_told (rr_usage st))\<rparr>"
  let ?cl = "cl\<lparr>rc_done := True, rc_answer := ?a\<rparr>"
  have f: "rc_created cl" "\<not> rc_done cl" "rc_open cl = []"
    using assms by (auto simp: resp_follows_def items_follow_def)
  have "read_named (resp_terminal reason ?st) cl = Some ?cl"
    using f by (cases reason) (simp_all add: resp_terminal_def read_named_def named_def json_simps incomplete_word_def resp_told_def resp_word_def Let_def)
  moreover have "resp_follows (t\<lparr>tl_done := True\<rparr>) ?st ?cl"
    using assms by (simp add: resp_follows_def items_follow_def neat_def)
  ultimately show ?thesis by (simp add: resp_leads_def resp_content_def)
qed

lemma leads_resp_stop:
  assumes "resp_follows t st cl" and "\<not> tl_done t" and "tl_open t = []" and "tl_open t' = []" and "tl_seen t' = tl_seen t" and "tl_done t'"
  shows "resp_leads cl (resp_render_event (Stop reason u) st) t' (hear resp_word resp_told (Stop reason u) (resp_content st cl))"
proof -
  let ?st = "st\<lparr>rr_usage := merge (rr_usage st) u\<rparr>"
  have f: "resp_follows t ?st cl" "\<not> rr_finished st" "an_stop (rc_answer cl) = None"
    using assms(1,2) by (auto simp: resp_follows_def items_follow_def neat_def)
  obtain out st1 where s1: "closing ?st = (out, st1)" by force
  note closed = leads_closing [OF f(1), unfolded s1]
  have "rr_tools st = []" using open_calls [OF assms(1)] assms(3) by simp
  then have st1: "rr_created st1" "\<not> rr_finished st1" "open_items st1 = []" "rr_usage st1 = merge (rr_usage st) u"
    using closed(2-5) f(2) by simp_all
  let ?a = "(resp_content ?st cl)\<lparr>an_usage := Some (resp_told (rr_usage st1)), an_stop := Some (resp_word (an_calls (resp_content ?st cl) \<noteq> []) reason)\<rparr>"
  have same: "resp_follows t' x y" if "resp_follows (t\<lparr>tl_done := True\<rparr>) x y" for x y
    using that assms(3-6) by (auto simp: resp_follows_def neat_def)
  have last: "resp_leads cl1 ([resp_terminal reason (st1\<lparr>rr_finished := True\<rparr>)], st1\<lparr>rr_finished := True\<rparr>) t' ?a"
    if "resp_follows t st1 cl1" "resp_content st1 cl1 = resp_content ?st cl" for cl1
    using leads_terminal [OF that(1) st1(1-3), of reason] that(2) same by (auto simp: resp_leads_def)
  have order: "st\<lparr>rr_finished := True, rr_usage := merge (rr_usage st) u\<rparr> = ?st\<lparr>rr_finished := True\<rparr>" by simp
  have "closing (st\<lparr>rr_finished := True, rr_usage := merge (rr_usage st) u\<rparr>) = (out, st1\<lparr>rr_finished := True\<rparr>)"
    unfolding order closing_finished by (simp add: s1)
  then have out: "resp_render_event (Stop reason u) st = (out @ [resp_terminal reason (st1\<lparr>rr_finished := True\<rparr>)], st1\<lparr>rr_finished := True\<rparr>)"
    using f(2) by simp
  show ?thesis unfolding out
    using resp_leads_append [OF closed(1) last] f(3) st1(4) by (simp add: resp_content_def Let_def)
qed

lemma resp_event_told:
  assumes "resp_follows t st cl" and "resp_step ev t = Some t'"
  shows "resp_leads cl (resp_render_event ev st) t' (hear resp_word resp_told ev (resp_content st cl))"
proof (cases ev)
  case (Start model u)
  let ?st = "st\<lparr>rr_model := adopt_model (rr_model st) model, rr_usage := merge (rr_usage st) u\<rparr>"
  have "resp_follows t ?st cl" using assms(1) by (simp add: resp_follows_def items_follow_def neat_def)
  from leads_created [OF this] Start assms(2) show ?thesis by (simp add: resp_content_def resp_step_def)
next
  case (TextDelta s)
  with assms(2) have "\<not> tl_done t" "tl_open t' = tl_open t" "tl_seen t' = tl_seen t" "tl_done t' = tl_done t"
    by (auto simp: resp_step_def tell_words_def split: if_splits)
  with leads_text [OF assms(1)] TextDelta show ?thesis by simp
next
  case (ThinkingDelta s)
  with assms(2) have "\<not> tl_done t" "tl_open t' = tl_open t" "tl_seen t' = tl_seen t" "tl_done t' = tl_done t"
    by (auto simp: resp_step_def tell_words_def split: if_splits)
  with leads_thinking [OF assms(1)] ThinkingDelta show ?thesis by simp
next
  case (ToolUseStart tid name)
  with assms(2) item_start_leads [OF assms(1), of tid name] show ?thesis by (auto simp: resp_step_def split: if_splits)
next
  case (ToolUseDelta tid s)
  with assms(2) item_delta_leads [OF assms(1)] show ?thesis by (auto simp: resp_step_def split: if_splits)
next
  case (ToolUseEnd tid)
  with assms(2) leads_tool_end [OF assms(1), of tid] show ?thesis by (simp add: resp_step_def)
next
  case (UsageUpdate u)
  with assms show ?thesis by (simp add: resp_step_def resp_leads_def resp_follows_def items_follow_def neat_def resp_content_def)
next
  case (Stop reason u)
  show ?thesis
  proof (cases "tl_done t")
    case True
    with assms(1) have fin: "rr_finished st" "an_stop (rc_answer cl) \<noteq> None" by (simp_all add: resp_follows_def neat_def)
    with Stop True assms(1,2) have "resp_follows t' st cl"
      by (auto simp: resp_step_def resp_follows_def neat_def split: if_splits)
    with Stop fin show ?thesis by (simp add: resp_leads_def resp_content_def)
  next
    case False
    with Stop assms(2) leads_resp_stop [OF assms(1) False] show ?thesis by (auto simp: resp_step_def split: if_splits)
  qed
next
  case (EventError m)
  with assms show ?thesis by (simp add: resp_step_def)
qed

interpretation resp: faithful_stream resp_render_event read_named resp_follows resp_content resp_step resp_word resp_told
  by unfold_locales (use resp_event_told in \<open>auto simp: resp_leads_def\<close>)

lemma read_resp_usage:
  assumes "p \<le> u64_max" and "n \<le> u64_max" and "k \<le> u64_max"
  shows "resp_parse_usage (resp_usage p n k) = \<lparr>input_tokens = p - k, output_tokens = n, cache_read_tokens = k, cache_write_tokens = 0\<rparr>"
  using assms by (simp add: resp_parse_usage_def resp_usage_def json_simps)

lemma resp_told_small:
  assumes "usage_small u"
  shows "resp_told u = chat_counts u"
proof -
  have "usage_fits u" using assms by (rule small_fits)
  then show ?thesis
    unfolding resp_told_def resp_usage_of_def small_prompt(1) [OF assms] using small_prompt(2) [OF assms]
    by (cases u) (simp add: read_resp_usage usage_fits_def chat_counts_def)
qed

lemma resp_word_spec: "resp_word called r = (if r \<in> {MaxTokens, StopRefusal} then r else if called then StopToolUse else EndTurn)"
  by (cases r) (simp_all add: resp_word_def incomplete_word_def resp_reason_def)

text \<open>
  C24. A stream written for a client of the Responses dialect is one its client can follow, and says what the
  events said: items are numbered in order, every frame names an item that was added and is not done,
  what a closing frame repeats is what was streamed, text and reasoning may alternate and calls may
  interleave, and the response ends with every item done. The client ends with the text, the
  reasoning, each call's own arguments, the reason for stopping and the usage. The streams meant
  report no error, use a call's id once, send its fragments while it is open and have ended every call
  before they stop (\<open>stop_leaves_calls_open\<close> below shows what the code does of one that has not), say no
  words after the stop, and report counts in range.
\<close>

theorem responses_stream_is_faithful:
  fixes rid model :: string
  assumes "tellable resp_step evs tell_new" and "\<forall>ev \<in> set evs. \<forall>u. reported_usage ev = Some u \<longrightarrow> usage_small u"
  defines "r \<equiv> render_all resp_render_event evs (resp_render_new rid model)"
  shows "\<exists>cl. read_all read_named (fst r) resp_client_new = Some cl \<and>
    resp_content (snd r) cl = fold (hear resp_word chat_counts) evs nothing_said \<and>
    (rc_done cl \<longleftrightarrow> an_stop (fold (hear resp_word chat_counts) evs nothing_said) \<noteq> None) \<and> (rc_done cl \<longrightarrow> rc_open cl = [])"
proof -
  have start: "resp_follows tell_new (resp_render_new rid model) resp_client_new" "resp_content (resp_render_new rid model) resp_client_new = nothing_said"
    by (simp_all add: resp_follows_def items_follow_def neat_def open_items_def tell_new_def resp_render_new_def resp_client_new_def nothing_said_def resp_content_def)
  from resp.told_all [OF start(1) assms(1)] obtain t cl where
    cl: "read_all read_named (fst r) resp_client_new = Some cl" "resp_follows t (snd r) cl"
      "resp_content (snd r) cl = fold (hear resp_word resp_told) evs nothing_said"
    unfolding r_def start(2) by blast
  have told: "resp_content (snd r) cl = fold (hear resp_word chat_counts) evs nothing_said"
    using cl(3) hear_counts [where P = usage_small and a = nothing_said, OF merge_small resp_told_small assms(2)]
    by (simp add: nothing_said_def usage_small_def usage_default_def)
  have "an_stop (fold (hear resp_word chat_counts) evs nothing_said) = an_stop (rc_answer cl)" by (simp add: resp_content_def flip: told)
  then show ?thesis using cl(1,2) told by (auto simp: resp_follows_def items_follow_def neat_def)
qed

text \<open>
  A stop does not close the calls that are open, as it closes a message and reasoning: the response is
  completed with their items never done, which no client of the dialect can take.
\<close>

lemma stop_leaves_calls_open:
  "rr_tools (snd (resp_render_event (Stop reason u) st)) = rr_tools st"
  "read_all read_named (fst (render_all resp_render_event [ToolUseStart tid name, Stop reason u] (resp_render_new rid model)))
     resp_client_new = None"
proof -
  have "rr_tools (snd (closing st')) = rr_tools st'" for st'
    by (auto simp: closing_def ensure_created_def close_reasoning_def close_message_def Let_def split: option.splits prod.splits)
  then show "rr_tools (snd (resp_render_event (Stop reason u) st)) = rr_tools st" by (simp add: Let_def case_prod_beta)
  show "read_all read_named (fst (render_all resp_render_event [ToolUseStart tid name, Stop reason u] (resp_render_new rid model)))
     resp_client_new = None"
    by (simp add: render_tool_start_def resp_render_new_def closing_def ensure_created_def close_reasoning_def close_message_def Let_def
        resp_client_new_def resp_terminal_def read_named_def item_added_def named_def json_simps item_kind_def split: option.splits)
qed

definition alternating :: "stream_event list" where
  "alternating = [ThinkingDelta ''hm'', TextDelta ''so'', ToolUseStart ''a'' ''f'', ToolUseStart ''b'' ''g'', ToolUseDelta ''a'' ''{'', ToolUseDelta ''b'' ''[]'',
     ToolUseDelta ''a'' ''}'', ToolUseEnd ''a'', ToolUseEnd ''b'', Stop StopToolUse usage_default]"

theorem responses_stream_is_faithful_witness:
  "\<exists>cl. read_all read_named (fst (render_all resp_render_event alternating (resp_render_new ''r'' ''m''))) resp_client_new = Some cl \<and>
     an_calls (rc_answer cl) = [(''a'', ''f'', ''{}''), (''b'', ''g'', ''[]'')] \<and> rc_open cl = []"
proof -
  have "tellable resp_step alternating tell_new" by (simp add: alternating_def tell_new_def resp_step_def tell_words_def)
  moreover have "\<forall>ev \<in> set alternating. \<forall>u. reported_usage ev = Some u \<longrightarrow> usage_small u"
    by (simp add: alternating_def usage_small_def usage_default_def)
  moreover have "an_calls (fold (hear resp_word chat_counts) alternating nothing_said) = [(''a'', ''f'', ''{}''), (''b'', ''g'', ''[]'')]"
    "an_stop (fold (hear resp_word chat_counts) alternating nothing_said) \<noteq> None"
    by (simp_all add: alternating_def nothing_said_def add_fragment_def Let_def)
  moreover have "an_calls (resp_content st cl) = an_calls (rc_answer cl)" for st cl by (simp add: resp_content_def)
  ultimately show ?thesis
    using responses_stream_is_faithful [of alternating "''r''" "''m''"] by metis
qed

subsection \<open>Collected answers\<close>

lemma resp_calls_read:
  assumes "\<forall>(_, _, args) \<in> set (concat (map block_call bs)). settled S args"
  defines "calls \<equiv> filter (\<lambda>b. str_or [] (idx b ''type'') = ''tool_use'') (map (into_json S) bs)"
  shows "concat (map resp_output_item (map (\<lambda>(n, b). hub_function_call S rid n b) (enumerate k calls))) =
      concat (map (\<lambda>(tid, name, args). [ToolUseStart tid name, ToolUseDelta tid args, ToolUseEnd tid]) (concat (map block_call bs)))"
    and "calls = [] \<longleftrightarrow> concat (map block_call bs) = []"
  using assms(1) unfolding calls_def
proof (induction bs arbitrary: k)
  case (Cons b bs)
  {
    case 1
    with Cons(1) show ?case
      by (cases b) (auto simp: into_json_def block_call_def json_simps resp_output_item_def hub_function_call_def settled_def parsed_or_def Let_def)
  next
    case 2
    with Cons(2) show ?case by (cases b) (auto simp: into_json_def block_call_def json_simps)
  }
qed simp_all

lemma function_calls_listed:
  "list_ex (\<lambda>item. str_or [] (idx item ''type'') = ''function_call'') (map (\<lambda>(n, b). hub_function_call S rid n b) (enumerate k calls)) \<longleftrightarrow> calls \<noteq> []"
  "list_ex resp_item_refuses (map (\<lambda>(n, b). hub_function_call S rid n b) (enumerate k calls)) = False"
  by (induction calls arbitrary: k) (simp_all add: hub_function_call_def json_simps resp_item_refuses_def)

text \<open>
  A collected answer tells a client of the Responses dialect what the stream would have: the body it is
  converted into through the hub, read back, holds the same text, reasoning, calls, reason for stopping
  and usage as the events, whatever dialect the upstream spoke.
\<close>

theorem responses_collected_answer:
  fixes evs :: "stream_event list"
  defines "a \<equiv> fold (hear same_word id) evs nothing_said"
  assumes "tellable in_order_step evs in_order_new" and "\<forall>ev \<in> set evs. \<forall>u. reported_usage ev = Some u \<longrightarrow> usage_small u"
    and "\<forall>(_, _, args) \<in> set (an_calls a). settled S args" and "an_stop a = Some reason"
  shows "fold (hear same_word id) (resp_parse_response (render_response S (render_from_events S evs rid model) rid)) nothing_said =
    a\<lparr>an_stop := Some (resp_word (an_calls a \<noteq> []) reason), an_usage := Some (chat_counts (an_running a)), an_running := chat_counts (an_running a)\<rparr>"
proof -
  define hub where "hub = render_from_events S evs rid model"
  note hub = hub_says(1-4,7) [OF assms(2,3), folded a_def, OF assms(5), of S rid model, folded hub_def]
  note ans = hub_says(5,6,8) [OF assms(2,3), folded a_def, OF assms(5)]
  obtain bs where bs: "items (idx hub ''content'') = map (into_json S) bs" "an_calls a = concat (map block_call bs)" using hub(1) by blast
  define listed where "listed = map (\<lambda>(n, b). hub_function_call S rid n b)
    (enumerate 0 (filter (\<lambda>b. str_or [] (idx b ''type'') = ''tool_use'') (items (idx hub ''content''))))"
  define body where "body = render_response S hub rid"
  have out: "items (idx body ''output'') =
      (if an_thinking a \<noteq> [] then [JObj [(''id'', JStr (''rs_'' @ rid @ ''_0'')), (''type'', JStr ''reasoning''), (''status'', JStr ''completed''),
         (''summary'', JArr [summary_part (an_thinking a)])]] else []) @
      (if an_text a \<noteq> [] then [JObj [(''id'', JStr (''msg_'' @ rid @ ''_0'')), (''type'', JStr ''message''), (''status'', JStr ''completed''),
         (''role'', JStr ''assistant''), (''content'', JArr [output_part (an_text a)])]] else []) @ listed"
    unfolding body_def render_response_def Let_def hub(2,3) listed_def by (simp add: json_simps)
  have calls: "concat (map resp_output_item listed) = concat (map (\<lambda>(tid, name, args). [ToolUseStart tid name, ToolUseDelta tid args, ToolUseEnd tid]) (an_calls a))"
    "list_ex (\<lambda>item. str_or [] (idx item ''type'') = ''function_call'') listed \<longleftrightarrow> an_calls a \<noteq> []" "\<not> list_ex resp_item_refuses listed"
    using resp_calls_read(1) [of bs S rid 0] resp_calls_read(2) [of bs S] assms(4) bs(2) by (simp_all add: listed_def function_calls_listed bs(1) del: enumerate_simps)
  have said: "concat (map resp_output_item (items (idx body ''output''))) =
      opt_event ThinkingDelta (Some (an_thinking a)) @ opt_event TextDelta (Some (an_text a)) @ concat (map resp_output_item listed)"
    by (auto simp: out resp_output_item_def json_simps summary_part_def output_part_def resp_message_part_def opt_event_def nonempty_Some)
  have flags: "list_ex (\<lambda>item. str_or [] (idx item ''type'') = ''function_call'') (items (idx body ''output'')) \<longleftrightarrow> an_calls a \<noteq> []"
    "list_ex resp_item_refuses (items (idx body ''output'')) = False"
    using calls(2,3) by (simp_all add: out json_simps resp_item_refuses_def output_part_def)
  have usage: "resp_parse_usage (idx body ''usage'') = chat_counts (an_running a)"
    using ans(1,2) small_prompt [OF ans(1)] resp_told_small [OF ans(1)]
    by (simp add: body_def render_response_def Let_def json_simps hub(4) usage_json_def usage_fits_def resp_told_def resp_usage_of_def)
  have reason: "resp_reason (as_str (idx (idx body ''incomplete_details'') ''reason'')) False (an_calls a \<noteq> []) = resp_word (an_calls a \<noteq> []) reason"
    by (cases reason) (auto simp: body_def render_response_def Let_def json_simps hub(5) settled_stop_def stop_reason_str_def assms(5)
        resp_word_spec resp_reason_def)
  have "resp_parse_response body = [UsageUpdate (chat_counts (an_running a))] @ opt_event ThinkingDelta (Some (an_thinking a)) @
      opt_event TextDelta (Some (an_text a)) @ concat (map resp_output_item listed) @
      [Stop (resp_word (an_calls a \<noteq> []) reason) (chat_counts (an_running a))]"
    unfolding resp_parse_response_def Let_def said usage flags reason by simp
  moreover have "fold (hear same_word id) (concat (map resp_output_item listed)) x = x\<lparr>an_calls := an_calls a\<rparr>" if "an_calls x = []" for x
    unfolding calls(1) using ans(3) that by (simp add: hear_calls)
  ultimately show ?thesis
    unfolding body_def [symmetric] hub_def [symmetric]
    by (simp add: hear_opt del: map_map) (simp add: nothing_said_def Let_def same_word_def hear_opt)
qed

theorem responses_collected_answer_witness:
  "an_calls (fold (hear same_word id) (resp_parse_response (render_response tiny_serde (render_from_events tiny_serde one_answer ''r'' ''m'') ''r'')) nothing_said) =
     [(''a'', ''f'', ''{}'')]"
  using responses_collected_answer [of one_answer tiny_serde EndTurn "''r''" "''m''"] one_answer_facts
  by (simp add: settled_def tiny_serde_def)

end
