(* ===== verification/Responses_Reader.thy ===== *)
theory Responses_Reader
  imports Responses_Stream
begin

text \<open>
  The gateway's own reader of the Responses dialect (\<^verbatim>\<open>parse_event\<close> of \<^verbatim>\<open>oag-proto/src/responses.rs\<close>) run on
  what its renderer writes. The reader takes a fragment to belong to the call opened last, so calls come
  one after another here; the client of \<open>Responses_Stream\<close> follows items by their ids.
\<close>

definition read_event :: "frame \<Rightarrow> accumulator \<times> answer \<Rightarrow> (accumulator \<times> answer) option" where
  "read_event f cl = (case cl of (acc, a) \<Rightarrow> let evs = resp_event (snd f) acc in Some (observe_all evs acc, fold (hear same_word id) evs a))"

definition reader_content :: "resp_render \<Rightarrow> accumulator \<times> answer \<Rightarrow> answer" where
  "reader_content st cl = (snd cl)\<lparr>an_running := rr_usage st\<rparr>"

definition reader_step :: "stream_event \<Rightarrow> in_order \<Rightarrow> in_order option" where
  "reader_step ev t = (case ev of EventError _ \<Rightarrow> None | _ \<Rightarrow> in_order_step ev t)"

text \<open>What a frame that carries no event leaves as it was: everything but the usage counted so far.\<close>

definition same_calls :: "accumulator \<Rightarrow> accumulator \<Rightarrow> bool" where
  "same_calls acc acc' \<longleftrightarrow> tool_buffers acc' = tool_buffers acc \<and> tool_calls acc' = tool_calls acc \<and> acc_function_names acc' = acc_function_names acc"

definition reader_knows :: "in_order \<Rightarrow> resp_render \<Rightarrow> accumulator \<times> answer \<Rightarrow> bool" where
  "reader_knows t st cl \<longleftrightarrow> (case cl of (acc, a) \<Rightarrow>
     io_done t = rr_finished st \<and> (an_stop a = None \<longleftrightarrow> \<not> rr_finished st) \<and> (\<not> rr_finished st \<longrightarrow> an_running a = usage_default) \<and>
     acc_function_names acc = identity_names \<and> (tool_calls acc = 0 \<longleftrightarrow> an_calls a = []) \<and> tc_call_id ` set (rr_tools st) \<subseteq> set (io_seen t) \<and>
     (\<forall>tid. io_call t = Some tid \<longrightarrow> current_tool_id acc = Some tid \<and> tid \<in> tc_call_id ` set (rr_tools st)))"

lemma reader_knows_same:
  "reader_knows t st (acc, a) \<Longrightarrow> same_calls acc acc' \<Longrightarrow> rr_finished st' = rr_finished st \<Longrightarrow> rr_tools st' = rr_tools st \<Longrightarrow> reader_knows t st' (acc', a)"
proof -
  assume "same_calls acc acc'"
  then have "current_tool_id acc' = current_tool_id acc" by (simp add: same_calls_def current_tool_id_def)
  moreover assume "reader_knows t st (acc, a)" "same_calls acc acc'" "rr_finished st' = rr_finished st" "rr_tools st' = rr_tools st"
  ultimately show ?thesis by (simp add: reader_knows_def same_calls_def)
qed

lemma same_calls_simps [simp]: "same_calls acc acc" "same_calls acc (acc\<lparr>acc_usage := u\<rparr>)"
  by (simp_all add: same_calls_def)

lemma same_calls_trans [trans]: "same_calls a b \<Longrightarrow> same_calls b c \<Longrightarrow> same_calls a c"
  by (simp add: same_calls_def)

lemma quiet_frames:
  "resp_event (snd (item_added n (JObj ((''id'', i) # (''type'', JStr ''message'') # fs)))) acc = []"
  "resp_event (snd (item_added n (JObj ((''id'', i) # (''type'', JStr ''reasoning'') # fs)))) acc = []"
  "resp_event (snd (item_done n (JObj ((''id'', i) # (''type'', JStr ''message'') # fs)))) acc = []"
  "resp_event (snd (item_done n (JObj ((''id'', i) # (''type'', JStr ''reasoning'') # fs)))) acc = []"
  "resp_event (snd (named ''response.output_text.done'' fs)) acc = []" "resp_event (snd (named ''response.content_part.done'' fs)) acc = []"
  "resp_event (snd (named ''response.content_part.added'' fs)) acc = []" "resp_event (snd (named ''response.reasoning_summary_text.done'' fs)) acc = []"
  "resp_event (snd (named ''response.reasoning_summary_part.done'' fs)) acc = []" "resp_event (snd (named ''response.reasoning_summary_part.added'' fs)) acc = []"
  "resp_event (snd (named ''response.function_call_arguments.done'' fs)) acc = []"
  by (simp_all add: resp_event_def item_added_def item_done_def named_def json_simps Let_def)

lemma read_quiet: "resp_event (snd f) acc = [] \<Longrightarrow> read_event f (acc, a) = Some (acc, a)"
  by (simp add: read_event_def observe_all_def)

lemma read_closed:
  "read_all read_event (fst (close_message st)) (acc, a) = Some (acc, a)"
  "read_all read_event (fst (close_reasoning st)) (acc, a) = Some (acc, a)"
  by (simp_all add: close_message_def close_reasoning_def read_quiet quiet_frames split: option.split)

lemma read_opened:
  "read_all read_event (fst (open_message st)) (acc, a) = Some (acc, a)"
  "read_all read_event (fst (open_reasoning st)) (acc, a) = Some (acc, a)"
  using read_closed [of st acc a]
  by (auto simp: open_message_def open_reasoning_def read_all_append read_quiet quiet_frames Let_def split: option.split prod.split)

lemma read_created: "\<exists>acc'. read_all read_event (fst (ensure_created st)) (acc, a) = Some (acc', a) \<and> same_calls acc acc'"
proof -
  have zero: "resp_parse_usage JNull = usage_default" by (simp add: resp_parse_usage_def json_simps usage_default_def)
  have "merge x usage_default = x" for x by (simp add: merge_def usage_default_def)
  then show ?thesis
    by (auto simp: ensure_created_def read_event_def resp_event_def named_def json_simps Let_def observe_all_def zero)
qed

lemma opened_kept [simp]:
  "rr_tools (snd (open_message st)) = rr_tools st" "rr_finished (snd (open_message st)) = rr_finished st" "rr_usage (snd (open_message st)) = rr_usage st"
  "rr_tools (snd (open_reasoning st)) = rr_tools st" "rr_finished (snd (open_reasoning st)) = rr_finished st" "rr_usage (snd (open_reasoning st)) = rr_usage st"
  by (simp_all add: open_message_def open_reasoning_def Let_def split_beta split: option.split)

lemma reader_words:
  assumes "reader_knows t st (acc, a)" and "\<not> io_done t" and "io_call t' = None" "io_done t' = io_done t" "io_seen t' = io_seen t"
  shows "\<exists>cl. read_all read_event (fst (resp_render_event (TextDelta s) st)) (acc, a) = Some cl \<and> reader_knows t' (snd (resp_render_event (TextDelta s) st)) cl \<and>
      reader_content (snd (resp_render_event (TextDelta s) st)) cl = hear w c (TextDelta s) (reader_content st (acc, a))"
    and "\<exists>cl. read_all read_event (fst (resp_render_event (ThinkingDelta s) st)) (acc, a) = Some cl \<and> reader_knows t' (snd (resp_render_event (ThinkingDelta s) st)) cl \<and>
      reader_content (snd (resp_render_event (ThinkingDelta s) st)) cl = hear w c (ThinkingDelta s) (reader_content st (acc, a))"
proof -
  obtain o1 st1 where s1: "ensure_created st = (o1, st1)" by force
  obtain acc1 where acc1: "read_all read_event o1 (acc, a) = Some (acc1, a)" "same_calls acc acc1" using read_created [of st acc a] s1 by auto
  have st1: "rr_tools st1 = rr_tools st" "rr_finished st1 = rr_finished st" "rr_usage st1 = rr_usage st" using kept_simps [of st] s1 by simp_all
  have knows: "reader_knows t' st' (acc1\<lparr>text_len := n\<rparr>, b)"
    if "rr_tools st' = rr_tools st" "rr_finished st' = rr_finished st" "an_stop b = an_stop a" "an_calls b = an_calls a" "an_running b = an_running a" for st' n b
    using assms acc1(2) that by (simp add: reader_knows_def same_calls_def)
  obtain o2 st2 where s2: "open_message st1 = (o2, st2)" by force
  obtain n i where m: "the (rr_message st2) = (n, i)" by force
  have "read_all read_event o2 (acc1, a) = Some (acc1, a)" "rr_tools st2 = rr_tools st" "rr_finished st2 = rr_finished st" "rr_usage st2 = rr_usage st"
    using read_opened(1) [of st1 acc1 a] opened_kept [of st1] s2 st1 by simp_all
  with acc1(1) knows show "\<exists>cl. read_all read_event (fst (resp_render_event (TextDelta s) st)) (acc, a) = Some cl \<and> reader_knows t' (snd (resp_render_event (TextDelta s) st)) cl \<and>
      reader_content (snd (resp_render_event (TextDelta s) st)) cl = hear w c (TextDelta s) (reader_content st (acc, a))"
    by (simp add: s1 s2 m read_all_append read_event_def resp_event_def named_def json_simps Let_def observe_all_def reader_content_def)
  obtain o3 st3 where s3: "open_reasoning st1 = (o3, st3)" by force
  obtain k j where r: "the (rr_reasoning st3) = (k, j)" by force
  have "read_all read_event o3 (acc1, a) = Some (acc1, a)" "rr_tools st3 = rr_tools st" "rr_finished st3 = rr_finished st" "rr_usage st3 = rr_usage st"
    using read_opened(2) [of st1 acc1 a] opened_kept [of st1] s3 st1 by simp_all
  with acc1(1) knows show "\<exists>cl. read_all read_event (fst (resp_render_event (ThinkingDelta s) st)) (acc, a) = Some cl \<and> reader_knows t' (snd (resp_render_event (ThinkingDelta s) st)) cl \<and>
      reader_content (snd (resp_render_event (ThinkingDelta s) st)) cl = hear w c (ThinkingDelta s) (reader_content st (acc, a))"
    by (simp add: s1 s3 r read_all_append read_event_def resp_event_def named_def json_simps Let_def observe_all_def reader_content_def)
qed


lemma read_closing:
  "\<exists>acc'. read_all read_event (fst (closing st)) (acc, a) = Some (acc', a) \<and> same_calls acc acc'"
proof -
  obtain o1 st1 where s1: "ensure_created st = (o1, st1)" by force
  obtain o2 st2 where s2: "close_reasoning st1 = (o2, st2)" by force
  obtain o3 st3 where s3: "close_message st2 = (o3, st3)" by force
  show ?thesis using read_created [of st acc a] read_closed(2) [of st1] read_closed(1) [of st2]
    by (auto simp: closing_def s1 s2 s3 read_all_append)
qed

lemma closing_kept [simp]:
  "rr_tools (snd (closing st)) = rr_tools st" "rr_finished (snd (closing st)) = rr_finished st" "rr_usage (snd (closing st)) = rr_usage st"
  by (simp_all add: closing_def split_beta)

lemma tool_start_closes:
  "render_tool_start tid name st = (case closing st of (out, st) \<Rightarrow> let index = rr_next_index st; i = item_id ''fc'' index st in
     (out @ [item_added index (JObj [(''id'', JStr i), (''type'', JStr ''function_call''), (''status'', JStr ''in_progress''), (''call_id'', JStr tid),
          (''name'', JStr name), (''arguments'', JStr [])])],
       st\<lparr>rr_next_index := index + 1,
         rr_tools := rr_tools st @ [\<lparr>tc_call_id = tid, tc_index = index, tc_item_id = i, tc_name = name, tc_args = []\<rparr>]\<rparr>))"
  by (simp add: render_tool_start_def closing_def Let_def split: prod.split)

lemma reader_tool_start:
  assumes "reader_knows t st (acc, a)" and "\<not> io_done t"
  shows "\<exists>cl. read_all read_event (fst (render_tool_start tid name st)) (acc, a) = Some cl \<and>
      reader_knows (t\<lparr>io_call := Some tid, io_seen := tid # io_seen t\<rparr>) (snd (render_tool_start tid name st)) cl \<and>
      reader_content (snd (render_tool_start tid name st)) cl = hear w c (ToolUseStart tid name) (reader_content st (acc, a))"
proof -
  obtain o1 st1 where s1: "closing st = (o1, st1)" by force
  have st1: "rr_tools st1 = rr_tools st" "rr_finished st1 = rr_finished st" "rr_usage st1 = rr_usage st" using closing_kept [of st] s1 by simp_all
  obtain acc1 where acc1: "read_all read_event o1 (acc, a) = Some (acc1, a)" "same_calls acc acc1" using read_closing [of st acc a] s1 by auto
  have names: "restore_function_name acc1 name = name"
    using assms(1) acc1(2) by (simp add: reader_knows_def same_calls_def)
  show ?thesis
    using assms acc1 st1 names
    by (auto simp: tool_start_closes s1 Let_def read_all_append read_event_def resp_event_def item_added_def named_def json_simps observe_all_def
        reader_content_def reader_knows_def same_calls_def current_tool_id_def sat_add_def usize_max_def)
qed

lemma push_fragment_ids: "map fst (push_fragment tid s bufs) = map fst bufs"
  by (induction tid s bufs rule: push_fragment.induct) simp_all

lemma push_args_ids: "map tc_call_id (push_args tid s cs) = map tc_call_id cs"
  by (induction tid s cs rule: push_args.induct) simp_all

lemma current_by_ids: "current_tool_id acc = (if map fst (tool_buffers acc) = [] then None else Some (last (map fst (tool_buffers acc))))"
  by (simp add: current_tool_id_def last_map)

lemma drop_call_subset: "tc_call_id ` set (drop_call tid cs) \<subseteq> tc_call_id ` set cs"
  by (induction tid cs rule: drop_call.induct) auto

lemma reader_tool_delta:
  assumes "reader_knows t st (acc, a)" and "io_call t = Some tid"
  shows "\<exists>cl. read_all read_event (fst (render_tool_delta tid s st)) (acc, a) = Some cl \<and> reader_knows t (snd (render_tool_delta tid s st)) cl \<and>
      reader_content (snd (render_tool_delta tid s st)) cl = hear w c (ToolUseDelta tid s) (reader_content st (acc, a))"
proof -
  have now: "current_tool_id acc = Some tid" "tid \<in> tc_call_id ` set (rr_tools st)" using assms by (auto simp: reader_knows_def)
  then obtain d where d: "find (\<lambda>c. tc_call_id c = tid) (rr_tools st) = Some d"
    by (cases "find (\<lambda>c. tc_call_id c = tid) (rr_tools st)") (auto simp: find_None_iff)
  let ?acc = "acc\<lparr>tool_buffers := push_fragment tid s (tool_buffers acc)\<rparr>"
  have same: "current_tool_id ?acc = current_tool_id acc" by (simp add: current_by_ids push_fragment_ids)
  have ids: "tc_call_id ` set (push_args tid s cs) = tc_call_id ` set cs" for cs
    using push_args_ids [of tid s cs] by (metis set_map)
  have "reader_knows t (st\<lparr>rr_tools := push_args tid s (rr_tools st)\<rparr>) (?acc, a\<lparr>an_calls := add_fragment tid s (an_calls a)\<rparr>)"
    using assms(1) same by (simp add: reader_knows_def ids add_fragment_def)
  with now d show ?thesis
    by (simp add: render_tool_delta_def read_event_def resp_event_def named_def json_simps observe_all_def reader_content_def Let_def)
qed

lemma reader_tool_end:
  assumes "reader_knows t st (acc, a)"
  shows "\<exists>cl. read_all read_event (fst (render_tool_end tid st)) (acc, a) = Some cl \<and> reader_knows (t\<lparr>io_call := None\<rparr>) (snd (render_tool_end tid st)) cl \<and>
      reader_content (snd (render_tool_end tid st)) cl = hear w c (ToolUseEnd tid) (reader_content st (acc, a))"
proof (cases "find (\<lambda>c. tc_call_id c = tid) (rr_tools st)")
  case None
  with assms show ?thesis by (simp add: render_tool_end_def reader_knows_def)
next
  case (Some d)
  have "reader_knows (t\<lparr>io_call := None\<rparr>) (st\<lparr>rr_tools := drop_call tid (rr_tools st)\<rparr>) (acc\<lparr>open_tool := None\<rparr>, a)"
    using assms drop_call_subset [of tid "rr_tools st"] by (auto simp: reader_knows_def)
  with Some show ?thesis
    by (simp add: render_tool_end_def read_quiet quiet_frames)
      (simp add: read_event_def resp_event_def item_done_def named_def json_simps observe_all_def reader_content_def or_else_def Let_def)
qed

lemma reader_stop:
  assumes "reader_knows t st (acc, a)" and "\<not> io_done t"
  shows "\<exists>cl. read_all read_event (fst (resp_render_event (Stop reason u) st)) (acc, a) = Some cl \<and>
      reader_knows (t\<lparr>io_done := True\<rparr>) (snd (resp_render_event (Stop reason u) st)) cl \<and>
      reader_content (snd (resp_render_event (Stop reason u) st)) cl = hear resp_word resp_told (Stop reason u) (reader_content st (acc, a))"
proof -
  let ?st = "st\<lparr>rr_finished := True, rr_usage := merge (rr_usage st) u\<rparr>"
  obtain out st1 where s1: "closing ?st = (out, st1)" by force
  have st1: "rr_tools st1 = rr_tools st" "rr_finished st1" "rr_usage st1 = merge (rr_usage st) u" using closing_kept [of ?st] s1 by simp_all
  obtain acc1 where acc1: "read_all read_event out (acc, a) = Some (acc1, a)" "same_calls acc acc1" using read_closing [of ?st acc a] s1 by auto
  have f: "\<not> rr_finished st" "an_stop a = None" "an_running a = usage_default" "tool_calls acc1 = 0 \<longleftrightarrow> an_calls a = []"
    using assms acc1(2) by (auto simp: reader_knows_def same_calls_def)
  have saw: "saw_tool_call acc1 \<longleftrightarrow> an_calls a \<noteq> []" using f(4) by (simp add: saw_tool_call_def flip: neq0_conv)
  let ?u = "resp_told (rr_usage st1)"
  have events: "resp_event (snd (resp_terminal reason st1)) acc1 = [UsageUpdate ?u, Stop (resp_word (an_calls a \<noteq> []) reason) ?u]"
    by (cases reason) (simp_all add: resp_event_def resp_terminal_def named_def json_simps incomplete_word_def resp_told_def resp_word_def
        saw Let_def)
  have unit: "merge usage_default v = v" "merge v v = v" for v by (simp_all add: merge_def usage_default_def)
  let ?acc = "observe_all (resp_event (snd (resp_terminal reason st1)) acc1) acc1"
  let ?a = "a\<lparr>an_running := ?u, an_usage := Some ?u, an_stop := Some (resp_word (an_calls a \<noteq> []) reason)\<rparr>"
  have "same_calls acc ?acc" using acc1(2) by (simp add: events observe_all_def same_calls_def)
  then have "reader_knows (t\<lparr>io_done := True\<rparr>) st1 (?acc, ?a)"
    using assms(1) st1 by (auto simp: reader_knows_def same_calls_def current_tool_id_def)
  moreover have "read_event (resp_terminal reason st1) (acc1, a) = Some (?acc, ?a)"
    using f(2,3) by (simp add: read_event_def events unit same_word_def Let_def)
  ultimately show ?thesis
    using f(1,2) acc1(1) st1(3) by (simp add: s1 read_all_append reader_content_def Let_def)
qed

lemma reader_event_told:
  assumes "reader_knows t st cl" and "reader_step ev t = Some t'"
  shows "\<exists>cl'. read_all read_event (fst (resp_render_event ev st)) cl = Some cl' \<and> reader_knows t' (snd (resp_render_event ev st)) cl' \<and>
      reader_content (snd (resp_render_event ev st)) cl' = hear resp_word resp_told ev (reader_content st cl)"
proof -
  obtain acc a where cl: "cl = (acc, a)" by force
  note knows = assms(1) [unfolded cl]
  have t': "\<not> io_done t" "in_order_event ev t = Some t'" using assms(2) by (cases ev; simp add: reader_step_def in_order_step_def split: if_splits)+
  show ?thesis
  proof (cases ev)
    case (Start model u)
    let ?st = "st\<lparr>rr_model := adopt_model (rr_model st) model, rr_usage := merge (rr_usage st) u\<rparr>"
    obtain acc1 where acc1: "read_all read_event (fst (ensure_created ?st)) (acc, a) = Some (acc1, a)" "same_calls acc acc1" using read_created [of ?st acc a] by auto
    have "reader_knows t (snd (ensure_created ?st)) (acc1, a)" by (rule reader_knows_same [OF knows acc1(2)]) simp_all
    with acc1(1) t' Start show ?thesis by (simp add: cl reader_content_def)
  next
    case (UsageUpdate u)
    with t' knows show ?thesis by (simp add: cl reader_content_def reader_knows_def)
  next
    case (TextDelta s)
    with t' reader_words(1) [OF knows t'(1)] show ?thesis by (auto simp: cl)
  next
    case (ThinkingDelta s)
    with t' reader_words(2) [OF knows t'(1)] show ?thesis by (auto simp: cl)
  next
    case (ToolUseStart tid name)
    with t' reader_tool_start [OF knows t'(1)] show ?thesis by (auto simp: cl split: if_splits)
  next
    case (ToolUseDelta tid s)
    with t' reader_tool_delta [OF knows] show ?thesis by (auto simp: cl split: if_splits)
  next
    case (ToolUseEnd tid)
    with t' reader_tool_end [OF knows] show ?thesis by (auto simp: cl)
  next
    case (Stop reason u)
    with t' reader_stop [OF knows t'(1)] show ?thesis by (simp add: cl)
  next
    case (EventError m)
    with assms(2) show ?thesis by (simp add: reader_step_def)
  qed
qed

interpretation resp_reader: faithful_stream resp_render_event read_event reader_knows reader_content reader_step resp_word resp_told
  by unfold_locales (rule reader_event_told)

text \<open>
  A Responses stream the gateway writes and its own reader reads says what the events said, calls one
  after another: the text, the reasoning and every call with its arguments whole, the reason as the
  dialect can say it and the usage with what was written to the cache counted as prompt. The reader
  stops exactly when the events did.
\<close>

theorem responses_stream_is_read_back:
  fixes rid model :: string
  assumes "tellable reader_step evs in_order_new" and "\<forall>ev \<in> set evs. \<forall>u. reported_usage ev = Some u \<longrightarrow> usage_small u"
  defines "r \<equiv> render_all resp_render_event evs (resp_render_new rid model)"
  shows "\<exists>acc a. read_all read_event (fst r) (acc_new, nothing_said) = Some (acc, a) \<and>
    a\<lparr>an_running := rr_usage (snd r)\<rparr> = fold (hear resp_word chat_counts) evs nothing_said \<and> (rr_finished (snd r) \<longleftrightarrow> an_stop a \<noteq> None)"
proof -
  have "reader_knows in_order_new (resp_render_new rid model) (acc_new, nothing_said)"
    by (simp add: reader_knows_def in_order_new_def resp_render_new_def acc_new_def nothing_said_def)
  from resp_reader.told_all [OF this assms(1)] obtain t acc a where
    cl: "read_all read_event (fst r) (acc_new, nothing_said) = Some (acc, a)" "reader_knows t (snd r) (acc, a)"
      "reader_content (snd r) (acc, a) = fold (hear resp_word resp_told) evs (reader_content (resp_render_new rid model) (acc_new, nothing_said))"
    unfolding r_def by auto
  moreover have "reader_content (resp_render_new rid model) (acc_new, nothing_said) = nothing_said"
    by (simp add: reader_content_def resp_render_new_def nothing_said_def)
  moreover have "fold (hear resp_word resp_told) evs nothing_said = fold (hear resp_word chat_counts) evs nothing_said"
    using hear_counts [where P = usage_small and a = nothing_said, OF merge_small resp_told_small assms(2)] by (simp add: nothing_said_def usage_small_def usage_default_def)
  ultimately show ?thesis by (auto simp: reader_content_def reader_knows_def)
qed

definition two_turns :: "stream_event list" where
  "two_turns = [TextDelta ''so'', ToolUseStart ''a'' ''f'', ToolUseDelta ''a'' ''{'', ToolUseDelta ''a'' ''}'', ToolUseEnd ''a'', ThinkingDelta ''hm'',
     ToolUseStart ''b'' ''g'', ToolUseDelta ''b'' ''[]'', Stop EndTurn usage_default]"

theorem responses_stream_is_read_back_witness:
  "\<exists>acc a. read_all read_event (fst (render_all resp_render_event two_turns (resp_render_new ''r'' ''m''))) (acc_new, nothing_said) = Some (acc, a) \<and>
     an_calls a = [(''a'', ''f'', ''{}''), (''b'', ''g'', ''[]'')]"
proof -
  have "tellable reader_step two_turns in_order_new" by (simp add: two_turns_def in_order_new_def reader_step_def in_order_step_def)
  moreover have "\<forall>ev \<in> set two_turns. \<forall>u. reported_usage ev = Some u \<longrightarrow> usage_small u"
    by (simp add: two_turns_def usage_small_def usage_default_def)
  moreover have "an_calls (fold (hear resp_word chat_counts) two_turns nothing_said) = [(''a'', ''f'', ''{}''), (''b'', ''g'', ''[]'')]"
    by (simp add: two_turns_def nothing_said_def add_fragment_def Let_def)
  moreover have "an_calls (a\<lparr>an_running := u\<rparr>) = an_calls a" for a :: answer and u by simp
  ultimately show ?thesis
    using responses_stream_is_read_back [of two_turns "''r''" "''m''"] by metis
qed

end
