(* ===== verification/Gemini.thy ===== *)
theory Gemini
  imports Conversation
begin

text \<open>
  Requests of the Gemini dialect (\<^verbatim>\<open>oag-proto/src/gemini.rs\<close>): the canonical request as a
  \<^verbatim>\<open>generateContent\<close> body and back. The model is in the URL and has no member here. Members are read in
  either of the two spellings proto3 JSON has for a field, and what the reader has no name for is kept for
  an upstream of the same dialect.
\<close>

subsection \<open>Rendering a request\<close>

definition gem_call_id :: "string \<Rightarrow> nat \<Rightarrow> string" where
  "gem_call_id name ordinal = (if ordinal = 0 then name else name @ ''#'' @ show_nat ordinal)"

definition gem_function_name :: "string \<Rightarrow> string" where
  "gem_function_name tid = (case split_once (CHR ''#'') tid of Some (name, _) \<Rightarrow> name | None \<Rightarrow> tid)"

definition gem_tool_names :: "message list \<Rightarrow> (string \<rightharpoonup> string)" where
  "gem_tool_names ms = map_of (rev (List.map_filter (\<lambda>b. case b of ToolUse tid name _ \<Rightarrow> Some (tid, name) | _ \<Rightarrow> None) (flat ms)))"

definition gem_called :: "(string \<rightharpoonup> string) \<Rightarrow> string \<Rightarrow> string" where
  "gem_called tool_names tid = (case tool_names tid of Some name \<Rightarrow> name | None \<Rightarrow> gem_function_name tid)"

definition gem_part :: "(string \<rightharpoonup> string) \<Rightarrow> content_block \<Rightarrow> json option" where
  "gem_part tool_names b =
     (case b of
        Text t _ \<Rightarrow> Some (JObj [(''text'', JStr t)])
      | Image media_type data \<Rightarrow> Some (JObj [(''inlineData'', JObj [(''mimeType'', JStr media_type), (''data'', JStr data)])])
      | ToolUse _ name input \<Rightarrow> Some (JObj [(''functionCall'', JObj [(''name'', JStr name), (''args'', input)])])
      | ToolResult tid content _ \<Rightarrow>
          Some (JObj [(''functionResponse'', JObj [(''name'', JStr (gem_called tool_names tid)),
            (''response'', JObj [(''result'', JStr (as_text content))])])])
      | Thinking _ _ \<Rightarrow> None)"

definition gem_message :: "(string \<rightharpoonup> string) \<Rightarrow> message \<Rightarrow> json" where
  "gem_message tool_names m =
     JObj [(''role'', JStr (if msg_role m = RoleAssistant then ''model'' else ''user'')),
       (''parts'', JArr (List.map_filter (gem_part tool_names) (msg_content m)))]"

definition gem_tool :: "tool \<Rightarrow> json" where
  "gem_tool t = JObj [(''name'', JStr (tool_name t)), (''description'', JStr (tool_description t)), (''parameters'', input_schema t)]"

definition asked_budget :: "canonical_request \<Rightarrow> nat option" where
  "asked_budget r = (case thinking_budget r of Some b \<Rightarrow> Some b | None \<Rightarrow> map_option as_budget (thinking_effort r))"

definition gem_tool_choice :: "tool_choice \<Rightarrow> json" where
  "gem_tool_choice c =
     (case c of
        ChoiceAuto \<Rightarrow> JObj [(''mode'', JStr ''AUTO'')]
      | ChoiceRequired \<Rightarrow> JObj [(''mode'', JStr ''ANY'')]
      | ChoiceNone \<Rightarrow> JObj [(''mode'', JStr ''NONE'')]
      | ChoiceTool name \<Rightarrow> JObj [(''mode'', JStr ''ANY''), (''allowedFunctionNames'', JArr [JStr name])])"

definition gem_format :: "response_format \<Rightarrow> json \<Rightarrow> json" where
  "gem_format f cfg =
     (case f of
        FormatText \<Rightarrow> set_member ''responseMimeType'' (JStr ''text/plain'') cfg
      | FormatJsonObject \<Rightarrow> set_member ''responseMimeType'' (JStr ''application/json'') cfg
      | FormatJsonSchema _ schema _ \<Rightarrow> set_member ''responseSchema'' schema (set_member ''responseMimeType'' (JStr ''application/json'') cfg))"

definition in_config :: "(json \<Rightarrow> json) \<Rightarrow> json \<Rightarrow> json" where
  "in_config f body = set_member ''generationConfig'' (f (idx body ''generationConfig'')) body"

definition gem_render_request :: "serde \<Rightarrow> canonical_request \<Rightarrow> error + json" where
  "gem_render_request S req =
     (let tool_names = gem_tool_names (cr_messages req);
          body = JObj [(''contents'', JArr (map (gem_message tool_names) (cr_messages req))),
            (''generationConfig'', JObj [(''maxOutputTokens'', jnat (cr_max_tokens req))])];
          body = set_when (cr_system req \<noteq> []) ''systemInstruction''
            (JObj [(''parts'', JArr [JObj [(''text'', JStr (join_with [CHR 0x0A, CHR 0x0A] (texts (cr_system req))))]])]) body;
          body = set_when (cr_tools req \<noteq> []) ''tools'' (JArr [JObj [(''functionDeclarations'', JArr (map gem_tool (cr_tools req)))]]) body;
          body = in_config (set_some ''temperature'' (map_option (of_f32 S) (cr_temperature req))) body;
          body = in_config (set_some ''thinkingConfig'' (map_option (\<lambda>b. JObj [(''thinkingBudget'', jnat b)]) (asked_budget req))) body in
      if previous_response_id req \<noteq> None then Inl (UnsupportedField ''previous_response_id'' GeminiGenerateContent)
      else
        let body = set_some ''toolConfig'' (map_option (\<lambda>c. JObj [(''functionCallingConfig'', gem_tool_choice c)]) (cr_tool_choice req)) body;
            body = in_config (case cr_response_format req of Some f \<Rightarrow> gem_format f | None \<Rightarrow> (\<lambda>cfg. cfg)) body;
            body = in_config (set_when (cr_stop req \<noteq> []) ''stopSequences'' (JArr (map JStr (cr_stop req)))) body in
        Inr (case cr_passthrough req of Some extra \<Rightarrow> merge_into extra GeminiGenerateContent body | None \<Rightarrow> body))"

subsection \<open>Reading a request\<close>

definition gem_field :: "json \<Rightarrow> string \<Rightarrow> json" where
  "gem_field v camel =
     (case get_member v camel of
        Some x \<Rightarrow> x
      | None \<Rightarrow> (case get_member v (snake_of camel) of Some x \<Rightarrow> x | None \<Rightarrow> JNull))"

definition SUBTRACTED :: "string list" where
  "SUBTRACTED =
     [''contents'', ''systemInstruction'', ''tools'', ''toolConfig'', ''generationConfig.maxOutputTokens'', ''generationConfig.temperature'',
      ''generationConfig.thinkingConfig.thinkingBudget'', ''generationConfig.responseMimeType'', ''generationConfig.responseSchema'',
      ''generationConfig.stopSequences'', ''model'', ''generationConfig.candidateCount'']"

definition THINKING_LEVELS :: "string list" where
  "THINKING_LEVELS = [''minimal'', ''low'', ''medium'', ''high'']"

definition THINKING_LEVEL :: string where
  "THINKING_LEVEL = ''generationConfig.thinkingConfig.thinkingLevel''"

definition gem_parse_part :: "serde \<Rightarrow> json \<Rightarrow> content_block option" where
  "gem_parse_part S p =
     (case as_str (gem_field p ''text'') of
        Some t \<Rightarrow> Some (Text t None)
      | None \<Rightarrow>
          let call = gem_field p ''functionCall''; resp = gem_field p ''functionResponse''; inline = gem_field p ''inlineData'' in
          if call \<noteq> JNull then
            Some (ToolUse (str_or [] (gem_field call ''name'')) (str_or [] (gem_field call ''name'')) (gem_field call ''args''))
          else if resp \<noteq> JNull then
            Some (ToolResult (str_or [] (gem_field resp ''name''))
              (ResultText (case gem_field (gem_field resp ''response'') ''result'' of
                  JNull \<Rightarrow> to_text S (gem_field resp ''response'')
                | JStr s \<Rightarrow> s
                | other \<Rightarrow> to_text S other)) False)
          else if inline \<noteq> JNull then
            bind_str (gem_field inline ''mimeType'') (\<lambda>media_type. bind_str (gem_field inline ''data'') (\<lambda>data. Some (Image media_type data)))
          else None)"

definition gem_parse_content :: "serde \<Rightarrow> json \<Rightarrow> message option" where
  "gem_parse_content S v =
     (let role = (if as_str (gem_field v ''role'') = Some ''model'' then RoleAssistant else RoleUser) in
      case as_array (gem_field v ''parts'') of
        None \<Rightarrow> None
      | Some parts \<Rightarrow>
          let content = List.map_filter (gem_parse_part S) parts in
          if content \<noteq> [] then Some \<lparr>msg_role = role, msg_content = content\<rparr> else None)"

definition gem_parse_tool :: "json \<Rightarrow> tool option" where
  "gem_parse_tool d =
     bind_str (gem_field d ''name'') (\<lambda>name. Some
       \<lparr>tool_name = name, tool_description = str_or [] (gem_field d ''description''), input_schema = gem_field d ''parameters'',
        tool_cache_control = None\<rparr>)"

definition gem_parse_budget :: "json \<Rightarrow> nat option" where
  "gem_parse_budget cfg = Option.bind (as_u64 (gem_field (gem_field cfg ''thinkingConfig'') ''thinkingBudget'')) u32_try_from"

definition gem_parse_tool_choice :: "json \<Rightarrow> tool_choice option" where
  "gem_parse_tool_choice cfg =
     bind_str (gem_field cfg ''mode'') (\<lambda>mode.
       case (case as_array (gem_field cfg ''allowedFunctionNames'') of Some [n] \<Rightarrow> (if mode \<noteq> ''NONE'' then as_str n else None) | _ \<Rightarrow> None) of
         Some name \<Rightarrow> Some (ChoiceTool name)
       | None \<Rightarrow>
           if mode = ''AUTO'' then Some ChoiceAuto
           else if mode = ''ANY'' then Some ChoiceRequired
           else if mode = ''NONE'' then Some ChoiceNone
           else None)"

definition gem_parse_format :: "json \<Rightarrow> response_format option" where
  "gem_parse_format cfg =
     (case gem_field cfg ''responseSchema'' of
        JNull \<Rightarrow>
          (case as_str (gem_field cfg ''responseMimeType'') of
             Some mime \<Rightarrow> Some (if mime = ''application/json'' then FormatJsonObject else FormatText)
           | None \<Rightarrow> None)
      | schema \<Rightarrow> Some (FormatJsonSchema ''response'' schema True))"

definition gem_foreign_level :: "json \<Rightarrow> effort option" where
  "gem_foreign_level cfg =
     bind_str (gem_field (gem_field cfg ''thinkingConfig'') ''thinkingLevel'') (\<lambda>level.
       let level = map to_ascii_lower level in if level \<notin> set THINKING_LEVELS then effort_parse level else None)"

definition gem_parse_request :: "serde \<Rightarrow> json \<Rightarrow> error + canonical_request" where
  "gem_parse_request S body =
     (let cfg = gem_field body ''generationConfig'';
          foreign_level = gem_foreign_level cfg;
          subtracted = SUBTRACTED @ (if foreign_level \<noteq> None then [THINKING_LEVEL] else []) in
      Inr \<lparr>cr_model = [],
        cr_system = map (\<lambda>t. Text t None)
          (List.map_filter (\<lambda>p. as_str (gem_field p ''text'')) (items (gem_field (gem_field body ''systemInstruction'') ''parts''))),
        cr_messages = List.map_filter (gem_parse_content S) (items (gem_field body ''contents'')),
        cr_tools = List.map_filter gem_parse_tool
          (concat (List.map_filter (\<lambda>e. as_array (gem_field e ''functionDeclarations'')) (items (gem_field body ''tools'')))),
        cr_max_tokens = (case Option.bind (as_u64 (gem_field cfg ''maxOutputTokens'')) u32_try_from of Some n \<Rightarrow> n | None \<Rightarrow> 4096),
        cr_stream = False,
        cr_temperature = as_f32 S (gem_field cfg ''temperature''),
        thinking_budget = gem_parse_budget cfg,
        thinking_effort = (case gem_parse_budget cfg of Some b \<Rightarrow> Some (from_budget b) | None \<Rightarrow> foreign_level),
        cr_client_session = None,
        cr_tool_choice = gem_parse_tool_choice (gem_field (gem_field body ''toolConfig'') ''functionCallingConfig''),
        cr_response_format = gem_parse_format cfg,
        cr_stop = List.map_filter as_str (items (gem_field cfg ''stopSequences'')),
        previous_response_id = None,
        cr_passthrough = capture GeminiGenerateContent body subtracted\<rparr>)"

subsection \<open>Reading in either spelling\<close>

text \<open>What the gateway writes spells every member one way, without underscores.\<close>

definition one_spelling :: "json \<Rightarrow> bool" where
  "one_spelling v \<longleftrightarrow> (\<forall>k. CHR ''_'' \<in> set k \<longrightarrow> get_member v k = None)"

lemma snake_changes: "snake_of k \<noteq> k \<Longrightarrow> CHR ''_'' \<in> set (snake_of k)"
  by (induction k) (auto simp: snake_of_def)

lemma gem_field_spelled [json_simps]:
  assumes "one_spelling v"
  shows "gem_field v k = idx v k"
proof (cases "snake_of k = k")
  case True
  then show ?thesis by (auto simp: gem_field_def get_member_def idx_def split: json.splits option.splits)
next
  case False
  with assms have "get_member v (snake_of k) = None" using snake_changes [OF False] by (simp add: one_spelling_def)
  then show ?thesis by (auto simp: gem_field_def get_member_def idx_def split: json.splits option.splits)
qed

lemma one_spelling_simps [json_simps]:
  "one_spelling JNull" "one_spelling (JObj [])" "one_spelling (JArr xs)" "one_spelling (JStr s)"
  "CHR ''_'' \<notin> set k \<Longrightarrow> one_spelling (JObj ((k, x) # m)) = one_spelling (JObj m)"
  "CHR ''_'' \<notin> set k \<Longrightarrow> one_spelling (set_member k x v) = one_spelling v"
  "CHR ''_'' \<notin> set k \<Longrightarrow> one_spelling (set_when b k x v) = one_spelling v"
  "CHR ''_'' \<notin> set k \<Longrightarrow> one_spelling (set_some k y v) = one_spelling v"
  by (cases v; cases y; force simp: one_spelling_def get_member_def set_member_def set_when_def set_some_def update_conv)+

lemma in_config_simps [json_simps]:
  "is_object b \<Longrightarrow> is_object (in_config f b)"
  "is_object b \<Longrightarrow> idx (in_config f b) k = (if k = ''generationConfig'' then f (idx b ''generationConfig'') else idx b k)"
  "one_spelling (in_config f b) = one_spelling b"
  by (simp_all add: in_config_def json_simps)

subsection \<open>What is heard\<close>

text \<open>
  Which function a result answers, said of the conversation alone: the name given in the last call made under that
  id, or, when no call of the conversation has it, the id up to its number sign.
\<close>

fun last_call_name :: "content_block list \<Rightarrow> string \<Rightarrow> string option" where
  "last_call_name [] tid = None"
| "last_call_name (b # bs) tid =
     (case last_call_name bs tid of
        Some name \<Rightarrow> Some name
      | None \<Rightarrow> (case b of ToolUse i name _ \<Rightarrow> (if i = tid then Some name else None) | _ \<Rightarrow> None))"

definition function_answered :: "message list \<Rightarrow> string \<Rightarrow> string" where
  "function_answered ms tid =
     (case last_call_name (concat (map msg_content ms)) tid of
        Some name \<Rightarrow> name
      | None \<Rightarrow> takeWhile (\<lambda>c. c \<noteq> CHR ''#'') tid)"

definition gem_heard_block :: "(string \<Rightarrow> string) \<Rightarrow> content_block \<Rightarrow> content_block option" where
  "gem_heard_block answered b =
     (case b of
        Text t _ \<Rightarrow> Some (Text t None)
      | Image m d \<Rightarrow> Some (Image m d)
      | ToolUse _ name input \<Rightarrow> Some (ToolUse name name input)
      | ToolResult tid content _ \<Rightarrow> Some (ToolResult (answered tid) (ResultText (as_text content)) False)
      | Thinking _ _ \<Rightarrow> None)"

definition gem_heard :: "(string \<Rightarrow> string) \<Rightarrow> message \<Rightarrow> message option" where
  "gem_heard answered m =
     (let content = List.map_filter (gem_heard_block answered) (msg_content m) in
      if content \<noteq> [] then Some \<lparr>msg_role = (if msg_role m = RoleAssistant then RoleAssistant else RoleUser), msg_content = content\<rparr> else None)"

lemma tool_names_last: "gem_tool_names ms tid = last_call_name (concat (map msg_content ms)) tid"
proof -
  have "map_of (rev (List.map_filter (\<lambda>b. case b of ToolUse tid name _ \<Rightarrow> Some (tid, name) | _ \<Rightarrow> None) bs)) tid = last_call_name bs tid" for bs
    by (induction bs) (auto simp: List.map_filter_simps map_add_def split: content_block.splits option.splits)
  then show ?thesis by (simp add: gem_tool_names_def flat_def)
qed

lemma function_name_before_sign: "gem_function_name tid = takeWhile (\<lambda>c. c \<noteq> CHR ''#'') tid"
proof -
  have "(case split_once sep s of Some (name, _) \<Rightarrow> name | None \<Rightarrow> s) = takeWhile (\<lambda>c. c \<noteq> sep) s" for sep :: char and s
    by (induction s) (auto split: option.splits)
  then show ?thesis by (simp add: gem_function_name_def)
qed

lemma called_is_answered: "gem_called (gem_tool_names ms) = function_answered ms"
  by (rule ext) (simp add: gem_called_def function_answered_def tool_names_last function_name_before_sign split: option.split)

lemma gem_part_back: "Option.bind (gem_part names b) (gem_parse_part S) = gem_heard_block (gem_called names) b"
  by (cases b) (simp_all add: gem_part_def gem_parse_part_def gem_heard_block_def json_simps Let_def)

lemma map_filter_bind: "List.map_filter g (List.map_filter f xs) = List.map_filter (\<lambda>x. Option.bind (f x) g) xs"
  by (induction xs) (simp_all add: List.map_filter_simps split: option.split)

lemma gem_message_back: "gem_parse_content S (gem_message names m) = gem_heard (gem_called names) m"
  by (simp add: gem_parse_content_def gem_message_def gem_heard_def json_simps map_filter_bind gem_part_back Let_def)

lemma gem_tool_back: "gem_parse_tool (gem_tool t) = Some (t\<lparr>tool_cache_control := None\<rparr>)"
  by (simp add: gem_parse_tool_def gem_tool_def json_simps)

lemma gem_choice_back: "gem_parse_tool_choice (gem_tool_choice c) = Some c"
  by (cases c) (simp_all add: gem_parse_tool_choice_def gem_tool_choice_def json_simps)

lemma gem_absent [simp]: "gem_parse_tool_choice JNull = None"
  by (simp add: gem_parse_tool_choice_def json_simps)


text \<open>
  A result goes back under the function its call named, wherever in the conversation the call is, and an
  id the gateway made up for a repeated call gives its function back.
\<close>

lemma gem_result_is_addressed:
  assumes "ToolUse tid name input \<in> set (flat ms)" and "\<And>n i. ToolUse tid n i \<in> set (flat ms) \<Longrightarrow> n = name"
  shows "gem_called (gem_tool_names ms) tid = name"
proof -
  let ?ps = "rev (List.map_filter (\<lambda>b. case b of ToolUse tid name _ \<Rightarrow> Some (tid, name) | _ \<Rightarrow> None) (flat ms))"
  have "(tid, name) \<in> set ?ps" using assms(1) by (force simp: set_map_filter_iff)
  then obtain called where called: "map_of ?ps tid = Some called" by (metis weak_map_of_SomeI)
  have "n = name" if pair: "(tid, n) \<in> set ?ps" for n
  proof -
    obtain b where "b \<in> set (flat ms)" "(case b of ToolUse tid name _ \<Rightarrow> Some (tid, name) | _ \<Rightarrow> None) = Some (tid, n)"
      using pair by (auto simp: set_map_filter_iff)
    then show ?thesis using assms(2) by - (cases b, simp_all)
  qed
  then have "map_of ?ps tid = Some name" using called map_of_SomeD [OF called] by simp
  then show ?thesis by (simp add: gem_called_def gem_tool_names_def)
qed

lemma gem_call_id_back: "CHR ''#'' \<notin> set name \<Longrightarrow> gem_function_name (gem_call_id name n) = name"
proof -
  assume "CHR ''#'' \<notin> set name"
  then have "split_once (CHR ''#'') name = None" "split_once (CHR ''#'') (name @ CHR ''#'' # t) = Some (name, t)" for t
    by (induction name) auto
  then show ?thesis by (simp add: gem_function_name_def gem_call_id_def)
qed

definition gem_format_kept :: "response_format \<Rightarrow> response_format" where
  "gem_format_kept f = (case f of FormatJsonSchema _ schema _ \<Rightarrow> FormatJsonSchema ''response'' schema True | _ \<Rightarrow> f)"

definition gem_config :: "serde \<Rightarrow> canonical_request \<Rightarrow> json" where
  "gem_config S r =
     set_when (cr_stop r \<noteq> []) ''stopSequences'' (JArr (map JStr (cr_stop r)))
       ((case cr_response_format r of Some f \<Rightarrow> gem_format f | None \<Rightarrow> (\<lambda>cfg. cfg))
         (set_some ''thinkingConfig'' (map_option (\<lambda>b. JObj [(''thinkingBudget'', jnat b)]) (asked_budget r))
           (set_some ''temperature'' (map_option (of_f32 S) (cr_temperature r)) (JObj [(''maxOutputTokens'', jnat (cr_max_tokens r))]))))"

subsection \<open>Nothing is left over\<close>

definition opt_member :: "string \<Rightarrow> json option \<Rightarrow> (string \<times> json) list" where
  "opt_member k x = (case x of Some v \<Rightarrow> [(k, v)] | None \<Rightarrow> [])"

lemma set_some_opt: "k \<notin> fst ` set m \<Longrightarrow> set_some k x (JObj m) = JObj (m @ opt_member k x)"
proof -
  assume "k \<notin> fst ` set m"
  then have "AList.update k v m = m @ [(k, v)]" for v by (induction m) auto
  then show ?thesis by (simp add: set_some_def opt_member_def set_member_def split: option.split)
qed

lemma set_when_some: "set_when b k x v = set_some k (if b then Some x else None) v"
  by (simp add: set_when_def set_some_def)

lemma opt_member_keys [simp]: "fst ` set (opt_member k x) = (if x = None then {} else {k})"
  by (cases x) (simp_all add: opt_member_def)

lemma member_remove_simps [simp]: "member_remove k [] = []" "member_remove k ((k', x) # m) = (if k' = k then member_remove k m else (k', x) # member_remove k m)"
  "member_remove k (m @ m') = member_remove k m @ member_remove k m'" "member_remove k (opt_member k' y) = (if k = k' then [] else opt_member k' y)"
  by (auto simp: member_remove_def opt_member_def split: option.split)

lemma opt_member_None [simp]: "opt_member k None = []"
  by (simp add: opt_member_def)

lemma not_member_remove: "k \<notin> fst ` set m \<Longrightarrow> member_remove k m = m"
  unfolding member_remove_def by (rule filter_True) force

lemma remove_plain:
  assumes "\<forall>k \<in> fst ` set m. CHR ''_'' \<notin> set k" and "split_once (CHR ''.'') path = None"
  shows "remove_path (JObj m) path = JObj (member_remove path m)"
proof (cases "snake_of path = path")
  case True
  then show ?thesis by (simp add: remove_path_obj assms(2) member_remove_def)
next
  case False
  have "snake_of path \<notin> fst ` set (member_remove path m)"
    using assms(1) snake_changes [OF False] by (auto simp: member_remove_def)
  then show ?thesis by (simp add: remove_path_obj assms(2) not_member_remove)
qed

lemma remove_within:
  assumes "split_once (CHR ''.'') path = Some (head, rest)" and "snake_of head \<noteq> head"
  shows "remove_path (JObj [(head, v)]) path = JObj [(head, remove_path v rest)]"
  using assms by (auto simp: remove_path_obj descend_def)

lemma snakes: "snake_of ''generationConfig'' \<noteq> ''generationConfig''" "snake_of ''thinkingConfig'' \<noteq> ''thinkingConfig''"
  by (simp_all add: snake_of_def to_ascii_lower_def)


lemma remove_below:
  assumes "split_once (CHR ''.'') path = Some (head, rest)" and "snake_of head \<noteq> head" and "head \<notin> fst ` set m" and "\<forall>k \<in> fst ` set m. CHR ''_'' \<notin> set k"
  shows "remove_path (JObj (opt_member head (map_option f x) @ m)) path = JObj (opt_member head (map_option (\<lambda>b. remove_path (f b) rest) x) @ m)"
proof -
  have "snake_of head \<notin> fst ` set m" using snake_changes [OF assms(2)] assms(4) by blast
  then have "map_of m head = None" "map_of m (snake_of head) = None" using assms(3) by (simp_all add: map_of_eq_None_iff)
  then show ?thesis using assms(1,2) by (cases x) (simp_all add: remove_path_obj descend_def opt_member_def)
qed

lemma config_left:
  fixes temp thinking mime schema stop :: "json option" and n :: json
  defines "m \<equiv> (''maxOutputTokens'', n) # opt_member ''temperature'' temp @ opt_member ''thinkingConfig'' (map_option (\<lambda>b. JObj [(''thinkingBudget'', b)]) thinking) @
    opt_member ''responseMimeType'' mime @ opt_member ''responseSchema'' schema @ opt_member ''stopSequences'' stop"
  shows "prune (fold (\<lambda>path v. remove_path v path) [''maxOutputTokens'', ''temperature'', ''thinkingConfig.thinkingBudget'', ''responseMimeType'', ''responseSchema'',
    ''stopSequences'', ''candidateCount''] (JObj m)) = JObj []"
proof -
  let ?t = "opt_member ''thinkingConfig'' (map_option (\<lambda>b. JObj [(''thinkingBudget'', b)]) thinking)"
  let ?late = "opt_member ''responseMimeType'' mime @ opt_member ''responseSchema'' schema @ opt_member ''stopSequences'' stop"
  let ?empty = "opt_member ''thinkingConfig'' (map_option (\<lambda>b. JObj []) thinking)"
  have one: "remove_path (remove_path (JObj m) ''maxOutputTokens'') ''temperature'' = JObj (?t @ ?late)"
    by (simp add: m_def remove_plain image_Un)
  have "remove_path (JObj [(''thinkingBudget'', b)]) ''thinkingBudget'' = JObj []" for b by (simp add: remove_plain)
  then have two: "remove_path (JObj (?t @ ?late)) ''thinkingConfig.thinkingBudget'' = JObj (?empty @ ?late)"
    by (subst remove_below [where head = "''thinkingConfig''" and rest = "''thinkingBudget''"]) (simp_all add: snakes image_Un)
  have three: "remove_path (remove_path (remove_path (remove_path (JObj (?empty @ ?late)) ''responseMimeType'') ''responseSchema'') ''stopSequences'') ''candidateCount'' = JObj ?empty"
    by (simp add: remove_plain image_Un)
  show ?thesis by (simp add: one two three) (simp add: opt_member_def split: option.split)
qed

lemma body_left:
  fixes sys tools choice :: "json option" and c cfg :: json
  defines "m \<equiv> (''contents'', c) # (''generationConfig'', cfg) # opt_member ''systemInstruction'' sys @ opt_member ''tools'' tools @ opt_member ''toolConfig'' choice"
  assumes "prune (fold (\<lambda>path v. remove_path v path) [''maxOutputTokens'', ''temperature'', ''thinkingConfig.thinkingBudget'', ''responseMimeType'', ''responseSchema'',
    ''stopSequences'', ''candidateCount''] cfg) = JObj []"
  shows "capture GeminiGenerateContent (JObj m) SUBTRACTED = None"
proof -
  have top: "remove_path (remove_path (remove_path (remove_path (JObj m) ''contents'') ''systemInstruction'') ''tools'') ''toolConfig'' = JObj [(''generationConfig'', cfg)]"
    by (simp add: m_def remove_plain image_Un)
  have gc: "remove_path (JObj [(''generationConfig'', v)]) (''generationConfig.'' @ p) = JObj [(''generationConfig'', remove_path v p)]" for v p
    by (rule remove_within) (simp_all add: snakes(1))
  have model: "remove_path (JObj [(''generationConfig'', v)]) ''model'' = JObj [(''generationConfig'', v)]" for v
    by (simp add: remove_plain)
  note within = gc [of _ "''maxOutputTokens''"] gc [of _ "''temperature''"] gc [of _ "''thinkingConfig.thinkingBudget''"] gc [of _ "''responseMimeType''"]
    gc [of _ "''responseSchema''"] gc [of _ "''stopSequences''"] gc [of _ "''candidateCount''"]
  show ?thesis using assms(2) by (simp add: capture_def SUBTRACTED_def top model within [simplified] Let_def)
qed


lemma gem_config_shape:
  "gem_config S r = JObj ((''maxOutputTokens'', jnat (cr_max_tokens r)) # opt_member ''temperature'' (map_option (of_f32 S) (cr_temperature r)) @
     opt_member ''thinkingConfig'' (map_option (\<lambda>b. JObj [(''thinkingBudget'', b)]) (map_option jnat (asked_budget r))) @
     opt_member ''responseMimeType'' (map_option (\<lambda>f. JStr (if f = FormatText then ''text/plain'' else ''application/json'')) (cr_response_format r)) @
     opt_member ''responseSchema'' (Option.bind (cr_response_format r) (\<lambda>f. case f of FormatJsonSchema _ s _ \<Rightarrow> Some s | _ \<Rightarrow> None)) @
     opt_member ''stopSequences'' (if cr_stop r = [] then None else Some (JArr (map JStr (cr_stop r)))))"
proof -
  let ?m = "(''maxOutputTokens'', jnat (cr_max_tokens r)) # opt_member ''temperature'' (map_option (of_f32 S) (cr_temperature r)) @
     opt_member ''thinkingConfig'' (map_option (\<lambda>b. JObj [(''thinkingBudget'', b)]) (map_option jnat (asked_budget r)))"
  have formatted: "(case cr_response_format r of Some f \<Rightarrow> gem_format f | None \<Rightarrow> (\<lambda>cfg. cfg)) (JObj ?m) =
      set_some ''responseSchema'' (Option.bind (cr_response_format r) (\<lambda>f. case f of FormatJsonSchema _ s _ \<Rightarrow> Some s | _ \<Rightarrow> None))
       (set_some ''responseMimeType'' (map_option (\<lambda>f. JStr (if f = FormatText then ''text/plain'' else ''application/json'')) (cr_response_format r)) (JObj ?m))"
    by (auto simp: gem_format_def set_some_def split: option.split response_format.split)
  have comp: "map_option (\<lambda>b. JObj [(''thinkingBudget'', jnat b)]) (asked_budget r) = map_option (\<lambda>b. JObj [(''thinkingBudget'', b)]) (map_option jnat (asked_budget r))"
    by (simp add: option.map_comp comp_def)
  have "set_some ''thinkingConfig'' (map_option (\<lambda>b. JObj [(''thinkingBudget'', jnat b)]) (asked_budget r))
      (set_some ''temperature'' (map_option (of_f32 S) (cr_temperature r)) (JObj [(''maxOutputTokens'', jnat (cr_max_tokens r))])) = JObj ?m"
    unfolding comp by (simp add: set_some_opt image_Un)
  then show ?thesis unfolding gem_config_def by (simp only: formatted) (simp add: set_when_some set_some_opt image_Un)
qed

lemma gem_body_shape:
  assumes "previous_response_id r = None" and "cr_passthrough r = None"
  shows "gem_render_request S r = Inr (JObj ((''contents'', JArr (map (gem_message (gem_tool_names (cr_messages r))) (cr_messages r))) #
     (''generationConfig'', gem_config S r) #
     opt_member ''systemInstruction'' (if cr_system r = [] then None else
       Some (JObj [(''parts'', JArr [JObj [(''text'', JStr (join_with [CHR 0x0A, CHR 0x0A] (texts (cr_system r))))]])])) @
     opt_member ''tools'' (if cr_tools r = [] then None else Some (JArr [JObj [(''functionDeclarations'', JArr (map gem_tool (cr_tools r)))]])) @
     opt_member ''toolConfig'' (map_option (\<lambda>c. JObj [(''functionCallingConfig'', gem_tool_choice c)]) (cr_tool_choice r))))"
proof -
  have inside: "in_config f (JObj ((''contents'', c) # (''generationConfig'', cfg) # m)) = JObj ((''contents'', c) # (''generationConfig'', f cfg) # m)" for f c cfg m
    by (simp add: in_config_def json_simps set_member_def)
  show ?thesis
    using assms by (simp add: gem_render_request_def Let_def set_when_some set_some_opt image_Un inside gem_config_def)
qed


lemma map_of_opt_member [simp]: "map_of (opt_member k x) k' = (if k' = k then x else None)"
  by (cases x) (simp_all add: opt_member_def)

lemma as_budget_u32: "as_budget e \<le> u32_max"
  by (cases e) (simp_all add: u32_max_def)

lemma gem_config_back:
  assumes "cr_max_tokens r \<le> u32_max" and "\<forall>t. cr_temperature r = Some t \<longrightarrow> as_f32 S (of_f32 S t) = Some t"
    and "\<forall>b. thinking_budget r = Some b \<longrightarrow> b \<le> u32_max" and "\<forall>n s k. cr_response_format r = Some (FormatJsonSchema n s k) \<longrightarrow> s \<noteq> JNull"
  defines "cfg \<equiv> gem_config S r"
  shows "as_u64 (gem_field cfg ''maxOutputTokens'') = Some (cr_max_tokens r)" and "as_f32 S (gem_field cfg ''temperature'') = cr_temperature r"
    and "gem_parse_budget cfg = asked_budget r" and "gem_foreign_level cfg = None" and "gem_parse_format cfg = map_option gem_format_kept (cr_response_format r)"
    and "List.map_filter as_str (items (gem_field cfg ''stopSequences'')) = cr_stop r"
proof -
  have one: "one_spelling cfg" unfolding cfg_def gem_config_shape by (auto simp: one_spelling_def get_member_def map_add_def split: option.split)
  have idx: "idx cfg ''maxOutputTokens'' = jnat (cr_max_tokens r)"
    "idx cfg ''temperature'' = (case cr_temperature r of Some t \<Rightarrow> of_f32 S t | None \<Rightarrow> JNull)"
    "idx cfg ''thinkingConfig'' = (case asked_budget r of Some b \<Rightarrow> JObj [(''thinkingBudget'', jnat b)] | None \<Rightarrow> JNull)"
    "idx cfg ''responseMimeType'' = (case cr_response_format r of Some f \<Rightarrow> JStr (if f = FormatText then ''text/plain'' else ''application/json'') | None \<Rightarrow> JNull)"
    "idx cfg ''responseSchema'' = (case cr_response_format r of Some (FormatJsonSchema _ s _) \<Rightarrow> s | _ \<Rightarrow> JNull)"
    "idx cfg ''stopSequences'' = (if cr_stop r = [] then JNull else JArr (map JStr (cr_stop r)))"
    unfolding cfg_def gem_config_shape by (auto simp: json_simps map_add_def split: option.split response_format.split)
  have budget: "b \<le> u32_max" if "asked_budget r = Some b" for b
    using that assms(3) by (auto simp: asked_budget_def as_budget_u32 split: option.splits)
  show "as_u64 (gem_field cfg ''maxOutputTokens'') = Some (cr_max_tokens r)"
    using u32_fits_u64 [OF assms(1)] by (simp add: gem_field_spelled one idx json_simps)
  show "as_f32 S (gem_field cfg ''temperature'') = cr_temperature r"
    using assms(2) by (simp add: gem_field_spelled one idx as_f32_def split: option.split)
  show "gem_parse_budget cfg = asked_budget r"
    using budget u32_fits_u64 by (auto simp: gem_parse_budget_def gem_field_spelled one idx json_simps u32_try_from_def split: option.split)
  show "gem_foreign_level cfg = None"
    by (auto simp: gem_foreign_level_def gem_field_spelled one idx json_simps split: option.split)
  show "gem_parse_format cfg = map_option gem_format_kept (cr_response_format r)"
    using assms(4) by (auto simp: gem_parse_format_def gem_field_spelled one idx json_simps gem_format_kept_def split: option.splits response_format.splits json.splits)
  show "List.map_filter as_str (items (gem_field cfg ''stopSequences'')) = cr_stop r"
    by (auto simp: gem_field_spelled one idx json_simps map_filter_map map_filter_all)
qed

text \<open>
  C27. A request rendered for a Gemini upstream keeps its conversation, for requests that carry no vendor's
  fields of their own, a schema that is not null, counts in range and a temperature the serialiser reads back. Read back, the turns are there in order,
  except that reasoning, which the dialect cannot replay, is left out, and with it a turn that holds
  nothing else; each turn has its words, its pictures, its calls under their functions' names, and its results, as text,
  each under the name of the function it answers: the name in the last call the conversation made
  under the result's id, or the id up to its number sign when it made none. A turn that is not the
  assistant's is read as the user's, and a result's error mark and its pictures are not kept.
  Every limit, switch and format the dialect has a member for is unchanged, the
  depth of reasoning as its budget, a schema under the dialect's one name for it; nothing is left over
  as a vendor's field; and the one thing the dialect cannot say, the response it continues, is refused by name.
\<close>

theorem gemini_request_keeps_the_conversation:
  fixes r :: canonical_request
  assumes "cr_max_tokens r \<le> u32_max" and "\<forall>t. cr_temperature r = Some t \<longrightarrow> as_f32 S (of_f32 S t) = Some t"
    and "\<forall>b. thinking_budget r = Some b \<longrightarrow> b \<le> u32_max" and "\<forall>n s k. cr_response_format r = Some (FormatJsonSchema n s k) \<longrightarrow> s \<noteq> JNull"
    and "cr_passthrough r = None"
  shows "(case gem_render_request S r of
      Inl e \<Rightarrow> e = UnsupportedField ''previous_response_id'' GeminiGenerateContent \<and> previous_response_id r \<noteq> None
    | Inr body \<Rightarrow> previous_response_id r = None \<and> gem_parse_request S body = Inr (r\<lparr>cr_model := [],
        cr_system := (if cr_system r = [] then [] else [Text (join_with [CHR 0x0A, CHR 0x0A] (texts (cr_system r))) None]),
        cr_messages := List.map_filter (gem_heard (function_answered (cr_messages r))) (cr_messages r),
        cr_tools := map (\<lambda>t. t\<lparr>tool_cache_control := None\<rparr>) (cr_tools r), cr_stream := False,
        thinking_budget := asked_budget r, thinking_effort := map_option from_budget (asked_budget r), cr_client_session := None,
        cr_response_format := map_option gem_format_kept (cr_response_format r)\<rparr>))"
proof (cases "previous_response_id r")
  case (Some i)
  then show ?thesis by (simp add: gem_render_request_def Let_def)
next
  case None
  define body where "body = projr (gem_render_request S r)"
  note shape = gem_body_shape [OF None assms(5), of S]
  have body: "gem_render_request S r = Inr body" by (simp add: body_def shape)
  have one: "one_spelling body" unfolding body_def shape by (auto simp: one_spelling_def get_member_def map_add_def split: option.split)
  have idx: "idx body ''contents'' = JArr (map (gem_message (gem_tool_names (cr_messages r))) (cr_messages r))"
    "idx body ''generationConfig'' = gem_config S r"
    "idx body ''systemInstruction'' = (if cr_system r = [] then JNull else
       JObj [(''parts'', JArr [JObj [(''text'', JStr (join_with [CHR 0x0A, CHR 0x0A] (texts (cr_system r))))]])])"
    "idx body ''tools'' = (if cr_tools r = [] then JNull else JArr [JObj [(''functionDeclarations'', JArr (map gem_tool (cr_tools r)))]])"
    "idx body ''toolConfig'' = (case cr_tool_choice r of Some c \<Rightarrow> JObj [(''functionCallingConfig'', gem_tool_choice c)] | None \<Rightarrow> JNull)"
    unfolding body_def shape by (auto simp: json_simps map_add_def split: option.split)
  have left: "capture GeminiGenerateContent body SUBTRACTED = None"
    unfolding body_def shape sum.sel by (rule body_left) (unfold gem_config_shape, rule config_left)
  have choice: "gem_parse_tool_choice (gem_field (gem_field body ''toolConfig'') ''functionCallingConfig'') = cr_tool_choice r"
    by (simp add: gem_field_spelled one idx json_simps gem_choice_back split: option.split)
  have tools: "List.map_filter gem_parse_tool (concat (List.map_filter (\<lambda>e. as_array (gem_field e ''functionDeclarations'')) (items (gem_field body ''tools'')))) =
      map (\<lambda>t. t\<lparr>tool_cache_control := None\<rparr>) (cr_tools r)"
    by (simp add: gem_field_spelled one idx json_simps List.map_filter_simps map_filter_map gem_tool_back map_filter_all)
  have system: "map (\<lambda>t. Text t None) (List.map_filter (\<lambda>p. as_str (gem_field p ''text'')) (items (gem_field (gem_field body ''systemInstruction'') ''parts''))) =
      (if cr_system r = [] then [] else [Text (join_with [CHR 0x0A, CHR 0x0A] (texts (cr_system r))) None])"
    by (simp add: gem_field_spelled one idx json_simps List.map_filter_simps)
  have turns: "List.map_filter (gem_parse_content S) (items (gem_field body ''contents'')) = List.map_filter (gem_heard (function_answered (cr_messages r))) (cr_messages r)"
    by (simp add: gem_field_spelled one idx json_simps map_filter_map gem_message_back called_is_answered)
  have cfg: "gem_field body ''generationConfig'' = gem_config S r" by (simp add: gem_field_spelled one idx)
  note config = gem_config_back [OF assms(1-4)]
  have "gem_parse_request S body = Inr (r\<lparr>cr_model := [],
      cr_system := (if cr_system r = [] then [] else [Text (join_with [CHR 0x0A, CHR 0x0A] (texts (cr_system r))) None]),
      cr_messages := List.map_filter (gem_heard (function_answered (cr_messages r))) (cr_messages r),
      cr_tools := map (\<lambda>t. t\<lparr>tool_cache_control := None\<rparr>) (cr_tools r), cr_stream := False,
      thinking_budget := asked_budget r, thinking_effort := map_option from_budget (asked_budget r), cr_client_session := None,
      cr_response_format := map_option gem_format_kept (cr_response_format r)\<rparr>)"
    unfolding gem_parse_request_def Let_def system turns tools cfg choice config
    using None assms(1,5) left by (cases "asked_budget r") (auto simp: u32_try_from_fits)
  with None body show ?thesis by simp
qed

theorem gemini_request_keeps_the_conversation_witness:
  "\<exists>body r'. gem_render_request tiny_serde spoken_request = Inr body \<and> gem_parse_request tiny_serde body = Inr r' \<and>
     msg_content (last (cr_messages r')) = [ToolResult ''look'' (ResultText ''ok'') False] \<and> cr_stop r' = [''END'']"
proof -
  have "cr_max_tokens spoken_request \<le> u32_max" "cr_passthrough spoken_request = None" "previous_response_id spoken_request = None"
    "\<forall>t. cr_temperature spoken_request = Some t \<longrightarrow> as_f32 tiny_serde (of_f32 tiny_serde t) = Some t"
    "\<forall>b. thinking_budget spoken_request = Some b \<longrightarrow> b \<le> u32_max" "\<forall>n s k. cr_response_format spoken_request = Some (FormatJsonSchema n s k) \<longrightarrow> s \<noteq> JNull"
    by (simp_all add: spoken_request_def u32_max_def tiny_serde_def as_f32_def)
  moreover have "List.map_filter (gem_heard (function_answered (cr_messages spoken_request))) (cr_messages spoken_request) \<noteq> []"
    "msg_content (last (List.map_filter (gem_heard (function_answered (cr_messages spoken_request))) (cr_messages spoken_request))) = [ToolResult ''look'' (ResultText ''ok'') False]"
    by (simp_all add: spoken_request_def gem_tool_names_def flat_def List.map_filter_simps gem_heard_def gem_heard_block_def function_answered_def Let_def)
  moreover have "cr_stop spoken_request = [''END'']" by (simp add: spoken_request_def)
  ultimately show ?thesis
    using gemini_request_keeps_the_conversation [of spoken_request tiny_serde] by (auto split: sum.splits)
qed

end
