(* ===== verification/Gemini_Stream.thy ===== *)
theory Gemini_Stream
  imports Gemini Completions_Stream Responses_Stream "HOL-Library.Multiset"
begin

text \<open>
  Responses of the Gemini dialect (\<^verbatim>\<open>oag-proto/src/gemini.rs\<close>): chunks and whole bodies, which have one
  shape, read into canonical events; canonical events written as chunks, each call whole; and the
  conversion of the hub's message. Sums of token counts wrap at 64 bits where the code adds plainly and
  saturate where it says so.
\<close>

subsection \<open>Reading\<close>

definition gem_parse_usage :: "json \<Rightarrow> usage" where
  "gem_parse_usage v =
     (let cached = u64_or 0 (idx v ''cachedContentTokenCount'') in
      \<lparr>input_tokens = u64_or 0 (idx v ''promptTokenCount'') - cached, output_tokens = u64_or 0 (idx v ''candidatesTokenCount''),
       cache_read_tokens = cached, cache_write_tokens = 0\<rparr>)"

definition gem_words :: "json \<Rightarrow> stream_event list" where
  "gem_words part = opt_event (if bool_or False (idx part ''thought'') then ThinkingDelta else TextDelta) (as_str (idx part ''text''))"

definition gem_call_events :: "serde \<Rightarrow> json \<Rightarrow> nat \<Rightarrow> stream_event list" where
  "gem_call_events S call calls =
     (let name = str_or [] (idx call ''name''); tid = gem_call_id name calls in
      [ToolUseStart tid name, ToolUseDelta tid (to_text S (idx call ''args'')), ToolUseEnd tid])"

fun gem_parts :: "serde \<Rightarrow> json list \<Rightarrow> nat \<Rightarrow> stream_event list \<times> nat" where
  "gem_parts S [] calls = ([], calls)"
| "gem_parts S (part # parts) calls =
     (case get_member part ''functionCall'' of
        None \<Rightarrow> (case gem_parts S parts calls of (later, n) \<Rightarrow> (gem_words part @ later, n))
      | Some call \<Rightarrow> (case gem_parts S parts (calls + 1) of (later, n) \<Rightarrow> (gem_words part @ gem_call_events S call calls @ later, n)))"

definition gem_reason :: "string \<Rightarrow> nat \<Rightarrow> stop_reason" where
  "gem_reason reason calls =
     (if reason = ''MAX_TOKENS'' then MaxTokens
      else if reason = ''SAFETY'' \<or> reason = ''PROHIBITED_CONTENT'' \<or> reason = ''BLOCKLIST'' then StopRefusal
      else if calls > 0 then StopToolUse
      else EndTurn)"

definition gem_parse_chunk :: "serde \<Rightarrow> json \<Rightarrow> nat \<Rightarrow> stream_event list" where
  "gem_parse_chunk S v prior_calls =
     (let usage = map_option gem_parse_usage (get_member v ''usageMetadata'');
          events = (case usage of Some u \<Rightarrow> [UsageUpdate u] | None \<Rightarrow> []) in
      case items (idx v ''candidates'') of
        [] \<Rightarrow> events
      | candidate # _ \<Rightarrow>
          (case gem_parts S (items (idx (idx candidate ''content'') ''parts'')) prior_calls of (spoken, calls) \<Rightarrow>
            events @ spoken @
            (case nonempty (as_str (idx candidate ''finishReason'')) of
               Some reason \<Rightarrow> [Stop (gem_reason reason calls) (case usage of Some u \<Rightarrow> u | None \<Rightarrow> usage_default)]
             | None \<Rightarrow> [])))"

definition tool_call_count :: "accumulator \<Rightarrow> nat" where
  "tool_call_count acc = tool_calls acc"

definition gem_parse_event :: "serde \<Rightarrow> string \<Rightarrow> accumulator \<Rightarrow> error + stream_event list" where
  "gem_parse_event S payload acc =
     (case from_text S payload of Inl e \<Rightarrow> Inl (Serde e) | Inr v \<Rightarrow> Inr (gem_parse_chunk S v (tool_call_count acc)))"

definition gem_parse_response :: "serde \<Rightarrow> json \<Rightarrow> stream_event list" where
  "gem_parse_response S v = gem_parse_chunk S v 0"

subsection \<open>Writing\<close>

record gem_pending =
  gp_id :: string
  gp_name :: string
  gp_args :: string

record gem_render =
  ge_usage :: usage
  ge_finished :: bool
  ge_pending :: "gem_pending list"

definition gem_render_new :: gem_render where
  "gem_render_new = \<lparr>ge_usage = usage_default, ge_finished = False, ge_pending = []\<rparr>"

definition gem_pending_part :: "serde \<Rightarrow> gem_pending \<Rightarrow> json" where
  "gem_pending_part S c = JObj [(''functionCall'', JObj [(''name'', JStr (gp_name c)), (''args'', parsed_or S (JObj []) (gp_args c))])]"

fun take_pending :: "string \<Rightarrow> gem_pending list \<Rightarrow> (gem_pending \<times> gem_pending list) option" where
  "take_pending tid [] = None"
| "take_pending tid (c # cs) = (if gp_id c = tid then Some (c, cs) else map_option (apsnd ((#) c)) (take_pending tid cs))"

fun push_pending :: "string \<Rightarrow> string \<Rightarrow> gem_pending list \<Rightarrow> gem_pending list" where
  "push_pending tid s [] = [\<lparr>gp_id = tid, gp_name = tid, gp_args = s\<rparr>]"
| "push_pending tid s (c # cs) = (if gp_id c = tid then c\<lparr>gp_args := gp_args c @ s\<rparr> # cs else c # push_pending tid s cs)"

definition gem_usage :: "nat \<Rightarrow> nat \<Rightarrow> nat \<Rightarrow> nat \<Rightarrow> json" where
  "gem_usage prompt cached candidates all_tokens =
     JObj [(''promptTokenCount'', jnat prompt), (''cachedContentTokenCount'', jnat cached), (''candidatesTokenCount'', jnat candidates),
       (''totalTokenCount'', jnat all_tokens)]"

definition gem_usage_of :: "usage \<Rightarrow> json" where
  "gem_usage_of u = gem_usage (wrap64 (input_tokens u + cache_read_tokens u + cache_write_tokens u)) (cache_read_tokens u) (output_tokens u) (total u)"

definition gem_chunk :: "json list \<Rightarrow> string option \<Rightarrow> gem_render \<Rightarrow> json" where
  "gem_chunk parts finish st =
     (let candidate = set_some ''finishReason'' (map_option JStr finish)
            (JObj [(''content'', JObj [(''role'', JStr ''model''), (''parts'', JArr parts)]), (''index'', jnat 0)]) in
      JObj [(''candidates'', JArr [candidate]), (''usageMetadata'', gem_usage_of (ge_usage st))])"

definition gem_finish :: "stop_reason \<Rightarrow> string" where
  "gem_finish reason = (case reason of MaxTokens \<Rightarrow> ''MAX_TOKENS'' | StopRefusal \<Rightarrow> ''SAFETY'' | _ \<Rightarrow> ''STOP'')"

fun gem_render_event :: "serde \<Rightarrow> stream_event \<Rightarrow> gem_render \<Rightarrow> json list \<times> gem_render" where
  "gem_render_event S (Start _ u) st = ([], st\<lparr>ge_usage := merge (ge_usage st) u\<rparr>)"
| "gem_render_event S (UsageUpdate u) st = ([], st\<lparr>ge_usage := merge (ge_usage st) u\<rparr>)"
| "gem_render_event S (TextDelta t) st = ([gem_chunk [JObj [(''text'', JStr t)]] None st], st)"
| "gem_render_event S (ThinkingDelta t) st = ([gem_chunk [JObj [(''text'', JStr t), (''thought'', JBool True)]] None st], st)"
| "gem_render_event S (ToolUseStart tid name) st =
     ([], st\<lparr>ge_pending := ge_pending st @ [\<lparr>gp_id = tid, gp_name = name, gp_args = []\<rparr>]\<rparr>)"
| "gem_render_event S (ToolUseDelta tid partial_json) st = ([], st\<lparr>ge_pending := push_pending tid partial_json (ge_pending st)\<rparr>)"
| "gem_render_event S (ToolUseEnd tid) st =
     (case take_pending tid (ge_pending st) of
        None \<Rightarrow> ([], st)
      | Some (call, rest) \<Rightarrow> let st = st\<lparr>ge_pending := rest\<rparr> in ([gem_chunk [gem_pending_part S call] None st], st))"
| "gem_render_event S (Stop reason u) st =
     (if ge_finished st then ([], st)
      else
        let st = st\<lparr>ge_finished := True, ge_usage := merge (ge_usage st) u\<rparr>;
            parts = map (gem_pending_part S) (ge_pending st);
            st = st\<lparr>ge_pending := []\<rparr> in
        ([gem_chunk parts (Some (gem_finish reason)) st], st))"
| "gem_render_event S (EventError message) st =
     ([JObj [(''error'', JObj [(''code'', jnat 500), (''message'', JStr message), (''status'', JStr ''INTERNAL'')])]], st)"

subsection \<open>From the hub\<close>

definition gem_hub_part :: "json \<Rightarrow> json list" where
  "gem_hub_part block =
     (let t = str_or [] (idx block ''type'') in
      if t = ''text'' then [JObj [(''text'', idx block ''text'')]]
      else if t = ''thinking'' then [JObj [(''text'', idx block ''thinking''), (''thought'', JBool True)]]
      else if t = ''tool_use'' then [JObj [(''functionCall'', JObj [(''name'', idx block ''name''), (''args'', idx block ''input'')])]]
      else [])"

definition render_message_response :: "json \<Rightarrow> json" where
  "render_message_response anthropic =
     (let parts = concat (map gem_hub_part (items (idx anthropic ''content'')));
          u = idx anthropic ''usage'';
          input = u64_or 0 (idx u ''input_tokens'');
          cached = u64_or 0 (idx u ''cache_read_input_tokens'');
          written = u64_or 0 (idx u ''cache_creation_input_tokens'');
          out = u64_or 0 (idx u ''output_tokens'');
          stop = str_or ''end_turn'' (idx anthropic ''stop_reason'');
          finish = (if stop = ''max_tokens'' then ''MAX_TOKENS'' else if stop = ''refusal'' then ''SAFETY'' else ''STOP'') in
      JObj [(''candidates'', JArr [JObj [(''content'', JObj [(''role'', JStr ''model''), (''parts'', JArr parts)]),
          (''finishReason'', JStr finish), (''index'', jnat 0)]]),
        (''usageMetadata'', gem_usage (wrap64 (input + cached + written)) cached out (wrap64 (input + cached + written + out)))])"

subsection \<open>Numbered calls\<close>

text \<open>What a reader calls the calls of one response, and how it hears their arguments: as text of the value.\<close>

definition gem_said :: "serde \<Rightarrow> string \<times> string \<times> string \<Rightarrow> string \<times> string" where
  "gem_said S call = (case call of (_, name, args) \<Rightarrow> (name, to_text S (parsed_or S (JObj []) args)))"

definition gem_numbered :: "nat \<Rightarrow> (string \<times> string) list \<Rightarrow> (string \<times> string \<times> string) list" where
  "gem_numbered n calls = map (\<lambda>(i, name, args). (gem_call_id name i, name, args)) (enumerate n calls)"

lemma gem_numbered_simps [simp]: "gem_numbered n [] = []" "gem_numbered n ((name, args) # calls) = (gem_call_id name n, name, args) # gem_numbered (n + 1) calls"
  by (simp_all add: gem_numbered_def)

lemma gem_numbered_append: "gem_numbered n (xs @ ys) = gem_numbered n xs @ gem_numbered (n + length xs) ys"
  by (simp add: gem_numbered_def enumerate_append_eq)

lemma gem_numbered_snd [simp]: "map snd (gem_numbered n calls) = calls"
  by (induction calls arbitrary: n) auto

lemma length_numbered [simp]: "length (gem_numbered n calls) = length calls"
  by (simp add: gem_numbered_def)

lemma gem_numbered_empty [simp]: "gem_numbered n calls = [] \<longleftrightarrow> calls = []"
  by (metis length_0_conv length_numbered)

lemma gem_call_id_inj:
  assumes "CHR ''#'' \<notin> set x" and "CHR ''#'' \<notin> set y" and "gem_call_id x m = gem_call_id y n"
  shows "m = n"
proof (cases "m = 0 \<or> n = 0")
  case True
  then show ?thesis using assms by (auto simp: gem_call_id_def split: if_splits)
next
  case False
  moreover have "x = y" using assms gem_call_id_back by metis
  ultimately show ?thesis using assms(3) show_nat_inj by (simp add: gem_call_id_def)
qed

lemma gem_numbered_distinct:
  "\<forall>(name, _) \<in> set calls. CHR ''#'' \<notin> set name \<Longrightarrow> distinct (map fst (gem_numbered n calls))"
proof (induction calls arbitrary: n)
  case (Cons call calls)
  obtain name args where call: "call = (name, args)" by force
  have "gem_call_id name n \<notin> fst ` set (gem_numbered (n + 1) calls)"
  proof
    assume "gem_call_id name n \<in> fst ` set (gem_numbered (n + 1) calls)"
    then obtain i other rest where i: "(i, other, rest) \<in> set (enumerate (n + 1) calls)" "gem_call_id name n = gem_call_id other i"
      by (auto simp: gem_numbered_def)
    then have "n + 1 \<le> i" by (simp add: in_set_enumerate_eq)
    moreover have "(other, rest) \<in> snd ` set (enumerate (n + 1) calls)" using i(1) by force
    then have "(other, rest) \<in> set calls" by (metis list.set_map map_snd_enumerate)
    ultimately show False using Cons.prems i(2) gem_call_id_inj [of name other n i] by (auto simp: call)
  qed
  with Cons show ?case by (simp add: call)
qed simp


subsection \<open>What a chunk says\<close>

text \<open>Every chunk holds parts as the hub's blocks give them.\<close>

definition gem_block :: "serde \<Rightarrow> open_block \<Rightarrow> json" where
  "gem_block S b =
     (case b of
        OpenText t \<Rightarrow> JObj [(''text'', JStr t)]
      | OpenThinking t \<Rightarrow> JObj [(''text'', JStr t), (''thought'', JBool True)]
      | OpenTool _ name args \<Rightarrow> JObj [(''functionCall'', JObj [(''name'', JStr name), (''args'', parsed_or S (JObj []) args)])])"

lemma gem_hub_block: "gem_hub_part (into_json S b) = [gem_block S b]"
  by (cases b) (simp_all add: gem_hub_part_def into_json_def gem_block_def json_simps)

lemma gem_pending_block: "gem_pending_part S c = gem_block S (OpenTool (gp_id c) (gp_name c) (gp_args c))"
  by (simp add: gem_pending_part_def gem_block_def)

definition gem_block_events :: "serde \<Rightarrow> open_block \<Rightarrow> nat \<Rightarrow> stream_event list" where
  "gem_block_events S b n =
     (case b of
        OpenText t \<Rightarrow> opt_event TextDelta (Some t)
      | OpenThinking t \<Rightarrow> opt_event ThinkingDelta (Some t)
      | OpenTool tid name args \<Rightarrow> (let args = snd (gem_said S (tid, name, args)); k = gem_call_id name n in [ToolUseStart k name, ToolUseDelta k args, ToolUseEnd k]))"

lemma gem_parts_cons:
  "gem_parts S (gem_block S b # parts) n =
     (case gem_parts S parts (n + length (block_call b)) of (later, m) \<Rightarrow> (gem_block_events S b n @ later, m))"
  by (cases b)
    (simp_all add: gem_block_def gem_block_events_def gem_words_def gem_call_events_def json_simps get_member_def block_call_def gem_said_def opt_event_def
      nonempty_def Let_def split: prod.split)

declare gem_parts.simps(2) [simp del]

lemma gem_hear_block:
  assumes "distinct (map fst (an_calls x @ gem_numbered n (map (gem_said S) (block_call b))))"
  shows "fold (hear w c) (gem_block_events S b n) x = x\<lparr>an_text := an_text x @ block_text b, an_thinking := an_thinking x @ block_thinking b,
    an_calls := an_calls x @ gem_numbered n (map (gem_said S) (block_call b))\<rparr>"
proof (cases b)
  case (OpenTool tid name args)
  let ?args = "to_text S (parsed_or S (JObj []) args)"
  have "fold (hear w c) [ToolUseStart (gem_call_id name n) name, ToolUseDelta (gem_call_id name n) ?args, ToolUseEnd (gem_call_id name n)] x =
      x\<lparr>an_calls := an_calls x @ [(gem_call_id name n, name, ?args)]\<rparr>"
    using hear_calls [of x "[(gem_call_id name n, name, ?args)]" w c] assms by (simp add: OpenTool block_call_def gem_said_def)
  then show ?thesis using OpenTool by (simp add: gem_block_events_def gem_said_def block_parts Let_def)
qed (simp_all add: gem_block_events_def block_parts opt_event_def nonempty_def split: list.split)

definition gem_calls :: "serde \<Rightarrow> open_block list \<Rightarrow> (string \<times> string) list" where
  "gem_calls S bs = map (gem_said S) (concat (map block_call bs))"

lemma gem_calls_simps [simp]: "gem_calls S [] = []" "gem_calls S (b # bs) = map (gem_said S) (block_call b) @ gem_calls S bs"
  by (simp_all add: gem_calls_def)

lemma gem_parts_told:
  "distinct (map fst (an_calls x @ gem_numbered n (gem_calls S bs))) \<Longrightarrow>
   fold (hear w c) (fst (gem_parts S (map (gem_block S) bs) n)) x = x\<lparr>an_text := an_text x @ concat (map block_text bs),
      an_thinking := an_thinking x @ concat (map block_thinking bs), an_calls := an_calls x @ gem_numbered n (gem_calls S bs)\<rparr>"
proof (induction bs arbitrary: x n)
  case (Cons b bs)
  let ?x = "fold (hear w c) (gem_block_events S b n) x"
  have one: "?x = x\<lparr>an_text := an_text x @ block_text b, an_thinking := an_thinking x @ block_thinking b,
      an_calls := an_calls x @ gem_numbered n (map (gem_said S) (block_call b))\<rparr>"
    using Cons.prems by (intro gem_hear_block) (auto simp: gem_numbered_append)
  have "distinct (map fst (an_calls ?x @ gem_numbered (n + length (block_call b)) (gem_calls S bs)))"
    using Cons.prems by (simp add: one gem_numbered_append)
  from Cons.IH [OF this] one show ?case by (simp add: gem_parts_cons gem_numbered_append split_beta)
qed simp

lemma gem_parts_count: "snd (gem_parts S (map (gem_block S) bs) n) = n + length (gem_calls S bs)"
  by (induction bs arbitrary: n) (simp_all add: gem_parts_cons split_beta)

lemma gem_parts_observed:
  "tool_calls acc + length (gem_calls S bs) \<le> usize_max \<Longrightarrow>
   tool_calls (observe_all (fst (gem_parts S (map (gem_block S) bs) n)) acc) = tool_calls acc + length (gem_calls S bs)"
proof (induction bs arbitrary: n acc)
  case (Cons b bs)
  have "tool_calls (observe_all (gem_block_events S b n) acc) = tool_calls acc + length (block_call b)"
    using Cons.prems by (cases b) (simp_all add: gem_block_events_def observe_all_def block_call_def opt_event_def nonempty_def sat_add_def Let_def split: list.split)
  with Cons.IH [of "observe_all (gem_block_events S b n) acc" "n + length (block_call b)"] Cons.prems show ?case
    by (simp add: gem_parts_cons observe_all_def split_beta)
qed (simp add: observe_all_def)

text \<open>The reader the gateway has for this dialect, from chunk to chunk.\<close>

definition read_gem :: "serde \<Rightarrow> json \<Rightarrow> accumulator \<times> answer \<Rightarrow> (accumulator \<times> answer) option" where
  "read_gem S v cl = (case cl of (acc, a) \<Rightarrow>
     let evs = gem_parse_chunk S v (tool_call_count acc) in Some (observe_all evs acc, fold (hear same_word id) evs a))"

lemma gem_usage_told:
  assumes "usage_small u"
  shows "gem_parse_usage (gem_usage_of u) = chat_counts u"
proof -
  have "usage_fits u" using assms by (rule small_fits)
  then show ?thesis using small_prompt [OF assms]
    by (cases u) (simp add: gem_parse_usage_def gem_usage_of_def gem_usage_def json_simps usage_fits_def chat_counts_def)
qed

lemma gem_chunk_read:
  assumes "usage_small (ge_usage st)" and "tool_calls acc = length (an_calls a)" and "an_calls a = gem_numbered 0 (map snd (an_calls a))"
    and "length (an_calls a) + length (gem_calls S bs) \<le> usize_max" and "\<forall>(name, _) \<in> set (map snd (an_calls a) @ gem_calls S bs). CHR ''#'' \<notin> set name"
    and "finish \<noteq> Some []" and "an_stop a = None"
  shows "\<exists>acc'. read_gem S (gem_chunk (map (gem_block S) bs) finish st) (acc, a) = Some (acc',
      let used = merge (an_running a) (chat_counts (ge_usage st));
          b = a\<lparr>an_text := an_text a @ concat (map block_text bs), an_thinking := an_thinking a @ concat (map block_thinking bs),
            an_calls := gem_numbered 0 (map snd (an_calls a) @ gem_calls S bs), an_running := used\<rparr> in
      case finish of None \<Rightarrow> b | Some f \<Rightarrow> b\<lparr>an_stop := Some (gem_reason f (length (an_calls b))), an_usage := Some used\<rparr>) \<and>
    tool_calls acc' = length (an_calls a) + length (gem_calls S bs)"
proof -
  let ?n = "length (an_calls a)" and ?u = "chat_counts (ge_usage st)"
  let ?evs = "fst (gem_parts S (map (gem_block S) bs) ?n)"
  define stop where "stop = (case finish of None \<Rightarrow> [] | Some f \<Rightarrow> [Stop (gem_reason f (?n + length (gem_calls S bs))) ?u])"
  have chunk: "gem_parse_chunk S (gem_chunk (map (gem_block S) bs) finish st) ?n = UsageUpdate ?u # ?evs @ stop"
    using assms(6) gem_parts_count [of S bs ?n] unfolding stop_def
    by (cases finish) (auto simp: gem_parse_chunk_def gem_chunk_def json_simps get_member_def gem_usage_told [OF assms(1)] nonempty_Some split_beta Let_def)
  let ?a = "a\<lparr>an_running := merge (an_running a) ?u\<rparr>"
  have numbered: "an_calls a @ gem_numbered ?n (gem_calls S bs) = gem_numbered 0 (map snd (an_calls a) @ gem_calls S bs)"
    using assms(3) by (simp add: gem_numbered_append)
  have "distinct (map fst (an_calls ?a @ gem_numbered ?n (gem_calls S bs)))"
    using gem_numbered_distinct [OF assms(5), of 0] by (simp add: numbered flip: map_append)
  note said = gem_parts_told [OF this, of same_word id]
  have twice: "merge (merge x y) y = merge x y" for x y by (simp add: merge_def)
  let ?acc = "observe_all (UsageUpdate ?u # ?evs @ stop) acc"
  have "tool_calls ?acc = ?n + length (gem_calls S bs)"
    using gem_parts_observed [of "acc\<lparr>acc_usage := merge (acc_usage acc) ?u\<rparr>" S bs ?n] assms(2,4)
    by (simp add: observe_all_def stop_def split: option.split)
  moreover have "read_gem S (gem_chunk (map (gem_block S) bs) finish st) (acc, a) = Some (?acc, fold (hear same_word id) stop (fold (hear same_word id) ?evs ?a))"
    by (simp add: read_gem_def tool_call_count_def assms(2) chunk Let_def)
  ultimately show ?thesis
    using assms(7) by (auto simp: said numbered stop_def twice same_word_def Let_def length_numbered split: option.split)
qed


subsection \<open>Collected answers\<close>

lemma gem_reason_said: "gem_reason (gem_finish r) n = resp_word (n > 0) r"
  by (cases r) (simp_all add: gem_reason_def gem_finish_def resp_word_spec)

text \<open>
  A collected answer tells a Gemini client what its events said: the body it is converted into through the
  hub, read back, holds the same text and reasoning, every call in order under its function's name with
  an id of its own and the value of its arguments, and the reason and the usage as the dialect can say them.
\<close>

theorem gemini_collected_answer:
  fixes evs :: "stream_event list"
  defines "a \<equiv> fold (hear same_word id) evs nothing_said"
  assumes "tellable in_order_step evs in_order_new" and "\<forall>ev \<in> set evs. \<forall>u. reported_usage ev = Some u \<longrightarrow> usage_small u"
    and "\<forall>(_, name, _) \<in> set (an_calls a). CHR ''#'' \<notin> set name" and "an_stop a = Some reason"
  shows "fold (hear same_word id) (gem_parse_response S (render_message_response (render_from_events S evs rid model))) nothing_said =
    a\<lparr>an_calls := gem_numbered 0 (map (gem_said S) (an_calls a)), an_stop := Some (resp_word (an_calls a \<noteq> []) reason),
      an_usage := Some (chat_counts (an_running a)), an_running := chat_counts (an_running a)\<rparr>"
proof -
  define hub where "hub = render_from_events S evs rid model"
  note hub = hub_says(1-4,7) [OF assms(2,3), folded a_def, OF assms(5), of S rid model, folded hub_def]
  note ans = hub_says(5,6,8) [OF assms(2,3), folded a_def, OF assms(5)]
  obtain bs where bs: "items (idx hub ''content'') = map (into_json S) bs" "an_calls a = concat (map block_call bs)" using hub(1) by blast
  have words: "concat (map block_text bs) = an_text a" "concat (map block_thinking bs) = an_thinking a"
    using hub(2,3) by (simp_all add: bs(1) comp_def hub_block_words)
  have calls: "gem_calls S bs = map (gem_said S) (an_calls a)" by (simp add: gem_calls_def bs(2))
  have parts: "concat (map gem_hub_part (items (idx hub ''content''))) = map (gem_block S) bs"
    unfolding bs(1) by (induction bs) (simp_all add: gem_hub_block)
  let ?u = "chat_counts (an_running a)"
  have usage: "gem_parse_usage (idx (render_message_response hub) ''usageMetadata'') = ?u"
    using ans(1,2) small_prompt [OF ans(1)]
    by (cases "an_running a") (simp add: render_message_response_def Let_def json_simps hub(4) usage_json_def usage_fits_def gem_parse_usage_def gem_usage_def chat_counts_def)
  have finish: "as_str (idx (hd (items (idx (render_message_response hub) ''candidates''))) ''finishReason'') = Some (gem_finish reason)"
    by (cases reason) (auto simp: render_message_response_def Let_def json_simps hub(5) settled_stop_def stop_reason_str_def assms(5) gem_finish_def)
  have "gem_parse_response S (render_message_response hub) = [UsageUpdate ?u] @ fst (gem_parts S (map (gem_block S) bs) 0) @
      [Stop (gem_reason (gem_finish reason) (length (an_calls a))) ?u]"
    using usage finish gem_parts_count [of S bs 0] calls
    by (cases reason) (simp_all add: gem_parse_response_def gem_parse_chunk_def render_message_response_def Let_def json_simps get_member_def parts split_beta
        nonempty_Some gem_finish_def)
  moreover have "distinct (map fst (gem_numbered 0 (gem_calls S bs)))"
    using assms(4) by (intro gem_numbered_distinct) (auto simp: calls gem_said_def)
  then have "fold (hear same_word id) (fst (gem_parts S (map (gem_block S) bs) 0)) (nothing_said\<lparr>an_running := ?u\<rparr>) =
      nothing_said\<lparr>an_running := ?u, an_text := an_text a, an_thinking := an_thinking a, an_calls := gem_numbered 0 (map (gem_said S) (an_calls a))\<rparr>"
    by (subst gem_parts_told) (simp_all add: nothing_said_def words calls)
  moreover have "merge usage_default ?u = ?u" "merge ?u ?u = ?u" by (simp_all add: merge_def usage_default_def)
  ultimately show ?thesis
    unfolding hub_def [symmetric] gem_reason_said by (simp add: nothing_said_def Let_def same_word_def)
qed

theorem gemini_collected_answer_witness:
  "an_calls (fold (hear same_word id) (gem_parse_response tiny_serde (render_message_response (render_from_events tiny_serde one_answer ''r'' ''m''))) nothing_said) =
     [(''f'', ''f'', ''{}'')]"
  using gemini_collected_answer [of one_answer EndTurn tiny_serde "''r''" "''m''"] one_answer_facts
  by (simp add: gem_said_def tiny_serde_def gem_call_id_def)


subsection \<open>Streams\<close>

text \<open>
  What can be told in this dialect: functions have names without the character that marks ordinals, calls
  can be counted, and usage stays far from the width of a counter. Calls may interleave.
\<close>

definition gem_step :: "stream_event \<Rightarrow> tell \<Rightarrow> tell option" where
  "gem_step ev t =
     (case ev of
        EventError _ \<Rightarrow> None
      | ToolUseStart _ name \<Rightarrow> if CHR ''#'' \<in> set name \<or> length (tl_seen t) \<ge> usize_max then None else tell_step True ev t
      | _ \<Rightarrow> (case reported_usage ev of Some u \<Rightarrow> if usage_small u then tell_step True ev t else None | None \<Rightarrow> tell_step True ev t))"

definition pending_call :: "gem_pending \<Rightarrow> string \<times> string \<times> string" where
  "pending_call c = (gp_id c, gp_name c, gp_args c)"

definition held :: "gem_render \<Rightarrow> string set" where
  "held st = gp_id ` set (ge_pending st)"

definition gem_counted :: "gem_render \<Rightarrow> accumulator \<times> answer \<Rightarrow> answer \<Rightarrow> bool" where
  "gem_counted st cl b \<longleftrightarrow> (case cl of (acc, a) \<Rightarrow>
     an_text a = an_text b \<and> an_thinking a = an_thinking b \<and> an_stop a = an_stop b \<and> an_usage a = an_usage b \<and>
     (an_stop b = None \<longleftrightarrow> \<not> ge_finished st) \<and> an_running b = ge_usage st \<and> usage_small (ge_usage st) \<and>
     (\<not> ge_finished st \<longrightarrow> merge (an_running a) (chat_counts (ge_usage st)) = chat_counts (ge_usage st)) \<and>
     tool_calls acc = length (an_calls a) \<and> an_calls a = gem_numbered 0 (map snd (an_calls a)))"

definition gem_holds :: "serde \<Rightarrow> tell \<Rightarrow> gem_render \<Rightarrow> (string \<times> string) list \<Rightarrow> (string \<times> string \<times> string) list \<Rightarrow> bool" where
  "gem_holds S t st out calls \<longleftrightarrow>
     tl_done t = ge_finished st \<and> (ge_finished st \<longrightarrow> ge_pending st = []) \<and>
     distinct (map fst calls) \<and> fst ` set calls = set (tl_seen t) \<and> length calls = length (tl_seen t) \<and> length calls \<le> usize_max \<and>
     (\<forall>(_, name, _) \<in> set calls. CHR ''#'' \<notin> set name) \<and> set (tl_open t) = held st \<and>
     filter (\<lambda>(k, _). k \<in> held st) calls = map pending_call (ge_pending st) \<and>
     mset (map (gem_said S) calls) = mset out + mset (map (gem_said S) (map pending_call (ge_pending st)))"

definition gem_follows :: "serde \<Rightarrow> tell \<Rightarrow> gem_render \<Rightarrow> accumulator \<times> answer \<Rightarrow> answer \<Rightarrow> bool" where
  "gem_follows S t st cl b \<longleftrightarrow> gem_counted st cl b \<and> gem_holds S t st (map snd (an_calls (snd cl))) (an_calls b)"

lemma held_distinct:
  assumes "gem_holds S t st out calls"
  shows "distinct (map gp_id (ge_pending st))"
proof -
  have "map fst (filter (\<lambda>(k, _). k \<in> held st) calls) = map gp_id (ge_pending st)"
    using assms by (simp add: gem_holds_def pending_call_def)
  moreover have "distinct (map fst (filter (\<lambda>(k, _). k \<in> held st) calls))"
    using assms by (intro distinct_map_filter) (simp add: gem_holds_def)
  ultimately show ?thesis by simp
qed

lemma take_pending_spec:
  "distinct (map gp_id cs) \<Longrightarrow> take_pending tid cs = (case find (\<lambda>c. gp_id c = tid) cs of None \<Rightarrow> None | Some c \<Rightarrow> Some (c, filter (\<lambda>c. gp_id c \<noteq> tid) cs))"
proof (induction cs)
  case (Cons c cs)
  show ?case
  proof (cases "gp_id c = tid")
    case True
    with Cons.prems have "filter (\<lambda>c. gp_id c \<noteq> tid) cs = cs" by (intro filter_True) (auto intro: rev_image_eqI)
    with True show ?thesis by simp
  next
    case False
    with Cons show ?thesis by (simp split: option.split)
  qed
qed simp

lemma push_pending_spec:
  "tid \<in> gp_id ` set cs \<Longrightarrow> distinct (map gp_id cs) \<Longrightarrow> map pending_call (push_pending tid s cs) = add_fragment tid s (map pending_call cs)"
proof (induction cs)
  case (Cons c cs)
  show ?case
  proof (cases "gp_id c = tid")
    case True
    with Cons.prems have "tid \<notin> fst ` set (map pending_call cs)" by (auto simp: pending_call_def image_image)
    then have "add_fragment tid s (map pending_call cs) = map pending_call cs" by (rule add_fragment_other)
    with True show ?thesis by (simp add: add_fragment_def pending_call_def)
  next
    case False
    with Cons show ?thesis by (simp add: add_fragment_def pending_call_def)
  qed
qed simp

lemma push_pending_ids: "tid \<in> gp_id ` set cs \<Longrightarrow> gp_id ` set (push_pending tid s cs) = gp_id ` set cs"
  by (induction cs) auto

lemma filter_add_fragment: "filter (\<lambda>(k, _). P k) (add_fragment tid s calls) = add_fragment tid s (filter (\<lambda>(k, _). P k) calls)"
  by (induction calls) (auto simp: add_fragment_def)

lemma add_fragment_facts [simp]: "length (add_fragment tid s calls) = length calls"
  "(\<forall>(_, name, _) \<in> set (add_fragment tid s calls). P name) \<longleftrightarrow> (\<forall>(_, name, _) \<in> set calls. P name)"
  by (auto simp: add_fragment_def comp_def split_beta)

lemma mset_parted: "mset (map f xs) = mset (map f (filter P xs)) + mset (map f (filter (\<lambda>x. \<not> P x) xs))"
  by (induction xs) auto

lemma holds_start:
  assumes "gem_holds S t st out calls" and "tid \<notin> set (tl_seen t)" and "length (tl_seen t) < usize_max" and "CHR ''#'' \<notin> set name" and "\<not> tl_done t"
    and "tl_open t' = tl_open t @ [tid]" "tl_seen t' = tid # tl_seen t" "tl_done t' = tl_done t"
  shows "gem_holds S t' (st\<lparr>ge_pending := ge_pending st @ [\<lparr>gp_id = tid, gp_name = name, gp_args = []\<rparr>]\<rparr>) out (calls @ [(tid, name, [])])"
proof -
  let ?st = "st\<lparr>ge_pending := ge_pending st @ [\<lparr>gp_id = tid, gp_name = name, gp_args = []\<rparr>]\<rparr>"
  have fresh: "tid \<notin> fst ` set calls" using assms(1,2) by (simp add: gem_holds_def)
  have held: "held ?st = insert tid (held st)" by (simp add: held_def)
  have "filter (\<lambda>(k, _). k \<in> insert tid (held st)) calls = filter (\<lambda>(k, _). k \<in> held st) calls"
    using fresh by (force intro!: filter_cong)
  with assms fresh show ?thesis unfolding gem_holds_def held by (auto simp: pending_call_def)
qed

lemma holds_delta:
  assumes "gem_holds S t st out calls" and "tid \<in> set (tl_open t)" and "\<not> tl_done t"
  shows "gem_holds S t (st\<lparr>ge_pending := push_pending tid s (ge_pending st)\<rparr>) out (add_fragment tid s calls)"
proof -
  have mem: "tid \<in> gp_id ` set (ge_pending st)" using assms(1,2) by (simp add: gem_holds_def held_def)
  have held: "held (st\<lparr>ge_pending := push_pending tid s (ge_pending st)\<rparr>) = held st" by (simp add: held_def push_pending_ids [OF mem])
  note pushed = push_pending_spec [OF mem held_distinct [OF assms(1)], of s]
  let ?closed = "filter (\<lambda>(k, _). k \<notin> held st) calls"
  have open': "filter (\<lambda>(k, _). k \<in> held st) calls = map pending_call (ge_pending st)" using assms(1) by (simp add: gem_holds_def)
  have split: "mset (map (gem_said S) cs) = mset (map (gem_said S) (filter (\<lambda>(k, _). k \<in> held st) cs)) + mset (map (gem_said S) (filter (\<lambda>(k, _). k \<notin> held st) cs))" for cs
    using mset_parted [of "gem_said S" cs "\<lambda>(k, _). k \<in> held st"] by (simp add: split_beta)
  have "add_fragment tid s ?closed = ?closed" using mem by (intro add_fragment_other) (auto simp: held_def)
  moreover have "mset (map (gem_said S) ?closed) = mset out"
    using split [of calls] assms(1) by (simp add: gem_holds_def open')
  ultimately have "mset (map (gem_said S) (add_fragment tid s calls)) = mset out + mset (map (gem_said S) (map pending_call (push_pending tid s (ge_pending st))))"
    unfolding split [of "add_fragment tid s calls"] filter_add_fragment open' pushed by simp
  then show ?thesis
    using assms(1,3) pushed unfolding gem_holds_def held by (simp add: filter_add_fragment)
qed

lemma holds_end:
  assumes "gem_holds S t st out calls" and "find (\<lambda>c. gp_id c = tid) (ge_pending st) = Some c"
    and "set (tl_open t') = set (tl_open t) - {tid}" "tl_seen t' = tl_seen t" "tl_done t' = tl_done t"
  shows "gem_holds S t' (st\<lparr>ge_pending := filter (\<lambda>c. gp_id c \<noteq> tid) (ge_pending st)\<rparr>) (out @ [gem_said S (pending_call c)]) calls"
proof -
  let ?st = "st\<lparr>ge_pending := filter (\<lambda>c. gp_id c \<noteq> tid) (ge_pending st)\<rparr>"
  have held: "held ?st = held st - {tid}" by (auto simp: held_def)
  have c: "c \<in> set (ge_pending st)" "gp_id c = tid" using assms(2) by (auto simp: find_Some_iff)
  have "filter (\<lambda>(k, _). k \<in> held ?st) calls = filter (\<lambda>(k, _). k \<noteq> tid) (filter (\<lambda>(k, _). k \<in> held st) calls)"
    unfolding held filter_filter by (rule filter_cong) auto
  also have "\<dots> = map pending_call (ge_pending ?st)"
    using assms(1) by (simp add: gem_holds_def filter_map comp_def pending_call_def)
  finally have rest: "filter (\<lambda>(k, _). k \<in> held ?st) calls = map pending_call (ge_pending ?st)" .
  have "filter (\<lambda>c. gp_id c = tid) cs = [c]" if "distinct (map gp_id cs)" "c \<in> set cs" for cs
    using that c(2) by (induction cs) (auto simp: filter_empty_conv intro: rev_image_eqI)
  then have "mset (ge_pending st) = add_mset c (mset (ge_pending ?st))"
    using mset_parted [of "\<lambda>x. x" "ge_pending st" "\<lambda>c. gp_id c = tid"] held_distinct [OF assms(1)] c(1) by simp
  then have "mset (map (gem_said S) (map pending_call (ge_pending st))) = add_mset (gem_said S (pending_call c)) (mset (map (gem_said S) (map pending_call (ge_pending ?st))))"
    by (metis (no_types) image_mset_add_mset mset_map)
  with assms rest show ?thesis unfolding gem_holds_def by (simp add: held)
qed

lemma holds_stop:
  assumes "gem_holds S t st out calls" and "tl_open t' = []" "tl_seen t' = tl_seen t" "tl_done t'"
  shows "gem_holds S t' (st\<lparr>ge_finished := True, ge_usage := u, ge_pending := []\<rparr>) (out @ map (gem_said S) (map pending_call (ge_pending st))) calls"
  using assms by (simp add: gem_holds_def held_def)


lemma counted_grows:
  assumes "merge r (chat_counts x) = chat_counts x"
  shows "merge r (chat_counts (merge x u)) = chat_counts (merge x u)"
  using assms by (cases r; cases x; cases u) (auto simp: merge_def chat_counts_def max_def split: if_splits)

lemma out_names:
  assumes "gem_holds S t st out calls"
  shows "\<forall>(name, _) \<in> set (out @ map (gem_said S) (map pending_call (ge_pending st))). CHR ''#'' \<notin> set name"
    and "length out + length (ge_pending st) \<le> usize_max"
proof -
  have all: "mset (map (gem_said S) calls) = mset (out @ map (gem_said S) (map pending_call (ge_pending st)))" using assms by (simp add: gem_holds_def)
  have "\<forall>(name, _) \<in> set (map (gem_said S) calls). CHR ''#'' \<notin> set name" using assms by (auto simp: gem_holds_def gem_said_def)
  then show "\<forall>(name, _) \<in> set (out @ map (gem_said S) (map pending_call (ge_pending st))). CHR ''#'' \<notin> set name"
    unfolding mset_eq_setD [OF all] .
  show "length out + length (ge_pending st) \<le> usize_max" using mset_eq_length [OF all] assms by (simp add: gem_holds_def)
qed

text \<open>One chunk of a stream, with what it takes from the calls that are held.\<close>

lemma gem_told:
  assumes "gem_counted st (acc, a) b" and "\<not> ge_finished st" and "usage_small (ge_usage st')"
    and "merge (an_running a) (chat_counts (ge_usage st')) = chat_counts (ge_usage st')"
    and "\<forall>(name, _) \<in> set (map snd (an_calls a) @ gem_calls S bs). CHR ''#'' \<notin> set name" and "length (an_calls a) + length (gem_calls S bs) \<le> usize_max"
    and "an_text b' = an_text b @ concat (map block_text bs)" "an_thinking b' = an_thinking b @ concat (map block_thinking bs)" "an_running b' = ge_usage st'"
    and "(case finish of None \<Rightarrow> an_stop b' = None \<and> an_usage b' = an_usage b \<and> \<not> ge_finished st'
        | Some r \<Rightarrow> an_stop b' = Some (resp_word (length (an_calls a) + length (gem_calls S bs) > 0) r) \<and> an_usage b' = Some (chat_counts (ge_usage st')) \<and> ge_finished st')"
  shows "\<exists>acc' a'. read_gem S (gem_chunk (map (gem_block S) bs) (map_option gem_finish finish) st') (acc, a) = Some (acc', a') \<and> gem_counted st' (acc', a') b' \<and>
    map snd (an_calls a') = map snd (an_calls a) @ gem_calls S bs"
proof -
  have a: "tool_calls acc = length (an_calls a)" "an_calls a = gem_numbered 0 (map snd (an_calls a))" "an_stop a = None"
    "an_text a = an_text b" "an_thinking a = an_thinking b" "an_usage a = an_usage b"
    using assms(1,2) by (auto simp: gem_counted_def)
  have "map_option gem_finish finish \<noteq> Some []" by (auto simp: gem_finish_def split: stop_reason.split)
  from gem_chunk_read [OF assms(3) a(1,2) assms(6,5) this a(3)] obtain acc' a' where
    read: "read_gem S (gem_chunk (map (gem_block S) bs) (map_option gem_finish finish) st') (acc, a) = Some (acc', a')"
    "tool_calls acc' = length (an_calls a) + length (gem_calls S bs)" and
    a': "a' = (let used = chat_counts (ge_usage st');
          x = a\<lparr>an_text := an_text a @ concat (map block_text bs), an_thinking := an_thinking a @ concat (map block_thinking bs),
            an_calls := gem_numbered 0 (map snd (an_calls a) @ gem_calls S bs), an_running := used\<rparr> in
      case map_option gem_finish finish of None \<Rightarrow> x | Some f \<Rightarrow> x\<lparr>an_stop := Some (gem_reason f (length (an_calls x))), an_usage := Some used\<rparr>)"
    unfolding assms(4) by blast
  have calls: "an_calls a' = gem_numbered 0 (map snd (an_calls a) @ gem_calls S bs)"
    by (simp add: a' Let_def split: option.split)
  then have out: "map snd (an_calls a') = map snd (an_calls a) @ gem_calls S bs" by simp
  have "merge x x = x" for x by (simp add: merge_def)
  then have "gem_counted st' (acc', a') b'"
    using assms(3,7-10) a read(2) calls out
    by (cases finish) (auto simp: gem_counted_def a' gem_reason_said Let_def)
  with read(1) out show ?thesis by blast
qed

lemma followsD:
  assumes "gem_follows S t st (acc, a) b"
  shows "gem_counted st (acc, a) b" and "gem_holds S t st (map snd (an_calls a)) (an_calls b)" and "ge_finished st \<longleftrightarrow> tl_done t"
  using assms by (simp_all add: gem_follows_def gem_holds_def)

lemma words_followed:
  assumes "gem_follows S t st (acc, a) b" and "\<not> tl_done t" and "block_call x = []"
    and "b' = b\<lparr>an_text := an_text b @ block_text x, an_thinking := an_thinking b @ block_thinking x\<rparr>"
    and "tl_open t' = tl_open t" "tl_seen t' = tl_seen t" "tl_done t' = tl_done t"
  shows "\<exists>cl'. read_gem S (gem_chunk [gem_block S x] None st) (acc, a) = Some cl' \<and> gem_follows S t' st cl' b'"
proof -
  note c = followsD(1) [OF assms(1)] and h = followsD(2) [OF assms(1)]
  have "\<exists>acc' a'. read_gem S (gem_chunk (map (gem_block S) [x]) (map_option gem_finish None) st) (acc, a) = Some (acc', a') \<and> gem_counted st (acc', a') b' \<and>
      map snd (an_calls a') = map snd (an_calls a) @ gem_calls S [x]"
    using c followsD(3) [OF assms(1)] out_names [OF h] assms(2-4) by (intro gem_told [OF c]) (auto simp: gem_counted_def)
  moreover have "gem_holds S t' st (map snd (an_calls a)) (an_calls b')" using h assms by (simp add: gem_holds_def)
  ultimately show ?thesis using assms(3) by (auto simp: gem_follows_def)
qed

lemma end_followed:
  assumes "gem_follows S t st (acc, a) b" and "find (\<lambda>c. gp_id c = tid) (ge_pending st) = Some x"
    and "set (tl_open t') = set (tl_open t) - {tid}" "tl_seen t' = tl_seen t" "tl_done t' = tl_done t"
  defines "st' \<equiv> st\<lparr>ge_pending := filter (\<lambda>c. gp_id c \<noteq> tid) (ge_pending st)\<rparr>"
  shows "\<exists>cl'. read_gem S (gem_chunk [gem_pending_part S x] None st') (acc, a) = Some cl' \<and> gem_follows S t' st' cl' b"
proof -
  note c = followsD(1) [OF assms(1)] and h = followsD(2) [OF assms(1)]
  let ?out = "map snd (an_calls a)" and ?b = "OpenTool (gp_id x) (gp_name x) (gp_args x)"
  have x: "x \<in> set (ge_pending st)" using assms(2) by (auto simp: find_Some_iff)
  then have live: "\<not> ge_finished st" using h by (auto simp: gem_holds_def)
  have call: "gem_calls S [?b] = [gem_said S (pending_call x)]" by (simp add: block_call_def pending_call_def)
  have "1 \<le> length (ge_pending st)" using x by (cases "ge_pending st") simp_all
  with out_names(2) [OF h] have room: "length (an_calls a) + length (gem_calls S [?b]) \<le> usize_max" unfolding call by simp
  have named: "\<forall>(name, _) \<in> set (?out @ gem_calls S [?b]). CHR ''#'' \<notin> set name" using out_names(1) [OF h] x unfolding call by auto
  have "\<exists>acc' a'. read_gem S (gem_chunk (map (gem_block S) [?b]) (map_option gem_finish None) st') (acc, a) = Some (acc', a') \<and> gem_counted st' (acc', a') b \<and>
      map snd (an_calls a') = ?out @ gem_calls S [?b]"
    using c live room named unfolding st'_def by (intro gem_told [OF c]) (auto simp: gem_counted_def block_parts)
  with holds_end [OF h assms(2-5), folded st'_def] show ?thesis
    unfolding call by (auto simp: gem_follows_def gem_pending_block)
qed

lemma stop_followed:
  assumes "gem_follows S t st (acc, a) b" and "\<not> ge_finished st" and "usage_small u" and "tl_open t' = []" "tl_seen t' = tl_seen t" "tl_done t'"
  defines "st' \<equiv> st\<lparr>ge_finished := True, ge_usage := merge (ge_usage st) u, ge_pending := []\<rparr>"
  shows "\<exists>cl'. read_gem S (gem_chunk (map (gem_pending_part S) (ge_pending st)) (Some (gem_finish reason)) st') (acc, a) = Some cl' \<and>
    gem_follows S t' st' cl' (hear resp_word chat_counts (Stop reason u) b)"
proof -
  note c = followsD(1) [OF assms(1)] and h = followsD(2) [OF assms(1)]
  let ?u = "merge (ge_usage st) u" and ?out = "map snd (an_calls a)" and ?held = "map (gem_said S) (map pending_call (ge_pending st))"
  let ?bs = "map (\<lambda>x. OpenTool (gp_id x) (gp_name x) (gp_args x)) (ge_pending st)"
  have call: "gem_calls S ?bs = ?held"
    by (induction "ge_pending st" arbitrary: st) (simp_all add: gem_calls_def block_call_def pending_call_def comp_def)
  have parts: "map (gem_pending_part S) (ge_pending st) = map (gem_block S) ?bs" by (simp add: gem_pending_block)
  have silent: "concat (map block_text ?bs) = []" "concat (map block_thinking ?bs) = []" by (simp_all add: block_parts)
  have len: "length (an_calls b) = length (an_calls a) + length (ge_pending st)"
    using h mset_eq_length [of "map (gem_said S) (an_calls b)" "?out @ ?held"] by (simp add: gem_holds_def)
  have any: "length (an_calls a) + length (gem_calls S ?bs) > 0 \<longleftrightarrow> an_calls b \<noteq> []"
    unfolding call length_map len [symmetric] by simp
  have f: "an_stop b = None" "an_running b = ge_usage st" "usage_small ?u" "merge (an_running a) (chat_counts ?u) = chat_counts ?u"
    using c assms(2,3) merge_small counted_grows by (auto simp: gem_counted_def)
  have stop: "an_stop (hear resp_word chat_counts (Stop reason u) b) = Some (resp_word (length (an_calls a) + length (gem_calls S ?bs) > 0) reason)"
    unfolding any using f(1) by (simp add: Let_def)
  have "\<exists>acc' a'. read_gem S (gem_chunk (map (gem_block S) ?bs) (map_option gem_finish (Some reason)) st') (acc, a) = Some (acc', a') \<and>
      gem_counted st' (acc', a') (hear resp_word chat_counts (Stop reason u) b) \<and> map snd (an_calls a') = ?out @ gem_calls S ?bs"
    unfolding st'_def by (rule gem_told [OF c assms(2)]) (use f out_names [OF h] silent stop in \<open>simp_all add: call Let_def\<close>)
  with holds_stop [OF h assms(4-6), of ?u, folded st'_def] f(1) show ?thesis
    unfolding call by (auto simp: gem_follows_def parts Let_def comp_def)
qed

lemma gem_event_followed:
  assumes "gem_follows S t st (acc, a) b" and "gem_step ev t = Some t'"
  shows "\<exists>cl'. read_all (read_gem S) (fst (gem_render_event S ev st)) (acc, a) = Some cl' \<and>
    gem_follows S t' (snd (gem_render_event S ev st)) cl' (hear resp_word chat_counts ev b)"
proof -
  note c = followsD(1) [OF assms(1)] and h = followsD(2) [OF assms(1)]
  show ?thesis
  proof (cases ev)
    case (TextDelta s)
    with assms(2) words_followed [OF assms(1), of "OpenText s" "hear resp_word chat_counts ev b" t'] show ?thesis
      by (auto simp: gem_step_def tell_words_def gem_block_def block_parts split: if_splits)
  next
    case (ThinkingDelta s)
    with assms(2) words_followed [OF assms(1), of "OpenThinking s" "hear resp_word chat_counts ev b" t'] show ?thesis
      by (auto simp: gem_step_def tell_words_def gem_block_def block_parts split: if_splits)
  next
    case (ToolUseStart tid name)
    with assms(2) have t': "tid \<notin> set (tl_seen t)" "length (tl_seen t) < usize_max" "CHR ''#'' \<notin> set name" "\<not> tl_done t"
      "tl_open t' = tl_open t @ [tid]" "tl_seen t' = tid # tl_seen t" "tl_done t' = tl_done t"
      by (auto simp: gem_step_def split: if_splits)
    from holds_start [OF h t'] c ToolUseStart show ?thesis by (simp add: gem_follows_def gem_counted_def)
  next
    case (ToolUseDelta tid s)
    with assms(2) have t': "tid \<in> set (tl_open t)" "\<not> tl_done t" "t' = t" by (auto simp: gem_step_def split: if_splits)
    from holds_delta [OF h t'(1,2), of s] c ToolUseDelta t'(3) show ?thesis by (simp add: gem_follows_def gem_counted_def)
  next
    case (ToolUseEnd tid)
    with assms(2) have t': "set (tl_open t') = set (tl_open t) - {tid}" "tl_seen t' = tl_seen t" "tl_done t' = tl_done t" by (auto simp: gem_step_def)
    note taken = take_pending_spec [OF held_distinct [OF h], of tid]
    show ?thesis
    proof (cases "find (\<lambda>c. gp_id c = tid) (ge_pending st)")
      case None
      then have "tid \<notin> held st" by (auto simp: find_None_iff held_def)
      with h t' have "gem_holds S t' st (map snd (an_calls a)) (an_calls b)" by (simp add: gem_holds_def)
      with c None ToolUseEnd taken show ?thesis by (simp add: gem_follows_def)
    next
      case (Some x)
      with end_followed [OF assms(1) Some t'] ToolUseEnd taken show ?thesis by (auto simp: Let_def)
    qed
  next
    case (Stop reason u)
    with assms(2) have t': "usage_small u" "tl_open t' = []" "tl_seen t' = tl_seen t" "tl_done t'" by (auto simp: gem_step_def split: if_splits)
    show ?thesis
    proof (cases "ge_finished st")
      case True
      with h t' have "gem_holds S t' st (map snd (an_calls a)) (an_calls b)" by (simp add: gem_holds_def held_def)
      moreover have "an_stop b \<noteq> None" using c True by (simp add: gem_counted_def)
      ultimately show ?thesis using c Stop True by (simp add: gem_follows_def)
    next
      case False
      with stop_followed [OF assms(1) False t', of reason] Stop show ?thesis by (auto simp: Let_def)
    qed
  next
    case (Start m u)
    with assms(2) have "t' = t" "usage_small u" by (auto simp: gem_step_def split: if_splits)
    with Start c h merge_small counted_grows show ?thesis by (auto simp: gem_follows_def gem_counted_def gem_holds_def held_def)
  next
    case (UsageUpdate u)
    with assms(2) have "t' = t" "usage_small u" by (auto simp: gem_step_def split: if_splits)
    with UsageUpdate c h merge_small counted_grows show ?thesis by (auto simp: gem_follows_def gem_counted_def gem_holds_def held_def)
  next
    case (EventError m)
    with assms(2) show ?thesis by (simp add: gem_step_def)
  qed
qed

interpretation gem: followed_stream "gem_render_event S" "read_gem S" "gem_follows S" gem_step "hear resp_word chat_counts" for S
  by unfold_locales (use gem_event_followed in force)

text \<open>
  C25. A Gemini stream the gateway writes and its own reader reads says what the events said, parallel calls
  included: the text and the reasoning, the reason and the usage as the dialect can say them, and once the
  stream has stopped every call exactly once, whole, under its function's name and with the value of its
  arguments. No two calls share the id the reader gives them, and that id gives the function back.
\<close>

theorem gemini_stream_is_read_back:
  fixes S :: serde
  assumes "tellable gem_step evs tell_new"
  defines "r \<equiv> render_all (gem_render_event S) evs gem_render_new" and "b \<equiv> fold (hear resp_word chat_counts) evs nothing_said"
  shows "\<exists>acc a. read_all (read_gem S) (fst r) (acc_new, nothing_said) = Some (acc, a) \<and>
    an_text a = an_text b \<and> an_thinking a = an_thinking b \<and> an_stop a = an_stop b \<and> an_usage a = an_usage b \<and>
    (an_stop b \<noteq> None \<longrightarrow> mset (map snd (an_calls a)) = mset (map (gem_said S) (an_calls b))) \<and>
    distinct (map fst (an_calls a)) \<and> (\<forall>(k, name, _) \<in> set (an_calls a). gem_function_name k = name)"
proof -
  have "gem_follows S tell_new gem_render_new (acc_new, nothing_said) nothing_said"
    by (simp add: gem_follows_def gem_counted_def gem_holds_def held_def tell_new_def gem_render_new_def acc_new_def nothing_said_def
        usage_small_def usage_default_def merge_def chat_counts_def)
  from gem.followed_all [OF this assms(1)] obtain t acc a where
    cl: "read_all (read_gem S) (fst r) (acc_new, nothing_said) = Some (acc, a)" "gem_follows S t (snd r) (acc, a) b"
    unfolding r_def b_def by auto
  then have c: "gem_counted (snd r) (acc, a) b" and h: "gem_holds S t (snd r) (map snd (an_calls a)) (an_calls b)"
    by (simp_all add: gem_follows_def)
  have names: "\<forall>(name, _) \<in> set (map snd (an_calls a)). CHR ''#'' \<notin> set name" using out_names(1) [OF h] by auto
  have calls: "an_calls a = gem_numbered 0 (map snd (an_calls a))" using c by (simp add: gem_counted_def)
  have "distinct (map fst (an_calls a))" using gem_numbered_distinct [OF names, of 0] calls by simp
  moreover have "gem_function_name k = name" if mem: "(k, name, args) \<in> set (gem_numbered 0 (map snd (an_calls a)))" for k name args
  proof -
    obtain i where i: "k = gem_call_id name i" "(i, name, args) \<in> set (enumerate 0 (map snd (an_calls a)))" using mem by (auto simp: gem_numbered_def)
    then have "(name, args) \<in> set (map snd (an_calls a))" by (metis image_eqI list.set_map map_snd_enumerate snd_conv)
    with names have "CHR ''#'' \<notin> set name" by (metis (no_types, lifting) case_prodD)
    with i(1) show ?thesis by (simp add: gem_call_id_back)
  qed
  then have "\<forall>(k, name, _) \<in> set (gem_numbered 0 (map snd (an_calls a))). gem_function_name k = name" by blast
  then have "\<forall>(k, name, _) \<in> set (an_calls a). gem_function_name k = name" unfolding calls [symmetric] .
  moreover have "mset (map snd (an_calls a)) = mset (map (gem_said S) (an_calls b))" if "an_stop b \<noteq> None"
  proof -
    have "ge_finished (snd r)" using that c by (auto simp: gem_counted_def)
    with h show ?thesis by (simp add: gem_holds_def)
  qed
  ultimately show ?thesis using cl(1) c by (auto simp: gem_counted_def)
qed

definition twin_calls :: "stream_event list" where
  "twin_calls = [ThinkingDelta ''hm'', ToolUseStart ''a'' ''f'', ToolUseStart ''b'' ''f'', ToolUseDelta ''b'' ''{'', ToolUseDelta ''a'' ''{}'', ToolUseDelta ''b'' ''}'',
     ToolUseEnd ''b'', Stop EndTurn usage_default]"

theorem gemini_stream_is_read_back_witness:
  "\<exists>acc a. read_all (read_gem tiny_serde) (fst (render_all (gem_render_event tiny_serde) twin_calls gem_render_new)) (acc_new, nothing_said) = Some (acc, a) \<and>
     an_thinking a = ''hm'' \<and> an_stop a = Some StopToolUse \<and> mset (map snd (an_calls a)) = {#(''f'', ''{}''), (''f'', ''{}'')#}"
proof -
  have "tellable gem_step twin_calls tell_new"
    by (simp add: twin_calls_def tell_new_def gem_step_def tell_words_def usage_small_def usage_default_def usize_max_def)
  moreover have "an_calls (fold (hear resp_word chat_counts) twin_calls nothing_said) = [(''a'', ''f'', ''{}''), (''b'', ''f'', ''{}'')]"
    "an_stop (fold (hear resp_word chat_counts) twin_calls nothing_said) = Some StopToolUse"
    "an_thinking (fold (hear resp_word chat_counts) twin_calls nothing_said) = ''hm''"
    by (simp_all add: twin_calls_def nothing_said_def add_fragment_def Let_def resp_word_spec)
  ultimately show ?thesis
    using gemini_stream_is_read_back [of twin_calls tiny_serde] by (auto simp: gem_said_def tiny_serde_def)
qed

end
