(* ===== verification/Converse.thy ===== *)
theory Converse
  imports Conversation Completions_Stream
begin

text \<open>
  The Bedrock Converse dialect (\<^verbatim>\<open>oag-proto/src/converse.rs\<close>), which only upstreams speak: the canonical
  request as a Converse body, and a Converse response or stream read into canonical events. The spelling
  of tool-call ids is in \<open>Tool_Ids\<close>.
\<close>

subsection \<open>Rendering a request\<close>

definition STREAM_ERROR :: string where
  "STREAM_ERROR = '':error''"

definition CONTINUED :: string where
  "CONTINUED = ''(continued)''"

definition NO_OUTPUT :: string where
  "NO_OUTPUT = ''(no output)''"

definition cv_refused :: "string \<Rightarrow> error" where
  "cv_refused field = UnsupportedField field BedrockConverse"

definition is_blank :: "string \<Rightarrow> bool" where
  "is_blank t = (trim t = [])"

definition cv_text :: "string \<Rightarrow> json option" where
  "cv_text t = (if \<not> is_blank t then Some (JObj [(''text'', JStr t)]) else None)"

definition cv_image :: "string \<Rightarrow> string \<Rightarrow> json" where
  "cv_image media_type data =
     JObj [(''image'', JObj [
       (''format'', JStr (case strip_prefix ''image/'' media_type of Some rest \<Rightarrow> rest | None \<Rightarrow> media_type)),
       (''source'', JObj [(''bytes'', JStr data)])])]"

definition cv_result_block :: "content_block \<Rightarrow> json option" where
  "cv_result_block b =
     (case b of
        Text t _ \<Rightarrow> cv_text t
      | Image media_type data \<Rightarrow> Some (cv_image media_type data)
      | _ \<Rightarrow> None)"

definition cv_result_content :: "tool_result_content \<Rightarrow> json list" where
  "cv_result_content content =
     (let blocks = (case content of
            ResultText t \<Rightarrow> (case cv_text t of Some v \<Rightarrow> [v] | None \<Rightarrow> [])
          | ResultBlocks bs \<Rightarrow> List.map_filter cv_result_block bs) in
      if blocks = [] then [JObj [(''text'', JStr NO_OUTPUT)]] else blocks)"

definition cv_block :: "function_name_map \<Rightarrow> tool_use_ids \<Rightarrow> content_block \<Rightarrow> json option" where
  "cv_block names ids b =
     (case b of
        Text t _ \<Rightarrow> cv_text t
      | Image media_type data \<Rightarrow> Some (cv_image media_type data)
      | ToolUse tid name input \<Rightarrow>
          Some (JObj [(''toolUse'', JObj [(''toolUseId'', JStr (id_wire ids tid)), (''name'', JStr (wire_name names name)), (''input'', input)])])
      | ToolResult tid content is_error \<Rightarrow>
          Some (JObj [(''toolResult'', set_when is_error ''status'' (JStr ''error'')
            (JObj [(''toolUseId'', JStr (id_wire ids tid)), (''content'', JArr (cv_result_content content))]))])
      | Thinking _ _ \<Rightarrow> None)"

definition cv_role :: "message \<Rightarrow> string" where
  "cv_role m = (if msg_role m = RoleAssistant then ''assistant'' else ''user'')"

definition cv_turn :: "function_name_map \<Rightarrow> tool_use_ids \<Rightarrow> message \<Rightarrow> (string \<times> json list) list \<Rightarrow> (string \<times> json list) list" where
  "cv_turn names ids m turns =
     (let role = cv_role m; blocks = List.map_filter (cv_block names ids) (msg_content m) in
      if blocks = [] then turns
      else if turns \<noteq> [] \<and> fst (last turns) = role then butlast turns @ [(role, snd (last turns) @ blocks)]
      else turns @ [(role, blocks)])"

definition cv_turns :: "function_name_map \<Rightarrow> tool_use_ids \<Rightarrow> message list \<Rightarrow> (string \<times> json list) list" where
  "cv_turns names ids messages =
     (let turns = fold (cv_turn names ids) messages [] in
      if turns \<noteq> [] \<and> fst (hd turns) = ''assistant'' then (''user'', [JObj [(''text'', JStr CONTINUED)]]) # turns else turns)"

definition cv_render_messages :: "function_name_map \<Rightarrow> tool_use_ids \<Rightarrow> message list \<Rightarrow> json list" where
  "cv_render_messages names ids messages =
     map (\<lambda>(role, content). JObj [(''role'', JStr role), (''content'', JArr content)]) (cv_turns names ids messages)"

definition cv_called :: "content_block \<Rightarrow> string option" where
  "cv_called b = (case b of ToolUse _ name _ \<Rightarrow> Some name | _ \<Rightarrow> None)"

definition called_in_history :: "message list \<Rightarrow> tool list" where
  "called_in_history messages =
     map (\<lambda>name. \<lparr>tool_name = name, tool_description = [], input_schema = JObj [(''type'', JStr ''object'')], tool_cache_control = None\<rparr>)
       (rev (remdups (rev (List.map_filter cv_called (flat messages)))))"

definition cv_tool :: "function_name_map \<Rightarrow> tool \<Rightarrow> json" where
  "cv_tool names t =
     JObj [(''toolSpec'', set_when (tool_description t \<noteq> []) ''description'' (JStr (tool_description t))
       (JObj [(''name'', JStr (wire_name names (tool_name t))), (''inputSchema'', JObj [(''json'', input_schema t)])]))]"

definition cv_tool_config :: "canonical_request \<Rightarrow> function_name_map \<Rightarrow> error + json option" where
  "cv_tool_config req names =
     (let tools = (if cr_tools req = [] then called_in_history (cr_messages req) else cr_tools req) in
      if tools = [] then Inr None
      else
        let config = JObj [(''tools'', JArr (map (cv_tool names) tools))] in
        case cr_tool_choice req of
          None \<Rightarrow> Inr (Some config)
        | Some ChoiceAuto \<Rightarrow> Inr (Some (set_member ''toolChoice'' (JObj [(''auto'', JObj [])]) config))
        | Some ChoiceRequired \<Rightarrow> Inr (Some (set_member ''toolChoice'' (JObj [(''any'', JObj [])]) config))
        | Some (ChoiceTool name) \<Rightarrow>
            Inr (Some (set_member ''toolChoice'' (JObj [(''tool'', JObj [(''name'', JStr (wire_name names name))])]) config))
        | Some ChoiceNone \<Rightarrow> Inl (cv_refused ''tool_choice''))"

definition cv_output_config :: "serde \<Rightarrow> response_format option \<Rightarrow> error + json option" where
  "cv_output_config S format =
     (case format of
        None \<Rightarrow> Inr None
      | Some FormatText \<Rightarrow> Inr None
      | Some FormatJsonObject \<Rightarrow> Inl (cv_refused ''response_format'')
      | Some (FormatJsonSchema name schema _) \<Rightarrow>
          Inr (Some (JObj [(''textFormat'', JObj [(''type'', JStr ''json_schema''),
            (''structure'', JObj [(''jsonSchema'', JObj [(''schema'', JStr (to_text S schema)), (''name'', JStr name)])])])])))"

text \<open>
  \<^verbatim>\<open>f32::clamp(0.0, 1.0)\<close> on bit patterns: what is no number stays, what is below zero becomes zero, what is
  above one becomes one.
\<close>

definition f32_clamp01 :: "nat \<Rightarrow> nat" where
  "f32_clamp01 bits =
     (if 0x80000000 < bits \<and> bits \<le> 0xFF800000 then 0
      else if 0x3F800000 < bits \<and> bits \<le> 0x7F800000 then 0x3F800000
      else bits)"

definition cv_render_request :: "serde \<Rightarrow> canonical_request \<Rightarrow> error + json" where
  "cv_render_request S req =
     (if previous_response_id req \<noteq> None then Inl (cv_refused ''previous_response_id'')
      else
        let names = names_from_request req; ids = ids_from_request req;
            inference = JObj [(''maxTokens'', jnat (cr_max_tokens req))];
            inference = set_some ''temperature'' (map_option (\<lambda>t. of_f32 S (f32_clamp01 t)) (cr_temperature req)) inference;
            stop = filter (\<lambda>s. s \<noteq> []) (cr_stop req);
            inference = set_when (stop \<noteq> []) ''stopSequences'' (JArr (map JStr stop)) inference;
            body = JObj [(''messages'', JArr (cv_render_messages names ids (cr_messages req))), (''inferenceConfig'', inference)];
            system = List.map_filter (\<lambda>b. case b of Text t _ \<Rightarrow> cv_text t | _ \<Rightarrow> None) (cr_system req);
            body = set_when (system \<noteq> []) ''system'' (JArr system) body in
        case cv_tool_config req names of
          Inl e \<Rightarrow> Inl e
        | Inr tool_config \<Rightarrow>
            (case cv_output_config S (cr_response_format req) of
               Inl e \<Rightarrow> Inl e
             | Inr output_config \<Rightarrow> Inr (set_some ''outputConfig'' output_config (set_some ''toolConfig'' tool_config body))))"

subsection \<open>Reading\<close>

definition cv_parse_usage :: "json \<Rightarrow> usage" where
  "cv_parse_usage v =
     \<lparr>input_tokens = u64_or 0 (idx v ''inputTokens''), output_tokens = u64_or 0 (idx v ''outputTokens''),
      cache_read_tokens = u64_or 0 (idx v ''cacheReadInputTokens''), cache_write_tokens = u64_or 0 (idx v ''cacheWriteInputTokens'')\<rparr>"

definition cv_stop_reason :: "string \<Rightarrow> stop_reason" where
  "cv_stop_reason raw =
     (if raw = ''tool_use'' then StopToolUse
      else if raw = ''max_tokens'' \<or> raw = ''model_context_window_exceeded'' then MaxTokens
      else if raw = ''stop_sequence'' then StopSequence
      else if raw = ''guardrail_intervened'' \<or> raw = ''content_filtered'' then StopRefusal
      else EndTurn)"

definition cv_response_block :: "serde \<Rightarrow> json \<Rightarrow> stream_event list" where
  "cv_response_block S block =
     (case as_str (idx block ''text'') of
        Some t \<Rightarrow> [TextDelta t]
      | None \<Rightarrow>
          (case as_str (idx (idx (idx block ''reasoningContent'') ''reasoningText'') ''text'') of
             Some t \<Rightarrow> [ThinkingDelta t]
           | None \<Rightarrow>
               (case get_member block ''toolUse'' of
                  Some call \<Rightarrow>
                    let tid = str_or [] (idx call ''toolUseId'') in
                    [ToolUseStart tid (str_or [] (idx call ''name'')), ToolUseDelta tid (to_text S (idx call ''input'')), ToolUseEnd tid]
                | None \<Rightarrow> [])))"

definition cv_parse_response :: "serde \<Rightarrow> json \<Rightarrow> stream_event list" where
  "cv_parse_response S body =
     (let usage = cv_parse_usage (idx body ''usage'') in
      [UsageUpdate usage] @ concat (map (cv_response_block S) (items (idx (idx (idx body ''output'') ''message'') ''content''))) @
      (case as_str (idx body ''stopReason'') of Some reason \<Rightarrow> [Stop (cv_stop_reason reason) usage] | None \<Rightarrow> []))"

definition cv_parse_delta :: "json \<Rightarrow> accumulator \<Rightarrow> stream_event list" where
  "cv_parse_delta delta acc =
     (case as_str (idx delta ''text'') of
        Some t \<Rightarrow> [TextDelta t]
      | None \<Rightarrow>
          (case as_str (idx (idx delta ''toolUse'') ''input'') of
             Some fragment \<Rightarrow> [ToolUseDelta (case current_tool_id acc of Some tid \<Rightarrow> tid | None \<Rightarrow> []) fragment]
           | None \<Rightarrow>
               (case as_str (idx (idx delta ''reasoningContent'') ''text'') of
                  Some t \<Rightarrow> [ThinkingDelta t]
                | None \<Rightarrow> [])))"

definition cv_stream_event :: "string \<Rightarrow> json \<Rightarrow> accumulator \<Rightarrow> stream_event list \<times> accumulator" where
  "cv_stream_event kind event acc =
     (if kind = ''messageStart'' then ([Start [] usage_default], acc)
      else if kind = ''contentBlockStart'' then
        (let call = idx (idx event ''start'') ''toolUse'' in
         (case as_str (idx call ''toolUseId'') of
            Some tid \<Rightarrow> [ToolUseStart (restore_tool_use_id acc tid) (restore_function_name acc (str_or [] (idx call ''name'')))]
          | None \<Rightarrow> [], acc))
      else if kind = ''contentBlockDelta'' then (cv_parse_delta (idx event ''delta'') acc, acc)
      else if kind = ''contentBlockStop'' then (case open_tool_id acc of Some tid \<Rightarrow> [ToolUseEnd tid] | None \<Rightarrow> [], acc)
      else if kind = ''messageStop'' then ([], hold_stop (cv_stop_reason (str_or [] (idx event ''stopReason''))) acc)
      else if kind = ''metadata'' then
        (let usage = cv_parse_usage (idx event ''usage'') in
         case take_held_stop acc of (held, acc) \<Rightarrow> ([case held of None \<Rightarrow> UsageUpdate usage | Some reason \<Rightarrow> Stop reason usage], acc))
      else if kind = STREAM_ERROR then
        ([EventError (str_or ''the upstream's event stream reported an error'' (idx event ''message''))], acc)
      else if suffix ''Exception'' kind then
        ([EventError (case as_str (idx event ''message'') of None \<Rightarrow> kind | Some m \<Rightarrow> kind @ '': '' @ m)], acc)
      else ([], acc))"

fun cv_members :: "(string \<times> json) list \<Rightarrow> accumulator \<Rightarrow> stream_event list \<times> accumulator" where
  "cv_members [] acc = ([], acc)"
| "cv_members ((kind, event) # rest) acc =
     (case cv_stream_event kind event acc of (evs, acc) \<Rightarrow> case cv_members rest acc of (later, acc) \<Rightarrow> (evs @ later, acc))"

definition cv_event :: "json \<Rightarrow> accumulator \<Rightarrow> stream_event list \<times> accumulator" where
  "cv_event v acc = (case v of JObj members \<Rightarrow> cv_members members acc | _ \<Rightarrow> ([], acc))"

definition cv_parse_event :: "serde \<Rightarrow> string \<Rightarrow> accumulator \<Rightarrow> (error + stream_event list) \<times> accumulator" where
  "cv_parse_event S payload acc =
     (case from_text S payload of
        Inl e \<Rightarrow> (Inl (Serde e), acc)
      | Inr v \<Rightarrow> (case cv_event v acc of (evs, acc) \<Rightarrow> (Inr evs, acc)))"


subsection \<open>What Converse takes\<close>

text \<open>
  The rules the code quotes: turns alternate and the user opens, no turn and no tool result is empty, no
  text is blank, and calls and results come with tools declared.
\<close>

definition cv_blank_free :: "json \<Rightarrow> bool" where
  "cv_blank_free v = (case as_str (idx v ''text'') of Some t \<Rightarrow> \<not> is_blank t | None \<Rightarrow> True)"

definition cv_sound :: "json \<Rightarrow> bool" where
  "cv_sound block \<longleftrightarrow> cv_blank_free block \<and>
     (case get_member block ''toolResult'' of None \<Rightarrow> True | Some result \<Rightarrow> items (idx result ''content'') \<noteq> [] \<and> list_all cv_blank_free (items (idx result ''content'')))"

definition cv_wire_turns :: "json \<Rightarrow> (string \<times> json list) list" where
  "cv_wire_turns body = map (\<lambda>m. (str_or [] (idx m ''role''), items (idx m ''content''))) (items (idx body ''messages''))"

definition cv_uses_tools :: "json \<Rightarrow> bool" where
  "cv_uses_tools block \<longleftrightarrow> get_member block ''toolUse'' \<noteq> None \<or> get_member block ''toolResult'' \<noteq> None"

definition converse_takes :: "json \<Rightarrow> bool" where
  "converse_takes body \<longleftrightarrow> (let turns = cv_wire_turns body in
     successively (\<noteq>) (map fst turns) \<and> (turns \<noteq> [] \<longrightarrow> fst (hd turns) = ''user'') \<and>
     list_all (\<lambda>(role, content). role \<in> {''user'', ''assistant''} \<and> content \<noteq> [] \<and> list_all cv_sound content) turns \<and>
     list_all cv_blank_free (items (idx body ''system'')) \<and>
     (list_ex (\<lambda>(_, content). list_ex cv_uses_tools content) turns \<longrightarrow> items (idx (idx body ''toolConfig'') ''tools'') \<noteq> []))"

definition cv_flat :: "(string \<times> json list) list \<Rightarrow> (string \<times> json) list" where
  "cv_flat turns = concat (map (\<lambda>(role, content). map (Pair role) content) turns)"

definition cv_said :: "function_name_map \<Rightarrow> tool_use_ids \<Rightarrow> message list \<Rightarrow> (string \<times> json) list" where
  "cv_said names ids ms = concat (map (\<lambda>m. map (Pair (cv_role m)) (List.map_filter (cv_block names ids) (msg_content m))) ms)"

text \<open>
  What a block says on this wire, read off the block's own members, and what the client's block meant: its words
  unless they are blank, a picture by its format and bytes, a call under its spelling of id and name, and a
  result under its call's id with its mark and its parts, or with a word for nothing.
\<close>

datatype cv_item =
    ItemText string
  | ItemImage string string
  | ItemCall string string json
  | ItemResult string bool "cv_item list"

definition cv_read_part :: "json \<Rightarrow> cv_item option" where
  "cv_read_part v =
     (case get_member v ''text'' of
        Some t \<Rightarrow> map_option ItemText (as_str t)
      | None \<Rightarrow>
          (case get_member v ''image'' of
             Some i \<Rightarrow> bind_str (idx i ''format'') (\<lambda>format. bind_str (idx (idx i ''source'') ''bytes'') (\<lambda>data. Some (ItemImage format data)))
           | None \<Rightarrow> None))"

definition cv_read_block :: "json \<Rightarrow> cv_item option" where
  "cv_read_block v =
     (case get_member v ''toolUse'' of
        Some call \<Rightarrow>
          bind_str (idx call ''toolUseId'') (\<lambda>tid. bind_str (idx call ''name'') (\<lambda>name. Some (ItemCall tid name (idx call ''input''))))
      | None \<Rightarrow>
          (case get_member v ''toolResult'' of
             Some result \<Rightarrow>
               bind_str (idx result ''toolUseId'') (\<lambda>tid.
                 if list_all (\<lambda>p. cv_read_part p \<noteq> None) (items (idx result ''content''))
                 then Some (ItemResult tid (idx result ''status'' = JStr ''error'') (map (the \<circ> cv_read_part) (items (idx result ''content''))))
                 else None)
           | None \<Rightarrow> cv_read_part v))"

definition meant_part :: "content_block \<Rightarrow> cv_item option" where
  "meant_part b =
     (case b of
        Text t _ \<Rightarrow> if is_blank t then None else Some (ItemText t)
      | Image media_type data \<Rightarrow> Some (ItemImage (if prefix ''image/'' media_type then drop (length ''image/'') media_type else media_type) data)
      | _ \<Rightarrow> None)"

definition meant_result :: "tool_result_content \<Rightarrow> cv_item list" where
  "meant_result content =
     (let parts = List.map_filter meant_part (case content of ResultText t \<Rightarrow> [Text t None] | ResultBlocks bs \<Rightarrow> bs)
      in if parts = [] then [ItemText ''(no output)''] else parts)"

definition meant_block :: "(string \<Rightarrow> string) \<Rightarrow> (string \<Rightarrow> string) \<Rightarrow> content_block \<Rightarrow> cv_item option" where
  "meant_block spelt_name spelt_id b =
     (case b of
        ToolUse tid name input \<Rightarrow> Some (ItemCall (spelt_id tid) (spelt_name name) input)
      | ToolResult tid content is_error \<Rightarrow> Some (ItemResult (spelt_id tid) is_error (meant_result content))
      | _ \<Rightarrow> meant_part b)"

definition meant :: "(string \<Rightarrow> string) \<Rightarrow> (string \<Rightarrow> string) \<Rightarrow> message list \<Rightarrow> (string \<times> cv_item) list" where
  "meant spelt_name spelt_id ms =
     concat (map (\<lambda>m. map (Pair (if msg_role m = RoleAssistant then ''assistant'' else ''user''))
       (List.map_filter (meant_block spelt_name spelt_id) (msg_content m))) ms)"

lemma read_image: "cv_read_part (cv_image media_type data) = Some (ItemImage (if prefix ''image/'' media_type then drop (length ''image/'') media_type else media_type) data)"
  by (simp add: cv_read_part_def cv_image_def strip_prefix_def get_member_def json_simps)

lemma read_result_block: "Option.bind (cv_result_block b) (\<lambda>v. Some (cv_read_part v)) = map_option Some (meant_part b)"
  by (cases b) (simp_all add: cv_result_block_def meant_part_def cv_text_def read_image, simp add: cv_read_part_def get_member_def json_simps)

lemma read_result_content:
  "map cv_read_part (cv_result_content c) = map Some (meant_result c)"
proof -
  have blocks: "map cv_read_part (List.map_filter cv_result_block bs) = map Some (List.map_filter meant_part bs)" for bs
  proof (induction bs)
    case (Cons b bs)
    then show ?case using read_result_block [of b] by (cases "cv_result_block b"; cases "meant_part b") (simp_all add: List.map_filter_simps)
  qed (simp add: List.map_filter_simps)
  have "(case cv_text t of Some v \<Rightarrow> [v] | None \<Rightarrow> []) = List.map_filter cv_result_block [Text t None]" for t
    by (simp add: cv_result_block_def List.map_filter_simps split: option.split)
  then have shape: "cv_result_content c = (let blocks = List.map_filter cv_result_block (case c of ResultText t \<Rightarrow> [Text t None] | ResultBlocks bs \<Rightarrow> bs)
      in if blocks = [] then [JObj [(''text'', JStr NO_OUTPUT)]] else blocks)"
    by (cases c) (simp_all add: cv_result_content_def)
  show ?thesis
    unfolding shape meant_result_def Let_def using blocks [of "case c of ResultText t \<Rightarrow> [Text t None] | ResultBlocks bs \<Rightarrow> bs"]
    by (auto simp: cv_read_part_def get_member_def json_simps NO_OUTPUT_def)
qed

lemma read_block: "map_option cv_read_block (cv_block names ids b) = map_option Some (meant_block (wire_name names) (id_wire ids) b)"
proof (cases b)
  case (ToolResult tid content is_error)
  have "list_all (\<lambda>p. cv_read_part p \<noteq> None) (cv_result_content content)" and "map (the \<circ> cv_read_part) (cv_result_content content) = meant_result content"
  proof -
    have "\<forall>x \<in> set (map cv_read_part (cv_result_content content)). x \<noteq> None" unfolding read_result_content by simp
    then show "list_all (\<lambda>p. cv_read_part p \<noteq> None) (cv_result_content content)" by (simp add: list_all_iff)
    have "map the (map cv_read_part (cv_result_content content)) = map the (map Some (meant_result content))" by (simp only: read_result_content)
    then show "map (the \<circ> cv_read_part) (cv_result_content content) = meant_result content" by (simp add: comp_def)
  qed
  with ToolResult show ?thesis
    by (simp add: cv_block_def meant_block_def cv_read_block_def get_member_def json_simps)
qed (auto simp: cv_block_def meant_block_def meant_part_def cv_text_def cv_read_block_def get_member_def json_simps read_image,
     auto simp: cv_read_part_def cv_image_def strip_prefix_def get_member_def json_simps)

lemma said_is_meant:
  "map (\<lambda>(role, v). (role, cv_read_block v)) (cv_said names ids ms) =
   map (\<lambda>(role, i). (role, Some i)) (meant (wire_name names) (id_wire ids) ms)"
proof -
  have blocks: "map cv_read_block (List.map_filter (cv_block names ids) bs) = map Some (List.map_filter (meant_block (wire_name names) (id_wire ids)) bs)" for bs
  proof (induction bs)
    case (Cons b bs)
    then show ?case using read_block [of names ids b]
      by (cases "cv_block names ids b"; cases "meant_block (wire_name names) (id_wire ids) b") (simp_all add: List.map_filter_simps)
  qed (simp add: List.map_filter_simps)
  have one: "map (\<lambda>(role, v). (role, cv_read_block v)) (map (Pair role) (List.map_filter (cv_block names ids) bs)) =
      map (\<lambda>(role, i). (role, Some i)) (map (Pair role) (List.map_filter (meant_block (wire_name names) (id_wire ids)) bs))" for role bs
    using arg_cong [OF blocks [of bs], of "map (Pair role)"] by (simp add: comp_def)
  show ?thesis by (induction ms) (simp_all add: cv_said_def meant_def cv_role_def one del: map_map)
qed

definition cv_cannot_say :: "canonical_request \<Rightarrow> string option" where
  "cv_cannot_say r =
     (if previous_response_id r \<noteq> None then Some ''previous_response_id''
      else if cr_tool_choice r = Some ChoiceNone \<and> (cr_tools r \<noteq> [] \<or> List.map_filter cv_called (flat (cr_messages r)) \<noteq> []) then Some ''tool_choice''
      else if cr_response_format r = Some FormatJsonObject then Some ''response_format''
      else None)"

lemma whitespace_bytes:
  "\<forall>w \<in> set WHITESPACE. \<not> (33 \<le> (of_char (hd w) :: nat) \<and> (of_char (hd w) :: nat) \<le> 126) \<and> \<not> (33 \<le> (of_char (last w) :: nat) \<and> (of_char (last w) :: nat) \<le> 126)"
  by (simp add: WHITESPACE_def byte_string_def)

lemma not_blank:
  assumes "33 \<le> (of_char c :: nat)" "(of_char c :: nat) \<le> 126" "33 \<le> (of_char d :: nat)" "(of_char d :: nat) \<le> 126"
  shows "\<not> is_blank (c # s @ [d])"
proof -
  have "\<not> prefix w (c # s @ [d]) \<and> \<not> suffix w (c # s @ [d])" if w: "w \<in> set WHITESPACE" for w
  proof -
    have "w \<noteq> []" using w by (rule whitespace_nonempty)
    have "hd w = c" if "prefix w (c # s @ [d])" using that \<open>w \<noteq> []\<close> by (cases w) auto
    moreover have "last w = d" if ends: "suffix w (c # s @ [d])"
    proof -
      obtain z where "c # s @ [d] = z @ w" using ends by (auto simp: suffix_def)
      then have "last (c # s @ [d]) = last (z @ w)" by simp
      with \<open>w \<noteq> []\<close> show ?thesis by simp
    qed
    ultimately show ?thesis using bspec [OF whitespace_bytes w] assms by blast
  qed
  then have "trim_done (c # s @ [d])" by (simp add: trim_done_def)
  then show ?thesis by (simp add: is_blank_def trim_id)
qed

lemma says_something: "\<not> is_blank CONTINUED" "\<not> is_blank NO_OUTPUT"
  using not_blank [of "CHR ''(''" "CHR '')''" "''continued''"] not_blank [of "CHR ''(''" "CHR '')''" "''no output''"]
  by (simp_all add: CONTINUED_def NO_OUTPUT_def)

lemma cv_text_blank_free: "cv_text t = Some v \<Longrightarrow> cv_blank_free v \<and> get_member v ''toolResult'' = None \<and> get_member v ''toolUse'' = None"
  by (auto simp: cv_text_def cv_blank_free_def json_simps get_member_def split: if_splits)

lemma cv_result_sound: "cv_result_content c \<noteq> [] \<and> list_all cv_blank_free (cv_result_content c)"
proof -
  have blocks: "cv_result_block b = Some v \<Longrightarrow> cv_blank_free v" for b v
    by (cases b) (auto simp: cv_result_block_def cv_text_blank_free, simp_all add: cv_image_def cv_blank_free_def json_simps)
  have "cv_blank_free (JObj [(''text'', JStr NO_OUTPUT)])" by (simp add: cv_blank_free_def json_simps says_something)
  then show ?thesis
    by (cases c) (auto simp: cv_result_content_def Let_def list_all_iff set_map_filter_iff cv_text_blank_free blocks split: option.splits)
qed

lemma cv_block_sound: "cv_block names ids b = Some v \<Longrightarrow> cv_sound v"
proof (cases b)
  case (Text t c)
  then show "cv_block names ids b = Some v \<Longrightarrow> cv_sound v" using cv_text_blank_free by (auto simp: cv_block_def cv_sound_def)
qed (use cv_result_sound in \<open>auto simp: cv_block_def cv_sound_def cv_image_def cv_blank_free_def json_simps get_member_def set_when_def set_member_def\<close>)

definition calls_a_tool :: "content_block \<Rightarrow> bool" where
  "calls_a_tool b = (case b of ToolUse _ _ _ \<Rightarrow> True | _ \<Rightarrow> False)"

definition answers_a_tool :: "content_block \<Rightarrow> bool" where
  "answers_a_tool b = (case b of ToolResult _ _ _ \<Rightarrow> True | _ \<Rightarrow> False)"

lemma cv_block_uses: "cv_block names ids b = Some v \<Longrightarrow> cv_uses_tools v \<longleftrightarrow> calls_a_tool b \<or> answers_a_tool b"
  by (cases b) (auto simp: cv_block_def cv_uses_tools_def calls_a_tool_def answers_a_tool_def cv_text_def cv_image_def get_member_def split: if_splits)

definition cv_well :: "(string \<times> json list) list \<Rightarrow> bool" where
  "cv_well turns \<longleftrightarrow> successively (\<noteq>) (map fst turns) \<and>
     list_all (\<lambda>(role, content). role \<in> {''user'', ''assistant''} \<and> content \<noteq> [] \<and> list_all cv_sound content) turns"

lemma cv_turn_well:
  assumes "cv_well turns"
  shows "cv_well (cv_turn names ids m turns)"
    and "cv_flat (cv_turn names ids m turns) = cv_flat turns @ map (Pair (cv_role m)) (List.map_filter (cv_block names ids) (msg_content m))"
proof -
  let ?blocks = "List.map_filter (cv_block names ids) (msg_content m)" and ?role = "cv_role m"
  have sound: "list_all cv_sound ?blocks" by (auto simp: list_all_iff set_map_filter_iff cv_block_sound)
  have role: "?role \<in> {''user'', ''assistant''}" by (simp add: cv_role_def)
  have "cv_well (cv_turn names ids m turns) \<and> cv_flat (cv_turn names ids m turns) = cv_flat turns @ map (Pair ?role) ?blocks"
  proof (cases turns rule: rev_cases)
    case Nil
    with sound role show ?thesis by (simp add: cv_turn_def cv_well_def cv_flat_def Let_def)
  next
    case (snoc before final)
    with assms sound role show ?thesis
      by (cases final) (auto simp: cv_turn_def cv_well_def cv_flat_def Let_def successively_append_iff)
  qed
  then show "cv_well (cv_turn names ids m turns)"
    "cv_flat (cv_turn names ids m turns) = cv_flat turns @ map (Pair ?role) ?blocks" by simp_all
qed

lemma cv_folded:
  "cv_well turns \<Longrightarrow> cv_well (fold (cv_turn names ids) ms turns) \<and>
   cv_flat (fold (cv_turn names ids) ms turns) = cv_flat turns @ cv_said names ids ms"
  by (induction ms arbitrary: turns) (simp_all add: cv_turn_well cv_said_def)

lemma cv_turns_facts:
  shows "cv_well (cv_turns names ids ms)" and "cv_turns names ids ms \<noteq> [] \<Longrightarrow> fst (hd (cv_turns names ids ms)) = ''user''"
    and "cv_flat (cv_turns names ids ms) =
      (if cv_said names ids ms \<noteq> [] \<and> fst (hd (cv_said names ids ms)) = ''assistant'' then [(''user'', JObj [(''text'', JStr CONTINUED)])] else []) @ cv_said names ids ms"
proof -
  let ?turns = "fold (cv_turn names ids) ms []"
  have well: "cv_well ?turns" and flat: "cv_flat ?turns = cv_said names ids ms"
    using cv_folded [of "[]" names ids ms] by (simp_all add: cv_well_def cv_flat_def)
  have sound: "cv_sound (JObj [(''text'', JStr CONTINUED)])" by (simp add: cv_sound_def cv_blank_free_def json_simps get_member_def says_something)
  have first: "(cv_flat ts \<noteq> [] \<longleftrightarrow> ts \<noteq> []) \<and> (ts \<noteq> [] \<longrightarrow> fst (hd (cv_flat ts)) = fst (hd ts))" if "cv_well ts" for ts
  proof (cases ts)
    case (Cons p rest)
    obtain role content where p: "p = (role, content)" by force
    with that Cons have "content \<noteq> []" by (simp add: cv_well_def)
    then show ?thesis by (cases content) (simp_all add: Cons p cv_flat_def)
  qed (simp add: cv_flat_def)
  show "cv_well (cv_turns names ids ms)" using well sound
    by (cases ?turns) (auto simp: cv_turns_def cv_well_def Let_def successively_Cons)
  show "fst (hd (cv_turns names ids ms)) = ''user''" if "cv_turns names ids ms \<noteq> []"
    using that well by (cases ?turns) (auto simp: cv_turns_def cv_well_def Let_def)
  have "cv_flat (cv_turns names ids ms) =
      (if ?turns \<noteq> [] \<and> fst (hd ?turns) = ''assistant'' then [(''user'', JObj [(''text'', JStr CONTINUED)])] else []) @ cv_flat ?turns"
    by (simp add: cv_turns_def Let_def cv_flat_def)
  with first [OF well] flat show "cv_flat (cv_turns names ids ms) =
      (if cv_said names ids ms \<noteq> [] \<and> fst (hd (cv_said names ids ms)) = ''assistant'' then [(''user'', JObj [(''text'', JStr CONTINUED)])] else []) @ cv_said names ids ms"
    by auto
qed


lemma called_empty: "called_in_history ms = [] \<longleftrightarrow> List.map_filter cv_called (flat ms) = []"
  by (simp add: called_in_history_def)

lemma called_calls: "List.map_filter cv_called bs = [] \<longleftrightarrow> \<not> list_ex calls_a_tool bs"
  by (induction bs) (auto simp: List.map_filter_simps cv_called_def calls_a_tool_def split: content_block.splits)

lemma cv_said_uses:
  "(\<exists>role v. (role, v) \<in> set (cv_said names ids ms) \<and> cv_uses_tools v) \<longleftrightarrow> list_ex calls_a_tool (flat ms) \<or> list_ex answers_a_tool (flat ms)"
proof
  assume "\<exists>role v. (role, v) \<in> set (cv_said names ids ms) \<and> cv_uses_tools v"
  then obtain m b v where "m \<in> set ms" "b \<in> set (msg_content m)" "cv_block names ids b = Some v" "cv_uses_tools v"
    by (auto simp: cv_said_def set_map_filter_iff)
  then show "list_ex calls_a_tool (flat ms) \<or> list_ex answers_a_tool (flat ms)"
    using cv_block_uses by (fastforce simp: flat_def list_ex_iff)
next
  assume "list_ex calls_a_tool (flat ms) \<or> list_ex answers_a_tool (flat ms)"
  then obtain m b where mb: "m \<in> set ms" "b \<in> set (msg_content m)" "calls_a_tool b \<or> answers_a_tool b"
    by (auto simp: flat_def list_ex_iff)
  then obtain v where v: "cv_block names ids b = Some v"
    by (cases b) (auto simp: cv_block_def calls_a_tool_def answers_a_tool_def)
  then have "(cv_role m, v) \<in> set (cv_said names ids ms)" using mb(1,2) by (force simp: cv_said_def set_map_filter_iff)
  then show "\<exists>role v. (role, v) \<in> set (cv_said names ids ms) \<and> cv_uses_tools v" using cv_block_uses [OF v] mb(3) by blast
qed

lemma cv_tools_declared:
  assumes "cv_tool_config r names = Inr config"
  shows "items (idx (case config of Some v \<Rightarrow> v | None \<Rightarrow> JNull) ''tools'') = [] \<longleftrightarrow> cr_tools r = [] \<and> List.map_filter cv_called (flat (cr_messages r)) = []"
proof -
  define tools where "tools = (if cr_tools r = [] then called_in_history (cr_messages r) else cr_tools r)"
  have "items (idx (case config of Some v \<Rightarrow> v | None \<Rightarrow> JNull) ''tools'') = map (cv_tool names) tools"
    using assms by (auto simp: cv_tool_config_def tools_def [symmetric] Let_def json_simps split: if_splits option.splits tool_choice.splits)
  then show ?thesis by (auto simp: tools_def called_empty)
qed

lemma cv_refusals:
  "cv_tool_config r names = Inl e \<longleftrightarrow> e = cv_refused ''tool_choice'' \<and> cr_tool_choice r = Some ChoiceNone \<and>
     (cr_tools r \<noteq> [] \<or> List.map_filter cv_called (flat (cr_messages r)) \<noteq> [])"
  "cv_output_config S f = Inl e \<longleftrightarrow> e = cv_refused ''response_format'' \<and> f = Some FormatJsonObject"
  by (auto simp: cv_tool_config_def cv_output_config_def called_empty Let_def split: option.splits tool_choice.splits response_format.splits)

lemma turns_use_tools:
  "list_ex (\<lambda>(_, content). list_ex cv_uses_tools content) (cv_turns names ids ms) \<longleftrightarrow>
     list_ex calls_a_tool (flat ms) \<or> list_ex answers_a_tool (flat ms)"
proof -
  have "list_ex (\<lambda>(_, content). list_ex cv_uses_tools content) (cv_turns names ids ms) \<longleftrightarrow>
      (\<exists>role v. (role, v) \<in> set (cv_flat (cv_turns names ids ms)) \<and> cv_uses_tools v)"
    by (force simp: cv_flat_def list_ex_iff)
  also have "\<dots> \<longleftrightarrow> (\<exists>role v. (role, v) \<in> set (cv_said names ids ms) \<and> cv_uses_tools v)"
    by (auto simp: cv_turns_facts(3) cv_uses_tools_def get_member_def split: if_splits)
  finally show ?thesis by (simp add: cv_said_uses)
qed

lemma turns_are_meant:
  fixes names :: function_name_map and ids :: tool_use_ids and ms :: "message list"
  defines "items_said \<equiv> meant (wire_name names) (id_wire ids) ms"
  shows "map (\<lambda>(role, block). (role, cv_read_block block)) (cv_flat (cv_turns names ids ms)) =
    map (\<lambda>(role, item). (role, Some item)) ((if items_said \<noteq> [] \<and> fst (hd items_said) = ''assistant'' then [(''user'', ItemText ''(continued)'')] else []) @ items_said)"
proof -
  let ?said = "cv_said names ids ms"
  have same: "map (\<lambda>(role, v). (role, cv_read_block v)) ?said = map (\<lambda>(role, i). (role, Some i)) items_said"
    unfolding items_said_def by (rule said_is_meant)
  have first: "?said = [] \<longleftrightarrow> items_said = []" "?said \<noteq> [] \<Longrightarrow> fst (hd ?said) = fst (hd items_said)"
    using same by (cases ?said; cases items_said; auto)+
  have opener: "cv_read_block (JObj [(''text'', JStr CONTINUED)]) = Some (ItemText ''(continued)'')"
    by (simp add: cv_read_block_def cv_read_part_def get_member_def json_simps CONTINUED_def)
  show ?thesis unfolding cv_turns_facts(3) map_append same using first opener by (cases "items_said = []") simp_all
qed



subsection \<open>What a Converse upstream answers\<close>

text \<open>
  A turn as the service documents it: blocks of text, of reasoning or of one call, each in pieces when
  it is streamed and whole when it is not, then the reason for stopping and last the usage.
\<close>

datatype cv_answer_block = CvText "string list" | CvReasoning "string list" | CvCall string string "string list"

definition cv_frame :: "string \<Rightarrow> json \<Rightarrow> json" where
  "cv_frame kind event = JObj [(kind, event)]"

definition cv_delta :: "nat \<Rightarrow> json \<Rightarrow> json" where
  "cv_delta i d = cv_frame ''contentBlockDelta'' (JObj [(''delta'', d), (''contentBlockIndex'', jnat i)])"

definition cv_block_frames :: "nat \<Rightarrow> cv_answer_block \<Rightarrow> json list" where
  "cv_block_frames i b =
     (case b of
        CvText ts \<Rightarrow> map (\<lambda>t. cv_delta i (JObj [(''text'', JStr t)])) ts
      | CvReasoning ts \<Rightarrow> map (\<lambda>t. cv_delta i (JObj [(''reasoningContent'', JObj [(''text'', JStr t)])])) ts
      | CvCall tid name ts \<Rightarrow>
          cv_frame ''contentBlockStart'' (JObj [(''start'', JObj [(''toolUse'', JObj [(''toolUseId'', JStr tid), (''name'', JStr name)])]), (''contentBlockIndex'', jnat i)]) #
          map (\<lambda>t. cv_delta i (JObj [(''toolUse'', JObj [(''input'', JStr t)])])) ts) @
     [cv_frame ''contentBlockStop'' (JObj [(''contentBlockIndex'', jnat i)])]"

definition cv_usage :: "usage \<Rightarrow> json" where
  "cv_usage u = JObj [(''inputTokens'', jnat (input_tokens u)), (''outputTokens'', jnat (output_tokens u)),
     (''cacheReadInputTokens'', jnat (cache_read_tokens u)), (''cacheWriteInputTokens'', jnat (cache_write_tokens u))]"

definition cv_stream :: "cv_answer_block list \<Rightarrow> string \<Rightarrow> usage \<Rightarrow> json list" where
  "cv_stream bs reason u =
     [cv_frame ''messageStart'' (JObj [(''role'', JStr ''assistant'')])] @ concat (map (\<lambda>(i, b). cv_block_frames i b) (enumerate 0 bs)) @
     [cv_frame ''messageStop'' (JObj [(''stopReason'', JStr reason)]), cv_frame ''metadata'' (JObj [(''usage'', cv_usage u)])]"

definition cv_whole_block :: "serde \<Rightarrow> cv_answer_block \<Rightarrow> json" where
  "cv_whole_block S b =
     (case b of
        CvText ts \<Rightarrow> JObj [(''text'', JStr (concat ts))]
      | CvReasoning ts \<Rightarrow> JObj [(''reasoningContent'', JObj [(''reasoningText'', JObj [(''text'', JStr (concat ts))])])]
      | CvCall tid name ts \<Rightarrow>
          JObj [(''toolUse'', JObj [(''toolUseId'', JStr tid), (''name'', JStr name), (''input'', parsed_or S (JObj []) (concat ts))])])"

definition cv_whole :: "serde \<Rightarrow> cv_answer_block list \<Rightarrow> string \<Rightarrow> usage \<Rightarrow> json" where
  "cv_whole S bs reason u =
     JObj [(''output'', JObj [(''message'', JObj [(''role'', JStr ''assistant''), (''content'', JArr (map (cv_whole_block S) bs))])]),
       (''stopReason'', JStr reason), (''usage'', cv_usage u)]"

definition read_cv :: "json \<Rightarrow> accumulator \<times> answer \<Rightarrow> (accumulator \<times> answer) option" where
  "read_cv v cl = (case cl of (acc, a) \<Rightarrow> case cv_event v acc of (evs, acc) \<Rightarrow> Some (observe_all evs acc, fold (hear same_word id) evs a))"

definition cv_call :: "function_name_map \<Rightarrow> cv_answer_block \<Rightarrow> (string \<times> string \<times> string) list" where
  "cv_call names b = (case b of CvCall tid name ts \<Rightarrow> [(original_tool_use_id names tid, original_name names name, concat ts)] | _ \<Rightarrow> [])"

definition cv_block_text :: "cv_answer_block \<Rightarrow> string" where
  "cv_block_text b = (case b of CvText ts \<Rightarrow> concat ts | _ \<Rightarrow> [])"

definition cv_block_thinking :: "cv_answer_block \<Rightarrow> string" where
  "cv_block_thinking b = (case b of CvReasoning ts \<Rightarrow> concat ts | _ \<Rightarrow> [])"

definition cv_told :: "function_name_map \<Rightarrow> cv_answer_block list \<Rightarrow> string \<Rightarrow> usage \<Rightarrow> answer" where
  "cv_told names bs reason u =
     nothing_said\<lparr>an_text := concat (map cv_block_text bs), an_thinking := concat (map cv_block_thinking bs), an_calls := concat (map (cv_call names) bs),
       an_running := u, an_usage := Some u, an_stop := Some (cv_stop_reason reason)\<rparr>"

lemma cv_event_one: "cv_event (cv_frame kind event) acc = cv_stream_event kind event acc"
  by (simp add: cv_event_def cv_frame_def split_beta)

definition cv_same :: "accumulator \<Rightarrow> accumulator \<Rightarrow> bool" where
  "cv_same acc acc' \<longleftrightarrow> acc_function_names acc' = acc_function_names acc \<and> open_tool acc' = open_tool acc \<and> current_tool_id acc' = current_tool_id acc"

lemma cv_pieces:
  assumes "\<And>t acc a. P acc \<Longrightarrow> \<exists>acc'. read_cv (f t) (acc, a) = Some (acc', g t a) \<and> cv_same acc acc'" and "\<And>acc acc'. P acc \<Longrightarrow> cv_same acc acc' \<Longrightarrow> P acc'" and "P acc"
  shows "\<exists>acc'. read_all read_cv (map f ts) (acc, a) = Some (acc', fold g ts a) \<and> cv_same acc acc'"
  using assms(3)
proof (induction ts arbitrary: acc a)
  case (Cons t ts)
  obtain acc1 where acc1: "read_cv (f t) (acc, a) = Some (acc1, g t a)" "cv_same acc acc1" using assms(1) [OF Cons.prems] by blast
  from Cons.IH [OF assms(2) [OF Cons.prems acc1(2)], of "g t a"] acc1 show ?case by (auto simp: cv_same_def)
qed (simp add: cv_same_def)

lemma cv_said_in_pieces:
  "fold (\<lambda>t a. a\<lparr>an_text := an_text a @ t\<rparr>) ts a = a\<lparr>an_text := an_text a @ concat ts\<rparr>"
  "fold (\<lambda>t a. a\<lparr>an_thinking := an_thinking a @ t\<rparr>) ts a = a\<lparr>an_thinking := an_thinking a @ concat ts\<rparr>"
  "fold (\<lambda>t a. a\<lparr>an_calls := add_fragment tid t (an_calls a)\<rparr>) ts a = a\<lparr>an_calls := add_fragment tid (concat ts) (an_calls a)\<rparr>"
proof -
  have "add_fragment tid u (add_fragment tid t xs) = add_fragment tid (t @ u) xs" "add_fragment tid [] xs = xs" for t u xs
    by (induction xs) (auto simp: add_fragment_def)
  then show "fold (\<lambda>t a. a\<lparr>an_calls := add_fragment tid t (an_calls a)\<rparr>) ts a = a\<lparr>an_calls := add_fragment tid (concat ts) (an_calls a)\<rparr>"
    by (induction ts arbitrary: a) simp_all
  show "fold (\<lambda>t a. a\<lparr>an_text := an_text a @ t\<rparr>) ts a = a\<lparr>an_text := an_text a @ concat ts\<rparr>"
    "fold (\<lambda>t a. a\<lparr>an_thinking := an_thinking a @ t\<rparr>) ts a = a\<lparr>an_thinking := an_thinking a @ concat ts\<rparr>"
    by (induction ts arbitrary: a) simp_all
qed

lemma cv_text_read:
  "\<exists>acc'. read_all read_cv (map (\<lambda>t. cv_delta i (JObj [(''text'', JStr t)])) ts) (acc, a) = Some (acc', a\<lparr>an_text := an_text a @ concat ts\<rparr>) \<and> cv_same acc acc'"
  "\<exists>acc'. read_all read_cv (map (\<lambda>t. cv_delta i (JObj [(''reasoningContent'', JObj [(''text'', JStr t)])])) ts) (acc, a) =
     Some (acc', a\<lparr>an_thinking := an_thinking a @ concat ts\<rparr>) \<and> cv_same acc acc'"
  unfolding cv_said_in_pieces [symmetric]
  by (rule cv_pieces [where P = "\<lambda>_. True"];
      simp add: read_cv_def cv_delta_def cv_event_one cv_stream_event_def cv_parse_delta_def json_simps observe_all_def cv_same_def current_tool_id_def)+

lemma push_fragment_last: "bufs \<noteq> [] \<Longrightarrow> push_fragment tid t bufs \<noteq> [] \<and> fst (last (push_fragment tid t bufs)) = fst (last bufs)"
  by (induction tid t bufs rule: push_fragment.induct) auto

lemma cv_call_read:
  assumes "current_tool_id acc = Some tid"
  shows "\<exists>acc'. read_all read_cv (map (\<lambda>t. cv_delta i (JObj [(''toolUse'', JObj [(''input'', JStr t)])])) ts) (acc, a) =
     Some (acc', a\<lparr>an_calls := add_fragment tid (concat ts) (an_calls a)\<rparr>) \<and> cv_same acc acc'"
  unfolding cv_said_in_pieces [symmetric]
proof (rule cv_pieces [where P = "\<lambda>acc. current_tool_id acc = Some tid"])
  fix t :: string and acc :: accumulator and a :: answer
  assume now: "current_tool_id acc = Some tid"
  then have "cv_same acc (acc\<lparr>tool_buffers := push_fragment tid t (tool_buffers acc)\<rparr>)"
    using push_fragment_last [of "tool_buffers acc" tid t] by (auto simp: cv_same_def current_tool_id_def split: if_splits)
  with now show "\<exists>acc'. read_cv (cv_delta i (JObj [(''toolUse'', JObj [(''input'', JStr t)])])) (acc, a) =
      Some (acc', a\<lparr>an_calls := add_fragment tid t (an_calls a)\<rparr>) \<and> cv_same acc acc'"
    by (simp add: read_cv_def cv_delta_def cv_event_one cv_stream_event_def cv_parse_delta_def json_simps observe_all_def)
qed (use assms in \<open>simp_all add: cv_same_def\<close>)

lemma cv_block_read:
  assumes "acc_function_names acc = names" and "open_tool acc = None" and "distinct (map fst (an_calls a @ cv_call names b))"
  shows "\<exists>acc'. read_all read_cv (cv_block_frames i b) (acc, a) = Some (acc',
      a\<lparr>an_text := an_text a @ cv_block_text b, an_thinking := an_thinking a @ cv_block_thinking b, an_calls := an_calls a @ cv_call names b\<rparr>) \<and>
    acc_function_names acc' = names \<and> open_tool acc' = None"
proof -
  have stop: "read_cv (cv_frame ''contentBlockStop'' v) (acc, a) =
      Some (case open_tool acc of Some _ \<Rightarrow> acc\<lparr>open_tool := None\<rparr> | None \<Rightarrow> acc, a)" for v acc a
    by (simp add: read_cv_def cv_event_one cv_stream_event_def open_tool_id_def observe_all_def split: option.split)
  show ?thesis
  proof (cases b)
    case (CvText ts)
    with cv_text_read(1) [of i ts acc a] stop assms(1,2) show ?thesis
      by (auto simp: cv_block_frames_def read_all_append cv_block_text_def cv_block_thinking_def cv_call_def cv_same_def)
  next
    case (CvReasoning ts)
    with cv_text_read(2) [of i ts acc a] stop assms(1,2) show ?thesis
      by (auto simp: cv_block_frames_def read_all_append cv_block_text_def cv_block_thinking_def cv_call_def cv_same_def)
  next
    case (CvCall tid name ts)
    let ?tid = "original_tool_use_id names tid" and ?name = "original_name names name"
    let ?acc = "observe (ToolUseStart ?tid ?name) acc" and ?a = "a\<lparr>an_calls := an_calls a @ [(?tid, ?name, [])]\<rparr>"
    have "current_tool_id ?acc = Some ?tid" by (simp add: current_tool_id_def)
    from cv_call_read [OF this, of i ts ?a] obtain acc1 where
      acc1: "read_all read_cv (map (\<lambda>t. cv_delta i (JObj [(''toolUse'', JObj [(''input'', JStr t)])])) ts) (?acc, ?a) =
        Some (acc1, ?a\<lparr>an_calls := add_fragment ?tid (concat ts) (an_calls ?a)\<rparr>)" "cv_same ?acc acc1" by blast
    have "?tid \<notin> fst ` set (an_calls a)" using assms(3) CvCall by (simp add: cv_call_def)
    then have "add_fragment ?tid (concat ts) (an_calls ?a) = an_calls a @ [(?tid, ?name, concat ts)]"
      by (simp add: add_fragment_append add_fragment_other) (simp add: add_fragment_def)
    moreover have "read_cv (cv_frame ''contentBlockStart'' (JObj [(''start'', JObj [(''toolUse'', JObj [(''toolUseId'', JStr tid), (''name'', JStr name)])]), (''contentBlockIndex'', jnat i)])) (acc, a) =
        Some (?acc, ?a)"
      using assms(1) by (simp add: read_cv_def cv_event_one cv_stream_event_def json_simps restore_tool_use_id_def restore_function_name_def observe_all_def)
    ultimately show ?thesis using acc1 stop assms(1) CvCall
      by (auto simp: cv_block_frames_def read_all_append cv_block_text_def cv_block_thinking_def cv_call_def cv_same_def)
  qed
qed


lemma cv_blocks_read:
  assumes "acc_function_names acc = names" and "open_tool acc = None" and "distinct (map fst (an_calls a @ concat (map (cv_call names) bs)))"
  shows "\<exists>acc'. read_all read_cv (concat (map (\<lambda>(i, b). cv_block_frames i b) (enumerate n bs))) (acc, a) = Some (acc',
      a\<lparr>an_text := an_text a @ concat (map cv_block_text bs), an_thinking := an_thinking a @ concat (map cv_block_thinking bs),
        an_calls := an_calls a @ concat (map (cv_call names) bs)\<rparr>)"
  using assms
proof (induction bs arbitrary: n acc a)
  case (Cons b bs)
  have "distinct (map fst (an_calls a @ cv_call names b))" using Cons.prems(3) by auto
  from cv_block_read [OF Cons.prems(1,2) this, of n] obtain acc1 where
    acc1: "read_all read_cv (cv_block_frames n b) (acc, a) = Some (acc1,
      a\<lparr>an_text := an_text a @ cv_block_text b, an_thinking := an_thinking a @ cv_block_thinking b, an_calls := an_calls a @ cv_call names b\<rparr>)"
    "acc_function_names acc1 = names" "open_tool acc1 = None" by blast
  from Cons.IH [OF acc1(2,3), of "a\<lparr>an_text := an_text a @ cv_block_text b, an_thinking := an_thinking a @ cv_block_thinking b, an_calls := an_calls a @ cv_call names b\<rparr>" "Suc n"]
  show ?case using Cons.prems(3) acc1(1) by (auto simp: read_all_append)
qed simp

lemma cv_usage_read: "usage_fits u \<Longrightarrow> cv_parse_usage (cv_usage u) = u"
  by (simp add: cv_parse_usage_def cv_usage_def usage_fits_def json_simps)

lemma cv_whole_read:
  assumes "\<forall>(_, _, args) \<in> set (cv_call names b). settled S args"
  shows "restore_in_events names (cv_response_block S (cv_whole_block S b)) =
    (case b of CvText ts \<Rightarrow> [TextDelta (concat ts)] | CvReasoning ts \<Rightarrow> [ThinkingDelta (concat ts)]
     | CvCall tid name ts \<Rightarrow> let k = original_tool_use_id names tid in [ToolUseStart k (original_name names name), ToolUseDelta k (concat ts), ToolUseEnd k])"
  using assms
  by (cases b) (auto simp: cv_response_block_def cv_whole_block_def json_simps get_member_def restore_in_events_def restore_event_def cv_call_def settled_def parsed_or_def Let_def)

lemma cv_whole_blocks:
  assumes "distinct (map fst (an_calls a @ concat (map (cv_call names) bs)))" and "\<forall>(_, _, args) \<in> set (concat (map (cv_call names) bs)). settled S args"
  shows "fold (hear w c) (restore_in_events names (concat (map (cv_response_block S) (map (cv_whole_block S) bs)))) a =
    a\<lparr>an_text := an_text a @ concat (map cv_block_text bs), an_thinking := an_thinking a @ concat (map cv_block_thinking bs),
      an_calls := an_calls a @ concat (map (cv_call names) bs)\<rparr>"
  using assms
proof (induction bs arbitrary: a)
  case (Cons b bs)
  let ?a = "a\<lparr>an_text := an_text a @ cv_block_text b, an_thinking := an_thinking a @ cv_block_thinking b, an_calls := an_calls a @ cv_call names b\<rparr>"
  have "\<forall>(_, _, args) \<in> set (cv_call names b). settled S args" using Cons.prems(2) by auto
  then have "fold (hear w c) (restore_in_events names (cv_response_block S (cv_whole_block S b))) a = ?a"
    using Cons.prems(1) hear_calls [of a "cv_call names b" w c]
    by (simp add: cv_whole_read, cases b) (simp_all add: cv_block_text_def cv_block_thinking_def cv_call_def Let_def)
  moreover have "distinct (map fst (an_calls ?a @ concat (map (cv_call names) bs)))" using Cons.prems(1) by simp
  ultimately show ?case using Cons.IH [of ?a] Cons.prems(2) by (auto simp: restore_in_events_def)
qed (simp add: restore_in_events_def)

text \<open>
  A Converse answer says the same streamed and whole when the arguments of its calls are in the serialiser's own
  spelling: whatever its blocks of text, reasoning and calls, the stream, read event by event, and the
  whole body, read at once and its names restored, tell the same answer, with tool names and ids as the
  client wrote them, and the reason for stopping arrives once, with the usage that follows it on the
  wire. Other arguments keep the spelling of their pieces in a stream and get the serialiser's in a
  whole body.
\<close>

theorem converse_whole_is_streamed:
  assumes "distinct (map fst (concat (map (cv_call names) bs)))" and "usage_fits u" and "\<forall>(_, _, args) \<in> set (concat (map (cv_call names) bs)). settled S args"
  shows "\<exists>acc. read_all read_cv (cv_stream bs reason u) (acc_new\<lparr>acc_function_names := names\<rparr>, nothing_said) = Some (acc, cv_told names bs reason u) \<and>
    fold (hear same_word id) (restore_in_events names (cv_parse_response S (cv_whole S bs reason u))) nothing_said = cv_told names bs reason u"
proof -
  let ?acc = "acc_new\<lparr>acc_function_names := names\<rparr>"
  let ?said = "nothing_said\<lparr>an_text := concat (map cv_block_text bs), an_thinking := concat (map cv_block_thinking bs), an_calls := concat (map (cv_call names) bs)\<rparr>"
  have none: "merge usage_default v = v" "merge v v = v" for v by (simp_all add: merge_def usage_default_def)
  have start: "read_cv (cv_frame ''messageStart'' v) (?acc, nothing_said) = Some (?acc, nothing_said)" for v
    by (simp add: read_cv_def cv_event_one cv_stream_event_def observe_all_def nothing_said_def acc_new_def none)
  have "distinct (map fst (an_calls nothing_said @ concat (map (cv_call names) bs)))" using assms(1) by (simp add: nothing_said_def)
  from cv_blocks_read [OF _ _ this, of ?acc 0] obtain acc1 where
    blocks: "read_all read_cv (concat (map (\<lambda>(i, b). cv_block_frames i b) (enumerate 0 bs))) (?acc, nothing_said) = Some (acc1, ?said)"
    by (auto simp: nothing_said_def acc_new_def)
  have stop: "read_cv (cv_frame ''messageStop'' (JObj [(''stopReason'', JStr reason)])) (acc1, ?said) = Some (hold_stop (cv_stop_reason reason) acc1, ?said)"
    by (simp add: read_cv_def cv_event_one cv_stream_event_def json_simps observe_all_def)
  have bill: "\<exists>acc. read_cv (cv_frame ''metadata'' (JObj [(''usage'', cv_usage u)])) (hold_stop (cv_stop_reason reason) acc1, ?said) = Some (acc, cv_told names bs reason u)"
    by (simp add: read_cv_def cv_event_one cv_stream_event_def json_simps hold_stop_def take_held_stop_def cv_usage_read [OF assms(2)] cv_told_def nothing_said_def
        none Let_def same_word_def)
  have "\<exists>acc. read_all read_cv (cv_stream bs reason u) (?acc, nothing_said) = Some (acc, cv_told names bs reason u)"
    using bill by (auto simp: cv_stream_def read_all_append start blocks stop)
  moreover have "cv_parse_response S (cv_whole S bs reason u) =
      [UsageUpdate u] @ concat (map (cv_response_block S) (map (cv_whole_block S) bs)) @ [Stop (cv_stop_reason reason) u]"
    by (simp add: cv_parse_response_def cv_whole_def json_simps cv_usage_read [OF assms(2)] Let_def)
  then have "restore_in_events names (cv_parse_response S (cv_whole S bs reason u)) =
      [UsageUpdate u] @ restore_in_events names (concat (map (cv_response_block S) (map (cv_whole_block S) bs))) @ [Stop (cv_stop_reason reason) u]"
    by (simp add: restore_in_events_def restore_event_def)
  moreover have "fold (hear same_word id) (restore_in_events names (concat (map (cv_response_block S) (map (cv_whole_block S) bs)))) (nothing_said\<lparr>an_running := u\<rparr>) =
      ?said\<lparr>an_running := u\<rparr>"
    using cv_whole_blocks [of "nothing_said\<lparr>an_running := u\<rparr>" names bs S] assms(1,3) by (simp add: nothing_said_def)
  ultimately show ?thesis by (simp add: cv_told_def nothing_said_def none Let_def same_word_def)
qed

definition two_step_answer :: "cv_answer_block list" where
  "two_step_answer = [CvReasoning [''h'', ''m''], CvText [[], ''Let me '', ''look.''], CvCall ''tooluse_1'' ''find'' [''{'', ''}'']]"

theorem converse_whole_is_streamed_witness:
  "\<exists>acc. read_all read_cv (cv_stream two_step_answer ''tool_use'' usage_default) (acc_new\<lparr>acc_function_names := identity_names\<rparr>, nothing_said) =
     Some (acc, cv_told identity_names two_step_answer ''tool_use'' usage_default) \<and>
     an_calls (fold (hear same_word id) (restore_in_events identity_names (cv_parse_response tiny_serde (cv_whole tiny_serde two_step_answer ''tool_use'' usage_default))) nothing_said) =
       [(''tooluse_1'', ''find'', ''{}'')]"
proof -
  have calls: "concat (map (cv_call identity_names) two_step_answer) = [(''tooluse_1'', ''find'', ''{}'')]"
    by (simp add: two_step_answer_def cv_call_def identity_names_def original_name_def original_tool_use_id_def no_tool_use_ids_def id_original_def)
  moreover have "usage_fits usage_default" by (rule default_fits)
  moreover have "settled tiny_serde ''{}''" by (simp add: settled_def tiny_serde_def)
  ultimately show ?thesis
    using converse_whole_is_streamed [of identity_names two_step_answer usage_default tiny_serde "''tool_use''"] by (auto simp: cv_told_def)
qed

end
