(* ===== verification/Utf8.thy ===== *)
theory Utf8
  imports Rust_Strings
begin

text \<open>
  What the readers of an upstream's bytes use of Rust's standard library: UTF-8 as
  \<^verbatim>\<open>str::from_utf8\<close> checks it and \<^verbatim>\<open>String::from_utf8_lossy\<close> repairs it, the lines of a text, and
  big-endian integers. A well-formed text cut after a line break is two well-formed texts, and its
  lines are theirs.
\<close>

subsection \<open>Characters\<close>

text \<open>The ranges the bytes after a first byte must lie in, and how many of them do.\<close>

definition utf8_ranges :: "nat \<Rightarrow> (nat \<times> nat) list option" where
  "utf8_ranges n =
     (if n < 128 then Some []
      else if 194 \<le> n \<and> n \<le> 223 then Some [(128, 191)]
      else if n = 224 then Some [(160, 191), (128, 191)]
      else if n = 237 then Some [(128, 159), (128, 191)]
      else if 225 \<le> n \<and> n \<le> 239 then Some [(128, 191), (128, 191)]
      else if n = 240 then Some [(144, 191), (128, 191), (128, 191)]
      else if 241 \<le> n \<and> n \<le> 243 then Some [(128, 191), (128, 191), (128, 191)]
      else if n = 244 then Some [(128, 143), (128, 191), (128, 191)]
      else None)"

fun follow :: "(nat \<times> nat) list \<Rightarrow> string \<Rightarrow> nat" where
  "follow ((lo, hi) # rs) (c # s) = (if lo \<le> of_char c \<and> of_char c \<le> hi then Suc (follow rs s) else 0)"
| "follow _ _ = 0"

definition utf8_char :: "char \<Rightarrow> string \<Rightarrow> bool \<times> nat" where
  "utf8_char c s =
     (case utf8_ranges (of_char c) of
        None \<Rightarrow> (False, 1)
      | Some rs \<Rightarrow> (follow rs s = length rs, Suc (follow rs s)))"

lemma utf8_char_pos [simp]: "0 < snd (utf8_char c s)"
  by (simp add: utf8_char_def split: option.split)

lemma utf8_char_step: "(ok, n) = utf8_char c s \<Longrightarrow> length (drop n (c # s)) < Suc (length s)"
  using utf8_char_pos [of c s] by (cases n) (auto simp del: utf8_char_pos dest: arg_cong [where f = snd])

function valid_utf8 :: "string \<Rightarrow> bool" where
  "valid_utf8 [] = True"
| "valid_utf8 (c # s) = (case utf8_char c s of (ok, n) \<Rightarrow> ok \<and> valid_utf8 (drop n (c # s)))"
  by pat_completeness auto
termination by (relation "measure length") (auto dest: utf8_char_step)

definition REPLACEMENT :: string where
  "REPLACEMENT = byte_string [239, 191, 189]"

function from_utf8_lossy :: "string \<Rightarrow> string" where
  "from_utf8_lossy [] = []"
| "from_utf8_lossy (c # s) =
     (case utf8_char c s of (ok, n) \<Rightarrow> (if ok then take n (c # s) else REPLACEMENT) @ from_utf8_lossy (drop n (c # s)))"
  by pat_completeness auto
termination by (relation "measure length") (auto dest: utf8_char_step)

lemma lossy_valid [simp]: "valid_utf8 s \<Longrightarrow> from_utf8_lossy s = s"
  by (induction s rule: from_utf8_lossy.induct) (auto simp: split: prod.splits)

subsection \<open>Lines\<close>

abbreviation LF :: char where "LF \<equiv> CHR 0x0A"
abbreviation CR :: char where "CR \<equiv> CHR 0x0D"

definition ends_line :: "string \<Rightarrow> bool" where
  "ends_line p = (p = [] \<or> last p = LF)"

definition strip_cr :: "string \<Rightarrow> string" where
  "strip_cr l = (if l \<noteq> [] \<and> last l = CR then butlast l else l)"

text \<open>\<^verbatim>\<open>str::lines\<close>: a line ends at a line feed, which takes the carriage return before it along.\<close>

fun lines_from :: "string \<Rightarrow> string \<Rightarrow> string list" where
  "lines_from l [] = (if l = [] then [] else [l])"
| "lines_from l (c # s) = (if c = LF then strip_cr l # lines_from [] s else lines_from (l @ [c]) s)"

definition lines_of :: "string \<Rightarrow> string list" where
  "lines_of s = lines_from [] s"

lemma lines_from_append:
  "p \<noteq> [] \<Longrightarrow> last p = LF \<Longrightarrow> lines_from l (p @ q) = lines_from l p @ lines_from [] q"
proof (induction p arbitrary: l)
  case (Cons c p)
  then show ?case by (cases p) auto
qed simp

lemma lines_append: "ends_line p \<Longrightarrow> lines_of (p @ q) = lines_of p @ lines_of q"
  by (cases "p = []") (simp_all add: ends_line_def lines_of_def lines_from_append)

subsection \<open>Cutting a text after a line break\<close>

lemma follow_append:
  assumes "s \<noteq> []" "last s = LF" "\<forall>(lo, hi) \<in> set rs. 128 \<le> lo"
  shows "follow rs (s @ q) = follow rs s \<and> follow rs s < length s"
  using assms
proof (induction rs s rule: follow.induct)
  case (1 lo hi rs c s)
  then show ?case by (cases "s = []") auto
qed auto

lemma utf8_ranges_high: "utf8_ranges n = Some rs \<Longrightarrow> \<forall>(lo, hi) \<in> set rs. 128 \<le> lo"
  by (auto simp: utf8_ranges_def split: if_splits)

lemma utf8_char_append:
  assumes "last (c # s) = LF"
  shows "utf8_char c (s @ q) = utf8_char c s \<and> snd (utf8_char c s) \<le> Suc (length s) \<and>
    (drop (snd (utf8_char c s)) (c # s) \<noteq> [] \<longrightarrow> last (drop (snd (utf8_char c s)) (c # s)) = LF)"
proof (cases "s = []")
  case True
  then show ?thesis using assms by (simp add: utf8_char_def utf8_ranges_def)
next
  case False
  then have s: "last s = LF" using assms by simp
  show ?thesis
  proof (cases "utf8_ranges (of_char c)")
    case None
    then show ?thesis using False s by (simp add: utf8_char_def)
  next
    case (Some rs)
    from follow_append [OF False s utf8_ranges_high [OF Some]] show ?thesis
      using s by (auto simp: utf8_char_def Some less_imp_le)
  qed
qed

lemma valid_utf8_append_line:
  "p \<noteq> [] \<Longrightarrow> last p = LF \<Longrightarrow> valid_utf8 (p @ q) \<longleftrightarrow> valid_utf8 p \<and> valid_utf8 q"
proof (induction p rule: valid_utf8.induct)
  case (2 c s)
  obtain ok n where u: "utf8_char c s = (ok, n)" by force
  from utf8_char_append [of c s q] 2(3) u
  have n: "utf8_char c (s @ q) = (ok, n)" "n \<le> Suc (length s)" "drop n (c # s) \<noteq> [] \<Longrightarrow> last (drop n (c # s)) = LF"
    by auto
  have pre: "drop n (c # s @ q) = drop n (c # s) @ q"
    using n(2) by (metis append_Cons drop_append diff_is_0_eq drop0 length_Cons)
  show ?case
  proof (cases "drop n (c # s) = []")
    case True
    then show ?thesis by (simp add: u n(1) pre)
  next
    case False
    from 2(1) [OF u [symmetric] False n(3) [OF False]] show ?thesis by (auto simp: u n(1) pre)
  qed
qed simp

lemma valid_utf8_append: "ends_line p \<Longrightarrow> valid_utf8 (p @ q) \<longleftrightarrow> valid_utf8 p \<and> valid_utf8 q"
  by (cases "p = []") (simp_all add: ends_line_def valid_utf8_append_line)

subsection \<open>Big-endian integers\<close>

definition from_be_bytes :: "string \<Rightarrow> nat" where
  "from_be_bytes bs = foldl (\<lambda>n c. 256 * n + of_char c) 0 bs"

fun to_be_bytes :: "nat \<Rightarrow> nat \<Rightarrow> string" where
  "to_be_bytes 0 n = []"
| "to_be_bytes (Suc k) n = to_be_bytes k (n div 256) @ [char_of n]"

lemma length_to_be_bytes [simp]: "length (to_be_bytes k n) = k"
  by (induction k arbitrary: n) simp_all

lemma be_bytes_round_trip: "n < 256 ^ k \<Longrightarrow> from_be_bytes (to_be_bytes k n) = n"
proof (induction k arbitrary: n)
  case (Suc k)
  then have "n div 256 < 256 ^ k" by (simp add: less_mult_imp_div_less mult.commute)
  with Suc.IH show ?case by (simp add: from_be_bytes_def)
qed (simp add: from_be_bytes_def)

end
