(* ===== verification/Framing.thy ===== *)
theory Framing
  imports Utf8
begin

text \<open>
  Taking events out of the bytes of a stream. An upstream's body arrives in reads that end anywhere;
  a reader takes the complete events and keeps the partial tail. The locale \<open>framed\<close> is what a framing
  promises: what a read leaves behind holds nothing complete, and reading in pieces takes what reading
  at once takes. Server-sent events (\<^verbatim>\<open>take_sse_payloads\<close> of \<^verbatim>\<open>oag-server/src/gateway/sse.rs\<close>) keep the
  promise on bodies whose complete part is UTF-8.
\<close>

subsection \<open>The promise\<close>

fun take_chunks :: "(bytes \<Rightarrow> 'p list \<times> bytes) \<Rightarrow> bytes list \<Rightarrow> bytes \<Rightarrow> 'p list \<times> bytes" where
  "take_chunks tk [] pending = ([], pending)"
| "take_chunks tk (c # cs) pending =
     (case tk (pending @ c) of (ps, tail) \<Rightarrow> case take_chunks tk cs tail of (qs, rest) \<Rightarrow> (ps @ qs, rest))"

lemma take_chunks_append:
  "take_chunks tk (xs @ ys) pending =
     (fst (take_chunks tk xs pending) @ fst (take_chunks tk ys (snd (take_chunks tk xs pending))),
      snd (take_chunks tk ys (snd (take_chunks tk xs pending))))"
  by (induction xs arbitrary: pending) (simp_all add: case_prod_unfold)

locale framed =
  fixes tk :: "bytes \<Rightarrow> 'p list \<times> bytes"
    and readable :: "bytes \<Rightarrow> bool"
  assumes empty_read: "tk [] = ([], [])"
    and spent: "tk (snd (tk b)) = ([], snd (tk b))"
    and resumed: "readable (b @ c) \<Longrightarrow> fst (tk (b @ c)) = fst (tk b) @ fst (tk (snd (tk b) @ c))"
    and readable_tail: "readable (b @ c) \<Longrightarrow> readable (snd (tk b) @ c)"
begin

lemma take_pending_nothing: "fst (tk (snd (tk b))) = []"
  by (simp add: spent)

lemma take_chunks_any:
  "fst (tk pending) = [] \<Longrightarrow> readable (pending @ concat cs) \<Longrightarrow>
   fst (take_chunks tk cs pending) = fst (tk (pending @ concat cs))"
proof (induction cs arbitrary: pending)
  case (Cons c cs)
  obtain ps tail where t: "tk (pending @ c) = (ps, tail)" by force
  have r: "readable ((pending @ c) @ concat cs)" using Cons.prems(2) by simp
  have tail: "fst (tk tail) = []" using take_pending_nothing [of "pending @ c"] t by simp
  from resumed [OF r] have "fst (tk (pending @ concat (c # cs))) = ps @ fst (tk (tail @ concat cs))" by (simp add: t)
  moreover have "fst (take_chunks tk cs tail) = fst (tk (tail @ concat cs))"
    using Cons.IH [OF tail] readable_tail [OF r] by (simp add: t)
  ultimately show ?case by (simp add: t case_prod_unfold)
qed simp

lemma take_chunks_fresh: "readable (concat cs) \<Longrightarrow> fst (take_chunks tk cs []) = fst (tk (concat cs))"
  using take_chunks_any [of "[]" cs] by (simp add: empty_read)

lemma take_chunks_tail: "cs \<noteq> [] \<Longrightarrow> tk (snd (take_chunks tk cs pending)) = ([], snd (take_chunks tk cs pending))"
proof (induction cs arbitrary: pending)
  case IH: (Cons c cs)
  obtain ps tail where t: "tk (pending @ c) = (ps, tail)" by force
  show ?case
  proof (cases cs)
    case Nil
    then show ?thesis using spent [of "pending @ c"] by (simp add: t)
  next
    case (Cons c1 cs1)
    then have "cs \<noteq> []" by simp
    from IH.IH [OF this, of tail] show ?thesis by (simp add: t case_prod_unfold)
  qed
qed simp

lemma filtered: "framed (\<lambda>b. (List.map_filter f (fst (tk b)), snd (tk b))) readable"
proof unfold_locales
  show "readable (b @ c) \<Longrightarrow> fst (List.map_filter f (fst (tk (b @ c))), snd (tk (b @ c))) =
      fst (List.map_filter f (fst (tk b)), snd (tk b)) @
      fst (List.map_filter f (fst (tk (snd (List.map_filter f (fst (tk b)), snd (tk b)) @ c))),
        snd (tk (snd (List.map_filter f (fst (tk b)), snd (tk b)) @ c)))" for b c
    by (simp add: resumed List.map_filter_def)
qed (simp_all add: empty_read spent readable_tail List.map_filter_simps)

end

subsection \<open>Server-sent events\<close>

definition blank_at :: "bytes \<Rightarrow> nat \<Rightarrow> bool" where
  "blank_at buf i =
     (buf ! i = LF \<and> (buf ! (i - 1) = LF \<or> (i \<ge> 2 \<and> buf ! (i - 1) = CR \<and> buf ! (i - 2) = LF)))"

definition last_blank_line :: "bytes \<Rightarrow> nat option" where
  "last_blank_line buf = find (blank_at buf) (rev [1..<length buf])"

definition data_payload :: "string \<Rightarrow> string option" where
  "data_payload l =
     (case strip_prefix ''data:'' l of
        None \<Rightarrow> None
      | Some rest \<Rightarrow> let p = trim rest in if p \<noteq> [] \<and> p \<noteq> ''[DONE]'' then Some p else None)"

definition data_payloads :: "string \<Rightarrow> string list" where
  "data_payloads s = List.map_filter data_payload (lines_of s)"

definition take_sse_payloads :: "bytes \<Rightarrow> string list \<times> bytes" where
  "take_sse_payloads buf =
     (case last_blank_line buf of
        None \<Rightarrow> ([], buf)
      | Some i \<Rightarrow>
          let complete = take (Suc i) buf in
          (if valid_utf8 complete then data_payloads complete else [], drop (Suc i) buf))"

text \<open>The complete part of a buffer: up to its last blank line.\<close>

definition complete_part :: "bytes \<Rightarrow> bytes" where
  "complete_part buf = (case last_blank_line buf of None \<Rightarrow> [] | Some i \<Rightarrow> take (Suc i) buf)"

definition sse_readable :: "bytes \<Rightarrow> bool" where
  "sse_readable buf = valid_utf8 (complete_part buf)"

lemma find_rev_upt:
  "find P (rev [a..<n]) = Some i \<longleftrightarrow> a \<le> i \<and> i < n \<and> P i \<and> (\<forall>j. i < j \<and> j < n \<longrightarrow> \<not> P j)"
proof (induction n)
  case (Suc n)
  then show ?case by (cases "a \<le> n") (auto simp: less_Suc_eq)
qed simp

lemma last_blank_line_Some:
  "last_blank_line buf = Some i \<longleftrightarrow>
     1 \<le> i \<and> i < length buf \<and> blank_at buf i \<and> (\<forall>j. i < j \<and> j < length buf \<longrightarrow> \<not> blank_at buf j)"
  by (simp add: last_blank_line_def find_rev_upt)

lemma last_blank_line_None:
  "last_blank_line buf = None \<longleftrightarrow> (\<forall>j. 1 \<le> j \<and> j < length buf \<longrightarrow> \<not> blank_at buf j)"
  by (auto simp: last_blank_line_def find_None_iff)

lemma take_sse_complete:
  "take_sse_payloads buf =
     (if sse_readable buf then data_payloads (complete_part buf) else [], drop (length (complete_part buf)) buf)"
proof (cases "last_blank_line buf")
  case None
  then show ?thesis
    by (simp add: take_sse_payloads_def complete_part_def data_payloads_def lines_of_def List.map_filter_simps)
next
  case (Some i)
  then have "i < length buf" by (simp add: last_blank_line_Some)
  then have "length (take (Suc i) buf) = Suc i" by simp
  with Some show ?thesis
    by (simp only: take_sse_payloads_def complete_part_def sse_readable_def option.case Let_def)
qed

lemma complete_part_ends: "ends_line (complete_part buf)"
proof (cases "last_blank_line buf")
  case (Some i)
  then have "i < length buf" "buf ! i = LF" by (simp_all add: last_blank_line_Some blank_at_def)
  with Some show ?thesis by (simp add: complete_part_def ends_line_def take_Suc_conv_app_nth)
qed (simp add: complete_part_def ends_line_def)

lemma complete_part_split: "complete_part buf @ drop (length (complete_part buf)) buf = buf"
  by (auto simp: complete_part_def last_blank_line_Some split: option.split)

text \<open>Blank lines of a text that follows a line break.\<close>

lemma blank_at_shift:
  "blank_at (p @ u) (length p + Suc (Suc i)) \<longleftrightarrow> blank_at u (Suc (Suc i))"
  "blank_at (p @ u) (length p + Suc 0) \<longleftrightarrow>
     u ! Suc 0 = LF \<and> (u ! 0 = LF \<or> p \<noteq> [] \<and> u ! 0 = CR \<and> last p = LF)"
  "p \<noteq> [] \<Longrightarrow> last p = LF \<Longrightarrow> blank_at (p @ u) (length p) \<longleftrightarrow> u ! 0 = LF"
  by (auto simp: blank_at_def nth_append last_conv_nth numeral_2_eq_2 Suc_le_eq)

lemma blank_at_after: "1 \<le> j \<Longrightarrow> blank_at u j \<Longrightarrow> blank_at (p @ u) (length p + j)"
proof (cases j)
  case (Suc k)
  assume "blank_at u j"
  then show ?thesis
  proof (cases k)
    case 0
    then show ?thesis using \<open>blank_at u j\<close> unfolding Suc 0 blank_at_shift(2) by (simp add: blank_at_def)
  next
    case (Suc i)
    then show ?thesis using \<open>blank_at u j\<close> \<open>j = Suc k\<close> by (simp only: blank_at_shift(1))
  qed
qed simp

lemma blank_at_within: "i < length p \<Longrightarrow> blank_at (p @ u) i \<longleftrightarrow> blank_at p i"
  by (auto simp: blank_at_def nth_append)

lemma last_blank_line_after:
  assumes p: "p \<noteq> []" "last p = LF"
    and last: "last_blank_line (p @ t) = Some (length p - 1)"
  shows "last_blank_line t = None"
  unfolding last_blank_line_None
proof (intro allI impI notI)
  fix j
  assume j: "1 \<le> j \<and> j < length t" and b: "blank_at t j"
  have "blank_at (p @ t) (length p + j)" using j b by (intro blank_at_after) simp_all
  moreover have "length p - 1 < length p + j" "length p + j < length (p @ t)" using p j by auto
  ultimately show False using last by (auto simp: last_blank_line_Some)
qed

lemma complete_part_cases:
  obtains "complete_part buf = []" "last_blank_line buf = None"
  | p where "complete_part buf = p" "p \<noteq> []" "last p = LF" "last_blank_line buf = Some (length p - 1)"
proof (cases "last_blank_line buf")
  case None
  then show ?thesis using that(1) by (simp add: complete_part_def)
next
  case (Some i)
  then have i: "i < length buf" by (simp add: last_blank_line_Some)
  then have "length (complete_part buf) - 1 = i" "complete_part buf \<noteq> []" by (auto simp: complete_part_def Some)
  then show ?thesis using that(2) [OF refl] complete_part_ends [of buf] Some by (simp add: ends_line_def)
qed

text \<open>A tail holds no blank line of its own, so nothing complete.\<close>

lemma complete_part_tail: "last_blank_line (drop (length (complete_part buf)) buf) = None"
proof (cases rule: complete_part_cases [of buf])
  case (2 p)
  then have "last_blank_line (p @ drop (length p) buf) = Some (length p - 1)" using complete_part_split [of buf] by simp
  from last_blank_line_after [OF 2(2,3) this] show ?thesis by (simp add: 2(1))
qed simp

text \<open>
  A blank line of the whole that the tail does not have is a line break right after the consumed part: it
  moves the cut, and no payload.
\<close>

lemma complete_part_append_more:
  assumes "last_blank_line u = Some j"
  shows "complete_part (p @ u) = p @ complete_part u"
proof -
  have j: "1 \<le> j" "j < length u" "blank_at u j" "\<And>k. j < k \<Longrightarrow> k < length u \<Longrightarrow> \<not> blank_at u k"
    using assms by (auto simp: last_blank_line_Some)
  have "last_blank_line (p @ u) = Some (length p + j)"
    unfolding last_blank_line_Some
  proof (intro conjI allI impI)
    show "blank_at (p @ u) (length p + j)" using j(1,3) by (rule blank_at_after)
    fix k assume k: "length p + j < k \<and> k < length (p @ u)"
    then have "length p + 1 < k" using j(1) by simp
    from less_imp_Suc_add [OF this] obtain i where i: "k = length p + Suc (Suc i)" by auto
    then show "\<not> blank_at (p @ u) k" using j(4) [of "Suc (Suc i)"] k unfolding i blank_at_shift(1) by simp
  qed (use j in auto)
  then show ?thesis by (simp add: complete_part_def assms)
qed

lemma complete_part_append_break:
  assumes "last_blank_line (p @ t) = Some (length p - 1)" "p \<noteq> []" "last p = LF" "last_blank_line (t @ c) = None"
  shows "complete_part (p @ t @ c) \<in> {p, p @ [LF], p @ [CR, LF]}"
proof -
  let ?u = "t @ c"
  note None = assms(4)
  have far: "\<not> blank_at (p @ ?u) (length p + Suc (Suc i))" if "Suc (Suc i) < length ?u" for i
    using that None by (simp only: blank_at_shift(1) last_blank_line_None) simp
  have near: "\<not> (?u ! Suc 0 = LF \<and> ?u ! 0 = LF)" if "Suc 0 < length ?u"
    using None that by (auto simp: last_blank_line_None blank_at_def)
  have one: "blank_at (p @ ?u) (length p + Suc 0) \<longleftrightarrow> ?u ! Suc 0 = LF \<and> ?u ! 0 = CR" if "Suc 0 < length ?u"
    using near [OF that] assms(2,3) unfolding blank_at_shift(2) by auto
  have zero: "blank_at (p @ ?u) (length p) \<longleftrightarrow> ?u ! 0 = LF"
    by (simp add: blank_at_shift(3) [OF assms(2,3)])
  have old: "blank_at (p @ ?u) (length p - 1)" "1 \<le> length p - 1"
    using assms(1,2) by (auto simp: last_blank_line_Some blank_at_within)
  have above: "\<not> blank_at (p @ ?u) k" if "length p + 1 < k" "k < length (p @ ?u)" for k
  proof -
    from less_imp_Suc_add [OF that(1)] obtain i where "k = length p + Suc (Suc i)" by auto
    then show ?thesis using far that by simp
  qed
  consider (crlf) "Suc 0 < length ?u" "?u ! Suc 0 = LF" "?u ! 0 = CR"
    | (lf) "0 < length ?u" "?u ! 0 = LF" "Suc 0 < length ?u \<Longrightarrow> \<not> blank_at (p @ ?u) (length p + Suc 0)"
    | (no) "0 < length ?u \<Longrightarrow> \<not> blank_at (p @ ?u) (length p)" "Suc 0 < length ?u \<Longrightarrow> \<not> blank_at (p @ ?u) (length p + Suc 0)"
    using one zero by auto
  then show ?thesis
  proof cases
    case crlf
    have "last_blank_line (p @ ?u) = Some (length p + Suc 0)"
      unfolding last_blank_line_Some using crlf one above assms(2) by auto
    then have "complete_part (p @ ?u) = p @ take 2 ?u" by (simp add: complete_part_def numeral_2_eq_2)
    moreover have "take 2 ?u = [CR, LF]" using crlf by (cases ?u; cases "tl ?u") auto
    ultimately show ?thesis by simp
  next
    case lf
    have "\<not> blank_at (p @ ?u) k" if "length p < k" "k < length (p @ ?u)" for k
      using lf(3) above [of k] that by (cases "k = length p + Suc 0") auto
    then have "last_blank_line (p @ ?u) = Some (length p)"
      unfolding last_blank_line_Some using lf(1,2) zero assms(2) by (auto simp: Suc_le_eq)
    then have "complete_part (p @ ?u) = p @ take 1 ?u" by (simp add: complete_part_def)
    moreover have "take 1 ?u = [LF]" using lf by (cases ?u) auto
    ultimately show ?thesis by simp
  next
    case no
    have "\<not> blank_at (p @ ?u) k" if "length p - 1 < k" "k < length (p @ ?u)" for k
      using no above [of k] that by (cases "k = length p"; cases "k = length p + Suc 0") auto
    then have "last_blank_line (p @ ?u) = Some (length p - 1)"
      unfolding last_blank_line_Some using old assms(2) by auto
    then show ?thesis using assms(2) by (simp add: complete_part_def)
  qed
qed

lemma complete_part_append:
  assumes "last_blank_line (p @ t) = Some (length p - 1)" "p \<noteq> []" "last p = LF"
  shows "complete_part (p @ t @ c) = p @ complete_part (t @ c) \<or>
    (complete_part (t @ c) = [] \<and> complete_part (p @ t @ c) \<in> {p @ [LF], p @ [CR, LF]})"
proof (cases "last_blank_line (t @ c)")
  case None
  from complete_part_append_break [OF assms None] None show ?thesis by (auto simp: complete_part_def)
next
  case (Some j)
  from complete_part_append_more [OF Some] show ?thesis by simp
qed

lemma no_payload_in_break: "data_payloads [] = []" "data_payloads [LF] = []" "data_payloads [CR, LF] = []"
  by (simp_all add: data_payloads_def lines_of_def strip_cr_def data_payload_def strip_prefix_def List.map_filter_simps)

lemma data_payloads_append: "ends_line p \<Longrightarrow> data_payloads (p @ q) = data_payloads p @ data_payloads q"
  by (simp add: data_payloads_def lines_append List.map_filter_def)

lemma sse_resumed:
  assumes "sse_readable (b @ c)"
  shows "fst (take_sse_payloads (b @ c)) = fst (take_sse_payloads b) @ fst (take_sse_payloads (snd (take_sse_payloads b) @ c))
    \<and> sse_readable (snd (take_sse_payloads b) @ c)"
proof (cases rule: complete_part_cases [of b])
  case 1
  then show ?thesis using assms by (simp add: take_sse_complete data_payloads_def lines_of_def List.map_filter_simps)
next
  case (2 p)
  define t where "t = drop (length p) b"
  have b: "b = p @ t" using complete_part_split [of b] 2(1) by (simp add: t_def)
  have p: "ends_line p" using complete_part_ends [of b] 2(1) by simp
  have valid: "valid_utf8 (p @ D) \<longleftrightarrow> valid_utf8 p \<and> valid_utf8 D" for D by (rule valid_utf8_append [OF p])
  have t: "snd (take_sse_payloads b) = t" by (simp add: take_sse_complete 2(1) t_def)
  from 2(4) have "last_blank_line (p @ t) = Some (length p - 1)" by (simp add: b)
  from complete_part_append [OF this 2(2,3), of c] show ?thesis
  proof
    assume whole: "complete_part (p @ t @ c) = p @ complete_part (t @ c)"
    then have ok: "valid_utf8 p" "valid_utf8 (complete_part (t @ c))"
      using assms valid by (simp_all add: sse_readable_def b)
    then show ?thesis
      unfolding t using 2(1) whole valid by (simp add: take_sse_complete sse_readable_def b data_payloads_append [OF p])
  next
    assume cut: "complete_part (t @ c) = [] \<and> complete_part (p @ t @ c) \<in> {p @ [LF], p @ [CR, LF]}"
    then have ok: "valid_utf8 p" using assms valid by (auto simp: sse_readable_def b)
    show ?thesis
      unfolding t using 2(1) cut ok assms
      by (auto simp: take_sse_complete sse_readable_def b data_payloads_append [OF p] no_payload_in_break)
  qed
qed

interpretation sse: framed take_sse_payloads sse_readable
proof unfold_locales
  show "take_sse_payloads [] = ([], [])" by (simp add: take_sse_payloads_def last_blank_line_def)
  fix b c :: bytes
  show "take_sse_payloads (snd (take_sse_payloads b)) = ([], snd (take_sse_payloads b))"
    using complete_part_tail [of b] by (simp add: take_sse_complete [of b]) (simp add: take_sse_payloads_def)
  assume "sse_readable (b @ c)"
  from sse_resumed [OF this] show
    "fst (take_sse_payloads (b @ c)) = fst (take_sse_payloads b) @ fst (take_sse_payloads (snd (take_sse_payloads b) @ c))"
    "sse_readable (snd (take_sse_payloads b) @ c)" by simp_all
qed

end
