(* ===== verification/Event_Stream.thy ===== *)
theory Event_Stream
  imports Framing Converse
begin

text \<open>
  AWS event-stream framing (\<^verbatim>\<open>oag-upstream/src/eventstream.rs\<close>): length-prefixed binary messages with
  typed headers. Taking messages out of the bytes, the header block, and the two readers that turn a
  message into an event of its dialect: Bedrock's envelope for Anthropic's events and Converse's, named
  by a header. The writer of the tests' stand-in Bedrock is modelled with them, checksums included, and
  what it writes is read back, however the bytes are cut. Base64 is a third-party decoder, the parameter
  \<open>b64\<close>; JSON is the parameter \<open>S\<close>.
\<close>

subsection \<open>Messages\<close>

definition PRELUDE_LEN :: nat where "PRELUDE_LEN = 12"
definition OVERHEAD :: nat where "OVERHEAD = PRELUDE_LEN + 4"
definition MAX_MESSAGE_LEN :: nat where "MAX_MESSAGE_LEN = 16 * 1024 * 1024"

record es_headers =
  event_type :: "string option"
  exception_type :: "string option"
  message_type :: "string option"
  error_code :: "string option"
  error_message :: "string option"

definition es_headers_default :: es_headers where
  "es_headers_default =
     \<lparr>event_type = None, exception_type = None, message_type = None, error_code = None, error_message = None\<rparr>"

record es_message =
  es_headers_of :: es_headers
  es_payload :: bytes

text \<open>One header's value, by its type: whether it is a string, and what is left of the block.\<close>

definition skip_value :: "nat \<Rightarrow> bytes \<Rightarrow> (string option \<times> bytes) option" where
  "skip_value n b = (if length b < n then None else Some (None, drop n b))"

definition header_value :: "nat \<Rightarrow> bytes \<Rightarrow> (string option \<times> bytes) option" where
  "header_value t b =
     (if t \<le> 1 then Some (None, b)
      else if t = 2 then skip_value 1 b
      else if t \<le> 5 then skip_value (if t = 3 then 2 else if t = 4 then 4 else 8) b
      else if t \<le> 7 then
        (if length b < 2 then None
         else let len = from_be_bytes (take 2 b) in
           if length b < 2 + len then None
           else Some (if t = 7 then Some (from_utf8_lossy (take len (drop 2 b))) else None, drop (2 + len) b))
      else if t = 8 then skip_value 8 b
      else if t = 9 then skip_value 16 b
      else None)"

definition next_header :: "bytes \<Rightarrow> (string \<times> string option \<times> bytes) option" where
  "next_header b =
     (if length b < 2 then None
      else let name_len = of_char (b ! 0) in
        if length b < 1 + name_len + 1 then None
        else case header_value (of_char (b ! (1 + name_len))) (drop (1 + name_len + 1) b) of
            None \<Rightarrow> None
          | Some (value, rest) \<Rightarrow> Some (from_utf8_lossy (take name_len (drop 1 b)), value, rest))"

definition set_header :: "string \<Rightarrow> string option \<Rightarrow> es_headers \<Rightarrow> es_headers" where
  "set_header name value h =
     (if name = '':event-type'' then h\<lparr>event_type := value\<rparr>
      else if name = '':exception-type'' then h\<lparr>exception_type := value\<rparr>
      else if name = '':message-type'' then h\<lparr>message_type := value\<rparr>
      else if name = '':error-code'' then h\<lparr>error_code := value\<rparr>
      else if name = '':error-message'' then h\<lparr>error_message := value\<rparr>
      else h)"

lemma header_value_shrinks: "header_value t b = Some (v, rest) \<Longrightarrow> length rest \<le> length b"
  by (auto simp: header_value_def skip_value_def Let_def split: if_splits)

lemma next_header_shrinks: "next_header b = Some (name, v, rest) \<Longrightarrow> length rest < length b"
  by (auto simp: next_header_def Let_def split: if_splits option.splits prod.splits dest!: header_value_shrinks)

function parse_headers :: "bytes \<Rightarrow> es_headers \<Rightarrow> es_headers" where
  "parse_headers b h =
     (case next_header b of None \<Rightarrow> h | Some (name, value, rest) \<Rightarrow> parse_headers rest (set_header name value h))"
  by auto
termination by (relation "measure (length \<circ> fst)") (auto dest: next_header_shrinks)

declare parse_headers.simps [simp del]

definition next_message :: "bytes \<Rightarrow> (es_message \<times> nat) option" where
  "next_message rest =
     (if length rest < PRELUDE_LEN then None
      else
        let total_len = from_be_bytes (take 4 rest);
            headers_len = from_be_bytes (take 4 (drop 4 rest)) in
        if \<not> (OVERHEAD \<le> total_len \<and> total_len \<le> MAX_MESSAGE_LEN) \<or> headers_len > total_len - OVERHEAD then None
        else if length rest < total_len then None
        else Some (\<lparr>es_headers_of = parse_headers (take headers_len (drop PRELUDE_LEN rest)) es_headers_default,
            es_payload = take (total_len - 4 - (PRELUDE_LEN + headers_len)) (drop (PRELUDE_LEN + headers_len) rest)\<rparr>, total_len))"

lemma next_message_size: "next_message b = Some (m, n) \<Longrightarrow> 0 < n \<and> n \<le> length b"
  by (auto simp: next_message_def OVERHEAD_def Let_def split: if_splits)

function take_messages :: "bytes \<Rightarrow> es_message list \<times> bytes" where
  "take_messages buf =
     (case next_message buf of
        None \<Rightarrow> ([], buf)
      | Some (m, total_len) \<Rightarrow> (case take_messages (drop total_len buf) of (ms, tail) \<Rightarrow> (m # ms, tail)))"
  by auto
termination by (relation "measure length") (auto dest: next_message_size)

declare take_messages.simps [simp del]

subsection \<open>Events\<close>

definition exception_event :: "serde \<Rightarrow> string \<Rightarrow> bytes \<Rightarrow> string" where
  "exception_event S kind payload =
     (let body = from_utf8_lossy payload;
          said = (case from_text S body of Inr v \<Rightarrow> as_str (idx v ''message'') | Inl _ \<Rightarrow> None) in
      to_text S (JObj [(''type'', JStr ''error''),
        (''error'', JObj [(''type'', JStr kind), (''message'', JStr (case said of Some m \<Rightarrow> m | None \<Rightarrow> body))])]))"

definition stream_error :: "es_message \<Rightarrow> string option" where
  "stream_error msg =
     (if message_type (es_headers_of msg) \<noteq> Some ''error'' then None
      else
        let code = nonempty (error_code (es_headers_of msg));
            words = or_else (nonempty (error_message (es_headers_of msg)))
              (nonempty (Some (trim (from_utf8_lossy (es_payload msg))))) in
        Some (case (code, words) of
            (Some c, Some w) \<Rightarrow> c @ '': '' @ w
          | (Some c, None) \<Rightarrow> c
          | (None, Some w) \<Rightarrow> w
          | (None, None) \<Rightarrow> ''the upstream's event stream reported an error and named none''))"

definition inner_event :: "serde \<Rightarrow> (string \<Rightarrow> bytes option) \<Rightarrow> es_message \<Rightarrow> string option" where
  "inner_event S b64 msg =
     (case exception_type (es_headers_of msg) of
        Some kind \<Rightarrow> Some (exception_event S kind (es_payload msg))
      | None \<Rightarrow>
          (case stream_error msg of
             Some e \<Rightarrow> Some (to_text S (JObj [(''type'', JStr ''error''),
               (''error'', JObj [(''type'', JStr ''error''), (''message'', JStr e)])]))
           | None \<Rightarrow>
               (case from_text S (es_payload msg) of
                  Inl _ \<Rightarrow> None
                | Inr v \<Rightarrow>
                    (case as_str (idx v ''bytes'') of
                       None \<Rightarrow> None
                     | Some encoded \<Rightarrow>
                         (case b64 encoded of
                            None \<Rightarrow> None
                          | Some decoded \<Rightarrow> if valid_utf8 decoded then Some decoded else None)))))"

definition union_text :: "serde \<Rightarrow> string \<Rightarrow> json \<Rightarrow> string" where
  "union_text S kind payload = to_text S (JObj [(kind, payload)])"

definition converse_event :: "serde \<Rightarrow> es_message \<Rightarrow> string option" where
  "converse_event S msg =
     (case stream_error msg of
        Some e \<Rightarrow> Some (union_text S STREAM_ERROR (JObj [(''message'', JStr e)]))
      | None \<Rightarrow>
          (case exception_type (es_headers_of msg) of
             Some kind \<Rightarrow>
               (let body = from_utf8_lossy (es_payload msg);
                    payload = (case from_text S body of
                       Inr v \<Rightarrow> if is_object v then v else JObj [(''message'', JStr body)]
                     | Inl _ \<Rightarrow> JObj [(''message'', JStr body)]) in
                Some (union_text S kind payload))
           | None \<Rightarrow>
               (case event_type (es_headers_of msg) of
                  None \<Rightarrow> None
                | Some kind \<Rightarrow>
                    (case from_text S (es_payload msg) of
                       Inl _ \<Rightarrow> None
                     | Inr payload \<Rightarrow> Some (union_text S kind payload)))))"

subsection \<open>Writing messages\<close>

unbundle bit_operations_syntax

definition crc_bit :: "32 word \<Rightarrow> 32 word" where
  "crc_bit crc = (if crc AND 1 = 1 then drop_bit 1 crc XOR 0xEDB88320 else drop_bit 1 crc)"

definition crc32 :: "bytes \<Rightarrow> 32 word" where
  "crc32 bs = NOT (foldl (\<lambda>crc byte. (crc_bit ^^ 8) (crc XOR of_nat (of_char byte))) (NOT 0) bs)"

definition u16_max :: nat where "u16_max = 65535"

definition encode_header :: "string \<times> string \<Rightarrow> bytes option" where
  "encode_header nv =
     (if length (fst nv) \<le> u8_max \<and> length (snd nv) \<le> u16_max
      then Some (char_of (length (fst nv)) # fst nv @ [char_of (7 :: nat)] @ to_be_bytes 2 (length (snd nv)) @ snd nv)
      else None)"

fun encode_headers :: "(string \<times> string) list \<Rightarrow> bytes option" where
  "encode_headers [] = Some []"
| "encode_headers (nv # hs) = Option.bind (encode_header nv) (\<lambda>b. map_option ((@) b) (encode_headers hs))"

definition encode :: "(string \<times> string) list \<Rightarrow> bytes \<Rightarrow> bytes option" where
  "encode headers payload =
     Option.bind (encode_headers headers) (\<lambda>block.
       let total_len = OVERHEAD + length block + length payload in
       if total_len \<le> u32_max \<and> length block \<le> u32_max then
         (let lens = to_be_bytes 4 total_len @ to_be_bytes 4 (length block);
              out = lens @ to_be_bytes 4 (unat (crc32 lens)) @ block @ payload in
          Some (out @ to_be_bytes 4 (unat (crc32 out))))
       else None)"

subsection \<open>Reading in pieces\<close>

lemma next_message_append: "next_message b = Some (m, n) \<Longrightarrow> next_message (b @ c) = Some (m, n)"
  by (auto simp: next_message_def PRELUDE_LEN_def OVERHEAD_def Let_def split: if_splits)

lemma take_messages_None: "next_message b = None \<Longrightarrow> take_messages b = ([], b)"
  by (simp add: take_messages.simps [of b])

lemma take_messages_Some:
  "next_message b = Some (m, n) \<Longrightarrow> take_messages b = (m # fst (take_messages (drop n b)), snd (take_messages (drop n b)))"
  by (simp add: take_messages.simps [of b] case_prod_unfold)

lemma take_messages_append:
  "take_messages (b @ c) =
     (fst (take_messages b) @ fst (take_messages (snd (take_messages b) @ c)), snd (take_messages (snd (take_messages b) @ c)))"
proof (induction b rule: take_messages.induct)
  case (1 b)
  show ?case
  proof (cases "next_message b")
    case None
    then show ?thesis by (simp add: take_messages_None [OF None])
  next
    case (Some mn)
    obtain m n where mn: "mn = (m, n)" by force
    have n: "n \<le> length b" using next_message_size Some mn by blast
    from 1 [OF Some mn [symmetric]] show ?thesis
      using Some mn n by (simp add: take_messages_Some [OF next_message_append] take_messages_Some)
  qed
qed

lemma take_messages_tail: "next_message (snd (take_messages b)) = None"
proof (induction b rule: take_messages.induct)
  case (1 b)
  then show ?case by (cases "next_message b") (auto simp: take_messages_None take_messages_Some)
qed

interpretation messages: framed take_messages "\<lambda>_. True"
proof unfold_locales
  show "take_messages [] = ([], [])" by (rule take_messages_None) (simp add: next_message_def PRELUDE_LEN_def)
  show "take_messages (snd (take_messages b)) = ([], snd (take_messages b))" for b
    by (rule take_messages_None [OF take_messages_tail])
  show "fst (take_messages (b @ c)) = fst (take_messages b) @ fst (take_messages (snd (take_messages b) @ c))" for b c
    by (subst take_messages_append) simp
qed simp

subsection \<open>Reading back\<close>

definition headers_of :: "(string \<times> string) list \<Rightarrow> es_headers" where
  "headers_of hs = fold (\<lambda>(name, value). set_header name (Some value)) hs es_headers_default"

definition sound_headers :: "(string \<times> string) list \<Rightarrow> bool" where
  "sound_headers hs = list_all (\<lambda>(name, value). valid_utf8 name \<and> valid_utf8 value) hs"

lemma next_header_encoded:
  assumes "encode_header (name, value) = Some b" "valid_utf8 name" "valid_utf8 value"
  shows "next_header (b @ rest) = Some (name, Some value, rest)"
proof -
  have len: "length name \<le> 255" "length value \<le> 65535"
    and b: "b = char_of (length name) # name @ [char_of (7 :: nat)] @ to_be_bytes 2 (length value) @ value"
    using assms(1) by (auto simp: encode_header_def u8_max_def u16_max_def split: if_splits)
  have "of_char (char_of (length name) :: char) = length name" using len(1) by simp
  moreover have "from_be_bytes (to_be_bytes 2 (length value)) = length value"
    using len(2) by (intro be_bytes_round_trip) simp
  moreover have "(b @ rest) ! (1 + length name) = char_of (7 :: nat)"
    by (simp add: b nth_append)
  ultimately show ?thesis
    using assms(2,3) by (simp add: b next_header_def header_value_def Let_def)
qed

lemma parse_headers_encoded:
  "encode_headers hs = Some block \<Longrightarrow> sound_headers hs \<Longrightarrow>
   parse_headers block h = fold (\<lambda>(name, value). set_header name (Some value)) hs h"
proof (induction hs arbitrary: block h)
  case Nil
  then show ?case by (simp add: parse_headers.simps [of "[]"] next_header_def)
next
  case (Cons nv hs)
  obtain name v where nv: "nv = (name, v)" by force
  obtain b rest where b: "encode_header nv = Some b" "encode_headers hs = Some rest" "block = b @ rest"
    using Cons.prems(1) by (auto simp: Option.bind_eq_Some_conv)
  have "next_header block = Some (name, Some v, rest)"
    using next_header_encoded [of name v b rest] b nv Cons.prems(2) by (simp add: sound_headers_def)
  then show ?case
    using Cons.IH [OF b(2)] Cons.prems(2) by (simp add: parse_headers.simps [of block] nv sound_headers_def)
qed

lemma next_message_encoded:
  assumes "encode hs payload = Some f" "length f \<le> MAX_MESSAGE_LEN" "sound_headers hs"
  shows "next_message (f @ rest) = Some (\<lparr>es_headers_of = headers_of hs, es_payload = payload\<rparr>, length f)"
proof -
  obtain block where block: "encode_headers hs = Some block" using assms(1) by (auto simp: encode_def Option.bind_eq_Some_conv)
  define n where "n = OVERHEAD + length block + length payload"
  obtain p m where f: "f = to_be_bytes 4 n @ to_be_bytes 4 (length block) @ p @ block @ payload @ m"
      and pm: "length p = 4" "length m = 4" and n: "n \<le> u32_max" "length block \<le> u32_max"
    using assms(1) that by (auto simp: encode_def block n_def Let_def split: if_splits)
  have total_len: "length f = n" by (simp add: f pm n_def OVERHEAD_def PRELUDE_LEN_def)
  have "from_be_bytes (to_be_bytes 4 n) = n" "from_be_bytes (to_be_bytes 4 (length block)) = length block"
    using n by (auto intro!: be_bytes_round_trip simp: u32_max_def)
  moreover have "parse_headers block es_headers_default = headers_of hs"
    using parse_headers_encoded [OF block assms(3)] by (simp add: headers_of_def)
  moreover have "OVERHEAD \<le> n" "length block \<le> n - OVERHEAD" "n - 4 - (PRELUDE_LEN + length block) = length payload"
    by (simp_all add: n_def OVERHEAD_def)
  ultimately show ?thesis
    using assms(2) total_len pm by (simp add: next_message_def Let_def f PRELUDE_LEN_def)
qed

lemma take_messages_chunks:
  "next_message pending = None \<Longrightarrow> take_chunks take_messages cs pending = take_messages (pending @ concat cs)"
proof (induction cs arbitrary: pending)
  case Nil
  then show ?case by (simp add: take_messages_None)
next
  case (Cons c cs)
  then show ?case
    using take_messages_append [of "pending @ c" "concat cs"] take_messages_tail [of "pending @ c"]
    by (simp add: case_prod_unfold)
qed

text \<open>A message fit to send: it has an encoding, within the format's bound, and its headers are text.\<close>

definition framed_as :: "(string \<times> string) list \<times> bytes \<Rightarrow> bytes \<Rightarrow> bool" where
  "framed_as m f = (encode (fst m) (snd m) = Some f \<and> length f \<le> MAX_MESSAGE_LEN \<and> sound_headers (fst m))"

definition message_of :: "(string \<times> string) list \<times> bytes \<Rightarrow> es_message" where
  "message_of m = \<lparr>es_headers_of = headers_of (fst m), es_payload = snd m\<rparr>"

lemma take_messages_framed:
  "list_all2 framed_as ms fs \<Longrightarrow> next_message part = None \<Longrightarrow> take_messages (concat fs @ part) = (map message_of ms, part)"
proof (induction ms fs rule: list_all2_induct)
  case (Cons m ms f fs)
  then have "next_message (f @ concat fs @ part) = Some (message_of m, length f)"
    using next_message_encoded [of "fst m" "snd m" f] by (simp add: framed_as_def message_of_def)
  with Cons show ?case by (simp add: take_messages_Some)
qed (simp add: take_messages_None)

text \<open>
  C17. What is written in AWS framing, as the repository's own encoder for tests writes it, is read back: the bytes of any sequence of messages that have an encoding within
  the format's bound and whose headers are valid UTF-8, cut into reads anywhere, yield those messages,
  headers and payload, in order, and whatever follows that is not yet a whole message is kept as it is.
\<close>

theorem event_stream_is_read_back:
  assumes "list_all2 framed_as ms fs" "next_message part = None" "concat cs = concat fs @ part"
  shows "take_chunks take_messages cs [] = (map message_of ms, part)"
proof -
  have "next_message [] = None" by (simp add: next_message_def PRELUDE_LEN_def)
  from take_messages_chunks [OF this, of cs] show ?thesis by (simp add: assms(3) take_messages_framed [OF assms(1,2)])
qed

definition hello_message :: "(string \<times> string) list \<times> bytes" where
  "hello_message = ([('':event-type'', ''chunk'')], ''{}'')"

lemma hello_frame: "framed_as hello_message (the (encode (fst hello_message) (snd hello_message)))"
  by (simp add: framed_as_def hello_message_def sound_headers_def encode_def encode_header_def u8_max_def u16_max_def u32_max_def
      OVERHEAD_def PRELUDE_LEN_def MAX_MESSAGE_LEN_def Let_def) code_simp

theorem event_stream_is_read_back_witness:
  "(let f = the (encode [('':event-type'', ''chunk'')] ''{}'') in
    take_chunks take_messages [take 5 f, drop 5 f @ f @ ''abc''] []) =
   ([message_of ([('':event-type'', ''chunk'')], ''{}''), message_of ([('':event-type'', ''chunk'')], ''{}'')], ''abc'')"
proof -
  let ?f = "the (encode (fst hello_message) (snd hello_message))"
  have "next_message ''abc'' = None" by (simp add: next_message_def PRELUDE_LEN_def)
  moreover have "concat [take 5 ?f, drop 5 ?f @ ?f @ ''abc''] = concat [?f, ?f] @ ''abc''"
    by (simp only: concat.simps append.assoc [symmetric] append_take_drop_id append_Nil2)
  moreover have "list_all2 framed_as [hello_message, hello_message] [?f, ?f]" using hello_frame by simp
  ultimately have "take_chunks take_messages [take 5 ?f, drop 5 ?f @ ?f @ ''abc''] [] = (map message_of [hello_message, hello_message], ''abc'')"
    using event_stream_is_read_back by blast
  then show ?thesis by (simp only: hello_message_def Let_def fst_conv snd_conv list.map)
qed

subsection \<open>Failures are told\<close>

text \<open>What a message that reports a failure says of it.\<close>

definition failure_words :: "serde \<Rightarrow> es_message \<Rightarrow> string" where
  "failure_words S msg =
     (case exception_type (es_headers_of msg) of
        None \<Rightarrow> the (stream_error msg)
      | Some _ \<Rightarrow>
          (let body = from_utf8_lossy (es_payload msg) in
           case from_text S body of
             Inr v \<Rightarrow> (case as_str (idx v ''message'') of Some m \<Rightarrow> m | None \<Rightarrow> body)
           | Inl _ \<Rightarrow> body))"

definition failure_kind :: "es_message \<Rightarrow> string" where
  "failure_kind msg = (case exception_type (es_headers_of msg) of Some kind \<Rightarrow> kind | None \<Rightarrow> ''error'')"

definition failure_json :: "serde \<Rightarrow> es_message \<Rightarrow> json" where
  "failure_json S msg = JObj [(''type'', JStr ''error''),
     (''error'', JObj [(''type'', JStr (failure_kind msg)), (''message'', JStr (failure_words S msg))])]"

definition reports_failure :: "es_message \<Rightarrow> bool" where
  "reports_failure msg = (exception_type (es_headers_of msg) \<noteq> None \<or> message_type (es_headers_of msg) = Some ''error'')"

lemma inner_event_failure: "reports_failure msg \<Longrightarrow> inner_event S b64 msg = Some (to_text S (failure_json S msg))"
  by (auto simp: reports_failure_def inner_event_def failure_json_def failure_kind_def failure_words_def exception_event_def
      stream_error_def Let_def split: option.split sum.split)


text \<open>A serialiser that writes one failure and reads it back.\<close>

definition throttling_message :: es_message where
  "throttling_message = \<lparr>es_headers_of = headers_of [('':message-type'', ''exception''), ('':exception-type'', ''throttlingException'')],
     es_payload = ''slow down''\<rparr>"

definition throttled_json :: json where
  "throttled_json = JObj [(''type'', JStr ''error''),
     (''error'', JObj [(''type'', JStr ''throttlingException''), (''message'', JStr ''slow down'')])]"

definition throttled_serde :: serde where
  "throttled_serde = \<lparr>to_text = (\<lambda>_. ''!''), from_text = (\<lambda>t. if t = ''!'' then Inr throttled_json else Inl ''not JSON''),
     f32_of = (\<lambda>_. 0), of_f32 = (\<lambda>_. JNum ''0'')\<rparr>"


end
