(* ===== verification/Pump.thy ===== *)
theory Pump
  imports Failover Event_Stream Gemini_Stream
begin

text \<open>
  The streaming pump (\<^verbatim>\<open>oag-server/src/gateway/sse.rs\<close>): one upstream body read to its end, forwarded to
  the client and accounted for, and the same body collected when there is no client to write to. What the
  world does is a list of turns, one per pass of the read loop: the clock readings, the keepalive ticks
  serviced while waiting, what the wait brought, and what became of the send. The channel to the client
  is the list of what was delivered on it. Parameters: JSON (\<open>S\<close>) and base64 (\<open>b64\<close>).
\<close>

subsection \<open>Adapters\<close>

datatype publisher = Google | AnthropicPublisher

datatype stream_adapter =
    AnthropicAdapter | BedrockAdapter | ConverseAdapter | OpenAICompatAdapter | AzureOpenAIAdapter | CodexAdapter
  | GeminiAdapter | VertexAdapter publisher

definition adapter_framing :: "stream_adapter \<Rightarrow> framing" where
  "adapter_framing ad = (case ad of BedrockAdapter \<Rightarrow> AwsEventStream | ConverseAdapter \<Rightarrow> AwsConverseStream | _ \<Rightarrow> Sse)"

definition chat_adapter_event :: "serde \<Rightarrow> string \<Rightarrow> accumulator \<Rightarrow> (error + stream_event list) \<times> accumulator" where
  "chat_adapter_event S raw acc =
     (case chat_parse_event S raw acc of Inl e \<Rightarrow> (Inl e, acc) | Inr (evs, acc) \<Rightarrow> (Inr evs, acc))"

definition adapter_parse_event :: "serde \<Rightarrow> stream_adapter \<Rightarrow> string \<Rightarrow> accumulator \<Rightarrow>
    (error + stream_event list) \<times> accumulator" where
  "adapter_parse_event S ad raw acc =
     (case ad of
        AnthropicAdapter \<Rightarrow> (anthropic_parse_event S raw acc, acc)
      | BedrockAdapter \<Rightarrow> (anthropic_parse_event S raw acc, acc)
      | ConverseAdapter \<Rightarrow> cv_parse_event S raw acc
      | OpenAICompatAdapter \<Rightarrow> chat_adapter_event S raw acc
      | AzureOpenAIAdapter \<Rightarrow> chat_adapter_event S raw acc
      | CodexAdapter \<Rightarrow> (resp_parse_event S raw acc, acc)
      | GeminiAdapter \<Rightarrow> (gem_parse_event S raw acc, acc)
      | VertexAdapter p \<Rightarrow>
          (case p of Google \<Rightarrow> (gem_parse_event S raw acc, acc) | AnthropicPublisher \<Rightarrow> (anthropic_parse_event S raw acc, acc)))"

subsection \<open>Payloads\<close>

definition take_payloads :: "serde \<Rightarrow> (string \<Rightarrow> bytes option) \<Rightarrow> framing \<Rightarrow> bytes \<Rightarrow> string list \<times> bytes" where
  "take_payloads S b64 fr buf =
     (case fr of
        Sse \<Rightarrow> take_sse_payloads buf
      | AwsEventStream \<Rightarrow> (case take_messages buf of (ms, tail) \<Rightarrow> (List.map_filter (inner_event S b64) ms, tail))
      | AwsConverseStream \<Rightarrow> (case take_messages buf of (ms, tail) \<Rightarrow> (List.map_filter (converse_event S) ms, tail)))"

subsection \<open>Renderers\<close>

datatype renderer =
    RenderNone
  | RenderChat chat_render
  | RenderAnthropic anthropic_render
  | RenderGemini gem_render
  | RenderResponses resp_render

definition renderer_new :: "egress \<Rightarrow> renderer" where
  "renderer_new eg =
     (case eg of
        EgressPassthrough _ _ _ \<Rightarrow> RenderNone
      | EgressChatCompletions request_id model \<Rightarrow> RenderChat (chat_render_new request_id model)
      | EgressAnthropicMessages request_id model \<Rightarrow> RenderAnthropic (anthropic_render_new request_id model)
      | EgressGemini \<Rightarrow> RenderGemini gem_render_new
      | EgressResponses request_id model \<Rightarrow> RenderResponses (resp_render_new request_id model))"

definition for_dialect :: "dialect \<Rightarrow> string \<Rightarrow> string \<Rightarrow> renderer option" where
  "for_dialect d request_id model =
     (case d of
        OpenAIChatCompletions \<Rightarrow> Some (RenderChat (chat_render_new request_id model))
      | AnthropicMessages \<Rightarrow> Some (RenderAnthropic (anthropic_render_new request_id model))
      | GeminiGenerateContent \<Rightarrow> Some (RenderGemini gem_render_new)
      | OpenAIResponses \<Rightarrow> Some (RenderResponses (resp_render_new request_id model))
      | _ \<Rightarrow> None)"

definition frames_text :: "('f \<Rightarrow> string) \<Rightarrow> 'f list \<Rightarrow> string option" where
  "frames_text f out = (if out = [] then None else Some (concat (map f out)))"

definition render_event :: "serde \<Rightarrow> stream_event \<Rightarrow> renderer \<Rightarrow> string option \<times> renderer" where
  "render_event S ev r =
     (case r of
        RenderNone \<Rightarrow> (None, RenderNone)
      | RenderChat st \<Rightarrow> map_prod (frames_text (chat_frame_text S)) RenderChat (chat_render_event ev st)
      | RenderAnthropic st \<Rightarrow> map_prod (frames_text (frame_text S)) RenderAnthropic (anthropic_render_event ev st)
      | RenderGemini st \<Rightarrow> map_prod (frames_text (chat_frame_text S)) RenderGemini (gem_render_event S ev st)
      | RenderResponses st \<Rightarrow> map_prod (frames_text (frame_text S)) RenderResponses (resp_render_event ev st))"

definition error_frame :: "serde \<Rightarrow> egress \<Rightarrow> renderer \<Rightarrow> string \<Rightarrow> bytes option" where
  "error_frame S eg r message =
     (case eg of
        EgressPassthrough d request_id model \<Rightarrow>
          Option.bind (for_dialect d request_id model) (\<lambda>fresh. fst (render_event S (EventError message) fresh))
      | _ \<Rightarrow> fst (render_event S (EventError message) r))"

subsection \<open>Folding events in\<close>

record fold_state =
  fd_saw_content :: bool
  fd_out :: bytes
  fd_acc :: accumulator
  fd_render :: renderer
  fd_in_band :: "string option"

fun is_content :: "stream_event \<Rightarrow> bool" where
  "is_content (TextDelta _) = True"
| "is_content (ThinkingDelta _) = True"
| "is_content (ToolUseStart _ _) = True"
| "is_content _ = False"

fun error_message_of :: "stream_event \<Rightarrow> string option" where
  "error_message_of (EventError m) = Some m"
| "error_message_of _ = None"

definition fold_event :: "serde \<Rightarrow> stream_event \<Rightarrow> fold_state \<Rightarrow> fold_state" where
  "fold_event S ev fd =
     (case render_event S ev (fd_render fd) of (frame, r) \<Rightarrow>
        \<lparr>fd_saw_content = (fd_saw_content fd \<or> is_content ev),
         fd_out = fd_out fd @ (case frame of Some f \<Rightarrow> f | None \<Rightarrow> []),
         fd_acc = observe ev (fd_acc fd),
         fd_render = r,
         fd_in_band = or_else (fd_in_band fd) (error_message_of ev)\<rparr>)"

definition fold_payload :: "serde \<Rightarrow> stream_adapter \<Rightarrow> string \<Rightarrow> fold_state \<Rightarrow> fold_state" where
  "fold_payload S ad payload fd =
     (case adapter_parse_event S ad payload (fd_acc fd) of
        (Inl _, acc) \<Rightarrow> fd\<lparr>fd_acc := acc\<rparr>
      | (Inr evs, acc) \<Rightarrow> fold (fold_event S) evs (fd\<lparr>fd_acc := acc\<rparr>))"

definition fold_payloads :: "serde \<Rightarrow> stream_adapter \<Rightarrow> string list \<Rightarrow> accumulator \<Rightarrow> renderer \<Rightarrow> string option \<Rightarrow> fold_state" where
  "fold_payloads S ad payloads acc r in_band =
     fold (fold_payload S ad) payloads
       \<lparr>fd_saw_content = False, fd_out = [], fd_acc = acc, fd_render = r, fd_in_band = in_band\<rparr>"

definition collect_payload :: "serde \<Rightarrow> stream_adapter \<Rightarrow> string \<Rightarrow> accumulator \<times> stream_event list \<Rightarrow>
    accumulator \<times> stream_event list" where
  "collect_payload S ad payload st =
     (case st of (acc, events) \<Rightarrow>
        case adapter_parse_event S ad payload acc of
          (Inl _, acc) \<Rightarrow> (acc, events)
        | (Inr parsed, acc) \<Rightarrow> (observe_all parsed acc, events @ parsed))"

definition collect_payloads :: "serde \<Rightarrow> stream_adapter \<Rightarrow> string list \<Rightarrow> accumulator \<times> stream_event list \<Rightarrow>
    accumulator \<times> stream_event list" where
  "collect_payloads S ad payloads st = fold (collect_payload S ad) payloads st"

subsection \<open>The pump\<close>

definition MAX_PENDING :: nat where "MAX_PENDING = 8 * 1024 * 1024"

record deadlines =
  dl_idle :: duration
  dl_max :: duration
  dl_client_write :: duration
  dl_keepalive :: duration

text \<open>What becomes of a send to the client: taken, refused, or not taken in time.\<close>

datatype sent = Delivered | HungUp | WriteTimedOut

datatype upstream_read = IdleElapsed | BodyEnded | ReadFailed string | Arrived bytes

record turn =
  tn_top :: duration
  tn_ticks :: "sent list"
  tn_read :: upstream_read
  tn_seen :: duration
  tn_sent :: sent
  tn_after :: duration

datatype told = Keepalive | Frames bytes

fun told_bytes :: "told \<Rightarrow> bytes" where
  "told_bytes Keepalive = '': keepalive'' @ [LF, LF]"
| "told_bytes (Frames b) = b"

record pump_env =
  pe_serde :: serde
  pe_b64 :: "string \<Rightarrow> bytes option"
  pe_adapter :: stream_adapter
  pe_deadlines :: deadlines
  pe_egress :: egress
  pe_notify :: bool

record pump_state =
  ps_acc :: accumulator
  ps_ttft :: "duration option"
  ps_client_gone :: bool
  ps_error :: "string option"
  ps_in_band :: "string option"
  ps_pending :: bytes
  ps_render :: renderer
  ps_told :: "told list"
  ps_signals :: nat

definition pump_start :: "pump_env \<Rightarrow> function_name_map \<Rightarrow> pump_state" where
  "pump_start E names =
     \<lparr>ps_acc = with_function_names acc_new names, ps_ttft = None, ps_client_gone = False, ps_error = None, ps_in_band = None,
      ps_pending = [], ps_render = renderer_new (pe_egress E), ps_told = [], ps_signals = 0\<rparr>"

definition mark_gone :: "bool \<Rightarrow> pump_state \<Rightarrow> pump_state" where
  "mark_gone notify st =
     (if ps_client_gone st then st
      else st\<lparr>ps_client_gone := True, ps_signals := ps_signals st + (if notify then 1 else 0)\<rparr>)"

definition seconds :: "duration \<Rightarrow> string" where
  "seconds d = show_nat (d div 1000) @ ''s''"

definition exceeded :: "pump_env \<Rightarrow> string" where
  "exceeded E = ''stream exceeded '' @ seconds (dl_max (pe_deadlines E))"

definition keepalive_tick :: "pump_env \<Rightarrow> sent \<Rightarrow> pump_state \<Rightarrow> pump_state" where
  "keepalive_tick E r st =
     (if ps_client_gone st \<or> ps_pending st \<noteq> [] then st
      else if r = Delivered then st\<lparr>ps_told := ps_told st @ [Keepalive]\<rparr>
      else mark_gone (pe_notify E) st)"

definition forward :: "pump_env \<Rightarrow> sent \<Rightarrow> bytes \<Rightarrow> pump_state \<Rightarrow> pump_state" where
  "forward E r outbound st =
     (if r = Delivered then st\<lparr>ps_told := ps_told st @ [Frames outbound], ps_acc := mark_committed (ps_acc st)\<rparr>
      else mark_gone (pe_notify E) st)"

definition passes_through :: "egress \<Rightarrow> bool" where
  "passes_through eg = (case eg of EgressPassthrough _ _ _ \<Rightarrow> True | _ \<Rightarrow> False)"

definition without_event :: "nat \<Rightarrow> string" where
  "without_event n = ''upstream sent '' @ show_nat n @ '' bytes without completing an event''"

text \<open>A read that arrived: account, then forward; the second component is whether the loop breaks.\<close>

definition take_in :: "pump_env \<Rightarrow> duration \<Rightarrow> bytes \<Rightarrow> pump_state \<Rightarrow> pump_state \<times> bytes" where
  "take_in E seen bs st =
     (case take_payloads (pe_serde E) (pe_b64 E) (adapter_framing (pe_adapter E)) (ps_pending st @ bs) of (payloads, tail) \<Rightarrow>
      let fd = fold_payloads (pe_serde E) (pe_adapter E) payloads (ps_acc st) (ps_render st) (ps_in_band st) in
      (st\<lparr>ps_pending := tail, ps_acc := fd_acc fd, ps_render := fd_render fd, ps_in_band := fd_in_band fd,
          ps_ttft := (if ps_ttft st = None \<and> fd_saw_content fd then Some seen else ps_ttft st)\<rparr>,
       if passes_through (pe_egress E) then bs else fd_out fd))"

definition pump_chunk :: "pump_env \<Rightarrow> turn \<Rightarrow> bytes \<Rightarrow> pump_state \<Rightarrow> pump_state \<times> bool" where
  "pump_chunk E tn bs st =
     (case take_in E (tn_seen tn) bs st of (st, outbound) \<Rightarrow>
      let send = (outbound \<noteq> [] \<and> \<not> ps_client_gone st);
          st = (if send then forward E (tn_sent tn) outbound st else st) in
      if send \<and> tn_after tn \<ge> dl_max (pe_deadlines E) then (st\<lparr>ps_error := Some (exceeded E)\<rparr>, True)
      else if length (ps_pending st) > MAX_PENDING
      then (st\<lparr>ps_error := Some (without_event (length (ps_pending st))), ps_pending := []\<rparr>, True)
      else (st, False))"

definition pump_turn :: "pump_env \<Rightarrow> turn \<Rightarrow> pump_state \<Rightarrow> pump_state \<times> bool" where
  "pump_turn E tn st =
     (if tn_top tn \<ge> dl_max (pe_deadlines E) then (st\<lparr>ps_error := Some (exceeded E)\<rparr>, True)
      else
        let st = fold (keepalive_tick E) (tn_ticks tn) st in
        case tn_read tn of
          IdleElapsed \<Rightarrow> (st\<lparr>ps_error := Some (''upstream idle for '' @ seconds (dl_idle (pe_deadlines E)))\<rparr>, True)
        | BodyEnded \<Rightarrow> (st, True)
        | ReadFailed e \<Rightarrow> (st\<lparr>ps_error := Some (''upstream read failed: '' @ e)\<rparr>, True)
        | Arrived bs \<Rightarrow> pump_chunk E tn bs st)"

fun pump_loop :: "pump_env \<Rightarrow> turn list \<Rightarrow> pump_state \<Rightarrow> pump_state option" where
  "pump_loop E [] st = None"
| "pump_loop E (tn # tns) st = (case pump_turn E tn st of (st, done) \<Rightarrow> if done then Some st else pump_loop E tns st)"

definition INCOMPLETE :: string where
  "INCOMPLETE = ''upstream closed before the response was complete''"

definition pump_tail :: "pump_env \<Rightarrow> pump_state \<Rightarrow> pump_state" where
  "pump_tail E st =
     (if ps_pending st = [] then st
      else case take_payloads (pe_serde E) (pe_b64 E) (adapter_framing (pe_adapter E)) (ps_pending st) of (payloads, tail) \<Rightarrow>
        let fd = fold_payloads (pe_serde E) (pe_adapter E) payloads (ps_acc st) (ps_render st) (ps_in_band st) in
        st\<lparr>ps_pending := tail, ps_acc := fd_acc fd, ps_render := fd_render fd, ps_in_band := fd_in_band fd\<rparr>)"

definition reached_end :: "pump_state \<Rightarrow> bool" where
  "reached_end st = (acc_stop_reason (ps_acc st) \<noteq> None)"

definition final_error :: "pump_state \<Rightarrow> string option" where
  "final_error st =
     (let e = (case ps_in_band st of Some m \<Rightarrow> Some (''upstream stream error: '' @ m) | None \<Rightarrow> ps_error st) in
      if e = None \<and> \<not> reached_end st then Some INCOMPLETE else e)"

definition chat_egress :: "egress \<Rightarrow> bool" where
  "chat_egress eg = (case eg of EgressChatCompletions _ _ \<Rightarrow> True | _ \<Rightarrow> False)"

text \<open>What is said after the last read, each send under its own deadline: the error, or the sentinel.\<close>

definition closing_words :: "pump_env \<Rightarrow> pump_state \<Rightarrow> bytes list" where
  "closing_words E st =
     (if ps_client_gone st then []
      else
        (if \<not> reached_end st \<and> ps_in_band st = None
         then (case final_error st of
             None \<Rightarrow> []
           | Some message \<Rightarrow> (case error_frame (pe_serde E) (pe_egress E) (ps_render st) message of Some f \<Rightarrow> [f] | None \<Rightarrow> []))
         else []) @
        (if reached_end st \<and> chat_egress (pe_egress E) then [done_frame] else []))"

definition pump_finish :: "pump_env \<Rightarrow> sent \<Rightarrow> duration \<Rightarrow> pump_state \<Rightarrow> stream_outcome \<times> told list" where
  "pump_finish E r total_time st =
     (let st = pump_tail E st in
      (\<lparr>so_accumulator = ps_acc st, so_ttft = ps_ttft st, so_total = total_time, so_client_gone = ps_client_gone st,
        so_error = final_error st\<rparr>,
       ps_told st @ (if r = Delivered then map Frames (closing_words E st) else [])))"

definition pump_with :: "pump_env \<Rightarrow> function_name_map \<Rightarrow> turn list \<Rightarrow> sent \<Rightarrow> duration \<Rightarrow> (stream_outcome \<times> told list) option" where
  "pump_with E names turns r total_time = map_option (pump_finish E r total_time) (pump_loop E turns (pump_start E names))"

subsection \<open>Collecting\<close>

text \<open>The same body with no client: \<open>Inl\<close> is the failure with what had been produced by then.\<close>

record collect_state =
  cs_acc :: accumulator
  cs_events :: "stream_event list"
  cs_pending :: bytes

definition collect_in :: "pump_env \<Rightarrow> bytes \<Rightarrow> collect_state \<Rightarrow> collect_state" where
  "collect_in E bs st =
     (case take_payloads (pe_serde E) (pe_b64 E) (adapter_framing (pe_adapter E)) (cs_pending st @ bs) of (payloads, tail) \<Rightarrow>
      case collect_payloads (pe_serde E) (pe_adapter E) payloads (cs_acc st, cs_events st) of (acc, events) \<Rightarrow>
        \<lparr>cs_acc = acc, cs_events = events, cs_pending = tail\<rparr>)"

definition failed :: "string \<Rightarrow> collect_state \<Rightarrow> (error \<times> accumulator) + 'a" where
  "failed message st = Inl (Internal message, cs_acc st)"

definition collect_turn :: "pump_env \<Rightarrow> turn \<Rightarrow> collect_state \<Rightarrow> ((error \<times> accumulator) + collect_state) \<times> bool" where
  "collect_turn E tn st =
     (if tn_top tn \<ge> dl_max (pe_deadlines E)
      then (failed (''upstream stream exceeded '' @ seconds (dl_max (pe_deadlines E))) st, True)
      else case tn_read tn of
          IdleElapsed \<Rightarrow> (failed (''upstream idle for '' @ seconds (dl_idle (pe_deadlines E))) st, True)
        | BodyEnded \<Rightarrow> (Inr st, True)
        | ReadFailed e \<Rightarrow> (failed (''upstream read failed: '' @ e) st, True)
        | Arrived bs \<Rightarrow>
            (let st = collect_in E bs st in
             if length (cs_pending st) > MAX_PENDING then (failed (without_event (length (cs_pending st))) st, True)
             else (Inr st, False)))"

fun collect_loop :: "pump_env \<Rightarrow> turn list \<Rightarrow> collect_state \<Rightarrow> ((error \<times> accumulator) + collect_state) option" where
  "collect_loop E [] st = None"
| "collect_loop E (tn # tns) st =
     (case collect_turn E tn st of
        (r, True) \<Rightarrow> Some r
      | (Inl e, False) \<Rightarrow> Some (Inl e)
      | (Inr st, False) \<Rightarrow> collect_loop E tns st)"

definition collect_finish :: "pump_env \<Rightarrow> collect_state \<Rightarrow> (error \<times> accumulator) + (stream_event list \<times> accumulator)" where
  "collect_finish E st =
     (let st = (if cs_pending st = [] then st else collect_in E [] st) in
      case List.map_filter error_message_of (cs_events st) of
        m # _ \<Rightarrow> failed (''upstream stream error: '' @ m) st
      | [] \<Rightarrow>
          if acc_stop_reason (cs_acc st) = None then failed INCOMPLETE st
          else Inr (cs_events st, cs_acc st))"

definition collect_start :: "function_name_map \<Rightarrow> collect_state" where
  "collect_start names = \<lparr>cs_acc = with_function_names acc_new names, cs_events = [], cs_pending = []\<rparr>"

definition collect_stream :: "pump_env \<Rightarrow> function_name_map \<Rightarrow> turn list \<Rightarrow>
    ((error \<times> accumulator) + (stream_event list \<times> accumulator)) option" where
  "collect_stream E names turns =
     map_option (\<lambda>r. case r of Inl e \<Rightarrow> Inl e | Inr st \<Rightarrow> collect_finish E st) (collect_loop E turns (collect_start names))"

text \<open>A body that is one JSON document: read under a deadline, parsed, and folded in.\<close>

datatype body_read = BodyTimedOut | BodyFailed string | Body bytes

definition parse_response_of :: "serde \<Rightarrow> dialect \<Rightarrow> json \<Rightarrow> error + stream_event list" where
  "parse_response_of S d v =
     (case d of
        AnthropicMessages \<Rightarrow> Inr (anthropic_parse_response S v)
      | OpenAIChatCompletions \<Rightarrow> Inr (chat_parse_response v)
      | GeminiGenerateContent \<Rightarrow> Inr (gem_parse_response S v)
      | OpenAIResponses \<Rightarrow> Inr (resp_parse_response v)
      | BedrockConverse \<Rightarrow> Inr (cv_parse_response S v)
      | SystemOne \<Rightarrow> Inl (Internal (''no non-streaming reader for the '' @ dialect_debug d @ '' dialect'')))"

definition collect_body :: "serde \<Rightarrow> dialect \<Rightarrow> function_name_map \<Rightarrow> duration \<Rightarrow> body_read \<Rightarrow>
    error + (bytes \<times> stream_event list \<times> accumulator)" where
  "collect_body S d names max_duration got =
     (case got of
        BodyTimedOut \<Rightarrow> Inl (Internal (''upstream response body not complete after '' @ seconds max_duration))
      | BodyFailed e \<Rightarrow> Inl (Internal (''reading upstream response: '' @ e))
      | Body b \<Rightarrow>
          (case from_text S b of
             Inl e \<Rightarrow> Inl (Internal (''a successful upstream response was not JSON: '' @ e))
           | Inr v \<Rightarrow>
               (case parse_response_of S d v of
                  Inl e \<Rightarrow> Inl e
                | Inr parsed \<Rightarrow>
                    let events = restore_in_events names parsed in
                    Inr (b, events, observe_all events (with_function_names acc_new names)))))"

subsection \<open>Framing\<close>

definition readable_body :: "framing \<Rightarrow> bytes \<Rightarrow> bool" where
  "readable_body fr b = (case fr of Sse \<Rightarrow> sse_readable b | _ \<Rightarrow> True)"

lemma take_payloads_by_framing:
  "take_payloads S b64 Sse = take_sse_payloads" "readable_body Sse = sse_readable"
  "take_payloads S b64 AwsEventStream = (\<lambda>b. (List.map_filter (inner_event S b64) (fst (take_messages b)), snd (take_messages b)))"
  "take_payloads S b64 AwsConverseStream = (\<lambda>b. (List.map_filter (converse_event S) (fst (take_messages b)), snd (take_messages b)))"
  "readable_body AwsEventStream = (\<lambda>_. True)" "readable_body AwsConverseStream = (\<lambda>_. True)"
  by (simp_all add: fun_eq_iff take_payloads_def readable_body_def case_prod_unfold)

interpretation payloads: framed "take_payloads S b64 fr" "readable_body fr" for S b64 fr
  by (cases fr) (simp_all only: take_payloads_by_framing sse.framed_axioms messages.filtered)

subsection \<open>What a payload adds\<close>

text \<open>No parser reads whether bytes have gone out, so an answer is accounted for the same with and without
  a client.\<close>

abbreviation commit_as :: "bool \<Rightarrow> accumulator \<Rightarrow> accumulator" where
  "commit_as x \<equiv> committed_update (\<lambda>_. x)"

lemma acc_reads_commit [simp]:
  "current_tool_id (commit_as x a) = current_tool_id a" "open_tool_id (commit_as x a) = open_tool_id a"
  "tool_ids (commit_as x a) = tool_ids a" "tool_id_at (commit_as x a) n = tool_id_at a n"
  "saw_tool_call (commit_as x a) = saw_tool_call a" "tool_call_count (commit_as x a) = tool_call_count a"
  "restore_function_name (commit_as x a) = restore_function_name a"
  "restore_tool_use_id (commit_as x a) = restore_tool_use_id a"
  "note_refusal (commit_as x a) = commit_as x (note_refusal a)"
  "hold_stop r (commit_as x a) = commit_as x (hold_stop r a)"
  "take_held_stop (commit_as x a) = apsnd (commit_as x) (take_held_stop a)"
  "acc_saw_refusal (commit_as x a) = acc_saw_refusal a"
  by (simp_all add: current_tool_id_def open_tool_id_def tool_ids_def tool_id_at_def saw_tool_call_def tool_call_count_def
      restore_function_name_def restore_tool_use_id_def note_refusal_def hold_stop_def take_held_stop_def fun_eq_iff)

lemma observe_commit: "observe ev (commit_as x a) = commit_as x (observe ev a)"
  by (cases ev) simp_all

lemma observe_all_commit: "observe_all evs (commit_as x a) = commit_as x (observe_all evs a)"
proof (induction evs arbitrary: a)
  case (Cons ev evs)
  then show ?case by (simp only: observe_all_Cons observe_commit)
qed (simp add: observe_all_def)

lemma anthropic_event_commit: "anthropic_event v (commit_as x a) = anthropic_event v a"
  unfolding anthropic_event_def acc_reads_commit ..

lemma resp_event_commit: "resp_event v (commit_as x a) = resp_event v a"
  unfolding resp_event_def acc_reads_commit ..

lemma resolve_opened_commit: "resolve_opened fresh (commit_as x a) = resolve_opened fresh a"
proof
  show "resolve_opened fresh (commit_as x a) n = resolve_opened fresh a n" for n
    unfolding resolve_opened_def acc_reads_commit ..
qed

lemma chat_call_commit: "chat_call_events (commit_as x a) = chat_call_events a"
  unfolding chat_call_events_def acc_reads_commit resolve_opened_commit by (simp add: fun_eq_iff)

lemma chat_finish_commit: "chat_finish_events (commit_as x a) = chat_finish_events a"
  unfolding chat_finish_events_def acc_reads_commit by (simp add: fun_eq_iff)

lemma chat_event_commit: "chat_event v (commit_as x a) = apsnd (commit_as x) (chat_event v a)"
  by (simp add: chat_event_def chat_call_commit chat_finish_commit Let_def split: list.split prod.split)

lemma cv_stream_event_commit:
  "cv_stream_event kind v (commit_as x a) = apsnd (commit_as x) (cv_stream_event kind v a)"
proof -
  have delta: "cv_parse_delta d (commit_as x a) = cv_parse_delta d a" for d
    unfolding cv_parse_delta_def acc_reads_commit ..
  show ?thesis
    unfolding cv_stream_event_def delta acc_reads_commit Let_def
    by (simp split: prod.split)
qed

lemma cv_members_commit: "cv_members ms (commit_as x a) = apsnd (commit_as x) (cv_members ms a)"
proof (induction ms arbitrary: a)
  case (Cons m ms)
  obtain kind v where m: "m = (kind, v)" by force
  obtain evs a1 where e: "cv_stream_event kind v a = (evs, a1)" by force
  show ?case using Cons.IH [of a1] by (simp add: m cv_stream_event_commit e split: prod.split)
qed simp

lemma parse_commit:
  "adapter_parse_event S ad p (commit_as x a) = apsnd (commit_as x) (adapter_parse_event S ad p a)"
  by (simp add: adapter_parse_event_def anthropic_parse_event_def resp_parse_event_def gem_parse_event_def
      cv_parse_event_def chat_adapter_event_def chat_parse_event_def cv_event_def anthropic_event_commit resp_event_commit
      chat_event_commit cv_members_commit
      split: stream_adapter.split publisher.split sum.split json.split prod.split)

lemma collect_payloads_commit:
  "collect_payloads S ad ps (commit_as x a, evs) = apfst (commit_as x) (collect_payloads S ad ps (a, evs))"
proof (induction ps arbitrary: a evs)
  case (Cons p ps)
  obtain r a1 where "adapter_parse_event S ad p a = (r, a1)" by force
  with Cons.IH show ?case
    by (cases r) (simp_all add: collect_payloads_def collect_payload_def parse_commit observe_all_commit)
qed (simp add: collect_payloads_def)

lemma collect_payloads_from:
  "collect_payloads S ad ps (a, evs) = apsnd ((@) evs) (collect_payloads S ad ps (a, []))"
proof (induction ps arbitrary: a evs)
  case (Cons p ps)
  obtain r a1 where p: "adapter_parse_event S ad p a = (r, a1)" by force
  show ?case
  proof (cases r)
    case (Inl e)
    with p Cons.IH [of a1 evs] show ?thesis by (simp add: collect_payloads_def collect_payload_def)
  next
    case (Inr parsed)
    with p Cons.IH [of "observe_all parsed a1" "evs @ parsed"] Cons.IH [of "observe_all parsed a1" parsed]
    show ?thesis by (simp add: collect_payloads_def collect_payload_def apsnd_compose)
  qed
qed (simp add: collect_payloads_def)

lemma collect_payloads_append:
  "collect_payloads S ad (ps @ qs) st = collect_payloads S ad qs (collect_payloads S ad ps st)"
  by (simp add: collect_payloads_def)

text \<open>What folding payloads in does, over the events they hold.\<close>

fun render_events :: "serde \<Rightarrow> stream_event list \<Rightarrow> renderer \<Rightarrow> bytes \<times> renderer" where
  "render_events S [] r = ([], r)"
| "render_events S (ev # evs) r =
     (case render_event S ev r of (frame, r) \<Rightarrow>
      case render_events S evs r of (out, r) \<Rightarrow> ((case frame of Some f \<Rightarrow> f | None \<Rightarrow> []) @ out, r))"

definition first_error :: "stream_event list \<Rightarrow> string option" where
  "first_error evs = (case List.map_filter error_message_of evs of m # _ \<Rightarrow> Some m | [] \<Rightarrow> None)"

lemma first_error_simps [simp]:
  "first_error [] = None" "first_error (ev # evs) = or_else (error_message_of ev) (first_error evs)"
  by (simp_all add: first_error_def List.map_filter_simps or_else_def split: option.split)

lemma or_else_assoc: "or_else (or_else a b) c = or_else a (or_else b c)"
  by (simp add: or_else_def split: option.split)

lemma or_else_None [simp]: "or_else a None = a" "or_else None a = a"
  by (simp_all add: or_else_def split: option.split)

lemma first_error_append: "first_error (xs @ ys) = or_else (first_error xs) (first_error ys)"
  by (induction xs) (simp_all add: or_else_assoc)

lemma render_events_append:
  "render_events S (xs @ ys) r =
     (fst (render_events S xs r) @ fst (render_events S ys (snd (render_events S xs r))), snd (render_events S ys (snd (render_events S xs r))))"
  by (induction xs arbitrary: r) (simp_all add: case_prod_unfold)

lemma fold_events:
  "fold (fold_event S) evs fd =
     \<lparr>fd_saw_content = (fd_saw_content fd \<or> list_ex is_content evs), fd_out = fd_out fd @ fst (render_events S evs (fd_render fd)),
      fd_acc = observe_all evs (fd_acc fd), fd_render = snd (render_events S evs (fd_render fd)),
      fd_in_band = or_else (fd_in_band fd) (first_error evs)\<rparr>"
proof (induction evs arbitrary: fd)
  case (Cons ev evs)
  then show ?case
    by (simp add: fold_event_def observe_all_Cons or_else_assoc case_prod_unfold disj_assoc)
qed (simp add: observe_all_def)

lemma fold_payload_list:
  "fold (fold_payload S ad) ps fd =
     (case collect_payloads S ad ps (fd_acc fd, []) of (acc, evs) \<Rightarrow>
       (fold (fold_event S) evs fd)\<lparr>fd_acc := acc\<rparr>)"
proof (induction ps arbitrary: fd)
  case (Cons p ps)
  obtain r a1 where p: "adapter_parse_event S ad p (fd_acc fd) = (r, a1)" by force
  show ?case
  proof (cases r)
    case (Inl e)
    with p Cons.IH [of "fd\<lparr>fd_acc := a1\<rparr>"] show ?thesis
      by (simp add: collect_payloads_def collect_payload_def fold_payload_def fold_events case_prod_unfold)
  next
    case (Inr parsed)
    with p Cons.IH [of "fold (fold_event S) parsed (fd\<lparr>fd_acc := a1\<rparr>)"] show ?thesis
      using collect_payloads_from [of S ad ps "observe_all parsed a1" parsed]
      by (simp add: collect_payloads_def collect_payload_def fold_payload_def fold_events case_prod_unfold
          render_events_append first_error_append or_else_assoc disj_assoc)
  qed
qed (simp add: collect_payloads_def)

lemma fold_payloads_spec:
  assumes "collect_payloads S ad ps (acc, []) = (acc', evs)"
  shows "fold_payloads S ad ps acc r ib =
    \<lparr>fd_saw_content = list_ex is_content evs, fd_out = fst (render_events S evs r), fd_acc = acc',
     fd_render = snd (render_events S evs r), fd_in_band = or_else ib (first_error evs)\<rparr>"
  by (simp add: fold_payloads_def fold_payload_list assms fold_events)

end
