(* ===== verification/Streaming.thy ===== *)
theory Streaming
  imports Pump
begin

text \<open>
  Runs of the pump. Collecting is the pump without a client, and the pump follows it step by step
  whatever the client does: the accounting, the errors and the end of a stream do not depend on who is
  listening. What a client that stays is sent is the answer, whole and in order, however the upstream's
  bytes were cut into reads, and then exactly one word on how it ended.
\<close>

subsection \<open>The pump follows the collector\<close>

abbreviation tk_of :: "pump_env \<Rightarrow> bytes \<Rightarrow> string list \<times> bytes" where
  "tk_of E \<equiv> take_payloads (pe_serde E) (pe_b64 E) (adapter_framing (pe_adapter E))"

definition rendered :: "pump_env \<Rightarrow> stream_event list \<Rightarrow> bytes \<times> renderer" where
  "rendered E evs = render_events (pe_serde E) evs (renderer_new (pe_egress E))"

definition keeps_up :: "pump_env \<Rightarrow> pump_state \<Rightarrow> collect_state \<Rightarrow> bool" where
  "keeps_up E st cst =
     (commit_as False (ps_acc st) = cs_acc cst \<and> ps_pending st = cs_pending cst \<and> ps_in_band st = first_error (cs_events cst) \<and>
      ps_render st = snd (rendered E (cs_events cst)) \<and> ps_error st = None \<and> tk_of E (ps_pending st) = ([], ps_pending st))"

lemma keeps_upD:
  assumes "keeps_up E st cst"
  shows "commit_as False (ps_acc st) = cs_acc cst" "ps_pending st = cs_pending cst" "ps_in_band st = first_error (cs_events cst)"
    "ps_render st = snd (rendered E (cs_events cst))" "ps_error st = None" "tk_of E (cs_pending cst) = ([], cs_pending cst)"
  using assms by (auto simp: keeps_up_def)

lemma keeps_up_start: "keeps_up E (pump_start E names) (collect_start names)"
  by (simp add: keeps_up_def pump_start_def collect_start_def rendered_def with_function_names_def acc_new_def
      payloads.empty_read)

lemma collect_in_events:
  obtains new where "cs_events (collect_in E bs cst) = cs_events cst @ new"
    "collect_payloads (pe_serde E) (pe_adapter E) (fst (tk_of E (cs_pending cst @ bs))) (cs_acc cst, []) = (cs_acc (collect_in E bs cst), new)"
proof
  let ?c = "collect_payloads (pe_serde E) (pe_adapter E) (fst (tk_of E (cs_pending cst @ bs)))"
  show "cs_events (collect_in E bs cst) = cs_events cst @ snd (?c (cs_acc cst, []))"
    "?c (cs_acc cst, []) = (cs_acc (collect_in E bs cst), snd (?c (cs_acc cst, [])))"
    using collect_payloads_from [of "pe_serde E" "pe_adapter E" "fst (tk_of E (cs_pending cst @ bs))" "cs_acc cst" "cs_events cst"]
    by (simp_all add: collect_in_def case_prod_unfold)
qed

lemma commit_as_False: "commit_as False a = b \<Longrightarrow> \<not> committed b"
  by (drule arg_cong [where f = committed]) simp

lemma commit_asD: "a = commit_as x b \<Longrightarrow> committed a = x"
  by simp

lemma commit_restore: "commit_as False a = b \<Longrightarrow> a = commit_as (committed a) b"
  by auto

lemma collect_payloads_committed: "committed (fst (collect_payloads S ad ps (a, evs))) = committed a"
proof -
  let ?r = "collect_payloads S ad ps (a, evs)"
  have "fst ?r = fst (apfst (commit_as (committed a)) ?r)"
    using collect_payloads_commit [of S ad ps "committed a" a evs] by simp
  then have "fst ?r = commit_as (committed a) (fst ?r)" by simp
  then show ?thesis by (rule commit_asD)
qed

lemma take_in_keeps_up:
  assumes "keeps_up E st cst"
  obtains new where "cs_events (collect_in E bs cst) = cs_events cst @ new"
    "keeps_up E (fst (take_in E seen bs st)) (collect_in E bs cst)"
    "snd (take_in E seen bs st) = (if passes_through (pe_egress E) then bs else fst (render_events (pe_serde E) new (ps_render st)))"
proof -
  let ?ps = "fst (tk_of E (cs_pending cst @ bs))"
  obtain new where new: "cs_events (collect_in E bs cst) = cs_events cst @ new"
    "collect_payloads (pe_serde E) (pe_adapter E) ?ps (cs_acc cst, []) = (cs_acc (collect_in E bs cst), new)"
    by (rule collect_in_events)
  have acc: "ps_acc st = commit_as (committed (ps_acc st)) (cs_acc cst)"
    using assms by (intro commit_restore) (simp add: keeps_up_def)
  have pending: "ps_pending st = cs_pending cst" using assms by (simp add: keeps_up_def)
  have "collect_payloads (pe_serde E) (pe_adapter E) ?ps (ps_acc st, []) =
      (commit_as (committed (ps_acc st)) (cs_acc (collect_in E bs cst)), new)"
    by (subst acc) (simp add: collect_payloads_commit new(2))
  note fd = fold_payloads_spec [OF this, of "ps_render st" "ps_in_band st"]
  have tail: "snd (tk_of E (cs_pending cst @ bs)) = cs_pending (collect_in E bs cst)"
    by (simp add: collect_in_def case_prod_unfold)
  have ti: "take_in E seen bs st =
      (st\<lparr>ps_pending := cs_pending (collect_in E bs cst), ps_acc := commit_as (committed (ps_acc st)) (cs_acc (collect_in E bs cst)),
          ps_render := snd (render_events (pe_serde E) new (ps_render st)), ps_in_band := or_else (ps_in_band st) (first_error new),
          ps_ttft := (if ps_ttft st = None \<and> list_ex is_content new then Some seen else ps_ttft st)\<rparr>,
       if passes_through (pe_egress E) then bs else fst (render_events (pe_serde E) new (ps_render st)))"
    by (simp add: take_in_def case_prod_unfold pending fd Let_def tail)
  have "committed (cs_acc cst) = False" using commit_as_False [OF keeps_upD(1) [OF assms]] by simp
  then have "\<not> committed (cs_acc (collect_in E bs cst))"
    using collect_payloads_committed [of "pe_serde E" "pe_adapter E" ?ps "cs_acc cst" "[]"] by (simp add: new(2))
  moreover have "tk_of E (cs_pending (collect_in E bs cst)) = ([], cs_pending (collect_in E bs cst))"
    using payloads.spent [of "pe_serde E" "pe_b64 E" "adapter_framing (pe_adapter E)" "cs_pending cst @ bs"] by (simp add: tail)
  ultimately have "keeps_up E (fst (take_in E seen bs st)) (collect_in E bs cst)"
    using keeps_upD [OF assms]
    by (simp add: ti keeps_up_def new(1) first_error_append rendered_def render_events_append)
  then show ?thesis by (rule that [OF new(1)]) (simp add: ti)
qed

lemma mark_gone_keeps_up [simp]: "keeps_up E (mark_gone n st) cst = keeps_up E st cst"
  by (simp add: mark_gone_def keeps_up_def)

lemma keepalive_keeps_up [simp]: "keeps_up E (keepalive_tick E' r st) cst = keeps_up E st cst"
  by (simp add: keepalive_tick_def) (simp add: keeps_up_def)

lemma keepalives_keep_up [simp]: "keeps_up E (fold (keepalive_tick E') rs st) cst = keeps_up E st cst"
  by (induction rs arbitrary: st) simp_all

lemma forward_keeps_up [simp]: "keeps_up E (forward E' r out st) cst = keeps_up E st cst"
  by (simp add: forward_def) (simp add: keeps_up_def mark_committed_def)

lemma pump_chunk_follows:
  assumes "keeps_up E st cst" "tn_after tn < dl_max (pe_deadlines E)"
  shows "if length (cs_pending (collect_in E bs cst)) > MAX_PENDING
    then \<exists>st'. pump_chunk E tn bs st = (st', True) \<and> commit_as False (ps_acc st') = cs_acc (collect_in E bs cst) \<and>
      ps_error st' = Some (without_event (length (cs_pending (collect_in E bs cst)))) \<and> tk_of E (ps_pending st') = ([], ps_pending st')
    else \<exists>st'. pump_chunk E tn bs st = (st', False) \<and> keeps_up E st' (collect_in E bs cst)"
proof -
  obtain st1 out where t: "take_in E (tn_seen tn) bs st = (st1, out)" by force
  from take_in_keeps_up [OF assms(1), of bs "tn_seen tn"] t have k: "keeps_up E st1 (collect_in E bs cst)" by auto
  define st2 where "st2 = (if out \<noteq> [] \<and> \<not> ps_client_gone st1 then forward E (tn_sent tn) out st1 else st1)"
  have k2: "keeps_up E st2 (collect_in E bs cst)" using k by (simp add: st2_def)
  then have "ps_pending st2 = cs_pending (collect_in E bs cst)" "commit_as False (ps_acc st2) = cs_acc (collect_in E bs cst)"
    by (simp_all add: keeps_up_def)
  moreover have "pump_chunk E tn bs st =
      (if length (ps_pending st2) > MAX_PENDING
       then (st2\<lparr>ps_error := Some (without_event (length (ps_pending st2))), ps_pending := []\<rparr>, True) else (st2, False))"
    using assms(2) by (simp add: pump_chunk_def t st2_def Let_def)
  ultimately show ?thesis using k2 by (simp add: payloads.empty_read)
qed

text \<open>One turn of each, when no send ran into the ceiling: they stop together, and account the same.\<close>

definition stopped_alike :: "pump_env \<Rightarrow> pump_state \<Rightarrow> (error \<times> accumulator) + collect_state \<Rightarrow> bool" where
  "stopped_alike E st r =
     (tk_of E (ps_pending st) = ([], ps_pending st) \<and>
      (case r of
         Inr cst \<Rightarrow> keeps_up E st cst
       | Inl (_, acc) \<Rightarrow> commit_as False (ps_acc st) = acc \<and> ps_error st \<noteq> None))"

lemma pump_turn_follows:
  assumes "keeps_up E st cst" "tn_after tn < dl_max (pe_deadlines E)"
  shows "(\<exists>st' cst'. pump_turn E tn st = (st', False) \<and> collect_turn E tn cst = (Inr cst', False) \<and> keeps_up E st' cst') \<or>
    (\<exists>st' r. pump_turn E tn st = (st', True) \<and> collect_turn E tn cst = (r, True) \<and> stopped_alike E st' r)"
proof (cases "tn_top tn \<ge> dl_max (pe_deadlines E)")
  case True
  then show ?thesis
    using keeps_upD [OF assms(1)] by (simp add: pump_turn_def collect_turn_def stopped_alike_def failed_def)
next
  case False
  let ?st = "fold (keepalive_tick E) (tn_ticks tn) st"
  have k: "keeps_up E ?st cst" using assms(1) by simp
  show ?thesis
  proof (cases "tn_read tn")
    case (Arrived bs)
    from pump_chunk_follows [OF k assms(2), of bs] show ?thesis
      using False by (auto simp: pump_turn_def collect_turn_def Arrived stopped_alike_def failed_def Let_def split: if_splits)
  qed (use False k keeps_upD [OF k] in \<open>simp_all add: pump_turn_def collect_turn_def stopped_alike_def failed_def Let_def\<close>)
qed

lemma pump_loop_follows:
  assumes "keeps_up E st cst" "list_all (\<lambda>tn. tn_after tn < dl_max (pe_deadlines E)) turns"
  shows "rel_option (stopped_alike E) (pump_loop E turns st) (collect_loop E turns cst)"
  using assms
proof (induction turns arbitrary: st cst)
  case (Cons tn turns)
  from Cons.prems have "tn_after tn < dl_max (pe_deadlines E)" by simp
  from pump_turn_follows [OF Cons.prems(1) this] show ?case
    using Cons.IH Cons.prems(2) by (auto split: sum.split)
qed simp

lemma pump_tail_spent: "tk_of E (ps_pending st) = ([], ps_pending st) \<Longrightarrow> pump_tail E st = st"
  by (simp add: pump_tail_def fold_payloads_def)

lemma collect_in_spent: "tk_of E (cs_pending cst) = ([], cs_pending cst) \<Longrightarrow> collect_in E [] cst = cst"
  by (simp add: collect_in_def collect_payloads_def)

text \<open>How the pump reports what the collector returns.\<close>

definition reports :: "stream_outcome \<Rightarrow> (error \<times> accumulator) + (stream_event list \<times> accumulator) \<Rightarrow> bool" where
  "reports out r =
     (case r of
        Inr (_, acc) \<Rightarrow> so_error out = None \<and> commit_as False (so_accumulator out) = acc
      | Inl (_, acc) \<Rightarrow> so_error out \<noteq> None \<and> commit_as False (so_accumulator out) = acc)"

lemma finish_reports:
  assumes "stopped_alike E st r"
  shows "reports (fst (pump_finish E s t st)) (case r of Inl e \<Rightarrow> Inl e | Inr cst \<Rightarrow> collect_finish E cst)"
proof -
  have tail: "pump_tail E st = st" using assms by (intro pump_tail_spent) (simp add: stopped_alike_def)
  show ?thesis
  proof (cases r)
    case (Inl e)
    then show ?thesis using assms
      by (cases e) (auto simp: reports_def pump_finish_def tail stopped_alike_def final_error_def Let_def split: option.split)
  next
    case (Inr cst)
    then have k: "keeps_up E st cst" using assms by (simp add: stopped_alike_def)
    then have spent: "(if cs_pending cst = [] then cst else collect_in E [] cst) = cst"
      using collect_in_spent [OF keeps_upD(6) [OF k]] by simp
    have stop: "acc_stop_reason (cs_acc cst) = acc_stop_reason (ps_acc st)"
      using k by (auto simp: keeps_up_def dest!: arg_cong [where f = acc_stop_reason])
    show ?thesis
      using k stop
      by (cases "List.map_filter error_message_of (cs_events cst)")
        (auto simp: reports_def Inr collect_finish_def spent failed_def pump_finish_def tail final_error_def reached_end_def
          keeps_up_def first_error_def Let_def)
  qed
qed

subsection \<open>What the client is sent\<close>

definition heard :: "told list \<Rightarrow> bytes" where
  "heard ts = concat (map (\<lambda>t. case t of Frames b \<Rightarrow> b | Keepalive \<Rightarrow> []) ts)"

lemma heard_simps [simp]:
  "heard [] = []" "heard (ts @ us) = heard ts @ heard us" "heard [Frames b] = b" "heard [Keepalive] = []"
  by (simp_all add: heard_def)

text \<open>Everything there is to send so far: the upstream's bytes, or the events in the client's dialect.\<close>

definition owed_bytes :: "pump_env \<Rightarrow> stream_event list \<Rightarrow> bytes \<Rightarrow> bytes" where
  "owed_bytes E evs body = (if passes_through (pe_egress E) then body else fst (rendered E evs))"

definition hears :: "pump_env \<Rightarrow> stream_event list \<Rightarrow> bytes \<Rightarrow> pump_state \<Rightarrow> bool" where
  "hears E evs body st =
     (prefix (heard (ps_told st)) (owed_bytes E evs body) \<and> (\<not> ps_client_gone st \<longrightarrow> heard (ps_told st) = owed_bytes E evs body))"

lemma mark_gone_hears [intro]: "hears E evs body st \<Longrightarrow> hears E evs body (mark_gone n st)"
  by (auto simp: hears_def mark_gone_def)

lemma keepalive_hears: "hears E evs body st \<Longrightarrow> hears E evs body (keepalive_tick E' r st)"
  by (simp add: keepalive_tick_def mark_gone_hears) (simp add: hears_def)

lemma keepalives_hear: "hears E evs body st \<Longrightarrow> hears E evs body (fold (keepalive_tick E') rs st)"
  by (induction rs arbitrary: st) (simp_all add: keepalive_hears)

lemma pump_chunk_hears:
  assumes "keeps_up E st cst" "hears E (cs_events cst) body st" "pump_chunk E tn bs st = (st', stop)"
  shows "hears E (cs_events (collect_in E bs cst)) (body @ bs) st'"
proof -
  obtain st1 out where t: "take_in E (tn_seen tn) bs st = (st1, out)" by force
  from take_in_keeps_up [OF assms(1), of bs "tn_seen tn"] obtain new
    where new: "cs_events (collect_in E bs cst) = cs_events cst @ new"
      "out = (if passes_through (pe_egress E) then bs else fst (render_events (pe_serde E) new (ps_render st)))"
    by (metis t snd_conv)
  have st1: "ps_told st1 = ps_told st" "ps_client_gone st1 = ps_client_gone st"
    using arg_cong [OF t, of "\<lambda>p. ps_told (fst p)"] arg_cong [OF t, of "\<lambda>p. ps_client_gone (fst p)"]
    by (simp_all add: take_in_def case_prod_unfold Let_def)
  have owed_bytes: "owed_bytes E (cs_events (collect_in E bs cst)) (body @ bs) = owed_bytes E (cs_events cst) body @ out"
    using keeps_upD(4) [OF assms(1)] by (simp add: owed_bytes_def new rendered_def render_events_append)
  have h: "hears E (cs_events cst) body st1" using assms(2) by (simp add: hears_def st1)
  define st2 where "st2 = (if out \<noteq> [] \<and> \<not> ps_client_gone st1 then forward E (tn_sent tn) out st1 else st1)"
  have "hears E (cs_events (collect_in E bs cst)) (body @ bs) st2"
    using h by (auto simp: st2_def hears_def forward_def mark_gone_def owed_bytes prefix_prefix)
  moreover have "ps_told st' = ps_told st2" "ps_client_gone st' = ps_client_gone st2"
    using assms(3) by (auto simp: pump_chunk_def t st2_def Let_def split: if_splits)
  ultimately show ?thesis by (simp add: hears_def)
qed

subsection \<open>A body read to its end\<close>

fun fits :: "(bytes \<Rightarrow> 'p list \<times> bytes) \<Rightarrow> bytes list \<Rightarrow> bytes \<Rightarrow> bool" where
  "fits tk [] pending = True"
| "fits tk (c # cs) pending = (length (snd (tk (pending @ c))) \<le> MAX_PENDING \<and> fits tk cs (snd (tk (pending @ c))))"

definition on_time :: "pump_env \<Rightarrow> turn \<Rightarrow> bool" where
  "on_time E tn = (tn_top tn < dl_max (pe_deadlines E) \<and> tn_after tn < dl_max (pe_deadlines E))"

text \<open>The upstream sent \<open>cs\<close> and closed: every clock below the ceiling, every tail within bounds.\<close>

definition read_out :: "pump_env \<Rightarrow> bytes list \<Rightarrow> turn list \<Rightarrow> bool" where
  "read_out E cs turns =
     (map tn_read turns = map Arrived cs @ [BodyEnded] \<and> list_all (on_time E) turns \<and> fits (tk_of E) cs [])"

lemma collect_in_pending: "cs_pending (collect_in E bs cst) = snd (tk_of E (cs_pending cst @ bs))"
  by (simp add: collect_in_def case_prod_unfold)

lemma run_of_reads:
  assumes "keeps_up E st cst" "hears E (cs_events cst) body st" "map tn_read turns = map Arrived cs @ [BodyEnded]"
    "list_all (on_time E) turns" "fits (tk_of E) cs (cs_pending cst)"
  shows "\<exists>st'. pump_loop E turns st = Some st' \<and> keeps_up E st' (fold (collect_in E) cs cst) \<and>
    hears E (cs_events (fold (collect_in E) cs cst)) (body @ concat cs) st'"
  using assms
proof (induction cs arbitrary: st cst body turns)
  case Nil
  then obtain tn where "turns = [tn]" "tn_read tn = BodyEnded" by auto
  then show ?case using Nil keepalives_hear by (simp add: pump_turn_def on_time_def Let_def)
next
  case (Cons c cs)
  then obtain tn tns where turns: "turns = tn # tns" "tn_read tn = Arrived c" "map tn_read tns = map Arrived cs @ [BodyEnded]"
    by (cases turns) auto
  let ?st = "fold (keepalive_tick E) (tn_ticks tn) st"
  have k: "keeps_up E ?st cst" "hears E (cs_events cst) body ?st" using Cons.prems(1,2) keepalives_hear by simp_all
  have late: "tn_after tn < dl_max (pe_deadlines E)" "tn_top tn < dl_max (pe_deadlines E)"
    using Cons.prems(4) by (simp_all add: turns on_time_def)
  have fit: "length (cs_pending (collect_in E c cst)) \<le> MAX_PENDING" "fits (tk_of E) cs (cs_pending (collect_in E c cst))"
    using Cons.prems(5) by (simp_all add: collect_in_pending)
  obtain st1 where st1: "pump_chunk E tn c ?st = (st1, False)" "keeps_up E st1 (collect_in E c cst)"
    using pump_chunk_follows [OF k(1) late(1), of c] fit(1) by auto
  have "hears E (cs_events (collect_in E c cst)) (body @ c) st1" by (rule pump_chunk_hears [OF k st1(1)])
  from Cons.IH [OF st1(2) this turns(3) _ fit(2)] show ?case
    using Cons.prems(4) late st1(1) by (simp add: turns pump_turn_def Let_def)
qed

lemma collected_pending: "cs_pending (fold (collect_in E) cs cst) = snd (take_chunks (tk_of E) cs (cs_pending cst))"
  by (induction cs arbitrary: cst) (simp_all add: collect_in_pending case_prod_unfold)

lemma collect_reads:
  "collect_payloads (pe_serde E) (pe_adapter E) (fst (take_chunks (tk_of E) cs (cs_pending cst))) (cs_acc cst, cs_events cst) =
     (cs_acc (fold (collect_in E) cs cst), cs_events (fold (collect_in E) cs cst))"
proof (induction cs arbitrary: cst)
  case (Cons c cs)
  have "collect_payloads (pe_serde E) (pe_adapter E) (fst (tk_of E (cs_pending cst @ c))) (cs_acc cst, cs_events cst) =
      (cs_acc (collect_in E c cst), cs_events (collect_in E c cst))"
    by (simp add: collect_in_def case_prod_unfold)
  with Cons.IH [of "collect_in E c cst"] show ?case
    by (simp add: case_prod_unfold collect_payloads_append collect_in_pending)
qed (simp add: collect_payloads_def)

text \<open>A client that takes everything it is sent stays.\<close>

definition takes_all :: "turn \<Rightarrow> bool" where
  "takes_all tn = (tn_sent tn = Delivered \<and> list_all ((=) Delivered) (tn_ticks tn))"

lemma keepalives_stay:
  "list_all ((=) Delivered) rs \<Longrightarrow> ps_client_gone (fold (keepalive_tick E) rs st) = ps_client_gone st"
  by (induction rs arbitrary: st) (auto simp: keepalive_tick_def)

lemma pump_turn_stays: "takes_all tn \<Longrightarrow> ps_client_gone (fst (pump_turn E tn st)) = ps_client_gone st"
  using keepalives_stay [of "tn_ticks tn" E st]
  by (auto simp: takes_all_def pump_turn_def pump_chunk_def take_in_def forward_def Let_def case_prod_unfold
      split: upstream_read.split)

lemma pump_loop_stays:
  "list_all takes_all turns \<Longrightarrow> pump_loop E turns st = Some st' \<Longrightarrow> ps_client_gone st' = ps_client_gone st"
proof (induction turns arbitrary: st)
  case (Cons tn turns)
  obtain st1 stop where t: "pump_turn E tn st = (st1, stop)" by force
  have "ps_client_gone st1 = ps_client_gone st" using pump_turn_stays [of tn E st] Cons.prems(1) t by simp
  then show ?case using Cons.IH [of st1] Cons.prems t by (auto split: if_splits)
qed simp

text \<open>How an answer ended, and the one word the client is owed about it.\<close>

definition stream_verdict :: "accumulator \<Rightarrow> stream_event list \<Rightarrow> string option" where
  "stream_verdict acc evs =
     (case first_error evs of
        Some m \<Rightarrow> Some (''upstream stream error: '' @ m)
      | None \<Rightarrow> if acc_stop_reason acc = None then Some INCOMPLETE else None)"

definition last_word :: "pump_env \<Rightarrow> accumulator \<Rightarrow> stream_event list \<Rightarrow> bytes" where
  "last_word E acc evs =
     (if acc_stop_reason acc \<noteq> None then (if chat_egress (pe_egress E) then done_frame else [])
      else if first_error evs \<noteq> None then []
      else case error_frame (pe_serde E) (pe_egress E) (snd (rendered E evs)) INCOMPLETE of Some f \<Rightarrow> f | None \<Rightarrow> [])"

lemma finish_of_reads:
  assumes "keeps_up E st cst"
  shows "fst (pump_finish E s t st) =
      \<lparr>so_accumulator = ps_acc st, so_ttft = ps_ttft st, so_total = t, so_client_gone = ps_client_gone st,
       so_error = stream_verdict (cs_acc cst) (cs_events cst)\<rparr>"
    and "heard (snd (pump_finish E Delivered t st)) =
      heard (ps_told st) @ (if ps_client_gone st then [] else last_word E (cs_acc cst) (cs_events cst))"
proof -
  note k = keeps_upD [OF assms]
  have tail: "pump_tail E st = st" using k(2,6) by (intro pump_tail_spent) simp
  have stop: "reached_end st \<longleftrightarrow> acc_stop_reason (cs_acc cst) \<noteq> None"
    using arg_cong [OF k(1), of acc_stop_reason] by (simp add: reached_end_def)
  have err: "final_error st = stream_verdict (cs_acc cst) (cs_events cst)"
    by (simp add: final_error_def stream_verdict_def k stop Let_def split: option.split)
  show "fst (pump_finish E s t st) = \<lparr>so_accumulator = ps_acc st, so_ttft = ps_ttft st, so_total = t,
      so_client_gone = ps_client_gone st, so_error = stream_verdict (cs_acc cst) (cs_events cst)\<rparr>"
    by (simp add: pump_finish_def tail err Let_def)
  show "heard (snd (pump_finish E Delivered t st)) =
      heard (ps_told st) @ (if ps_client_gone st then [] else last_word E (cs_acc cst) (cs_events cst))"
    by (auto simp: pump_finish_def tail closing_words_def last_word_def err stop k stream_verdict_def Let_def split: option.split)
qed

lemma read_out_is_told:
  assumes "read_out E cs turns" "readable_body (adapter_framing (pe_adapter E)) (concat cs)"
    and "collect_payloads (pe_serde E) (pe_adapter E) (fst (tk_of E (concat cs))) (with_function_names acc_new names, []) = (acc, evs)"
  shows "\<exists>out told. pump_with E names turns Delivered t = Some (out, told) \<and>
    commit_as False (so_accumulator out) = acc \<and> so_error out = stream_verdict acc evs \<and>
    prefix (heard told) (owed_bytes E evs (concat cs) @ last_word E acc evs) \<and>
    (\<not> so_client_gone out \<longrightarrow> heard told = owed_bytes E evs (concat cs) @ last_word E acc evs) \<and>
    (list_all takes_all turns \<longrightarrow> \<not> so_client_gone out)"
proof -
  let ?cst = "fold (collect_in E) cs (collect_start names)"
  have cst: "cs_acc ?cst = acc" "cs_events ?cst = evs"
    using collect_reads [of E cs "collect_start names"] assms(2,3)
    by (simp_all add: collect_start_def payloads.take_chunks_fresh)
  have "hears E [] [] (pump_start E names)" by (simp add: hears_def owed_bytes_def rendered_def pump_start_def)
  moreover have "cs_events (collect_start names) = []" "cs_pending (collect_start names) = []" by (simp_all add: collect_start_def)
  ultimately obtain st where st: "pump_loop E turns (pump_start E names) = Some st" "keeps_up E st ?cst"
      "hears E evs (concat cs) st"
    using run_of_reads [OF keeps_up_start, of E names "[]" turns cs] assms(1) cst(2) by (auto simp: read_out_def)
  obtain out told where fin: "pump_finish E Delivered t st = (out, told)" by force
  have out: "so_accumulator out = ps_acc st" "so_client_gone out = ps_client_gone st" "so_error out = stream_verdict acc evs"
    using finish_of_reads(1) [OF st(2), of Delivered t] by (simp_all add: fin cst)
  have told: "heard told = heard (ps_told st) @ (if ps_client_gone st then [] else last_word E acc evs)"
    using finish_of_reads(2) [OF st(2), of t] by (simp only: fin cst snd_conv)
  have "pump_with E names turns Delivered t = Some (out, told)" by (simp add: pump_with_def st(1) fin)
  moreover have "list_all takes_all turns \<Longrightarrow> \<not> ps_client_gone st"
    using pump_loop_stays [OF _ st(1)] by (simp add: pump_start_def)
  moreover have "commit_as False (so_accumulator out) = acc" using keeps_upD(1) [OF st(2)] by (simp add: out cst)
  ultimately show ?thesis using st(3) by (auto simp: out told hears_def)
qed

text \<open>
  C13. How the upstream's bytes are cut into reads makes no difference, and a client that stays is told
  everything. Meant is a body read to its end with every clock reading below the ceiling, every unfinished
  tail within the bound of 8 MiB and, over SSE, its complete part valid UTF-8. What the pump accounts
  for and the error it reports are what reading the whole body at once gives: the error its events
  report, or that it closed before the response was complete, or none. Whatever the client did, it was
  sent, keepalives aside, a prefix of what it is owed: the events in its dialect, or the upstream's bytes
  where the dialects agree. One that was not given up was sent all of it and then, if the closing send
  is taken, the last word: the sentinel after a complete answer to a Chat Completions client, its dialect's
  error frame after an incomplete one unless an error had been told in band, and nothing otherwise. A
  client that takes everything it is sent is never given up.
\<close>

theorem stream_is_told_whole:
  assumes "read_out E cs turns" "readable_body (adapter_framing (pe_adapter E)) (concat cs)"
    and "collect_payloads (pe_serde E) (pe_adapter E) (fst (tk_of E (concat cs))) (with_function_names acc_new names, []) = (acc, evs)"
  shows "\<exists>out told. pump_with E names turns Delivered t = Some (out, told) \<and>
    commit_as False (so_accumulator out) = acc \<and> so_error out = stream_verdict acc evs \<and>
    prefix (heard told) (owed_bytes E evs (concat cs) @ last_word E acc evs) \<and>
    (\<not> so_client_gone out \<longrightarrow> heard told = owed_bytes E evs (concat cs) @ last_word E acc evs) \<and>
    (list_all takes_all turns \<longrightarrow> \<not> so_client_gone out)"
  by (rule read_out_is_told [OF assms])

text \<open>
  C14. Pumping a stream to a client and collecting it without one come to the same: on any schedule of reads,
  clocks and sends in which no clock reading after a send has reached the ceiling, both return or neither does,
  the pump reports an error exactly when collecting fails, and what they accounted is the same but for
  the mark that bytes have gone out, whatever the client did.
\<close>

theorem pump_is_collecting_with_a_client:
  assumes "list_all (\<lambda>tn. tn_after tn < dl_max (pe_deadlines E)) turns"
  shows "rel_option (\<lambda>(out, told) r. reports out r) (pump_with E names turns s t) (collect_stream E names turns)"
  using pump_loop_follows [OF keeps_up_start assms, of names] finish_reports
  by (fastforce simp: pump_with_def collect_stream_def option.rel_map case_prod_unfold elim!: option.rel_mono_strong)

subsection \<open>Every state of the pump\<close>

inductive pumping :: "pump_env \<Rightarrow> function_name_map \<Rightarrow> pump_state \<Rightarrow> bool" for E names where
  start: "pumping E names (pump_start E names)"
| turn: "pumping E names st \<Longrightarrow> pump_turn E tn st = (st', False) \<Longrightarrow> pumping E names st'"

fun is_frames :: "told \<Rightarrow> bool" where
  "is_frames (Frames _) = True"
| "is_frames Keepalive = False"

definition pump_sound :: "pump_env \<Rightarrow> pump_state \<Rightarrow> bool" where
  "pump_sound E st =
     (tk_of E (ps_pending st) = ([], ps_pending st) \<and>
      ps_signals st = (if ps_client_gone st \<and> pe_notify E then 1 else 0) \<and>
      (committed (ps_acc st) \<longleftrightarrow> list_ex is_frames (ps_told st)))"

lemma mark_gone_sound: "pump_sound E st \<Longrightarrow> pump_sound E (mark_gone (pe_notify E) st)"
  by (auto simp: pump_sound_def mark_gone_def)

lemma keepalives_sound: "pump_sound E st \<Longrightarrow> pump_sound E (fold (keepalive_tick E) rs st)"
proof (induction rs arbitrary: st)
  case (Cons r rs)
  have "pump_sound E (keepalive_tick E r st)"
    using Cons.prems mark_gone_sound [OF Cons.prems] by (auto simp: keepalive_tick_def) (simp add: pump_sound_def)
  with Cons.IH show ?case by simp
qed simp

lemma take_in_sound: "pump_sound E st \<Longrightarrow> pump_sound E (fst (take_in E seen bs st))"
  using collect_payloads_committed [of "pe_serde E" "pe_adapter E" "fst (tk_of E (ps_pending st @ bs))" "ps_acc st" "[]"]
  by (auto simp: pump_sound_def take_in_def case_prod_unfold Let_def fold_payloads_def fold_payload_list fold_events
      payloads.spent)

lemma forward_sound: "pump_sound E st \<Longrightarrow> pump_sound E (forward E r out st)"
  using mark_gone_sound [of E st] by (auto simp: forward_def) (auto simp: pump_sound_def mark_committed_def)

lemma pump_turn_sound:
  assumes "pump_sound E st"
  shows "pump_sound E (fst (pump_turn E tn st))"
proof -
  have err: "pump_sound E (x\<lparr>ps_error := e\<rparr>) = pump_sound E x" for x e by (simp add: pump_sound_def)
  have cut: "pump_sound E x \<Longrightarrow> pump_sound E (x\<lparr>ps_error := e, ps_pending := []\<rparr>)" for x e
    by (simp add: pump_sound_def payloads.empty_read)
  show ?thesis
    using assms keepalives_sound [OF assms, of "tn_ticks tn"]
    by (auto simp: pump_turn_def pump_chunk_def Let_def case_prod_unfold err take_in_sound forward_sound
        intro!: cut split: upstream_read.split)
qed

lemma keepalives_gone: "ps_client_gone st \<Longrightarrow> fold (keepalive_tick E) rs st = st"
  by (induction rs) (simp_all add: keepalive_tick_def)

lemma pump_turn_gone:
  "ps_client_gone st \<Longrightarrow> ps_client_gone (fst (pump_turn E tn st)) \<and> ps_told (fst (pump_turn E tn st)) = ps_told st"
  by (auto simp: pump_turn_def pump_chunk_def take_in_def keepalives_gone Let_def case_prod_unfold split: upstream_read.split)

lemma pump_turn_bounded: "pump_turn E tn st = (st', False) \<Longrightarrow> length (ps_pending st') \<le> MAX_PENDING"
  by (auto simp: pump_turn_def pump_chunk_def Let_def case_prod_unfold split: upstream_read.splits if_splits)

lemma pumping_sound: "pumping E names st \<Longrightarrow> pump_sound E st \<and> length (ps_pending st) \<le> MAX_PENDING"
proof (induction rule: pumping.induct)
  case start
  then show ?case by (simp add: pump_sound_def pump_start_def payloads.empty_read with_function_names_def acc_new_def)
next
  case (turn st tn st')
  then show ?case using pump_turn_sound [of E st tn] pump_turn_bounded by simp
qed

text \<open>
  C15. In every state the pump's loop can reach, what it holds between reads is at most the bound; and after any
  further turn there is nothing complete in it, the disconnect has been signalled once if the client
  was given up (and there is someone to signal) and never otherwise, bytes count as gone out exactly when a
  frame was delivered, never for a keepalive, and a client that was given up stays so and was sent nothing more.
\<close>

theorem pump_invariant:
  assumes "pumping E names st" "pump_turn E tn st = (st', stop)"
  shows "length (ps_pending st) \<le> MAX_PENDING \<and> fst (tk_of E (ps_pending st')) = [] \<and>
    ps_signals st' = (if ps_client_gone st' \<and> pe_notify E then 1 else 0) \<and>
    (committed (ps_acc st') \<longleftrightarrow> list_ex is_frames (ps_told st')) \<and>
    (ps_client_gone st \<longrightarrow> ps_client_gone st' \<and> ps_told st' = ps_told st)"
proof -
  from pumping_sound [OF assms(1)] have st: "pump_sound E st" "length (ps_pending st) \<le> MAX_PENDING" by simp_all
  from pump_turn_sound [OF st(1), of tn] have "pump_sound E st'" by (simp add: assms(2))
  moreover have "ps_client_gone st \<Longrightarrow> ps_client_gone st' \<and> ps_told st' = ps_told st"
    using pump_turn_gone [of st E tn] by (simp add: assms(2))
  ultimately show ?thesis using st(2) by (simp add: pump_sound_def)
qed

text \<open>
  The second look at the tail once the body has ended, in case a frame completed there, finds nothing: the
  tail was looked at when its last byte arrived.
\<close>

lemma eof_retry_reads_nothing:
  assumes "pumping E names st" "pump_turn E tn st = (st', True)"
  shows "pump_tail E st' = st'"
proof (rule pump_tail_spent)
  have "pump_sound E st" using pumping_sound [OF assms(1)] by simp
  from pump_turn_sound [OF this, of tn] show "tk_of E (ps_pending st') = ([], ps_pending st')"
    by (simp add: assms(2) pump_sound_def)
qed

text \<open>
  The pump comes to an end on any schedule in which the clock reaches the ceiling, or the wait
  for the upstream ends in anything but bytes, whatever the client does.
\<close>

theorem pump_returns:
  assumes "list_ex (\<lambda>tn. dl_max (pe_deadlines E) \<le> tn_top tn \<or> (\<forall>bs. tn_read tn \<noteq> Arrived bs)) turns"
  shows "\<exists>out told. pump_with E names turns s t = Some (out, told)"
proof -
  have "\<exists>st'. pump_loop E turns st = Some st'" for st
    using assms
  proof (induction turns arbitrary: st)
    case (Cons tn turns)
    show ?case
    proof (cases "snd (pump_turn E tn st)")
      case False
      then have "tn_top tn < dl_max (pe_deadlines E)" "\<exists>bs. tn_read tn = Arrived bs"
        by (auto simp: pump_turn_def Let_def split: upstream_read.splits if_splits)
      with Cons.prems have "list_ex (\<lambda>tn. dl_max (pe_deadlines E) \<le> tn_top tn \<or> (\<forall>bs. tn_read tn \<noteq> Arrived bs)) turns" by auto
      with Cons.IH False show ?thesis by (simp add: case_prod_unfold)
    qed (simp add: case_prod_unfold)
  qed simp
  then obtain st where "pump_loop E turns (pump_start E names) = Some st" by blast
  then show ?thesis by (cases "pump_finish E s t st") (simp add: pump_with_def)
qed

subsection \<open>Relaying byte for byte\<close>

lemma keepalive_silent: "take_sse_payloads (told_bytes Keepalive) = ([], [])"
  unfolding told_bytes.simps by code_simp

text \<open>A client that reads what it is sent, as it is sent, has read \<open>qs\<close> and holds the tail the pump holds.\<close>

definition reads_along :: "string list \<Rightarrow> pump_state \<Rightarrow> bool" where
  "reads_along qs st =
     (\<not> ps_client_gone st \<longrightarrow> take_chunks take_sse_payloads (map told_bytes (ps_told st)) [] = (qs, ps_pending st))"

lemma keepalives_read_along: "reads_along qs st \<Longrightarrow> reads_along qs (fold (keepalive_tick E) rs st)"
proof (induction rs arbitrary: st)
  case (Cons r rs)
  have "reads_along qs (keepalive_tick E r st)"
    using Cons.prems keepalive_silent
    by (auto simp: keepalive_tick_def reads_along_def mark_gone_def take_chunks_append simp del: told_bytes.simps)
  with Cons.IH show ?case by simp
qed simp

lemma pump_chunk_reads_along:
  assumes "passes_through (pe_egress E)" "adapter_framing (pe_adapter E) = Sse" "reads_along qs st"
    "take_sse_payloads (ps_pending st) = ([], ps_pending st)" "pump_chunk E tn bs st = (st', False)"
  shows "reads_along (qs @ fst (take_sse_payloads (ps_pending st @ bs))) st'"
proof -
  have tk: "tk_of E = take_sse_payloads" by (simp add: assms(2) take_payloads_by_framing)
  obtain st1 where t: "take_in E (tn_seen tn) bs st = (st1, bs)"
    using assms(1) by (simp add: take_in_def case_prod_unfold Let_def)
  have st1: "ps_told st1 = ps_told st" "ps_client_gone st1 = ps_client_gone st" "ps_pending st1 = snd (take_sse_payloads (ps_pending st @ bs))"
    using arg_cong [OF t, of "\<lambda>p. ps_told (fst p)"] arg_cong [OF t, of "\<lambda>p. ps_client_gone (fst p)"]
      arg_cong [OF t, of "\<lambda>p. ps_pending (fst p)"]
    by (simp_all add: take_in_def case_prod_unfold Let_def tk)
  have "st' = (if bs \<noteq> [] \<and> \<not> ps_client_gone st1 then forward E (tn_sent tn) bs st1 else st1)"
    using assms(5) by (auto simp: pump_chunk_def t Let_def split: if_splits)
  then show ?thesis
    using assms(3,4) by (auto simp: reads_along_def st1 forward_def mark_gone_def take_chunks_append case_prod_unfold)
qed

lemma pump_chunk_continues:
  assumes "on_time E tn" "length (snd (tk_of E (ps_pending st @ bs))) \<le> MAX_PENDING"
  obtains st' where "pump_chunk E tn bs st = (st', False)" "ps_pending st' = snd (tk_of E (ps_pending st @ bs))"
proof -
  obtain st1 out where t: "take_in E (tn_seen tn) bs st = (st1, out)" by force
  have p: "ps_pending st1 = snd (tk_of E (ps_pending st @ bs))"
    using arg_cong [OF t, of "\<lambda>p. ps_pending (fst p)"] by (simp add: take_in_def case_prod_unfold Let_def)
  have "ps_pending (forward E (tn_sent tn) out st1) = ps_pending st1" by (simp add: forward_def mark_gone_def)
  with p assms show ?thesis
    by (intro that [of "if out \<noteq> [] \<and> \<not> ps_client_gone st1 then forward E (tn_sent tn) out st1 else st1"])
      (auto simp: pump_chunk_def t on_time_def Let_def)
qed

lemma keepalives_pending [simp]: "ps_pending (fold (keepalive_tick E) rs st) = ps_pending st"
  by (induction rs arbitrary: st) (auto simp: keepalive_tick_def mark_gone_def)

lemma relay_of_reads:
  assumes "passes_through (pe_egress E)" "adapter_framing (pe_adapter E) = Sse" "reads_along qs st"
    "take_sse_payloads (ps_pending st) = ([], ps_pending st)" "map tn_read turns = map Arrived cs @ [BodyEnded]"
    "pump_loop E turns st = Some st'" "list_all (on_time E) turns" "fits (tk_of E) cs (ps_pending st)"
  shows "reads_along (qs @ fst (take_chunks take_sse_payloads cs (ps_pending st))) st'"
  using assms(3-)
proof (induction cs arbitrary: st qs turns)
  case Nil
  then obtain tn where "turns = [tn]" "tn_read tn = BodyEnded" by auto
  with Nil show ?case using keepalives_read_along by (auto simp: pump_turn_def on_time_def Let_def)
next
  case (Cons c cs)
  then obtain tn tns where turns: "turns = tn # tns" "tn_read tn = Arrived c" "map tn_read tns = map Arrived cs @ [BodyEnded]"
    by (cases turns) auto
  have tk: "tk_of E = take_sse_payloads" by (simp add: assms(2) take_payloads_by_framing)
  let ?st = "fold (keepalive_tick E) (tn_ticks tn) st"
  have now: "on_time E tn" using Cons.prems(5) by (simp add: turns)
  obtain st1 where st1: "pump_chunk E tn c ?st = (st1, False)" "ps_pending st1 = snd (take_sse_payloads (ps_pending st @ c))"
    using pump_chunk_continues [OF now, of ?st c] Cons.prems(6) tk by auto
  have along: "reads_along (qs @ fst (take_sse_payloads (ps_pending st @ c))) st1"
    using pump_chunk_reads_along [OF assms(1,2) keepalives_read_along [OF Cons.prems(1)] _ st1(1)] Cons.prems(2) by simp
  have "take_sse_payloads (ps_pending st1) = ([], ps_pending st1)" by (simp add: st1(2) sse.spent)
  moreover have "pump_loop E tns st1 = Some st'" "list_all (on_time E) tns" "fits (tk_of E) cs (ps_pending st1)"
    using Cons.prems(4-6) st1 now on_time_def [of E tn] by (simp_all add: turns pump_turn_def tk Let_def)
  ultimately show ?case
    using Cons.IH [OF along _ turns(3)] by (simp add: st1(2) case_prod_unfold)
qed

text \<open>
  C16. Where client and upstream speak the same dialect over SSE the upstream's bytes are relayed as they come, with
  keepalives between them, and the keepalives never fall inside an event: for a body read to its end on
  time and within bounds whose answer is complete, a client that stayed and reads what it is sent as
  it is sent takes from it the payloads, and is left with the tail, that a reader of the upstream's own
  reads would.
\<close>

theorem relay_keeps_the_payloads:
  assumes "read_out E cs turns" "passes_through (pe_egress E)" "adapter_framing (pe_adapter E) = Sse"
    and "pump_with E names turns s t = Some (out, told)" "\<not> so_client_gone out" "acc_stop_reason (so_accumulator out) \<noteq> None"
  shows "take_chunks take_sse_payloads (map told_bytes told) [] = take_chunks take_sse_payloads cs []"
proof -
  note run = assms(1) [unfolded read_out_def]
  obtain st where st: "pump_loop E turns (pump_start E names) = Some st" "pump_finish E s t st = (out, told)"
    using assms(4) by (auto simp: pump_with_def)
  have empty: "ps_pending (pump_start E names) = []" "ps_told (pump_start E names) = []" by (simp_all add: pump_start_def)
  have k: "keeps_up E st (fold (collect_in E) cs (collect_start names))"
    using run_of_reads [OF keeps_up_start, of E names "[]" turns cs] run st(1)
    by (auto simp: hears_def owed_bytes_def rendered_def pump_start_def collect_start_def)
  have tail: "pump_tail E st = st" using keeps_upD(2,6) [OF k] by (intro pump_tail_spent) simp
  have gone: "\<not> ps_client_gone st" "reached_end st"
    using assms(5,6) arg_cong [OF st(2), of fst] by (auto simp: pump_finish_def tail reached_end_def Let_def)
  then have "closing_words E st = []"
    using assms(2) by (auto simp: closing_words_def chat_egress_def passes_through_def split: egress.splits)
  then have told: "told = ps_told st" using arg_cong [OF st(2), of snd] by (auto simp: pump_finish_def tail Let_def split: if_splits)
  have "reads_along [] (pump_start E names)" by (simp add: reads_along_def empty)
  from relay_of_reads [OF assms(2,3) this _ _ st(1), of cs] run
  have "take_chunks take_sse_payloads (map told_bytes (ps_told st)) [] = (fst (take_chunks take_sse_payloads cs []), ps_pending st)"
    using gone by (simp add: empty sse.empty_read reads_along_def)
  moreover have "ps_pending st = snd (take_chunks take_sse_payloads cs [])"
    using keeps_upD(2) [OF k] by (simp add: collected_pending assms(3) take_payloads_by_framing collect_start_def)
  ultimately show ?thesis by (simp add: told)
qed

subsection \<open>A small stream\<close>

definition small_serde :: serde where
  "small_serde = \<lparr>to_text = (\<lambda>_. ''{}''),
     from_text = (\<lambda>s.
       if s = ''hi'' then Inr (JObj [(''type'', JStr ''content_block_delta''),
         (''delta'', JObj [(''type'', JStr ''text_delta''), (''text'', JStr ''hi'')])])
       else if s = ''end'' then Inr (JObj [(''type'', JStr ''message_delta''), (''delta'', JObj [(''stop_reason'', JStr ''end_turn'')])])
       else Inl ''not JSON''),
     f32_of = (\<lambda>_. 0), of_f32 = (\<lambda>_. JNull)\<rparr>"

definition small_env :: "egress \<Rightarrow> pump_env" where
  "small_env eg = \<lparr>pe_serde = small_serde, pe_b64 = (\<lambda>_. None), pe_adapter = AnthropicAdapter,
     pe_deadlines = \<lparr>dl_idle = 60000, dl_max = 600000, dl_client_write = 30000, dl_keepalive = 15000\<rparr>,
     pe_egress = eg, pe_notify = True\<rparr>"

definition small_turn :: "upstream_read \<Rightarrow> sent \<Rightarrow> turn" where
  "small_turn r s = \<lparr>tn_top = 10, tn_ticks = [Delivered], tn_read = r, tn_seen = 20, tn_sent = s, tn_after = 30\<rparr>"

definition small_reads :: "bytes list" where
  "small_reads = [''data:h'', ''i'' @ [LF, LF] @ ''data:end'' @ [LF], [LF]]"

definition small_turns :: "sent \<Rightarrow> turn list" where
  "small_turns s = map (\<lambda>b. small_turn (Arrived b) s) small_reads @ [small_turn BodyEnded s]"

lemma small_lines:
  "data_payload ''data:hi'' = Some ''hi''" "data_payload ''data:end'' = Some ''end''" "data_payload [] = None"
proof -
  have "trim_done ''hi''" "trim_done ''end''"
    by (simp_all add: trim_done_visible visible_def)
  then show "data_payload ''data:hi'' = Some ''hi''" "data_payload ''data:end'' = Some ''end''" "data_payload [] = None"
    by (simp_all add: data_payload_def strip_prefix_def trim_id)
qed

lemma small_blanks:
  "last_blank_line ''data:h'' = None"
  "last_blank_line (''data:hi'' @ [LF, LF] @ ''data:end'' @ [LF]) = Some 8"
  "last_blank_line (''data:end'' @ [LF, LF]) = Some 9"
  "last_blank_line (concat small_reads) = Some 18"
  by code_simp+

lemma small_valid: "valid_utf8 (''data:hi'' @ [LF, LF])" "valid_utf8 (''data:end'' @ [LF, LF])" "valid_utf8 (concat small_reads)"
  by code_simp+

lemma small_takes:
  "take_sse_payloads ''data:h'' = ([], ''data:h'')"
  "take_sse_payloads (''data:hi'' @ [LF, LF] @ ''data:end'' @ [LF]) = ([''hi''], ''data:end'' @ [LF])"
  "take_sse_payloads (''data:end'' @ [LF, LF]) = ([''end''], [])"
  "take_sse_payloads (concat small_reads) = ([''hi'', ''end''], [])"
  "sse_readable (concat small_reads)"
  using small_blanks small_valid
  by (simp_all add: take_sse_payloads_def sse_readable_def complete_part_def data_payloads_def lines_of_def strip_cr_def small_lines
      small_reads_def List.map_filter_simps)

lemma small_tk: "tk_of (small_env eg) = take_sse_payloads"
  by (simp add: small_env_def adapter_framing_def take_payloads_by_framing)

lemma small_read_out: "read_out (small_env eg) small_reads (small_turns s)"
proof -
  have "fits take_sse_payloads small_reads []"
    using small_takes(1-3) by (simp add: small_reads_def MAX_PENDING_def)
  then show ?thesis
    unfolding read_out_def small_tk
    by (simp add: small_turns_def small_turn_def small_reads_def on_time_def small_env_def comp_def)
qed

definition small_events :: "stream_event list" where
  "small_events = [TextDelta ''hi'', UsageUpdate usage_default, Stop EndTurn usage_default]"

lemma small_collected:
  "collect_payloads (pe_serde (small_env eg)) (pe_adapter (small_env eg)) (fst (tk_of (small_env eg) (concat small_reads)))
     (with_function_names acc_new names, []) =
   (observe_all small_events (with_function_names acc_new names), small_events)"
proof -
  have parse: "adapter_parse_event small_serde AnthropicAdapter ''hi'' a = (Inr [TextDelta ''hi''], a)"
    "adapter_parse_event small_serde AnthropicAdapter ''end'' a =
      (Inr [UsageUpdate usage_default, Stop EndTurn usage_default], a)" for a
    by (simp_all add: adapter_parse_event_def anthropic_parse_event_def small_serde_def anthropic_event_def str_or_def as_str_def
        idx_def anthropic_parse_stop_def anthropic_parse_usage_def usage_default_def u64_or_def as_u64_def Let_def)
  show ?thesis
    unfolding small_tk small_takes(4)
    by (simp add: small_env_def collect_payloads_def collect_payload_def parse small_events_def observe_all_def)
qed

lemma small_verdict:
  "acc_stop_reason (observe_all small_events (with_function_names acc_new names)) = Some EndTurn" "first_error small_events = None"
  by (simp_all add: small_events_def observe_all_def)

lemma small_readable: "readable_body (adapter_framing (pe_adapter (small_env eg))) (concat small_reads)"
  using small_takes(5) by (simp add: small_env_def adapter_framing_def take_payloads_by_framing)

lemma small_takes_all: "list_all takes_all (small_turns Delivered)"
  by (simp add: small_turns_def small_turn_def small_reads_def takes_all_def)

theorem stream_is_told_whole_witness:
  "\<exists>out told. pump_with (small_env (EgressChatCompletions ''r'' ''m'')) identity_names (small_turns Delivered) Delivered 40 = Some (out, told)
    \<and> so_error out = None \<and> \<not> so_client_gone out
    \<and> heard told = ''data: {}'' @ [LF, LF] @ ''data: {}'' @ [LF, LF] @ ''data: [DONE]'' @ [LF, LF]"
proof -
  let ?E = "small_env (EgressChatCompletions ''r'' ''m'')"
  have "last_word ?E (observe_all small_events (with_function_names acc_new identity_names)) small_events = ''data: [DONE]'' @ [LF, LF]"
    by (simp add: last_word_def small_verdict small_env_def chat_egress_def done_frame_def)
  moreover have "owed_bytes ?E small_events (concat small_reads) = ''data: {}'' @ [LF, LF] @ ''data: {}'' @ [LF, LF]"
    by (simp add: owed_bytes_def small_events_def rendered_def small_env_def passes_through_def
        renderer_new_def render_event_def chat_render_new_def frames_text_def chat_frame_text_def small_serde_def Let_def)
  ultimately show ?thesis
    using stream_is_told_whole [OF small_read_out [of "EgressChatCompletions ''r'' ''m''" Delivered] small_readable small_collected [of _ identity_names], of 40]
      small_takes_all by (auto simp: stream_verdict_def small_verdict)
qed

theorem pump_is_collecting_with_a_client_witness:
  "\<exists>out told r. pump_with (small_env (EgressChatCompletions ''r'' ''m'')) identity_names (small_turns HungUp) Delivered 40 = Some (out, told)
    \<and> collect_stream (small_env (EgressChatCompletions ''r'' ''m'')) identity_names (small_turns HungUp) = Some r \<and> reports out r"
proof -
  let ?E = "small_env (EgressChatCompletions ''r'' ''m'')"
  have "list_all (\<lambda>tn. tn_after tn < dl_max (pe_deadlines ?E)) (small_turns HungUp)"
    by (simp add: small_turns_def small_turn_def small_reads_def small_env_def)
  from pump_is_collecting_with_a_client [OF this, of identity_names Delivered 40] show ?thesis
    using read_out_is_told [OF small_read_out [of "EgressChatCompletions ''r'' ''m''" HungUp] small_readable small_collected [of _ identity_names], of 40]
    by (auto simp: option_rel_Some1)
qed

theorem relay_keeps_the_payloads_witness:
  "\<exists>out told. pump_with (small_env (EgressPassthrough AnthropicMessages ''r'' ''m'')) identity_names (small_turns Delivered) Delivered 40 = Some (out, told)
    \<and> take_chunks take_sse_payloads (map told_bytes told) [] = take_chunks take_sse_payloads small_reads []"
proof -
  let ?E = "small_env (EgressPassthrough AnthropicMessages ''r'' ''m'')"
  obtain out told where p: "pump_with ?E identity_names (small_turns Delivered) Delivered 40 = Some (out, told)"
      "commit_as False (so_accumulator out) = observe_all small_events (with_function_names acc_new identity_names)" "\<not> so_client_gone out"
    using read_out_is_told [OF small_read_out [of "EgressPassthrough AnthropicMessages ''r'' ''m''" Delivered] small_readable small_collected [of _ identity_names], of 40]
      small_takes_all by auto
  have "acc_stop_reason (so_accumulator out) \<noteq> None"
    using arg_cong [OF p(2), of acc_stop_reason] by (simp add: small_verdict)
  with relay_keeps_the_payloads [OF small_read_out _ _ p(1,3)] show ?thesis
    using p(1) by (simp add: small_env_def passes_through_def adapter_framing_def)
qed

theorem pump_invariant_witness:
  "\<exists>st'. fst (pump_turn (small_env (EgressPassthrough AnthropicMessages ''r'' ''m'')) (small_turn (Arrived ''data:h'') HungUp)
      (pump_start (small_env (EgressPassthrough AnthropicMessages ''r'' ''m'')) identity_names)) = st'
    \<and> ps_client_gone st' \<and> ps_signals st' = 1 \<and> \<not> committed (ps_acc st')"
proof -
  let ?E = "small_env (EgressPassthrough AnthropicMessages ''r'' ''m'')" and ?tn = "small_turn (Arrived ''data:h'') HungUp"
  let ?st = "pump_start ?E identity_names"
  have gone: "ps_client_gone (fst (pump_turn ?E ?tn ?st))" "ps_told (fst (pump_turn ?E ?tn ?st)) = [Keepalive]"
    by (simp_all add: pump_turn_def pump_chunk_def take_in_def forward_def mark_gone_def keepalive_tick_def small_turn_def pump_start_def
        small_env_def passes_through_def adapter_framing_def take_payloads_by_framing small_takes(1) MAX_PENDING_def Let_def)
  from pump_invariant [OF pumping.start, of ?E ?tn identity_names "fst (pump_turn ?E ?tn ?st)" "snd (pump_turn ?E ?tn ?st)"] gone
  show ?thesis by (simp add: small_env_def)
qed

theorem pump_returns_witness:
  "\<exists>out told. pump_with (small_env EgressGemini) identity_names [small_turn (Arrived ''data:h'') HungUp, small_turn IdleElapsed HungUp] HungUp 40
     = Some (out, told)"
  by (rule pump_returns) (simp add: small_turn_def)

end
