(* ===== verification/Spec2Isabelle.thy ===== *)
theory Spec2Isabelle
  imports Listing Gateway Efforts Refresh Slots Rate_Limit Responses_Reader Gemini_Stream Converse Streaming
begin

text \<open>
  This development verifies the request path of a gateway for language-model APIs. Clients of four
  dialects send requests with a gateway key; the gateway authenticates them, chooses a model for a
  price, leases one of the operator's upstream credentials, forwards the request, fails over between
  credentials, escalates between models, and bills every token that was generated. Sources are named
  relative to \<^verbatim>\<open>src/crates/\<close>.

  \<^bold>\<open>Parts and theories.\<close> A request enters in \<open>Gateway\<close>
  (\<^verbatim>\<open>oag-server/src/gateway/mod.rs\<close>, \<^verbatim>\<open>plan.rs\<close>,
  \<^verbatim>\<open>authn.rs\<close>, keys of \<^verbatim>\<open>oag-store/src/repo/keys.rs\<close>):
  \<open>serve\<close> is the authentication layer in front of \<open>dispatch_request\<close>, which is
  \<open>handle\<close> and the rendering of its result; \<open>handle\<close> parses, normalises the
  model's name (\<open>Alias\<close>, \<^verbatim>\<open>alias.rs\<close>), plans
  (\<open>plan_request\<close>) and runs the request.
  \<^item> Routing: \<open>Catalog\<close>, \<open>Ladder\<close>, \<open>Efforts\<close>,
    \<open>Cost\<close>, \<open>Budgets\<close>, \<open>Policy\<close>
    (\<^verbatim>\<open>oag-router/src\<close>, \<^verbatim>\<open>oag-core/src/tier.rs\<close>) hold
    the data and operations; \<open>Routing\<close> and \<open>Listing\<close> prove what
    \<open>decide\<close>, the two escalations and the model listing do.
  \<^item> Credentials: \<open>Providers\<close>, \<open>Secrets\<close>, \<open>Errors\<close>
    (\<^verbatim>\<open>oag-core/src\<close>), \<open>Breaker\<close>, \<open>Schedule\<close>,
    \<open>Sticky\<close> (\<^verbatim>\<open>oag-pool/src\<close>), \<open>Breakers\<close>
    (\<^verbatim>\<open>oag-server/src/breakers.rs\<close>), \<open>Leasing\<close>
    (\<^verbatim>\<open>gateway/select.rs\<close>), \<open>Refresh\<close>
    (\<^verbatim>\<open>gateway/refresh.rs\<close>), and the shared state of a fleet in Redis:
    \<open>Slots\<close> and \<open>Rate_Limit\<close> (the scripts of
    \<^verbatim>\<open>oag-store/src/cache.rs\<close>).
  \<^item> Forwarding: \<open>Failover\<close> (\<^verbatim>\<open>gateway/failover.rs\<close>) around
    one rung, \<open>Climb\<close> (\<^verbatim>\<open>gateway/climb.rs\<close>) around failover,
    \<open>Respond\<close> (\<^verbatim>\<open>gateway/respond.rs\<close>) for what the client sees,
    \<open>Ledger\<close> (\<^verbatim>\<open>gateway/meter.rs\<close>,
    \<^verbatim>\<open>oag-store/src/repo/usage.rs\<close>, \<^verbatim>\<open>spend.rs\<close>) for
    what is billed.
  \<^item> Messages: \<open>Canonical\<close>, \<open>Tool_Ids\<close>, \<open>Function_Names\<close>,
    \<open>Stream\<close> (\<^verbatim>\<open>oag-proto/src\<close>).
  \<^item> Dialects: \<open>Wire_Json\<close> holds what the codecs use of a JSON value,
    \<open>Answers\<close> what an answer says whatever dialect it is written in.
    \<open>Messages\<close> and \<open>Messages_Stream\<close> model
    \<^verbatim>\<open>oag-proto/src/anthropic.rs\<close>, requests and answers;
    \<open>Collected\<close> is about the hub of that file, through which every answer goes that is not
    streamed; \<open>Completions\<close> and \<open>Completions_Stream\<close> model
    \<^verbatim>\<open>oag-proto/src/openai.rs\<close>, \<open>Responses\<close>,
    \<open>Responses_Stream\<close> and \<open>Responses_Reader\<close>
    \<^verbatim>\<open>oag-proto/src/responses.rs\<close>, \<open>Gemini\<close> and
    \<open>Gemini_Stream\<close> \<^verbatim>\<open>oag-proto/src/gemini.rs\<close>, and
    \<open>Converse\<close> \<^verbatim>\<open>oag-proto/src/converse.rs\<close>, which only upstreams
    speak. \<open>Conversation\<close> says what a conversation holds, whatever dialect it travels in.
  \<^item> Streaming: \<open>Framing\<close> cuts an upstream's bytes into SSE payloads,
    \<open>Event_Stream\<close> (\<^verbatim>\<open>oag-upstream/src/eventstream.rs\<close>) into AWS
    messages, and \<open>Pump\<close> (\<^verbatim>\<open>gateway/sse.rs\<close>) reads a body to its
    end, forwards it under four clocks and accounts for it, or collects it; \<open>Streaming\<close>
    proves what its runs do. A run is a list of turns that says what clocks, upstream and client did in
    each.
  \<^item> \<open>Gateway_Prelude\<close>, \<open>Rust_Strings\<close> and \<open>Utf8\<close> hold the
    shared lemmas and the parts of Rust's standard library the code uses.

  \<^bold>\<open>State and environment.\<close> Pure code is a function with the name it has in the
  source; a struct is a record, an enum a datatype, a fallible function returns a sum with the error on
  the left. Code that awaits runs in a \<open>world\<close> (theory \<open>Runtime\<close>): a record of
  the replica's state (breakers, generator, slots held, sends, sleeps, writes) with a tick that advances
  at every await. What stores, clocks, transports and adapters answer is a record of functions of the
  tick, so a theorem quantifies over every schedule of answers; other requests act on the breakers
  between ticks through the field \<open>others\<close>. \<open>Refresh\<close> interleaves any number
  of tasks, so it is a step function from await to await and a reachability relation over labelled
  steps. Money is an abstract ordered type with the laws of the decimal library as a record of
  operations. The database is a record of the tables a statement touches, and a statement is one atomic
  function on it.

  \<^bold>\<open>What is shown.\<close> Routing never undercuts a floor, refuses exactly when it must
  and finds the nearest capable rung. Leasing grants a usable credential Redis did not call full, or
  tells the truth about why not; the cascade picks a best candidate and starves none; a half-open
  breaker has one probe out at a time. Failover and escalation end, are bounded in sends and leave no
  slot behind, and on one rung the pool is never blamed for an upstream's failure. The ledger bills each
  attempt once, the counters agree with it across months and replays, and savings are claimed once. A
  refresh token is spent once, and a newer one is never overwritten. Names, tool ids, vendor fields and
  model spellings survive their translations; a request rendered for an upstream keeps what its dialect
  can say of the conversation, and a stream or a collected body tells the client what the upstream's
  events said, under the conditions each theorem names. The locale \<open>followed_stream\<close> states
  that once for a renderer and a reader, \<open>faithful_stream\<close> is the case where what was said
  can be computed from their states, and each dialect interprets one of them;
  \<open>conversation_codec\<close> does the same for requests. A request for Bedrock Converse follows
  the rules that service enforces, but for a result without a call or a tool. The pump tells a client
  that stays the whole answer however its bytes were cut, accounts for it as collecting would, and keeps
  its invariant in every state; the locale \<open>framed\<close> states what a cutter of bytes promises,
  and both framings interpret it. Slots bound the requests in flight on a credential, and in exact
  arithmetic a route's allowance holds over every window. Statuses and retry hints tell the client the
  truth. End to end, a refused request costs nothing and a served one respects its floor.

  \<^bold>\<open>Bounds.\<close> Loops of the source are total functions: the failover loop runs over
  the list of allowed switches, retries over a counter, the climb over the escalations left, the suffix
  search of function names over a measure that a pigeonhole argument bounds. No fuel is used: the pump's
  loop runs over the turns of its schedule and is \<open>None\<close> while it has not ended, and
  \<open>pump_returns\<close> says when it has. Byte and word widths are kept where they wrap or
  saturate: dispatch ordinals, token counts, ranks, hashes, durations in milliseconds.

  \<^bold>\<open>Not modelled.\<close> The adapters of the vendors are parameters: URLs and headers,
  HTTP transport, request signing. Only the framing and the parser each one reads a stream with are
  modelled. What a dialect's service answers is documented behaviour, written as functions of the theory
  where a theorem needs it (\<open>cv_stream\<close> and \<open>cv_whole\<close> of
  \<open>Converse\<close>). JSON text and 32-bit floats are a record of functions, with that reading
  undoes writing as a named hypothesis where it is used. In \<open>Failover\<close> and
  \<open>Climb\<close> the pump enters as the outcome it reports, whatever it is; the roundings of the
  rate limit are left out. Metrics and log lines have no effect on the rest and are left out. The
  administration interface and the command line are create, read, update and delete over the database.
  Deployment files hold no logic.
\<close>
end
